(* ===== verification/Prelude.thy ===== *)
theory Prelude
  imports Main "HOL-Library.Word" "HOL-Library.Sublist"
begin

text \<open>
  What the components share: the machine types of the C code, the names of its sizes and
  limits, the reading of a byte sequence as a big-endian or little-endian number, and the
  facts about words and lists that the component proofs use again and again.  Facts that
  move a word expression to natural numbers are collected in \<open>word_nat\<close>.
\<close>

unbundle bit_operations_syntax

section \<open>Machine types\<close>

type_synonym byte = "8 word"
type_synonym u16 = "16 word"
type_synonym u32 = "32 word"
type_synonym u64 = "64 word"

text \<open>
  Sizes (\<^verbatim>\<open>size_t\<close>, 64 bits wide on the targets of the app) are natural numbers; where the
  code checks an addition for wrap-around, the addition is written with \<open>size_add\<close>.
\<close>

definition SIZE_MOD :: nat where
  "SIZE_MOD = 2 ^ 64"

definition size_add :: "nat \<Rightarrow> nat \<Rightarrow> nat" where
  "size_add a b = (a + b) mod SIZE_MOD"

text \<open>The largest \<^verbatim>\<open>int\<close>.\<close>

definition INT_MAX :: nat where "INT_MAX = 2147483647"

text \<open>A \<^verbatim>\<open>malloc\<close> or \<^verbatim>\<open>realloc\<close> may refuse a request; which ones is up to the allocator.\<close>

type_synonym allocator = "nat \<Rightarrow> bool"

named_theorems word_nat \<open>facts that turn word terms into terms over natural numbers\<close>

section \<open>Words\<close>

lemma size_add_small: "a + b < SIZE_MOD \<Longrightarrow> size_add a b = a + b"
  by (simp add: size_add_def)

lemma size_add_3:
  assumes "a + (b + c) < SIZE_MOD"
  shows "size_add (size_add a b) c = a + (b + c)" "size_add a (b + c) = a + (b + c)"
  using assms by (simp_all add: size_add_def add.assoc)

lemma size_add_wraps: "a < SIZE_MOD \<Longrightarrow> b < SIZE_MOD \<Longrightarrow> size_add a b < a \<longleftrightarrow> SIZE_MOD \<le> a + b"
  by (cases "a + b < SIZE_MOD") (simp_all add: size_add_def le_mod_geq)

lemma unat_byte_bound [simp]: "unat (b :: byte) < 256"
  using unsigned_less [of b] by simp

lemma unat_byte_le [simp]: "unat (b :: byte) \<le> 255"
  using unat_byte_bound [of b] by linarith

lemma unat_u64_bound [simp]: "unat (w :: u64) < 18446744073709551616"
  using unsigned_less [of w] by simp

lemma unat_u32_bound [simp]: "unat (w :: u32) < 4294967296"
  using unsigned_less [of w] by simp

lemma unat_mask_and [word_nat]: "unat (w AND mask n) = unat w mod 2 ^ n"
  by (metis take_bit_eq_mask take_bit_eq_mod unsigned_take_bit_eq)

lemma unat_drop [word_nat]: "unat (drop_bit n w) = unat w div 2 ^ n"
  by (metis unat_drop_bit_eq drop_bit_eq_div)

lemma drop_bit_eq_0_iff_unat: "drop_bit n w = 0 \<longleftrightarrow> unat w < 2 ^ n"
proof -
  have "drop_bit n w = 0 \<longleftrightarrow> unat (drop_bit n w) = 0"
    by (simp add: unat_eq_zero)
  then show ?thesis
    by (simp add: unat_drop div_eq_0_iff)
qed

lemma unat_ucast_mod [word_nat]: "unat (ucast (w :: 'a::len word) :: 'b::len word) = unat w mod 2 ^ LENGTH('b)"
  by (simp add: unsigned_ucast_eq take_bit_eq_mod)

lemma unat_ucast_up [simp]:
  "LENGTH('a) \<le> LENGTH('b) \<Longrightarrow> unat (ucast (w :: 'a::len word) :: 'b::len word) = unat w"
  by (rule trans [OF unat_ucast_mod mod_less])
    (meson less_le_trans one_le_numeral power_increasing unsigned_less)

lemma word_eq_if_unat: "unat x = unat y \<Longrightarrow> x = y"
  by (rule word_unat_eq_iff [THEN iffD2])

lemma bit_unat: "bit (w :: 'a::len word) n \<longleftrightarrow> odd (unat w div 2 ^ n)"
proof -
  have "bit (unat w) n \<longleftrightarrow> bit w n" by (simp add: bit_unsigned_iff)
  then show ?thesis by (simp add: bit_iff_odd)
qed

lemma bit_small: "unat (w :: 'a::len word) < 2 ^ n \<Longrightarrow> bit w k \<Longrightarrow> k < n"
  by (rule ccontr)
    (metis bit_unat div_less even_zero less_le_trans not_less one_le_numeral power_increasing)

lemma push_or_small:
  assumes "unat x < 2 ^ n"
  shows "push_bit n r OR x = r * 2 ^ n + (x :: 'a::len word)"
proof -
  have "push_bit n r AND x = 0"
    by (intro bit_word_eqI) (auto simp: bit_simps dest!: bit_small [OF assms])
  then show ?thesis by (simp add: disjunctive_add_eq_or push_bit_eq_mult)
qed

lemma and_7f [word_nat]: "unat (b AND 0x7f :: byte) = unat b mod 128"
  using unat_mask_and [of b 7] by (simp add: mask_eq_exp_minus_1)

lemma and_1f [word_nat]: "unat (b AND 0x1f :: byte) = unat b mod 32"
  using unat_mask_and [of b 5] by (simp add: mask_eq_exp_minus_1)

lemma and_80: "b AND 0x80 = 0 \<longleftrightarrow> unat (b :: byte) < 128"
proof -
  have "b AND 0x80 = 0 \<longleftrightarrow> \<not> bit b 7"
    using and_exp_eq_0_iff_not_bit [of b 7] by simp
  also have "\<dots> \<longleftrightarrow> even (unat b div 128)" by (simp add: bit_unat)
  also have "\<dots> \<longleftrightarrow> unat b < 128"
  proof (cases "unat b < 128")
    case False
    then have "unat b div 128 = 1" using unat_byte_bound [of b] by (simp add: div_nat_eqI)
    then show ?thesis using False by simp
  qed simp
  finally show ?thesis .
qed

lemma push_or_ucast:
  assumes "LENGTH('b) \<le> n" "LENGTH('b) \<le> LENGTH('a)"
  shows "(push_bit n r OR ucast (b :: 'b::len word) :: 'a::len word) = r * 2 ^ n + ucast b"
proof (rule push_or_small)
  have "unat b < 2 ^ n"
    using assms(1) by (meson less_le_trans one_le_numeral power_increasing unsigned_less)
  then show "unat (ucast b :: 'a word) < 2 ^ n" using assms(2) by simp
qed

lemma unat_byte_of_nat: "n < 256 \<Longrightarrow> unat (word_of_nat n :: byte) = n"
  by (rule trans [OF unat_of_nat]) simp

lemma high_bit_split: "128 \<le> n \<Longrightarrow> n < 256 \<Longrightarrow> 128 + n mod 128 = (n :: nat)"
proof -
  assume "128 \<le> n" "n < 256"
  then obtain k where "n = 128 + k" "k < 128" by (metis add_less_cancel_left le_Suc_ex num_double numeral_Bit0)
  then show ?thesis by simp
qed

lemma unat_u64_of_nat: "n < 2 ^ 64 \<Longrightarrow> unat (word_of_nat n :: u64) = n"
  by (rule trans [OF unat_of_nat]) simp

section \<open>Byte sequences as numbers\<close>

text \<open>The value of bytes read most significant first.\<close>

fun be_val :: "byte list \<Rightarrow> nat" where
  "be_val [] = 0"
| "be_val (b # bs) = unat b * 256 ^ length bs + be_val bs"

text \<open>The value of bytes read least significant first.\<close>

fun le_val :: "byte list \<Rightarrow> nat" where
  "le_val [] = 0"
| "le_val (b # bs) = unat b + 256 * le_val bs"

text \<open>The \<open>n\<close> low-order bytes of a number, most significant first.\<close>

fun be_bytes :: "nat \<Rightarrow> nat \<Rightarrow> byte list" where
  "be_bytes 0 v = []"
| "be_bytes (Suc n) v = be_bytes n (v div 256) @ [word_of_nat (v mod 256)]"

lemma be_val_append: "be_val (xs @ ys) = be_val xs * 256 ^ length ys + be_val ys"
  by (induction xs) (simp_all add: algebra_simps power_add)

lemma be_val_snoc [simp]: "be_val (xs @ [b]) = be_val xs * 256 + unat b"
  by (simp add: be_val_append)

lemma be_val_less: "be_val bs < 256 ^ length bs"
proof (induction bs)
  case (Cons b bs)
  have "unat b * 256 ^ length bs + be_val bs < unat b * 256 ^ length bs + 256 ^ length bs"
    using Cons by simp
  also have "\<dots> = (unat b + 1) * 256 ^ length bs" by simp
  also have "\<dots> \<le> 256 * 256 ^ length bs"
    using unat_byte_bound [of b] by (intro mult_le_mono1) simp
  finally show ?case by simp
qed simp

lemma be_val_le_pow: "length bs \<le> n \<Longrightarrow> be_val bs < 256 ^ n"
  by (meson be_val_less less_le_trans one_le_numeral power_increasing)

lemma le_val_rev: "le_val (rev bs) = be_val bs"
proof -
  have app: "le_val (xs @ [b]) = le_val xs + 256 ^ length xs * unat b" for xs and b :: byte
    by (induction xs) (simp_all add: algebra_simps)
  show ?thesis
    by (induction bs) (simp_all add: app)
qed

lemma length_be_bytes [simp]: "length (be_bytes n v) = n"
  by (induction n arbitrary: v) simp_all

lemma unat_word_of_byte [simp]: "unat (word_of_nat (v mod 256) :: byte) = v mod 256"
  by (simp add: unat_of_nat)

lemma be_val_be_bytes: "be_val (be_bytes n v) = v mod 256 ^ n"
proof (induction n arbitrary: v)
  case (Suc n)
  then show ?case
    by (simp add: mod_mult2_eq [of v 256 "256 ^ n"])
qed simp

lemma be_val_be_bytes_id: "v < 256 ^ n \<Longrightarrow> be_val (be_bytes n v) = v"
  by (simp add: be_val_be_bytes)

lemma be_bytes_be_val: "be_bytes (length bs) (be_val bs) = bs"
proof (induction bs rule: rev_induct)
  case (snoc b bs)
  have "(be_val bs * 256 + unat b) div 256 = be_val bs"
    using unat_byte_bound [of b] by simp
  moreover have "(be_val bs * 256 + unat b) mod 256 = unat b"
    using unat_byte_bound [of b] by (simp add: mod_mult_self3)
  ultimately show ?case using snoc by simp
qed simp

lemma be_val_inj: "length xs = length ys \<Longrightarrow> be_val xs = be_val ys \<Longrightarrow> xs = ys"
  by (metis be_bytes_be_val)

section \<open>Lists\<close>

lemma length_2E: "length xs = 2 \<Longrightarrow> (\<And>a b. xs = [a, b] \<Longrightarrow> P) \<Longrightarrow> P"
  by (auto simp: numeral_eq_Suc length_Suc_conv)

lemma length_4E: "length xs = 4 \<Longrightarrow> (\<And>a b c d. xs = [a, b, c, d] \<Longrightarrow> P) \<Longrightarrow> P"
  by (auto simp: numeral_eq_Suc length_Suc_conv)

lemma length_8E:
  "length xs = 8 \<Longrightarrow> (\<And>a b c d e f g h. xs = [a, b, c, d, e, f, g, h] \<Longrightarrow> P) \<Longrightarrow> P"
  by (auto simp: numeral_eq_Suc length_Suc_conv)

lemma suffix_drop [simp, intro]: "suffix (drop n xs) xs"
  by (rule suffix_drop)

lemma take_drop_cong:
  "n \<le> length xs \<Longrightarrow> take n (xs @ ys) = take n xs \<and> drop n (xs @ ys) = drop n xs @ ys"
  by simp

section \<open>Writing into an array\<close>

text \<open>A \<^verbatim>\<open>memcpy\<close> of \<open>bs\<close> to offset \<open>off\<close> of an array.\<close>

definition overwrite :: "nat \<Rightarrow> 'a list \<Rightarrow> 'a list \<Rightarrow> 'a list" where
  "overwrite off bs xs = take off xs @ bs @ drop (off + length bs) xs"

lemma length_overwrite [simp]: "off + length bs \<le> length xs \<Longrightarrow> length (overwrite off bs xs) = length xs"
  by (simp add: overwrite_def)

lemma take_overwrite:
  "off \<le> length xs \<Longrightarrow> n \<le> off \<Longrightarrow> take n (overwrite off bs xs) = take n xs"
  by (simp add: overwrite_def min_absorb1)

lemma take_overwrite_end:
  "off \<le> length xs \<Longrightarrow> take (off + length bs) (overwrite off bs xs) = take off xs @ bs"
  by (simp add: overwrite_def)

lemma overwrite_Nil [simp]: "overwrite off [] xs = xs"
  by (simp add: overwrite_def)

lemma overwrite_snoc:
  "off + length bs < length xs \<Longrightarrow> overwrite off (bs @ [b]) xs = overwrite off bs (xs[off + length bs := b])"
  by (simp add: overwrite_def add.assoc Cons_nth_drop_Suc [symmetric] nth_list_update)

end
