(* ===== verification/Cbs.thy ===== *)
theory Cbs
  imports Prelude
begin

text \<open>
  The byte-string cursor of BoringSSL (\<^verbatim>\<open>crypto/bytestring/cbs.c\<close>, first half): reading
  integers, byte strings, length-prefixed strings and decimal numbers off the front of a
  buffer.  A \<^verbatim>\<open>CBS\<close> is the list of the bytes it still points at.  Each operation returns its
  result (\<open>None\<close> where the C function returns 0) with the cursor it leaves behind, which
  differs from the one it was given even on some failures.  The locale \<open>cbs_reader\<close> is the
  contract every reading operation keeps: it only moves forward, and what it returns does
  not depend on the bytes behind what it consumed.
\<close>

section \<open>The cursor\<close>

type_synonym cbs = "byte list"

definition cbs_get :: "cbs \<Rightarrow> nat \<Rightarrow> byte list option \<times> cbs" where
  "cbs_get s n = (if length s < n then (None, s) else (Some (take n s), drop n s))"

definition CBS_skip :: "cbs \<Rightarrow> nat \<Rightarrow> unit option \<times> cbs" where
  "CBS_skip s n = (case cbs_get s n of (None, s') \<Rightarrow> (None, s') | (Some _, s') \<Rightarrow> (Some (), s'))"

text \<open>
  \<^verbatim>\<open>CBS_stow\<close> copies the bytes to a fresh allocation: success flag, the new \<^verbatim>\<open>*out_ptr\<close>
  (\<open>None\<close> is NULL) and \<^verbatim>\<open>*out_len\<close>.
\<close>

definition CBS_stow :: "allocator \<Rightarrow> cbs \<Rightarrow> bool \<times> byte list option \<times> nat" where
  "CBS_stow alloc s =
     (if length s = 0 then (True, None, 0)
      else if alloc (length s) then (True, Some s, length s)
      else (False, None, 0))"

text \<open>\<^verbatim>\<open>OPENSSL_strndup\<close> stops at the first NUL and adds a terminator.\<close>

definition OPENSSL_strnlen :: "byte list \<Rightarrow> nat" where
  "OPENSSL_strnlen s = length (takeWhile (\<lambda>c. c \<noteq> 0) s)"

definition OPENSSL_strndup :: "allocator \<Rightarrow> byte list \<Rightarrow> byte list option" where
  "OPENSSL_strndup alloc s =
     (let size = OPENSSL_strnlen s; alloc_size = size_add size 1
      in if alloc_size < size then None
         else if \<not> alloc alloc_size then None
         else Some (take size s @ [0]))"

definition CBS_strdup :: "allocator \<Rightarrow> cbs \<Rightarrow> byte list option" where
  "CBS_strdup alloc s = OPENSSL_strndup alloc s"

definition CBS_contains_zero_byte :: "cbs \<Rightarrow> bool" where
  "CBS_contains_zero_byte s = list_ex (\<lambda>b. b = 0) s"

definition CBS_mem_equal :: "cbs \<Rightarrow> byte list \<Rightarrow> bool" where
  "CBS_mem_equal s data = (if length data \<noteq> length s then False else s = data)"

text \<open>The loop of \<^verbatim>\<open>cbs_get_u\<close>: shift the accumulator, or the next byte in.\<close>

primrec be_accum :: "u64 \<Rightarrow> byte list \<Rightarrow> u64" where
  "be_accum result [] = result"
| "be_accum result (b # bs) = be_accum (push_bit 8 result OR ucast b) bs"

definition cbs_get_u :: "cbs \<Rightarrow> nat \<Rightarrow> u64 option \<times> cbs" where
  "cbs_get_u s len = (case cbs_get s len of
     (None, s') \<Rightarrow> (None, s')
   | (Some data, s') \<Rightarrow> (Some (be_accum 0 data), s'))"

definition CBS_get_u8 :: "cbs \<Rightarrow> byte option \<times> cbs" where
  "CBS_get_u8 s = (case cbs_get s 1 of
     (None, s') \<Rightarrow> (None, s')
   | (Some v, s') \<Rightarrow> (Some (v ! 0), s'))"

definition CBS_get_u16 :: "cbs \<Rightarrow> u16 option \<times> cbs" where
  "CBS_get_u16 s = apfst (map_option ucast) (cbs_get_u s 2)"

definition CRYPTO_bswap2 :: "u16 \<Rightarrow> u16" where
  "CRYPTO_bswap2 x = drop_bit 8 x OR push_bit 8 x"

definition CRYPTO_bswap4 :: "u32 \<Rightarrow> u32" where
  "CRYPTO_bswap4 x0 =
     (let x = drop_bit 16 x0 OR push_bit 16 x0
      in drop_bit 8 (x AND 0xff00ff00) OR push_bit 8 (x AND 0x00ff00ff))"

definition CRYPTO_bswap8 :: "u64 \<Rightarrow> u64" where
  "CRYPTO_bswap8 x =
     ucast (CRYPTO_bswap4 (ucast (drop_bit 32 x))) OR
     push_bit 32 (ucast (CRYPTO_bswap4 (ucast x)))"

definition CBS_get_u16le :: "cbs \<Rightarrow> u16 option \<times> cbs" where
  "CBS_get_u16le s = apfst (map_option CRYPTO_bswap2) (CBS_get_u16 s)"

definition CBS_get_u24 :: "cbs \<Rightarrow> u32 option \<times> cbs" where
  "CBS_get_u24 s = apfst (map_option ucast) (cbs_get_u s 3)"

definition CBS_get_u32 :: "cbs \<Rightarrow> u32 option \<times> cbs" where
  "CBS_get_u32 s = apfst (map_option ucast) (cbs_get_u s 4)"

definition CBS_get_u32le :: "cbs \<Rightarrow> u32 option \<times> cbs" where
  "CBS_get_u32le s = apfst (map_option CRYPTO_bswap4) (CBS_get_u32 s)"

definition CBS_get_u64 :: "cbs \<Rightarrow> u64 option \<times> cbs" where
  "CBS_get_u64 s = cbs_get_u s 8"

definition CBS_get_u64le :: "cbs \<Rightarrow> u64 option \<times> cbs" where
  "CBS_get_u64le s = apfst (map_option CRYPTO_bswap8) (cbs_get_u s 8)"

definition CBS_get_last_u8 :: "cbs \<Rightarrow> byte option \<times> cbs" where
  "CBS_get_last_u8 s =
     (if length s = 0 then (None, s)
      else (Some (s ! (length s - 1)), take (length s - 1) s))"

definition CBS_get_bytes :: "cbs \<Rightarrow> nat \<Rightarrow> cbs option \<times> cbs" where
  "CBS_get_bytes s len = (case cbs_get s len of
     (None, s') \<Rightarrow> (None, s')
   | (Some v, s') \<Rightarrow> (Some v, s'))"

text \<open>\<^verbatim>\<open>CBS_copy_bytes\<close> writes the bytes to the front of the caller's array \<open>out\<close>.\<close>

definition CBS_copy_bytes :: "cbs \<Rightarrow> byte list \<Rightarrow> nat \<Rightarrow> byte list option \<times> cbs" where
  "CBS_copy_bytes s out len = (case cbs_get s len of
     (None, s') \<Rightarrow> (None, s')
   | (Some v, s') \<Rightarrow> (Some (v @ drop len out), s'))"

definition cbs_get_length_prefixed :: "cbs \<Rightarrow> nat \<Rightarrow> cbs option \<times> cbs" where
  "cbs_get_length_prefixed s len_len = (case cbs_get_u s len_len of
     (None, s') \<Rightarrow> (None, s')
   | (Some len, s') \<Rightarrow> CBS_get_bytes s' (unat len))"

definition CBS_get_u8_length_prefixed :: "cbs \<Rightarrow> cbs option \<times> cbs" where
  "CBS_get_u8_length_prefixed s = cbs_get_length_prefixed s 1"

definition CBS_get_u16_length_prefixed :: "cbs \<Rightarrow> cbs option \<times> cbs" where
  "CBS_get_u16_length_prefixed s = cbs_get_length_prefixed s 2"

definition CBS_get_u24_length_prefixed :: "cbs \<Rightarrow> cbs option \<times> cbs" where
  "CBS_get_u24_length_prefixed s = cbs_get_length_prefixed s 3"

text \<open>\<^verbatim>\<open>OPENSSL_memchr\<close> as the index of the first hit.\<close>

definition OPENSSL_memchr :: "byte list \<Rightarrow> byte \<Rightarrow> nat option" where
  "OPENSSL_memchr s c =
     (let i = length (takeWhile (\<lambda>b. b \<noteq> c) s) in if i < length s then Some i else None)"

definition CBS_get_until_first :: "cbs \<Rightarrow> byte \<Rightarrow> cbs option \<times> cbs" where
  "CBS_get_until_first s c = (case OPENSSL_memchr s c of
     None \<Rightarrow> (None, s)
   | Some split \<Rightarrow> CBS_get_bytes s split)"

definition OPENSSL_isdigit :: "byte \<Rightarrow> bool" where
  "OPENSSL_isdigit c \<longleftrightarrow> 48 \<le> c \<and> c \<le> 57"

definition UINT64_MAX :: u64 where
  "UINT64_MAX = 0xffffffffffffffff"

fun u64_decimal_loop :: "u64 \<Rightarrow> bool \<Rightarrow> cbs \<Rightarrow> u64 option \<times> cbs" where
  "u64_decimal_loop v seen_digit [] = (if seen_digit then Some v else None, [])"
| "u64_decimal_loop v seen_digit (c # s) =
     (if \<not> OPENSSL_isdigit c then (if seen_digit then Some v else None, c # s)
      else if v = 0 \<and> seen_digit \<or> v > UINT64_MAX div 10 \<or> v * 10 > UINT64_MAX - ucast (c - 48)
        then (None, s)
      else u64_decimal_loop (v * 10 + ucast (c - 48)) True s)"

definition CBS_get_u64_decimal :: "cbs \<Rightarrow> u64 option \<times> cbs" where
  "CBS_get_u64_decimal s = u64_decimal_loop 0 False s"

section \<open>The contract of a reading operation\<close>

locale cbs_reader =
  fixes rd :: "cbs \<Rightarrow> 'a option \<times> cbs"
  assumes rd_split: "rd s = (Some a, r) \<Longrightarrow> \<exists>c. s = c @ r"
    and rd_local: "rd s = (Some a, r) \<Longrightarrow> rd (s @ t) = (Some a, r @ t)"
begin

text \<open>What was consumed reads as the same value in front of any other bytes.\<close>

lemma rd_consumed:
  assumes "rd (c @ r) = (Some a, r)" and "rd c = (Some b, [])"
  shows "a = b"
  using assms rd_local [of c b "[]" r] by simp

text \<open>No accepted byte string is a proper prefix of another one.\<close>

lemma rd_prefix_free:
  assumes "rd c = (Some a, [])" and "rd (c @ t) = (Some b, [])"
  shows "t = []"
  using rd_local [OF assms(1), of t] assms(2) by simp

lemma rd_length: "rd s = (Some a, r) \<Longrightarrow> length r \<le> length s"
  using rd_split by fastforce

end

locale cbs_strict_reader = cbs_reader +
  assumes rd_nonempty: "rd s = (Some a, r) \<Longrightarrow> r \<noteq> s"
begin

text \<open>A strict reader consumes something, so a loop over it ends.\<close>

lemma rd_shrinks:
  assumes "rd s = (Some a, r)"
  shows "length r < length s"
proof -
  obtain c where c: "s = c @ r" using rd_split [OF assms] by blast
  then have "c \<noteq> []" using rd_nonempty [OF assms] by auto
  with c show ?thesis by simp
qed

end

section \<open>Reading integers and strings\<close>

named_theorems cbs_defs \<open>the definitions of the cursor operations\<close>

lemmas [cbs_defs] = cbs_get_def CBS_skip_def cbs_get_u_def CBS_get_u8_def CBS_get_u16_def
  CBS_get_u24_def CBS_get_u32_def CBS_get_u64_def CBS_get_bytes_def

lemma CBS_get_u8_simps [simp]:
  "CBS_get_u8 [] = (None, [])"
  "CBS_get_u8 (b # s) = (Some b, s)"
  by (simp_all add: CBS_get_u8_def cbs_get_def)

lemma unat_be_accum:
  "unat r * 256 ^ length bs + be_val bs < 2 ^ 64 \<Longrightarrow>
   unat (be_accum r bs) = unat r * 256 ^ length bs + be_val bs"
proof (induction bs arbitrary: r)
  case (Cons b bs)
  have step: "push_bit 8 r OR ucast b = r * 256 + ucast b"
    using push_or_ucast [of 8 r b] by simp
  have eq: "(unat r * 256 + unat b) * 256 ^ length bs + be_val bs
      = unat r * 256 ^ length (b # bs) + be_val (b # bs)"
    by (simp add: algebra_simps)
  have "unat r * 256 + unat b \<le> (unat r * 256 + unat b) * 256 ^ length bs"
    by simp
  then have lt: "unat r * 256 + unat b < 2 ^ 64"
    using Cons.prems eq by linarith
  then have "unat (r * 256) = unat r * 256"
    by (subst unat_word_ariths) simp
  then have un: "unat (r * 256 + ucast b) = unat r * 256 + unat b"
    using lt by (simp add: unat_word_ariths)
  show ?case
    using Cons.IH [of "r * 256 + ucast b"] Cons.prems eq un step by simp
qed simp

lemma unat_be_accum_0: "length bs \<le> 8 \<Longrightarrow> unat (be_accum 0 bs) = be_val bs"
  using unat_be_accum [of 0 bs] be_val_le_pow [of bs 8] by simp

lemma cbs_get_u_eq:
  assumes "n \<le> 8"
  shows "cbs_get_u s n = (if length s < n then (None, s)
     else (Some (word_of_nat (be_val (take n s))), drop n s))"
proof -
  have "be_accum 0 (take n s) = word_of_nat (be_val (take n s))"
    using unat_be_accum_0 [of "take n s"] assms by (metis length_take min.coboundedI2 ucast_id of_nat_unat)
  then show ?thesis by (simp add: cbs_get_u_def cbs_get_def)
qed

text \<open>The bytes of a number, read back.\<close>

lemma cbs_get_u_be_bytes:
  assumes "n \<le> 8" "v < 256 ^ n"
  shows "cbs_get_u (be_bytes n v @ r) n = (Some (word_of_nat v), r)"
  using assms by (simp add: cbs_get_u_eq be_val_be_bytes)

lemma cbs_get_u_SomeD:
  assumes "cbs_get_u s n = (Some v, r)" "n \<le> 8"
  shows "length s = n + length r \<and> s = take n s @ r \<and> unat v = be_val (take n s) \<and> unat v < 256 ^ n"
proof -
  from assms have l: "n \<le> length s" and v: "v = word_of_nat (be_val (take n s))"
    and r: "r = drop n s"
    by (auto simp: cbs_get_u_eq split: if_splits)
  have b: "be_val (take n s) < 256 ^ n" using l be_val_less [of "take n s"] by simp
  also have "(256::nat) ^ n \<le> 256 ^ 8" using assms(2) by (intro power_increasing) simp_all
  finally have "unat v = be_val (take n s)" using v by (simp add: unat_of_nat)
  with l r b show ?thesis by simp
qed

lemma reader_strictI:
  assumes "\<And>s. rd s = (if length s < n then (None, s) else (Some (f (take n s)), drop n s))"
    and "0 < n"
  shows "cbs_strict_reader rd"
proof
  fix s a r assume a: "rd s = (Some a, r)"
  then have l: "n \<le> length s" and r: "r = drop n s" and f: "a = f (take n s)"
    by (auto simp: assms(1) split: if_splits)
  show "\<exists>c. s = c @ r" using r by (metis append_take_drop_id)
  show "rd (s @ t) = (Some a, r @ t)" for t using l r f by (simp add: assms(1))
  show "r \<noteq> s" using r l assms(2) by (metis diff_less length_drop less_irrefl less_le_trans)
qed

interpretation get_u8: cbs_strict_reader CBS_get_u8
  by (rule reader_strictI [where n = 1 and f = "\<lambda>c. c ! 0"]) (simp_all add: cbs_defs)

lemma cbs_get_u_strict: "0 < n \<Longrightarrow> cbs_strict_reader (\<lambda>s. cbs_get_u s n)"
  by (rule reader_strictI [where n = n and f = "be_accum 0"]) (simp_all add: cbs_defs)

interpretation get_u16: cbs_strict_reader CBS_get_u16
  by (rule reader_strictI [where n = 2 and f = "\<lambda>c. ucast (be_accum 0 c)"]) (simp_all add: cbs_defs)

interpretation get_u24: cbs_strict_reader CBS_get_u24
  by (rule reader_strictI [where n = 3 and f = "\<lambda>c. ucast (be_accum 0 c)"]) (simp_all add: cbs_defs)

interpretation get_u32: cbs_strict_reader CBS_get_u32
  by (rule reader_strictI [where n = 4 and f = "\<lambda>c. ucast (be_accum 0 c)"]) (simp_all add: cbs_defs)

interpretation get_u64: cbs_strict_reader CBS_get_u64
  by (rule reader_strictI [where n = 8 and f = "be_accum 0"]) (simp_all add: cbs_defs)

lemma CBS_get_bytes_eq:
  "CBS_get_bytes s n = (if length s < n then (None, s) else (Some (take n s), drop n s))"
  by (simp add: cbs_defs)

lemma cbs_get_length_prefixed_SomeD:
  assumes "cbs_get_length_prefixed s n = (Some a, r)"
  obtains len s' where "cbs_get_u s n = (Some len, s')" "unat len \<le> length s'"
    "a = take (unat len) s'" "r = drop (unat len) s'"
  using assms
  by (auto simp: cbs_get_length_prefixed_def CBS_get_bytes_eq split: prod.splits option.splits if_splits)

lemma cbs_get_length_prefixed_strict:
  assumes n: "0 < n" "n \<le> 3"
  shows "cbs_strict_reader (\<lambda>s. cbs_get_length_prefixed s n)"
proof
  fix s a r assume "cbs_get_length_prefixed s n = (Some a, r)"
  then obtain len s' where u: "cbs_get_u s n = (Some len, s')" and l: "unat len \<le> length s'"
    and a: "a = take (unat len) s'" and r: "r = drop (unat len) s'"
    by (rule cbs_get_length_prefixed_SomeD)
  note reader = cbs_get_u_strict [OF n(1)]
  obtain c where c: "s = c @ s'"
    using cbs_reader.rd_split [OF cbs_strict_reader.axioms(1) [OF reader] u] by blast
  show "\<exists>c. s = c @ r" using c r by (metis append.assoc append_take_drop_id)
  show "cbs_get_length_prefixed (s @ t) n = (Some a, r @ t)" for t
    using cbs_reader.rd_local [OF cbs_strict_reader.axioms(1) [OF reader] u, of t] l a r
    by (simp add: cbs_get_length_prefixed_def CBS_get_bytes_eq)
  show "r \<noteq> s"
    using cbs_strict_reader.rd_shrinks [OF reader u] r by (metis length_drop diff_le_self not_less)
qed

interpretation get_u8_prefixed: cbs_strict_reader CBS_get_u8_length_prefixed
  unfolding CBS_get_u8_length_prefixed_def by (rule cbs_get_length_prefixed_strict) simp_all

interpretation get_u16_prefixed: cbs_strict_reader CBS_get_u16_length_prefixed
  unfolding CBS_get_u16_length_prefixed_def by (rule cbs_get_length_prefixed_strict) simp_all

interpretation get_u24_prefixed: cbs_strict_reader CBS_get_u24_length_prefixed
  unfolding CBS_get_u24_length_prefixed_def by (rule cbs_get_length_prefixed_strict) simp_all

section \<open>Little-endian reads\<close>

section \<open>Little-endian reads\<close>

text \<open>A byte swap of a big-endian value is the value of the reversed bytes, bit by bit.\<close>

lemma bswap2_be: "CRYPTO_bswap2 (ucast (be_accum 0 [a, b])) = ucast (be_accum 0 [b, a])"
  unfolding CRYPTO_bswap2_def be_accum.simps
  by (rule bit_word_eqI) (auto simp: bit_simps dest: bit_imp_le_length)

lemma bit_bswap4:
  "bit (CRYPTO_bswap4 x) k \<longleftrightarrow> k < 32 \<and>
     bit x (if k < 8 then 24 + k else if k < 16 then 8 + k else if k < 24 then k - 8 else k - 24)"
proof -
  have m: "(0xff00ff00 :: u32) = push_bit 8 (mask 8) OR push_bit 24 (mask 8)"
    "(0x00ff00ff :: u32) = mask 8 OR push_bit 16 (mask 8)"
    by (simp_all add: mask_eq_exp_minus_1)
  show ?thesis
    unfolding CRYPTO_bswap4_def Let_def m
    by (auto simp: bit_simps dest: bit_imp_le_length)
qed

lemma bit_be_accum_4:
  "bit (be_accum 0 [a, b, c, d]) k \<longleftrightarrow>
     (if k < 8 then bit d k else if k < 16 then bit c (k - 8)
      else if k < 24 then bit b (k - 16) else bit a (k - 24))"
  by (auto simp: bit_simps dest: bit_imp_le_length)

lemma bswap4_be: "CRYPTO_bswap4 (ucast (be_accum 0 [a, b, c, d])) = ucast (be_accum 0 [d, c, b, a])"
  by (rule bit_word_eqI)
    (auto simp: bit_bswap4 bit_be_accum_4 bit_simps simp del: be_accum.simps dest: bit_imp_le_length)

lemma be_accum_append: "be_accum r (xs @ ys) = be_accum (be_accum r xs) ys"
  by (induction xs arbitrary: r) simp_all

lemma be_accum_8_split:
  "be_accum 0 [a, b, c, d, e, f, g, h] = push_bit 32 (be_accum 0 [a, b, c, d]) OR be_accum 0 [e, f, g, h]"
  by (simp add: push_bit_or flip: push_bit_push_bit) (simp add: or.assoc)

lemma bswap8_be:
  "CRYPTO_bswap8 (be_accum 0 [a, b, c, d, e, f, g, h]) = be_accum 0 [h, g, f, e, d, c, b, a]"
proof -
  have hi: "(ucast (drop_bit 32 (be_accum 0 [a, b, c, d, e, f, g, h])) :: u32) = ucast (be_accum 0 [a, b, c, d])"
    unfolding be_accum_8_split
    by (rule bit_word_eqI)
      (auto simp: bit_simps bit_be_accum_4 simp del: be_accum.simps dest: bit_imp_le_length)
  have lo: "(ucast (be_accum 0 [a, b, c, d, e, f, g, h]) :: u32) = ucast (be_accum 0 [e, f, g, h])"
    unfolding be_accum_8_split
    by (rule bit_word_eqI)
      (auto simp: bit_simps bit_be_accum_4 simp del: be_accum.simps dest: bit_imp_le_length)
  have up: "ucast (ucast (be_accum 0 [w, x, y, z]) :: u32) = be_accum 0 [w, x, y, z]" for w x y z
    by (rule bit_word_eqI)
      (auto simp: bit_simps bit_be_accum_4 simp del: be_accum.simps dest: bit_imp_le_length)
  show ?thesis
    unfolding CRYPTO_bswap8_def hi lo bswap4_be up be_accum_8_split [of h] by (rule or.commute)
qed

lemma le_read_value:
  assumes "length bs \<le> 8" "256 ^ length bs \<le> (2 :: nat) ^ LENGTH('a)"
  shows "unat (ucast (be_accum 0 (rev bs)) :: 'a::len word) = le_val bs"
proof -
  have "le_val bs = be_val (rev bs)" using le_val_rev [of "rev bs"] by simp
  moreover have "be_val (rev bs) < 2 ^ LENGTH('a)"
    using be_val_less [of "rev bs"] assms(2) by simp
  ultimately show ?thesis
    using unat_be_accum_0 [of "rev bs"] assms(1) by (simp add: word_nat)
qed

lemma CBS_get_u16le_SomeD:
  assumes "CBS_get_u16le s = (Some v, r)"
  shows "s = take 2 s @ r \<and> unat v = le_val (take 2 s)"
proof -
  from assms have l: "2 \<le> length s" and r: "r = drop 2 s"
    and v: "v = CRYPTO_bswap2 (ucast (be_accum 0 (take 2 s)))"
    by (auto simp: CBS_get_u16le_def cbs_defs apfst_def map_prod_def split: if_splits prod.splits)
  have "length (take 2 s) = 2" using l by simp
  then obtain a b where t: "take 2 s = [a, b]" by (rule length_2E)
  have "unat v = le_val [a, b]"
    using v t le_read_value [where 'a = 16, of "[a, b]"] by (simp add: bswap2_be del: be_accum.simps)
  with r t show ?thesis by (metis append_take_drop_id)
qed

lemma CBS_get_u32le_SomeD:
  assumes "CBS_get_u32le s = (Some v, r)"
  shows "s = take 4 s @ r \<and> unat v = le_val (take 4 s)"
proof -
  from assms have l: "4 \<le> length s" and r: "r = drop 4 s"
    and v: "v = CRYPTO_bswap4 (ucast (be_accum 0 (take 4 s)))"
    by (auto simp: CBS_get_u32le_def cbs_defs apfst_def map_prod_def split: if_splits prod.splits)
  have "length (take 4 s) = 4" using l by simp
  then obtain a b c d where t: "take 4 s = [a, b, c, d]" by (rule length_4E)
  have "unat v = le_val [a, b, c, d]"
    using v t le_read_value [where 'a = 32, of "[a, b, c, d]"]
    by (simp add: bswap4_be del: be_accum.simps)
  with r t show ?thesis by (metis append_take_drop_id)
qed

lemma CBS_get_u64le_SomeD:
  assumes "CBS_get_u64le s = (Some v, r)"
  shows "s = take 8 s @ r \<and> unat v = le_val (take 8 s)"
proof -
  from assms have l: "8 \<le> length s" and r: "r = drop 8 s"
    and v: "v = CRYPTO_bswap8 (be_accum 0 (take 8 s))"
    by (auto simp: CBS_get_u64le_def cbs_defs apfst_def map_prod_def split: if_splits prod.splits)
  have "length (take 8 s) = 8" using l by simp
  then obtain a b c d e f g h where t: "take 8 s = [a, b, c, d, e, f, g, h]" by (rule length_8E)
  have "unat v = le_val [a, b, c, d, e, f, g, h]"
    using v t le_read_value [where 'a = 64, of "[a, b, c, d, e, f, g, h]"]
    by (simp add: bswap8_be del: be_accum.simps)
  with r t show ?thesis by (metis append_take_drop_id)
qed

section \<open>Decimal numbers\<close>

text \<open>The value of a digit string, and the digits a decimal read looks at.\<close>

fun dec_val :: "nat \<Rightarrow> byte list \<Rightarrow> nat" where
  "dec_val v [] = v"
| "dec_val v (c # cs) = dec_val (v * 10 + unat (c - 48)) cs"

abbreviation digits_of :: "cbs \<Rightarrow> byte list" where
  "digits_of s \<equiv> takeWhile OPENSSL_isdigit s"

lemma dec_val_ge: "v \<le> dec_val v ds"
proof (induction ds arbitrary: v)
  case (Cons c ds)
  have "v \<le> v * 10 + unat (c - 48)" by simp
  also have "\<dots> \<le> dec_val (v * 10 + unat (c - 48)) ds" by (rule Cons)
  finally show ?case by simp
qed simp

lemma digit_value: "OPENSSL_isdigit c \<Longrightarrow> unat (c - 48) \<le> 9"
  unfolding OPENSSL_isdigit_def by unat_arith

text \<open>The two overflow tests of the loop are exactly: the next value leaves 64 bits.\<close>

lemma decimal_overflow_iff:
  fixes v :: u64 and c :: byte
  assumes "unat d \<le> 9"
  shows "(v > UINT64_MAX div 10 \<or> v * 10 > UINT64_MAX - d) \<longleftrightarrow> 2 ^ 64 \<le> unat v * 10 + unat d"
proof -
  have m: "unat UINT64_MAX = 2 ^ 64 - 1" by (simp add: UINT64_MAX_def)
  have s: "unat (UINT64_MAX - d) = 2 ^ 64 - 1 - unat d"
    using m assms by (simp add: unat_sub word_le_nat_alt)
  have q: "unat (UINT64_MAX div 10) = (2 ^ 64 - 1) div 10"
    by (simp add: UINT64_MAX_def)
  show ?thesis
  proof (cases "v > UINT64_MAX div 10")
    case True
    then have "(2 ^ 64 - 1) div 10 < unat v" using q by (simp add: word_less_nat_alt)
    with True show ?thesis by simp
  next
    case False
    then have "unat v \<le> (2 ^ 64 - 1) div 10" using q by (simp add: word_less_nat_alt not_less)
    then have "unat (v * 10) = unat v * 10" by (subst unat_word_ariths) simp
    with False s assms show ?thesis by (simp add: word_less_nat_alt) linarith
  qed
qed

lemma decimal_step_value:
  fixes v d :: u64
  assumes "unat v * 10 + unat d < 2 ^ 64"
  shows "unat (v * 10 + d) = unat v * 10 + unat d"
  using assms by (simp add: unat_word_ariths)

lemma u64_decimal_loop_nonzero:
  assumes "v \<noteq> 0"
  shows "dec_val (unat v) (digits_of s) < 2 ^ 64 \<Longrightarrow> u64_decimal_loop v True s =
      (Some (word_of_nat (dec_val (unat v) (digits_of s))), dropWhile OPENSSL_isdigit s)"
    and "2 ^ 64 \<le> dec_val (unat v) (digits_of s) \<Longrightarrow> fst (u64_decimal_loop v True s) = None"
proof -
  have "(dec_val (unat v) (digits_of s) < 2 ^ 64 \<longrightarrow> u64_decimal_loop v True s =
      (Some (word_of_nat (dec_val (unat v) (digits_of s))), dropWhile OPENSSL_isdigit s)) \<and>
    (2 ^ 64 \<le> dec_val (unat v) (digits_of s) \<longrightarrow> fst (u64_decimal_loop v True s) = None)"
    using assms
  proof (induction s arbitrary: v)
    case Nil
    then show ?case by (simp add: not_le)
  next
    case (Cons c s)
    show ?case
    proof (cases "OPENSSL_isdigit c")
      case False
      then show ?thesis by (simp add: not_le)
    next
      case True
      let ?d = "ucast (c - 48) :: u64"
      have d: "unat ?d = unat (c - 48)" "unat ?d \<le> 9" using digit_value [OF True] by simp_all
      show ?thesis
      proof (cases "unat v * 10 + unat ?d < 2 ^ 64")
        case False
        moreover have "unat v * 10 + unat ?d \<le> dec_val (unat v) (digits_of (c # s))"
          using True d(1) dec_val_ge [of "unat v * 10 + unat (c - 48)"] by simp
        ultimately show ?thesis using True decimal_overflow_iff [OF d(2), of v] by auto
      next
        case lt: True
        have u: "unat (v * 10 + ?d) = unat v * 10 + unat (c - 48)"
          using decimal_step_value [OF lt] d(1) by simp
        have "v * 10 + ?d \<noteq> 0" using u Cons.prems by (metis add_is_0 mult_is_0 unsigned_0 unat_eq_zero zero_neq_numeral)
        from Cons.IH [OF this] show ?thesis
          using True u lt Cons.prems decimal_overflow_iff [OF d(2), of v] by auto
      qed
    qed
  qed
  then show "dec_val (unat v) (digits_of s) < 2 ^ 64 \<Longrightarrow> u64_decimal_loop v True s =
      (Some (word_of_nat (dec_val (unat v) (digits_of s))), dropWhile OPENSSL_isdigit s)"
    and "2 ^ 64 \<le> dec_val (unat v) (digits_of s) \<Longrightarrow> fst (u64_decimal_loop v True s) = None"
    by blast+
qed

text \<open>What a decimal read accepts: at least one digit, no stray leading zero, 64 bits.\<close>

definition decimal_ok :: "byte list \<Rightarrow> bool" where
  "decimal_ok ds \<longleftrightarrow> ds \<noteq> [] \<and> (hd ds = 48 \<longrightarrow> length ds = 1) \<and> dec_val 0 ds < 2 ^ 64"

lemma u64_decimal_loop_zero:
  "u64_decimal_loop 0 True s =
    (case s of [] \<Rightarrow> (Some 0, []) | c # s' \<Rightarrow> if OPENSSL_isdigit c then (None, s') else (Some 0, s))"
  by (cases s) simp_all

lemma CBS_get_u64_decimal_spec:
  "if decimal_ok (digits_of s)
   then CBS_get_u64_decimal s =
      (Some (word_of_nat (dec_val 0 (digits_of s))), dropWhile OPENSSL_isdigit s)
   else fst (CBS_get_u64_decimal s) = None"
proof (cases s)
  case Nil
  then show ?thesis by (simp add: CBS_get_u64_decimal_def decimal_ok_def)
next
  case (Cons c s')
  show ?thesis
  proof (cases "OPENSSL_isdigit c")
    case False
    then show ?thesis using Cons by (simp add: CBS_get_u64_decimal_def decimal_ok_def)
  next
    case True
    let ?d = "ucast (c - 48) :: u64"
    have d: "unat ?d = unat (c - 48)" "unat ?d \<le> 9" using digit_value [OF True] by simp_all
    have first: "CBS_get_u64_decimal s = u64_decimal_loop ?d True s'"
      using Cons True decimal_overflow_iff [OF d(2), of 0] d(2)
      by (simp add: CBS_get_u64_decimal_def)
    have dv: "dec_val 0 (digits_of s) = dec_val (unat ?d) (digits_of s')"
      using Cons True d(1) by simp
    show ?thesis
    proof (cases "c = 48")
      case True
      then show ?thesis
        using first dv Cons \<open>OPENSSL_isdigit c\<close>
        by (simp add: u64_decimal_loop_zero decimal_ok_def split: list.splits)
    next
      case False
      then have nz: "?d \<noteq> 0"
        using d(1) by (metis eq_iff_diff_eq_0 unat_eq_zero unsigned_0)
      show ?thesis
        using u64_decimal_loop_nonzero [OF nz, of s'] first dv Cons True False
        by (auto simp: decimal_ok_def not_less)
    qed
  qed
qed

end
