(* ===== verification/CbsDer.thy ===== *)
theory CbsDer
  imports Cbs
begin

text \<open>
  The DER reader of BoringSSL (\<^verbatim>\<open>crypto/bytestring/cbs.c\<close>, second half): base-128 integers,
  identifier octets and elements with their lengths.

  Section by section the code is followed by a reference grammar (\<open>base128_enc\<close>, \<open>tag_enc\<close>,
  \<open>len_enc\<close>, \<open>der_enc\<close>) written without any of the code's loops, and by an equivalence: the
  reader succeeds exactly on the reference encoding.  Soundness, canonicity (one encoding per
  value) and the round trips with the builder of \<open>Cbb\<close> all come from these equivalences.
\<close>

section \<open>The code: identifiers and elements\<close>

type_synonym asn1_tag = u32

definition CBS_ASN1_TAG_SHIFT :: nat where "CBS_ASN1_TAG_SHIFT = 24"
definition CBS_ASN1_CONSTRUCTED :: asn1_tag where "CBS_ASN1_CONSTRUCTED = push_bit 24 0x20"
definition CBS_ASN1_TAG_NUMBER_MASK :: asn1_tag where
  "CBS_ASN1_TAG_NUMBER_MASK = push_bit (5 + 24) 1 - 1"

definition CBS_ASN1_BOOLEAN :: asn1_tag where "CBS_ASN1_BOOLEAN = 0x1"
definition CBS_ASN1_INTEGER :: asn1_tag where "CBS_ASN1_INTEGER = 0x2"
definition CBS_ASN1_OCTETSTRING :: asn1_tag where "CBS_ASN1_OCTETSTRING = 0x4"

fun parse_base128_loop :: "u64 \<Rightarrow> cbs \<Rightarrow> u64 option \<times> cbs" where
  "parse_base128_loop v [] = (None, [])"
| "parse_base128_loop v (b # s) =
     (if drop_bit (64 - 7) v \<noteq> 0 then (None, s)
      else if v = 0 \<and> b = 0x80 then (None, s)
      else let v' = push_bit 7 v OR ucast (b AND 0x7f)
           in if b AND 0x80 \<noteq> 0 then parse_base128_loop v' s else (Some v', s))"

definition parse_base128_integer :: "cbs \<Rightarrow> u64 option \<times> cbs" where
  "parse_base128_integer s = parse_base128_loop 0 s"

definition parse_asn1_tag :: "cbs \<Rightarrow> asn1_tag option \<times> cbs" where
  "parse_asn1_tag s = (case CBS_get_u8 s of
     (None, s1) \<Rightarrow> (None, s1)
   | (Some tag_byte, s1) \<Rightarrow>
       let tag = push_bit CBS_ASN1_TAG_SHIFT (ucast tag_byte AND 0xe0);
           tag_number = ucast (tag_byte AND 0x1f);
           number = (if tag_number = 0x1f then
               (case parse_base128_integer s1 of
                 (None, s2) \<Rightarrow> (None, s2)
               | (Some v, s2) \<Rightarrow>
                   if v > ucast CBS_ASN1_TAG_NUMBER_MASK \<or> v < 0x1f then (None, s2)
                   else (Some (ucast v), s2))
             else (Some tag_number, s1))
       in case number of
            (None, s2) \<Rightarrow> (None, s2)
          | (Some n, s2) \<Rightarrow>
              if (tag OR n) AND NOT CBS_ASN1_CONSTRUCTED = 0 then (None, s2)
              else (Some (tag OR n), s2))"

text \<open>
  What \<^verbatim>\<open>cbs_get_any_asn1_element\<close> reports through its out-parameters on success.  The
  out-parameters after a failure are not part of the model; no caller reads them.
\<close>

record asn1_element =
  out :: cbs
  out_tag :: asn1_tag
  out_header_len :: nat
  out_ber_found :: bool
  out_indefinite :: bool

definition cbs_get_any_asn1_element :: "bool \<Rightarrow> cbs \<Rightarrow> asn1_element option \<times> cbs" where
  "cbs_get_any_asn1_element ber_ok s = (case parse_asn1_tag s of
     (None, _) \<Rightarrow> (None, s)
   | (Some tag, header1) \<Rightarrow> (case CBS_get_u8 header1 of
       (None, _) \<Rightarrow> (None, s)
     | (Some length_byte, header2) \<Rightarrow>
        let header_len = length s - length header2;
            finish = (\<lambda>len hl ber indef. case CBS_get_bytes s len of
               (None, s') \<Rightarrow> (None, s')
             | (Some bytes, s') \<Rightarrow>
                 (Some \<lparr>out = bytes, out_tag = tag, out_header_len = hl,
                        out_ber_found = ber, out_indefinite = indef\<rparr>, s'))
        in if length_byte AND 0x80 = 0 then
             finish (unat length_byte + header_len) header_len False False
           else let num_bytes = unat (length_byte AND 0x7f) in
             if ber_ok \<and> tag AND CBS_ASN1_CONSTRUCTED \<noteq> 0 \<and> num_bytes = 0 then
               finish header_len header_len True True
             else if num_bytes = 0 \<or> num_bytes > 4 then (None, s)
             else (case cbs_get_u header2 num_bytes of
                 (None, _) \<Rightarrow> (None, s)
               | (Some len64, _) \<Rightarrow>
                   let nonminimal = (len64 < 128 \<or> drop_bit ((num_bytes - 1) * 8) len64 = 0);
                       len = unat len64
                   in if nonminimal \<and> \<not> ber_ok then (None, s)
                      else if size_add (size_add len header_len) num_bytes < len then (None, s)
                      else finish (size_add len (header_len + num_bytes)) (header_len + num_bytes)
                             nonminimal False)))"

definition CBS_get_any_asn1_element :: "cbs \<Rightarrow> asn1_element option \<times> cbs" where
  "CBS_get_any_asn1_element s = cbs_get_any_asn1_element False s"

definition CBS_get_any_ber_asn1_element :: "cbs \<Rightarrow> asn1_element option \<times> cbs" where
  "CBS_get_any_ber_asn1_element s = cbs_get_any_asn1_element True s"

definition CBS_get_any_asn1 :: "cbs \<Rightarrow> (cbs \<times> asn1_tag) option \<times> cbs" where
  "CBS_get_any_asn1 s = (case CBS_get_any_asn1_element s of
     (None, s') \<Rightarrow> (None, s')
   | (Some e, s') \<Rightarrow> (case CBS_skip (out e) (out_header_len e) of
       (None, _) \<Rightarrow> (None, s')
     | (Some _, contents) \<Rightarrow> (Some (contents, out_tag e), s')))"

definition cbs_get_asn1 :: "cbs \<Rightarrow> asn1_tag \<Rightarrow> bool \<Rightarrow> cbs option \<times> cbs" where
  "cbs_get_asn1 s tag_value skip_header = (case CBS_get_any_asn1_element s of
     (None, s') \<Rightarrow> (None, s')
   | (Some e, s') \<Rightarrow>
       if out_tag e \<noteq> tag_value then (None, s')
       else if skip_header then (case CBS_skip (out e) (out_header_len e) of
           (None, _) \<Rightarrow> (None, s')
         | (Some _, contents) \<Rightarrow> (Some contents, s'))
       else (Some (out e), s'))"

definition CBS_get_asn1 :: "cbs \<Rightarrow> asn1_tag \<Rightarrow> cbs option \<times> cbs" where
  "CBS_get_asn1 s tag_value = cbs_get_asn1 s tag_value True"

definition CBS_get_asn1_element :: "cbs \<Rightarrow> asn1_tag \<Rightarrow> cbs option \<times> cbs" where
  "CBS_get_asn1_element s tag_value = cbs_get_asn1 s tag_value False"

definition CBS_peek_asn1_tag :: "cbs \<Rightarrow> asn1_tag \<Rightarrow> bool" where
  "CBS_peek_asn1_tag s tag_value = (case parse_asn1_tag s of
     (None, _) \<Rightarrow> False
   | (Some actual_tag, _) \<Rightarrow> tag_value = actual_tag)"

section \<open>Base-128 integers\<close>

text \<open>Reference: the base-128 digits of a number, all but the last with the high bit set.\<close>

fun base128_high :: "nat \<Rightarrow> byte list" where
  "base128_high n = (if n = 0 then [] else base128_high (n div 128) @ [word_of_nat (128 + n mod 128)])"

declare base128_high.simps [simp del]

definition base128_enc :: "nat \<Rightarrow> byte list" where
  "base128_enc n = base128_high (n div 128) @ [word_of_nat (n mod 128)]"

lemma base128_high_0 [simp]: "base128_high 0 = []"
  by (simp add: base128_high.simps)

lemma base128_high_step:
  assumes "d < 128" "v \<noteq> 0 \<or> d \<noteq> 0"
  shows "base128_high (v * 128 + d) = base128_high v @ [word_of_nat (128 + d)]"
proof -
  have "(v * 128 + d) div 128 = v" "(v * 128 + d) mod 128 = d" "v * 128 + d \<noteq> 0"
    using assms by auto
  then show ?thesis by (subst base128_high.simps) simp
qed

lemma base128_acc:
  fixes v :: u64 and b :: byte
  assumes "drop_bit (64 - 7) v = 0"
  shows "unat (push_bit 7 v OR ucast (b AND 0x7f)) = unat v * 128 + unat b mod 128"
proof -
  have v: "unat v < 2 ^ 57" using assms by (simp add: drop_bit_eq_0_iff_unat)
  have d: "unat (ucast (b AND 0x7f) :: u64) = unat b mod 128" by (simp add: and_7f)
  then have "push_bit 7 v OR ucast (b AND 0x7f) = v * 128 + ucast (b AND 0x7f)"
    using push_or_small [of "ucast (b AND 0x7f) :: u64" 7 v] by simp
  then show ?thesis using v d by (simp add: unat_word_ariths)
qed

text \<open>What the loop has read so far is the high digits of its accumulator.\<close>

lemma parse_base128_loop_sound:
  "parse_base128_loop v s = (Some w, r) \<Longrightarrow>
   \<exists>c. s = c @ r \<and> base128_high (unat v) @ c = base128_enc (unat w)"
proof (induction v s rule: parse_base128_loop.induct)
  case (2 v b s)
  then have d: "drop_bit (64 - 7) v = 0" and nz: "\<not> (v = 0 \<and> b = 0x80)"
    by (auto split: if_splits)
  let ?v = "push_bit 7 v OR ucast (b AND 0x7f)"
  have u: "unat ?v = unat v * 128 + unat b mod 128" by (rule base128_acc [OF d])
  show ?case
  proof (cases "b AND 0x80 = 0")
    case True
    then have b: "unat b < 128" by (simp add: and_80)
    then have "w = ?v" "r = s" using 2(2) d nz True by (auto simp: Let_def)
    then have "base128_enc (unat w) = base128_high (unat v) @ [b]"
      using u b by (simp add: base128_enc_def)
    with \<open>r = s\<close> show ?thesis by (intro exI [of _ "[b]"]) simp
  next
    case False
    then have "parse_base128_loop ?v s = (Some w, r)" using 2(2) d nz by (auto simp: Let_def)
    then obtain c where c: "s = c @ r" "base128_high (unat ?v) @ c = base128_enc (unat w)"
      using 2(1) [OF d [THEN iffD2 [OF not_not]] nz refl False] by blast
    have b: "128 \<le> unat b" using False by (simp add: and_80)
    then have m: "128 + unat b mod 128 = unat b"
      using unat_byte_bound [of b] by (rule high_bit_split)
    have "v \<noteq> 0 \<or> b \<noteq> 0x80" using nz by blast
    then have "unat v \<noteq> 0 \<or> unat b mod 128 \<noteq> 0"
      using m word_eq_if_unat [of b "0x80"] by (cases "unat b mod 128 = 0") (auto simp: unat_eq_zero)
    then have "base128_high (unat ?v) = base128_high (unat v) @ [b]"
      unfolding u using base128_high_step [of "unat b mod 128" "unat v"] m by simp
    then show ?thesis using c by (intro exI [of _ "b # c"]) simp
  qed
qed simp

lemma parse_base128_loop_more:
  assumes "drop_bit (64 - 7) v = 0" "\<not> (v = 0 \<and> b = 0x80)" "b AND 0x80 \<noteq> 0"
  shows "parse_base128_loop v (b # s) = parse_base128_loop (push_bit 7 v OR ucast (b AND 0x7f)) s"
  using assms by (auto simp: Let_def)

lemma parse_base128_loop_last:
  assumes "drop_bit (64 - 7) v = 0" "\<not> (v = 0 \<and> b = 0x80)" "b AND 0x80 = 0"
  shows "parse_base128_loop v (b # s) = (Some (push_bit 7 v OR ucast (b AND 0x7f)), s)"
  using assms by (auto simp: Let_def)

lemma unat_high_digit: "unat (word_of_nat (128 + n mod 128) :: byte) = 128 + n mod 128"
  by (rule unat_byte_of_nat) simp

lemma parse_base128_loop_high:
  "m < 2 ^ 64 \<Longrightarrow> parse_base128_loop 0 (base128_high m @ t) = parse_base128_loop (word_of_nat m) t"
proof (induction m arbitrary: t rule: base128_high.induct)
  case (1 m)
  show ?case
  proof (cases "m = 0")
    case False
    let ?b = "word_of_nat (128 + m mod 128) :: byte" and ?v = "word_of_nat (m div 128) :: u64"
    have v: "unat ?v = m div 128" using "1.prems" by (intro unat_u64_of_nat) simp
    have d: "drop_bit (64 - 7) ?v = 0"
      using "1.prems" by (simp add: drop_bit_eq_0_iff_unat v less_mult_imp_div_less)
    have b: "?b AND 0x80 \<noteq> 0" using unat_high_digit [of m] by (simp add: and_80)
    have nz: "\<not> (?v = 0 \<and> ?b = 0x80)"
    proof
      assume "?v = 0 \<and> ?b = 0x80"
      then have "unat ?v = unat (0 :: u64)" "unat ?b = unat (0x80 :: byte)" by simp_all
      then show False using v unat_high_digit [of m] False by simp
    qed
    have acc: "push_bit 7 ?v OR ucast (?b AND 0x7f) = word_of_nat m"
    proof (rule word_eq_if_unat)
      have "unat (push_bit 7 ?v OR ucast (?b AND 0x7f)) = m div 128 * 128 + (128 + m mod 128) mod 128"
        using base128_acc [OF d, of ?b] v unat_high_digit [of m] by simp
      then show "unat (push_bit 7 ?v OR ucast (?b AND 0x7f)) = unat (word_of_nat m :: u64)"
        using "1.prems" by (simp add: unat_u64_of_nat)
    qed
    have "parse_base128_loop 0 (base128_high m @ t) = parse_base128_loop ?v (?b # t)"
      using "1.IH" [OF False, of "?b # t"] "1.prems" False
      by (subst base128_high.simps) simp
    also have "\<dots> = parse_base128_loop (word_of_nat m) t"
      by (simp only: parse_base128_loop_more [OF d nz b] acc)
    finally show ?thesis .
  qed simp
qed

theorem parse_base128_integer_iff:
  "parse_base128_integer s = (Some v, r) \<longleftrightarrow> s = base128_enc (unat v) @ r"
proof
  assume "parse_base128_integer s = (Some v, r)"
  then obtain c where "s = c @ r" "base128_high (unat (0 :: u64)) @ c = base128_enc (unat v)"
    unfolding parse_base128_integer_def by (blast dest: parse_base128_loop_sound)
  then show "s = base128_enc (unat v) @ r" by simp
next
  assume s: "s = base128_enc (unat v) @ r"
  let ?h = "word_of_nat (unat v div 128) :: u64" and ?b = "word_of_nat (unat v mod 128) :: byte"
  have h: "unat ?h = unat v div 128"
    using le_less_trans [OF div_le_dividend unat_u64_bound] by (intro unat_u64_of_nat) simp
  have b: "unat ?b = unat v mod 128" by (rule unat_byte_of_nat) simp
  have d: "drop_bit (64 - 7) ?h = 0"
    using less_mult_imp_div_less [of "unat v" "2 ^ 57" 128]
    by (simp add: drop_bit_eq_0_iff_unat h)
  have nz: "\<not> (?h = 0 \<and> ?b = 0x80)" using b by auto
  have acc: "push_bit 7 ?h OR ucast (?b AND 0x7f) = v"
    using base128_acc [OF d, of ?b] h b by (intro word_eq_if_unat) simp
  have last: "?b AND 0x80 = 0" using b by (simp add: and_80)
  have "unat v div 128 < 2 ^ 64" using le_less_trans [OF div_le_dividend unat_u64_bound] by simp
  then have "parse_base128_loop 0 (base128_high (unat v div 128) @ ?b # r) = parse_base128_loop ?h (?b # r)"
    by (rule parse_base128_loop_high)
  also have "\<dots> = (Some v, r)" by (simp only: parse_base128_loop_last [OF d nz last] acc)
  finally show "parse_base128_integer s = (Some v, r)"
    by (simp add: s parse_base128_integer_def base128_enc_def)
qed

section \<open>Identifier octets\<close>

text \<open>
  Reference: class and constructed bit in the top three bits of the first octet, the tag number
  below them, or 31 and the number in base 128.  \<open>tag_class\<close> is the class with the constructed bit.
\<close>

definition tag_class :: "asn1_tag \<Rightarrow> nat" where
  "tag_class t = unat t div 2 ^ 29"

definition tag_number :: "asn1_tag \<Rightarrow> nat" where
  "tag_number t = unat t mod 2 ^ 29"

definition tag_enc :: "asn1_tag \<Rightarrow> byte list" where
  "tag_enc t =
     (if tag_number t < 31 then [word_of_nat (tag_class t * 32 + tag_number t)]
      else word_of_nat (tag_class t * 32 + 31) # base128_enc (tag_number t))"

text \<open>The reserved tag, primitive or constructed, has no encoding.\<close>

definition tag_ok :: "asn1_tag \<Rightarrow> bool" where
  "tag_ok t \<longleftrightarrow> t \<noteq> 0 \<and> t \<noteq> CBS_ASN1_CONSTRUCTED"

lemma tag_parts: "unat t = tag_class t * 2 ^ 29 + tag_number t"
  by (simp add: tag_class_def tag_number_def)

lemma tag_class_bound: "tag_class t < 8"
  using unat_u32_bound [of t] by (simp add: tag_class_def less_mult_imp_div_less)

lemma tag_number_bound: "tag_number t < 2 ^ 29"
  by (simp add: tag_number_def)

lemma tag_eqI: "tag_class t = tag_class u \<Longrightarrow> tag_number t = tag_number u \<Longrightarrow> t = u"
  by (metis tag_parts word_eq_if_unat)

lemma bit_constructed: "bit CBS_ASN1_CONSTRUCTED k \<longleftrightarrow> k = 29"
proof -
  have c: "CBS_ASN1_CONSTRUCTED = 2 ^ 29" by (simp add: CBS_ASN1_CONSTRUCTED_def)
  show ?thesis by (simp only: c bit_exp_iff possible_bit_word) auto
qed

lemma not_constructed_eq_0_iff: "t AND NOT CBS_ASN1_CONSTRUCTED = 0 \<longleftrightarrow> \<not> tag_ok t"
proof
  assume 0: "t AND NOT CBS_ASN1_CONSTRUCTED = 0"
  have bits: "\<not> bit t k" if "k \<noteq> 29" for k
    using arg_cong [OF 0, of "\<lambda>w. bit w k"] that bit_imp_le_length [of t k]
    by (auto simp: bit_simps bit_constructed)
  show "\<not> tag_ok t"
  proof (cases "bit t 29")
    case True
    have "t = CBS_ASN1_CONSTRUCTED"
      using True bits by (intro bit_word_eqI) (auto simp: bit_constructed)
    then show ?thesis by (simp add: tag_ok_def)
  next
    case False
    have "t = 0" using False bits by (intro bit_word_eqI) (metis bit_0_eq bot_apply bot_bool_def)
    then show ?thesis by (simp add: tag_ok_def)
  qed
next
  assume "\<not> tag_ok t"
  then show "t AND NOT CBS_ASN1_CONSTRUCTED = 0"
    by (auto simp: tag_ok_def CBS_ASN1_CONSTRUCTED_def)
qed

lemma tag_bits_eq:
  "push_bit CBS_ASN1_TAG_SHIFT (ucast b AND 0xe0 :: u32) = push_bit 29 (ucast (drop_bit 5 (b :: byte)))"
proof -
  have m: "(0xe0 :: u32) = push_bit 5 (mask 3)" by (simp add: mask_eq_exp_minus_1)
  show ?thesis
    unfolding m CBS_ASN1_TAG_SHIFT_def
    by (rule bit_word_eqI) (auto simp: bit_simps dest: bit_imp_le_length)
qed

lemma assembled_tag:
  fixes n :: u32 and b :: byte
  assumes "unat n < 2 ^ 29"
  defines "t \<equiv> push_bit CBS_ASN1_TAG_SHIFT (ucast b AND 0xe0) OR n"
  shows "tag_class t = unat b div 32" "tag_number t = unat n"
proof -
  have t: "t = ucast (drop_bit 5 b) * 2 ^ 29 + n"
    unfolding t_def tag_bits_eq by (rule push_or_small [OF assms(1)])
  have d: "unat (ucast (drop_bit 5 b) :: u32) = unat b div 32" by (simp add: unat_drop)
  have "unat b div 32 < 8" using unat_byte_bound [of b] by (simp add: less_mult_imp_div_less)
  then have u: "unat t = unat b div 32 * 2 ^ 29 + unat n"
    using assms(1) d by (simp add: t unat_word_ariths)
  show "tag_class t = unat b div 32" "tag_number t = unat n"
    using assms(1) by (simp_all add: tag_class_def tag_number_def u)
qed

lemma tag_number_mask: "unat (ucast CBS_ASN1_TAG_NUMBER_MASK :: u64) = 2 ^ 29 - 1"
  by (simp add: CBS_ASN1_TAG_NUMBER_MASK_def)

lemma parse_asn1_tag_sound:
  assumes "parse_asn1_tag s = (Some t, r)"
  shows "tag_ok t \<and> s = tag_enc t @ r"
proof -
  from assms obtain b s1 where s: "s = b # s1"
    by (cases s) (auto simp: parse_asn1_tag_def)
  have b1f: "unat (ucast (b AND 0x1f) :: u32) = unat b mod 32" by (simp add: and_1f)
  have bsplit: "unat b div 32 * 32 + unat b mod 32 = unat b" by simp
  show ?thesis
  proof (cases "(ucast (b AND 0x1f) :: u32) = 0x1f")
    case False
    let ?n = "ucast (b AND 0x1f) :: u32"
    have n: "unat ?n < 31"
      using False b1f word_eq_if_unat [of ?n "0x1f"] by (cases "unat ?n = 31") auto
    from assms False have t: "t = push_bit CBS_ASN1_TAG_SHIFT (ucast b AND 0xe0) OR ?n"
      and ok: "tag_ok t" and r: "r = s1"
      by (auto simp: parse_asn1_tag_def s Let_def not_constructed_eq_0_iff split: if_splits)
    have "tag_class t = unat b div 32" "tag_number t = unat b mod 32"
      unfolding t using assembled_tag [of ?n b] n b1f by simp_all
    then show ?thesis using n b1f ok r bsplit by (simp add: tag_enc_def s)
  next
    case True
    then have b31: "unat b mod 32 = 31" using b1f by simp
    from assms True obtain v where v: "parse_base128_integer s1 = (Some v, r)"
      and lo: "\<not> v < 0x1f" and hi: "\<not> v > ucast CBS_ASN1_TAG_NUMBER_MASK"
      and t: "t = push_bit CBS_ASN1_TAG_SHIFT (ucast b AND 0xe0) OR ucast v" and ok: "tag_ok t"
      by (auto simp: parse_asn1_tag_def s Let_def not_constructed_eq_0_iff
          split: if_splits prod.splits option.splits)
    have n: "31 \<le> unat v" "unat v < 2 ^ 29"
      using lo hi by (auto simp: word_less_nat_alt tag_number_mask)
    then have un: "unat (ucast v :: u32) = unat v" by (simp add: unat_ucast_mod)
    then have "tag_class t = unat b div 32" "tag_number t = unat v"
      unfolding t using assembled_tag [of "ucast v" b] n by simp_all
    then show ?thesis
      using n b31 ok bsplit v by (simp add: tag_enc_def s parse_base128_integer_iff)
  qed
qed

lemma and_1f_up: "unat (ucast (b AND 0x1f :: byte) :: u32) = unat b mod 32"
  by (simp add: and_1f)

lemma and_1f_31: "(ucast (b AND 0x1f :: byte) :: u32) = 0x1f \<longleftrightarrow> unat b mod 32 = 31"
proof -
  have "(ucast (b AND 0x1f) :: u32) = 0x1f \<longleftrightarrow> unat (ucast (b AND 0x1f) :: u32) = unat (0x1f :: u32)"
    by (rule word_unat_eq_iff)
  then show ?thesis by (simp add: and_1f)
qed

lemma parse_asn1_tag_enc:
  assumes ok: "tag_ok t"
  shows "parse_asn1_tag (tag_enc t @ r) = (Some t, r)"
proof (cases "tag_number t < 31")
  case True
  let ?b = "word_of_nat (tag_class t * 32 + tag_number t) :: byte"
  have b: "unat ?b = tag_class t * 32 + tag_number t"
    using True tag_class_bound [of t] by (intro unat_byte_of_nat) linarith
  have m: "unat ?b mod 32 = tag_number t" "unat ?b div 32 = tag_class t"
    using True unfolding b by simp_all
  let ?n = "ucast (?b AND 0x1f) :: u32"
  have n: "unat ?n = tag_number t" by (rule trans [OF and_1f_up m(1)])
  have "push_bit CBS_ASN1_TAG_SHIFT (ucast ?b AND 0xe0) OR ?n = t"
    using assembled_tag [of ?n ?b] n m True by (intro tag_eqI) simp_all
  moreover have "?n \<noteq> 0x1f" using True m by (simp only: and_1f_31)
  ultimately show ?thesis
    using ok True by (simp add: parse_asn1_tag_def tag_enc_def Let_def not_constructed_eq_0_iff)
next
  case False
  let ?b = "word_of_nat (tag_class t * 32 + 31) :: byte" and ?v = "word_of_nat (tag_number t) :: u64"
  have b: "unat ?b = tag_class t * 32 + 31"
    using tag_class_bound [of t] by (intro unat_byte_of_nat) linarith
  have m: "unat ?b mod 32 = 31" "unat ?b div 32 = tag_class t"
    unfolding b by simp_all
  have v: "unat ?v = tag_number t"
    using tag_number_bound [of t] by (intro unat_u64_of_nat) simp
  have p: "parse_base128_integer (base128_enc (tag_number t) @ r) = (Some ?v, r)"
    by (simp add: parse_base128_integer_iff v)
  have rng: "\<not> (?v > ucast CBS_ASN1_TAG_NUMBER_MASK \<or> ?v < 0x1f)"
    using False tag_number_bound [of t] by (simp add: word_less_nat_alt v tag_number_mask)
  have un: "unat (ucast ?v :: u32) = tag_number t"
    using tag_number_bound [of t] by (simp add: unat_ucast_mod v)
  have "push_bit CBS_ASN1_TAG_SHIFT (ucast ?b AND 0xe0) OR ucast ?v = t"
    using assembled_tag [of "ucast ?v" ?b] un m tag_number_bound [of t] by (intro tag_eqI) simp_all
  moreover have "(ucast (?b AND 0x1f) :: u32) = 0x1f" using m by (simp only: and_1f_31)
  ultimately show ?thesis
    using ok False p rng
    by (simp add: parse_asn1_tag_def tag_enc_def Let_def not_constructed_eq_0_iff
        del: of_nat_add of_nat_mult of_nat_numeral)
qed

theorem parse_asn1_tag_iff:
  "parse_asn1_tag s = (Some t, r) \<longleftrightarrow> tag_ok t \<and> s = tag_enc t @ r"
  using parse_asn1_tag_sound parse_asn1_tag_enc by blast

lemma tag_enc_nonempty [simp]: "tag_enc t \<noteq> []"
  by (simp add: tag_enc_def)

lemma length_base128_high: "n < 128 ^ k \<Longrightarrow> length (base128_high n) \<le> k"
proof (induction k arbitrary: n)
  case (Suc k)
  then show ?case
    by (subst base128_high.simps) (simp add: less_mult_imp_div_less mult.commute)
qed simp

lemma length_tag_enc: "length (tag_enc t) \<le> 6"
proof -
  have "tag_number t div 128 < 128 ^ 4"
    using tag_number_bound [of t] by (simp add: less_mult_imp_div_less)
  then have "length (base128_high (tag_number t div 128)) \<le> 4" by (rule length_base128_high)
  then show ?thesis by (simp add: tag_enc_def base128_enc_def)
qed

interpretation base128: cbs_strict_reader parse_base128_integer
proof
  fix s r :: cbs and a assume "parse_base128_integer s = (Some a, r)"
  then have s: "s = base128_enc (unat a) @ r" by (simp add: parse_base128_integer_iff)
  then show "\<exists>c. s = c @ r" and "r \<noteq> s" by (auto simp: base128_enc_def)
  show "parse_base128_integer (s @ t) = (Some a, r @ t)" for t
    by (simp add: parse_base128_integer_iff s)
qed

interpretation asn1_tag: cbs_strict_reader parse_asn1_tag
proof
  fix s r :: cbs and a assume "parse_asn1_tag s = (Some a, r)"
  then have s: "s = tag_enc a @ r" and ok: "tag_ok a" by (simp_all add: parse_asn1_tag_iff)
  show "\<exists>c. s = c @ r" and "r \<noteq> s" using s by auto
  show "parse_asn1_tag (s @ t) = (Some a, r @ t)" for t
    by (simp add: parse_asn1_tag_iff s ok)
qed

section \<open>Elements\<close>

text \<open>
  Reference: the length octets are one octet below 128, or the number of octets and then the
  length in that many octets, as few as possible; an element is identifier, length, contents.
\<close>

fun byte_len :: "nat \<Rightarrow> nat" where
  "byte_len n = (if n = 0 then 0 else Suc (byte_len (n div 256)))"

declare byte_len.simps [simp del]

definition len_enc :: "nat \<Rightarrow> byte list" where
  "len_enc n =
     (if n < 128 then [word_of_nat n]
      else word_of_nat (128 + byte_len n) # be_bytes (byte_len n) n)"

definition der_enc :: "asn1_tag \<Rightarrow> byte list \<Rightarrow> byte list" where
  "der_enc t content = tag_enc t @ len_enc (length content) @ content"

definition der_header_len :: "asn1_tag \<Rightarrow> nat \<Rightarrow> nat" where
  "der_header_len t n = length (tag_enc t) + length (len_enc n)"

lemma byte_len_0 [simp]: "byte_len 0 = 0"
  by (simp add: byte_len.simps)

lemma byte_len_upper: "n < 256 ^ byte_len n"
proof (induction n rule: byte_len.induct)
  case (1 n)
  show ?case
  proof (cases "n = 0")
    case False
    then have "n div 256 < 256 ^ byte_len (n div 256)" by (rule "1.IH")
    then have "n < 256 ^ byte_len (n div 256) * 256" by (simp add: div_less_iff_less_mult)
    then show ?thesis using False by (subst byte_len.simps) (simp add: mult.commute)
  qed simp
qed

lemma byte_len_lower: "n \<noteq> 0 \<Longrightarrow> 256 ^ (byte_len n - 1) \<le> n"
proof (induction n rule: byte_len.induct)
  case (1 n)
  show ?case
  proof (cases "n div 256 = 0")
    case True
    then show ?thesis using "1.prems" by (subst byte_len.simps) simp
  next
    case False
    have "256 ^ (byte_len (n div 256) - 1) \<le> n div 256"
      using "1.IH" [OF "1.prems" False] .
    then have "256 ^ (byte_len (n div 256) - 1) * 256 \<le> n"
      by (meson div_times_less_eq_dividend le_trans mult_le_mono1)
    moreover have "byte_len (n div 256) \<noteq> 0"
      using False by (subst byte_len.simps) simp
    ultimately show ?thesis
      using "1.prems" by (subst byte_len.simps) (simp add: power_eq_if mult.commute)
  qed
qed

lemma byte_len_unique:
  assumes "0 < k" "256 ^ (k - 1) \<le> n" "n < 256 ^ k"
  shows "byte_len n = k"
proof -
  have nz: "n \<noteq> 0" using assms(2) by (metis le_zero_eq power_not_zero zero_neq_numeral)
  have "256 ^ (byte_len n - 1) < (256::nat) ^ k"
    using byte_len_lower [OF nz] assms(3) by linarith
  then have 1: "byte_len n - 1 < k" by (simp add: power_strict_increasing_iff)
  have "256 ^ (k - 1) < (256::nat) ^ byte_len n"
    using byte_len_upper [of n] assms(2) by linarith
  then have 2: "k - 1 < byte_len n" by (simp add: power_strict_increasing_iff)
  from 1 2 assms(1) show ?thesis by linarith
qed

lemma byte_len_le: "n < 256 ^ k \<Longrightarrow> byte_len n \<le> k"
proof (cases "n = 0")
  case False
  assume "n < 256 ^ k"
  then have "256 ^ (byte_len n - 1) < (256::nat) ^ k" using byte_len_lower [OF False] by linarith
  then have "byte_len n - 1 < k" by (simp add: power_strict_increasing_iff)
  then show ?thesis by linarith
qed simp

text \<open>The reader, once the identifier and the first length octet are read.\<close>

definition element_body :: "bool \<Rightarrow> asn1_tag \<Rightarrow> byte \<Rightarrow> cbs \<Rightarrow> (nat \<times> nat \<times> bool \<times> bool) option" where
  "element_body ber_ok tag lb h =
     (let hl = length (tag_enc tag) + 1; n = unat lb - 128
      in if unat lb < 128 then Some (unat lb, hl, False, False)
         else if ber_ok \<and> tag AND CBS_ASN1_CONSTRUCTED \<noteq> 0 \<and> n = 0 then Some (0, hl, True, True)
         else if n = 0 \<or> 4 < n \<or> length h < n then None
         else let len = be_val (take n h); bad = (len < 128 \<or> len < 256 ^ (n - 1))
              in if bad \<and> \<not> ber_ok then None else Some (n + len, hl + n, bad, False))"

lemma and_7f_num: "128 \<le> unat b \<Longrightarrow> unat (b AND 0x7f :: byte) = unat b - 128"
  using high_bit_split [of "unat b"] by (simp add: and_7f)

lemma element_eq:
  assumes "tag_ok tag" and s: "s = tag_enc tag @ lb # h"
  shows "cbs_get_any_asn1_element ber_ok s = (case element_body ber_ok tag lb h of
     None \<Rightarrow> (None, s)
   | Some (n, hl, ber, indef) \<Rightarrow>
       if length h < n then (None, s)
       else (Some \<lparr>out = tag_enc tag @ lb # take n h, out_tag = tag, out_header_len = hl,
               out_ber_found = ber, out_indefinite = indef\<rparr>, drop n h))"
proof -
  have p: "parse_asn1_tag s = (Some tag, lb # h)" using assms by (simp add: parse_asn1_tag_iff)
  have get: "CBS_get_bytes s (length (tag_enc tag) + 1 + n) =
      (if length h < n then (None, s) else (Some (tag_enc tag @ lb # take n h), drop n h))" for n
    by (simp add: CBS_get_bytes_eq s)
  have hl: "length s - length h = length (tag_enc tag) + 1" by (simp add: s)
  show ?thesis
  proof (cases "unat lb < 128")
    case True
    have pos: "unat lb + (length (tag_enc tag) + 1) = length (tag_enc tag) + 1 + unat lb" by simp
    show ?thesis
      using True
      by (simp only: cbs_get_any_asn1_element_def p and_80 element_body_def hl Let_def pos get
          prod.case option.case CBS_get_u8_simps if_True simp_thms) auto
  next
    case False
    let ?n = "unat lb - 128"
    have n: "unat (lb AND 0x7f) = ?n" using False by (simp add: and_7f_num)
    show ?thesis
    proof (cases "?n = 0 \<or> 4 < ?n \<or> length h < ?n")
      case True
      have pos: "length (tag_enc tag) + 1 = length (tag_enc tag) + 1 + 0" by simp
      have g: "cbs_get_u h ?n = (None, h)" if "\<not> (?n = 0 \<or> 4 < ?n)"
        using True that by (simp add: cbs_get_u_eq)
      show ?thesis
      proof (cases "ber_ok \<and> tag AND CBS_ASN1_CONSTRUCTED \<noteq> 0 \<and> ?n = 0")
        case indef: True
        have "CBS_get_bytes s (length (tag_enc tag) + 1) = (Some (tag_enc tag @ [lb]), h)"
          using get [of 0] by simp
        then show ?thesis
          using indef False
          by (simp only: cbs_get_any_asn1_element_def p and_80 element_body_def hl n Let_def
              prod.case option.case CBS_get_u8_simps if_False if_True simp_thms) simp
      next
        case other: False
        show ?thesis
          using other False True g
          by (cases "?n = 0 \<or> 4 < ?n")
            (simp_all only: cbs_get_any_asn1_element_def p and_80 element_body_def hl n Let_def
              prod.case option.case CBS_get_u8_simps if_False if_True simp_thms not_False_eq_True)
      qed
    next
      case ok: False
      let ?l = "be_val (take ?n h)"
      have l: "?l < 256 ^ 4" using ok by (intro be_val_le_pow) simp
      have u: "unat (word_of_nat ?l :: u64) = ?l" using l by (intro unat_u64_of_nat) simp
      have g: "cbs_get_u h ?n = (Some (word_of_nat ?l), drop ?n h)" using ok by (simp add: cbs_get_u_eq)
      have bad: "((word_of_nat ?l :: u64) < 128 \<or> drop_bit ((?n - 1) * 8) (word_of_nat ?l :: u64) = 0)
          \<longleftrightarrow> ?l < 128 \<or> ?l < 256 ^ (?n - 1)"
        by (simp add: word_less_nat_alt u drop_bit_eq_0_iff_unat power_mult mult.commute)
      have k4: "?n \<le> 4" using ok by simp
      have "?l + (length (tag_enc tag) + 1 + ?n) < 256 ^ 4 + 11"
        using l k4 length_tag_enc [of tag] by linarith
      also have "\<dots> \<le> SIZE_MOD" by (simp add: SIZE_MOD_def)
      finally have small: "?l + (length (tag_enc tag) + 1 + ?n) < SIZE_MOD" .
      have pos: "?l + (length (tag_enc tag) + 1 + ?n) = length (tag_enc tag) + 1 + (?n + ?l)"
        by simp
      note adds = size_add_3 [OF small, unfolded pos]
      have nlt: "\<not> length (tag_enc tag) + 1 + (?n + ?l) < ?l" by simp
      show ?thesis
        using ok False
        by (simp only: cbs_get_any_asn1_element_def p and_80 element_body_def hl n g Let_def bad u
            adds nlt get prod.case option.case CBS_get_u8_simps if_False if_True simp_thms
            not_less) auto
    qed
  qed
qed

text \<open>The three ways an element can be accepted, whatever its rules.\<close>

lemma element_cases:
  assumes "cbs_get_any_asn1_element ber_ok s = (Some e, r)"
  obtains (short) lb h where
      "s = tag_enc (out_tag e) @ lb # h" "unat lb < 128" "unat lb \<le> length h"
      "out_header_len e = length (tag_enc (out_tag e)) + 1"
      "out e = tag_enc (out_tag e) @ lb # take (unat lb) h" "r = drop (unat lb) h"
      "\<not> out_ber_found e" "\<not> out_indefinite e"
    | (indefinite) lb where
      "ber_ok" "out_tag e AND CBS_ASN1_CONSTRUCTED \<noteq> 0" "unat lb = 128"
      "s = tag_enc (out_tag e) @ lb # r"
      "out_header_len e = length (tag_enc (out_tag e)) + 1"
      "out e = tag_enc (out_tag e) @ [lb]"
      "out_ber_found e" "out_indefinite e"
    | (long) lb lbs h where
      "s = tag_enc (out_tag e) @ lb # lbs @ h" "unat lb = 128 + length lbs"
      "0 < length lbs" "length lbs \<le> 4" "be_val lbs \<le> length h"
      "out_header_len e = length (tag_enc (out_tag e)) + 1 + length lbs"
      "out e = tag_enc (out_tag e) @ lb # lbs @ take (be_val lbs) h" "r = drop (be_val lbs) h"
      "out_ber_found e = (be_val lbs < 128 \<or> be_val lbs < 256 ^ (length lbs - 1))"
      "out_ber_found e \<longrightarrow> ber_ok" "\<not> out_indefinite e"

proof -
  from assms obtain tag h1 where p: "parse_asn1_tag s = (Some tag, h1)"
    by (auto simp: cbs_get_any_asn1_element_def split: prod.splits option.splits)
  then have ok: "tag_ok tag" and s1: "s = tag_enc tag @ h1" by (simp_all add: parse_asn1_tag_iff)
  from assms p obtain lb h where h1: "h1 = lb # h"
    by (cases h1) (auto simp: cbs_get_any_asn1_element_def)
  note s = s1 [unfolded h1]
  from assms [unfolded element_eq [OF ok s]] obtain n hl ber indef where
      b: "element_body ber_ok tag lb h = Some (n, hl, ber, indef)" and n: "n \<le> length h"
    and e: "e = \<lparr>out = tag_enc tag @ lb # take n h, out_tag = tag, out_header_len = hl,
               out_ber_found = ber, out_indefinite = indef\<rparr>" and r: "r = drop n h"
    by (auto split: option.splits if_splits)
  show thesis
  proof (cases "unat lb < 128")
    case True
    then show thesis using b n e r s by (intro short) (auto simp: element_body_def Let_def)
  next
    case False
    show thesis
    proof (cases "ber_ok \<and> tag AND CBS_ASN1_CONSTRUCTED \<noteq> 0 \<and> unat lb = 128")
      case True
      then show thesis using b n e r s by (intro indefinite) (auto simp: element_body_def Let_def)
    next
      case nb: False
      let ?k = "unat lb - 128"
      have k: "0 < ?k" "?k \<le> 4" "?k \<le> length h"
        using b False nb by (auto simp: element_body_def Let_def split: if_splits)
      let ?l = "be_val (take ?k h)"
      have body: "n = ?k + ?l" "hl = length (tag_enc tag) + 1 + ?k" "\<not> indef"
        "ber = (?l < 128 \<or> ?l < 256 ^ (?k - 1))" "ber \<longrightarrow> ber_ok"
        using b False nb k by (auto simp: element_body_def Let_def split: if_splits)
      have tk: "take n h = take ?k h @ take ?l (drop ?k h)" "drop n h = drop ?l (drop ?k h)"
        unfolding body(1) by (simp_all add: take_add add.commute)
      have len: "length (take ?k h) = ?k" using k by simp
      show thesis
      proof (rule long [of lb "take ?k h" "drop ?k h"])
        show "s = tag_enc (out_tag e) @ lb # take ?k h @ drop ?k h" using s e by simp
        show "unat lb = 128 + length (take ?k h)" using len k by simp
        show "0 < length (take ?k h)" "length (take ?k h) \<le> 4" using len k by simp_all
        show "?l \<le> length (drop ?k h)" using n body(1) by simp
        show "out_header_len e = length (tag_enc (out_tag e)) + 1 + length (take ?k h)"
          unfolding len using e body(2) by simp
        show "out e = tag_enc (out_tag e) @ lb # take ?k h @ take ?l (drop ?k h)"
          using e tk(1) by simp
        show "r = drop ?l (drop ?k h)" using r tk(2) by simp
        show "out_ber_found e = (?l < 128 \<or> ?l < 256 ^ (length (take ?k h) - 1))"
          unfolding len using e body(4) by simp
        show "out_ber_found e \<longrightarrow> ber_ok" "\<not> out_indefinite e" using e body by simp_all
      qed
    qed
  qed
qed

lemma element_failure_keeps_cursor:
  "cbs_get_any_asn1_element ber_ok s = (None, r) \<Longrightarrow> r = s"
  by (auto simp: cbs_get_any_asn1_element_def CBS_get_bytes_eq Let_def
      split: prod.splits option.splits if_splits)

lemma len_enc_nonempty [simp]: "len_enc n \<noteq> []"
  by (simp add: len_enc_def)

lemma byte_len_range: "128 \<le> n \<Longrightarrow> n < 256 ^ 4 \<Longrightarrow> 0 < byte_len n \<and> byte_len n \<le> 4"
  using byte_len_le [of n 4] by (subst byte_len.simps) auto

lemma element_body_len_enc:
  assumes n: "n < 256 ^ 4"
  obtains lb lbs where "len_enc n = lb # lbs"
    "element_body ber_ok tag lb (lbs @ h) =
      Some (length lbs + n, length (tag_enc tag) + length (len_enc n), False, False)"
proof (cases "n < 128")
  case True
  then have "unat (word_of_nat n :: byte) = n" by (intro unat_byte_of_nat) simp
  with True show thesis
    by (intro that [of "word_of_nat n" "[]"]) (simp_all add: len_enc_def element_body_def Let_def)
next
  case False
  let ?k = "byte_len n"
  have k: "0 < ?k" "?k \<le> 4" using byte_len_range n False by simp_all
  have lb: "unat (word_of_nat (128 + ?k) :: byte) = 128 + ?k"
    using k by (intro unat_byte_of_nat) simp
  have v: "be_val (take ?k (be_bytes ?k n @ h)) = n"
    using byte_len_upper [of n] by (simp add: be_val_be_bytes_id)
  have "\<not> n < 256 ^ (?k - 1)" using byte_len_lower [of n] False by simp
  then have "element_body ber_ok tag (word_of_nat (128 + ?k)) (be_bytes ?k n @ h) =
      Some (?k + n, length (tag_enc tag) + 1 + ?k, False, False)"
    unfolding element_body_def Let_def lb using k v False by simp
  then show thesis
    using False by (intro that [of "word_of_nat (128 + ?k)" "be_bytes ?k n"])
      (simp_all add: len_enc_def)
qed

lemma element_der_enc:
  assumes ok: "tag_ok t" and n: "length content < 256 ^ 4"
  shows "cbs_get_any_asn1_element ber_ok (der_enc t content @ r) =
    (Some \<lparr>out = der_enc t content, out_tag = t, out_header_len = der_header_len t (length content),
       out_ber_found = False, out_indefinite = False\<rparr>, r)"
proof -
  obtain lb lbs where l: "len_enc (length content) = lb # lbs" and
    b: "element_body ber_ok t lb (lbs @ content @ r) =
      Some (length lbs + length content, length (tag_enc t) + length (len_enc (length content)), False, False)"
    by (rule element_body_len_enc [OF n])
  have "der_enc t content @ r = tag_enc t @ lb # lbs @ content @ r"
    by (simp add: der_enc_def l)
  from element_eq [OF ok this, of ber_ok] show ?thesis
    unfolding b by (simp add: der_enc_def der_header_len_def l)
qed

text \<open>The DER reader accepts exactly the reference encodings.\<close>

theorem der_element_iff:
  "CBS_get_any_asn1_element s = (Some e, r) \<longleftrightarrow>
   (\<exists>content. tag_ok (out_tag e) \<and> length content < 2 ^ 32 \<and> s = der_enc (out_tag e) content @ r \<and>
      e = \<lparr>out = der_enc (out_tag e) content, out_tag = out_tag e,
           out_header_len = der_header_len (out_tag e) (length content),
           out_ber_found = False, out_indefinite = False\<rparr>)"
  (is "?L \<longleftrightarrow> ?R")
proof
  assume ?R
  then show ?L
    using element_der_enc [of "out_tag e" _ False r] unfolding CBS_get_any_asn1_element_def by force
next
  assume L: ?L
  then have el: "cbs_get_any_asn1_element False s = (Some e, r)"
    by (simp add: CBS_get_any_asn1_element_def)
  then have ok: "tag_ok (out_tag e)"
    by (auto simp: cbs_get_any_asn1_element_def CBS_get_bytes_eq Let_def parse_asn1_tag_iff
        split: prod.splits option.splits if_splits)
  have core: "\<exists>content. length content < 2 ^ 32 \<and> s = der_enc (out_tag e) content @ r \<and>
      out e = der_enc (out_tag e) content \<and>
      out_header_len e = der_header_len (out_tag e) (length content) \<and>
      \<not> out_ber_found e \<and> \<not> out_indefinite e"
    using el
  proof (cases rule: element_cases)
    case (short lb h)
    then have "len_enc (length (take (unat lb) h)) = [lb]"
      by (simp add: len_enc_def)
    then show ?thesis using short
      by (intro exI [of _ "take (unat lb) h"]) (simp add: der_enc_def der_header_len_def)
  next
    case (long lb lbs h)
    let ?n = "be_val lbs"
    have n: "?n < 256 ^ length lbs" by (rule be_val_less)
    have k: "byte_len ?n = length lbs"
      using long n by (intro byte_len_unique) auto
    have lb: "lb = word_of_nat (128 + length lbs)"
      using long(2,4) by (intro word_eq_if_unat) (simp only: unat_byte_of_nat)
    have "len_enc (length (take ?n h)) = lb # lbs"
      using long k by (simp add: len_enc_def lb be_bytes_be_val min_absorb2)
    moreover have "?n < 2 ^ 32" using long(4) be_val_le_pow [of lbs 4] by simp
    ultimately show ?thesis using long
      by (intro exI [of _ "take ?n h"]) (simp add: der_enc_def der_header_len_def)
  qed simp
  then show ?R using ok by (metis (full_types) asn1_element.surjective old.unit.exhaust)
qed

text \<open>One encoding per element, and no encoding a prefix of another.\<close>

lemma der_enc_inj:
  assumes "der_enc t c @ r = der_enc u d @ q" "tag_ok t" "tag_ok u"
    "length c < 2 ^ 32" "length d < 2 ^ 32"
  shows "t = u \<and> c = d \<and> r = q"
proof -
  have "cbs_get_any_asn1_element False (der_enc t c @ r) =
    (Some \<lparr>out = der_enc u d, out_tag = u, out_header_len = der_header_len u (length d),
       out_ber_found = False, out_indefinite = False\<rparr>, q)"
    unfolding assms(1) using assms by (intro element_der_enc) simp_all
  moreover have "cbs_get_any_asn1_element False (der_enc t c @ r) =
    (Some \<lparr>out = der_enc t c, out_tag = t, out_header_len = der_header_len t (length c),
       out_ber_found = False, out_indefinite = False\<rparr>, r)"
    using assms by (intro element_der_enc) simp_all
  ultimately have "t = u \<and> r = q \<and> der_enc t c = der_enc u d \<and>
      der_header_len t (length c) = der_header_len u (length d)"
    by (metis (no_types) asn1_element.ext_inject option.inject prod.inject)
  then have eq: "t = u" "r = q" "der_enc t c = der_enc u d"
      "der_header_len t (length c) = der_header_len u (length d)"
    by blast+
  have "c = drop (der_header_len t (length c)) (der_enc t c)"
    by (simp add: der_enc_def der_header_len_def)
  also have "\<dots> = d" unfolding eq(3,4) by (simp add: der_enc_def der_header_len_def)
  finally show ?thesis using eq by simp
qed

lemma der_enc_nonempty [simp]: "der_enc t c \<noteq> []"
  by (simp add: der_enc_def)

interpretation der_element: cbs_strict_reader CBS_get_any_asn1_element
proof
  fix s r :: cbs and e
  assume "CBS_get_any_asn1_element s = (Some e, r)"
  then obtain content where c: "tag_ok (out_tag e)" "length content < 2 ^ 32"
      "s = der_enc (out_tag e) content @ r"
      "e = \<lparr>out = der_enc (out_tag e) content, out_tag = out_tag e,
           out_header_len = der_header_len (out_tag e) (length content),
           out_ber_found = False, out_indefinite = False\<rparr>"
    unfolding der_element_iff by blast
  show "\<exists>c. s = c @ r" and "r \<noteq> s" using c(3) by auto
  show "CBS_get_any_asn1_element (s @ t) = (Some e, r @ t)" for t
    unfolding der_element_iff using c by (intro exI [of _ content]) simp
qed

text \<open>The readers built on it.\<close>

lemma CBS_get_any_asn1_iff:
  "CBS_get_any_asn1 s = (Some (c, t), r) \<longleftrightarrow>
   tag_ok t \<and> length c < 2 ^ 32 \<and> s = der_enc t c @ r"
proof
  assume "CBS_get_any_asn1 s = (Some (c, t), r)"
  then show "tag_ok t \<and> length c < 2 ^ 32 \<and> s = der_enc t c @ r"
    by (auto simp: CBS_get_any_asn1_def der_element_iff CBS_skip_def cbs_get_def der_enc_def
        der_header_len_def split: prod.splits option.splits if_splits)
next
  assume "tag_ok t \<and> length c < 2 ^ 32 \<and> s = der_enc t c @ r"
  then show "CBS_get_any_asn1 s = (Some (c, t), r)"
    using element_der_enc [of t c False r]
    by (simp add: CBS_get_any_asn1_def CBS_get_any_asn1_element_def CBS_skip_def cbs_get_def
        der_header_len_def) (simp add: der_enc_def)
qed

lemma cbs_get_asn1_eq:
  "cbs_get_asn1 s t True = (case CBS_get_any_asn1 s of
     (None, r) \<Rightarrow> (None, r) | (Some (c, u), r) \<Rightarrow> if u \<noteq> t then (None, r) else (Some c, r))"
  by (auto simp: cbs_get_asn1_def CBS_get_any_asn1_def split: prod.splits option.splits)

theorem CBS_get_asn1_iff:
  "CBS_get_asn1 s t = (Some c, r) \<longleftrightarrow> tag_ok t \<and> length c < 2 ^ 32 \<and> s = der_enc t c @ r"
  unfolding CBS_get_asn1_def cbs_get_asn1_eq
  using CBS_get_any_asn1_iff [of s c t r] by (auto split: prod.splits option.splits)

theorem CBS_get_asn1_element_iff:
  "CBS_get_asn1_element s t = (Some x, r) \<longleftrightarrow>
   (\<exists>c. tag_ok t \<and> length c < 2 ^ 32 \<and> x = der_enc t c \<and> s = x @ r)"
proof
  assume "CBS_get_asn1_element s t = (Some x, r)"
  then show "\<exists>c. tag_ok t \<and> length c < 2 ^ 32 \<and> x = der_enc t c \<and> s = x @ r"
    by (auto simp: CBS_get_asn1_element_def cbs_get_asn1_def der_element_iff
        split: prod.splits option.splits if_splits)
next
  assume "\<exists>c. tag_ok t \<and> length c < 2 ^ 32 \<and> x = der_enc t c \<and> s = x @ r"
  then show "CBS_get_asn1_element s t = (Some x, r)"
    using element_der_enc [of t _ False r]
    by (auto simp: CBS_get_asn1_element_def cbs_get_asn1_def CBS_get_any_asn1_element_def)
qed

lemma CBS_peek_asn1_tag_iff: "CBS_peek_asn1_tag s t \<longleftrightarrow> tag_ok t \<and> prefix (tag_enc t) s"
proof
  assume "CBS_peek_asn1_tag s t"
  then obtain r where "parse_asn1_tag s = (Some t, r)"
    by (auto simp: CBS_peek_asn1_tag_def split: prod.splits option.splits)
  then show "tag_ok t \<and> prefix (tag_enc t) s" by (simp add: parse_asn1_tag_iff)
next
  assume "tag_ok t \<and> prefix (tag_enc t) s"
  then obtain r where "s = tag_enc t @ r" "tag_ok t" by (auto simp: prefix_def)
  then have "parse_asn1_tag s = (Some t, r)" by (simp add: parse_asn1_tag_iff)
  then show "CBS_peek_asn1_tag s t" by (simp add: CBS_peek_asn1_tag_def)
qed

end
