(* ===== verification/Cbb.thy ===== *)
theory Cbb
  imports CbsDer
begin

text \<open>
  The byte-string builder of BoringSSL (\<^verbatim>\<open>crypto/bytestring/cbb.c\<close>): a growable or fixed buffer
  and the length-prefixed children that are open on it.

  A \<^verbatim>\<open>CBB\<close> owns a buffer; a child \<^verbatim>\<open>CBB\<close> points to the buffer of its root and each \<^verbatim>\<open>CBB\<close> has at
  most one open child, so the open children of a root form the chain
  \<^verbatim>\<open>cbb->child->child->...\<close>.  The model keeps the root with that chain as a list, outermost
  child first, and a \<^verbatim>\<open>CBB*\<close> is its depth: 0 is the root and \<open>d > 0\<close> the \<open>d\<close>-th open child.
  A depth beyond the chain is a child that was flushed or discarded, whose \<^verbatim>\<open>base\<close> is NULL.
  Every operation takes the depth of the \<^verbatim>\<open>CBB\<close> it is called on.

  The buffer is an array of \<open>bb_cap\<close> bytes, of which the first \<open>bb_len\<close> are written; bytes of a
  fresh allocation are modelled as zeros, and no operation reads them.  Which allocations
  succeed is the parameter \<open>cbb_alloc\<close>.
\<close>

section \<open>The code\<close>

record cbb_buffer =
  bb_buf :: "byte list"
  bb_len :: nat
  bb_cap :: nat
  bb_can_resize :: bool
  bb_error :: bool

record cbb_child =
  ch_offset :: nat
  ch_pending_len_len :: nat
  ch_pending_is_asn1 :: bool

record cbb =
  cbb_base :: cbb_buffer
  cbb_chain :: "cbb_child list"
  cbb_alloc :: allocator

definition cbb_init :: "allocator \<Rightarrow> byte list \<Rightarrow> nat \<Rightarrow> bool \<Rightarrow> cbb" where
  "cbb_init al buf cap can_resize =
     \<lparr>cbb_base = \<lparr>bb_buf = buf, bb_len = 0, bb_cap = cap, bb_can_resize = can_resize, bb_error = False\<rparr>,
      cbb_chain = [], cbb_alloc = al\<rparr>"

text \<open>\<open>None\<close>: the allocation failed and the \<^verbatim>\<open>CBB\<close> is left zeroed.\<close>

definition CBB_init :: "allocator \<Rightarrow> nat \<Rightarrow> cbb option" where
  "CBB_init al initial_capacity =
     (if initial_capacity > 0 \<and> \<not> al initial_capacity then None
      else Some (cbb_init al (replicate initial_capacity 0) initial_capacity True))"

definition CBB_init_fixed :: "allocator \<Rightarrow> byte list \<Rightarrow> cbb" where
  "CBB_init_fixed al buf = cbb_init al buf (length buf) False"

definition cbb_buffer_reserve :: "allocator \<Rightarrow> cbb_buffer \<Rightarrow> nat \<Rightarrow> bool \<times> cbb_buffer" where
  "cbb_buffer_reserve al b n =
     (let newlen = size_add (bb_len b) n
      in if newlen < bb_len b then (False, b\<lparr>bb_error := True\<rparr>)
         else if newlen > bb_cap b then
           if \<not> bb_can_resize b then (False, b\<lparr>bb_error := True\<rparr>)
           else let newcap0 = size_add (bb_cap b) (bb_cap b);
                    newcap = (if newcap0 < bb_cap b \<or> newcap0 < newlen then newlen else newcap0)
                in if \<not> al newcap then (False, b\<lparr>bb_error := True\<rparr>)
                   else (True, b\<lparr>bb_buf := take (bb_cap b) (bb_buf b) @ replicate (newcap - bb_cap b) 0,
                                bb_cap := newcap\<rparr>)
         else (True, b))"

definition cbb_buffer_add :: "allocator \<Rightarrow> cbb_buffer \<Rightarrow> nat \<Rightarrow> bool \<times> cbb_buffer" where
  "cbb_buffer_add al b n = (case cbb_buffer_reserve al b n of
     (False, b') \<Rightarrow> (False, b')
   | (True, b') \<Rightarrow> (True, b'\<lparr>bb_len := bb_len b' + n\<rparr>))"

text \<open>The bytes a \<^verbatim>\<open>memcpy\<close> puts at offset \<open>off\<close> of the buffer.\<close>

definition buf_write :: "nat \<Rightarrow> byte list \<Rightarrow> cbb_buffer \<Rightarrow> cbb_buffer" where
  "buf_write off bs b = b\<lparr>bb_buf := overwrite off bs (bb_buf b)\<rparr>"

text \<open>The loops that write a number big-endian, last byte first, shifting it out.\<close>

fun write_be :: "nat \<Rightarrow> nat \<Rightarrow> nat \<Rightarrow> byte list \<Rightarrow> byte list \<times> nat" where
  "write_be off 0 v xs = (xs, v)"
| "write_be off (Suc i) v xs = write_be off i (v div 256) (xs[off + i := word_of_nat v])"

definition flush_child :: "allocator \<Rightarrow> cbb_buffer \<Rightarrow> cbb_child \<Rightarrow> nat \<Rightarrow> bool \<times> cbb_buffer" where
  "flush_child al b child child_start =
     (let len = bb_len b - child_start;
          finish = (\<lambda>b offset n len.
            case write_be offset n len (bb_buf b) of (buf, rest) \<Rightarrow> (rest = 0, b\<lparr>bb_buf := buf\<rparr>))
      in if ch_pending_is_asn1 child then
           if len > 0xfffffffe then (False, b)
           else let (len_len, initial_length_byte, len') =
                  (if len > 0xffffff then (5, 0x80 OR 4, len)
                   else if len > 0xffff then (4, 0x80 OR 3, len)
                   else if len > 0xff then (3, 0x80 OR 2, len)
                   else if len > 0x7f then (2, 0x80 OR 1, len)
                   else (1, word_of_nat len, 0))
                in case (if len_len \<noteq> 1 then
                     let extra_bytes = len_len - 1
                     in case cbb_buffer_add al b extra_bytes of
                          (False, b1) \<Rightarrow> (False, b1)
                        | (True, b1) \<Rightarrow>
                            (True, buf_write (child_start + extra_bytes)
                                     (take len' (drop child_start (bb_buf b1))) b1)
                   else (True, b)) of
                     (False, b1) \<Rightarrow> (False, b1)
                   | (True, b1) \<Rightarrow>
                       finish (b1\<lparr>bb_buf := (bb_buf b1)[ch_offset child := initial_length_byte]\<rparr>)
                         (ch_offset child + 1) (len_len - 1) len'
         else finish b (ch_offset child) (ch_pending_len_len child) len)"

text \<open>
  \<^verbatim>\<open>CBB_flush\<close> from some \<^verbatim>\<open>CBB\<close> down its chain of children: success, the buffer, and what is
  left of the chain below the \<^verbatim>\<open>CBB\<close>.  A failure after the entry check goes through
  \<^verbatim>\<open>cbb_on_error\<close>.
\<close>

fun flush_chain :: "allocator \<Rightarrow> cbb_buffer \<Rightarrow> cbb_child list \<Rightarrow> bool \<times> cbb_buffer \<times> cbb_child list" where
  "flush_chain al b [] = (\<not> bb_error b, b, [])"
| "flush_chain al b (child # below) =
     (if bb_error b then (False, b, child # below)
      else let child_start = size_add (ch_offset child) (ch_pending_len_len child);
               (ok, b1, _) = flush_chain al b below
           in if \<not> ok \<or> child_start < ch_offset child \<or> bb_len b1 < child_start
              then (False, b1\<lparr>bb_error := True\<rparr>, [])
              else case flush_child al b1 child child_start of
                  (False, b2) \<Rightarrow> (False, b2\<lparr>bb_error := True\<rparr>, [])
                | (True, b2) \<Rightarrow> (True, b2, []))"

definition CBB_flush :: "cbb \<Rightarrow> nat \<Rightarrow> bool \<times> cbb" where
  "CBB_flush w d =
     (if length (cbb_chain w) < d then (False, w)
      else case flush_chain (cbb_alloc w) (cbb_base w) (drop d (cbb_chain w)) of
        (ok, b, below) \<Rightarrow> (ok, w\<lparr>cbb_base := b, cbb_chain := take d (cbb_chain w) @ below\<rparr>))"

definition cbb_on_error :: "cbb \<Rightarrow> nat \<Rightarrow> cbb" where
  "cbb_on_error w d =
     w\<lparr>cbb_base := (cbb_base w)\<lparr>bb_error := True\<rparr>, cbb_chain := take d (cbb_chain w)\<rparr>"

definition child_start :: "cbb \<Rightarrow> nat \<Rightarrow> nat" where
  "child_start w d = (case d of 0 \<Rightarrow> 0
     | Suc i \<Rightarrow> ch_offset (cbb_chain w ! i) + ch_pending_len_len (cbb_chain w ! i))"

definition CBB_len :: "cbb \<Rightarrow> nat \<Rightarrow> nat" where
  "CBB_len w d = bb_len (cbb_base w) - child_start w d"

definition CBB_data :: "cbb \<Rightarrow> nat \<Rightarrow> byte list" where
  "CBB_data w d = drop (child_start w d) (bb_buf (cbb_base w))"

text \<open>
  \<^verbatim>\<open>CBB_finish\<close>: the flags say whether \<^verbatim>\<open>out_data\<close> and \<^verbatim>\<open>out_len\<close> are given; the result is the
  buffer and its length.  The buffer now belongs to the caller.
\<close>

definition CBB_finish :: "cbb \<Rightarrow> nat \<Rightarrow> bool \<Rightarrow> bool \<Rightarrow> (byte list \<times> nat) option \<times> cbb" where
  "CBB_finish w d want_data want_len =
     (if d \<noteq> 0 then (None, w)
      else case CBB_flush w d of
        (False, w1) \<Rightarrow> (None, w1)
      | (True, w1) \<Rightarrow>
          if bb_can_resize (cbb_base w1) \<and> (\<not> want_data \<or> \<not> want_len) then (None, w1)
          else (Some (bb_buf (cbb_base w1), bb_len (cbb_base w1)),
                w1\<lparr>cbb_base := (cbb_base w1)\<lparr>bb_buf := []\<rparr>\<rparr>))"

definition cbb_add_child :: "cbb \<Rightarrow> nat \<Rightarrow> nat \<Rightarrow> bool \<Rightarrow> bool \<times> cbb" where
  "cbb_add_child w d len_len is_asn1 =
     (let offset = bb_len (cbb_base w)
      in case cbb_buffer_add (cbb_alloc w) (cbb_base w) len_len of
           (False, b) \<Rightarrow> (False, w\<lparr>cbb_base := b\<rparr>)
         | (True, b) \<Rightarrow>
             (True, w\<lparr>cbb_base := buf_write offset (replicate len_len 0) b,
                      cbb_chain := take d (cbb_chain w) @
                        [\<lparr>ch_offset = offset, ch_pending_len_len = len_len, ch_pending_is_asn1 = is_asn1\<rparr>]\<rparr>))"

definition cbb_add_length_prefixed :: "cbb \<Rightarrow> nat \<Rightarrow> nat \<Rightarrow> bool \<times> cbb" where
  "cbb_add_length_prefixed w d len_len = (case CBB_flush w d of
     (False, w1) \<Rightarrow> (False, w1)
   | (True, w1) \<Rightarrow> cbb_add_child w1 d len_len False)"

definition CBB_add_u8_length_prefixed :: "cbb \<Rightarrow> nat \<Rightarrow> bool \<times> cbb" where
  "CBB_add_u8_length_prefixed w d = cbb_add_length_prefixed w d 1"

definition CBB_add_u16_length_prefixed :: "cbb \<Rightarrow> nat \<Rightarrow> bool \<times> cbb" where
  "CBB_add_u16_length_prefixed w d = cbb_add_length_prefixed w d 2"

definition CBB_add_u24_length_prefixed :: "cbb \<Rightarrow> nat \<Rightarrow> bool \<times> cbb" where
  "CBB_add_u24_length_prefixed w d = cbb_add_length_prefixed w d 3"

text \<open>\<^verbatim>\<open>CBB_add_space\<close>: the result is the offset of the space in the buffer.\<close>

definition CBB_add_space :: "cbb \<Rightarrow> nat \<Rightarrow> nat \<Rightarrow> nat option \<times> cbb" where
  "CBB_add_space w d n = (case CBB_flush w d of
     (False, w1) \<Rightarrow> (None, w1)
   | (True, w1) \<Rightarrow> (case cbb_buffer_add (cbb_alloc w1) (cbb_base w1) n of
       (False, b) \<Rightarrow> (None, w1\<lparr>cbb_base := b\<rparr>)
     | (True, b) \<Rightarrow> (Some (bb_len (cbb_base w1)), w1\<lparr>cbb_base := b\<rparr>)))"

definition CBB_reserve :: "cbb \<Rightarrow> nat \<Rightarrow> nat \<Rightarrow> nat option \<times> cbb" where
  "CBB_reserve w d n = (case CBB_flush w d of
     (False, w1) \<Rightarrow> (None, w1)
   | (True, w1) \<Rightarrow> (case cbb_buffer_reserve (cbb_alloc w1) (cbb_base w1) n of
       (False, b) \<Rightarrow> (None, w1\<lparr>cbb_base := b\<rparr>)
     | (True, b) \<Rightarrow> (Some (bb_len (cbb_base w1)), w1\<lparr>cbb_base := b\<rparr>)))"

definition CBB_did_write :: "cbb \<Rightarrow> nat \<Rightarrow> nat \<Rightarrow> bool \<times> cbb" where
  "CBB_did_write w d n =
     (let b = cbb_base w; newlen = size_add (bb_len b) n
      in if d < length (cbb_chain w) \<or> newlen < bb_len b \<or> newlen > bb_cap b then (False, w)
         else (True, w\<lparr>cbb_base := b\<lparr>bb_len := newlen\<rparr>\<rparr>))"

definition CBB_add_bytes :: "cbb \<Rightarrow> nat \<Rightarrow> byte list \<Rightarrow> bool \<times> cbb" where
  "CBB_add_bytes w d data = (case CBB_add_space w d (length data) of
     (None, w1) \<Rightarrow> (False, w1)
   | (Some pos, w1) \<Rightarrow> (True, w1\<lparr>cbb_base := buf_write pos data (cbb_base w1)\<rparr>))"

definition CBB_add_zeros :: "cbb \<Rightarrow> nat \<Rightarrow> nat \<Rightarrow> bool \<times> cbb" where
  "CBB_add_zeros w d n = (case CBB_add_space w d n of
     (None, w1) \<Rightarrow> (False, w1)
   | (Some pos, w1) \<Rightarrow> (True, w1\<lparr>cbb_base := buf_write pos (replicate n 0) (cbb_base w1)\<rparr>))"

definition cbb_add_u :: "cbb \<Rightarrow> nat \<Rightarrow> u64 \<Rightarrow> nat \<Rightarrow> bool \<times> cbb" where
  "cbb_add_u w d v len_len = (case CBB_add_space w d len_len of
     (None, w1) \<Rightarrow> (False, w1)
   | (Some buf, w1) \<Rightarrow> (case write_be buf len_len (unat v) (bb_buf (cbb_base w1)) of
       (xs, rest) \<Rightarrow>
         let w2 = w1\<lparr>cbb_base := (cbb_base w1)\<lparr>bb_buf := xs\<rparr>\<rparr>
         in if rest \<noteq> 0 then (False, cbb_on_error w2 d) else (True, w2)))"

definition CBB_add_u8 :: "cbb \<Rightarrow> nat \<Rightarrow> byte \<Rightarrow> bool \<times> cbb" where
  "CBB_add_u8 w d value = cbb_add_u w d (ucast value) 1"

definition CBB_add_u16 :: "cbb \<Rightarrow> nat \<Rightarrow> u16 \<Rightarrow> bool \<times> cbb" where
  "CBB_add_u16 w d value = cbb_add_u w d (ucast value) 2"

definition CBB_add_u16le :: "cbb \<Rightarrow> nat \<Rightarrow> u16 \<Rightarrow> bool \<times> cbb" where
  "CBB_add_u16le w d value = CBB_add_u16 w d (CRYPTO_bswap2 value)"

definition CBB_add_u24 :: "cbb \<Rightarrow> nat \<Rightarrow> u32 \<Rightarrow> bool \<times> cbb" where
  "CBB_add_u24 w d value = cbb_add_u w d (ucast value) 3"

definition CBB_add_u32 :: "cbb \<Rightarrow> nat \<Rightarrow> u32 \<Rightarrow> bool \<times> cbb" where
  "CBB_add_u32 w d value = cbb_add_u w d (ucast value) 4"

definition CBB_add_u32le :: "cbb \<Rightarrow> nat \<Rightarrow> u32 \<Rightarrow> bool \<times> cbb" where
  "CBB_add_u32le w d value = CBB_add_u32 w d (CRYPTO_bswap4 value)"

definition CBB_add_u64 :: "cbb \<Rightarrow> nat \<Rightarrow> u64 \<Rightarrow> bool \<times> cbb" where
  "CBB_add_u64 w d value = cbb_add_u w d value 8"

definition CBB_add_u64le :: "cbb \<Rightarrow> nat \<Rightarrow> u64 \<Rightarrow> bool \<times> cbb" where
  "CBB_add_u64le w d value = CBB_add_u64 w d (CRYPTO_bswap8 value)"

definition CBB_discard_child :: "cbb \<Rightarrow> nat \<Rightarrow> cbb" where
  "CBB_discard_child w d =
     (if length (cbb_chain w) \<le> d then w
      else w\<lparr>cbb_base := (cbb_base w)\<lparr>bb_len := ch_offset (cbb_chain w ! d)\<rparr>,
             cbb_chain := take d (cbb_chain w)\<rparr>)"

text \<open>The number of base-128 digits, then one octet per digit, high digits first.\<close>

fun base128_len :: "nat \<Rightarrow> nat" where
  "base128_len copy = (if copy > 0 then Suc (base128_len (copy div 128)) else 0)"

declare base128_len.simps [simp del]

fun add_base128_loop :: "nat \<Rightarrow> u64 \<Rightarrow> cbb \<Rightarrow> nat \<Rightarrow> bool \<times> cbb" where
  "add_base128_loop 0 v w d = (True, w)"
| "add_base128_loop (Suc i) v w d =
     (let byte0 = ucast (drop_bit (7 * i) v) AND 0x7f;
          byte = (if i \<noteq> 0 then byte0 OR 0x80 else byte0)
      in case CBB_add_u8 w d byte of
           (False, w1) \<Rightarrow> (False, w1)
         | (True, w1) \<Rightarrow> add_base128_loop i v w1 d)"

definition add_base128_integer :: "cbb \<Rightarrow> nat \<Rightarrow> u64 \<Rightarrow> bool \<times> cbb" where
  "add_base128_integer w d v =
     (let len_len = base128_len (unat v)
      in add_base128_loop (if len_len = 0 then 1 else len_len) v w d)"

definition CBB_add_asn1 :: "cbb \<Rightarrow> nat \<Rightarrow> asn1_tag \<Rightarrow> bool \<times> cbb" where
  "CBB_add_asn1 w d tag = (case CBB_flush w d of
     (False, w1) \<Rightarrow> (False, w1)
   | (True, w1) \<Rightarrow>
       let tag_bits = ucast (drop_bit CBS_ASN1_TAG_SHIFT tag) AND 0xe0 :: byte;
           number = tag AND CBS_ASN1_TAG_NUMBER_MASK
       in case (if number \<ge> 0x1f then
            (case CBB_add_u8 w1 d (tag_bits OR 0x1f) of
               (False, w2) \<Rightarrow> (False, w2)
             | (True, w2) \<Rightarrow> add_base128_integer w2 d (ucast number))
          else CBB_add_u8 w1 d (tag_bits OR ucast number)) of
            (False, w3) \<Rightarrow> (False, w3)
          | (True, w3) \<Rightarrow> cbb_add_child w3 d 1 True)"

section \<open>The buffer\<close>

definition wf_buf :: "cbb_buffer \<Rightarrow> bool" where
  "wf_buf b \<longleftrightarrow> length (bb_buf b) = bb_cap b \<and> bb_len b \<le> bb_cap b \<and> bb_cap b < SIZE_MOD"

definition written :: "cbb_buffer \<Rightarrow> byte list" where
  "written b = take (bb_len b) (bb_buf b)"

lemma length_written [simp]: "wf_buf b \<Longrightarrow> length (written b) = bb_len b"
  by (simp add: wf_buf_def written_def)

lemma buffer_reserve_True:
  assumes "cbb_buffer_reserve al b n = (True, b')" and "wf_buf b"
  shows "wf_buf b'" "bb_len b' = bb_len b" "take (bb_len b) (bb_buf b') = written b"
    "bb_error b' = bb_error b" "bb_can_resize b' = bb_can_resize b" "size_add (bb_len b) n \<le> bb_cap b'"
    "\<not> size_add (bb_len b) n < bb_len b"
  using assms
  by (auto simp: cbb_buffer_reserve_def wf_buf_def written_def Let_def size_add_def SIZE_MOD_def
      split: if_splits)

lemma size_add_no_wrap:
  "a < SIZE_MOD \<Longrightarrow> n < SIZE_MOD \<Longrightarrow> \<not> size_add a n < a \<Longrightarrow> size_add a n = a + n"
  by (simp add: size_add_wraps size_add_small)

lemma buffer_reserve_False:
  "cbb_buffer_reserve al b n = (False, b') \<Longrightarrow> b' = b\<lparr>bb_error := True\<rparr>"
  by (auto simp: cbb_buffer_reserve_def Let_def split: if_splits)

lemma buffer_reserve_total:
  assumes "bb_can_resize b" and "\<forall>m. al m" and "bb_len b + n < SIZE_MOD"
  shows "\<exists>b'. cbb_buffer_reserve al b n = (True, b')"
  using assms by (simp add: cbb_buffer_reserve_def Let_def size_add_small)

lemma buffer_add_True:
  assumes "cbb_buffer_add al b n = (True, b')" and "wf_buf b" and "n < SIZE_MOD"
  shows "wf_buf b'" "bb_len b' = bb_len b + n" "take (bb_len b) (bb_buf b') = written b"
    "bb_error b' = bb_error b" "bb_can_resize b' = bb_can_resize b"
proof -
  obtain c where r: "cbb_buffer_reserve al b n = (True, c)" and b': "b' = c\<lparr>bb_len := bb_len c + n\<rparr>"
    using assms(1) by (auto simp: cbb_buffer_add_def split: prod.splits bool.splits)
  note facts = buffer_reserve_True [OF r assms(2)]
  have "size_add (bb_len b) n = bb_len b + n"
    using facts(7) assms(2,3) by (intro size_add_no_wrap) (auto simp: wf_buf_def)
  then show "wf_buf b'" using facts(1,2,6) by (simp add: b' wf_buf_def)
  show "bb_len b' = bb_len b + n" "take (bb_len b) (bb_buf b') = written b"
    "bb_error b' = bb_error b" "bb_can_resize b' = bb_can_resize b"
    using facts by (simp_all add: b')
qed

lemma buffer_add_False:
  "cbb_buffer_add al b n = (False, b') \<Longrightarrow> b' = b\<lparr>bb_error := True\<rparr>"
  by (auto simp: cbb_buffer_add_def dest: buffer_reserve_False split: prod.splits bool.splits)

lemma buffer_add_total:
  assumes "bb_can_resize b" and "\<forall>m. al m" and "bb_len b + n < SIZE_MOD"
  shows "\<exists>b'. cbb_buffer_add al b n = (True, b')"
  using buffer_reserve_total [of b al n] assms by (auto simp: cbb_buffer_add_def)

lemma buf_write_simps [simp]:
  "bb_len (buf_write off bs b) = bb_len b" "bb_cap (buf_write off bs b) = bb_cap b"
  "bb_error (buf_write off bs b) = bb_error b" "bb_can_resize (buf_write off bs b) = bb_can_resize b"
  "bb_buf (buf_write off bs b) = overwrite off bs (bb_buf b)"
  by (simp_all add: buf_write_def)

lemma wf_buf_write: "wf_buf b \<Longrightarrow> off + length bs \<le> bb_len b \<Longrightarrow> wf_buf (buf_write off bs b)"
  by (simp add: wf_buf_def)

text \<open>Reserving space and filling it appends to what is written.\<close>

lemma buffer_add_write:
  assumes "cbb_buffer_add al b (length bs) = (True, b')" and "wf_buf b" and "length bs < SIZE_MOD"
  shows "written (buf_write (bb_len b) bs b') = written b @ bs" "wf_buf (buf_write (bb_len b) bs b')"
proof -
  note facts = buffer_add_True [OF assms]
  show "wf_buf (buf_write (bb_len b) bs b')" using facts(1,2) by (simp add: wf_buf_write)
  have "bb_len b \<le> length (bb_buf b')" using facts(1,2) by (simp add: wf_buf_def)
  then show "written (buf_write (bb_len b) bs b') = written b @ bs"
    using facts(2,3) by (simp add: written_def [of "buf_write _ _ _"] take_overwrite_end)
qed

lemma write_be_eq:
  "off + n \<le> length xs \<Longrightarrow> write_be off n v xs = (overwrite off (be_bytes n v) xs, v div 256 ^ n)"
proof (induction n arbitrary: v xs)
  case 0
  then show ?case by simp
next
  case (Suc n)
  have "write_be off (Suc n) v xs = write_be off n (v div 256) (xs[off + n := word_of_nat v])" by simp
  also have "\<dots> = (overwrite off (be_bytes n (v div 256)) (xs[off + n := word_of_nat v]), v div 256 div 256 ^ n)"
    using Suc.prems by (intro Suc.IH) simp
  moreover have "(word_of_nat (v mod 256) :: byte) = word_of_nat v"
    by (rule word_eq_if_unat) (simp only: unat_of_nat, simp)
  ultimately show ?case
    using Suc.prems by (simp add: overwrite_snoc div_mult2_eq)
qed

section \<open>The abstract builder\<close>

text \<open>
  What a builder means: the contents of the root and of every open child, and for each child how
  its length prefix will be written.  Closing a child appends its prefix and its contents to the
  contents of its parent.
\<close>

datatype prefix_kind = Fixed_Prefix nat | Der_Length

type_synonym builder = "prefix_kind list \<times> byte list list"

fun prefix_enc :: "prefix_kind \<Rightarrow> nat \<Rightarrow> byte list" where
  "prefix_enc (Fixed_Prefix n) len = be_bytes n len"
| "prefix_enc Der_Length len = len_enc len"

fun prefix_fits :: "prefix_kind \<Rightarrow> nat \<Rightarrow> bool" where
  "prefix_fits (Fixed_Prefix n) len \<longleftrightarrow> len < 256 ^ n"
| "prefix_fits Der_Length len \<longleftrightarrow> len \<le> 0xfffffffe"

fun collapse :: "prefix_kind list \<Rightarrow> byte list list \<Rightarrow> byte list" where
  "collapse (k # ks) (c # cs) =
     (let inner = collapse ks cs in c @ prefix_enc k (length inner) @ inner)"
| "collapse [] (c # cs) = c"
| "collapse ks [] = []"

fun collapse_fits :: "prefix_kind list \<Rightarrow> byte list list \<Rightarrow> bool" where
  "collapse_fits (k # ks) (c # cs) \<longleftrightarrow>
     collapse_fits ks cs \<and> prefix_fits k (length (collapse ks cs))"
| "collapse_fits ks cs \<longleftrightarrow> True"

definition bd_flush :: "nat \<Rightarrow> builder \<Rightarrow> builder" where
  "bd_flush d bd = (case bd of (ks, cs) \<Rightarrow>
     (take d ks, take d cs @ [collapse (drop d ks) (drop d cs)]))"

definition bd_append :: "nat \<Rightarrow> byte list \<Rightarrow> builder \<Rightarrow> builder" where
  "bd_append d bs bd = (case bd of (ks, cs) \<Rightarrow>
     (take d ks, take d cs @ [collapse (drop d ks) (drop d cs) @ bs]))"

definition bd_open :: "nat \<Rightarrow> prefix_kind \<Rightarrow> builder \<Rightarrow> builder" where
  "bd_open d k bd = (case bd_flush d bd of (ks, cs) \<Rightarrow> (ks @ [k], cs @ [[]]))"

definition bd_discard :: "nat \<Rightarrow> builder \<Rightarrow> builder" where
  "bd_discard d bd = (case bd of (ks, cs) \<Rightarrow> (take d ks, take (Suc d) cs))"

text \<open>The abstraction: the written bytes are cut at the offsets of the open children.\<close>

definition kind_of :: "cbb_child \<Rightarrow> prefix_kind" where
  "kind_of c = (if ch_pending_is_asn1 c then Der_Length else Fixed_Prefix (ch_pending_len_len c))"

definition ch_start :: "cbb_child \<Rightarrow> nat" where
  "ch_start c = ch_offset c + ch_pending_len_len c"

fun frames :: "nat \<Rightarrow> byte list \<Rightarrow> cbb_child list \<Rightarrow> byte list list" where
  "frames s bs [] = [drop s bs]"
| "frames s bs (c # cs) = drop s (take (ch_offset c) bs) # frames (ch_start c) bs cs"

definition cbb_abs :: "cbb \<Rightarrow> builder" where
  "cbb_abs w = (map kind_of (cbb_chain w), frames 0 (written (cbb_base w)) (cbb_chain w))"

fun wf_chain :: "nat \<Rightarrow> cbb_child list \<Rightarrow> nat \<Rightarrow> bool" where
  "wf_chain s [] len \<longleftrightarrow> s \<le> len"
| "wf_chain s (c # cs) len \<longleftrightarrow>
     s \<le> ch_offset c \<and> (ch_pending_is_asn1 c \<longrightarrow> ch_pending_len_len c = 1) \<and> wf_chain (ch_start c) cs len"

definition wf_cbb :: "cbb \<Rightarrow> bool" where
  "wf_cbb w \<longleftrightarrow> wf_buf (cbb_base w) \<and> wf_chain 0 (cbb_chain w) (bb_len (cbb_base w))"

lemma wf_chain_le: "wf_chain s cs len \<Longrightarrow> s \<le> len"
  by (induction cs arbitrary: s) (fastforce simp: ch_start_def)+

lemma wf_chain_mono: "wf_chain s cs len \<Longrightarrow> len \<le> len' \<Longrightarrow> wf_chain s cs len'"
  by (induction cs arbitrary: s) auto

lemma length_frames [simp]: "length (frames s bs cs) = Suc (length cs)"
  by (induction cs arbitrary: s) auto

lemma len_enc_code:
  "len_enc n =
     (if n > 0xffffff \<and> n \<le> 0xffffffff then [0x84] @ be_bytes 4 n
      else if n > 0xffff \<and> n \<le> 0xffffff then [0x83] @ be_bytes 3 n
      else if n > 0xff \<and> n \<le> 0xffff then [0x82] @ be_bytes 2 n
      else if n > 0x7f \<and> n \<le> 0xff then [0x81] @ be_bytes 1 n
      else if n \<le> 0x7f then [word_of_nat n]
      else len_enc n)"
proof -
  have *: "len_enc n = word_of_nat (128 + k) # be_bytes k n" if "0 < k" "256 ^ (k - 1) \<le> n" "n < 256 ^ k" "128 \<le> n" for k
  proof -
    have "byte_len n = k" using that by (intro byte_len_unique) auto
    then show ?thesis using that by (simp add: len_enc_def)
  qed
  show ?thesis
    using * [of 4] * [of 3] * [of 2] * [of 1] by (simp add: len_enc_def)
qed


lemma byte_len_code:
  "128 \<le> n \<Longrightarrow> n \<le> 0xfffffffe \<Longrightarrow>
     byte_len n = (if n > 0xffffff then 4 else if n > 0xffff then 3 else if n > 0xff then 2 else 1)"
  using byte_len_unique [of 4 n] byte_len_unique [of 3 n] byte_len_unique [of 2 n] byte_len_unique [of 1 n]
  by simp

lemma flush_child_asn1_eq:
  assumes "ch_pending_is_asn1 c" and "n = bb_len b - start"
  shows "flush_child al b c start =
    (if n > 0xfffffffe then (False, b)
     else if n \<le> 0x7f then (True, b\<lparr>bb_buf := (bb_buf b)[ch_offset c := word_of_nat n]\<rparr>)
     else case cbb_buffer_add al b (byte_len n) of
         (False, b1) \<Rightarrow> (False, b1)
       | (True, b1) \<Rightarrow>
           (case write_be (ch_offset c + 1) (byte_len n) n
              ((overwrite (start + byte_len n) (take n (drop start (bb_buf b1))) (bb_buf b1))
                 [ch_offset c := word_of_nat (128 + byte_len n)]) of
              (buf, rest) \<Rightarrow> (rest = 0, b1\<lparr>bb_buf := buf\<rparr>)))"
proof (cases "n > 0xfffffffe \<or> n \<le> 0x7f")
  case True
  then show ?thesis using assms by (auto simp: flush_child_def Let_def)
next
  case False
  then consider "byte_len n = 4" "n > 0xffffff" | "byte_len n = 3" "n > 0xffff" "\<not> n > 0xffffff"
    | "byte_len n = 2" "n > 0xff" "\<not> n > 0xffff" | "byte_len n = 1" "n > 0x7f" "\<not> n > 0xff"
    using byte_len_code [of n] by (auto split: if_splits)
  then show ?thesis
    using False assms
    by cases (simp_all add: flush_child_def Let_def buf_write_def split: prod.split bool.split)
qed

lemma written_buf_write:
  "wf_buf b \<Longrightarrow> off + length bs \<le> bb_len b \<Longrightarrow> written (buf_write off bs b) = overwrite off bs (written b)"
  by (simp add: written_def wf_buf_def overwrite_def min_absorb1 min_absorb2 take_drop)

lemma long_form_layout:
  assumes "take (off + 1 + n) buf = pre @ x # content" and "length pre = off" and "length content = n"
    and "off + 1 + n + length p \<le> length buf"
  shows "take (off + 1 + n + length p)
      (overwrite (off + 1) p ((overwrite (off + 1 + length p) (take n (drop (off + 1) buf)) buf)[off := y]))
    = pre @ y # p @ content"
proof -
  obtain rest where buf: "buf = pre @ x # content @ rest"
    using assms(1) append_take_drop_id [of "off + 1 + n" buf]
    by (metis append_Cons append_assoc)
  show ?thesis
    using assms(2-4) by (simp add: buf overwrite_def list_update_append)
qed

lemma flush_child_fixed:
  assumes "flush_child al b c (ch_start c) = (ok, b')" and "wf_buf b" and "ch_start c \<le> bb_len b"
    and "\<not> ch_pending_is_asn1 c"
  shows "ok \<longleftrightarrow> prefix_fits (kind_of c) (bb_len b - ch_start c)"
    and "b' = buf_write (ch_offset c) (be_bytes (ch_pending_len_len c) (bb_len b - ch_start c)) b"
proof -
  have "ch_offset c + ch_pending_len_len c \<le> length (bb_buf b)"
    using assms(2,3) by (simp add: wf_buf_def ch_start_def)
  then have *: "(ok, b') = ((bb_len b - ch_start c) div 256 ^ ch_pending_len_len c = 0,
      buf_write (ch_offset c) (be_bytes (ch_pending_len_len c) (bb_len b - ch_start c)) b)"
    using assms(1,4) by (simp add: flush_child_def Let_def write_be_eq buf_write_def)
  then show "ok \<longleftrightarrow> prefix_fits (kind_of c) (bb_len b - ch_start c)"
    using assms(4) by (simp add: kind_of_def div_eq_0_iff)
  from * show "b' = buf_write (ch_offset c) (be_bytes (ch_pending_len_len c) (bb_len b - ch_start c)) b"
    by simp
qed

lemma flush_child_long:
  assumes "flush_child al b c (ch_start c) = (True, b')" and "wf_buf b" and "ch_start c \<le> bb_len b"
    and "ch_pending_is_asn1 c" "ch_pending_len_len c = 1" and n: "n = bb_len b - ch_start c" "n > 0x7f"
  shows "n \<le> 0xfffffffe" "wf_buf b'"
    "written b' = take (ch_offset c) (written b) @ len_enc n @ drop (ch_start c) (written b)"
    "bb_error b' = bb_error b" "bb_can_resize b' = bb_can_resize b"
proof -
  let ?k = "byte_len n"
  show le: "n \<le> 0xfffffffe"
    using assms(1,4) n by (simp add: flush_child_asn1_eq split: if_splits)
  have k: "0 < ?k" "?k \<le> 4" using byte_len_code [of n] n(2) le by auto
  obtain b1 buf rest where add: "cbb_buffer_add al b ?k = (True, b1)"
    and wr: "write_be (ch_offset c + 1) ?k n
        ((overwrite (ch_start c + ?k) (take n (drop (ch_start c) (bb_buf b1))) (bb_buf b1))
           [ch_offset c := word_of_nat (128 + ?k)]) = (buf, rest)"
    and b': "b' = b1\<lparr>bb_buf := buf\<rparr>"
    using assms(1,4) n le
    by (simp only: flush_child_asn1_eq) (auto split: prod.splits bool.splits if_splits)
  have "?k < SIZE_MOD" using k by (simp add: SIZE_MOD_def)
  note facts = buffer_add_True [OF add assms(2) this]
  have start: "ch_start c = ch_offset c + 1" using assms(5) by (simp add: ch_start_def)
  have len: "bb_len b = ch_offset c + 1 + n" using assms(3) n(1) start by simp
  have room: "ch_offset c + 1 + n + ?k \<le> length (bb_buf b1)"
    using facts(1,2) len by (simp add: wf_buf_def)
  have buf: "buf = overwrite (ch_offset c + 1) (be_bytes ?k n)
      ((overwrite (ch_start c + ?k) (take n (drop (ch_start c) (bb_buf b1))) (bb_buf b1))
           [ch_offset c := word_of_nat (128 + ?k)])"
    using wr room start by (subst (asm) write_be_eq) simp_all
  have lb: "length buf = length (bb_buf b1)" using room start by (simp add: buf)
  show "wf_buf b'" "bb_error b' = bb_error b" "bb_can_resize b' = bb_can_resize b"
    using facts lb by (simp_all add: b' wf_buf_def)
  have split: "written b = take (ch_offset c) (written b) @ (written b ! ch_offset c) # drop (ch_start c) (written b)"
    using len assms(2) start id_take_nth_drop [of "ch_offset c" "written b"] by simp
  have "take (ch_offset c + 1 + n) (bb_buf b1) =
    take (ch_offset c) (written b) @ (written b ! ch_offset c) # drop (ch_start c) (written b)"
    using facts(3) split len by simp
  from long_form_layout [OF this, where p = "be_bytes ?k n" and y = "word_of_nat (128 + ?k)"]
  have "take (ch_offset c + 1 + n + ?k) buf =
    take (ch_offset c) (written b) @ word_of_nat (128 + ?k) # be_bytes ?k n @ drop (ch_start c) (written b)"
    using room len start assms(2) by (simp add: buf)
  then show "written b' = take (ch_offset c) (written b) @ len_enc n @ drop (ch_start c) (written b)"
    using facts(2) len n(2) by (simp add: written_def [of "b1\<lparr>bb_buf := buf\<rparr>"] b' len_enc_def)
qed

lemma flush_child_spec:
  assumes "flush_child al b c (ch_start c) = (True, b')" and "wf_buf b" and "ch_start c \<le> bb_len b"
    and "ch_pending_is_asn1 c \<longrightarrow> ch_pending_len_len c = 1" and n: "n = bb_len b - ch_start c"
  shows "prefix_fits (kind_of c) n" "wf_buf b'"
    "written b' = take (ch_offset c) (written b) @ prefix_enc (kind_of c) n @ drop (ch_start c) (written b)"
    "bb_error b' = bb_error b" "bb_can_resize b' = bb_can_resize b"
proof -
  have "prefix_fits (kind_of c) n \<and> wf_buf b' \<and>
    written b' = take (ch_offset c) (written b) @ prefix_enc (kind_of c) n @ drop (ch_start c) (written b) \<and>
    bb_error b' = bb_error b \<and> bb_can_resize b' = bb_can_resize b"
  proof (cases "ch_pending_is_asn1 c")
    case False
    note f = flush_child_fixed [OF assms(1-3) False]
    have "wf_buf b'" unfolding f(2) by (rule wf_buf_write [OF assms(2)]) (use assms(3) in \<open>simp add: ch_start_def\<close>)
    moreover have "written b' = overwrite (ch_offset c) (be_bytes (ch_pending_len_len c) n) (written b)"
      unfolding f(2) n by (rule written_buf_write [OF assms(2)]) (use assms(3) in \<open>simp add: ch_start_def\<close>)
    ultimately show ?thesis
      using f False n by (simp add: overwrite_def kind_of_def ch_start_def)
  next
    case True
    then have pll: "ch_pending_len_len c = 1" and k: "kind_of c = Der_Length"
      using assms(4) by (simp_all add: kind_of_def)
    show ?thesis
    proof (cases "n > 0x7f")
      case big: True
      show ?thesis using flush_child_long [OF assms(1-3) True pll n big] k by simp
    next
      case False
      then have b': "b' = buf_write (ch_offset c) [word_of_nat n] b"
        using assms(1) True n pll assms(2,3)
        by (simp add: flush_child_asn1_eq buf_write_def overwrite_def upd_conv_take_nth_drop wf_buf_def ch_start_def)
      have "wf_buf b'" unfolding b' by (rule wf_buf_write [OF assms(2)]) (use assms(3) pll in \<open>simp add: ch_start_def\<close>)
      moreover have "written b' = overwrite (ch_offset c) [word_of_nat n] (written b)"
        unfolding b' by (rule written_buf_write [OF assms(2)]) (use assms(3) pll in \<open>simp add: ch_start_def\<close>)
      ultimately show ?thesis
        using False k b' by (simp add: overwrite_def ch_start_def pll len_enc_def)
    qed
  qed
  then show "prefix_fits (kind_of c) n" "wf_buf b'"
    "written b' = take (ch_offset c) (written b) @ prefix_enc (kind_of c) n @ drop (ch_start c) (written b)"
    "bb_error b' = bb_error b" "bb_can_resize b' = bb_can_resize b" by blast+
qed

text \<open>Flushing a chain appends the closed children to what precedes them.\<close>

lemma flush_chain_spec:
  assumes "flush_chain al b cs = (True, b', below)" and "wf_buf b" and "wf_chain s cs (bb_len b)"
  shows "below = [] \<and> wf_buf b' \<and> \<not> bb_error b' \<and> \<not> bb_error b \<and> bb_can_resize b' = bb_can_resize b \<and>
    collapse_fits (map kind_of cs) (frames s (written b) cs) \<and>
    written b' = take s (written b) @ collapse (map kind_of cs) (frames s (written b) cs)"
  using assms
proof (induction cs arbitrary: s b' below)
  case Nil
  then show ?case by auto
next
  case (Cons c cs)
  from Cons.prems(3) have wc: "s \<le> ch_offset c" "ch_pending_is_asn1 c \<longrightarrow> ch_pending_len_len c = 1"
    "wf_chain (ch_start c) cs (bb_len b)" by auto
  have "ch_start c < SIZE_MOD"
    using wf_chain_le [OF wc(3)] Cons.prems(2) by (simp add: wf_buf_def)
  then have sz: "size_add (ch_offset c) (ch_pending_len_len c) = ch_start c"
    by (simp add: size_add_small ch_start_def)
  obtain b1 bl where sub: "flush_chain al b cs = (True, b1, bl)" and le: "ch_start c \<le> bb_len b1"
    and fl: "flush_child al b1 c (ch_start c) = (True, b')" and e: "\<not> bb_error b" and bl: "below = []"
    using Cons.prems(1) by (auto simp: Let_def sz split: if_splits prod.splits bool.splits)
  note IH = Cons.IH [OF sub Cons.prems(2) wc(3)]
  let ?inner = "collapse (map kind_of cs) (frames (ch_start c) (written b) cs)"
  from IH have w1: "written b1 = take (ch_start c) (written b) @ ?inner" and wf1: "wf_buf b1" by auto
  have lt: "length (take (ch_start c) (written b)) = ch_start c"
    using Cons.prems(2) wf_chain_le [OF wc(3)] by simp
  have len: "bb_len b1 - ch_start c = length ?inner"
    using wf1 w1 lt by (metis length_written length_append diff_add_inverse)
  note f = flush_child_spec [OF fl wf1 le wc(2) refl, unfolded len]
  have "written b' = take (ch_offset c) (written b) @ prefix_enc (kind_of c) (length ?inner) @ ?inner"
    using f(3) lt by (simp add: w1 ch_start_def)
  also have "take (ch_offset c) (written b) = take s (written b) @ drop s (take (ch_offset c) (written b))"
    using wc(1) by (metis append_take_drop_id min.absorb1 take_take)
  finally show ?case using f IH e bl by (simp add: Let_def)
qed

lemma flush_child_long_eq:
  assumes "ch_pending_is_asn1 c" "ch_pending_len_len c = 1" and "wf_buf b" and "ch_start c \<le> bb_len b"
    and n: "n = bb_len b - ch_start c" "n > 0x7f" "n \<le> 0xfffffffe"
  shows "flush_child al b c (ch_start c) = (case cbb_buffer_add al b (byte_len n) of
      (False, b1) \<Rightarrow> (False, b1)
    | (True, b1) \<Rightarrow> (True, b1\<lparr>bb_buf := overwrite (ch_offset c + 1) (be_bytes (byte_len n) n)
        ((overwrite (ch_start c + byte_len n) (take n (drop (ch_start c) (bb_buf b1))) (bb_buf b1))
           [ch_offset c := word_of_nat (128 + byte_len n)])\<rparr>))"
proof -
  let ?k = "byte_len n"
  obtain ok b1 where add: "cbb_buffer_add al b ?k = (ok, b1)" by (cases "cbb_buffer_add al b ?k")
  show ?thesis
  proof (cases ok)
    case True
    have "?k < SIZE_MOD" using byte_len_le [of n 4] n(3) by (simp add: SIZE_MOD_def)
    from add True have add': "cbb_buffer_add al b ?k = (True, b1)" by simp
    note facts = buffer_add_True [OF add' assms(3) \<open>?k < SIZE_MOD\<close>]
    have st: "ch_start c = Suc (ch_offset c)" using assms(2) by (simp add: ch_start_def)
    have "ch_offset c + 1 + ?k \<le> length (bb_buf b1)" "ch_start c + ?k + n \<le> length (bb_buf b1)"
      "ch_start c \<le> length (bb_buf b1)"
      using facts(1,2) assms(4) n(1) st by (simp_all add: wf_buf_def)
    then show ?thesis
      using add True byte_len_upper [of n] n(2,3)
      by (subst flush_child_asn1_eq [OF assms(1) n(1)]) (simp add: write_be_eq)
  next
    case False
    then show ?thesis using add n(2,3) by (simp add: flush_child_asn1_eq [OF assms(1) n(1)])
  qed
qed

lemma flush_child_keeps:
  assumes "flush_child al b c (ch_start c) = (ok, b')" and "wf_buf b" and "ch_start c \<le> bb_len b"
    and "ch_pending_is_asn1 c \<longrightarrow> ch_pending_len_len c = 1"
  shows "wf_buf b' \<and> bb_len b \<le> bb_len b'"
proof (cases ok)
  case True
  from assms(1) True have "flush_child al b c (ch_start c) = (True, b')" by simp
  note f = flush_child_spec [OF this assms(2-4) refl]
  have p: "ch_pending_len_len c \<le> length (prefix_enc (kind_of c) (bb_len b - ch_start c))"
    using assms(4) by (auto simp: kind_of_def len_enc_def)
  have "bb_len b' = length (written b')" using f(2) by simp
  also have "\<dots> = ch_offset c + length (prefix_enc (kind_of c) (bb_len b - ch_start c)) + (bb_len b - ch_start c)"
    using assms(2,3) by (simp add: f(3) ch_start_def)
  finally show ?thesis using f(2) p assms(3) by (simp add: ch_start_def)
next
  case False
  show ?thesis
  proof (cases "ch_pending_is_asn1 c")
    case True
    define n where "n = bb_len b - ch_start c"
    from True assms(4) have pll: "ch_pending_len_len c = 1" by simp
    consider "n > 0xfffffffe" | "n \<le> 0x7f" | "n > 0x7f" "n \<le> 0xfffffffe" by linarith
    then show ?thesis
    proof cases
      case 3
      have "cbb_buffer_add al b (byte_len n) = (False, b')"
        using flush_child_long_eq [OF True pll assms(2,3) n_def 3] assms(1) False
        by (simp split: prod.splits bool.splits)
      then show ?thesis using assms(2) by (auto dest!: buffer_add_False simp: wf_buf_def)
    qed (use assms(1,2) False True in \<open>simp_all add: flush_child_asn1_eq [OF True n_def]\<close>)
  next
    case fixed: False
    show ?thesis
      unfolding flush_child_fixed(2) [OF assms(1-3) fixed]
      using assms(2,3) by (simp add: wf_buf_write ch_start_def)
  qed
qed

lemma wf_buf_error [simp]: "wf_buf (b\<lparr>bb_error := e\<rparr>) = wf_buf b"
  by (simp add: wf_buf_def)

lemma flush_chain_keeps:
  "flush_chain al b cs = (ok, b', below) \<Longrightarrow> wf_buf b \<Longrightarrow> wf_chain s cs (bb_len b) \<Longrightarrow>
   wf_buf b' \<and> bb_len b \<le> bb_len b' \<and> (\<not> ok \<longrightarrow> bb_error b') \<and> (below = [] \<or> below = cs \<and> b' = b)"
proof (induction cs arbitrary: s ok b' below)
  case Nil
  then show ?case by auto
next
  case (Cons c cs)
  from Cons.prems(3) have wc: "s \<le> ch_offset c" "ch_pending_is_asn1 c \<longrightarrow> ch_pending_len_len c = 1"
    "wf_chain (ch_start c) cs (bb_len b)" by auto
  have "ch_start c < SIZE_MOD"
    using wf_chain_le [OF wc(3)] Cons.prems(2) by (simp add: wf_buf_def)
  then have sz: "size_add (ch_offset c) (ch_pending_len_len c) = ch_start c"
    by (simp add: size_add_small ch_start_def)
  obtain ok1 b1 bl where sub: "flush_chain al b cs = (ok1, b1, bl)" by (cases "flush_chain al b cs") auto
  note IH = Cons.IH [OF sub Cons.prems(2) wc(3)]
  obtain ok2 b2 where fl: "flush_child al b1 c (ch_start c) = (ok2, b2)" by (cases "flush_child al b1 c (ch_start c)")
  have "ch_start c \<le> bb_len b1" using IH wf_chain_le [OF wc(3)] by simp
  from flush_child_keeps [OF fl _ this wc(2)] IH have k: "wf_buf b2" "bb_len b1 \<le> bb_len b2" by auto
  show ?case
    using Cons.prems(1,2) IH k
    by (auto simp: Let_def sz sub fl split: if_splits bool.splits)
qed

lemma flush_child_total:
  assumes "wf_buf b" and "ch_start c \<le> bb_len b" and "ch_pending_is_asn1 c \<longrightarrow> ch_pending_len_len c = 1"
    and "bb_can_resize b" and "\<forall>m. al m" and n: "n = bb_len b - ch_start c" and fits: "prefix_fits (kind_of c) n"
    and "ch_offset c + length (prefix_enc (kind_of c) n) + n < SIZE_MOD"
  shows "\<exists>b'. flush_child al b c (ch_start c) = (True, b')"
proof (cases "ch_pending_is_asn1 c")
  case False
  obtain ok b' where fl: "flush_child al b c (ch_start c) = (ok, b')" by (cases "flush_child al b c (ch_start c)")
  then show ?thesis using flush_child_fixed(1) [OF fl assms(1,2) False] fits n by simp
next
  case True
  then have kd: "kind_of c = Der_Length" and pll: "ch_pending_len_len c = 1"
    using assms(3) by (simp_all add: kind_of_def)
  have le: "n \<le> 0xfffffffe" using fits kd by simp
  show ?thesis
  proof (cases "n > 0x7f")
    case big: True
    have "bb_len b + byte_len n < SIZE_MOD"
      using assms(2,8) big kd pll n by (simp add: len_enc_def ch_start_def)
    then obtain b1 where add: "cbb_buffer_add al b (byte_len n) = (True, b1)"
      using buffer_add_total [OF assms(4,5)] by blast
    then show ?thesis using flush_child_long_eq [OF True pll assms(1,2) n big le] by simp
  next
    case False
    then show ?thesis using True n le by (simp add: flush_child_asn1_eq)
  qed
qed

lemma wf_chain_offset: "wf_chain s (c # cs) len \<Longrightarrow> ch_offset c \<le> len"
  using wf_chain_le [of "ch_start c" cs len] by (simp add: ch_start_def)

lemma flush_chain_total:
  assumes "wf_buf b" and "wf_chain s cs (bb_len b)" and "bb_can_resize b" and "\<not> bb_error b" and "\<forall>m. al m"
    and "collapse_fits (map kind_of cs) (frames s (written b) cs)"
    and "s + length (collapse (map kind_of cs) (frames s (written b) cs)) < SIZE_MOD"
  shows "\<exists>b'. flush_chain al b cs = (True, b', [])"
  using assms(2,6,7)
proof (induction cs arbitrary: s)
  case Nil
  then show ?case using assms(4) by simp
next
  case (Cons c cs)
  from Cons.prems(1) have wc: "s \<le> ch_offset c" "ch_pending_is_asn1 c \<longrightarrow> ch_pending_len_len c = 1"
    "wf_chain (ch_start c) cs (bb_len b)" by auto
  note le = wf_chain_le [OF wc(3)]
  have "ch_start c < SIZE_MOD" using le assms(1) by (simp add: wf_buf_def)
  then have sz: "size_add (ch_offset c) (ch_pending_len_len c) = ch_start c"
    by (simp add: size_add_small ch_start_def)
  let ?inner = "collapse (map kind_of cs) (frames (ch_start c) (written b) cs)"
  let ?p = "prefix_enc (kind_of c) (length ?inner)"
  have ol: "\<not> ch_start c < ch_offset c" by (simp add: ch_start_def)
  have off: "length (drop s (take (ch_offset c) (written b))) = ch_offset c - s"
    using le assms(1) wc(1) by (simp add: ch_start_def)
  have tot: "ch_offset c + length ?p + length ?inner < SIZE_MOD"
    using Cons.prems(3) off wc(1) by (simp add: Let_def)
  have pll: "ch_pending_len_len c \<le> length ?p"
    using wc(2) by (auto simp: kind_of_def len_enc_def)
  have "ch_start c + length ?inner < SIZE_MOD" using tot pll by (simp add: ch_start_def)
  then obtain b1 where sub: "flush_chain al b cs = (True, b1, [])"
    using Cons.IH [OF wc(3)] Cons.prems(2) by (auto simp: Let_def)
  note f = flush_chain_spec [OF sub assms(1) wc(3)]
  have lt: "length (take (ch_start c) (written b)) = ch_start c" using assms(1) le by simp
  have len: "bb_len b1 = ch_start c + length ?inner"
    using f lt by (metis length_written length_append)
  have "\<exists>b'. flush_child al b1 c (ch_start c) = (True, b')"
    by (rule flush_child_total [of _ _ _ "length ?inner"])
      (use f len wc(2) assms(3,5) Cons.prems(2) tot in \<open>auto simp: Let_def\<close>)
  then show ?case
    using assms(4) f len ol by (auto simp: Let_def sz sub)
qed

end
