(* ===== verification/CbbOps.thy ===== *)
theory CbbOps
  imports Cbb
begin

text \<open>
  The operations of the builder implement the abstract builder: what every successful call does
  to the contents of the open children, that a failed call locks the root, and that calls succeed
  while memory suffices.  The locale \<open>cbb_writer\<close> is the contract of the writing operations.
\<close>

section \<open>Cutting the written bytes at the offsets\<close>

fun start_at :: "nat \<Rightarrow> cbb_child list \<Rightarrow> nat \<Rightarrow> nat" where
  "start_at s (c # cs) (Suc d) = start_at (ch_start c) cs d"
| "start_at s cs d = s"

lemma start_at_0 [simp]: "start_at s cs 0 = s"
  by (cases cs) simp_all

lemma frames_drop: "d \<le> length cs \<Longrightarrow> frames (start_at s cs d) bs (drop d cs) = drop d (frames s bs cs)"
  by (induction s cs d rule: start_at.induct) auto

lemma start_at_bounds: "wf_chain s cs len \<Longrightarrow> s \<le> start_at s cs d \<and> start_at s cs d \<le> len"
proof (induction s cs d rule: start_at.induct)
  case (1 s c cs d)
  then show ?case by (auto simp: ch_start_def)
qed (auto dest: wf_chain_le)

lemma wf_chain_drop: "wf_chain s cs len \<Longrightarrow> d \<le> length cs \<Longrightarrow> wf_chain (start_at s cs d) (drop d cs) len"
  by (induction s cs d rule: start_at.induct) auto

lemma wf_chain_take: "wf_chain s cs len \<Longrightarrow> start_at s cs d \<le> len' \<Longrightarrow> wf_chain s (take d cs) len'"
  by (induction s cs d rule: start_at.induct) (auto dest: wf_chain_le)

lemma frames_take:
  "wf_chain s cs (length bs) \<Longrightarrow> d \<le> length cs \<Longrightarrow>
   frames s (take (start_at s cs d) bs @ xs) (take d cs) = take d (frames s bs cs) @ [xs]"
proof (induction s cs d rule: start_at.induct)
  case (1 s c cs d)
  then have "ch_start c \<le> start_at (ch_start c) cs d" "start_at (ch_start c) cs d \<le> length bs"
    using start_at_bounds [of "ch_start c" cs "length bs" d] by auto
  then show ?case using 1 by (simp add: ch_start_def min_absorb1)
qed (auto simp: min_absorb1 dest: wf_chain_le)

lemma frames_append:
  "wf_chain s cs (length bs) \<Longrightarrow>
   frames s (bs @ xs) cs = (frames s bs cs)[length cs := frames s bs cs ! length cs @ xs]"
proof (induction cs arbitrary: s)
  case (Cons c cs)
  from wf_chain_offset [OF Cons.prems] have "ch_offset c \<le> length bs" .
  then show ?case using Cons by simp
qed simp

lemma frames_snoc:
  assumes "wf_chain s cs (length bs)"
  shows "frames s (bs @ replicate n 0) (cs @ [\<lparr>ch_offset = length bs, ch_pending_len_len = n, ch_pending_is_asn1 = a\<rparr>])
    = frames s bs cs @ [[]]"
  using assms
proof (induction cs arbitrary: s)
  case (Cons c cs)
  from wf_chain_offset [OF Cons.prems] have "ch_offset c \<le> length bs" .
  then show ?case using Cons by simp
qed (simp add: ch_start_def)

lemma wf_chain_snoc:
  "wf_chain s cs len \<Longrightarrow> (a \<longrightarrow> n = 1) \<Longrightarrow>
   wf_chain s (cs @ [\<lparr>ch_offset = len, ch_pending_len_len = n, ch_pending_is_asn1 = a\<rparr>]) (len + n)"
  by (induction cs arbitrary: s) (auto simp: ch_start_def)

section \<open>The operations implement the abstract builder\<close>

text \<open>
  \<open>succeeds w d w' bd\<close>: the facts about a successful call on the \<^verbatim>\<open>CBB\<close> at depth \<open>d\<close> that takes
  \<open>w\<close> to \<open>w'\<close>, where \<open>bd\<close> is what the call means for the abstract builder.
  \<open>locked w d w'\<close>: the facts about a failed one, after which the root refuses every call.
\<close>

definition succeeds :: "cbb \<Rightarrow> nat \<Rightarrow> cbb \<Rightarrow> builder \<Rightarrow> bool" where
  "succeeds w d w' bd \<longleftrightarrow> wf_cbb w' \<and> cbb_abs w' = bd \<and> d \<le> length (cbb_chain w) \<and>
     \<not> bb_error (cbb_base w) \<and> \<not> bb_error (cbb_base w') \<and>
     bb_can_resize (cbb_base w') = bb_can_resize (cbb_base w) \<and> cbb_alloc w' = cbb_alloc w \<and>
     collapse_fits (drop d (fst (cbb_abs w))) (drop d (snd (cbb_abs w)))"

definition locked :: "cbb \<Rightarrow> nat \<Rightarrow> cbb \<Rightarrow> bool" where
  "locked w d w' \<longleftrightarrow> wf_cbb w' \<and> (bb_error (cbb_base w') \<or> w' = w \<and> length (cbb_chain w) < d)"

lemma wf_cbb_chain: "wf_cbb w \<Longrightarrow> wf_chain 0 (cbb_chain w) (length (written (cbb_base w)))"
  by (simp add: wf_cbb_def)

lemma chain_of_abs: "length (fst (cbb_abs w)) = length (cbb_chain w)"
  "length (snd (cbb_abs w)) = Suc (length (cbb_chain w))"
  by (simp_all add: cbb_abs_def)

lemma CBB_flush_True:
  assumes "CBB_flush w d = (True, w')" and "wf_cbb w"
  shows "succeeds w d w' (bd_flush d (cbb_abs w))" "cbb_chain w' = take d (cbb_chain w)"
proof -
  let ?cs = "cbb_chain w" and ?b = "cbb_base w"
  have d: "d \<le> length ?cs" using assms(1) by (auto simp: CBB_flush_def split: if_splits)
  obtain b below where fl: "flush_chain (cbb_alloc w) ?b (drop d ?cs) = (True, b, below)"
    and w': "w' = w\<lparr>cbb_base := b, cbb_chain := take d ?cs @ below\<rparr>"
    using assms(1) by (auto simp: CBB_flush_def split: if_splits prod.splits)
  have wf: "wf_buf ?b" "wf_chain 0 ?cs (bb_len ?b)" using assms(2) by (simp_all add: wf_cbb_def)
  let ?t = "start_at 0 ?cs d"
  note f = flush_chain_spec [OF fl wf(1) wf_chain_drop [OF wf(2) d], unfolded frames_drop [OF d]]
  show ch: "cbb_chain w' = take d ?cs" using f by (simp add: w')
  have t: "?t \<le> bb_len ?b" using start_at_bounds [OF wf(2)] by simp
  have "length (written b) = ?t + length (collapse (map kind_of (drop d ?cs)) (drop d (frames 0 (written ?b) ?cs)))"
    using f t wf(1) by simp
  moreover have "length (written b) = bb_len b" using f by (intro length_written) blast
  ultimately have "?t \<le> bb_len b" by linarith
  then have "wf_cbb w'" using f wf_chain_take [OF wf(2)] by (simp add: wf_cbb_def w')
  moreover have "cbb_abs w' = bd_flush d (cbb_abs w)"
    using f frames_take [OF wf_cbb_chain [OF assms(2)] d]
    by (simp add: cbb_abs_def bd_flush_def w' take_map drop_map)
  ultimately show "succeeds w d w' (bd_flush d (cbb_abs w))"
    using f d by (simp add: succeeds_def w' cbb_abs_def drop_map)
qed

lemma CBB_flush_False:
  assumes "CBB_flush w d = (False, w')" and "wf_cbb w"
  shows "locked w d w'"
proof (cases "length (cbb_chain w) < d")
  case True
  then show ?thesis using assms by (simp add: CBB_flush_def locked_def)
next
  case False
  let ?cs = "cbb_chain w" and ?b = "cbb_base w"
  obtain b below where fl: "flush_chain (cbb_alloc w) ?b (drop d ?cs) = (False, b, below)"
    and w': "w' = w\<lparr>cbb_base := b, cbb_chain := take d ?cs @ below\<rparr>"
    using assms(1) False by (auto simp: CBB_flush_def split: prod.splits)
  have wf: "wf_buf ?b" "wf_chain 0 ?cs (bb_len ?b)" using assms(2) by (simp_all add: wf_cbb_def)
  have k: "wf_buf b" "bb_len ?b \<le> bb_len b" "bb_error b" "below = [] \<or> below = drop d ?cs \<and> b = ?b"
    using flush_chain_keeps [OF fl wf(1) wf_chain_drop [OF wf(2)]] False by auto
  have "start_at 0 ?cs d \<le> bb_len b" using start_at_bounds [OF wf(2), of d] k(2) by linarith
  then show ?thesis
    using k wf wf_chain_take [OF wf(2)] by (auto simp: locked_def wf_cbb_def w')
qed

lemma CBB_flush_error: "bb_error (cbb_base w) \<Longrightarrow> CBB_flush w d = (False, w)"
proof -
  assume e: "bb_error (cbb_base w)"
  have "flush_chain (cbb_alloc w) (cbb_base w) (drop d (cbb_chain w)) = (False, cbb_base w, drop d (cbb_chain w))"
    using e by (cases "drop d (cbb_chain w)") auto
  then show ?thesis by (simp add: CBB_flush_def)
qed

text \<open>The number of bytes the root holds once the \<^verbatim>\<open>CBB\<close> at depth \<open>d\<close> is flushed.\<close>

definition flushed_len :: "cbb \<Rightarrow> nat \<Rightarrow> nat" where
  "flushed_len w d = start_at 0 (cbb_chain w) d +
     length (collapse (drop d (fst (cbb_abs w))) (drop d (snd (cbb_abs w))))"

definition roomy :: "cbb \<Rightarrow> nat \<Rightarrow> nat \<Rightarrow> bool" where
  "roomy w d n \<longleftrightarrow> d \<le> length (cbb_chain w) \<and> \<not> bb_error (cbb_base w) \<and>
     bb_can_resize (cbb_base w) \<and> (\<forall>m. cbb_alloc w m) \<and>
     collapse_fits (drop d (fst (cbb_abs w))) (drop d (snd (cbb_abs w))) \<and> flushed_len w d + n < SIZE_MOD"

lemma CBB_flush_total:
  assumes "wf_cbb w" and "roomy w d n"
  shows "\<exists>w'. CBB_flush w d = (True, w') \<and> bb_len (cbb_base w') = flushed_len w d"
proof -
  let ?cs = "cbb_chain w" and ?b = "cbb_base w"
  have d: "d \<le> length ?cs" using assms(2) by (simp add: roomy_def)
  have wf: "wf_buf ?b" "wf_chain 0 ?cs (bb_len ?b)" using assms(1) by (simp_all add: wf_cbb_def)
  have "\<exists>b'. flush_chain (cbb_alloc w) ?b (drop d ?cs) = (True, b', [])"
    by (rule flush_chain_total [OF wf(1) wf_chain_drop [OF wf(2) d]])
      (use assms(2) in \<open>simp_all add: roomy_def flushed_len_def cbb_abs_def frames_drop [OF d] drop_map\<close>)
  then obtain b' where fl: "flush_chain (cbb_alloc w) ?b (drop d ?cs) = (True, b', [])" ..
  note f = flush_chain_spec [OF fl wf(1) wf_chain_drop [OF wf(2) d], unfolded frames_drop [OF d]]
  have t: "start_at 0 ?cs d \<le> bb_len ?b" using start_at_bounds [OF wf(2)] by simp
  have "length (written b') = flushed_len w d"
    using f t wf(1) by (simp add: flushed_len_def cbb_abs_def drop_map)
  moreover have "length (written b') = bb_len b'" using f by (intro length_written) blast
  ultimately show ?thesis using fl d by (simp add: CBB_flush_def)
qed

lemma add_space_step:
  assumes w: "wf_cbb w" and fl: "CBB_flush w d = (True, w1)"
    and add: "cbb_buffer_add (cbb_alloc w1) (cbb_base w1) (length bs) = (True, b)" and n: "length bs < SIZE_MOD"
  shows "succeeds w d (w1\<lparr>cbb_base := buf_write (bb_len (cbb_base w1)) bs b\<rparr>) (bd_append d bs (cbb_abs w))"
proof -
  note s = CBB_flush_True(1) [OF fl w, unfolded succeeds_def] and ch = CBB_flush_True(2) [OF fl w]
  have wf1: "wf_buf (cbb_base w1)" "wf_chain 0 (cbb_chain w1) (bb_len (cbb_base w1))"
    using s by (simp_all add: wf_cbb_def)
  have d: "length (cbb_chain w1) = d" using s ch by simp
  note a = buffer_add_True [OF add wf1(1) n] and aw = buffer_add_write [OF add wf1(1) n]
  let ?w' = "w1\<lparr>cbb_base := buf_write (bb_len (cbb_base w1)) bs b\<rparr>"
  have "wf_cbb ?w'" using aw wf1 a(2) by (auto simp: wf_cbb_def intro: wf_chain_mono)
  moreover have "cbb_abs ?w' = bd_append d bs (cbb_abs w)"
    using s d aw(1) frames_append [OF wf_cbb_chain, of w1 bs] chain_of_abs [of w]
    by (auto simp: cbb_abs_def bd_append_def bd_flush_def nth_append list_update_append)
  ultimately show ?thesis using s a(4,5) by (simp add: succeeds_def)
qed

lemma add_space_fails:
  assumes w: "wf_cbb w" and fl: "CBB_flush w d = (True, w1)"
    and add: "cbb_buffer_add (cbb_alloc w1) (cbb_base w1) n = (False, b)"
  shows "locked w d (w1\<lparr>cbb_base := b\<rparr>)"
  using CBB_flush_True(1) [OF fl w] buffer_add_False [OF add] by (simp add: succeeds_def locked_def wf_cbb_def)

lemma add_space_total:
  assumes "wf_cbb w" and "roomy w d n"
  shows "\<exists>w1 b. CBB_flush w d = (True, w1) \<and> cbb_buffer_add (cbb_alloc w1) (cbb_base w1) n = (True, b)"
proof -
  obtain w1 where fl: "CBB_flush w d = (True, w1)" and len: "bb_len (cbb_base w1) = flushed_len w d"
    using CBB_flush_total [OF assms] by blast
  have "\<exists>b. cbb_buffer_add (cbb_alloc w1) (cbb_base w1) n = (True, b)"
    by (rule buffer_add_total)
      (use CBB_flush_True(1) [OF fl assms(1)] assms(2) len in \<open>simp_all add: succeeds_def roomy_def\<close>)
  with fl show ?thesis by blast
qed

lemma CBB_add_space_cases:
  "CBB_add_space w d n = (case CBB_flush w d of
     (False, w1) \<Rightarrow> (None, w1)
   | (True, w1) \<Rightarrow> (case cbb_buffer_add (cbb_alloc w1) (cbb_base w1) n of
       (ok, b) \<Rightarrow> (if ok then Some (bb_len (cbb_base w1)) else None, w1\<lparr>cbb_base := b\<rparr>)))"
  by (auto simp: CBB_add_space_def split: prod.split bool.split)

text \<open>
  The contract of the operations that write a value: on the domain \<open>okv\<close>, a call that succeeds
  appends the encoding of its value, one that fails locks the root, a locked root is refused,
  and a call succeeds when memory suffices.
\<close>

locale cbb_writer =
  fixes add :: "cbb \<Rightarrow> nat \<Rightarrow> 'v \<Rightarrow> bool \<times> cbb" and enc :: "'v \<Rightarrow> byte list" and okv :: "'v \<Rightarrow> bool"
  assumes add_True: "wf_cbb w \<Longrightarrow> okv v \<Longrightarrow> add w d v = (True, w') \<Longrightarrow>
      succeeds w d w' (bd_append d (enc v) (cbb_abs w)) \<and> cbb_chain w' = take d (cbb_chain w)"
    and add_False: "wf_cbb w \<Longrightarrow> okv v \<Longrightarrow> add w d v = (False, w') \<Longrightarrow> locked w d w'"
    and add_error: "bb_error (cbb_base w) \<Longrightarrow> \<not> fst (add w d v)"
    and add_total: "wf_cbb w \<Longrightarrow> okv v \<Longrightarrow> roomy w d (length (enc v)) \<Longrightarrow> \<exists>w'. add w d v = (True, w')"

lemma CBB_add_bytes_cases:
  "CBB_add_bytes w d data = (case CBB_flush w d of
     (False, w1) \<Rightarrow> (False, w1)
   | (True, w1) \<Rightarrow> (case cbb_buffer_add (cbb_alloc w1) (cbb_base w1) (length data) of
       (ok, b) \<Rightarrow> (ok, w1\<lparr>cbb_base := if ok then buf_write (bb_len (cbb_base w1)) data b else b\<rparr>)))"
  by (auto simp: CBB_add_bytes_def CBB_add_space_cases split: prod.split bool.split)

lemma CBB_add_zeros_cases: "CBB_add_zeros w d n = CBB_add_bytes w d (replicate n 0)"
  by (simp add: CBB_add_zeros_def CBB_add_bytes_def)

interpretation bytes_writer: cbb_writer CBB_add_bytes "\<lambda>data. data" "\<lambda>data. length data < SIZE_MOD"
proof
  fix w d v w'
  assume w: "wf_cbb w" and v: "length (v :: byte list) < SIZE_MOD"
  { assume a: "CBB_add_bytes w d v = (True, w')"
    then obtain w1 b where fl: "CBB_flush w d = (True, w1)"
      and ad: "cbb_buffer_add (cbb_alloc w1) (cbb_base w1) (length v) = (True, b)"
      and w': "w' = w1\<lparr>cbb_base := buf_write (bb_len (cbb_base w1)) v b\<rparr>"
      by (auto simp: CBB_add_bytes_cases split: prod.splits bool.splits if_splits)
    then show "succeeds w d w' (bd_append d v (cbb_abs w)) \<and> cbb_chain w' = take d (cbb_chain w)"
      using add_space_step [OF w fl ad v] CBB_flush_True(2) [OF fl w] by simp }
  { assume a: "CBB_add_bytes w d v = (False, w')"
    then show "locked w d w'"
      by (auto simp: CBB_add_bytes_cases split: prod.splits bool.splits if_splits
          intro: CBB_flush_False [OF _ w] add_space_fails [OF w]) }
  { assume "roomy w d (length v)"
    then show "\<exists>w'. CBB_add_bytes w d v = (True, w')"
      using add_space_total [OF w] by (fastforce simp: CBB_add_bytes_cases) }
next
  show "\<not> fst (CBB_add_bytes w d v)" if "bb_error (cbb_base w)" for w d v
    using CBB_flush_error [OF that] by (simp add: CBB_add_bytes_cases)
qed

lemma cbb_writer_via:
  assumes "cbb_writer add enc okv"
    and "\<And>w d v. wf_cbb w \<Longrightarrow> okv' v \<Longrightarrow> add' w d v = add w d (f v)" and "\<And>v. okv' v \<Longrightarrow> okv (f v)"
    and "\<And>v. okv' v \<Longrightarrow> enc' v = enc (f v)" and "\<And>w d v. bb_error (cbb_base w) \<Longrightarrow> \<not> fst (add' w d v)"
  shows "cbb_writer add' enc' okv'"
proof
  note laws = cbb_writer.add_True [OF assms(1)] cbb_writer.add_False [OF assms(1)] cbb_writer.add_total [OF assms(1)]
  show "succeeds w d w' (bd_append d (enc' v) (cbb_abs w)) \<and> cbb_chain w' = take d (cbb_chain w)"
    if "wf_cbb w" "okv' v" "add' w d v = (True, w')" for w d v w'
    using that laws(1) [of w "f v" d w'] assms(2-4) by simp
  show "locked w d w'" if "wf_cbb w" "okv' v" "add' w d v = (False, w')" for w d v w'
    using that laws(2) [of w "f v" d w'] assms(2-4) by simp
  show "\<exists>w'. add' w d v = (True, w')" if "wf_cbb w" "okv' v" "roomy w d (length (enc' v))" for w d v
    using that laws(3) [of w "f v" d] assms(2-4) by simp
qed (rule assms(5))

interpretation zeros_writer: cbb_writer CBB_add_zeros "\<lambda>n. replicate n 0" "\<lambda>n. n < SIZE_MOD"
  by (rule cbb_writer_via [OF bytes_writer.cbb_writer_axioms, where f = "\<lambda>n. replicate n 0"])
    (simp_all add: CBB_add_zeros_cases bytes_writer.add_error)

lemma cbb_add_u_cases:
  "cbb_add_u w d v n = (case CBB_flush w d of
     (False, w1) \<Rightarrow> (False, w1)
   | (True, w1) \<Rightarrow> (case cbb_buffer_add (cbb_alloc w1) (cbb_base w1) n of
       (False, b) \<Rightarrow> (False, w1\<lparr>cbb_base := b\<rparr>)
     | (True, b) \<Rightarrow> (case write_be (bb_len (cbb_base w1)) n (unat v) (bb_buf b) of
         (xs, rest) \<Rightarrow>
           let w2 = w1\<lparr>cbb_base := b\<lparr>bb_buf := xs\<rparr>\<rparr>
           in if rest \<noteq> 0 then (False, cbb_on_error w2 d) else (True, w2))))"
  by (auto simp: cbb_add_u_def CBB_add_space_cases split: prod.split bool.split)

lemma cbb_add_u_error: "bb_error (cbb_base w) \<Longrightarrow> cbb_add_u w d v n = (False, w)"
  by (simp add: cbb_add_u_cases CBB_flush_error)

lemma cbb_add_u_eq:
  assumes w: "wf_cbb w" and n: "n < SIZE_MOD"
  shows "cbb_add_u w d v n = (case CBB_add_bytes w d (be_bytes n (unat v)) of
     (False, w1) \<Rightarrow> (False, w1)
   | (True, w1) \<Rightarrow> if unat v < 256 ^ n then (True, w1) else (False, cbb_on_error w1 d))"
proof -
  obtain ok w1 where fl: "CBB_flush w d = (ok, w1)" by (cases "CBB_flush w d")
  obtain ok2 b where ad: "cbb_buffer_add (cbb_alloc w1) (cbb_base w1) n = (ok2, b)"
    by (cases "cbb_buffer_add (cbb_alloc w1) (cbb_base w1) n")
  show ?thesis
  proof (cases "ok \<and> ok2")
    case True
    then have "wf_buf (cbb_base w1)"
      using fl CBB_flush_True(1) [of w d w1] w by (simp add: succeeds_def wf_cbb_def)
    then have "bb_len (cbb_base w1) + n \<le> length (bb_buf b)"
      using buffer_add_True [of "cbb_alloc w1" "cbb_base w1" n b] True ad n by (simp add: wf_buf_def)
    then show ?thesis
      using True fl ad
      by (simp add: cbb_add_u_cases CBB_add_bytes_cases write_be_eq Let_def buf_write_def div_eq_0_iff)
  next
    case False
    then show ?thesis using fl ad by (cases ok) (auto simp: cbb_add_u_cases CBB_add_bytes_cases)
  qed
qed

lemma cbb_writer_u:
  assumes "n < SIZE_MOD" and "\<And>w d v. add w d v = cbb_add_u w d (f v) n"
    and "\<And>v. okv v \<Longrightarrow> unat (f v) < 256 ^ n" and "\<And>v. enc v = be_bytes n (unat (f v))"
  shows "cbb_writer add enc okv"
  by (rule cbb_writer_via [OF bytes_writer.cbb_writer_axioms, where f = "\<lambda>v. be_bytes n (unat (f v))"])
    (use assms in \<open>simp_all add: cbb_add_u_eq cbb_add_u_error split: prod.split bool.split\<close>)

lemma unat_u16_bound: "unat (v :: u16) < 65536"
  using unsigned_less [of v] by simp

interpretation u8_writer: cbb_writer CBB_add_u8 "\<lambda>v. [v]" "\<lambda>v. True"
  by (rule cbb_writer_u [of 1 _ ucast]) (simp_all add: SIZE_MOD_def CBB_add_u8_def)

interpretation u16_writer: cbb_writer CBB_add_u16 "\<lambda>v. be_bytes 2 (unat v)" "\<lambda>v. True"
  by (rule cbb_writer_u [of 2 _ ucast])
    (use unat_u16_bound in \<open>simp_all add: SIZE_MOD_def CBB_add_u16_def\<close>)

interpretation u24_writer: cbb_writer CBB_add_u24 "\<lambda>v. be_bytes 3 (unat v)" "\<lambda>v. unat v < 2 ^ 24"
  by (rule cbb_writer_u [of 3 _ ucast]) (simp_all add: SIZE_MOD_def CBB_add_u24_def)

interpretation u32_writer: cbb_writer CBB_add_u32 "\<lambda>v. be_bytes 4 (unat v)" "\<lambda>v. True"
  by (rule cbb_writer_u [of 4 _ ucast]) (simp_all add: SIZE_MOD_def CBB_add_u32_def)

interpretation u64_writer: cbb_writer CBB_add_u64 "\<lambda>v. be_bytes 8 (unat v)" "\<lambda>v. True"
  by (rule cbb_writer_u [of 8 _ id]) (use unat_u64_bound in \<open>simp_all add: SIZE_MOD_def CBB_add_u64_def\<close>)

section \<open>Sequences of writes\<close>

fun write_all :: "(cbb \<Rightarrow> nat \<Rightarrow> 'v \<Rightarrow> bool \<times> cbb) \<Rightarrow> cbb \<Rightarrow> nat \<Rightarrow> 'v list \<Rightarrow> bool \<times> cbb" where
  "write_all add w d [] = (True, w)"
| "write_all add w d (v # vs) = (case add w d v of
     (False, w1) \<Rightarrow> (False, w1)
   | (True, w1) \<Rightarrow> write_all add w1 d vs)"

lemma bd_append_append:
  "d \<le> length ks \<Longrightarrow> length cs = Suc (length ks) \<Longrightarrow>
   bd_append d ys (bd_append d xs (ks, cs)) = bd_append d (xs @ ys) (ks, cs)"
  by (simp add: bd_append_def bd_flush_def)

lemma bd_append_abs:
  "d \<le> length (cbb_chain w) \<Longrightarrow>
   bd_append d ys (bd_append d xs (cbb_abs w)) = bd_append d (xs @ ys) (cbb_abs w)"
  using bd_append_append [of d "fst (cbb_abs w)" "snd (cbb_abs w)"] by (simp add: chain_of_abs)

lemma bd_flush_append:
  "d \<le> length ks \<Longrightarrow> length cs = Suc (length ks) \<Longrightarrow> bd_flush d (bd_append d xs (ks, cs)) = bd_append d xs (ks, cs)"
  by (simp add: bd_append_def bd_flush_def)

lemma start_at_take: "start_at s (take d cs) d = start_at s cs d"
  by (induction s cs d rule: start_at.induct) auto

lemma flushed_len_append:
  assumes "succeeds w d w' (bd_append d xs (cbb_abs w))" and "cbb_chain w' = take d (cbb_chain w)"
  shows "flushed_len w' d = flushed_len w d + length xs"
    "collapse_fits (drop d (fst (cbb_abs w'))) (drop d (snd (cbb_abs w')))"
  using assms chain_of_abs [of w]
  by (auto simp: succeeds_def flushed_len_def start_at_take bd_append_def min_absorb2 split: prod.splits)

lemma roomy_after:
  assumes "roomy w d (length xs + m)" and "succeeds w d w' (bd_append d xs (cbb_abs w))"
    and "cbb_chain w' = take d (cbb_chain w)"
  shows "roomy w' d m"
  using assms flushed_len_append [OF assms(2,3)] by (simp add: roomy_def succeeds_def)

context cbb_writer begin

lemma write_all_error: "bb_error (cbb_base w) \<Longrightarrow> vs \<noteq> [] \<Longrightarrow> \<not> fst (write_all add w d vs)"
  using add_error [of w d "hd vs"] by (cases vs) (auto split: prod.split bool.split)

lemma write_all_True:
  "wf_cbb w \<Longrightarrow> vs \<noteq> [] \<Longrightarrow> \<forall>v\<in>set vs. okv v \<Longrightarrow> write_all add w d vs = (True, w') \<Longrightarrow>
   succeeds w d w' (bd_append d (concat (map enc vs)) (cbb_abs w)) \<and> cbb_chain w' = take d (cbb_chain w)"
proof (induction vs arbitrary: w)
  case (Cons v vs)
  from Cons.prems(4) obtain w1 where ad: "add w d v = (True, w1)" and rest: "write_all add w1 d vs = (True, w')"
    by (auto split: prod.splits bool.splits)
  note s = add_True [OF Cons.prems(1) _ ad]
  show ?case
  proof (cases "vs = []")
    case True
    then show ?thesis using s rest Cons.prems(3) by simp
  next
    case False
    have wf1: "wf_cbb w1" using s Cons.prems(3) by (simp add: succeeds_def)
    note t = Cons.IH [OF wf1 False _ rest]
    show ?thesis
      using s t Cons.prems(3) bd_append_abs [of d w "concat (map enc vs)" "enc v"]
      by (auto simp: succeeds_def)
  qed
qed simp

lemma write_all_False:
  "wf_cbb w \<Longrightarrow> \<forall>v\<in>set vs. okv v \<Longrightarrow> write_all add w d vs = (False, w') \<Longrightarrow> locked w d w'"
proof (induction vs arbitrary: w)
  case (Cons v vs)
  obtain ok w1 where ad: "add w d v = (ok, w1)" by (cases "add w d v")
  show ?case
  proof (cases ok)
    case True
    then have s: "succeeds w d w1 (bd_append d (enc v) (cbb_abs w)) \<and> cbb_chain w1 = take d (cbb_chain w)"
      using add_True [OF Cons.prems(1), of v d w1] ad Cons.prems(2) by simp
    then have "locked w1 d w'"
      using Cons.IH [of w1] Cons.prems(2,3) ad True by (simp add: succeeds_def)
    then show ?thesis using s by (auto simp: locked_def succeeds_def)
  next
    case False
    then show ?thesis using add_False [OF Cons.prems(1), of v d w1] ad Cons.prems(2,3) by simp
  qed
qed simp

lemma write_all_total:
  "wf_cbb w \<Longrightarrow> \<forall>v\<in>set vs. okv v \<Longrightarrow> roomy w d (length (concat (map enc vs))) \<Longrightarrow>
   \<exists>w'. write_all add w d vs = (True, w')"
proof (induction vs arbitrary: w)
  case (Cons v vs)
  have "roomy w d (length (enc v))" using Cons.prems(3) by (simp add: roomy_def)
  then obtain w1 where ad: "add w d v = (True, w1)" using add_total [OF Cons.prems(1), of v d] Cons.prems(2) by auto
  note s = add_True [OF Cons.prems(1) _ ad]
  have "roomy w1 d (length (concat (map enc vs)))"
    by (rule roomy_after [of w d "enc v"]) (use s Cons.prems(2,3) in simp_all)
  then show ?case using Cons.IH [of w1] s ad Cons.prems(2) by (simp add: succeeds_def)
qed simp

text \<open>A non-empty sequence of writes is itself a writer, of the concatenation.\<close>

lemma write_some_writer:
  "cbb_writer (\<lambda>w d (v, vs). write_all add w d (v # vs)) (\<lambda>(v, vs). concat (map enc (v # vs)))
     (\<lambda>(v, vs). \<forall>v\<in>set (v # vs). okv v)"
proof
  fix w :: cbb and d and p :: "'v \<times> 'v list" and w'
  obtain v vs where p: "p = (v, vs)" by (cases p)
  assume "wf_cbb w" "case p of (v, vs) \<Rightarrow> \<forall>v\<in>set (v # vs). okv v"
  then show "(case p of (v, vs) \<Rightarrow> write_all add w d (v # vs)) = (True, w') \<Longrightarrow>
      succeeds w d w' (bd_append d (case p of (v, vs) \<Rightarrow> concat (map enc (v # vs))) (cbb_abs w)) \<and>
      cbb_chain w' = take d (cbb_chain w)"
    and "(case p of (v, vs) \<Rightarrow> write_all add w d (v # vs)) = (False, w') \<Longrightarrow> locked w d w'"
    and "roomy w d (length (case p of (v, vs) \<Rightarrow> concat (map enc (v # vs)))) \<Longrightarrow>
      \<exists>w'. (case p of (v, vs) \<Rightarrow> write_all add w d (v # vs)) = (True, w')"
    using write_all_True [of w "v # vs" d w'] write_all_False [of w "v # vs" d w'] write_all_total [of w "v # vs" d]
    by (simp_all only: p prod.case) blast+
next
  show "\<not> fst (case p of (v, vs) \<Rightarrow> write_all add w d (v # vs))" if "bb_error (cbb_base w)" for w d p
    using write_all_error [OF that, of "fst p # snd p" d] by (cases p) simp
qed

end

section \<open>Base-128 integers and children\<close>

text \<open>The octets the loop of \<^verbatim>\<open>add_base128_integer\<close> writes.\<close>

fun base128_octets :: "nat \<Rightarrow> u64 \<Rightarrow> byte list" where
  "base128_octets 0 v = []"
| "base128_octets (Suc i) v =
     (let byte0 = ucast (drop_bit (7 * i) v) AND 0x7f
      in (if i \<noteq> 0 then byte0 OR 0x80 else byte0) # base128_octets i v)"

lemma add_base128_loop_eq: "add_base128_loop n v w d = write_all CBB_add_u8 w d (base128_octets n v)"
  by (induction n arbitrary: w) (auto simp: Let_def split: prod.split bool.split)

lemma base128_len_0 [simp]: "base128_len 0 = 0"
  by (simp add: base128_len.simps)

lemma base128_len_step: "n \<noteq> 0 \<Longrightarrow> base128_len n = Suc (base128_len (n div 128))"
  by (subst base128_len.simps) simp

lemma or_80_small: "unat (b :: byte) < 128 \<Longrightarrow> b OR 0x80 = word_of_nat (128 + unat b)"
proof -
  assume "unat b < 128"
  then have "push_bit 7 1 OR b = 1 * 2 ^ 7 + b" by (intro push_or_small) simp
  then show ?thesis by (simp add: or.commute)
qed

lemma base128_octets_digits:
  "base128_octets n v =
   map (\<lambda>i. word_of_nat ((if i \<noteq> 0 then 128 else 0) + unat v div 128 ^ i mod 128)) (rev [0..<n])"
proof (induction n)
  case (Suc n)
  let ?b = "ucast (drop_bit (7 * n) v) AND 0x7f :: byte"
  have u: "unat ?b = unat v div 128 ^ n mod 128"
    by (simp add: word_nat power_mult mod_mod_cancel)
  then have "?b = word_of_nat (unat v div 128 ^ n mod 128)"
    by (intro word_eq_if_unat) (simp add: unat_byte_of_nat u)
  then show ?case
    using Suc or_80_small [of ?b] u by (simp add: Let_def)
qed simp

lemma base128_high_digits:
  "base128_high m = map (\<lambda>i. word_of_nat (128 + m div 128 ^ i mod 128)) (rev [0..<base128_len m])"
proof (induction m rule: base128_high.induct)
  case (1 m)
  show ?case
  proof (cases "m = 0")
    case False
    have "[0..<Suc (base128_len (m div 128))] = 0 # map Suc [0..<base128_len (m div 128)]"
      by (simp add: upt_conv_Cons map_Suc_upt del: upt_Suc)
    then have "rev [0..<base128_len m] = map Suc (rev [0..<base128_len (m div 128)]) @ [0]"
      using False by (simp add: base128_len_step rev_map del: upt_Suc)
    then show ?thesis
      using 1 False by (subst base128_high.simps) (simp add: div_mult2_eq)
  qed simp
qed

lemma base128_octets_eq:
  "base128_octets (if base128_len (unat v) = 0 then 1 else base128_len (unat v)) v = base128_enc (unat v)"
proof -
  have len: "(if base128_len m = 0 then 1 else base128_len m) = Suc (base128_len (m div 128))" for m
    by (cases "m = 0") (simp_all add: base128_len_step)
  have "[0..<Suc n] = 0 # map Suc [0..<n]" for n
    by (simp add: upt_conv_Cons map_Suc_upt del: upt_Suc)
  then have "rev [0..<Suc n] = map Suc (rev [0..<n]) @ [0]" for n
    by (simp add: rev_map del: upt_Suc)
  then show ?thesis
    unfolding base128_octets_digits len base128_enc_def base128_high_digits
    by (simp add: div_mult2_eq del: upt_Suc)
qed

interpretation octets_writer: cbb_writer "\<lambda>w d (v, vs). write_all CBB_add_u8 w d (v # vs)"
  "\<lambda>(v, vs). concat (map (\<lambda>v. [v]) (v # vs))" "\<lambda>(v, vs). \<forall>v\<in>set (v # vs). True"
  by (rule u8_writer.write_some_writer)

interpretation base128_writer: cbb_writer add_base128_integer "\<lambda>v. base128_enc (unat v)" "\<lambda>v. True"
proof -
  have ne: "hd (base128_enc n) # tl (base128_enc n) = base128_enc n" for n by (simp add: base128_enc_def)
  have eq: "add_base128_integer w d v = write_all CBB_add_u8 w d (base128_enc (unat v))" for w d v
    by (simp add: add_base128_integer_def add_base128_loop_eq base128_octets_eq Let_def)
  have enc: "concat (map (\<lambda>v. [v]) xs) = xs" for xs :: "byte list" by (induction xs) auto
  have ne': "base128_enc n \<noteq> []" for n by (simp add: base128_enc_def)
  show "cbb_writer add_base128_integer (\<lambda>v. base128_enc (unat v)) (\<lambda>v. True)"
    by (rule cbb_writer_via [OF octets_writer.cbb_writer_axioms,
          where f = "\<lambda>v. (hd (base128_enc (unat v)), tl (base128_enc (unat v)))"])
      (simp_all only: eq ne prod.case enc u8_writer.write_all_error [OF _ ne'] simp_thms, simp)
qed

lemma cbb_add_child_True:
  assumes w: "wf_cbb w" and d: "length (cbb_chain w) = d" and ad: "cbb_add_child w d n a = (True, w')"
    and n: "n < SIZE_MOD" "a \<longrightarrow> n = 1"
  shows "wf_cbb w'" "bb_error (cbb_base w') = bb_error (cbb_base w)"
    "bb_can_resize (cbb_base w') = bb_can_resize (cbb_base w)" "cbb_alloc w' = cbb_alloc w"
    "cbb_chain w' = cbb_chain w @ [\<lparr>ch_offset = bb_len (cbb_base w), ch_pending_len_len = n, ch_pending_is_asn1 = a\<rparr>]"
    "cbb_abs w' = (fst (cbb_abs w) @ [if a then Der_Length else Fixed_Prefix n], snd (cbb_abs w) @ [[]])"
proof -
  let ?c = "\<lparr>ch_offset = bb_len (cbb_base w), ch_pending_len_len = n, ch_pending_is_asn1 = a\<rparr>"
  obtain b where add: "cbb_buffer_add (cbb_alloc w) (cbb_base w) n = (True, b)"
    and w': "w' = w\<lparr>cbb_base := buf_write (bb_len (cbb_base w)) (replicate n 0) b, cbb_chain := cbb_chain w @ [?c]\<rparr>"
    using ad d by (auto simp: cbb_add_child_def Let_def split: prod.splits bool.splits)
  have wf: "wf_buf (cbb_base w)" "wf_chain 0 (cbb_chain w) (bb_len (cbb_base w))"
    using w by (simp_all add: wf_cbb_def)
  note f = buffer_add_True [OF add wf(1) n(1)]
  have aw: "written (buf_write (bb_len (cbb_base w)) (replicate n 0) b) = written (cbb_base w) @ replicate n 0"
    "wf_buf (buf_write (bb_len (cbb_base w)) (replicate n 0) b)"
    using buffer_add_write [of "cbb_alloc w" "cbb_base w" "replicate n 0" b] add wf n by simp_all
  show "wf_cbb w'" using aw f(2) wf_chain_snoc [OF wf(2) n(2)] by (simp add: wf_cbb_def w')
  show "cbb_chain w' = cbb_chain w @ [?c]" "bb_error (cbb_base w') = bb_error (cbb_base w)" "cbb_alloc w' = cbb_alloc w"
    "bb_can_resize (cbb_base w') = bb_can_resize (cbb_base w)"
    using f by (simp_all add: w')
  show "cbb_abs w' = (fst (cbb_abs w) @ [if a then Der_Length else Fixed_Prefix n], snd (cbb_abs w) @ [[]])"
    using aw(1) frames_snoc [OF wf_cbb_chain [OF w], of n a] wf(1)
    by (simp add: cbb_abs_def w' kind_of_def)
qed

lemma cbb_add_child_False: "cbb_add_child w d n a = (False, w') \<Longrightarrow> wf_cbb w \<Longrightarrow> wf_cbb w' \<and> bb_error (cbb_base w')"
  by (auto simp: cbb_add_child_def Let_def wf_cbb_def dest: buffer_add_False split: prod.splits bool.splits)

lemma cbb_add_child_total:
  assumes "bb_can_resize (cbb_base w)" and "\<forall>m. cbb_alloc w m" and "bb_len (cbb_base w) + n < SIZE_MOD"
  shows "\<exists>w'. cbb_add_child w d n a = (True, w')"
  using buffer_add_total [OF assms] by (auto simp: cbb_add_child_def Let_def)

text \<open>The facts about a call that leaves a new child open at depth \<open>Suc d\<close>.\<close>

definition opens :: "cbb \<Rightarrow> nat \<Rightarrow> cbb \<Rightarrow> builder \<Rightarrow> bool" where
  "opens w d w' bd \<longleftrightarrow> succeeds w d w' bd \<and> length (cbb_chain w') = Suc d \<and>
     take d (cbb_chain w') = take d (cbb_chain w)"

lemma child_after_flush:
  assumes w: "wf_cbb w" and s: "succeeds w d w1 (ks, cs)" and ch: "cbb_chain w1 = take d (cbb_chain w)"
    and ad: "cbb_add_child w1 d n a = (True, w')" and n: "n < SIZE_MOD" "a \<longrightarrow> n = 1"
  shows "opens w d w' (ks @ [if a then Der_Length else Fixed_Prefix n], cs @ [[]])"
proof -
  have "wf_cbb w1" "length (cbb_chain w1) = d" using s ch by (simp_all add: succeeds_def)
  note c = cbb_add_child_True [OF this ad n]
  have "length (take d (cbb_chain w)) = d" using s by (simp add: succeeds_def)
  then show ?thesis using c s ch by (simp add: opens_def succeeds_def)
qed

lemma length_prefixed_opens:
  assumes "cbb_add_length_prefixed w d n = (True, w')" and "wf_cbb w" and "n < SIZE_MOD"
  shows "opens w d w' (bd_open d (Fixed_Prefix n) (cbb_abs w))"
proof -
  obtain w1 where fl: "CBB_flush w d = (True, w1)" and ad: "cbb_add_child w1 d n False = (True, w')"
    using assms(1) by (auto simp: cbb_add_length_prefixed_def split: prod.splits bool.splits)
  obtain ks cs where k: "bd_flush d (cbb_abs w) = (ks, cs)" by (cases "bd_flush d (cbb_abs w)")
  have "opens w d w' (ks @ [if False then Der_Length else Fixed_Prefix n], cs @ [[]])"
    by (rule child_after_flush [OF assms(2) _ _ ad assms(3)])
      (use CBB_flush_True [OF fl assms(2)] k in simp_all)
  then show ?thesis using k by (simp add: bd_open_def)
qed

section \<open>Tags and elements\<close>

lemma tag_octet_high:
  "(ucast (drop_bit CBS_ASN1_TAG_SHIFT tag) AND 0xe0 :: byte) = push_bit 5 (word_of_nat (tag_class tag))"
proof (rule bit_word_eqI)
  fix n
  assume n: "n < LENGTH(8)"
  have "bit (0xe0 :: byte) n \<longleftrightarrow> 5 \<le> n" using n by (auto simp: less_Suc_eq numeral_eq_Suc)
  moreover have "bit (tag_class tag) (n - 5) \<longleftrightarrow> bit tag (24 + n)" if "5 \<le> n"
  proof -
    have "29 + (n - 5) = 24 + n" using that by simp
    then have "(2 :: nat) ^ 29 * 2 ^ (n - 5) = 2 ^ (24 + n)" by (metis power_add)
    then have "tag_class tag div 2 ^ (n - 5) = unat tag div 2 ^ (24 + n)"
      unfolding tag_class_def by (metis div_mult2_eq)
    then show ?thesis by (simp add: bit_unat bit_iff_odd)
  qed
  ultimately show "bit (ucast (drop_bit CBS_ASN1_TAG_SHIFT tag) AND 0xe0 :: byte) n
      = bit (push_bit 5 (word_of_nat (tag_class tag)) :: byte) n"
    using n by (auto simp: bit_simps CBS_ASN1_TAG_SHIFT_def)
qed

definition tag_head :: "asn1_tag \<Rightarrow> nat \<Rightarrow> byte" where
  "tag_head tag low = word_of_nat (tag_class tag * 32 + low)"

lemma tag_octet_or:
  assumes "unat low < 32"
  shows "(ucast (drop_bit CBS_ASN1_TAG_SHIFT tag) AND 0xe0 :: byte) OR low = tag_head tag (unat low)"
  unfolding tag_octet_high using assms
  by (subst push_or_small) (simp_all add: tag_head_def)

lemma CBB_add_asn1_eq:
  "CBB_add_asn1 w d tag = (case CBB_flush w d of
     (False, w1) \<Rightarrow> (False, w1)
   | (True, w1) \<Rightarrow>
       (case (if tag_number tag \<ge> 31 then
            (case CBB_add_u8 w1 d (tag_head tag 31) of
               (False, w2) \<Rightarrow> (False, w2)
             | (True, w2) \<Rightarrow> add_base128_integer w2 d (word_of_nat (tag_number tag)))
          else CBB_add_u8 w1 d (tag_head tag (tag_number tag))) of
            (False, w3) \<Rightarrow> (False, w3)
          | (True, w3) \<Rightarrow> cbb_add_child w3 d 1 True))"
proof -
  have "CBS_ASN1_TAG_NUMBER_MASK = mask 29"
    by (simp add: CBS_ASN1_TAG_NUMBER_MASK_def mask_eq_exp_minus_1)
  then have u: "unat (tag AND CBS_ASN1_TAG_NUMBER_MASK) = tag_number tag"
    unfolding tag_number_def by (metis unat_mask_and)
  then have v: "(ucast (tag AND CBS_ASN1_TAG_NUMBER_MASK) :: u64) = word_of_nat (tag_number tag)"
    using tag_number_bound [of tag] by (intro word_eq_if_unat) (simp add: unat_u64_of_nat)
  have ge: "tag AND CBS_ASN1_TAG_NUMBER_MASK \<ge> 0x1f \<longleftrightarrow> tag_number tag \<ge> 31"
    using u by (simp add: word_le_nat_alt)
  have lo: "unat (ucast (tag AND CBS_ASN1_TAG_NUMBER_MASK) :: byte) = tag_number tag" if "\<not> tag_number tag \<ge> 31"
    using that u by (simp add: unat_ucast_mod)
  show ?thesis
    unfolding CBB_add_asn1_def Let_def ge v
    using lo tag_octet_or [where low = "0x1f" and tag = tag]
      tag_octet_or [where low = "ucast (tag AND CBS_ASN1_TAG_NUMBER_MASK)" and tag = tag]
    by (auto split: prod.split bool.split)
qed

lemma tag_enc_head:
  "tag_enc t = (if tag_number t < 31 then [tag_head t (tag_number t)]
     else tag_head t 31 # base128_enc (tag_number t))"
  by (simp add: tag_enc_def tag_head_def)

text \<open>The identifier octets as one write.\<close>

definition add_tag :: "cbb \<Rightarrow> nat \<Rightarrow> asn1_tag \<Rightarrow> bool \<times> cbb" where
  "add_tag w d tag = (if tag_number tag \<ge> 31 then
      (case CBB_add_u8 w d (tag_head tag 31) of
         (False, w2) \<Rightarrow> (False, w2)
       | (True, w2) \<Rightarrow> add_base128_integer w2 d (word_of_nat (tag_number tag)))
    else CBB_add_u8 w d (tag_head tag (tag_number tag)))"

lemma add_tag_eq: "add_tag w d tag = write_all CBB_add_u8 w d (tag_enc tag)"
proof -
  have "add_base128_integer w d v = write_all CBB_add_u8 w d (base128_enc (unat v))" for w d v
    by (simp add: add_base128_integer_def add_base128_loop_eq base128_octets_eq Let_def)
  moreover have "unat (word_of_nat (tag_number tag) :: u64) = tag_number tag"
    using tag_number_bound [of tag] by (simp add: unat_u64_of_nat)
  ultimately show ?thesis
    by (auto simp: add_tag_def tag_enc_head split: prod.split bool.split)
qed

interpretation tag_writer: cbb_writer add_tag tag_enc "\<lambda>t. True"
proof -
  have ne: "tag_enc t \<noteq> []" for t by (simp add: tag_enc_def)
  then have hd_tl: "hd (tag_enc t) # tl (tag_enc t) = tag_enc t" for t by simp
  have enc: "concat (map (\<lambda>v. [v]) xs) = xs" for xs :: "byte list" by (induction xs) auto
  show "cbb_writer add_tag tag_enc (\<lambda>t. True)"
    by (rule cbb_writer_via [OF octets_writer.cbb_writer_axioms, where f = "\<lambda>t. (hd (tag_enc t), tl (tag_enc t))"])
      (simp_all only: add_tag_eq hd_tl prod.case enc u8_writer.write_all_error [OF _ ne] simp_thms, simp)
qed

lemma CBB_flush_twice:
  assumes "CBB_flush w d = (True, w1)" and "wf_cbb w"
  shows "CBB_flush w1 d = (True, w1)"
  using CBB_flush_True [OF assms] by (simp add: CBB_flush_def succeeds_def)

lemma CBB_add_u8_flush:
  assumes "CBB_flush w d = (True, w1)" and "wf_cbb w"
  shows "CBB_add_u8 w1 d b = CBB_add_u8 w d b"
  using CBB_flush_twice [OF assms] assms(1) by (simp add: CBB_add_u8_def cbb_add_u_cases)

lemma CBB_add_asn1_split:
  assumes "wf_cbb w"
  shows "CBB_add_asn1 w d tag = (case add_tag w d tag of
     (False, w1) \<Rightarrow> (False, w1) | (True, w1) \<Rightarrow> cbb_add_child w1 d 1 True)"
proof -
  obtain ok w1 where fl: "CBB_flush w d = (ok, w1)" by (cases "CBB_flush w d")
  show ?thesis
  proof (cases ok)
    case True
    then show ?thesis
      using fl CBB_add_u8_flush [of w d w1] assms by (simp add: CBB_add_asn1_eq add_tag_def)
  next
    case False
    then have "CBB_add_u8 w d b = (False, w1)" for b
      using fl by (simp add: CBB_add_u8_def cbb_add_u_cases)
    then show ?thesis using fl False by (simp add: CBB_add_asn1_eq add_tag_def)
  qed
qed

lemma CBB_add_asn1_opens:
  assumes "CBB_add_asn1 w d tag = (True, w')" and "wf_cbb w"
  shows "opens w d w' (bd_open d Der_Length (bd_append d (tag_enc tag) (cbb_abs w)))"
proof -
  obtain w1 where t: "add_tag w d tag = (True, w1)" and ad: "cbb_add_child w1 d 1 True = (True, w')"
    using assms by (auto simp: CBB_add_asn1_split split: prod.splits bool.splits)
  note s = tag_writer.add_True [OF assms(2) TrueI t]
  obtain ks cs where k: "bd_append d (tag_enc tag) (cbb_abs w) = (ks, cs)"
    by (cases "bd_append d (tag_enc tag) (cbb_abs w)")
  have "opens w d w' (ks @ [if True then Der_Length else Fixed_Prefix 1], cs @ [[]])"
    by (rule child_after_flush [OF assms(2) _ _ ad]) (use s k in \<open>simp_all add: SIZE_MOD_def\<close>)
  moreover have "bd_flush d (ks, cs) = (ks, cs)"
    using bd_flush_append [of d "fst (cbb_abs w)" "snd (cbb_abs w)" "tag_enc tag"] s k
    by (simp add: succeeds_def chain_of_abs)
  ultimately show ?thesis using k by (simp add: bd_open_def)
qed

lemma CBB_add_asn1_False:
  assumes "CBB_add_asn1 w d tag = (False, w')" and "wf_cbb w"
  shows "locked w d w'"
proof -
  obtain ok w1 where t: "add_tag w d tag = (ok, w1)" by (cases "add_tag w d tag")
  show ?thesis
  proof (cases ok)
    case True
    then have "succeeds w d w1 (bd_append d (tag_enc tag) (cbb_abs w))"
      using tag_writer.add_True [OF assms(2) TrueI, of d tag w1] t by simp
    then show ?thesis
      using assms t True cbb_add_child_False [of w1 d 1 True w']
      by (simp add: CBB_add_asn1_split succeeds_def locked_def)
  next
    case False
    then show ?thesis
      using assms t tag_writer.add_False [OF assms(2) TrueI, of d tag w1] by (simp add: CBB_add_asn1_split)
  qed
qed

section \<open>Root builders\<close>

text \<open>A root without open children that holds exactly \<open>bs\<close> and can grow.\<close>

definition root_has :: "cbb \<Rightarrow> byte list \<Rightarrow> bool" where
  "root_has w bs \<longleftrightarrow> wf_cbb w \<and> cbb_chain w = [] \<and> written (cbb_base w) = bs \<and> \<not> bb_error (cbb_base w) \<and>
     bb_can_resize (cbb_base w) \<and> (\<forall>m. cbb_alloc w m)"

lemma CBB_init_root: "\<forall>m. al m \<Longrightarrow> n < SIZE_MOD \<Longrightarrow> \<exists>w. CBB_init al n = Some w \<and> root_has w []"
  by (simp add: CBB_init_def cbb_init_def root_has_def wf_cbb_def wf_buf_def written_def)

lemma CBB_finish_root:
  assumes "root_has w bs" and "CBB_finish w 0 True True = (r, w')"
  shows "\<exists>buf. r = Some (buf, length bs) \<and> take (length bs) buf = bs"
proof -
  have "length bs = bb_len (cbb_base w)" using assms(1) by (auto simp: root_has_def wf_cbb_def)
  then show ?thesis
    using assms by (auto simp: CBB_finish_def CBB_flush_def root_has_def written_def)
qed

lemma root_abs: "cbb_chain w = [] \<Longrightarrow> cbb_abs w = ([], [written (cbb_base w)])"
  by (simp add: cbb_abs_def)

context cbb_writer begin

lemma root_step:
  assumes "root_has w bs" and "okv v" and "length bs + length (enc v) < SIZE_MOD"
  shows "\<exists>w'. add w 0 v = (True, w') \<and> root_has w' (bs @ enc v)"
proof -
  have w: "wf_cbb w" "cbb_chain w = []" "written (cbb_base w) = bs" using assms(1) by (simp_all add: root_has_def)
  have "roomy w 0 (length (enc v))"
    using assms by (simp add: roomy_def root_has_def flushed_len_def root_abs)
  then obtain w' where ad: "add w 0 v = (True, w')" using add_total [OF w(1) assms(2)] by blast
  note s = add_True [OF w(1) assms(2) ad]
  then have "written (cbb_base w') = bs @ enc v"
    using w root_abs [of w'] by (auto simp: succeeds_def root_abs bd_append_def)
  then show ?thesis using ad s assms(1) w(2) by (auto simp: root_has_def succeeds_def)
qed

end

text \<open>A builder to start from: a growing root, with every allocation granted.\<close>

definition sample_root :: cbb where
  "sample_root = the (CBB_init (\<lambda>n. True) 4)"

lemma sample_root_has: "root_has sample_root []"
proof -
  have "\<exists>w. CBB_init (\<lambda>n. True) 4 = Some w \<and> root_has w []" by (rule CBB_init_root) (simp_all add: SIZE_MOD_def)
  then show ?thesis by (auto simp: sample_root_def)
qed

text \<open>The fixed-width readers undo the big-endian bytes the writers append.\<close>

lemma CBS_get_be_bytes:
  "CBS_get_u16 (be_bytes 2 (unat (a :: u16)) @ r) = (Some a, r)"
  "unat (b :: u32) < 2 ^ 24 \<Longrightarrow> CBS_get_u24 (be_bytes 3 (unat b) @ r) = (Some b, r)"
  "CBS_get_u32 (be_bytes 4 (unat c) @ r) = (Some (c :: u32), r)"
  "CBS_get_u64 (be_bytes 8 (unat e) @ r) = (Some (e :: u64), r)"
proof -
  have cast: "ucast (word_of_nat (unat x) :: u64) = x" if "unat x < 2 ^ 64" for x :: "'a::len word"
    using that by (intro word_eq_if_unat) (simp add: unat_ucast_mod unat_u64_of_nat)
  have c: "unat c < 2 ^ 64" by (rule less_trans [OF unat_u32_bound]) simp
  have a: "unat a < 65536" by (rule unat_u16_bound)
  show "CBS_get_u16 (be_bytes 2 (unat a) @ r) = (Some a, r)"
    using a cast [of a] by (simp only: CBS_get_u16_def) (subst cbs_get_u_be_bytes, simp_all)
  show "CBS_get_u24 (be_bytes 3 (unat b) @ r) = (Some b, r)" if "unat b < 2 ^ 24"
    using that cast [of b] by (simp only: CBS_get_u24_def) (subst cbs_get_u_be_bytes, simp_all)
  show "CBS_get_u32 (be_bytes 4 (unat c) @ r) = (Some c, r)"
    using cast [OF c] by (simp only: CBS_get_u32_def) (subst cbs_get_u_be_bytes, simp_all)
  show "CBS_get_u64 (be_bytes 8 (unat e) @ r) = (Some e, r)"
    using cast [of e] by (simp only: CBS_get_u64_def) (subst cbs_get_u_be_bytes, simp_all)
qed

end
