(* ===== verification/DerTypes.thy ===== *)
theory DerTypes
  imports CbsDer
begin

text \<open>
  The typed DER readers of \<^verbatim>\<open>crypto/bytestring/cbs.c\<close>: integers, booleans, optional fields, bit
  strings and object identifiers, over the element reader of \<open>CbsDer\<close>.  The reference for an
  INTEGER body is its two's complement value \<open>twos_val\<close>, and a body is valid when no shorter one
  has the same value.
\<close>

section \<open>The code: typed readers\<close>

text \<open>\<open>None\<close>: not a valid INTEGER body; \<open>Some is_negative\<close> otherwise.\<close>

definition CBS_is_valid_asn1_integer :: "cbs \<Rightarrow> bool option" where
  "CBS_is_valid_asn1_integer s = (case CBS_get_u8 s of
     (None, _) \<Rightarrow> None
   | (Some first_byte, copy) \<Rightarrow>
      let is_negative = (first_byte AND 0x80 \<noteq> 0)
      in case CBS_get_u8 copy of
           (None, _) \<Rightarrow> Some is_negative
         | (Some second_byte, _) \<Rightarrow>
             if (first_byte = 0x00 \<and> second_byte AND 0x80 = 0) \<or>
                (first_byte = 0xff \<and> second_byte AND 0x80 \<noteq> 0) then None
             else Some is_negative)"

definition CBS_is_unsigned_asn1_integer :: "cbs \<Rightarrow> bool" where
  "CBS_is_unsigned_asn1_integer s = (CBS_is_valid_asn1_integer s = Some False)"

fun asn1_uint64_loop :: "u64 \<Rightarrow> byte list \<Rightarrow> u64 option" where
  "asn1_uint64_loop v [] = Some v"
| "asn1_uint64_loop v (b # bs) =
     (if drop_bit 56 v \<noteq> 0 then None else asn1_uint64_loop (push_bit 8 v OR ucast b) bs)"

definition CBS_get_asn1_uint64 :: "cbs \<Rightarrow> u64 option \<times> cbs" where
  "CBS_get_asn1_uint64 s = (case CBS_get_asn1 s CBS_ASN1_INTEGER of
     (None, s') \<Rightarrow> (None, s')
   | (Some bytes, s') \<Rightarrow>
       if \<not> CBS_is_unsigned_asn1_integer bytes then (None, s')
       else (asn1_uint64_loop 0 bytes, s'))"

text \<open>A load of eight bytes on a little-endian machine, then the byte swap.\<close>

definition CRYPTO_load_u64_be :: "byte list \<Rightarrow> u64" where
  "CRYPTO_load_u64_be p = CRYPTO_bswap8 (be_accum 0 (rev p))"

text \<open>The result is an \<^verbatim>\<open>int64_t\<close>, read with \<open>sint\<close>.\<close>

definition CBS_get_asn1_int64 :: "cbs \<Rightarrow> u64 option \<times> cbs" where
  "CBS_get_asn1_int64 s = (case CBS_get_asn1 s CBS_ASN1_INTEGER of
     (None, s') \<Rightarrow> (None, s')
   | (Some bytes, s') \<Rightarrow> (case CBS_is_valid_asn1_integer bytes of
       None \<Rightarrow> (None, s')
     | Some is_negative \<Rightarrow>
         let len = length bytes
         in if len > 8 then (None, s')
            else let sign_extend = replicate 8 (if is_negative then 0xff else 0)
                 in (Some (CRYPTO_load_u64_be (take (8 - len) sign_extend @ bytes)), s')))"

definition CBS_get_asn1_bool :: "cbs \<Rightarrow> bool option \<times> cbs" where
  "CBS_get_asn1_bool s = (case CBS_get_asn1 s CBS_ASN1_BOOLEAN of
     (None, s') \<Rightarrow> (None, s')
   | (Some bytes, s') \<Rightarrow>
       if length bytes \<noteq> 1 then (None, s')
       else let v = bytes ! 0 in
         if v \<noteq> 0 \<and> v \<noteq> 0xff then (None, s') else (Some (v \<noteq> 0), s'))"

text \<open>\<open>Some None\<close>: absent, which is a success; \<open>Some (Some c)\<close>: present with contents \<open>c\<close>.\<close>

definition CBS_get_optional_asn1 :: "cbs \<Rightarrow> asn1_tag \<Rightarrow> cbs option option \<times> cbs" where
  "CBS_get_optional_asn1 s tag =
     (if CBS_peek_asn1_tag s tag then (case CBS_get_asn1 s tag of
         (None, s') \<Rightarrow> (None, s')
       | (Some c, s') \<Rightarrow> (Some (Some c), s'))
      else (Some None, s))"

definition CBS_get_optional_asn1_octet_string :: "cbs \<Rightarrow> asn1_tag \<Rightarrow> (cbs \<times> bool) option \<times> cbs" where
  "CBS_get_optional_asn1_octet_string s tag = (case CBS_get_optional_asn1 s tag of
     (None, s') \<Rightarrow> (None, s')
   | (Some None, s') \<Rightarrow> (Some ([], False), s')
   | (Some (Some child), s') \<Rightarrow> (case CBS_get_asn1 child CBS_ASN1_OCTETSTRING of
       (None, _) \<Rightarrow> (None, s')
     | (Some c, child') \<Rightarrow> if length child' \<noteq> 0 then (None, s') else (Some (c, True), s')))"

definition CBS_get_optional_asn1_uint64 :: "cbs \<Rightarrow> asn1_tag \<Rightarrow> u64 \<Rightarrow> u64 option \<times> cbs" where
  "CBS_get_optional_asn1_uint64 s tag default_value = (case CBS_get_optional_asn1 s tag of
     (None, s') \<Rightarrow> (None, s')
   | (Some None, s') \<Rightarrow> (Some default_value, s')
   | (Some (Some child), s') \<Rightarrow> (case CBS_get_asn1_uint64 child of
       (None, _) \<Rightarrow> (None, s')
     | (Some v, child') \<Rightarrow> if length child' \<noteq> 0 then (None, s') else (Some v, s')))"

definition CBS_get_optional_asn1_bool :: "cbs \<Rightarrow> asn1_tag \<Rightarrow> int \<Rightarrow> int option \<times> cbs" where
  "CBS_get_optional_asn1_bool s tag default_value = (case CBS_get_optional_asn1 s tag of
     (None, s') \<Rightarrow> (None, s')
   | (Some None, s') \<Rightarrow> (Some default_value, s')
   | (Some (Some child), s') \<Rightarrow> (case CBS_get_asn1 child CBS_ASN1_BOOLEAN of
       (None, _) \<Rightarrow> (None, s')
     | (Some child2, child') \<Rightarrow>
         if length child2 \<noteq> 1 \<or> length child' \<noteq> 0 then (None, s')
         else if child2 ! 0 = 0 then (Some 0, s')
         else if child2 ! 0 = 0xff then (Some 1, s')
         else (None, s')))"

definition CBS_is_valid_asn1_bitstring :: "cbs \<Rightarrow> bool" where
  "CBS_is_valid_asn1_bitstring s = (case CBS_get_u8 s of
     (None, _) \<Rightarrow> False
   | (Some num_unused_bits, in') \<Rightarrow>
       if num_unused_bits > 7 then False
       else if num_unused_bits = 0 then True
       else (case CBS_get_last_u8 in' of
           (None, _) \<Rightarrow> False
         | (Some last_byte, _) \<Rightarrow> last_byte AND (push_bit (unat num_unused_bits) 1 - 1) = 0))"

definition CBS_asn1_bitstring_has_bit :: "cbs \<Rightarrow> u32 \<Rightarrow> bool" where
  "CBS_asn1_bitstring_has_bit s b =
     (if \<not> CBS_is_valid_asn1_bitstring s then False
      else let byte_num = drop_bit 3 b + 1; bit_num = 7 - (b AND 7)
           in unat byte_num < length s \<and>
              (s ! unat byte_num) AND push_bit (unat bit_num) 1 \<noteq> 0)"

fun asn1_oid_loop :: "byte \<Rightarrow> cbs \<Rightarrow> bool" where
  "asn1_oid_loop prev [] = (prev AND 0x80 = 0)"
| "asn1_oid_loop prev (v # s) =
     (if prev AND 0x80 = 0 \<and> v = 0x80 then False else asn1_oid_loop v s)"

definition CBS_is_valid_asn1_oid :: "cbs \<Rightarrow> bool" where
  "CBS_is_valid_asn1_oid s = (if length s = 0 then False else asn1_oid_loop 0 s)"

section \<open>INTEGER bodies\<close>

text \<open>Reference: the two's complement value of a byte string.\<close>

definition twos_val :: "byte list \<Rightarrow> int" where
  "twos_val bs = (if bs \<noteq> [] \<and> 128 \<le> unat (hd bs) then int (be_val bs) - 256 ^ length bs
     else int (be_val bs))"

lemma twos_val_neg_iff: "twos_val bs < 0 \<longleftrightarrow> bs \<noteq> [] \<and> 128 \<le> unat (hd bs)"
proof -
  have "int (be_val bs) < 256 ^ length bs"
    using be_val_less [of bs] by (metis of_nat_less_iff of_nat_numeral of_nat_power)
  then show ?thesis by (simp add: twos_val_def)
qed

lemma be_val_Cons_bounds:
  "unat b * 256 ^ length bs \<le> be_val (b # bs)"
  "be_val (b # bs) < (unat b + 1) * 256 ^ length bs"
  using be_val_less [of bs] by simp_all

lemma twos_val_range:
  assumes "bs \<noteq> []"
  shows "- (128 * 256 ^ (length bs - 1)) \<le> twos_val bs" "twos_val bs < 128 * 256 ^ (length bs - 1)"
proof -
  obtain b cs where bs: "bs = b # cs" using assms by (cases bs) auto
  have "unat b * 256 ^ length cs \<le> be_val bs" "be_val bs < (unat b + 1) * 256 ^ length cs"
    unfolding bs by (rule be_val_Cons_bounds)+
  moreover have "128 * 256 ^ length cs \<le> unat b * (256::nat) ^ length cs" if "128 \<le> unat b"
    using that by simp
  moreover have "(unat b + 1) * (256::nat) ^ length cs \<le> 256 * 256 ^ length cs"
    using unat_byte_bound [of b] by (intro mult_le_mono1) simp
  moreover have "(unat b + 1) * (256::nat) ^ length cs \<le> 128 * 256 ^ length cs" if "\<not> 128 \<le> unat b"
    using that by (intro mult_le_mono1) simp
  ultimately have n: "128 \<le> unat b \<Longrightarrow> 128 * 256 ^ length cs \<le> be_val bs"
    "be_val bs < 256 * 256 ^ length cs" "\<not> 128 \<le> unat b \<Longrightarrow> be_val bs < 128 * 256 ^ length cs"
    by linarith+
  have i1: "128 \<le> unat b \<Longrightarrow> int (128 * 256 ^ length cs) \<le> int (be_val bs)"
    using n(1) by (simp only: of_nat_le_iff)
  have i2: "int (be_val bs) < int (256 * 256 ^ length cs)"
    using n(2) by (simp only: of_nat_less_iff)
  have i3: "\<not> 128 \<le> unat b \<Longrightarrow> int (be_val bs) < int (128 * 256 ^ length cs)"
    unfolding of_nat_less_iff by (rule n(3))
  show "- (128 * 256 ^ (length bs - 1)) \<le> twos_val bs" "twos_val bs < 128 * 256 ^ (length bs - 1)"
  proof -
    have "- (128 * 256 ^ length cs) \<le> twos_val bs \<and> twos_val bs < 128 * 256 ^ length cs"
    proof (cases "128 \<le> unat b")
      case True
      then show ?thesis using i1 [OF True] i2 by (simp add: twos_val_def bs)
    next
      case False
      have "- (128 * 256 ^ length cs) \<le> (0 :: int)" by simp
      then have "- (128 * 256 ^ length cs) \<le> int (be_val bs)" by (rule order_trans) simp
      then show ?thesis using i3 [OF False] False by (simp add: twos_val_def bs)
    qed
    then show "- (128 * 256 ^ (length bs - 1)) \<le> twos_val bs" "twos_val bs < 128 * 256 ^ (length bs - 1)"
      by (simp_all add: bs)
  qed
qed

lemma twos_val_drop_first:
  "b = 0 \<and> unat c < 128 \<or> b = 0xff \<and> 128 \<le> unat c \<Longrightarrow> twos_val (b # c # cs) = twos_val (c # cs)"
proof (elim disjE conjE)
  assume "b = 0" "unat c < 128"
  then show ?thesis by (simp add: twos_val_def not_le)
next
  assume "b = 0xff" "128 \<le> unat c"
  then show ?thesis by (simp add: twos_val_def)
qed

lemma valid_integer_Nil: "CBS_is_valid_asn1_integer [] = None"
  by (simp add: CBS_is_valid_asn1_integer_def)

lemma valid_integer_single: "CBS_is_valid_asn1_integer [b] = Some (128 \<le> unat b)"
  unfolding CBS_is_valid_asn1_integer_def CBS_get_u8_simps prod.case option.case and_80 Let_def not_less
  by simp

lemma valid_integer_many: "CBS_is_valid_asn1_integer (b # c # cs) =
     (if b = 0 \<and> unat c < 128 \<or> b = 0xff \<and> 128 \<le> unat c then None else Some (128 \<le> unat b))"
  unfolding CBS_is_valid_asn1_integer_def CBS_get_u8_simps prod.case option.case and_80 Let_def not_less
  by simp

lemmas valid_integer_simps = valid_integer_Nil valid_integer_single valid_integer_many

lemma twos_val_large:
  assumes "\<not> (b = 0 \<and> unat c < 128 \<or> b = 0xff \<and> 128 \<le> unat c)"
  shows "128 * 256 ^ length cs \<le> twos_val (b # c # cs) \<or> twos_val (b # c # cs) < - (128 * 256 ^ length cs)"
proof -
  let ?p = "(256::nat) ^ length cs"
  have bc: "unat b \<noteq> 0 \<or> 128 \<le> unat c" "unat b \<noteq> 255 \<or> unat c < 128"
    using assms word_eq_if_unat [of b 0] word_eq_if_unat [of b "0xff"] by auto
  have v: "be_val (b # c # cs) = (unat b * 256 + unat c) * ?p + be_val cs" by (simp add: algebra_simps)
  have cs: "be_val cs < ?p" by (rule be_val_less)
  show ?thesis
  proof (cases "128 \<le> unat b")
    case False
    then have "128 * ?p \<le> (unat b * 256 + unat c) * ?p" using bc by (intro mult_le_mono1) linarith
    then have "128 * ?p \<le> be_val (b # c # cs)" using v by linarith
    then have "int (128 * ?p) \<le> int (be_val (b # c # cs))" by (rule of_nat_mono)
    then show ?thesis using False by (simp add: twos_val_def)
  next
    case True
    have "unat b * 256 + unat c + 1 \<le> 65408" using bc unat_byte_bound [of b] unat_byte_bound [of c] by linarith
    then have "(unat b * 256 + unat c + 1) * ?p \<le> 65408 * ?p" by (rule mult_le_mono1)
    then have "be_val (b # c # cs) < 65408 * ?p" using v cs by (simp add: algebra_simps)
    then have "int (be_val (b # c # cs)) < int (65408 * ?p)" by (simp only: of_nat_less_iff)
    then show ?thesis using True by (simp add: twos_val_def)
  qed
qed

text \<open>A body is valid exactly when it is not empty and no shorter body has its value.\<close>

theorem valid_asn1_integer_iff:
  "CBS_is_valid_asn1_integer s = Some neg \<longleftrightarrow>
   s \<noteq> [] \<and> (\<forall>t. t \<noteq> [] \<longrightarrow> twos_val t = twos_val s \<longrightarrow> length s \<le> length t) \<and> neg = (twos_val s < 0)"
proof -
  consider "s = []" | b where "s = [b]" | b c cs where "s = b # c # cs"
    by (cases s; cases "tl s") auto
  then show ?thesis
  proof cases
    case 3
    show ?thesis
    proof (cases "b = 0 \<and> unat c < 128 \<or> b = 0xff \<and> 128 \<le> unat c")
      case True
      then have "twos_val (c # cs) = twos_val s" using twos_val_drop_first 3 by simp
      then have "\<not> (\<forall>t. t \<noteq> [] \<longrightarrow> twos_val t = twos_val s \<longrightarrow> length s \<le> length t)"
        unfolding 3 by (intro notI) (drule spec [of _ "c # cs"], simp)
      then show ?thesis using True by (simp add: 3 valid_integer_simps)
    next
      case False
      have "length s \<le> length t" if t: "t \<noteq> []" "twos_val t = twos_val s" for t
      proof (rule ccontr)
        assume "\<not> length s \<le> length t"
        then have "length t - 1 \<le> length cs" unfolding 3 by simp
        then have "(256::int) ^ (length t - 1) \<le> 256 ^ length cs" by (intro power_increasing) simp_all
        then show False
          using twos_val_range [OF t(1)] twos_val_large [OF False, of cs] t(2) unfolding 3 by linarith
      qed
      then show ?thesis using False by (auto simp: 3 valid_integer_simps twos_val_neg_iff)
    qed
  qed (auto simp: valid_integer_simps twos_val_neg_iff Suc_le_eq)
qed

lemma valid_integer_sign:
  "CBS_is_valid_asn1_integer c = None \<or> CBS_is_valid_asn1_integer c = Some (twos_val c < 0)"
  using valid_asn1_integer_iff [of c] by (cases "CBS_is_valid_asn1_integer c") auto

lemma push_or_ucast_8: "push_bit 8 v OR ucast (b :: byte) = (v * 256 + ucast b :: u64)"
  using push_or_ucast [where 'a = 64, of 8 v b] by simp

lemma asn1_uint64_loop_iff:
  "asn1_uint64_loop v bs = Some w \<longleftrightarrow> unat w = unat v * 256 ^ length bs + be_val bs"
proof (induction bs arbitrary: v)
  case Nil
  then show ?case by (auto intro: word_eq_if_unat)
next
  case (Cons b bs)
  show ?case
  proof (cases "drop_bit 56 v = 0")
    case True
    then have "unat v < 72057594037927936" by (simp add: drop_bit_eq_0_iff_unat)
    then have lt: "unat v * 256 + unat b < 18446744073709551616"
      using unat_byte_bound [of b] by linarith
    have "unat (push_bit 8 v OR ucast b) = unat v * 256 + unat b"
      unfolding push_or_ucast_8 using lt by (simp add: unat_word_ariths mod_simps)
    then show ?thesis using True Cons.IH by (simp add: algebra_simps)
  next
    case False
    then have "2 ^ 56 \<le> unat v" by (simp add: drop_bit_eq_0_iff_unat)
    have e: "(18446744073709551616::nat) = 2 ^ 56 * 256 ^ 1" by simp
    have "18446744073709551616 \<le> unat v * (256::nat) ^ length (b # bs)"
      unfolding e using \<open>2 ^ 56 \<le> unat v\<close> by (intro mult_le_mono power_increasing) simp_all
    then have "unat w \<noteq> unat v * 256 ^ length (b # bs) + be_val (b # bs)"
      using unat_u64_bound [of w] by linarith
    then show ?thesis using False by simp
  qed
qed

theorem CBS_get_asn1_uint64_iff:
  "CBS_get_asn1_uint64 s = (Some v, r) \<longleftrightarrow>
   (\<exists>c. s = der_enc CBS_ASN1_INTEGER c @ r \<and> length c < 2 ^ 32 \<and>
        CBS_is_valid_asn1_integer c \<noteq> None \<and> twos_val c = uint v)"
proof -
  have ok: "tag_ok CBS_ASN1_INTEGER"
    by (simp add: tag_ok_def CBS_ASN1_INTEGER_def CBS_ASN1_CONSTRUCTED_def)
  have core: "CBS_is_unsigned_asn1_integer c \<and> asn1_uint64_loop 0 c = Some v \<longleftrightarrow>
      CBS_is_valid_asn1_integer c \<noteq> None \<and> twos_val c = uint v" for c
  proof -
    have "CBS_is_valid_asn1_integer c = Some neg \<Longrightarrow> neg = (twos_val c < 0)" for neg
      using valid_asn1_integer_iff by blast
    moreover have "\<not> twos_val c < 0 \<Longrightarrow> twos_val c = int (be_val c)"
      unfolding twos_val_neg_iff by (simp add: twos_val_def)
    moreover have "unat v = be_val c \<longleftrightarrow> uint v = int (be_val c)"
      unfolding uint_nat by (rule of_nat_eq_iff [symmetric])
    moreover have "0 \<le> uint v" by simp
    moreover have "asn1_uint64_loop 0 c = Some v \<longleftrightarrow> unat v = be_val c"
      by (simp add: asn1_uint64_loop_iff)
    ultimately show ?thesis
      unfolding CBS_is_unsigned_asn1_integer_def
      by (metis linorder_not_less not_None_eq option.inject)
  qed
  have "CBS_get_asn1_uint64 s = (Some v, r) \<longleftrightarrow>
      (\<exists>c. CBS_get_asn1 s CBS_ASN1_INTEGER = (Some c, r) \<and>
         CBS_is_unsigned_asn1_integer c \<and> asn1_uint64_loop 0 c = Some v)"
    by (auto simp: CBS_get_asn1_uint64_def split: prod.splits option.splits)
  also have "\<dots> \<longleftrightarrow> (\<exists>c. CBS_get_asn1 s CBS_ASN1_INTEGER = (Some c, r) \<and>
      CBS_is_valid_asn1_integer c \<noteq> None \<and> twos_val c = uint v)"
    using core by blast
  finally show ?thesis using ok by (auto simp: CBS_get_asn1_iff)
qed

lemma load_u64_be:
  assumes "length p = 8"
  shows "CRYPTO_load_u64_be p = be_accum 0 p"
  using assms by (elim length_8E) (simp add: CRYPTO_load_u64_be_def bswap8_be del: be_accum.simps)

lemma be_val_replicate_ff: "int (be_val (replicate n 0xff)) = 256 ^ n - 1"
  by (induction n) simp_all

lemma be_val_replicate_0: "be_val (replicate n 0 @ bs) = be_val bs"
  by (induction n) simp_all

text \<open>The eight sign-extended bytes hold the value modulo \<open>2 ^ 64\<close>.\<close>

lemma sign_extend_value:
  assumes c: "c \<noteq> []" "length c \<le> 8"
  shows "sint (CRYPTO_load_u64_be (take (8 - length c) (replicate 8 (if twos_val c < 0 then 0xff else 0)) @ c))
    = twos_val c" (is "sint (CRYPTO_load_u64_be ?p) = _")
proof -
  let ?f = "if twos_val c < 0 then 0xff else 0 :: byte"
  have p: "?p = replicate (8 - length c) ?f @ c" by simp
  have "length ?p = 8" using c by simp
  then have u: "unat (CRYPTO_load_u64_be ?p) = be_val ?p" by (simp only: load_u64_be unat_be_accum_0)
  have pow: "(256::int) ^ (8 - length c) * 256 ^ length c = 2 ^ 64"
    using c(2) by (simp flip: power_add)
  have v: "int (be_val ?p) = (if twos_val c < 0 then twos_val c + 2 ^ 64 else twos_val c)"
  proof (cases "twos_val c < 0")
    case True
    then have tv: "twos_val c = int (be_val c) - 256 ^ length c"
      unfolding twos_val_neg_iff by (simp add: twos_val_def)
    have "int (be_val ?p) = (256 ^ (8 - length c) - 1) * 256 ^ length c + int (be_val c)"
      unfolding p using True by (simp only: if_True be_val_append of_nat_add of_nat_mult of_nat_power
          be_val_replicate_ff) simp
    also have "\<dots> = twos_val c + 2 ^ 64" unfolding tv using pow by (simp add: algebra_simps)
    finally show ?thesis using True by (simp only: if_True)
  next
    case False
    then have tv: "twos_val c = int (be_val c)"
      unfolding twos_val_neg_iff by (simp add: twos_val_def)
    then show ?thesis unfolding p using False by (simp only: if_False be_val_replicate_0)
  qed
  have "- (2 ^ 63) \<le> twos_val c \<and> twos_val c < 2 ^ 63"
  proof -
    have "(256::int) ^ (length c - 1) \<le> 256 ^ 7" using c(2) by (intro power_increasing) simp_all
    then show ?thesis using twos_val_range [OF c(1)] by simp
  qed
  then have st: "signed_take_bit 63 (twos_val c) = twos_val c"
    by (intro signed_take_bit_int_eq_self) simp_all
  have "CRYPTO_load_u64_be ?p = word_of_int (int (be_val ?p))"
    using u by (metis of_int_of_nat_eq of_nat_unat ucast_id)
  also have "\<dots> = word_of_int (twos_val c)" unfolding v by simp
  finally show ?thesis using st by (simp add: sint_sbintrunc')
qed

lemma twos_val_be_bytes_8: "twos_val (be_bytes 8 (unat (v :: u64))) = sint v"
proof -
  let ?t = "be_bytes 8 (unat v)"
  have b: "be_val ?t = unat v" by (intro be_val_be_bytes_id) simp
  have "CRYPTO_load_u64_be ?t = v"
    using b by (intro word_eq_if_unat) (simp only: load_u64_be length_be_bytes unat_be_accum_0)
  then show ?thesis using sign_extend_value [of ?t] by (simp flip: length_0_conv)
qed

theorem CBS_get_asn1_int64_iff:
  "CBS_get_asn1_int64 s = (Some v, r) \<longleftrightarrow>
   (\<exists>c. s = der_enc CBS_ASN1_INTEGER c @ r \<and> length c < 2 ^ 32 \<and>
        CBS_is_valid_asn1_integer c \<noteq> None \<and> twos_val c = sint v)"
proof -
  have ok: "tag_ok CBS_ASN1_INTEGER"
    by (simp add: tag_ok_def CBS_ASN1_INTEGER_def CBS_ASN1_CONSTRUCTED_def)
  let ?load = "\<lambda>c. CRYPTO_load_u64_be (take (8 - length c)
      (replicate 8 (if twos_val c < 0 then 0xff else 0)) @ c)"
  have core: "length c \<le> 8 \<and> ?load c = v \<longleftrightarrow> twos_val c = sint v"
    if val: "CBS_is_valid_asn1_integer c \<noteq> None" for c
  proof -
    obtain neg where neg: "CBS_is_valid_asn1_integer c = Some neg" using val by blast
    then have c: "c \<noteq> []" and minimal: "\<And>t. t \<noteq> [] \<Longrightarrow> twos_val t = twos_val c \<Longrightarrow> length c \<le> length t"
      by (auto simp: valid_asn1_integer_iff)
    show ?thesis
    proof
      assume "length c \<le> 8 \<and> ?load c = v"
      then show "twos_val c = sint v" using sign_extend_value [OF c] by simp
    next
      assume tv: "twos_val c = sint v"
      let ?t = "be_bytes 8 (unat v)"
      have "length c \<le> length ?t" using tv twos_val_be_bytes_8 [of v] by (intro minimal) (auto simp flip: length_0_conv)
      then have l: "length c \<le> 8" by simp
      then have "sint (?load c) = sint v" using sign_extend_value [OF c l] tv by simp
      then show "length c \<le> 8 \<and> ?load c = v" using l by (simp add: signed_word_eqI)
    qed
  qed
  have "CBS_get_asn1_int64 s = (Some v, r) \<longleftrightarrow>
      (\<exists>c. CBS_get_asn1 s CBS_ASN1_INTEGER = (Some c, r) \<and>
         CBS_is_valid_asn1_integer c \<noteq> None \<and> length c \<le> 8 \<and> ?load c = v)"
  proof (cases "CBS_get_asn1 s CBS_ASN1_INTEGER")
    case (Pair o1 s1)
    show ?thesis
    proof (cases o1)
      case None
      then show ?thesis using Pair by (simp add: CBS_get_asn1_int64_def)
    next
      case (Some c)
      show ?thesis
        using valid_integer_sign [of c] unfolding CBS_get_asn1_int64_def Pair Some Let_def
        by (elim disjE) auto
    qed
  qed
  also have "\<dots> \<longleftrightarrow> (\<exists>c. CBS_get_asn1 s CBS_ASN1_INTEGER = (Some c, r) \<and>
      CBS_is_valid_asn1_integer c \<noteq> None \<and> twos_val c = sint v)"
    using core by blast
  finally show ?thesis using ok by (auto simp: CBS_get_asn1_iff)
qed

section \<open>Booleans, object identifiers and bit strings\<close>

lemma CBS_get_asn1_bool_iff:
  "CBS_get_asn1_bool s = (Some v, r) \<longleftrightarrow>
   s = der_enc CBS_ASN1_BOOLEAN [if v then 0xff else 0] @ r"
proof -
  have ok: "tag_ok CBS_ASN1_BOOLEAN"
    by (simp add: tag_ok_def CBS_ASN1_BOOLEAN_def CBS_ASN1_CONSTRUCTED_def)
  have "CBS_get_asn1_bool s = (Some v, r) \<longleftrightarrow>
      (\<exists>c. CBS_get_asn1 s CBS_ASN1_BOOLEAN = (Some c, r) \<and> c = [if v then 0xff else 0])"
    by (auto simp: CBS_get_asn1_bool_def Let_def length_Suc_conv split: prod.splits option.splits)
  then show ?thesis using ok by (auto simp: CBS_get_asn1_iff)
qed

text \<open>The shape of a minimal base-128 encoding, of a number of any size.\<close>

lemma base128_high_bytes: "b \<in> set (base128_high n) \<Longrightarrow> 128 \<le> unat b"
proof (induction n rule: base128_high.induct)
  case (1 n)
  show ?case
  proof (cases "n = 0")
    case False
    have "unat (word_of_nat (128 + n mod 128) :: byte) = 128 + n mod 128"
      by (rule unat_high_digit)
    then show ?thesis using 1 False by (subst (asm) base128_high.simps) (auto split: if_splits)
  qed (use 1 in simp)
qed

lemma hd_base128_high: "n \<noteq> 0 \<Longrightarrow> base128_high n \<noteq> [] \<and> hd (base128_high n) \<noteq> 0x80"
proof (induction n rule: base128_high.induct)
  case (1 n)
  show ?case
  proof (cases "n div 128 = 0")
    case True
    then have "n < 128" by simp
    then have "unat (word_of_nat (128 + n mod 128) :: byte) \<noteq> unat (0x80 :: byte)"
      using unat_high_digit [of n] 1 by simp
    then show ?thesis using 1 True by (subst (1 2) base128_high.simps) auto
  next
    case False
    then show ?thesis using 1 by (subst (1 2) base128_high.simps) (auto simp: hd_append)
  qed
qed

lemma base128_high_surj:
  "(\<forall>x\<in>set xs. 128 \<le> unat x) \<Longrightarrow> (xs \<noteq> [] \<longrightarrow> hd xs \<noteq> 0x80) \<Longrightarrow>
   \<exists>v. base128_high v = xs \<and> (v = 0 \<longleftrightarrow> xs = [])"
proof (induction xs rule: rev_induct)
  case Nil
  then show ?case by (intro exI [of _ 0]) simp
next
  case (snoc b xs)
  then obtain v where v: "base128_high v = xs" "v = 0 \<longleftrightarrow> xs = []"
    by (cases "xs = []") (auto simp: hd_append)
  have b: "128 \<le> unat b" "unat b < 256" using snoc.prems by auto
  have d: "unat b - 128 < 128" using b by linarith
  have nz: "v \<noteq> 0 \<or> unat b - 128 \<noteq> 0"
  proof (cases "xs = []")
    case True
    then have "b \<noteq> 0x80" using snoc.prems by simp
    then have "unat b \<noteq> 128" using word_eq_if_unat [of b "0x80"] by auto
    then show ?thesis using b by simp
  qed (use v in simp)
  have "(word_of_nat (128 + (unat b - 128)) :: byte) = b"
  proof (rule word_eq_if_unat)
    show "unat (word_of_nat (128 + (unat b - 128)) :: byte) = unat b"
      by (rule trans [OF unat_byte_of_nat]) (use b in linarith)+
  qed
  then have "base128_high (v * 128 + (unat b - 128)) = xs @ [b]"
    using base128_high_step [OF d nz] v(1) by simp
  moreover have "v * 128 + (unat b - 128) \<noteq> 0" using nz by (metis add_is_0 mult_is_0 zero_neq_numeral)
  ultimately show ?case by (intro exI [of _ "v * 128 + (unat b - 128)"]) simp
qed

lemma base128_enc_shape:
  "(\<exists>m. c = base128_enc m) \<longleftrightarrow>
   (\<exists>xs y. c = xs @ [y] \<and> (\<forall>x\<in>set xs. 128 \<le> unat x) \<and> unat y < 128 \<and> (xs \<noteq> [] \<longrightarrow> hd xs \<noteq> 0x80))"
proof
  assume "\<exists>m. c = base128_enc m"
  then obtain m where m: "c = base128_high (m div 128) @ [word_of_nat (m mod 128)]"
    by (auto simp: base128_enc_def)
  have "unat (word_of_nat (m mod 128) :: byte) < 128"
    by (subst unat_byte_of_nat) (simp_all add: less_le_trans [of _ 128])
  then show "\<exists>xs y. c = xs @ [y] \<and> (\<forall>x\<in>set xs. 128 \<le> unat x) \<and> unat y < 128 \<and> (xs \<noteq> [] \<longrightarrow> hd xs \<noteq> 0x80)"
    using m base128_high_bytes hd_base128_high [of "m div 128"]
    by (intro exI [of _ "base128_high (m div 128)"] exI [of _ "word_of_nat (m mod 128)"])
      (metis base128_high_0)
next
  assume "\<exists>xs y. c = xs @ [y] \<and> (\<forall>x\<in>set xs. 128 \<le> unat x) \<and> unat y < 128 \<and> (xs \<noteq> [] \<longrightarrow> hd xs \<noteq> 0x80)"
  then obtain xs y where c: "c = xs @ [y]" "unat y < 128"
    and xs: "\<forall>x\<in>set xs. 128 \<le> unat x" "xs \<noteq> [] \<longrightarrow> hd xs \<noteq> 0x80" by blast
  obtain v where "base128_high v = xs" using base128_high_surj [OF xs] by blast
  moreover have "(v * 128 + unat y) div 128 = v" "(v * 128 + unat y) mod 128 = unat y"
    using c(2) by simp_all
  ultimately have "base128_enc (v * 128 + unat y) = c"
    unfolding base128_enc_def by (simp add: c(1))
  then show "\<exists>m. c = base128_enc m" by metis
qed

definition oid_body :: "byte list \<Rightarrow> bool" where
  "oid_body s \<longleftrightarrow> (\<exists>ms. s = concat (map base128_enc ms))"

lemma oid_body_Nil [simp]: "oid_body []"
  unfolding oid_body_def by (intro exI [of _ "[]"]) simp

lemma oid_body_app: "oid_body t \<Longrightarrow> oid_body (base128_enc m @ t)"
  unfolding oid_body_def by (metis concat.simps(2) list.simps(9))

text \<open>The rest of an integer whose first octets are already read, then whole integers.\<close>

definition oid_mid :: "byte list \<Rightarrow> bool" where
  "oid_mid s \<longleftrightarrow> (\<exists>xs y t. s = xs @ y # t \<and> (\<forall>x\<in>set xs. 128 \<le> unat x) \<and> unat y < 128 \<and> oid_body t)"

lemma oid_mid_Nil [simp]: "\<not> oid_mid []"
  by (simp add: oid_mid_def)

lemma oid_mid_Cons: "oid_mid (v # s) \<longleftrightarrow> (if unat v < 128 then oid_body s else oid_mid s)"
proof
  assume "oid_mid (v # s)"
  then obtain xs y t where e: "v # s = xs @ y # t" "\<forall>x\<in>set xs. 128 \<le> unat x" "unat y < 128" "oid_body t"
    by (auto simp: oid_mid_def)
  then show "if unat v < 128 then oid_body s else oid_mid s"
    by (cases xs) (auto simp: oid_mid_def)
next
  assume a: "if unat v < 128 then oid_body s else oid_mid s"
  show "oid_mid (v # s)"
  proof (cases "unat v < 128")
    case True
    then show ?thesis using a unfolding oid_mid_def by (intro exI [of _ "[]"]) auto
  next
    case False
    then obtain xs y t where "s = xs @ y # t" "\<forall>x\<in>set xs. 128 \<le> unat x" "unat y < 128" "oid_body t"
      using a by (auto simp: oid_mid_def)
    then show ?thesis using False unfolding oid_mid_def by (intro exI [of _ "v # xs"]) auto
  qed
qed

lemma oid_body_Cons: "oid_body (v # s) \<longleftrightarrow> v \<noteq> 0x80 \<and> (if unat v < 128 then oid_body s else oid_mid s)"
proof
  assume "oid_body (v # s)"
  then obtain m ms where e: "v # s = base128_enc m @ concat (map base128_enc ms)"
    unfolding oid_body_def by (metis concat.simps list.distinct(1) list.exhaust list.simps(8,9))
  obtain xs y where m: "base128_enc m = xs @ [y]" "\<forall>x\<in>set xs. 128 \<le> unat x" "unat y < 128"
      "xs \<noteq> [] \<longrightarrow> hd xs \<noteq> 0x80"
    using base128_enc_shape [of "base128_enc m"] by blast
  have t: "oid_body (concat (map base128_enc ms))" by (auto simp: oid_body_def)
  show "v \<noteq> 0x80 \<and> (if unat v < 128 then oid_body s else oid_mid s)"
  proof (cases xs)
    case Nil
    then have "v = y" "s = concat (map base128_enc ms)" using e m(1) by simp_all
    then show ?thesis using m(3) t by auto
  next
    case (Cons x xs')
    then have "v = x" "s = xs' @ y # concat (map base128_enc ms)" using e m(1) by simp_all
    then show ?thesis using m Cons t by (auto simp: oid_mid_def)
  qed
next
  assume a: "v \<noteq> 0x80 \<and> (if unat v < 128 then oid_body s else oid_mid s)"
  show "oid_body (v # s)"
  proof (cases "unat v < 128")
    case True
    then obtain m where "[v] = base128_enc m" using base128_enc_shape [of "[v]"] by auto
    then show ?thesis using a True oid_body_app [of s m] by (metis append_Cons append_Nil)
  next
    case False
    then obtain xs y t where s: "s = xs @ y # t" "\<forall>x\<in>set xs. 128 \<le> unat x" "unat y < 128" "oid_body t"
      using a by (auto simp: oid_mid_def)
    have "\<exists>m. (v # xs) @ [y] = base128_enc m"
      unfolding base128_enc_shape using a False s by (intro exI [of _ "v # xs"] exI [of _ y]) auto
    then obtain m where "(v # xs) @ [y] = base128_enc m" ..
    then show ?thesis using oid_body_app [OF s(4), of m] s(1) by (metis append.assoc append_Cons append_Nil)
  qed
qed

lemma asn1_oid_loop_iff:
  "asn1_oid_loop prev s \<longleftrightarrow> (if unat prev < 128 then oid_body s else oid_mid s)"
  by (induction s arbitrary: prev) (auto simp: and_80 oid_body_Cons oid_mid_Cons)

theorem CBS_is_valid_asn1_oid_iff:
  "CBS_is_valid_asn1_oid s \<longleftrightarrow> s \<noteq> [] \<and> (\<exists>ms. s = concat (map base128_enc ms))"
  using asn1_oid_loop_iff [of 0 s] by (auto simp: CBS_is_valid_asn1_oid_def oid_body_def)


lemma and_low_bits_eq_0:
  "k \<le> 7 \<Longrightarrow> (b :: byte) AND (push_bit k 1 - 1) = 0 \<longleftrightarrow> unat b mod 2 ^ k = 0"
  by (metis mask_eq_exp_minus_1 push_bit_of_1 unat_mask_and unat_eq_zero unsigned_0)

text \<open>
  Bit \<open>n\<close> of a BIT STRING is bit \<open>7 - n mod 8\<close> of octet \<open>n div 8\<close>; the first body octet counts
  the unused bits of the last one, which must be there and be zero.
\<close>

lemma CBS_is_valid_asn1_bitstring_iff:
  "CBS_is_valid_asn1_bitstring s \<longleftrightarrow>
   (\<exists>u bs. s = u # bs \<and> unat u \<le> 7 \<and> (u \<noteq> 0 \<longrightarrow> bs \<noteq> [] \<and> unat (last bs) mod 2 ^ unat u = 0))"
proof (cases s)
  case (Cons u bs)
  have "CBS_is_valid_asn1_bitstring s \<longleftrightarrow>
      unat u \<le> 7 \<and> (u \<noteq> 0 \<longrightarrow> bs \<noteq> [] \<and> unat (last bs) mod 2 ^ unat u = 0)"
    using and_low_bits_eq_0 [of "unat u" "last bs"]
    by (auto simp: Cons CBS_is_valid_asn1_bitstring_def CBS_get_last_u8_def word_less_nat_alt
        last_conv_nth not_less)
  then show ?thesis by (simp add: Cons)
qed (simp add: CBS_is_valid_asn1_bitstring_def)

lemma and_exp_neq_0: "(w :: byte) AND push_bit k 1 \<noteq> 0 \<longleftrightarrow> bit w k"
  using and_exp_eq_0_iff_not_bit [of w k] by (simp add: push_bit_of_1)

lemma and_7_u32: "unat (b AND 7 :: u32) = unat b mod 8"
  using unat_mask_and [of b 3] by (simp add: mask_eq_exp_minus_1)

theorem CBS_asn1_bitstring_has_bit_iff:
  "CBS_asn1_bitstring_has_bit s n \<longleftrightarrow>
   (\<exists>u bs. s = u # bs \<and> CBS_is_valid_asn1_bitstring s \<and>
      unat n div 8 < length bs \<and> bit (bs ! (unat n div 8)) (7 - unat n mod 8))"
proof (cases "CBS_is_valid_asn1_bitstring s")
  case True
  then obtain u bs where s: "s = u # bs" by (auto simp: CBS_is_valid_asn1_bitstring_iff)
  have "unat n div 8 + 1 < 2 ^ 32"
    using less_mult_imp_div_less [of "unat n" "2 ^ 29" 8] by simp
  then have i: "unat (drop_bit 3 n + 1) = unat n div 8 + 1"
    by (simp add: unat_word_ariths unat_drop)
  have "unat n mod 8 \<le> 7" by (simp add: less_Suc_eq_le [symmetric])
  then have j: "unat (7 - (n AND 7)) = 7 - unat n mod 8"
    by (simp add: unat_sub word_le_nat_alt and_7_u32)
  show ?thesis
    using True unfolding CBS_asn1_bitstring_has_bit_def Let_def i j and_exp_neq_0 s by simp
next
  case False
  then show ?thesis by (simp add: CBS_asn1_bitstring_has_bit_def)
qed

end
