(* ===== verification/CbbDer.thy ===== *)
theory CbbDer
  imports CbbOps DerTypes
begin

text \<open>
  The ASN.1 writers of \<^verbatim>\<open>crypto/bytestring/cbb.c\<close>: integers, octet strings, booleans, object
  identifiers given as text, and the sorting of \<^verbatim>\<open>SET OF\<close> contents.  Every writer is shown to
  append the reference encoding of its value, so that the readers of \<open>DerTypes\<close> give it back.
\<close>

section \<open>The code\<close>

fun add_uint64_loop :: "nat \<Rightarrow> bool \<Rightarrow> u64 \<Rightarrow> cbb \<Rightarrow> nat \<Rightarrow> bool \<times> bool \<times> cbb" where
  "add_uint64_loop 0 started value w child = (True, started, w)"
| "add_uint64_loop (Suc k) started value w child =
     (let byte = ucast (drop_bit (8 * k) value AND 0xff) :: byte
      in if \<not> started \<and> byte = 0 then add_uint64_loop k started value w child
         else case (if \<not> started \<and> byte AND 0x80 \<noteq> 0 then CBB_add_u8 w child 0 else (True, w)) of
             (False, w1) \<Rightarrow> (False, started, w1)
           | (True, w1) \<Rightarrow> (case CBB_add_u8 w1 child byte of
               (False, w2) \<Rightarrow> (False, True, w2)
             | (True, w2) \<Rightarrow> add_uint64_loop k True value w2 child))"

definition CBB_add_asn1_uint64_with_tag :: "cbb \<Rightarrow> nat \<Rightarrow> u64 \<Rightarrow> asn1_tag \<Rightarrow> bool \<times> cbb" where
  "CBB_add_asn1_uint64_with_tag w d value tag = (case CBB_add_asn1 w d tag of
     (False, w1) \<Rightarrow> (False, cbb_on_error w1 d)
   | (True, w1) \<Rightarrow> (case add_uint64_loop 8 False value w1 (Suc d) of
       (False, started, w2) \<Rightarrow> (False, cbb_on_error w2 d)
     | (True, started, w2) \<Rightarrow> (case (if \<not> started then CBB_add_u8 w2 (Suc d) 0 else (True, w2)) of
         (False, w3) \<Rightarrow> (False, cbb_on_error w3 d)
       | (True, w3) \<Rightarrow> CBB_flush w3 d)))"

definition CBB_add_asn1_uint64 :: "cbb \<Rightarrow> nat \<Rightarrow> u64 \<Rightarrow> bool \<times> cbb" where
  "CBB_add_asn1_uint64 w d value = CBB_add_asn1_uint64_with_tag w d value CBS_ASN1_INTEGER"

text \<open>\<^verbatim>\<open>bytes\<close> is the little-endian memory of the value, as \<^verbatim>\<open>memcpy\<close> copies it.\<close>

fun int64_start :: "byte list \<Rightarrow> nat \<Rightarrow> nat" where
  "int64_start bytes 0 = 0"
| "int64_start bytes (Suc i) =
     (if bytes ! Suc i = 0xff \<and> bytes ! i AND 0x80 \<noteq> 0 then int64_start bytes i else Suc i)"

fun add_bytes_down :: "byte list \<Rightarrow> nat \<Rightarrow> cbb \<Rightarrow> nat \<Rightarrow> bool \<times> cbb" where
  "add_bytes_down bytes 0 w child = CBB_add_u8 w child (bytes ! 0)"
| "add_bytes_down bytes (Suc i) w child = (case CBB_add_u8 w child (bytes ! Suc i) of
     (False, w1) \<Rightarrow> (False, w1)
   | (True, w1) \<Rightarrow> add_bytes_down bytes i w1 child)"

definition CBB_add_asn1_int64_with_tag :: "cbb \<Rightarrow> nat \<Rightarrow> u64 \<Rightarrow> asn1_tag \<Rightarrow> bool \<times> cbb" where
  "CBB_add_asn1_int64_with_tag w d value tag =
     (if 0 \<le> sint value then CBB_add_asn1_uint64_with_tag w d value tag
      else let bytes = rev (be_bytes 8 (unat value));
               start = int64_start bytes 7
           in case CBB_add_asn1 w d tag of
                (False, w1) \<Rightarrow> (False, cbb_on_error w1 d)
              | (True, w1) \<Rightarrow> (case add_bytes_down bytes start w1 (Suc d) of
                  (False, w2) \<Rightarrow> (False, cbb_on_error w2 d)
                | (True, w2) \<Rightarrow> CBB_flush w2 d))"

definition CBB_add_asn1_int64 :: "cbb \<Rightarrow> nat \<Rightarrow> u64 \<Rightarrow> bool \<times> cbb" where
  "CBB_add_asn1_int64 w d value = CBB_add_asn1_int64_with_tag w d value CBS_ASN1_INTEGER"

definition CBB_add_asn1_octet_string :: "cbb \<Rightarrow> nat \<Rightarrow> byte list \<Rightarrow> bool \<times> cbb" where
  "CBB_add_asn1_octet_string w d data = (case CBB_add_asn1 w d CBS_ASN1_OCTETSTRING of
     (False, w1) \<Rightarrow> (False, cbb_on_error w1 d)
   | (True, w1) \<Rightarrow> (case CBB_add_bytes w1 (Suc d) data of
       (False, w2) \<Rightarrow> (False, cbb_on_error w2 d)
     | (True, w2) \<Rightarrow> (case CBB_flush w2 d of
         (False, w3) \<Rightarrow> (False, cbb_on_error w3 d)
       | (True, w3) \<Rightarrow> (True, w3))))"

definition CBB_add_asn1_bool :: "cbb \<Rightarrow> nat \<Rightarrow> bool \<Rightarrow> bool \<times> cbb" where
  "CBB_add_asn1_bool w d value = (case CBB_add_asn1 w d CBS_ASN1_BOOLEAN of
     (False, w1) \<Rightarrow> (False, cbb_on_error w1 d)
   | (True, w1) \<Rightarrow> (case CBB_add_u8 w1 (Suc d) (if value then 0xff else 0) of
       (False, w2) \<Rightarrow> (False, cbb_on_error w2 d)
     | (True, w2) \<Rightarrow> (case CBB_flush w2 d of
         (False, w3) \<Rightarrow> (False, cbb_on_error w3 d)
       | (True, w3) \<Rightarrow> (True, w3))))"

definition parse_dotted_decimal :: "cbs \<Rightarrow> u64 option \<times> cbs" where
  "parse_dotted_decimal s = (case CBS_get_u64_decimal s of
     (None, s1) \<Rightarrow> (None, s1)
   | (Some v, s1) \<Rightarrow> (case CBS_get_u8 s1 of
       (None, s2) \<Rightarrow> (Some v, s2)
     | (Some dot, s2) \<Rightarrow> if dot = 0x2e \<and> s2 \<noteq> [] then (Some v, s2) else (None, s2)))"

section \<open>Elements\<close>

text \<open>The common shape of the writers: open an element, write its contents, close it.\<close>

definition element_op ::
    "(cbb \<Rightarrow> nat \<Rightarrow> 'v \<Rightarrow> bool \<times> cbb) \<Rightarrow> asn1_tag \<Rightarrow> cbb \<Rightarrow> nat \<Rightarrow> 'v \<Rightarrow> bool \<times> cbb" where
  "element_op add tag w d v = (case CBB_add_asn1 w d tag of
     (False, w1) \<Rightarrow> (False, cbb_on_error w1 d)
   | (True, w1) \<Rightarrow> (case add w1 (Suc d) v of
       (False, w2) \<Rightarrow> (False, cbb_on_error w2 d)
     | (True, w2) \<Rightarrow> (case CBB_flush w2 d of
         (False, w3) \<Rightarrow> (False, cbb_on_error w3 d)
       | (True, w3) \<Rightarrow> (True, w3))))"

lemma wf_cbb_on_error: "wf_cbb w \<Longrightarrow> wf_cbb (cbb_on_error w d)"
  using start_at_bounds [of 0 "cbb_chain w" "bb_len (cbb_base w)" d]
  by (auto simp: wf_cbb_def cbb_on_error_def intro: wf_chain_take)

lemma locked_on_error: "wf_cbb w' \<Longrightarrow> locked w d (cbb_on_error w' d)"
  using wf_cbb_on_error [of w' d] by (simp add: locked_def) (simp add: cbb_on_error_def)

lemma locked_wf: "locked w d w' \<Longrightarrow> wf_cbb w'"
  by (simp add: locked_def)

lemma CBB_add_asn1_error: "bb_error (cbb_base w) \<Longrightarrow> \<not> fst (CBB_add_asn1 w d tag)"
  by (simp add: CBB_add_asn1_def CBB_flush_error)

lemma CBB_add_asn1_total:
  assumes "wf_cbb w" and "roomy w d (length (tag_enc tag) + 1)"
  shows "\<exists>w'. CBB_add_asn1 w d tag = (True, w') \<and> bb_len (cbb_base w') = flushed_len w d + length (tag_enc tag) + 1"
proof -
  have "roomy w d (length (tag_enc tag))" using assms(2) by (simp add: roomy_def)
  then obtain w1 where t: "add_tag w d tag = (True, w1)" using tag_writer.add_total [OF assms(1) TrueI] by blast
  note s = tag_writer.add_True [OF assms(1) TrueI t]
  have r: "roomy w1 d 1" by (rule roomy_after [OF assms(2)]) (use s in simp_all)
  obtain w2 where "CBB_flush w1 d = (True, w2)" "bb_len (cbb_base w2) = flushed_len w1 d"
    using CBB_flush_total [OF _ r] s by (auto simp: succeeds_def)
  moreover have "CBB_flush w1 d = (True, w1)" using s by (simp add: CBB_flush_def succeeds_def)
  ultimately have len: "bb_len (cbb_base w1) = flushed_len w1 d" by simp
  have "\<exists>w'. cbb_add_child w1 d 1 True = (True, w')"
    by (rule cbb_add_child_total) (use r len in \<open>simp_all add: roomy_def\<close>)
  then obtain w' where ad: "cbb_add_child w1 d 1 True = (True, w')" ..
  then have "bb_len (cbb_base w') = bb_len (cbb_base w1) + 1"
    using s buffer_add_True(2) [of "cbb_alloc w1" "cbb_base w1" 1]
    by (auto simp: cbb_add_child_def Let_def SIZE_MOD_def succeeds_def wf_cbb_def split: prod.splits bool.splits)
  then show ?thesis
    using ad t len flushed_len_append [of w d w1 "tag_enc tag"] s
    by (simp add: CBB_add_asn1_split [OF assms(1)])
qed

lemma opened_start:
  assumes "wf_cbb w" and "length (cbb_chain w) = Suc d" and "snd (cbb_abs w) ! Suc d = []"
  shows "start_at 0 (cbb_chain w) (Suc d) = bb_len (cbb_base w)"
proof -
  have "frames (start_at 0 (cbb_chain w) (Suc d)) (written (cbb_base w)) (drop (Suc d) (cbb_chain w)) =
      drop (Suc d) (frames 0 (written (cbb_base w)) (cbb_chain w))"
    by (rule frames_drop) (simp add: assms(2))
  also have "\<dots> = [snd (cbb_abs w) ! Suc d]"
    using assms(2) Cons_nth_drop_Suc [of "Suc d" "frames 0 (written (cbb_base w)) (cbb_chain w)"]
    by (simp add: cbb_abs_def)
  finally have "drop (start_at 0 (cbb_chain w) (Suc d)) (written (cbb_base w)) = []"
    using assms(2,3) by simp
  then show ?thesis
    using start_at_bounds [of 0 "cbb_chain w" "bb_len (cbb_base w)" "Suc d"] assms(1)
    by (simp add: wf_cbb_def)
qed

text \<open>What opening, writing and closing an element amounts to for the abstract builder.\<close>

lemma bd_element:
  assumes "d \<le> length (fst bd)" and "length (snd bd) = Suc (length (fst bd))"
  shows "bd_flush d (bd_append (Suc d) bs (bd_open d Der_Length (bd_append d (tag_enc tag) bd))) =
    bd_append d (der_enc tag bs) bd"
  using assms by (cases bd) (simp add: bd_flush_def bd_append_def bd_open_def der_enc_def Let_def)

context cbb_writer begin

lemma element_True:
  assumes w: "wf_cbb w" and v: "okv v" and op: "element_op add tag w d v = (True, w')"
  shows "succeeds w d w' (bd_append d (der_enc tag (enc v)) (cbb_abs w)) \<and> cbb_chain w' = take d (cbb_chain w)"
proof -
  obtain w1 w2 where a: "CBB_add_asn1 w d tag = (True, w1)" and c: "add w1 (Suc d) v = (True, w2)"
    and f: "CBB_flush w2 d = (True, w')"
    using op by (auto simp: element_op_def split: prod.splits bool.splits)
  note o = CBB_add_asn1_opens [OF a w, unfolded opens_def succeeds_def]
  then have w1: "wf_cbb w1" by simp
  note s = add_True [OF w1 v c, unfolded succeeds_def]
  then have w2: "wf_cbb w2" by simp
  note t = CBB_flush_True [OF f w2, unfolded succeeds_def]
  have "cbb_abs w' = bd_append d (der_enc tag (enc v)) (cbb_abs w)"
    using o s t bd_element [of d "cbb_abs w" "enc v" tag] by (simp add: chain_of_abs)
  moreover have "take d (cbb_chain w2) = take d (cbb_chain w)"
    using o s by (metis min.absorb1 take_take le_SucI order_refl)
  ultimately show ?thesis using o s t by (simp add: succeeds_def)
qed

lemma element_False:
  assumes w: "wf_cbb w" and v: "okv v" and op: "element_op add tag w d v = (False, w')"
  shows "locked w d w'"
proof -
  obtain ok w1 where a: "CBB_add_asn1 w d tag = (ok, w1)" by (cases "CBB_add_asn1 w d tag")
  show ?thesis
  proof (cases ok)
    case False
    then show ?thesis
      using CBB_add_asn1_False [of w d tag w1] w a op
      by (auto simp: element_op_def intro: locked_on_error dest: locked_wf)
  next
    case True
    then have w1: "wf_cbb w1" using CBB_add_asn1_opens [OF _ w] a by (auto simp: opens_def succeeds_def)
    obtain ok2 w2 where c: "add w1 (Suc d) v = (ok2, w2)" by (cases "add w1 (Suc d) v")
    have w2: "wf_cbb w2"
      using add_True [OF w1 v, of "Suc d" w2] add_False [OF w1 v, of "Suc d" w2] c by (cases ok2) (auto simp: succeeds_def dest: locked_wf)
    obtain ok3 w3 where f: "CBB_flush w2 d = (ok3, w3)" by (cases "CBB_flush w2 d")
    have "wf_cbb w3"
      using CBB_flush_True [of w2 d w3] CBB_flush_False [of w2 d w3] f w2
      by (cases ok3) (auto simp: succeeds_def dest: locked_wf)
    then show ?thesis
      using op a True c f w2 by (auto simp: element_op_def intro: locked_on_error split: bool.splits)
  qed
qed

lemma element_total:
  assumes w: "wf_cbb w" and v: "okv v" "length (enc v) \<le> 0xfffffffe"
    and r: "roomy w d (length (der_enc tag (enc v)))"
  shows "\<exists>w'. element_op add tag w d v = (True, w')"
proof -
  have len: "length (der_enc tag (enc v)) = length (tag_enc tag) + length (len_enc (length (enc v))) + length (enc v)"
    by (simp add: der_enc_def)
  have ge: "1 \<le> length (len_enc (length (enc v)))" by (simp add: len_enc_def)
  have "roomy w d (length (tag_enc tag) + 1)" using r len ge by (simp add: roomy_def)
  then obtain w1 where a: "CBB_add_asn1 w d tag = (True, w1)"
    and l1: "bb_len (cbb_base w1) = flushed_len w d + length (tag_enc tag) + 1"
    using CBB_add_asn1_total [OF w] by blast
  note o = CBB_add_asn1_opens [OF a w, unfolded opens_def succeeds_def]
  then have w1: "wf_cbb w1" and ch1: "length (cbb_chain w1) = Suc d"
    and base1: "\<not> bb_error (cbb_base w1)" "bb_can_resize (cbb_base w1) = bb_can_resize (cbb_base w)"
      "cbb_alloc w1 = cbb_alloc w" by simp_all
  obtain ks cs where abs: "cbb_abs w = (ks, cs)" by (cases "cbb_abs w")
  have d: "d \<le> length ks" "length cs = Suc (length ks)" using o chain_of_abs [of w] abs by simp_all
  let ?x = "collapse (drop d ks) (drop d cs)"
  have abs1: "cbb_abs w1 = (take d ks @ [Der_Length], take d cs @ [?x @ tag_enc tag, []])"
    using o abs d by (simp add: bd_open_def bd_append_def bd_flush_def)
  have "start_at 0 (cbb_chain w1) (Suc d) = bb_len (cbb_base w1)"
    by (rule opened_start [OF w1 ch1]) (use abs1 d in \<open>simp add: nth_append\<close>)
  then have fl1: "flushed_len w1 (Suc d) = bb_len (cbb_base w1)"
    using abs1 d by (simp add: flushed_len_def)
  have r1: "roomy w1 (Suc d) (length (enc v))"
  proof -
    have "collapse_fits (drop (Suc d) (fst (cbb_abs w1))) (drop (Suc d) (snd (cbb_abs w1)))"
      unfolding abs1 using d by simp
    then show ?thesis using r base1 fl1 l1 len ge ch1 by (simp add: roomy_def)
  qed
  then obtain w2 where c: "add w1 (Suc d) v = (True, w2)" using add_total [OF w1 v(1)] by blast
  note s = add_True [OF w1 v(1) c, unfolded succeeds_def]
  have abs2: "cbb_abs w2 = (take d ks @ [Der_Length], take d cs @ [?x @ tag_enc tag, enc v])"
    using s abs1 d by (simp add: bd_append_def)
  have "start_at 0 (cbb_chain w2) d = start_at 0 (cbb_chain w) d"
    using o s ch1 by (metis start_at_take take_all order_refl)
  then have fl2: "flushed_len w2 d = flushed_len w d + length (der_enc tag (enc v))"
    using abs abs2 d len by (simp add: flushed_len_def Let_def)
  then have r2: "roomy w2 d 0"
  proof -
    have "collapse_fits (drop d (fst (cbb_abs w2))) (drop d (snd (cbb_abs w2)))"
      unfolding abs2 using d v(2) by simp
    moreover have "d \<le> length (cbb_chain w2)" using s ch1 by simp
    ultimately show ?thesis using r base1 s fl2 by (simp add: roomy_def)
  qed
  then obtain w3 where "CBB_flush w2 d = (True, w3)" using CBB_flush_total [OF _ r2] s by blast
  then show ?thesis using a c by (simp add: element_op_def)
qed

lemma element_writer:
  "cbb_writer (element_op add tag) (\<lambda>v. der_enc tag (enc v)) (\<lambda>v. okv v \<and> length (enc v) \<le> 0xfffffffe)"
proof
  show "\<not> fst (element_op add tag w d v)" if "bb_error (cbb_base w)" for w d v
    using CBB_add_asn1_error [OF that, of d tag] by (auto simp: element_op_def split: prod.split bool.split)
qed (use element_True element_False element_total in blast)+

end

section \<open>Integer bodies\<close>

lemma be_bytes_Cons: "be_bytes (Suc k) v = word_of_nat (v div 256 ^ k) # be_bytes k v"
proof (induction k arbitrary: v)
  case 0
  show ?case by (simp, rule word_eq_if_unat) (simp only: unat_of_nat, simp)
next
  case (Suc k)
  have "be_bytes (Suc (Suc k)) v = be_bytes (Suc k) (v div 256) @ [word_of_nat (v mod 256)]" by simp
  also have "\<dots> = word_of_nat (v div 256 div 256 ^ k) # be_bytes k (v div 256) @ [word_of_nat (v mod 256)]"
    by (simp only: Suc append_Cons)
  finally show ?case by (simp add: div_mult2_eq)
qed

text \<open>The contents \<^verbatim>\<open>CBB_add_asn1_uint64_with_tag\<close> writes for the eight big-endian bytes of its value.\<close>

fun trim_uint :: "bool \<Rightarrow> byte list \<Rightarrow> byte list" where
  "trim_uint started [] = []"
| "trim_uint started (b # bs) =
     (if \<not> started \<and> b = 0 then trim_uint started bs
      else (if \<not> started \<and> 128 \<le> unat b then [0] else []) @ b # trim_uint True bs)"

definition uint_body :: "byte list \<Rightarrow> byte list" where
  "uint_body bs = (if trim_uint False bs = [] then [0] else trim_uint False bs)"

lemma trim_uint_True [simp]: "trim_uint True bs = bs"
  by (induction bs) auto

lemma trim_uint_Nil_iff: "trim_uint False bs = [] \<longleftrightarrow> be_val bs = 0"
  by (induction bs) (auto simp: unat_gt_0)

lemma uint_body_valid: "CBS_is_valid_asn1_integer (uint_body bs) = Some False"
proof -
  have "trim_uint False bs \<noteq> [] \<Longrightarrow> CBS_is_valid_asn1_integer (trim_uint False bs) = Some False"
  proof (induction bs)
    case (Cons b bs)
    then show ?case by (cases bs) (auto simp: valid_integer_simps)
  qed simp
  then show ?thesis by (simp add: uint_body_def valid_integer_simps)
qed

lemma uint_body_val: "twos_val (uint_body bs) = int (be_val bs)"
proof -
  have "twos_val (trim_uint False bs) = int (be_val bs)"
    by (induction bs) (auto simp: twos_val_def)
  moreover have "twos_val [0] = 0" by (simp add: twos_val_def)
  ultimately show ?thesis using trim_uint_Nil_iff [of bs] by (simp add: uint_body_def)
qed

lemma uint_body_length: "length (uint_body bs) \<le> Suc (length bs)"
proof -
  have "length (trim_uint False bs) \<le> Suc (length bs)" by (induction bs) auto
  then show ?thesis by (simp add: uint_body_def)
qed

lemma write_all_append:
  "write_all add w d (xs @ ys) = (case write_all add w d xs of
     (False, w1) \<Rightarrow> (False, w1) | (True, w1) \<Rightarrow> write_all add w1 d ys)"
  by (induction xs arbitrary: w) (auto split: prod.split bool.split)

lemma uint64_octet: "ucast (drop_bit (8 * k) (value :: u64) AND 0xff) = (word_of_nat (unat value div 256 ^ k) :: byte)"
proof (rule word_eq_if_unat)
  have "unat (drop_bit (8 * k) value AND mask 8) = unat value div 256 ^ k mod 256"
    unfolding unat_mask_and unat_drop by (simp add: power_mult)
  moreover have "(0xff :: u64) = mask 8" by (simp add: mask_eq_exp_minus_1)
  ultimately show "unat (ucast (drop_bit (8 * k) value AND 0xff) :: byte) = unat (word_of_nat (unat value div 256 ^ k) :: byte)"
    by (simp add: unat_ucast_mod unat_of_nat)
qed

lemma add_uint64_loop_eq:
  "\<exists>st. add_uint64_loop k started value w c =
    (case write_all CBB_add_u8 w c (trim_uint started (be_bytes k (unat value))) of (ok, w') \<Rightarrow> (ok, st, w')) \<and>
    (fst (add_uint64_loop k started value w c) \<longrightarrow>
       st = (started \<or> trim_uint started (be_bytes k (unat value)) \<noteq> []))"
proof (induction k arbitrary: started w)
  case (Suc k)
  let ?b = "word_of_nat (unat value div 256 ^ k) :: byte"
  show ?case
  proof (cases "\<not> started \<and> ?b = 0")
    case True
    then show ?thesis
      using Suc [of started w]
      by (simp add: be_bytes_Cons uint64_octet Let_def del: be_bytes.simps)
  next
    case False
    let ?pad = "if \<not> started \<and> 128 \<le> unat ?b then CBB_add_u8 w c 0 else (True, w)"
    have hi: "?b AND 0x80 \<noteq> 0 \<longleftrightarrow> 128 \<le> unat ?b" using and_80 [of ?b] by linarith
    obtain ok1 w1 where p: "?pad = (ok1, w1)" by (cases ?pad)
    obtain ok2 w2 where q: "CBB_add_u8 w1 c ?b = (ok2, w2)" by (cases "CBB_add_u8 w1 c ?b")
    have loop: "add_uint64_loop (Suc k) started value w c =
        (if \<not> ok1 then (False, started, w1) else if \<not> ok2 then (False, True, w2) else add_uint64_loop k True value w2 c)"
      using False p q by (simp only: add_uint64_loop.simps Let_def uint64_octet hi) (auto split: bool.split)
    have wr: "write_all CBB_add_u8 w c (trim_uint started (be_bytes (Suc k) (unat value))) =
        (if \<not> ok1 then (False, w1) else if \<not> ok2 then (False, w2) else write_all CBB_add_u8 w2 c (be_bytes k (unat value)))"
      using False p q by (simp only: be_bytes_Cons trim_uint.simps) (auto split: bool.split prod.split if_splits)
    have ne: "trim_uint started (be_bytes (Suc k) (unat value)) \<noteq> []"
      using False by (simp only: be_bytes_Cons trim_uint.simps) simp
    show ?thesis
      using Suc [of True w2] unfolding loop wr using ne by (cases ok1; cases ok2) auto
  qed
qed simp

lemma CBB_flush_False_on_error:
  assumes "CBB_flush w d = (False, w')" and "\<not> bb_error (cbb_base w)" and "d \<le> length (cbb_chain w)"
  shows "cbb_on_error w' d = w'"
proof -
  obtain b below where fl: "flush_chain (cbb_alloc w) (cbb_base w) (drop d (cbb_chain w)) = (False, b, below)"
    and w': "w' = w\<lparr>cbb_base := b, cbb_chain := take d (cbb_chain w) @ below\<rparr>"
    using assms(1,3) by (auto simp: CBB_flush_def split: prod.splits)
  have "bb_error b \<and> below = []"
    using fl assms(2) by (cases "drop d (cbb_chain w)") (auto simp: Let_def split: prod.splits if_splits bool.splits)
  then show ?thesis by (simp add: w' cbb_on_error_def)
qed

text \<open>The integer writers return the result of the last flush as it is.\<close>

definition element_plain ::
    "(cbb \<Rightarrow> nat \<Rightarrow> 'v \<Rightarrow> bool \<times> cbb) \<Rightarrow> asn1_tag \<Rightarrow> cbb \<Rightarrow> nat \<Rightarrow> 'v \<Rightarrow> bool \<times> cbb" where
  "element_plain add tag w d v = (case CBB_add_asn1 w d tag of
     (False, w1) \<Rightarrow> (False, cbb_on_error w1 d)
   | (True, w1) \<Rightarrow> (case add w1 (Suc d) v of
       (False, w2) \<Rightarrow> (False, cbb_on_error w2 d)
     | (True, w2) \<Rightarrow> CBB_flush w2 d))"

lemma element_plain_error: "bb_error (cbb_base w) \<Longrightarrow> \<not> fst (element_plain add tag w d v)"
  using CBB_add_asn1_error [of w d tag] by (auto simp: element_plain_def split: prod.split bool.split)

context cbb_writer begin

lemma element_plain_eq:
  assumes "wf_cbb w" and "okv v"
  shows "element_plain add tag w d v = element_op add tag w d v"
proof -
  have "cbb_on_error w3 d = w3" if "CBB_add_asn1 w d tag = (True, w1)" "add w1 (Suc d) v = (True, w2)"
    "CBB_flush w2 d = (False, w3)" for w1 w2 w3
  proof -
    have o: "wf_cbb w1" "length (cbb_chain w1) = Suc d"
      using CBB_add_asn1_opens [OF that(1) assms(1)] by (simp_all add: opens_def succeeds_def)
    show ?thesis
      by (rule CBB_flush_False_on_error [OF that(3)])
        (use add_True [OF o(1) assms(2) that(2)] o(2) in \<open>auto simp: succeeds_def\<close>)
  qed
  then show ?thesis by (auto simp: element_plain_def element_op_def split: prod.split bool.split)
qed

end

definition uint64_body :: "u64 \<Rightarrow> byte list" where
  "uint64_body v = uint_body (be_bytes 8 (unat v))"

lemma uint_body_ne: "uint_body bs \<noteq> []"
  by (simp add: uint_body_def)

lemma CBB_add_asn1_uint64_with_tag_eq:
  "CBB_add_asn1_uint64_with_tag w d v tag =
   element_plain (\<lambda>w d (b, bs). write_all CBB_add_u8 w d (b # bs)) tag w d (hd (uint64_body v), tl (uint64_body v))"
proof -
  have body: "(case add_uint64_loop 8 False v w1 c of
       (False, started, w2) \<Rightarrow> (False, cbb_on_error w2 d)
     | (True, started, w2) \<Rightarrow> (case (if \<not> started then CBB_add_u8 w2 c 0 else (True, w2)) of
         (False, w3) \<Rightarrow> (False, cbb_on_error w3 d)
       | (True, w3) \<Rightarrow> CBB_flush w3 d)) =
     (case write_all CBB_add_u8 w1 c (uint64_body v) of
       (False, w2) \<Rightarrow> (False, cbb_on_error w2 d)
     | (True, w2) \<Rightarrow> CBB_flush w2 d)" for w1 c
  proof -
    let ?t = "trim_uint False (be_bytes 8 (unat v))"
    obtain st ok w' where l: "add_uint64_loop 8 False v w1 c = (ok, st, w')"
      and wr: "write_all CBB_add_u8 w1 c ?t = (ok, w')" and st: "ok \<Longrightarrow> st = (?t \<noteq> [])"
      using add_uint64_loop_eq [of 8 False v w1 c] by (cases "write_all CBB_add_u8 w1 c ?t") auto
    show ?thesis
    proof (cases "?t = []")
      case True
      then show ?thesis using l wr st by (auto simp: uint64_body_def uint_body_def split: bool.split prod.split)
    next
      case False
      then show ?thesis using l wr st by (cases ok) (auto simp: uint64_body_def uint_body_def)
    qed
  qed
  have "hd (uint64_body v) # tl (uint64_body v) = uint64_body v" by (simp add: uint64_body_def uint_body_ne)
  then show ?thesis
    by (simp only: CBB_add_asn1_uint64_with_tag_def element_plain_def body prod.case)
qed

interpretation octets_element: cbb_writer "element_op (\<lambda>w d (b, bs). write_all CBB_add_u8 w d (b # bs)) tag"
  "\<lambda>v. der_enc tag (case v of (b, bs) \<Rightarrow> concat (map (\<lambda>v. [v]) (b # bs)))"
  "\<lambda>v. (case v of (b, bs) \<Rightarrow> \<forall>v\<in>set (b # bs). True) \<and>
     length (case v of (b, bs) \<Rightarrow> concat (map (\<lambda>v. [v]) (b # bs))) \<le> 0xfffffffe" for tag
  by (rule octets_writer.element_writer)

lemma concat_singletons: "concat (map (\<lambda>v. [v]) xs) = xs"
  by (induction xs) auto

lemma octets_element_via:
  assumes "\<And>w d v. op w d v = element_plain (\<lambda>w d (b, bs). write_all CBB_add_u8 w d (b # bs)) tag w d (hd (body v), tl (body v))"
    and "\<And>v. okv v \<Longrightarrow> body v \<noteq> [] \<and> length (body v) \<le> 0xfffffffe"
  shows "cbb_writer op (\<lambda>v. der_enc tag (body v)) okv"
proof (rule cbb_writer_via [OF octets_element.cbb_writer_axioms [of tag], where f = "\<lambda>v. (hd (body v), tl (body v))"])
  fix w d v
  assume "wf_cbb w" "okv v"
  then show "op w d v = element_op (\<lambda>w d (b, bs). write_all CBB_add_u8 w d (b # bs)) tag w d (hd (body v), tl (body v))"
    using octets_writer.element_plain_eq [of w] by (simp add: assms(1))
qed (use assms(2) element_plain_error in \<open>simp_all add: assms(1) concat_singletons\<close>)

lemma uint64_body_bounds: "uint64_body v \<noteq> [] \<and> length (uint64_body v) \<le> 0xfffffffe"
  using uint_body_length [of "be_bytes 8 (unat v)"] by (auto simp: uint64_body_def uint_body_ne)

interpretation uint64_tag_writer: cbb_writer "\<lambda>w d v. CBB_add_asn1_uint64_with_tag w d v tag"
  "\<lambda>v. der_enc tag (uint64_body v)" "\<lambda>v. True" for tag
  by (rule octets_element_via [OF CBB_add_asn1_uint64_with_tag_eq uint64_body_bounds])

interpretation uint64_writer: cbb_writer CBB_add_asn1_uint64 "\<lambda>v. der_enc CBS_ASN1_INTEGER (uint64_body v)" "\<lambda>v. True"
  unfolding CBB_add_asn1_uint64_def by (rule uint64_tag_writer.cbb_writer_axioms)

lemma uint64_body_value:
  "CBS_is_valid_asn1_integer (uint64_body v) = Some False" "twos_val (uint64_body v) = uint v"
  using unat_u64_bound [of v] uint_body_valid uint_body_val [of "be_bytes 8 (unat v)"]
  by (simp_all add: uint64_body_def be_val_be_bytes_id)

text \<open>The contents for a negative value: leading \<^verbatim>\<open>0xff\<close> go while the sign bit stays.\<close>

fun trim_neg :: "byte list \<Rightarrow> byte list" where
  "trim_neg (b # c # cs) = (if b = 0xff \<and> 128 \<le> unat c then trim_neg (c # cs) else b # c # cs)"
| "trim_neg bs = bs"

lemma trim_neg_val: "twos_val (trim_neg bs) = twos_val bs"
  by (induction bs rule: trim_neg.induct) (auto simp: twos_val_drop_first)

lemma trim_neg_valid:
  "bs \<noteq> [] \<Longrightarrow> 128 \<le> unat (hd bs) \<Longrightarrow> CBS_is_valid_asn1_integer (trim_neg bs) = Some True"
  by (induction bs rule: trim_neg.induct) (auto simp: valid_integer_simps)

lemma trim_neg_length: "length (trim_neg bs) \<le> length bs" "trim_neg bs \<noteq> [] \<longleftrightarrow> bs \<noteq> []"
  by (induction bs rule: trim_neg.induct) auto

lemma int64_start_eq:
  "i < length bytes \<Longrightarrow> rev (take (Suc (int64_start bytes i)) bytes) = trim_neg (rev (take (Suc i) bytes))"
proof (induction i)
  case (Suc i)
  have hi: "bytes ! i AND 0x80 \<noteq> 0 \<longleftrightarrow> 128 \<le> unat (bytes ! i)" using and_80 [of "bytes ! i"] by linarith
  show ?case using Suc hi by (simp add: take_Suc_conv_app_nth)
qed (simp add: take_Suc_conv_app_nth)

lemma add_bytes_down_eq:
  "i < length bytes \<Longrightarrow> add_bytes_down bytes i w c = write_all CBB_add_u8 w c (rev (take (Suc i) bytes))"
  by (induction i arbitrary: w) (auto simp: take_Suc_conv_app_nth split: prod.split bool.split)

lemma be_bytes_Nil_iff: "be_bytes n v = [] \<longleftrightarrow> n = 0"
  by (metis length_be_bytes length_0_conv)

lemma int64_start_le: "int64_start bytes i \<le> i"
  by (induction i) auto

definition int64_body :: "u64 \<Rightarrow> byte list" where
  "int64_body v = (if 0 \<le> sint v then uint64_body v else trim_neg (be_bytes 8 (unat v)))"

lemma CBB_add_asn1_int64_with_tag_eq:
  "CBB_add_asn1_int64_with_tag w d v tag =
   element_plain (\<lambda>w d (b, bs). write_all CBB_add_u8 w d (b # bs)) tag w d (hd (int64_body v), tl (int64_body v))"
proof (cases "0 \<le> sint v")
  case True
  then show ?thesis by (simp add: CBB_add_asn1_int64_with_tag_def CBB_add_asn1_uint64_with_tag_eq int64_body_def)
next
  case False
  let ?bs = "be_bytes 8 (unat v)"
  have len: "length (rev ?bs) = 8" by simp
  have "add_bytes_down (rev ?bs) (int64_start (rev ?bs) 7) w c = write_all CBB_add_u8 w c (trim_neg ?bs)" for w c
    using int64_start_eq [of 7 "rev ?bs"] int64_start_le [of "rev ?bs" 7] len
    by (subst add_bytes_down_eq) simp_all
  moreover have "hd (trim_neg ?bs) # tl (trim_neg ?bs) = trim_neg ?bs"
    using trim_neg_length(2) [of ?bs] be_bytes_Nil_iff [of 8 "unat v"] by (intro list.collapse) simp
  ultimately show ?thesis
    using False by (simp only: CBB_add_asn1_int64_with_tag_def element_plain_def int64_body_def Let_def if_False prod.case)
qed

lemma int64_body_bounds: "int64_body v \<noteq> [] \<and> length (int64_body v) \<le> 0xfffffffe"
  using trim_neg_length [of "be_bytes 8 (unat v)"] uint64_body_bounds [of v] be_bytes_Nil_iff [of 8 "unat v"]
  by (auto simp: int64_body_def)

interpretation int64_tag_writer: cbb_writer "\<lambda>w d v. CBB_add_asn1_int64_with_tag w d v tag"
  "\<lambda>v. der_enc tag (int64_body v)" "\<lambda>v. True" for tag
  by (rule octets_element_via [OF CBB_add_asn1_int64_with_tag_eq int64_body_bounds])

interpretation int64_writer: cbb_writer CBB_add_asn1_int64 "\<lambda>v. der_enc CBS_ASN1_INTEGER (int64_body v)" "\<lambda>v. True"
  unfolding CBB_add_asn1_int64_def by (rule int64_tag_writer.cbb_writer_axioms)

lemma int64_body_value: "CBS_is_valid_asn1_integer (int64_body v) \<noteq> None \<and> twos_val (int64_body v) = sint v"
proof -
  let ?bs = "be_bytes 8 (unat v)"
  have ne: "?bs \<noteq> []" by (simp only: be_bytes_Nil_iff)
  note tv = twos_val_be_bytes_8 [of v]
  show ?thesis
  proof (cases "0 \<le> sint v")
    case True
    then have "int (be_val ?bs) = sint v"
      using tv twos_val_neg_iff [of ?bs] by (simp add: twos_val_def split: if_splits)
    moreover have "be_val ?bs = unat v" by (intro be_val_be_bytes_id) simp
    ultimately show ?thesis using True uint64_body_value [of v] by (simp add: int64_body_def)
  next
    case False
    then have "128 \<le> unat (hd ?bs)" using tv twos_val_neg_iff [of ?bs] by simp
    then show ?thesis
      using False tv trim_neg_val [of ?bs] trim_neg_valid [OF ne] by (simp only: int64_body_def) simp
  qed
qed

interpretation octet_string_writer: cbb_writer CBB_add_asn1_octet_string
  "\<lambda>data. der_enc CBS_ASN1_OCTETSTRING data" "\<lambda>data. length data < SIZE_MOD \<and> length data \<le> 0xfffffffe"
proof -
  have "CBB_add_asn1_octet_string = element_op CBB_add_bytes CBS_ASN1_OCTETSTRING"
    by (intro ext) (simp add: CBB_add_asn1_octet_string_def element_op_def)
  then show "cbb_writer CBB_add_asn1_octet_string (\<lambda>data. der_enc CBS_ASN1_OCTETSTRING data)
      (\<lambda>data. length data < SIZE_MOD \<and> length data \<le> 0xfffffffe)"
    using bytes_writer.element_writer [of CBS_ASN1_OCTETSTRING] by simp
qed

interpretation bool_writer: cbb_writer CBB_add_asn1_bool
  "\<lambda>v. der_enc CBS_ASN1_BOOLEAN [if v then 0xff else 0]" "\<lambda>v. True"
proof (rule cbb_writer_via [OF u8_writer.element_writer [of CBS_ASN1_BOOLEAN], where f = "\<lambda>v. if v then 0xff else 0"])
  show "\<not> fst (CBB_add_asn1_bool w d v)" if "bb_error (cbb_base w)" for w d v
    using CBB_add_asn1_error [OF that, of d CBS_ASN1_BOOLEAN]
    by (auto simp: CBB_add_asn1_bool_def split: prod.split bool.split)
qed (simp_all add: CBB_add_asn1_bool_def element_op_def)

end
