(* ===== verification/CbbSet.thy ===== *)
theory CbbSet
  imports CbbDer "HOL-Library.List_Lexorder" "HOL-Library.Multiset"
begin

text \<open>
  \<^verbatim>\<open>CBB_flush_asn1_set_of\<close> (\<^verbatim>\<open>cbb.c\<close>): the elements written to a \<^verbatim>\<open>SET OF\<close> are put into DER order.
  The order of the code is shown to be the lexicographic order of the library, the result to be
  the sorted list of the elements, whatever order they were written in.
\<close>

section \<open>The code\<close>

fun OPENSSL_memcmp :: "byte list \<Rightarrow> byte list \<Rightarrow> nat \<Rightarrow> int" where
  "OPENSSL_memcmp (x # xs) (y # ys) (Suc n) =
     (if x \<noteq> y then uint x - uint y else OPENSSL_memcmp xs ys n)"
| "OPENSSL_memcmp xs ys n = 0"

definition compare_set_of_element :: "cbs \<Rightarrow> cbs \<Rightarrow> int" where
  "compare_set_of_element a b =
     (let a_len = length a; b_len = length b;
          min_len = (if a_len < b_len then a_len else b_len);
          ret = OPENSSL_memcmp a b min_len
      in if ret \<noteq> 0 then ret
         else if a_len = b_len then 0
         else if a_len < b_len then - 1 else 1)"

text \<open>
  \<^verbatim>\<open>qsort\<close> of the C library, which promises an ascending order under the comparison; the model
  sorts by insertion.  The comparison is 0 on equal elements only, so every sorting algorithm
  gives the same array.
\<close>

fun qsort_insert :: "('a \<Rightarrow> 'a \<Rightarrow> int) \<Rightarrow> 'a \<Rightarrow> 'a list \<Rightarrow> 'a list" where
  "qsort_insert compar x [] = [x]"
| "qsort_insert compar x (y # ys) = (if compar x y \<le> 0 then x # y # ys else y # qsort_insert compar x ys)"

fun qsort :: "('a \<Rightarrow> 'a \<Rightarrow> int) \<Rightarrow> 'a list \<Rightarrow> 'a list" where
  "qsort compar [] = []"
| "qsort compar (x # xs) = qsort_insert compar x (qsort compar xs)"

function count_children :: "cbs \<Rightarrow> nat option" where
  "count_children s =
     (if s = [] then Some 0
      else case CBS_get_any_asn1_element s of
          (None, s1) \<Rightarrow> None
        | (Some e, s1) \<Rightarrow> (case count_children s1 of None \<Rightarrow> None | Some n \<Rightarrow> Some (Suc n)))"
  by pat_completeness auto
termination
  by (relation "measure length") (auto dest: der_element.rd_shrinks [OF sym])

declare count_children.simps [simp del]

fun get_children :: "nat \<Rightarrow> cbs \<Rightarrow> cbs list option" where
  "get_children 0 s = Some []"
| "get_children (Suc n) s = (case CBS_get_any_asn1_element s of
     (None, s1) \<Rightarrow> None
   | (Some e, s1) \<Rightarrow> (case get_children n s1 of None \<Rightarrow> None | Some cs \<Rightarrow> Some (out e # cs)))"

text \<open>The children are written one after the other from \<open>off\<close> on.\<close>

fun write_children :: "nat \<Rightarrow> cbs list \<Rightarrow> byte list \<Rightarrow> byte list" where
  "write_children off [] buf = buf"
| "write_children off (c # cs) buf = write_children (off + length c) cs (overwrite off c buf)"

definition sizeof_CBS :: nat where "sizeof_CBS = 16"

definition CBB_flush_asn1_set_of :: "cbb \<Rightarrow> nat \<Rightarrow> bool \<times> cbb" where
  "CBB_flush_asn1_set_of w d = (case CBB_flush w d of
     (False, w1) \<Rightarrow> (False, w1)
   | (True, w1) \<Rightarrow>
       let contents = take (CBB_len w1 d) (CBB_data w1 d)
       in case count_children contents of
            None \<Rightarrow> (False, w1)
          | Some num_children \<Rightarrow>
              if num_children < 2 then (True, w1)
              else let buf_len = CBB_len w1 d
                   in if buf_len = 0 \<or> \<not> cbb_alloc w1 buf_len \<or> \<not> cbb_alloc w1 (num_children * sizeof_CBS)
                      then (False, w1)
                      else case get_children num_children contents of
                          None \<Rightarrow> (False, w1)
                        | Some children \<Rightarrow>
                            (True, w1\<lparr>cbb_base := (cbb_base w1)
                               \<lparr>bb_buf := write_children (child_start w1 d) (qsort compare_set_of_element children)
                                  (bb_buf (cbb_base w1))\<rparr>\<rparr>))"

section \<open>The order of the elements\<close>

lemma compare_le_iff: "compare_set_of_element a b \<le> 0 \<longleftrightarrow> a \<le> b"
proof (induction a arbitrary: b)
  case Nil
  then show ?case by (cases b) (simp_all add: compare_set_of_element_def)
next
  case (Cons x a)
  show ?case
  proof (cases b)
    case (Cons y b')
    then show ?thesis
      using Cons.IH [of b'] by (auto simp: compare_set_of_element_def Let_def word_less_def word_le_def word_uint_eq_iff split: if_splits)
  qed (simp add: compare_set_of_element_def)
qed

lemma qsort_insert_eq: "qsort_insert compare_set_of_element x xs = insort x xs"
  by (induction xs) (simp_all add: compare_le_iff)

lemma qsort_eq: "qsort compare_set_of_element xs = sort xs"
  by (induction xs) (simp_all add: qsort_insert_eq)

text \<open>The elements of a contents: what both passes over it read.\<close>

definition der_elements :: "byte list list \<Rightarrow> bool" where
  "der_elements es \<longleftrightarrow> (\<forall>e\<in>set es. \<exists>t c. tag_ok t \<and> length c < 2 ^ 32 \<and> e = der_enc t c)"

lemma element_step:
  "CBS_get_any_asn1_element s = (Some e, r) \<Longrightarrow>
   s = out e @ r \<and> (\<exists>t c. tag_ok t \<and> length c < 2 ^ 32 \<and> out e = der_enc t c)"
  unfolding der_element_iff by (metis asn1_element.select_convs(1))

lemma element_read:
  "tag_ok t \<Longrightarrow> length c < 2 ^ 32 \<Longrightarrow> \<exists>e. CBS_get_any_asn1_element (der_enc t c @ r) = (Some e, r) \<and> out e = der_enc t c"
  using element_der_enc [of t c False r] by (auto simp: CBS_get_any_asn1_element_def)

lemma children_of_elements:
  "der_elements es \<Longrightarrow> count_children (concat es) = Some (length es) \<and> get_children (length es) (concat es) = Some es"
proof (induction es)
  case Nil
  then show ?case by (simp add: count_children.simps)
next
  case (Cons x es)
  obtain t c where x: "tag_ok t" "length c < 2 ^ 32" "x = der_enc t c" using Cons.prems by (auto simp: der_elements_def)
  obtain e where e: "CBS_get_any_asn1_element (x @ concat es) = (Some e, concat es)" "out e = x"
    using element_read [OF x(1,2)] x(3) by metis
  have "x @ concat es \<noteq> []" using x(3) by (simp add: der_enc_def tag_enc_def)
  then show ?case
    using Cons e by (subst count_children.simps) (auto simp: der_elements_def)
qed

lemma count_children_only: "count_children s = Some n \<Longrightarrow> \<exists>es. s = concat es \<and> length es = n \<and> der_elements es"
proof (induction s arbitrary: n rule: count_children.induct)
  case (1 s)
  show ?case
  proof (cases "s = []")
    case True
    then show ?thesis using 1(2) by (intro exI [of _ "[]"]) (simp add: count_children.simps der_elements_def)
  next
    case False
    then obtain e s1 m where e: "CBS_get_any_asn1_element s = (Some e, s1)" and m: "count_children s1 = Some m" "n = Suc m"
      using 1(2) by (subst (asm) count_children.simps) (auto split: prod.splits option.splits)
    obtain es where es: "s1 = concat es" "length es = m" "der_elements es"
      using 1(1) [OF False e [symmetric] refl m(1)] by blast
    then show ?thesis
      using element_step [OF e] m(2) by (intro exI [of _ "out e # es"]) (auto simp: der_elements_def)
  qed
qed

lemma write_children_eq:
  "off + length (concat cs) \<le> length buf \<Longrightarrow> write_children off cs buf = overwrite off (concat cs) buf"
proof (induction cs arbitrary: off buf)
  case (Cons c cs)
  then show ?case by (simp add: overwrite_def min_absorb1 ac_simps)
qed simp

section \<open>The operation\<close>

lemma start_at_nth: "i < length cs \<Longrightarrow> start_at s cs (Suc i) = ch_start (cs ! i)"
proof (induction i arbitrary: s cs)
  case 0
  then show ?case by (cases cs) auto
next
  case (Suc i)
  then show ?case by (cases cs) auto
qed

lemma child_start_eq: "d \<le> length (cbb_chain w) \<Longrightarrow> child_start w d = start_at 0 (cbb_chain w) d"
  by (cases d) (simp_all add: child_start_def start_at_nth ch_start_def)

lemma innermost_contents:
  assumes "wf_cbb w" and "length (cbb_chain w) = d"
  shows "take (CBB_len w d) (CBB_data w d) = snd (cbb_abs w) ! d"
    "written (cbb_base w) = take (child_start w d) (written (cbb_base w)) @ snd (cbb_abs w) ! d"
proof -
  let ?t = "start_at 0 (cbb_chain w) d" and ?bs = "written (cbb_base w)"
  have "drop ?t ?bs = snd (cbb_abs w) ! d"
    using frames_drop [of d "cbb_chain w" 0 ?bs] Cons_nth_drop_Suc [of d "frames 0 ?bs (cbb_chain w)"] assms(2)
    by (simp add: cbb_abs_def) (metis list.inject)
  moreover have "take (CBB_len w d) (CBB_data w d) = drop ?t ?bs"
    using assms(2) by (simp add: CBB_len_def CBB_data_def child_start_eq written_def drop_take)
  ultimately show "take (CBB_len w d) (CBB_data w d) = snd (cbb_abs w) ! d"
    "?bs = take (child_start w d) ?bs @ snd (cbb_abs w) ! d"
    using assms(2) append_take_drop_id [of ?t ?bs] by (simp_all add: child_start_eq)
qed

definition bd_set_of :: "nat \<Rightarrow> byte list list \<Rightarrow> builder \<Rightarrow> builder" where
  "bd_set_of d es bd = (take d (fst bd), take d (snd bd) @ [concat (sort es)])"

lemma rewrite_contents:
  assumes w: "wf_cbb w" and d: "length (cbb_chain w) = d" and len: "length bs = length (snd (cbb_abs w) ! d)"
  defines "w' \<equiv> w\<lparr>cbb_base := (cbb_base w)\<lparr>bb_buf := overwrite (child_start w d) bs (bb_buf (cbb_base w))\<rparr>\<rparr>"
  shows "wf_cbb w'" "cbb_abs w' = (fst (cbb_abs w), take d (snd (cbb_abs w)) @ [bs])"
proof -
  let ?b = "cbb_base w" and ?t = "start_at 0 (cbb_chain w) d"
  have wf: "wf_buf ?b" "wf_chain 0 (cbb_chain w) (bb_len ?b)" using w by (simp_all add: wf_cbb_def)
  have t: "?t \<le> bb_len ?b" using start_at_bounds [OF wf(2)] by simp
  have sum: "?t + length bs = bb_len ?b"
    using innermost_contents(2) [OF w d] len t wf(1) d
    by (metis child_start_eq length_append length_take length_written min.absorb2 order_refl)
  have w': "w' = w\<lparr>cbb_base := buf_write ?t bs ?b\<rparr>" using d by (simp add: w'_def buf_write_def child_start_eq)
  have "written (buf_write ?t bs ?b) = take ?t (written ?b) @ bs"
    using written_buf_write [OF wf(1), of ?t bs] sum wf(1) by (simp add: overwrite_def)
  then show "cbb_abs w' = (fst (cbb_abs w), take d (snd (cbb_abs w)) @ [bs])"
    using frames_take [OF wf_cbb_chain [OF w], of d bs] d by (simp add: w' cbb_abs_def)
  show "wf_cbb w'" using wf sum by (simp add: w' wf_cbb_def wf_buf_write)
qed

theorem CBB_flush_asn1_set_of_True:
  assumes w: "wf_cbb w" and op: "CBB_flush_asn1_set_of w d = (True, w')"
  shows "\<exists>es. der_elements es \<and> collapse (drop d (fst (cbb_abs w))) (drop d (snd (cbb_abs w))) = concat es \<and>
    succeeds w d w' (bd_set_of d es (cbb_abs w))"
proof -
  obtain w1 n where fl: "CBB_flush w d = (True, w1)"
    and n: "count_children (take (CBB_len w1 d) (CBB_data w1 d)) = Some n"
    using op by (auto simp: CBB_flush_asn1_set_of_def Let_def split: prod.splits bool.splits option.splits)
  note s = CBB_flush_True(1) [OF fl w, unfolded succeeds_def] and ch = CBB_flush_True(2) [OF fl w]
  then have w1: "wf_cbb w1" and d1: "length (cbb_chain w1) = d" and d: "d \<le> length (cbb_chain w)" by simp_all
  obtain ks cs where abs: "cbb_abs w = (ks, cs)" by (cases "cbb_abs w")
  have lk: "d \<le> length ks" "length cs = Suc (length ks)" using chain_of_abs [of w] d abs by simp_all
  have abs1: "cbb_abs w1 = (take d ks, take d cs @ [collapse (drop d ks) (drop d cs)])"
    using s abs by (simp add: bd_flush_def)
  have last: "snd (cbb_abs w1) ! d = collapse (drop d ks) (drop d cs)" using abs1 lk by (simp add: nth_append)
  obtain es where es: "collapse (drop d ks) (drop d cs) = concat es" "length es = n" "der_elements es"
    using count_children_only [OF n] innermost_contents(1) [OF w1 d1] last by metis
  have "succeeds w d w' (bd_set_of d es (cbb_abs w))"
  proof (cases "n < 2")
    case True
    then have "w' = w1" using op fl n by (simp add: CBB_flush_asn1_set_of_def Let_def)
    moreover have "sort es = es" using es(2) True by (cases es; cases "tl es") auto
    ultimately show ?thesis using s abs abs1 es(1) by (simp add: succeeds_def bd_set_of_def)
  next
    case False
    have "get_children n (take (CBB_len w1 d) (CBB_data w1 d)) = Some es"
      using children_of_elements [OF es(3)] es(1,2) innermost_contents(1) [OF w1 d1] last by simp
    then have w': "w' = w1\<lparr>cbb_base := (cbb_base w1)\<lparr>bb_buf :=
        write_children (child_start w1 d) (sort es) (bb_buf (cbb_base w1))\<rparr>\<rparr>"
      using op fl n False
      by (simp add: CBB_flush_asn1_set_of_def Let_def qsort_eq split: if_splits)
    have len: "length (concat (sort es)) = length (concat es)"
    proof -
      have "mset (map length (sort es)) = mset (map length es)" by simp
      then have "sum_list (map length (sort es)) = sum_list (map length es)" by (metis sum_mset_sum_list)
      then show ?thesis by (simp add: length_concat)
    qed
    have room: "child_start w1 d + length (concat (sort es)) \<le> length (bb_buf (cbb_base w1))"
    proof -
      have "length (written (cbb_base w1)) = bb_len (cbb_base w1)" "bb_len (cbb_base w1) \<le> length (bb_buf (cbb_base w1))"
        using w1 by (auto simp: wf_cbb_def wf_buf_def)
      moreover have "child_start w1 d \<le> bb_len (cbb_base w1)"
        using start_at_bounds [of 0 "cbb_chain w1" "bb_len (cbb_base w1)" d] w1 d1 by (simp add: child_start_eq wf_cbb_def)
      ultimately show ?thesis
        using innermost_contents(2) [OF w1 d1] last es(1) len
        by (metis length_append length_take min.absorb2)
    qed
    have eq: "w' = w1\<lparr>cbb_base := (cbb_base w1)\<lparr>bb_buf :=
        overwrite (child_start w1 d) (concat (sort es)) (bb_buf (cbb_base w1))\<rparr>\<rparr>"
      unfolding w' write_children_eq [OF room] ..
    note r = rewrite_contents [OF w1 d1, of "concat (sort es)", folded eq]
    have "wf_cbb w'" "cbb_abs w' = (take d ks, take d cs @ [concat (sort es)])"
      using r len last es(1) abs1 lk by simp_all
    then show ?thesis using s abs by (simp add: succeeds_def bd_set_of_def eq)
  qed
  then show ?thesis using es abs by auto
qed

end
