(* ===== verification/CbbOid.thy ===== *)
theory CbbOid
  imports CbbDer
begin

text \<open>
  Object identifiers as text: \<^verbatim>\<open>CBB_add_asn1_oid_from_text\<close> (\<^verbatim>\<open>cbb.c\<close>) and \<^verbatim>\<open>CBS_asn1_oid_to_text\<close>
  (\<^verbatim>\<open>cbs.c\<close>).  The reference is the list of arcs: \<open>oid_text\<close> writes it with dots, \<open>oid_enc\<close> as
  base-128 integers.  The writer accepts exactly the texts of valid arc lists, and the two
  functions are inverse to each other on them.
\<close>

section \<open>The code\<close>

lemma CBS_get_u64_decimal_shorter:
  assumes "CBS_get_u64_decimal s = (Some v, r)" shows "length r < length s"
proof -
  have "decimal_ok (digits_of s)" and r: "r = dropWhile OPENSSL_isdigit s"
    using CBS_get_u64_decimal_spec [of s] assms by (auto split: if_splits)
  then have "digits_of s \<noteq> []" by (simp add: decimal_ok_def)
  moreover have "length s = length (digits_of s) + length r"
    unfolding r by (metis length_append takeWhile_dropWhile_id)
  ultimately show ?thesis by simp
qed

lemma parse_dotted_decimal_cases:
  "parse_dotted_decimal s = (case CBS_get_u64_decimal s of
     (None, s1) \<Rightarrow> (None, s1)
   | (Some v, []) \<Rightarrow> (Some v, [])
   | (Some v, dot # s2) \<Rightarrow> if dot = 0x2e \<and> s2 \<noteq> [] then (Some v, s2) else (None, s2))"
  by (auto simp: parse_dotted_decimal_def CBS_get_u8_simps split: prod.split option.split list.split)

lemma parse_dotted_decimal_shorter:
  "parse_dotted_decimal s = (Some v, r) \<Longrightarrow> length r < length s"
  by (auto simp: parse_dotted_decimal_cases dest: CBS_get_u64_decimal_shorter
      split: prod.splits option.splits list.splits if_splits)

function oid_from_text_loop :: "cbb \<Rightarrow> nat \<Rightarrow> cbs \<Rightarrow> bool \<times> cbb" where
  "oid_from_text_loop w d s =
     (if s = [] then (True, w)
      else case parse_dotted_decimal s of
          (None, s1) \<Rightarrow> (False, w)
        | (Some a, s1) \<Rightarrow> (case add_base128_integer w d a of
            (False, w1) \<Rightarrow> (False, w1)
          | (True, w1) \<Rightarrow> oid_from_text_loop w1 d s1))"
  by pat_completeness auto
termination
  by (relation "measure (\<lambda>(w, d, s). length s)") (auto dest: parse_dotted_decimal_shorter [OF sym])

declare oid_from_text_loop.simps [simp del]

definition CBB_add_asn1_oid_from_text :: "cbb \<Rightarrow> nat \<Rightarrow> byte list \<Rightarrow> bool \<times> cbb" where
  "CBB_add_asn1_oid_from_text w d text = (case CBB_flush w d of
     (False, w1) \<Rightarrow> (False, w1)
   | (True, w1) \<Rightarrow> (case parse_dotted_decimal text of
       (None, s1) \<Rightarrow> (False, w1)
     | (Some a, s1) \<Rightarrow> (case parse_dotted_decimal s1 of
         (None, s2) \<Rightarrow> (False, w1)
       | (Some b, s2) \<Rightarrow>
           if a > 2 \<or> (a < 2 \<and> b > 39) \<or> b > UINT64_MAX - 80 then (False, w1)
           else (case add_base128_integer w1 d (40 * a + b) of
               (False, w2) \<Rightarrow> (False, w2)
             | (True, w2) \<Rightarrow> oid_from_text_loop w2 d s2))))"

text \<open>The digits \<^verbatim>\<open>snprintf\<close> prints for \<^verbatim>\<open>PRIu64\<close>.\<close>

fun decimal :: "nat \<Rightarrow> byte list" where
  "decimal n = (if n < 10 then [word_of_nat (48 + n)] else decimal (n div 10) @ [word_of_nat (48 + n mod 10)])"

declare decimal.simps [simp del]

definition add_decimal :: "cbb \<Rightarrow> nat \<Rightarrow> u64 \<Rightarrow> bool \<times> cbb" where
  "add_decimal w d v = CBB_add_bytes w d (decimal (unat v))"

lemma parse_base128_integer_shorter:
  "parse_base128_integer s = (Some v, r) \<Longrightarrow> length r < length s"
  by (auto simp: parse_base128_integer_iff base128_enc_def)

function oid_to_text_loop :: "cbb \<Rightarrow> cbs \<Rightarrow> bool \<times> cbb" where
  "oid_to_text_loop w s =
     (if s = [] then (True, w)
      else case parse_base128_integer s of
          (None, s1) \<Rightarrow> (False, w)
        | (Some v, s1) \<Rightarrow> (case CBB_add_u8 w 0 0x2e of
            (False, w1) \<Rightarrow> (False, w1)
          | (True, w1) \<Rightarrow> (case add_decimal w1 0 v of
              (False, w2) \<Rightarrow> (False, w2)
            | (True, w2) \<Rightarrow> oid_to_text_loop w2 s1)))"
  by pat_completeness auto
termination
  by (relation "measure (\<lambda>(w, s). length s)") (auto dest: parse_base128_integer_shorter [OF sym])

declare oid_to_text_loop.simps [simp del]

text \<open>The result is the text without its terminating NUL, as a caller reads it.\<close>

definition CBS_asn1_oid_to_text :: "allocator \<Rightarrow> cbs \<Rightarrow> byte list option" where
  "CBS_asn1_oid_to_text al s = (case CBB_init al 32 of
     None \<Rightarrow> None
   | Some w \<Rightarrow> (case parse_base128_integer s of
       (None, s1) \<Rightarrow> None
     | (Some v, s1) \<Rightarrow>
         (case (if v \<ge> 80 then
              (case CBB_add_bytes w 0 [0x32, 0x2e] of
                 (False, w1) \<Rightarrow> (False, w1)
               | (True, w1) \<Rightarrow> add_decimal w1 0 (v - 80))
            else
              (case add_decimal w 0 (v div 40) of
                 (False, w1) \<Rightarrow> (False, w1)
               | (True, w1) \<Rightarrow> (case CBB_add_u8 w1 0 0x2e of
                   (False, w2) \<Rightarrow> (False, w2)
                 | (True, w2) \<Rightarrow> add_decimal w2 0 (v mod 40)))) of
            (False, w3) \<Rightarrow> None
          | (True, w3) \<Rightarrow> (case oid_to_text_loop w3 s1 of
              (False, w4) \<Rightarrow> None
            | (True, w4) \<Rightarrow> (case CBB_add_u8 w4 0 0 of
                (False, w5) \<Rightarrow> None
              | (True, w5) \<Rightarrow> (case CBB_finish w5 0 True True of
                  (None, w6) \<Rightarrow> None
                | (Some (txt, txt_len), w6) \<Rightarrow> Some (takeWhile (\<lambda>c. c \<noteq> 0) (take txt_len txt))))))))"

section \<open>Decimal numbers\<close>

lemma digit_byte: "n < 10 \<Longrightarrow> OPENSSL_isdigit (word_of_nat (48 + n)) \<and> unat (word_of_nat (48 + n) - 48 :: byte) = n"
proof -
  assume n: "n < 10"
  then have u: "unat (word_of_nat (48 + n) :: byte) = 48 + n" by (intro unat_byte_of_nat) simp
  have "OPENSSL_isdigit (word_of_nat (48 + n))"
    unfolding OPENSSL_isdigit_def word_le_nat_alt u using n by simp
  moreover have "unat (word_of_nat (48 + n) - 48 :: byte) = n"
    using n by (simp add: unat_byte_of_nat)
  ultimately show ?thesis ..
qed

lemma digit_byte_inv: "OPENSSL_isdigit c \<Longrightarrow> word_of_nat (48 + unat (c - 48)) = c"
  by (simp add: OPENSSL_isdigit_def)

lemma decimal_digits: "c \<in> set (decimal n) \<Longrightarrow> OPENSSL_isdigit c"
proof (induction n rule: decimal.induct)
  case (1 n)
  then show ?case
    using digit_byte [of n] digit_byte [of "n mod 10"]
    by (subst (asm) (2) decimal.simps) (auto split: if_splits)
qed

lemma dec_val_append: "dec_val v (xs @ [c]) = dec_val v xs * 10 + unat (c - 48)"
  by (induction xs arbitrary: v) auto

lemma dec_val_decimal: "dec_val 0 (decimal n) = n"
proof (induction n rule: decimal.induct)
  case (1 n)
  show ?case
  proof (cases "n < 10")
    case True
    then show ?thesis using digit_byte [of n] by (subst decimal.simps) (simp del: of_nat_add)
  next
    case False
    then show ?thesis using 1 digit_byte [of "n mod 10"] by (subst decimal.simps) (simp add: dec_val_append del: of_nat_add)
  qed
qed

lemma decimal_ne [simp]: "decimal n \<noteq> []"
  by (subst decimal.simps) simp

lemma decimal_dec_val:
  "\<forall>c\<in>set ds. OPENSSL_isdigit c \<Longrightarrow> ds \<noteq> [] \<Longrightarrow> hd ds = 48 \<longrightarrow> length ds = 1 \<Longrightarrow> decimal (dec_val 0 ds) = ds"
proof (induction ds rule: rev_induct)
  case (snoc c ds)
  have c: "unat (c - 48) < 10" "word_of_nat (48 + unat (c - 48)) = c"
    using digit_value [of c] digit_byte_inv [of c] snoc.prems(1) by auto
  show ?case
  proof (cases "ds = []")
    case True
    then show ?thesis using c by (subst decimal.simps) (simp del: of_nat_add)
  next
    case False
    then have ih: "decimal (dec_val 0 ds) = ds" using snoc by simp
    have "dec_val 0 ds \<noteq> 0"
    proof
      assume "dec_val 0 ds = 0"
      then have "ds = [48]" using ih by (subst (asm) (1) decimal.simps) simp
      then show False using snoc.prems(3) by simp
    qed
    then show ?thesis
      using c ih by (subst decimal.simps) (simp add: dec_val_append del: of_nat_add)
  qed
qed simp

lemma hd_decimal: "n \<noteq> 0 \<Longrightarrow> hd (decimal n) \<noteq> 48"
proof (induction n rule: decimal.induct)
  case (1 n)
  show ?case
  proof (cases "n < 10")
    case True
    then show ?thesis using digit_byte [of n] "1.prems" by (subst decimal.simps) (auto simp del: of_nat_add)
  next
    case False
    then show ?thesis using 1 by (subst decimal.simps) simp
  qed
qed

lemma decimal_ok_iff: "decimal_ok ds \<and> (\<forall>c\<in>set ds. OPENSSL_isdigit c) \<longleftrightarrow> (\<exists>n < 2 ^ 64. ds = decimal n)"
proof
  assume "decimal_ok ds \<and> (\<forall>c\<in>set ds. OPENSSL_isdigit c)"
  then show "\<exists>n < 2 ^ 64. ds = decimal n"
    using decimal_dec_val [of ds] by (intro exI [of _ "dec_val 0 ds"]) (auto simp: decimal_ok_def)
next
  assume "\<exists>n < 2 ^ 64. ds = decimal n"
  then obtain n where n: "n < 2 ^ 64" "ds = decimal n" by blast
  have "hd (decimal n) = 48 \<longrightarrow> length (decimal n) = 1"
    using hd_decimal [of n] by (cases "n = 0") (simp_all add: decimal.simps [of 0])
  then show "decimal_ok ds \<and> (\<forall>c\<in>set ds. OPENSSL_isdigit c)"
    using n decimal_digits by (auto simp: decimal_ok_def dec_val_decimal)
qed

text \<open>What follows a decimal number: the end, or something that is not a digit.\<close>

lemma CBS_get_u64_decimal_iff:
  "CBS_get_u64_decimal s = (Some v, r) \<longleftrightarrow>
   s = decimal (unat v) @ r \<and> (r \<noteq> [] \<longrightarrow> \<not> OPENSSL_isdigit (hd r))"
proof
  assume a: "CBS_get_u64_decimal s = (Some v, r)"
  then have ok: "decimal_ok (digits_of s)" and r: "r = dropWhile OPENSSL_isdigit s"
    and v: "v = word_of_nat (dec_val 0 (digits_of s))"
    using CBS_get_u64_decimal_spec [of s] by (auto split: if_splits)
  obtain n where n: "n < 2 ^ 64" "digits_of s = decimal n"
    using decimal_ok_iff [of "digits_of s"] ok by (auto dest: set_takeWhileD)
  then have "unat v = n" using v by (simp add: dec_val_decimal unat_u64_of_nat)
  then have "s = decimal (unat v) @ r" using n(2) r takeWhile_dropWhile_id [of OPENSSL_isdigit s] by simp
  then show "s = decimal (unat v) @ r \<and> (r \<noteq> [] \<longrightarrow> \<not> OPENSSL_isdigit (hd r))"
    using r hd_dropWhile [of OPENSSL_isdigit s] by auto
next
  assume a: "s = decimal (unat v) @ r \<and> (r \<noteq> [] \<longrightarrow> \<not> OPENSSL_isdigit (hd r))"
  then have "digits_of r = []" "dropWhile OPENSSL_isdigit r = r" by (cases r; simp)+
  then have t: "digits_of s = decimal (unat v)" "dropWhile OPENSSL_isdigit s = r"
    using a decimal_digits [of _ "unat v"] by (simp_all add: takeWhile_append2 dropWhile_append2)
  have "\<exists>n < 2 ^ 64. decimal (unat v) = decimal n" by (intro exI [of _ "unat v"]) simp
  then have "decimal_ok (digits_of s)" unfolding t using decimal_ok_iff by blast
  then show "CBS_get_u64_decimal s = (Some v, r)"
    using CBS_get_u64_decimal_spec [of s] t by (simp add: dec_val_decimal)
qed

lemma parse_dotted_decimal_iff:
  "parse_dotted_decimal s = (Some v, r) \<longleftrightarrow>
   s = decimal (unat v) @ (if r = [] then [] else 0x2e # r)"
proof -
  have dot: "\<not> OPENSSL_isdigit 0x2e" by (simp add: OPENSSL_isdigit_def)
  show ?thesis
  proof
    assume "parse_dotted_decimal s = (Some v, r)"
    then show "s = decimal (unat v) @ (if r = [] then [] else 0x2e # r)"
      by (auto simp: parse_dotted_decimal_cases CBS_get_u64_decimal_iff
          split: prod.splits option.splits list.splits if_splits)
  next
    assume s: "s = decimal (unat v) @ (if r = [] then [] else 0x2e # r)"
    then have "CBS_get_u64_decimal s = (Some v, if r = [] then [] else 0x2e # r)"
      using dot by (subst CBS_get_u64_decimal_iff) simp
    then show "parse_dotted_decimal s = (Some v, r)" by (simp add: parse_dotted_decimal_cases)
  qed
qed

section \<open>Arc lists\<close>

fun oid_text :: "nat list \<Rightarrow> byte list" where
  "oid_text [] = []"
| "oid_text [a] = decimal a"
| "oid_text (a # as) = decimal a @ 0x2e # oid_text as"

fun oid_enc :: "nat list \<Rightarrow> byte list" where
  "oid_enc (a # b # as) = concat (map base128_enc ((40 * a + b) # as))"
| "oid_enc as = []"

fun arcs_ok :: "nat list \<Rightarrow> bool" where
  "arcs_ok (a # b # as) \<longleftrightarrow>
     a \<le> 2 \<and> (a < 2 \<longrightarrow> b \<le> 39) \<and> b \<le> 2 ^ 64 - 1 - 80 \<and> (\<forall>c\<in>set as. c < 2 ^ 64)"
| "arcs_ok as \<longleftrightarrow> False"

lemma oid_text_ne: "as \<noteq> [] \<Longrightarrow> oid_text as \<noteq> []"
  by (cases as rule: oid_text.cases) simp_all

lemma oid_text_Cons: "oid_text (a # as) = decimal a @ (if as = [] then [] else 0x2e # oid_text as)"
  by (cases as) simp_all

text \<open>The loop reads a list of arcs and writes each; any other text is refused.\<close>

lemma oid_from_text_loop_arcs:
  "oid_from_text_loop w d (oid_text as) =
     write_all add_base128_integer w d (map word_of_nat as)" if "\<forall>c\<in>set as. c < 2 ^ 64"
  using that
proof (induction as arbitrary: w)
  case Nil
  then show ?case by (subst oid_from_text_loop.simps) simp
next
  case (Cons a as)
  have "parse_dotted_decimal (oid_text (a # as)) = (Some (word_of_nat a), oid_text as)"
    using Cons.prems by (auto simp: parse_dotted_decimal_iff oid_text_Cons unat_u64_of_nat oid_text_ne)
  then show ?case
    using Cons by (subst oid_from_text_loop.simps) (simp add: oid_text_ne split: prod.split bool.split)
qed

lemma oid_from_text_loop_only:
  "oid_from_text_loop w d s = (True, w') \<Longrightarrow> \<exists>as. s = oid_text as \<and> (\<forall>c\<in>set as. c < 2 ^ 64)"
proof (induction w d s rule: oid_from_text_loop.induct)
  case (1 w d s)
  show ?case
  proof (cases "s = []")
    case True
    then show ?thesis by (intro exI [of _ "[]"]) simp
  next
    case False
    then obtain a s1 w1 where p: "parse_dotted_decimal s = (Some a, s1)"
      and ad: "add_base128_integer w d a = (True, w1)" and rest: "oid_from_text_loop w1 d s1 = (True, w')"
      using "1.prems" by (subst (asm) oid_from_text_loop.simps) (auto split: prod.splits option.splits bool.splits)
    obtain as where as: "s1 = oid_text as" "\<forall>c\<in>set as. c < 2 ^ 64"
      using "1.IH" [OF False p [symmetric] refl ad [symmetric] refl rest] by blast
    have "s = oid_text (unat a # as)"
      using p as(1) oid_text_ne [of as] by (auto simp: parse_dotted_decimal_iff oid_text_Cons)
    then show ?thesis using as(2) unat_u64_bound [of a] by (intro exI [of _ "unat a # as"]) auto
  qed
qed

section \<open>Object identifiers from and to text\<close>

lemma CBB_flush_written_u8s:
  assumes "CBB_flush w d = (ok, w1)" and "wf_cbb w" and "bs \<noteq> []"
  shows "write_all CBB_add_u8 w d bs = (if ok then write_all CBB_add_u8 w1 d bs else (False, w1))"
proof -
  obtain b bs' where bs: "bs = b # bs'" using assms(3) by (cases bs) auto
  show ?thesis
  proof (cases ok)
    case True
    then show ?thesis using CBB_add_u8_flush [of w d w1] assms(1,2) by (simp add: bs)
  next
    case False
    then have "CBB_add_u8 w d b = (False, w1)" using assms(1) by (simp add: CBB_add_u8_def cbb_add_u_cases)
    then show ?thesis using False by (simp add: bs)
  qed
qed

lemma CBB_flush_base128:
  assumes "CBB_flush w d = (ok, w1)" and "wf_cbb w"
  shows "add_base128_integer w d v = (if ok then add_base128_integer w1 d v else (False, w1))"
proof -
  have "add_base128_integer w d v = write_all CBB_add_u8 w d (base128_enc (unat v))" for w
    by (simp add: add_base128_integer_def add_base128_loop_eq base128_octets_eq Let_def)
  moreover have "base128_enc (unat v) \<noteq> []" by (simp add: base128_enc_def)
  ultimately show ?thesis using CBB_flush_written_u8s [OF assms, of "base128_enc (unat v)"] by simp
qed

definition oid_words :: "nat list \<Rightarrow> u64 list" where
  "oid_words as = (case as of a # b # as \<Rightarrow> word_of_nat (40 * a + b) # map word_of_nat as | _ \<Rightarrow> [])"

lemma oid_words_enc: "arcs_ok as \<Longrightarrow> concat (map (\<lambda>v. base128_enc (unat v)) (oid_words as)) = oid_enc as \<and> oid_words as \<noteq> []"
proof (cases as rule: arcs_ok.cases)
  case (1 a b cs)
  assume ok: "arcs_ok as"
  then have "40 * a + b < 2 ^ 64" "\<forall>c\<in>set cs. c < 2 ^ 64" using 1 by auto
  then have u: "unat (word_of_nat (40 * a + b) :: u64) = 40 * a + b"
    and m: "map (\<lambda>v. base128_enc (unat (v :: u64))) (map word_of_nat cs) = map base128_enc cs"
    by (simp_all add: unat_u64_of_nat del: of_nat_add of_nat_mult)
  show ?thesis
    by (simp only: 1 oid_words_def list.case list.map(2) u m oid_enc.simps) simp
qed simp_all

lemma first_arc_checks:
  fixes a b :: u64
  shows "a > 2 \<or> (a < 2 \<and> b > 39) \<or> b > UINT64_MAX - 80 \<longleftrightarrow> \<not> arcs_ok (unat a # unat b # [])"
    and "arcs_ok (unat a # unat b # cs) \<Longrightarrow> 40 * a + b = word_of_nat (40 * unat a + unat b)"
  by (auto simp: UINT64_MAX_def word_less_nat_alt not_le not_less)

lemma oid_from_text_arcs:
  assumes "wf_cbb w" and "arcs_ok as"
  shows "CBB_add_asn1_oid_from_text w d (oid_text as) = write_all add_base128_integer w d (oid_words as)"
proof -
  obtain a b cs where as: "as = a # b # cs" using assms(2) by (cases as rule: arcs_ok.cases) auto
  let ?a = "word_of_nat a :: u64" and ?b = "word_of_nat b :: u64"
  have lt: "a < 2 ^ 64" "b < 2 ^ 64" "\<forall>c\<in>set cs. c < 2 ^ 64" using assms(2) as by auto
  then have u: "unat ?a = a" "unat ?b = b" by (simp_all add: unat_u64_of_nat)
  have p1: "parse_dotted_decimal (oid_text as) = (Some ?a, oid_text (b # cs))"
    using u oid_text_ne [of "b # cs"] by (simp add: parse_dotted_decimal_iff as oid_text_Cons)
  have p2: "parse_dotted_decimal (oid_text (b # cs)) = (Some ?b, oid_text cs)"
    using u oid_text_ne [of cs] by (auto simp: parse_dotted_decimal_iff oid_text_Cons)
  have ok: "\<not> (?a > 2 \<or> (?a < 2 \<and> ?b > 39) \<or> ?b > UINT64_MAX - 80)"
    unfolding first_arc_checks(1) u using assms(2) as by simp
  have sum: "40 * ?a + ?b = word_of_nat (40 * a + b)" by simp
  obtain okf w1 where fl: "CBB_flush w d = (okf, w1)" by (cases "CBB_flush w d")
  show ?thesis
    unfolding CBB_add_asn1_oid_from_text_def fl p1 p2 prod.case option.case if_not_P [OF ok] sum
    using CBB_flush_base128 [OF fl assms(1)] oid_from_text_loop_arcs [OF lt(3)]
    by (cases okf) (auto simp: as oid_words_def split: prod.split bool.split)
qed

lemma oid_from_text_only:
  assumes "wf_cbb w" and "CBB_add_asn1_oid_from_text w d text = (True, w')"
  shows "\<exists>as. text = oid_text as \<and> arcs_ok as"
proof -
  obtain w1 a s1 b s2 w2 where p1: "parse_dotted_decimal text = (Some a, s1)"
    and p2: "parse_dotted_decimal s1 = (Some b, s2)"
    and ok: "\<not> (a > 2 \<or> (a < 2 \<and> b > 39) \<or> b > UINT64_MAX - 80)"
    and rest: "oid_from_text_loop w2 d s2 = (True, w')"
    using assms(2) by (auto simp: CBB_add_asn1_oid_from_text_def split: prod.splits option.splits bool.splits if_splits)
  obtain cs where cs: "s2 = oid_text cs" "\<forall>c\<in>set cs. c < 2 ^ 64" using oid_from_text_loop_only [OF rest] by blast
  have s1: "s1 = oid_text (unat b # cs)"
    using p2 cs(1) oid_text_ne [of cs] by (auto simp: parse_dotted_decimal_iff oid_text_Cons)
  then have "text = oid_text (unat a # unat b # cs)"
    using p1 oid_text_ne [of "unat b # cs"] by (simp add: parse_dotted_decimal_iff oid_text_Cons [of "unat a"])
  moreover have "arcs_ok (unat a # unat b # cs)" using ok cs(2) unfolding first_arc_checks(1) by simp
  ultimately show ?thesis by blast
qed

text \<open>The writer accepts the texts of valid arc lists only, and appends their encoding.\<close>

theorem oid_from_text_True:
  assumes "wf_cbb w" and "CBB_add_asn1_oid_from_text w d text = (True, w')"
  shows "\<exists>as. text = oid_text as \<and> arcs_ok as \<and> succeeds w d w' (bd_append d (oid_enc as) (cbb_abs w)) \<and>
    cbb_chain w' = take d (cbb_chain w)"
proof -
  obtain as where as: "text = oid_text as" "arcs_ok as" using oid_from_text_only [OF assms] by blast
  then have wr: "write_all add_base128_integer w d (oid_words as) = (True, w')"
    using assms(2) oid_from_text_arcs [OF assms(1) as(2)] by simp
  have e: "concat (map (\<lambda>v. base128_enc (unat v)) (oid_words as)) = oid_enc as" "oid_words as \<noteq> []"
    using oid_words_enc [OF as(2)] by simp_all
  show ?thesis using base128_writer.write_all_True [OF assms(1) e(2) _ wr] e(1) as by auto
qed

interpretation oid_text_writer: cbb_writer "\<lambda>w d as. CBB_add_asn1_oid_from_text w d (oid_text as)" oid_enc arcs_ok
proof
  show "succeeds w d w' (bd_append d (oid_enc v) (cbb_abs w)) \<and> cbb_chain w' = take d (cbb_chain w)"
    if "wf_cbb w" "arcs_ok v" "CBB_add_asn1_oid_from_text w d (oid_text v) = (True, w')" for w d v w'
    using base128_writer.write_all_True [of w "oid_words v" d w'] oid_words_enc [OF that(2)] that
    by (simp add: oid_from_text_arcs)
  show "locked w d w'"
    if "wf_cbb w" "arcs_ok v" "CBB_add_asn1_oid_from_text w d (oid_text v) = (False, w')" for w d v w'
    using base128_writer.write_all_False [of w "oid_words v" d w'] that by (simp add: oid_from_text_arcs)
  show "\<exists>w'. CBB_add_asn1_oid_from_text w d (oid_text v) = (True, w')"
    if "wf_cbb w" "arcs_ok v" "roomy w d (length (oid_enc v))" for w d v
    using base128_writer.write_all_total [of w "oid_words v" d] oid_words_enc [OF that(2)] that
    by (simp add: oid_from_text_arcs)
  show "\<not> fst (CBB_add_asn1_oid_from_text w d (oid_text v))" if "bb_error (cbb_base w)" for w d v
    by (simp add: CBB_add_asn1_oid_from_text_def CBB_flush_error that)
qed

interpretation decimal_writer: cbb_writer add_decimal "\<lambda>v. decimal (unat v)" "\<lambda>v. length (decimal (unat v)) < SIZE_MOD"
  by (rule cbb_writer_via [OF bytes_writer.cbb_writer_axioms, where f = "\<lambda>v. decimal (unat v)"])
    (simp_all add: add_decimal_def bytes_writer.add_error)

lemma length_decimal: "n < 10 ^ Suc k \<Longrightarrow> length (decimal n) \<le> Suc k"
proof (induction k arbitrary: n)
  case 0
  then show ?case by (subst decimal.simps) simp
next
  case (Suc k)
  then have "n div 10 < 10 ^ Suc k" by (simp add: div_less_iff_less_mult mult.commute)
  then have "length (decimal (n div 10)) \<le> Suc k" by (rule Suc.IH)
  then show ?case by (subst decimal.simps) simp
qed

lemma length_decimal_20: "length (decimal (unat (v :: u64))) \<le> 20"
proof -
  have "unat v < 100000000000000000000" using unat_u64_bound [of v] by linarith
  then show ?thesis using length_decimal [of "unat v" 19] by simp
qed

lemma length_decimal_u64: "length (decimal (unat (v :: u64))) < SIZE_MOD"
  using length_decimal_20 [of v] by (simp add: SIZE_MOD_def)

lemma add_decimal_root:
  "root_has w bs \<Longrightarrow> length bs + length (decimal (unat v)) < SIZE_MOD \<Longrightarrow>
   \<exists>w'. add_decimal w 0 v = (True, w') \<and> root_has w' (bs @ decimal (unat v))"
  by (rule decimal_writer.root_step) (simp_all add: length_decimal_u64)

lemma oid_to_text_loop_root:
  assumes "root_has w bs" and "\<forall>c\<in>set cs. c < 2 ^ 64"
    and "length bs + length (concat (map (\<lambda>c. 0x2e # decimal c) cs)) < SIZE_MOD"
  shows "\<exists>w'. oid_to_text_loop w (concat (map base128_enc cs)) = (True, w') \<and>
    root_has w' (bs @ concat (map (\<lambda>c. 0x2e # decimal c) cs))"
  using assms
proof (induction cs arbitrary: w bs)
  case Nil
  then show ?case by (subst oid_to_text_loop.simps) simp
next
  case (Cons c cs)
  let ?v = "word_of_nat c :: u64"
  have u: "unat ?v = c" using Cons.prems(2) by (simp add: unat_u64_of_nat)
  have ne: "base128_enc c \<noteq> []" by (simp add: base128_enc_def)
  have p: "parse_base128_integer (base128_enc c @ concat (map base128_enc cs)) = (Some ?v, concat (map base128_enc cs))"
    by (simp add: parse_base128_integer_iff u)
  obtain w1 where w1: "CBB_add_u8 w 0 0x2e = (True, w1)" "root_has w1 (bs @ [0x2e])"
    using u8_writer.root_step [OF Cons.prems(1) TrueI, of "0x2e"] Cons.prems(3) by auto
  obtain w2 where w2: "add_decimal w1 0 ?v = (True, w2)" "root_has w2 ((bs @ [0x2e]) @ decimal c)"
    using add_decimal_root [OF w1(2), of ?v] Cons.prems(3) u by auto
  obtain w' where "oid_to_text_loop w2 (concat (map base128_enc cs)) = (True, w')"
    "root_has w' (((bs @ [0x2e]) @ decimal c) @ concat (map (\<lambda>c. 0x2e # decimal c) cs))"
    using Cons.IH [OF w2(2)] Cons.prems(2,3) by auto
  then show ?case
    using ne w1(1) w2(1) p by (subst oid_to_text_loop.simps) simp
qed

lemma oid_text_tail: "as \<noteq> [] \<Longrightarrow> oid_text as = decimal (hd as) @ concat (map (\<lambda>c. 0x2e # decimal c) (tl as))"
proof (induction as)
  case (Cons a as)
  then show ?case by (cases as) (simp_all add: oid_text_Cons)
qed simp

lemma oid_text_no_nul: "0 \<notin> set (oid_text as)"
proof -
  have "0 \<notin> set (decimal a)" for a using decimal_digits [of 0 a] by (auto simp: OPENSSL_isdigit_def)
  then show ?thesis by (induction as) (auto simp: oid_text_Cons)
qed

definition oid_head_text :: "cbb \<Rightarrow> u64 \<Rightarrow> bool \<times> cbb" where
  "oid_head_text w v =
     (if v \<ge> 80 then
        (case CBB_add_bytes w 0 [0x32, 0x2e] of
           (False, w1) \<Rightarrow> (False, w1)
         | (True, w1) \<Rightarrow> add_decimal w1 0 (v - 80))
      else
        (case add_decimal w 0 (v div 40) of
           (False, w1) \<Rightarrow> (False, w1)
         | (True, w1) \<Rightarrow> (case CBB_add_u8 w1 0 0x2e of
             (False, w2) \<Rightarrow> (False, w2)
           | (True, w2) \<Rightarrow> add_decimal w2 0 (v mod 40))))"

lemma oid_head_text_root:
  assumes "root_has w []" and ok: "arcs_ok [a, b]"
  shows "\<exists>w'. oid_head_text w (word_of_nat (40 * a + b)) = (True, w') \<and> root_has w' (decimal a @ 0x2e # decimal b)"
proof -
  define v where "v = (word_of_nat (40 * a + b) :: u64)"
  have u: "unat v = 40 * a + b" using ok by (simp add: v_def unat_u64_of_nat del: of_nat_add of_nat_mult)
  have lim: "length (decimal (unat x)) + 30 < SIZE_MOD" for x :: u64
    using length_decimal_20 [of x] by (simp add: SIZE_MOD_def)
  show ?thesis
  proof (cases "a = 2")
    case True
    then have ge: "v \<ge> 80" and sub: "unat (v - 80) = b"
      using u by (simp_all add: word_le_nat_alt unat_sub)
    have "decimal 2 = [0x32]" by (simp add: decimal.simps)
    moreover obtain w1 where w1: "CBB_add_bytes w 0 [0x32, 0x2e] = (True, w1)" "root_has w1 [0x32, 0x2e]"
      using bytes_writer.root_step [OF assms(1), of "[0x32, 0x2e]"] by (auto simp: SIZE_MOD_def)
    moreover obtain w2 where "add_decimal w1 0 (v - 80) = (True, w2)" "root_has w2 ([0x32, 0x2e] @ decimal b)"
      using add_decimal_root [OF w1(2), of "v - 80"] lim [of "v - 80"] sub by auto
    ultimately show ?thesis unfolding v_def [symmetric] using ge True by (simp add: oid_head_text_def)
  next
    case False
    then have ab: "a \<le> 1" "b \<le> 39" using ok by auto
    then have lt: "\<not> v \<ge> 80" and q: "unat (v div 40) = a" "unat (v mod 40) = b"
      using u by (simp_all add: word_le_nat_alt unat_div unat_mod)
    obtain w1 where w1: "add_decimal w 0 (v div 40) = (True, w1)" "root_has w1 (decimal a)"
      using add_decimal_root [OF assms(1), of "v div 40"] lim [of "v div 40"] q by auto
    obtain w2 where w2: "CBB_add_u8 w1 0 0x2e = (True, w2)" "root_has w2 (decimal a @ [0x2e])"
      using u8_writer.root_step [OF w1(2) TrueI, of "0x2e"] lim [of "v div 40"] q by auto
    have "length (decimal a) + length (decimal b) + 1 < SIZE_MOD"
      using length_decimal [of a 1] length_decimal [of b 1] ab by (simp add: SIZE_MOD_def)
    then obtain w3 where "add_decimal w2 0 (v mod 40) = (True, w3)" "root_has w3 ((decimal a @ [0x2e]) @ decimal b)"
      using add_decimal_root [OF w2(2), of "v mod 40"] q by auto
    then show ?thesis unfolding v_def [symmetric] using lt w1(1) w2(1) by (simp add: oid_head_text_def)
  qed
qed

theorem oid_to_text_arcs:
  assumes "\<forall>m. al m" and ok: "arcs_ok as" and len: "Suc (length (oid_text as)) < SIZE_MOD"
  shows "CBS_asn1_oid_to_text al (oid_enc as) = Some (oid_text as)"
proof -
  obtain a b cs where as: "as = a # b # cs" using ok by (cases as rule: arcs_ok.cases) auto
  have lt: "40 * a + b < 2 ^ 64" "\<forall>c\<in>set cs. c < 2 ^ 64" and ab: "arcs_ok [a, b]" using ok as by auto
  let ?v = "word_of_nat (40 * a + b) :: u64"
  have p: "parse_base128_integer (oid_enc as) = (Some ?v, concat (map base128_enc cs))"
    using lt(1) by (simp add: as parse_base128_integer_iff unat_u64_of_nat del: of_nat_add of_nat_mult)
  have tx: "oid_text as = (decimal a @ 0x2e # decimal b) @ concat (map (\<lambda>c. 0x2e # decimal c) cs)"
    using oid_text_tail [of as] by (simp add: as)
  obtain w where w: "CBB_init al 32 = Some w" "root_has w []"
    using CBB_init_root [OF assms(1), of 32] by (auto simp: SIZE_MOD_def)
  obtain w3 where w3: "oid_head_text w ?v = (True, w3)" "root_has w3 (decimal a @ 0x2e # decimal b)"
    using oid_head_text_root [OF w(2) ab] by blast
  obtain w4 where w4: "oid_to_text_loop w3 (concat (map base128_enc cs)) = (True, w4)" "root_has w4 (oid_text as)"
    using oid_to_text_loop_root [OF w3(2) lt(2)] len tx by auto
  obtain w5 where w5: "CBB_add_u8 w4 0 0 = (True, w5)" "root_has w5 (oid_text as @ [0])"
    using u8_writer.root_step [OF w4(2) TrueI, of 0] len by auto
  obtain r w6 where fin: "CBB_finish w5 0 True True = (r, w6)" by (cases "CBB_finish w5 0 True True")
  obtain buf where r: "r = Some (buf, Suc (length (oid_text as)))" "take (Suc (length (oid_text as))) buf = oid_text as @ [0]"
    using CBB_finish_root [OF w5(2) fin] by auto
  have "takeWhile (\<lambda>c. c \<noteq> 0) (oid_text as @ [0]) = oid_text as"
    using oid_text_no_nul [of as] by (subst takeWhile_append2) auto
  then show ?thesis
    using w(1) p w3(1) w4(1) w5(1) fin r
    by (simp add: CBS_asn1_oid_to_text_def oid_head_text_def [symmetric])
qed

end
