(* ===== verification/CbbProg.thy ===== *)
theory CbbProg
  imports CbbSet CbbOid
begin

text \<open>
  Programs over a builder: any sequence of writes, opened children, flushes and discards
  (\<^verbatim>\<open>crypto/bytestring/cbb.c\<close>) against the abstract builder, a stack of the contents of the open
  children.  A program that succeeds writes what the abstract builder says, and a failure that is
  ignored by the caller is found at the end.
\<close>

section \<open>Discarding a child\<close>

lemma wf_chain_nth: "wf_chain s cs len \<Longrightarrow> d < length cs \<Longrightarrow> s \<le> ch_offset (cs ! d) \<and> ch_offset (cs ! d) \<le> len \<and>
    start_at s cs d \<le> ch_offset (cs ! d)"
proof (induction cs arbitrary: s d)
  case (Cons c cs)
  have "ch_start c \<le> len" using Cons.prems(1) wf_chain_le by (metis wf_chain.simps(2))
  then show ?case using Cons by (cases d) (force simp: ch_start_def)+
qed simp

lemma frames_discard:
  "wf_chain s cs (length bs) \<Longrightarrow> d < length cs \<Longrightarrow>
   frames s (take (ch_offset (cs ! d)) bs) (take d cs) = take (Suc d) (frames s bs cs)"
proof (induction cs arbitrary: s d)
  case (Cons c cs)
  show ?case
  proof (cases d)
    case (Suc d')
    have "ch_offset c \<le> ch_start c" by (simp add: ch_start_def)
    moreover have "wf_chain (ch_start c) cs (length bs)" using Cons.prems(1) by simp
    then have "ch_start c \<le> ch_offset (cs ! d')" using wf_chain_nth Cons.prems(2) Suc by auto
    ultimately have "ch_offset c \<le> ch_offset (cs ! d')" by simp
    then have "take (ch_offset c) (take (ch_offset (cs ! d')) bs) = take (ch_offset c) bs" by (simp add: min_absorb1)
    then show ?thesis using Cons.IH [of "ch_start c" d'] Cons.prems Suc by simp
  qed simp
qed simp

lemma CBB_discard_child_spec:
  assumes "wf_cbb w"
  shows "wf_cbb (CBB_discard_child w d)" "cbb_abs (CBB_discard_child w d) = bd_discard d (cbb_abs w)"
    "bb_error (cbb_base (CBB_discard_child w d)) = bb_error (cbb_base w)"
    "bb_can_resize (cbb_base (CBB_discard_child w d)) = bb_can_resize (cbb_base w)"
    "cbb_alloc (CBB_discard_child w d) = cbb_alloc w"
proof -
  let ?cs = "cbb_chain w" and ?b = "cbb_base w"
  have wf: "wf_buf ?b" "wf_chain 0 ?cs (bb_len ?b)" using assms by (simp_all add: wf_cbb_def)
  have "wf_cbb (CBB_discard_child w d) \<and> cbb_abs (CBB_discard_child w d) = bd_discard d (cbb_abs w)"
  proof (cases "length ?cs \<le> d")
    case True
    then show ?thesis using assms by (simp add: CBB_discard_child_def bd_discard_def cbb_abs_def)
  next
    case False
    then have d: "d < length ?cs" by simp
    note n = wf_chain_nth [OF wf(2) d]
    have "take (ch_offset (?cs ! d)) (written ?b) = take (ch_offset (?cs ! d)) (bb_buf ?b)"
      using n by (simp add: written_def min_absorb1)
    moreover have "wf_chain 0 (take d ?cs) (ch_offset (?cs ! d))" using n wf(2) by (intro wf_chain_take) simp_all
    moreover have "wf_buf (?b\<lparr>bb_len := ch_offset (?cs ! d)\<rparr>)" using wf(1) n by (simp add: wf_buf_def)
    ultimately show ?thesis
      using False frames_discard [of 0 ?cs "written ?b" d] wf d
      by (simp add: CBB_discard_child_def wf_cbb_def cbb_abs_def bd_discard_def written_def [of "_\<lparr>bb_len := _\<rparr>"] take_map)
  qed
  then show "wf_cbb (CBB_discard_child w d)" "cbb_abs (CBB_discard_child w d) = bd_discard d (cbb_abs w)" by simp_all
  show "bb_error (cbb_base (CBB_discard_child w d)) = bb_error (cbb_base w)"
    "bb_can_resize (cbb_base (CBB_discard_child w d)) = bb_can_resize (cbb_base w)"
    "cbb_alloc (CBB_discard_child w d) = cbb_alloc w" by (simp_all add: CBB_discard_child_def)
qed

section \<open>Programs\<close>

datatype cbb_write = W_bytes "byte list" | W_zeros nat | W_u8 byte | W_u16 u16 | W_u24 u32 | W_u32 u32 | W_u64 u64
  | W_uint64 u64 | W_int64 u64 | W_octets "byte list" | W_bool bool

fun write_op :: "cbb \<Rightarrow> nat \<Rightarrow> cbb_write \<Rightarrow> bool \<times> cbb" where
  "write_op w d (W_bytes data) = CBB_add_bytes w d data"
| "write_op w d (W_zeros n) = CBB_add_zeros w d n"
| "write_op w d (W_u8 v) = CBB_add_u8 w d v"
| "write_op w d (W_u16 v) = CBB_add_u16 w d v"
| "write_op w d (W_u24 v) = CBB_add_u24 w d v"
| "write_op w d (W_u32 v) = CBB_add_u32 w d v"
| "write_op w d (W_u64 v) = CBB_add_u64 w d v"
| "write_op w d (W_uint64 v) = CBB_add_asn1_uint64 w d v"
| "write_op w d (W_int64 v) = CBB_add_asn1_int64 w d v"
| "write_op w d (W_octets data) = CBB_add_asn1_octet_string w d data"
| "write_op w d (W_bool v) = CBB_add_asn1_bool w d v"

fun write_enc :: "cbb_write \<Rightarrow> byte list" where
  "write_enc (W_bytes data) = data"
| "write_enc (W_zeros n) = replicate n 0"
| "write_enc (W_u8 v) = [v]"
| "write_enc (W_u16 v) = be_bytes 2 (unat v)"
| "write_enc (W_u24 v) = be_bytes 3 (unat v)"
| "write_enc (W_u32 v) = be_bytes 4 (unat v)"
| "write_enc (W_u64 v) = be_bytes 8 (unat v)"
| "write_enc (W_uint64 v) = der_enc CBS_ASN1_INTEGER (uint64_body v)"
| "write_enc (W_int64 v) = der_enc CBS_ASN1_INTEGER (int64_body v)"
| "write_enc (W_octets data) = der_enc CBS_ASN1_OCTETSTRING data"
| "write_enc (W_bool v) = der_enc CBS_ASN1_BOOLEAN [if v then 0xff else 0]"

fun write_ok :: "cbb_write \<Rightarrow> bool" where
  "write_ok (W_bytes data) = (length data < SIZE_MOD)"
| "write_ok (W_zeros n) = (n < SIZE_MOD)"
| "write_ok (W_u24 v) = (unat v < 2 ^ 24)"
| "write_ok (W_octets data) = (length data < SIZE_MOD \<and> length data \<le> 0xfffffffe)"
| "write_ok _ = True"

lemmas writers = bytes_writer.cbb_writer_axioms zeros_writer.cbb_writer_axioms u8_writer.cbb_writer_axioms
  u16_writer.cbb_writer_axioms u24_writer.cbb_writer_axioms u32_writer.cbb_writer_axioms u64_writer.cbb_writer_axioms
  uint64_writer.cbb_writer_axioms int64_writer.cbb_writer_axioms octet_string_writer.cbb_writer_axioms
  bool_writer.cbb_writer_axioms

interpretation any_writer: cbb_writer write_op write_enc write_ok
proof
  fix w w' :: cbb and d :: nat and v :: cbb_write
  show "succeeds w d w' (bd_append d (write_enc v) (cbb_abs w)) \<and> cbb_chain w' = take d (cbb_chain w)"
    if "wf_cbb w" "write_ok v" "write_op w d v = (True, w')"
    using that by (cases v) (auto dest: writers [THEN cbb_writer.add_True])
  show "locked w d w'" if "wf_cbb w" "write_ok v" "write_op w d v = (False, w')"
    using that by (cases v) (auto dest: writers [THEN cbb_writer.add_False])
  show "\<not> fst (write_op w d v)" if "bb_error (cbb_base w)"
    using that by (cases v) (auto dest: writers [THEN cbb_writer.add_error])
  show "\<exists>w'. write_op w d v = (True, w')" if "wf_cbb w" "write_ok v" "roomy w d (length (write_enc v))"
    using that by (cases v) (auto dest: writers [THEN cbb_writer.add_total])
qed

text \<open>
  Every other write fails, and locks the builder: a value too long for its width and an octet string too
  long for a length of four octets.  All that is asked of an argument is that its length is a \<^verbatim>\<open>size_t\<close>.
\<close>

fun write_sized :: "cbb_write \<Rightarrow> bool" where
  "write_sized (W_bytes data) = (length data < SIZE_MOD)"
| "write_sized (W_zeros n) = (n < SIZE_MOD)"
| "write_sized (W_octets data) = (length data < SIZE_MOD)"
| "write_sized _ = True"

lemma u24_too_wide:
  assumes "wf_cbb w" "\<not> unat v < 2 ^ 24"
  shows "\<exists>w'. CBB_add_u24 w d v = (False, w') \<and> locked w d w'"
proof -
  have u: "unat (ucast v :: u64) = unat v"
  proof -
    have "unat v < 18446744073709551616" using unat_u32_bound [of v] by linarith
    then show ?thesis by (simp add: unsigned_ucast_eq take_bit_nat_def)
  qed
  obtain ok w1 where a: "CBB_add_bytes w d (be_bytes 3 (unat v)) = (ok, w1)" by fastforce
  have e: "CBB_add_u24 w d v = (False, if ok then cbb_on_error w1 d else w1)"
    using assms(2) cbb_add_u_eq [OF assms(1), of 3 d "ucast v"] a
    unfolding CBB_add_u24_def u by (cases ok) (simp_all add: SIZE_MOD_def)
  have l: "length (be_bytes 3 (unat v)) < SIZE_MOD" by (simp add: SIZE_MOD_def)
  show ?thesis
  proof (cases ok)
    case True
    then have "wf_cbb w1" using bytes_writer.add_True [OF assms(1) l] a by (simp add: succeeds_def)
    then show ?thesis using e True locked_on_error by simp
  next
    case False
    then show ?thesis using e bytes_writer.add_False [OF assms(1) l] a by simp
  qed
qed

lemma octets_too_long:
  assumes w: "wf_cbb w" and n: "length data < SIZE_MOD" "\<not> length data \<le> 0xfffffffe"
  shows "\<exists>w'. CBB_add_asn1_octet_string w d data = (False, w') \<and> locked w d w'"
proof -
  have e: "CBB_add_asn1_octet_string w d data = element_op CBB_add_bytes CBS_ASN1_OCTETSTRING w d data"
    by (simp add: CBB_add_asn1_octet_string_def element_op_def)
  obtain ok w' where r: "element_op CBB_add_bytes CBS_ASN1_OCTETSTRING w d data = (ok, w')" by fastforce
  have "\<not> ok"
  proof
    assume ok
    then obtain w1 w2 where a: "CBB_add_asn1 w d CBS_ASN1_OCTETSTRING = (True, w1)" and c: "CBB_add_bytes w1 (Suc d) data = (True, w2)"
      and f: "CBB_flush w2 d = (True, w')"
      using r by (auto simp: element_op_def split: prod.splits bool.splits)
    note o = CBB_add_asn1_opens [OF a w, unfolded opens_def succeeds_def]
    then have w1: "wf_cbb w1" and d: "length (cbb_chain w1) = Suc d" "d \<le> length (cbb_chain w)" by simp_all
    note s = bytes_writer.add_True [OF w1 n(1) c, unfolded succeeds_def]
    then have "wf_cbb w2" by simp
    note t = CBB_flush_True(1) [OF f this, unfolded succeeds_def]
    obtain ks cs where k: "cbb_abs w = (ks, cs)" "length ks = length (cbb_chain w)" "length cs = Suc (length ks)"
      using chain_of_abs [of w] by (cases "cbb_abs w") simp
    have "cbb_abs w2 = (take d ks @ [Der_Length], take d cs @ [collapse (drop d ks) (drop d cs) @ tag_enc CBS_ASN1_OCTETSTRING, data])"
      using o s k d(2) by (simp add: bd_open_def bd_append_def bd_flush_def)
    then have "collapse_fits [Der_Length] [collapse (drop d ks) (drop d cs) @ tag_enc CBS_ASN1_OCTETSTRING, data]"
      using t k d(2) by simp
    then show False using n(2) by simp
  qed
  then show ?thesis using e r bytes_writer.element_False [OF w n(1)] by simp
qed

lemma write_refused:
  assumes "wf_cbb w" "write_sized v" "\<not> write_ok v"
  shows "\<exists>w'. write_op w d v = (False, w') \<and> locked w d w'"
  using assms(2,3) u24_too_wide [OF assms(1)] octets_too_long [OF assms(1)] by (cases v) simp_all

lemma write_op_True:
  assumes "wf_cbb w" "write_sized v" "write_op w d v = (True, w')"
  shows "succeeds w d w' (bd_append d (write_enc v) (cbb_abs w))"
  using write_refused [OF assms(1,2), of d] any_writer.add_True [OF assms(1) _ assms(3)] assms(3) by auto

lemma write_op_False:
  assumes "wf_cbb w" "write_sized v" "write_op w d v = (False, w')"
  shows "locked w d w'"
  using write_refused [OF assms(1,2), of d] any_writer.add_False [OF assms(1) _ assms(3)] assms(3) by auto

text \<open>An operation on the handle at depth \<open>d\<close>; the prefix of an opened child has one to three octets.\<close>

datatype cbb_op = Write nat cbb_write | Open_u8 nat | Open_u16 nat | Open_u24 nat | Open_asn1 nat asn1_tag
  | Flush nat | Discard nat

fun cbb_exec :: "cbb_op \<Rightarrow> cbb \<Rightarrow> bool \<times> cbb" where
  "cbb_exec (Write d v) w = write_op w d v"
| "cbb_exec (Open_u8 d) w = CBB_add_u8_length_prefixed w d"
| "cbb_exec (Open_u16 d) w = CBB_add_u16_length_prefixed w d"
| "cbb_exec (Open_u24 d) w = CBB_add_u24_length_prefixed w d"
| "cbb_exec (Open_asn1 d tag) w = CBB_add_asn1 w d tag"
| "cbb_exec (Flush d) w = CBB_flush w d"
| "cbb_exec (Discard d) w = (True, CBB_discard_child w d)"

fun op_ok :: "cbb_op \<Rightarrow> bool" where
  "op_ok (Write d v) = write_sized v"
| "op_ok _ = True"

fun spec_exec :: "cbb_op \<Rightarrow> builder \<Rightarrow> builder" where
  "spec_exec (Write d v) bd = bd_append d (write_enc v) bd"
| "spec_exec (Open_u8 d) bd = bd_open d (Fixed_Prefix 1) bd"
| "spec_exec (Open_u16 d) bd = bd_open d (Fixed_Prefix 2) bd"
| "spec_exec (Open_u24 d) bd = bd_open d (Fixed_Prefix 3) bd"
| "spec_exec (Open_asn1 d tag) bd = bd_open d Der_Length (bd_append d (tag_enc tag) bd)"
| "spec_exec (Flush d) bd = bd_flush d bd"
| "spec_exec (Discard d) bd = bd_discard d bd"

text \<open>A program stops at the first failure; a careless caller goes on.\<close>

fun cbb_run :: "cbb_op list \<Rightarrow> cbb \<Rightarrow> bool \<times> cbb" where
  "cbb_run [] w = (True, w)"
| "cbb_run (e # es) w = (case cbb_exec e w of (False, w) \<Rightarrow> (False, w) | (True, w) \<Rightarrow> cbb_run es w)"

definition cbb_run_careless :: "cbb_op list \<Rightarrow> cbb \<Rightarrow> cbb" where
  "cbb_run_careless es w = fold (\<lambda>e w. snd (cbb_exec e w)) es w"

lemma length_prefixed_locked:
  assumes "cbb_add_length_prefixed w d n = (False, w')" and "wf_cbb w"
  shows "locked w d w'"
proof (cases "CBB_flush w d")
  case (Pair ok w1)
  show ?thesis
  proof (cases ok)
    case False
    then show ?thesis using assms Pair CBB_flush_False by (simp add: cbb_add_length_prefixed_def)
  next
    case True
    then have "cbb_add_child w1 d n False = (False, w')" "wf_cbb w1"
      using assms Pair CBB_flush_True [of w d w1] by (simp_all add: cbb_add_length_prefixed_def succeeds_def)
    then show ?thesis using cbb_add_child_False by (simp add: locked_def)
  qed
qed

lemma cbb_exec_True:
  assumes "wf_cbb w" "op_ok e" "cbb_exec e w = (True, w')"
  shows "wf_cbb w' \<and> cbb_abs w' = spec_exec e (cbb_abs w) \<and> bb_error (cbb_base w') = bb_error (cbb_base w)
    \<and> bb_can_resize (cbb_base w') = bb_can_resize (cbb_base w) \<and> cbb_alloc w' = cbb_alloc w"
proof (cases e)
  case (Write d v)
  then show ?thesis using write_op_True [of w v d w'] assms by (simp add: succeeds_def)
next
  case (Open_asn1 d tag)
  then show ?thesis using CBB_add_asn1_opens [of w d tag w'] assms by (simp add: opens_def succeeds_def)
next
  case (Flush d)
  then show ?thesis using CBB_flush_True [of w d w'] assms by (simp add: succeeds_def)
next
  case (Discard d)
  then show ?thesis using CBB_discard_child_spec [OF assms(1), of d] assms(3) by auto
next
  case (Open_u8 d)
  then show ?thesis using length_prefixed_opens [of w d 1 w'] assms
    by (simp add: opens_def succeeds_def CBB_add_u8_length_prefixed_def SIZE_MOD_def)
next
  case (Open_u16 d)
  then show ?thesis using length_prefixed_opens [of w d 2 w'] assms
    by (simp add: opens_def succeeds_def CBB_add_u16_length_prefixed_def SIZE_MOD_def)
next
  case (Open_u24 d)
  then show ?thesis using length_prefixed_opens [of w d 3 w'] assms
    by (simp add: opens_def succeeds_def CBB_add_u24_length_prefixed_def SIZE_MOD_def)
qed

fun op_depth :: "cbb_op \<Rightarrow> nat" where
  "op_depth (Write d v) = d" | "op_depth (Open_u8 d) = d" | "op_depth (Open_u16 d) = d" | "op_depth (Open_u24 d) = d"
| "op_depth (Open_asn1 d tag) = d" | "op_depth (Flush d) = d" | "op_depth (Discard d) = d"

lemma cbb_exec_False:
  assumes "wf_cbb w" "op_ok e" "cbb_exec e w = (False, w')"
  shows "locked w (op_depth e) w'"
  using assms write_op_False CBB_flush_False CBB_add_asn1_False length_prefixed_locked
  by (cases e) (auto simp: CBB_add_u8_length_prefixed_def CBB_add_u16_length_prefixed_def CBB_add_u24_length_prefixed_def)

section \<open>Whole programs\<close>

lemma cbb_run_True:
  "wf_cbb w \<Longrightarrow> list_all op_ok es \<Longrightarrow> cbb_run es w = (True, w') \<Longrightarrow>
   wf_cbb w' \<and> cbb_abs w' = fold spec_exec es (cbb_abs w) \<and> bb_error (cbb_base w') = bb_error (cbb_base w)
   \<and> bb_can_resize (cbb_base w') = bb_can_resize (cbb_base w)"
proof (induction es arbitrary: w)
  case (Cons e es)
  obtain w1 where w1: "cbb_exec e w = (True, w1)" "cbb_run es w1 = (True, w')"
    using Cons.prems(3) by (auto split: prod.splits bool.splits)
  then show ?case using cbb_exec_True [of w e w1] Cons.IH [of w1] Cons.prems by simp
qed simp

lemma cbb_exec_wf: "wf_cbb w \<Longrightarrow> op_ok e \<Longrightarrow> wf_cbb (snd (cbb_exec e w))"
  using cbb_exec_True [of w e] cbb_exec_False [of w e] by (cases "cbb_exec e w"; cases "fst (cbb_exec e w)") (auto simp: locked_def)

lemma careless_wf: "wf_cbb w \<Longrightarrow> list_all op_ok es \<Longrightarrow> wf_cbb (cbb_run_careless es w)"
  by (induction es arbitrary: w) (simp_all add: cbb_run_careless_def cbb_exec_wf)

text \<open>An error mark stays: with the mark set every operation but a discard fails, and none clears it.\<close>

lemma error_after_flush: "bb_error (cbb_base w) \<Longrightarrow> CBB_flush w d = (False, w)"
  by (rule CBB_flush_error)

lemma error_add_asn1: "bb_error (cbb_base w) \<Longrightarrow> CBB_add_asn1 w d tag = (False, w)"
  by (simp add: CBB_add_asn1_def CBB_flush_error)

lemma error_add_space: "bb_error (cbb_base w) \<Longrightarrow> CBB_add_space w d n = (None, w)"
  by (simp add: CBB_add_space_def CBB_flush_error)

lemma write_op_error: "bb_error (cbb_base w) \<Longrightarrow> bb_error (cbb_base (snd (write_op w d v)))"
  by (cases v)
     (simp_all add: CBB_add_bytes_def CBB_add_zeros_def CBB_add_u8_def CBB_add_u16_def CBB_add_u24_def CBB_add_u32_def
       CBB_add_u64_def cbb_add_u_error error_add_space error_add_asn1 CBB_add_asn1_uint64_def CBB_add_asn1_uint64_with_tag_def
       CBB_add_asn1_int64_def CBB_add_asn1_int64_with_tag_def CBB_add_asn1_octet_string_def CBB_add_asn1_bool_def
       cbb_on_error_def Let_def)

lemma cbb_exec_error: "bb_error (cbb_base w) \<Longrightarrow> bb_error (cbb_base (snd (cbb_exec e w)))"
  by (cases e)
     (simp_all add: write_op_error CBB_add_u8_length_prefixed_def CBB_add_u16_length_prefixed_def
       CBB_add_u24_length_prefixed_def cbb_add_length_prefixed_def error_add_asn1 CBB_flush_error CBB_discard_child_def)

lemma careless_error: "bb_error (cbb_base w) \<Longrightarrow> bb_error (cbb_base (cbb_run_careless es w))"
  by (induction es arbitrary: w) (simp_all add: cbb_run_careless_def cbb_exec_error)

lemma init_ok:
  "CBB_init al n = Some w \<Longrightarrow> n < SIZE_MOD \<Longrightarrow> wf_cbb w \<and> cbb_abs w = ([], [[]]) \<and> \<not> bb_error (cbb_base w)"
  "length buf < SIZE_MOD \<Longrightarrow> wf_cbb (CBB_init_fixed al buf) \<and> cbb_abs (CBB_init_fixed al buf) = ([], [[]])
    \<and> \<not> bb_error (cbb_base (CBB_init_fixed al buf))"
  by (auto simp: CBB_init_def CBB_init_fixed_def cbb_init_def wf_cbb_def wf_buf_def cbb_abs_def written_def split: if_splits)

lemma finish_contents:
  assumes "wf_cbb w" "CBB_finish w 0 want_data want_len = (Some (buf, len), w')"
  shows "collapse (fst (cbb_abs w)) (snd (cbb_abs w)) = take len buf \<and> len \<le> length buf"
proof -
  obtain w1 where fl: "CBB_flush w 0 = (True, w1)" and b: "buf = bb_buf (cbb_base w1)" "len = bb_len (cbb_base w1)"
    using assms(2) by (auto simp: CBB_finish_def split: prod.splits bool.splits if_splits)
  note s = CBB_flush_True [OF fl assms(1)]
  have ch: "cbb_chain w1 = []" using s(2) by simp
  have "cbb_abs w1 = bd_flush 0 (cbb_abs w)" "wf_cbb w1" using s(1) by (simp_all add: succeeds_def)
  then have "([], [written (cbb_base w1)]) = ([], [collapse (fst (cbb_abs w)) (snd (cbb_abs w))])"
    using root_abs [OF ch] by (simp add: bd_flush_def split_beta)
  then show ?thesis using b \<open>wf_cbb w1\<close> by (simp add: written_def wf_cbb_def wf_buf_def)
qed

section \<open>Properties\<close>

text \<open>A SEQUENCE with two octets and a length-prefixed string inside, and its evaluation.\<close>

definition sample_prog :: "cbb_op list" where
  "sample_prog = [Open_asn1 0 0x20000010, Write 1 (W_bytes [1, 2]), Open_u16 1, Write 2 (W_u8 7), Flush 0]"

lemma write_be_2: "write_be off 2 v xs = write_be off (Suc (Suc 0)) v xs" by (simp add: numeral_2_eq_2)

lemma replicate_24: "replicate 2 (x :: 'a) = [x, x]" "replicate 4 (x :: 'a) = [x, x, x, x]" by (simp_all add: numeral_eq_Suc)

lemmas eval_defs = write_be_2 replicate_24 CBB_add_asn1_def CBB_flush_def CBB_add_bytes_def CBB_add_space_def cbb_buffer_add_def cbb_buffer_reserve_def
  cbb_add_child_def CBB_add_u8_def cbb_add_u_def CBB_add_u16_length_prefixed_def cbb_add_length_prefixed_def size_add_def SIZE_MOD_def
  CBB_finish_def buf_write_def overwrite_def child_start_def cbb_init_def CBB_init_def sample_root_def Let_def
  CBS_ASN1_TAG_SHIFT_def CBS_ASN1_TAG_NUMBER_MASK_def flush_child_def ch_start_def

lemma sample_prog_runs:
  "(case cbb_run sample_prog sample_root of (ok, w) \<Rightarrow> (case CBB_finish w 0 True True of (r, w') \<Rightarrow> ok \<and> map_option (\<lambda>(buf, len). take len buf) r =
     Some [0x30, 5, 1, 2, 0, 1, 7]))"
  unfolding sample_prog_def
  by (simp add: eval_defs)

lemma sample_init: "CBB_init (\<lambda>n. True) 4 = Some sample_root"
  by (simp add: sample_root_def CBB_init_def)

lemma sample_prog_ok: "list_all op_ok sample_prog"
  by (simp add: sample_prog_def SIZE_MOD_def)

lemma sample_prog_result:
  obtains w buf len w' where "cbb_run sample_prog sample_root = (True, w)"
    "CBB_finish w 0 True True = (Some (buf, len), w')" "take len buf = [0x30, 5, 1, 2, 0, 1, 7]"
  using sample_prog_runs by (auto split: prod.splits)

text \<open>
  C2. The builder refines its specification.  A program of writes, opened children, flushes and
  discards at any depth, run on a fresh builder (growing or over a fixed array) until its end, and
  finished with success, leaves exactly the bytes the abstract builder collects: the contents of every
  child behind its length prefix, whatever the allocator did in between and however often the buffer
  moved.
\<close>

theorem cbb_program_refines:
  assumes "CBB_init al n = Some w0 \<and> n < SIZE_MOD \<or> w0 = CBB_init_fixed al buf0 \<and> length buf0 < SIZE_MOD"
    and "list_all op_ok es" "cbb_run es w0 = (True, w)"
    and "CBB_finish w 0 want_data want_len = (Some (buf, len), w')"
  shows "case fold spec_exec es ([], [[]]) of (ks, cs) \<Rightarrow> take len buf = collapse ks cs"
proof -
  have "wf_cbb w0" "cbb_abs w0 = ([], [[]])" using assms(1) init_ok by auto
  then show ?thesis
    using cbb_run_True [OF _ assms(2,3)] finish_contents [OF _ assms(4)] by (simp add: split_beta)
qed

theorem cbb_program_refines_witness:
  "\<exists>w buf len w'. cbb_run sample_prog sample_root = (True, w) \<and> CBB_finish w 0 True True = (Some (buf, len), w')
    \<and> take len buf = [0x30, 5, 1, 2, 0, 1, 7]
    \<and> (case fold spec_exec sample_prog ([], [[]]) of (ks, cs) \<Rightarrow> take len buf = collapse ks cs)"
proof (rule sample_prog_result)
  fix w buf len w' assume a: "cbb_run sample_prog sample_root = (True, w)"
    "CBB_finish w 0 True True = (Some (buf, len), w')" "take len buf = [0x30, 5, 1, 2, 0, 1, 7]"
  have "case fold spec_exec sample_prog ([], [[]]) of (ks, cs) \<Rightarrow> take len buf = collapse ks cs"
    by (rule cbb_program_refines [OF _ sample_prog_ok a(1,2)]) (use sample_init in \<open>auto simp: SIZE_MOD_def\<close>)
  with a show ?thesis by (intro exI conjI)
qed

text \<open>
  C21. A failure is never lost.  When an operation on an attached child fails, then whatever the caller
  goes on to do with the builder, ignoring every result, \<^verbatim>\<open>CBB_finish\<close> fails: no truncated output
  can be taken for a whole one.
\<close>

theorem cbb_failure_sticks:
  assumes "wf_cbb w" "op_ok e" "op_depth e \<le> length (cbb_chain w)" "cbb_exec e w = (False, w')"
  shows "fst (CBB_finish (cbb_run_careless es w') d want_data want_len) = None"
proof -
  have "bb_error (cbb_base w')" using cbb_exec_False [OF assms(1,2,4)] assms(3) by (simp add: locked_def)
  then have "bb_error (cbb_base (cbb_run_careless es w'))" by (rule careless_error)
  then show ?thesis by (simp add: CBB_finish_def CBB_flush_error)
qed

theorem cbb_failure_sticks_witness:
  "fst (CBB_finish (cbb_run_careless [Write 0 (W_u8 5)] (snd (cbb_exec (Write 0 (W_u24 0x1000000)) sample_root))) 0 True True) = None"
proof (rule cbb_failure_sticks)
  have "wf_cbb sample_root" using init_ok(1) [OF sample_init] by (simp add: SIZE_MOD_def)
  then show "wf_cbb sample_root"
    "cbb_exec (Write 0 (W_u24 0x1000000)) sample_root = (False, snd (cbb_exec (Write 0 (W_u24 0x1000000)) sample_root))"
    using u24_too_wide [of sample_root "0x1000000" 0] by auto
qed simp_all

text \<open>
  C27. Every state a builder can get into is well formed, also after failures: the length is within the
  capacity, the capacity is the size of the array, and the open children lie one inside the other, each
  with its length prefix inside what is written.
\<close>

theorem cbb_states_well_formed:
  assumes "CBB_init al n = Some w0 \<and> n < SIZE_MOD \<or> w0 = CBB_init_fixed al buf0 \<and> length buf0 < SIZE_MOD"
    and "list_all op_ok es"
  shows "let w = cbb_run_careless es w0; b = cbb_base w in
    bb_len b \<le> bb_cap b \<and> bb_cap b = length (bb_buf b) \<and> bb_cap b < SIZE_MOD \<and> wf_chain 0 (cbb_chain w) (bb_len b)"
proof -
  have "wf_cbb w0" using assms(1) init_ok by auto
  from careless_wf [OF this assms(2)] show ?thesis by (simp add: Let_def wf_cbb_def wf_buf_def)
qed

theorem cbb_states_well_formed_witness:
  "let w = cbb_run_careless (sample_prog @ [Write 3 (W_u8 1), Discard 0]) sample_root; b = cbb_base w in
    bb_len b \<le> bb_cap b \<and> bb_cap b = length (bb_buf b) \<and> bb_cap b < SIZE_MOD \<and> wf_chain 0 (cbb_chain w) (bb_len b)"
  by (rule cbb_states_well_formed) (use sample_init sample_prog_ok in \<open>auto simp: SIZE_MOD_def\<close>)

end
