(* ===== verification/DerProps.thy ===== *)
theory DerProps
  imports CbbProg
begin

text \<open>
  What the reader and the writer of DER (\<^verbatim>\<open>crypto/bytestring/cbs.c\<close>, \<^verbatim>\<open>cbb.c\<close>) promise together: the
  readers accept exactly the distinguished encodings, never look behind what they consume, and the
  writers of object identifiers and of SET OF produce the canonical forms.
\<close>

text \<open>
  C1. The reader of elements is exact: \<^verbatim>\<open>CBS_get_any_asn1\<close> returns the tag and contents of an element
  and a rest just when the input is the distinguished encoding of that tag and those contents, followed
  by the rest; \<^verbatim>\<open>CBS_get_asn1\<close> and \<^verbatim>\<open>CBS_get_asn1_element\<close> are its restrictions to one tag.
\<close>

theorem der_element_exact:
  "(CBS_get_any_asn1 s = (Some (c, t), r) \<longleftrightarrow> tag_ok t \<and> length c < 2 ^ 32 \<and> s = der_enc t c @ r) \<and>
   (CBS_get_asn1 s t = (Some c, r) \<longleftrightarrow> tag_ok t \<and> length c < 2 ^ 32 \<and> s = der_enc t c @ r) \<and>
   (CBS_get_asn1_element s t = (Some x, r) \<longleftrightarrow>
     (\<exists>c. tag_ok t \<and> length c < 2 ^ 32 \<and> x = der_enc t c \<and> s = x @ r))"
  using CBS_get_any_asn1_iff CBS_get_asn1_iff CBS_get_asn1_element_iff by blast+

text \<open>
  C26. A reader never reads beyond its input or behind what it consumes: the element with its header is a
  prefix of the input and the rest follows it, at least one byte is consumed, and a failure, in DER or BER,
  leaves the cursor where it was.
\<close>

theorem element_reader_safe:
  "case cbs_get_any_asn1_element ber_ok s of
     (None, r) \<Rightarrow> r = s
   | (Some e, r) \<Rightarrow> s = out e @ r \<and> length r < length s \<and> out_header_len e \<le> length (out e)"
proof (cases "cbs_get_any_asn1_element ber_ok s")
  case (Pair res r)
  show ?thesis
  proof (cases res)
    case None
    then show ?thesis using Pair element_failure_keeps_cursor by simp
  next
    case (Some e)
    from Pair have "cbs_get_any_asn1_element ber_ok s = (Some e, r)" using Some by simp
    then show ?thesis
    proof (cases rule: element_cases)
      case (short lb h)
      then show ?thesis using Pair Some by simp
    next
      case (indefinite lb)
      then show ?thesis using Pair Some by simp
    next
      case (long lb lbs h)
      then show ?thesis using Pair Some by simp
    qed
  qed
qed

text \<open>
  C10. Only shortest integers are accepted: \<^verbatim>\<open>CBS_is_valid_asn1_integer\<close> holds just for the contents that
  no shorter contents with the same two's complement value replaces, and reports the sign; the readers of
  64-bit integers return the value of exactly those that fit.
\<close>

theorem asn1_integers_minimal:
  "(CBS_is_valid_asn1_integer s = Some neg \<longleftrightarrow>
     s \<noteq> [] \<and> \<not> (\<exists>t. t \<noteq> [] \<and> twos_val t = twos_val s \<and> length t < length s) \<and> neg = (twos_val s < 0)) \<and>
   (CBS_get_asn1_uint64 s = (Some u, r) \<longleftrightarrow>
     (\<exists>c. s = der_enc CBS_ASN1_INTEGER c @ r \<and> length c < 2 ^ 32 \<and>
        CBS_is_valid_asn1_integer c \<noteq> None \<and> twos_val c = uint u)) \<and>
   (CBS_get_asn1_int64 s = (Some i, r) \<longleftrightarrow>
     (\<exists>c. s = der_enc CBS_ASN1_INTEGER c @ r \<and> length c < 2 ^ 32 \<and>
        CBS_is_valid_asn1_integer c \<noteq> None \<and> twos_val c = sint i))"
  using valid_asn1_integer_iff [of s neg] CBS_get_asn1_uint64_iff CBS_get_asn1_int64_iff by (auto simp: not_less)

text \<open>
  C22. Object identifiers survive the way through DER: for every list of arcs that can be encoded, the
  text form is accepted by \<^verbatim>\<open>CBB_add_asn1_oid_from_text\<close>, the bytes it appends are valid contents, and
  \<^verbatim>\<open>CBS_asn1_oid_to_text\<close> prints them as the same text.
\<close>

theorem oid_text_roundtrip:
  assumes "root_has w bs" "arcs_ok as" "length bs + length (oid_enc as) < SIZE_MOD"
    and "\<forall>n. al n" "Suc (length (oid_text as)) < SIZE_MOD"
  shows "\<exists>w' e. CBB_add_asn1_oid_from_text w 0 (oid_text as) = (True, w') \<and> root_has w' (bs @ e)
    \<and> CBS_is_valid_asn1_oid e \<and> CBS_asn1_oid_to_text al e = Some (oid_text as)"
proof -
  have "oid_enc as = concat (map base128_enc (map unat (oid_words as)))" "oid_words as \<noteq> []"
    using oid_words_enc [OF assms(2)] by (simp_all add: comp_def)
  moreover have "base128_enc n \<noteq> []" for n by (simp add: base128_enc_def)
  ultimately have "\<exists>ms. oid_enc as = concat (map base128_enc ms)" "oid_enc as \<noteq> []"
    by (blast, cases "oid_words as") simp_all
  then have "CBS_is_valid_asn1_oid (oid_enc as)" unfolding CBS_is_valid_asn1_oid_iff by blast
  moreover obtain w' where "CBB_add_asn1_oid_from_text w 0 (oid_text as) = (True, w')" "root_has w' (bs @ oid_enc as)"
    using oid_text_writer.root_step [OF assms(1,2,3)] by blast
  ultimately show ?thesis using oid_to_text_arcs [OF assms(4,2,5)] by blast
qed

theorem oid_text_roundtrip_witness:
  "oid_text [1, 2, 840] = [49, 46, 50, 46, 56, 52, 48]
    \<and> (\<exists>w' e. CBB_add_asn1_oid_from_text sample_root 0 (oid_text [1, 2, 840]) = (True, w') \<and> root_has w' ([] @ e)
    \<and> CBS_is_valid_asn1_oid e \<and> CBS_asn1_oid_to_text (\<lambda>n. True) e = Some (oid_text [1, 2, 840]))"
proof -
  have t: "oid_text [1, 2, 840] = [49, 46, 50, 46, 56, 52, 48]" by (simp add: decimal.simps)
  have e: "oid_enc [1, 2, 840] = [42, 134, 72]" by (simp add: base128_enc_def base128_high.simps)
  have l: "length ([] :: byte list) + length (oid_enc [1, 2, 840]) < SIZE_MOD" "Suc (length (oid_text [1, 2, 840])) < SIZE_MOD"
    unfolding e t by (simp_all add: SIZE_MOD_def)
  have "arcs_ok [1, 2, 840]" "\<forall>n :: nat. (\<lambda>n. True) n" by simp_all
  note r = oid_text_roundtrip [OF sample_root_has this(1) l(1) this(2) l(2)]
  show ?thesis by (intro conjI t r)
qed

text \<open>
  C23. \<^verbatim>\<open>CBB_flush_asn1_set_of\<close> makes a SET OF canonical: on success the contents were a sequence of DER
  elements, and afterwards they are the same elements in ascending order of their encodings.
\<close>

theorem set_of_canonical:
  assumes "wf_cbb w" "CBB_flush_asn1_set_of w d = (True, w')"
  shows "\<exists>es es'. list_all (\<lambda>x. \<exists>c t. CBS_get_any_asn1 x = (Some (c, t), [])) es
    \<and> snd (bd_flush d (cbb_abs w)) ! d = concat es \<and> snd (cbb_abs w') ! d = concat es'
    \<and> mset es' = mset es \<and> sorted es'"
proof -
  obtain es where es: "der_elements es" "collapse (drop d (fst (cbb_abs w))) (drop d (snd (cbb_abs w))) = concat es"
    "succeeds w d w' (bd_set_of d es (cbb_abs w))"
    using CBB_flush_asn1_set_of_True [OF assms] by blast
  have d: "d \<le> length (snd (cbb_abs w))" using es(3) by (simp add: succeeds_def cbb_abs_def)
  have "list_all (\<lambda>x. \<exists>c t. CBS_get_any_asn1 x = (Some (c, t), [])) es"
    using es(1) unfolding der_elements_def list_all_iff CBS_get_any_asn1_iff append_Nil2 by blast
  moreover have "snd (bd_flush d (cbb_abs w)) ! d = concat es"
    using es(2) d by (simp add: bd_flush_def split_beta nth_append)
  moreover have "snd (cbb_abs w') ! d = concat (sort es)"
    using es(3) d by (simp add: succeeds_def bd_set_of_def nth_append)
  ultimately show ?thesis by (intro exI [of _ es] exI [of _ "sort es"]) simp
qed

theorem set_of_canonical_witness:
  "\<exists>w w' es es'. root_has w [2, 1, 5, 2, 1, 3] \<and> CBB_flush_asn1_set_of w 0 = (True, w')
    \<and> list_all (\<lambda>x. \<exists>c t. CBS_get_any_asn1 x = (Some (c, t), [])) es
    \<and> snd (bd_flush 0 (cbb_abs w)) ! 0 = concat es \<and> snd (cbb_abs w') ! 0 = concat es'
    \<and> mset es' = mset es \<and> sorted es'"
proof -
  let ?e = "\<lambda>v. der_enc CBS_ASN1_INTEGER [v]"
  have en: "?e v = [2, 1, v]" for v
    by (simp add: der_enc_def tag_enc_def len_enc_def tag_number_def tag_class_def CBS_ASN1_INTEGER_def)
  obtain w where w: "root_has w ([] @ write_enc (W_bytes [2, 1, 5, 2, 1, 3]))"
    using any_writer.root_step [OF sample_root_has, of "W_bytes [2, 1, 5, 2, 1, 3]"] by (auto simp: SIZE_MOD_def)
  have "der_elements [?e 5, ?e 3]" by (auto simp: der_elements_def tag_ok_def CBS_ASN1_INTEGER_def CBS_ASN1_CONSTRUCTED_def intro!: exI)
  from children_of_elements [OF this] have c: "count_children [2, 1, 5, 2, 1, 3] = Some 2" "get_children 2 [2, 1, 5, 2, 1, 3] = Some [[2, 1, 5], [2, 1, 3]]"
    unfolding en by (simp_all add: numeral_2_eq_2)
  have wf: "wf_cbb w" using w by (simp add: root_has_def)
  have "written (cbb_base w) = [2, 1, 5, 2, 1, 3]" "cbb_chain w = []" "wf_cbb w" "\<not> bb_error (cbb_base w)" "\<forall>n. cbb_alloc w n"
    using w by (simp_all add: root_has_def)
  moreover from this have "0 < bb_len (cbb_base w)" by (cases "bb_len (cbb_base w)") (simp_all add: written_def)
  ultimately have "fst (CBB_flush_asn1_set_of w 0)"
    using c by (auto simp: CBB_flush_asn1_set_of_def CBB_flush_def CBB_len_def CBB_data_def child_start_def written_def Let_def)
  then obtain w' where w': "CBB_flush_asn1_set_of w 0 = (True, w')" by (metis prod.collapse)
  from set_of_canonical [OF wf w'] w w' show ?thesis by auto
qed

end
