(* ===== verification/Ber.thy ===== *)
theory Ber
  imports CbbSet
begin

text \<open>
  The conversion of BER to DER (\<^verbatim>\<open>crypto/bytestring/ber.c\<close>): a scan that looks for indefinite lengths
  and constructed strings, a reader over a \<open>cbs\<close> that drives the writer of a \<open>cbb\<close>, and the reader of
  strings with an implicit tag.  The recursions go down at most \<open>kMaxDepth\<close> levels and, as every element
  consumes input, they end.
\<close>

section \<open>The code\<close>

definition kMaxDepth :: nat where "kMaxDepth = 128"

definition CBS_ASN1_UTF8STRING :: asn1_tag where "CBS_ASN1_UTF8STRING = 0xc"
definition CBS_ASN1_NUMERICSTRING :: asn1_tag where "CBS_ASN1_NUMERICSTRING = 0x12"
definition CBS_ASN1_PRINTABLESTRING :: asn1_tag where "CBS_ASN1_PRINTABLESTRING = 0x13"
definition CBS_ASN1_T61STRING :: asn1_tag where "CBS_ASN1_T61STRING = 0x14"
definition CBS_ASN1_VIDEOTEXSTRING :: asn1_tag where "CBS_ASN1_VIDEOTEXSTRING = 0x15"
definition CBS_ASN1_IA5STRING :: asn1_tag where "CBS_ASN1_IA5STRING = 0x16"
definition CBS_ASN1_GRAPHICSTRING :: asn1_tag where "CBS_ASN1_GRAPHICSTRING = 0x19"
definition CBS_ASN1_VISIBLESTRING :: asn1_tag where "CBS_ASN1_VISIBLESTRING = 0x1a"
definition CBS_ASN1_GENERALSTRING :: asn1_tag where "CBS_ASN1_GENERALSTRING = 0x1b"
definition CBS_ASN1_UNIVERSALSTRING :: asn1_tag where "CBS_ASN1_UNIVERSALSTRING = 0x1c"
definition CBS_ASN1_BMPSTRING :: asn1_tag where "CBS_ASN1_BMPSTRING = 0x1e"

lemmas string_tag_defs = CBS_ASN1_OCTETSTRING_def CBS_ASN1_UTF8STRING_def CBS_ASN1_NUMERICSTRING_def
  CBS_ASN1_PRINTABLESTRING_def CBS_ASN1_T61STRING_def CBS_ASN1_VIDEOTEXSTRING_def CBS_ASN1_IA5STRING_def
  CBS_ASN1_GRAPHICSTRING_def CBS_ASN1_VISIBLESTRING_def CBS_ASN1_GENERALSTRING_def CBS_ASN1_UNIVERSALSTRING_def
  CBS_ASN1_BMPSTRING_def

definition is_string_type :: "asn1_tag \<Rightarrow> bool" where
  "is_string_type tag = (tag AND NOT CBS_ASN1_CONSTRUCTED \<in>
     {CBS_ASN1_OCTETSTRING, CBS_ASN1_UTF8STRING, CBS_ASN1_NUMERICSTRING, CBS_ASN1_PRINTABLESTRING,
      CBS_ASN1_T61STRING, CBS_ASN1_VIDEOTEXSTRING, CBS_ASN1_IA5STRING, CBS_ASN1_GRAPHICSTRING,
      CBS_ASN1_VISIBLESTRING, CBS_ASN1_GENERALSTRING, CBS_ASN1_UNIVERSALSTRING, CBS_ASN1_BMPSTRING})"

abbreviation constructed :: "asn1_tag \<Rightarrow> bool" where
  "constructed tag \<equiv> tag AND CBS_ASN1_CONSTRUCTED \<noteq> 0"

text \<open>What the element readers consume is what drives the recursions.\<close>

lemma ber_element_parts:
  assumes "CBS_get_any_ber_asn1_element s = (Some e, r)"
  shows "s = out e @ r \<and> length r < length s \<and> 0 < out_header_len e \<and> out_header_len e \<le> length (out e)"
  using assms unfolding CBS_get_any_ber_asn1_element_def by (cases rule: element_cases) simp_all

lemma ber_element_shorter:
  "CBS_get_any_ber_asn1_element s = (Some e, r) \<Longrightarrow> length r < length s"
  "CBS_get_any_ber_asn1_element s = (Some e, r) \<Longrightarrow> CBS_skip (out e) (out_header_len e) = (Some u, c) \<Longrightarrow>
    length c < length s"
  using ber_element_parts [of s e r] by (auto simp: CBS_skip_def cbs_get_def split: if_splits)

text \<open>\<^verbatim>\<open>cbs_find_ber\<close>: \<open>None\<close> on an error, else whether an indefinite length or a constructed string was found.\<close>

function cbs_find_ber :: "cbs \<Rightarrow> nat \<Rightarrow> bool option" where
  "cbs_find_ber s depth =
     (if depth > kMaxDepth then None
      else if length s > 0 then
        (case CBS_get_any_ber_asn1_element s of
           (None, _) \<Rightarrow> None
         | (Some e, r) \<Rightarrow>
             if out_ber_found e then Some True
             else if constructed (out_tag e) then
               if is_string_type (out_tag e) then Some True
               else (case CBS_skip (out e) (out_header_len e) of
                   (None, _) \<Rightarrow> None
                 | (Some _, contents) \<Rightarrow> (case cbs_find_ber contents (depth + 1) of
                     None \<Rightarrow> None
                   | Some True \<Rightarrow> Some True
                   | Some False \<Rightarrow> cbs_find_ber r depth))
             else cbs_find_ber r depth)
      else Some False)"
  by pat_completeness auto
termination
  by (relation "measure (\<lambda>(s, depth). length s)") (auto dest: ber_element_shorter [OF sym] ber_element_shorter(2) [OF sym sym])

declare cbs_find_ber.simps [simp del]

definition cbs_get_eoc :: "cbs \<Rightarrow> bool \<times> cbs" where
  "cbs_get_eoc s = (if length s \<ge> 2 \<and> s ! 0 = 0 \<and> s ! 1 = 0 then (True, snd (CBS_skip s 2)) else (False, s))"

text \<open>
  Where the contents of an element go: into the builder itself, for a fragment of a string with the
  tag \<open>string_tag\<close>, and otherwise into a new child, opened with the tag of the element, primitive for
  a constructed string.  The second component of \<open>ber_target\<close> is the string tag for what is inside.
\<close>

definition ber_child_tag :: "asn1_tag \<Rightarrow> asn1_tag \<Rightarrow> asn1_tag" where
  "ber_child_tag string_tag tag =
     (if string_tag = 0 \<and> constructed tag \<and> is_string_type tag then tag AND NOT CBS_ASN1_CONSTRUCTED else string_tag)"

definition ber_open :: "asn1_tag \<Rightarrow> asn1_tag \<Rightarrow> cbb \<Rightarrow> nat \<Rightarrow> bool \<times> cbb" where
  "ber_open string_tag tag w d =
     (if string_tag \<noteq> 0 then (tag AND NOT CBS_ASN1_CONSTRUCTED = string_tag, w)
      else CBB_add_asn1 w d
        (if constructed tag \<and> is_string_type tag then tag AND NOT CBS_ASN1_CONSTRUCTED else tag))"

lemma cbs_get_eoc_shorter: "length (snd (cbs_get_eoc s)) \<le> length s"
  by (simp add: cbs_get_eoc_def CBS_skip_def cbs_get_def)

lemma ber_element_rest: "CBS_get_any_ber_asn1_element s = (x, r) \<Longrightarrow> length r \<le> length s"
  using ber_element_parts [of s _ r] element_failure_keeps_cursor [of True s r]
  by (cases x) (auto simp: CBS_get_any_ber_asn1_element_def)

text \<open>
  \<^verbatim>\<open>cbs_convert_ber\<close> into the builder at depth \<open>d\<close>: success, the rest of the input, the builder.
  A null \<^verbatim>\<open>string_tag\<close> is 0, as in the code.
\<close>

function cbs_convert_ber :: "cbs \<Rightarrow> cbb \<Rightarrow> nat \<Rightarrow> asn1_tag \<Rightarrow> bool \<Rightarrow> nat \<Rightarrow> bool \<times> cbs \<times> cbb" where
  "cbs_convert_ber s w d string_tag looking_for_eoc depth =
     (if depth > kMaxDepth then (False, s, w)
      else if length s > 0 then
        if looking_for_eoc \<and> fst (cbs_get_eoc s) then (True, snd (cbs_get_eoc s), w)
        else
        (case CBS_get_any_ber_asn1_element s of
           (None, s1) \<Rightarrow> (False, s1, w)
         | (Some e, s1) \<Rightarrow> (case ber_open string_tag (out_tag e) w d of
             (False, w1) \<Rightarrow> (False, s1, w1)
           | (True, w1) \<Rightarrow>
              let d_contents = (if string_tag \<noteq> 0 then d else Suc d);
                  child_string_tag = ber_child_tag string_tag (out_tag e)
              in if out_indefinite e then
                (case cbs_convert_ber s1 w1 d_contents child_string_tag True (depth + 1) of
                   (False, s2, w2) \<Rightarrow> (False, s2, w2)
                 | (True, s2, w2) \<Rightarrow> (case CBB_flush w2 d of
                     (False, w3) \<Rightarrow> (False, s2, w3)
                   | (True, w3) \<Rightarrow> cbs_convert_ber s2 w3 d string_tag looking_for_eoc depth))
              else
                (case CBS_skip (out e) (out_header_len e) of
                   (None, _) \<Rightarrow> (False, s1, w1)
                 | (Some _, contents) \<Rightarrow>
                    (case (if constructed (out_tag e) then
                          (case cbs_convert_ber contents w1 d_contents child_string_tag False (depth + 1) of
                             (ok, _, w2) \<Rightarrow> (ok, w2))
                        else CBB_add_bytes w1 d_contents contents) of
                       (False, w2) \<Rightarrow> (False, s1, w2)
                     | (True, w2) \<Rightarrow> (case CBB_flush w2 d of
                         (False, w3) \<Rightarrow> (False, s1, w3)
                       | (True, w3) \<Rightarrow> cbs_convert_ber s1 w3 d string_tag looking_for_eoc depth)))))
      else (\<not> looking_for_eoc, s, w))"
  by pat_completeness auto

termination
proof -
  have rest: "length (fst (snd (cbs_convert_ber s w d string_tag looking_for_eoc depth))) \<le> length s"
    if "cbs_convert_ber_dom (s, w, d, string_tag, looking_for_eoc, depth)" for s w d string_tag looking_for_eoc depth
    using that
  proof (induction rule: cbs_convert_ber.pinduct)
    case (1 s w d string_tag looking_for_eoc depth)
    note e = cbs_convert_ber.psimps [OF 1(1)]
    show ?case
    proof (cases "depth > kMaxDepth \<or> length s = 0 \<or> looking_for_eoc \<and> fst (cbs_get_eoc s)")
      case True
      then show ?thesis using cbs_get_eoc_shorter [of s] by (elim disjE; subst e; simp)
    next
      case False
      then have go: "\<not> depth > kMaxDepth" "length s > 0" "\<not> (looking_for_eoc \<and> fst (cbs_get_eoc s))" by auto
      note e = e [unfolded if_not_P [OF go(1)] if_P [OF go(2)] if_not_P [OF go(3)]]
      obtain x s1 where g: "CBS_get_any_ber_asn1_element s = (x, s1)" by fastforce
      have s1: "length s1 \<le> length s" using ber_element_rest [OF g] .
      show ?thesis
      proof (cases x)
        case None
        then show ?thesis using g s1 by (simp add: e)
      next
        case (Some el)
        obtain ok w1 where o1: "ber_open string_tag (out_tag el) w d = (ok, w1)" by fastforce
        show ?thesis
        proof (cases ok)
          case False
          then show ?thesis using g s1 Some o1 by (simp add: e)
        next
          case True
          then have okT: "ok = True" by simp
          note IH = 1(2-5) [OF go g [symmetric] Some o1 [symmetric] okT refl refl]
          let ?d = "if string_tag \<noteq> 0 then d else Suc d" and ?t = "ber_child_tag string_tag (out_tag el)"
          note e = e [unfolded g Some o1 okT prod.case option.case bool.case Let_def]
          show ?thesis
          proof (cases "out_indefinite el")
            case ind: True
            obtain ok2 s2 w2 where c: "cbs_convert_ber s1 w1 ?d ?t True (depth + 1) = (ok2, s2, w2)" by (metis prod_cases3)
            have s2: "length s2 \<le> length s" using IH(1) [OF ind] s1 c by simp
            obtain ok3 w3 where f: "CBB_flush w2 d = (ok3, w3)" by fastforce
            show ?thesis
            proof (cases "ok2 \<and> ok3")
              case both: True
              then have "ok2 = True" "ok3 = True" by simp_all
              then show ?thesis using IH(2) [OF ind c [symmetric] _ refl f [symmetric]] s2 c f ind by (simp add: e)
            next
              case False
              then show ?thesis using s2 c f ind by (cases ok2) (auto simp: e)
            qed
          next
            case def: False
            obtain y contents where k: "CBS_skip (out el) (out_header_len el) = (y, contents)" by fastforce
            obtain ok2 w2 where c: "(if constructed (out_tag el) then
                  (case cbs_convert_ber contents w1 ?d ?t False (depth + 1) of (ok, _, w2) \<Rightarrow> (ok, w2))
                else CBB_add_bytes w1 ?d contents) = (ok2, w2)" by fastforce
            obtain ok3 w3 where f: "CBB_flush w2 d = (ok3, w3)" by fastforce
            show ?thesis
            proof (cases "y \<noteq> None \<and> ok2 \<and> ok3")
              case all: True
              then obtain u where "ok2 = True" "ok3 = True" "y = Some u" by auto
              then show ?thesis using IH(4) [OF def k [symmetric] _ c [symmetric] _ f [symmetric]] s1 c k f def by (auto simp: e)
            next
              case False
              then show ?thesis using s1 c k f def by (cases y; cases ok2) (auto simp: e)
            qed
          qed
        qed
      qed
    qed
  qed
  show ?thesis
  proof (relation "measure (\<lambda>(s, w, d, string_tag, looking_for_eoc, depth). length s)", goal_cases)
    case (3 s w d string_tag looking_for_eoc depth x s1 el ok w1 d' t ok2 y s2 w2 z w3)
    then show ?case
      using ber_element_shorter(1) [of s el s1] rest [of s1 w1 d' t True "depth + 1"]
      by (metis (no_types, lifting) case_prod_conv fst_conv in_measure le_less_trans snd_conv)
  qed (auto dest: ber_element_shorter [OF sym] ber_element_shorter(2) [OF sym sym])
qed

declare cbs_convert_ber.simps [simp del]

definition CBS_asn1_ber_to_der :: "allocator \<Rightarrow> cbs \<Rightarrow> (cbs \<times> bool \<times> cbs) option" where
  "CBS_asn1_ber_to_der al s = (case cbs_find_ber s 0 of
     None \<Rightarrow> None
   | Some conversion_needed \<Rightarrow>
       if \<not> conversion_needed then
         (case CBS_get_any_asn1_element s of
            (None, _) \<Rightarrow> None
          | (Some e, r) \<Rightarrow> Some (out e, False, r))
       else (case CBB_init al (length s) of
           None \<Rightarrow> None
         | Some w \<Rightarrow> (case cbs_convert_ber s w 0 0 False 0 of
             (False, _, _) \<Rightarrow> None
           | (True, r, w1) \<Rightarrow> (case CBB_finish w1 0 True True of
               (None, _) \<Rightarrow> None
             | (Some (buf, len), _) \<Rightarrow> Some (take len buf, True, r)))))"

lemma CBS_get_asn1_shorter: "CBS_get_asn1 s t = (Some c, r) \<Longrightarrow> length r < length s"
  by (auto simp: CBS_get_asn1_iff)

function implicit_chunks :: "cbs \<Rightarrow> cbb \<Rightarrow> asn1_tag \<Rightarrow> bool \<times> cbb" where
  "implicit_chunks child w inner_tag =
     (if length child > 0 then
        (case CBS_get_asn1 child inner_tag of
           (None, _) \<Rightarrow> (False, w)
         | (Some chunk, child1) \<Rightarrow> (case CBB_add_bytes w 0 chunk of
             (False, w1) \<Rightarrow> (False, w1)
           | (True, w1) \<Rightarrow> implicit_chunks child1 w1 inner_tag))
      else (True, w))"
  by pat_completeness auto
termination
  by (relation "measure (\<lambda>(child, w, t). length child)") (auto dest: CBS_get_asn1_shorter [OF sym])

declare implicit_chunks.simps [simp del]

text \<open>The results: the octets, whether they are in a buffer of their own, and the rest of the input.\<close>

definition CBS_get_asn1_implicit_string :: "allocator \<Rightarrow> cbs \<Rightarrow> asn1_tag \<Rightarrow> asn1_tag \<Rightarrow> (cbs \<times> bool \<times> cbs) option" where
  "CBS_get_asn1_implicit_string al s outer_tag inner_tag =
     (if CBS_peek_asn1_tag s outer_tag then
        (case CBS_get_asn1 s outer_tag of (None, _) \<Rightarrow> None | (Some c, r) \<Rightarrow> Some (c, False, r))
      else (case CBB_init al (length s) of
          None \<Rightarrow> None
        | Some w \<Rightarrow> (case CBS_get_asn1 s (outer_tag OR CBS_ASN1_CONSTRUCTED) of
            (None, _) \<Rightarrow> None
          | (Some child, r) \<Rightarrow> (case implicit_chunks child w inner_tag of
              (False, _) \<Rightarrow> None
            | (True, w1) \<Rightarrow> (case CBB_finish w1 0 True True of
                (None, _) \<Rightarrow> None
              | (Some (buf, len), _) \<Rightarrow> Some (take len buf, True, r))))))"

end
