(* ===== verification/BerProps.thy ===== *)
theory BerProps
  imports Ber CbbProg
begin

text \<open>
  What the converter from BER to DER does (\<^verbatim>\<open>crypto/bytestring/ber.c\<close>): it reads trees of elements and
  writes the distinguished encoding of these trees.
\<close>

section \<open>Trees of elements\<close>

datatype ber = Prim asn1_tag "byte list" | Constr asn1_tag "ber list"

text \<open>The length octets of BER: the short form, or the long form with one to four octets, minimal or not.\<close>

definition ber_length :: "byte list \<Rightarrow> nat \<Rightarrow> bool" where
  "ber_length lo n \<longleftrightarrow> (\<exists>lb. lo = [lb] \<and> unat lb < 128 \<and> unat lb = n) \<or>
     (\<exists>lb lbs. lo = lb # lbs \<and> unat lb = 128 + length lbs \<and> 0 < length lbs \<and> length lbs \<le> 4 \<and> be_val lbs = n)"

text \<open>
  The elements read from an input, up to its end or up to an end-of-contents element, and what is left.
\<close>

inductive ber_reads :: "bool \<Rightarrow> cbs \<Rightarrow> ber list \<Rightarrow> cbs \<Rightarrow> bool" where
  ber_end: "ber_reads False [] [] []"
| ber_eoc: "ber_reads True (0 # 0 # r) [] r"
| ber_prim: "tag_ok t \<Longrightarrow> \<not> constructed t \<Longrightarrow> ber_length lo (length c) \<Longrightarrow> ber_reads eoc s ts r \<Longrightarrow>
    ber_reads eoc (tag_enc t @ lo @ c @ s) (Prim t c # ts) r"
| ber_definite: "tag_ok t \<Longrightarrow> constructed t \<Longrightarrow> ber_length lo (length c) \<Longrightarrow> ber_reads False c cs [] \<Longrightarrow>
    ber_reads eoc s ts r \<Longrightarrow> ber_reads eoc (tag_enc t @ lo @ c @ s) (Constr t cs # ts) r"
| ber_indefinite: "tag_ok t \<Longrightarrow> constructed t \<Longrightarrow> ber_reads True s1 cs s2 \<Longrightarrow> ber_reads eoc s2 ts r \<Longrightarrow>
    ber_reads eoc (tag_enc t @ 0x80 # s1) (Constr t cs # ts) r"

text \<open>
  The octets of a string with the tag \<open>tag\<close> in fragments, and the distinguished encoding: constructed
  strings become primitive, and nothing longer than a DER length can say is encoded.
\<close>

abbreviation primitive_tag :: "asn1_tag \<Rightarrow> asn1_tag" where
  "primitive_tag t \<equiv> t AND NOT CBS_ASN1_CONSTRUCTED"

fun string_octets :: "asn1_tag \<Rightarrow> ber \<Rightarrow> byte list option" where
  "string_octets tag (Prim t c) = (if primitive_tag t = tag then Some c else None)"
| "string_octets tag (Constr t cs) =
     (if primitive_tag t = tag then map_option concat (those (map (string_octets tag) cs)) else None)"

definition sized_der :: "asn1_tag \<Rightarrow> byte list \<Rightarrow> byte list option" where
  "sized_der t c = (if length c < 2 ^ 32 then Some (der_enc t c) else None)"

fun to_der :: "ber \<Rightarrow> byte list option" where
  "to_der (Prim t c) = sized_der t c"
| "to_der (Constr t cs) =
     (if is_string_type t then Option.bind (map_option concat (those (map (string_octets (primitive_tag t)) cs))) (sized_der (primitive_tag t))
      else Option.bind (map_option concat (those (map to_der cs))) (sized_der t))"

definition ber_contents :: "asn1_tag \<Rightarrow> ber list \<Rightarrow> byte list option" where
  "ber_contents string_tag ts =
     map_option concat (those (map (if string_tag \<noteq> 0 then string_octets string_tag else to_der) ts))"

lemma ber_contents_Nil [simp]: "ber_contents T [] = Some []"
  by (simp add: ber_contents_def)

lemma ber_contents_Cons:
  "(if T \<noteq> 0 then string_octets T t else to_der t) = Some x \<Longrightarrow> ber_contents T ts = Some y \<Longrightarrow>
   ber_contents T (t # ts) = Some (x @ y)"
  by (cases "T = 0") (auto simp: ber_contents_def split: option.splits)

section \<open>Tags\<close>

lemma primitive_tag_twice: "primitive_tag t AND CBS_ASN1_CONSTRUCTED = 0"
  by (simp add: and.assoc)

lemma primitive_tag_idem: "t AND CBS_ASN1_CONSTRUCTED = 0 \<Longrightarrow> primitive_tag t = t"
  by (rule bit_word_eqI) (auto simp: bit_simps bit_eq_iff)

lemma string_type_nonzero: "is_string_type t \<Longrightarrow> primitive_tag t \<noteq> 0"
  by (auto simp: is_string_type_def string_tag_defs)

lemma tag_ok_primitive: "tag_ok t \<Longrightarrow> tag_ok (primitive_tag t)"
  using not_constructed_eq_0_iff [of t] primitive_tag_twice [of t] by (auto simp: tag_ok_def CBS_ASN1_CONSTRUCTED_def)

section \<open>Reading\<close>

lemma ber_element_cases:
  assumes "CBS_get_any_ber_asn1_element s = (Some e, r)"
  obtains (definite) lo c where "tag_ok (out_tag e)" "ber_length lo (length c)" "s = tag_enc (out_tag e) @ lo @ c @ r"
      "CBS_skip (out e) (out_header_len e) = (Some (), c)" "\<not> out_indefinite e"
    | (indefinite) "tag_ok (out_tag e)" "constructed (out_tag e)" "s = tag_enc (out_tag e) @ 0x80 # r" "out_indefinite e"
proof -
  have e: "cbs_get_any_asn1_element True s = (Some e, r)" using assms by (simp add: CBS_get_any_ber_asn1_element_def)
  have ok: "tag_ok (out_tag e)"
  proof -
    obtain t h where "parse_asn1_tag s = (Some t, h)" "out_tag e = t"
      using e by (auto simp: cbs_get_any_asn1_element_def Let_def split: prod.splits option.splits if_splits)
    then show ?thesis by (simp add: parse_asn1_tag_iff)
  qed
  from e show ?thesis
  proof (cases rule: element_cases)
    case (short lb h)
    show ?thesis
    proof (rule definite [OF ok])
      show "ber_length [lb] (length (take (unat lb) h))" using short by (auto simp: ber_length_def)
      show "s = tag_enc (out_tag e) @ [lb] @ take (unat lb) h @ r" using short by simp
      show "CBS_skip (out e) (out_header_len e) = (Some (), take (unat lb) h)"
        using short by (simp add: CBS_skip_def cbs_get_def)
    qed (use short in simp)
  next
    case (indefinite lb)
    have "lb = 0x80" by (rule word_eq_if_unat) (simp add: indefinite(3))
    then show ?thesis using indefinite that(2) [OF ok] by simp
  next
    case (long lb lbs h)
    show ?thesis
    proof (rule definite [OF ok])
      show "ber_length (lb # lbs) (length (take (be_val lbs) h))" using long by (auto simp: ber_length_def min_absorb2)
      show "s = tag_enc (out_tag e) @ (lb # lbs) @ take (be_val lbs) h @ r" using long by simp
      show "CBS_skip (out e) (out_header_len e) = (Some (), take (be_val lbs) h)"
        using long by (simp add: CBS_skip_def cbs_get_def)
    qed (use long in simp)
  qed
qed

section \<open>Converting\<close>

lemma convert_True_cases:
  assumes "cbs_convert_ber s w d T eoc depth = (True, r, w')"
  obtains (finished) "s = []" "\<not> eoc" "r = []" "w' = w"
    | (at_eoc) "eoc" "s = 0 # 0 # r" "w' = w"
    | (indefinite) e s1 w1 s2 w2 w3 where "CBS_get_any_ber_asn1_element s = (Some e, s1)" "ber_open T (out_tag e) w d = (True, w1)"
      "out_indefinite e"
      "cbs_convert_ber s1 w1 (if T \<noteq> 0 then d else Suc d) (ber_child_tag T (out_tag e)) True (depth + 1) = (True, s2, w2)"
      "CBB_flush w2 d = (True, w3)" "cbs_convert_ber s2 w3 d T eoc depth = (True, r, w')"
    | (constr) e s1 w1 c q w2 w3 where "CBS_get_any_ber_asn1_element s = (Some e, s1)" "ber_open T (out_tag e) w d = (True, w1)"
      "\<not> out_indefinite e" "CBS_skip (out e) (out_header_len e) = (Some (), c)" "constructed (out_tag e)"
      "cbs_convert_ber c w1 (if T \<noteq> 0 then d else Suc d) (ber_child_tag T (out_tag e)) False (depth + 1) = (True, q, w2)"
      "CBB_flush w2 d = (True, w3)" "cbs_convert_ber s1 w3 d T eoc depth = (True, r, w')"
    | (prim) e s1 w1 c w2 w3 where "CBS_get_any_ber_asn1_element s = (Some e, s1)" "ber_open T (out_tag e) w d = (True, w1)"
      "\<not> out_indefinite e" "CBS_skip (out e) (out_header_len e) = (Some (), c)" "\<not> constructed (out_tag e)"
      "CBB_add_bytes w1 (if T \<noteq> 0 then d else Suc d) c = (True, w2)"
      "CBB_flush w2 d = (True, w3)" "cbs_convert_ber s1 w3 d T eoc depth = (True, r, w')"
proof (cases "depth > kMaxDepth \<or> s = [] \<or> eoc \<and> fst (cbs_get_eoc s)")
  case True
  have g: "fst (cbs_get_eoc s) \<Longrightarrow> \<exists>q. s = 0 # 0 # q \<and> snd (cbs_get_eoc s) = q"
    by (cases s; cases "tl s") (auto simp: cbs_get_eoc_def CBS_skip_def cbs_get_def split: if_splits)
  from True assms show ?thesis
    by (subst (asm) cbs_convert_ber.simps) (auto split: if_splits dest!: g intro: that(1,2))
next
  case False
  have go: "\<not> depth > kMaxDepth" "length s > 0" "\<not> (eoc \<and> fst (cbs_get_eoc s))" using False by auto
  note a = assms [unfolded cbs_convert_ber.simps [of s] if_not_P [OF go(1)] if_P [OF go(2)] if_not_P [OF go(3)]]
  obtain e s1 where e: "CBS_get_any_ber_asn1_element s = (Some e, s1)"
    using a by (auto split: prod.splits option.splits)
  obtain w1 where w1: "ber_open T (out_tag e) w d = (True, w1)"
    using a [unfolded e prod.case option.case] by (auto split: prod.splits bool.splits)
  note a = a [unfolded e w1 prod.case option.case bool.case Let_def]
  show ?thesis
  proof (cases "out_indefinite e")
    case True
    note a = a [unfolded if_P [OF True]]
    then show ?thesis using indefinite [OF e w1 True] by (auto split: prod.splits bool.splits)
  next
    case False
    note a = a [unfolded if_not_P [OF False]]
    obtain u c where c: "CBS_skip (out e) (out_header_len e) = (Some u, c)"
      using a by (auto split: prod.splits option.splits)
    note a = a [unfolded c prod.case option.case]
    show ?thesis
    proof (cases "constructed (out_tag e)")
      case True
      note a = a [unfolded if_P [OF True]]
      then show ?thesis using constr [OF e w1 False _ True] c by (auto split: prod.splits bool.splits)
    next
      case pr: False
      note a = a [unfolded if_not_P [OF pr]]
      then show ?thesis using prim [OF e w1 False _ pr] c by (auto split: prod.splits bool.splits)
    qed
  qed
qed

text \<open>The builder at depth \<open>d\<close> without open children got \<open>x\<close> appended.\<close>

definition appended :: "cbb \<Rightarrow> nat \<Rightarrow> byte list \<Rightarrow> cbb \<Rightarrow> bool" where
  "appended w d x w' \<longleftrightarrow> wf_cbb w' \<and> cbb_abs w' = bd_append d x (cbb_abs w) \<and> length (cbb_chain w') = d"

lemma bd_at_top:
  assumes "length (cbb_chain w) = d"
  shows "bd_append d [] (cbb_abs w) = cbb_abs w"
proof -
  have l: "length (fst (cbb_abs w)) = d" "length (snd (cbb_abs w)) = Suc d" using assms chain_of_abs [of w] by simp_all
  then have "length (drop d (snd (cbb_abs w))) = Suc 0" by simp
  then obtain c where c: "drop d (snd (cbb_abs w)) = [c]" unfolding length_Suc_conv by auto
  have "take d (snd (cbb_abs w)) @ [c] = snd (cbb_abs w)" using c by (metis append_take_drop_id)
  then show ?thesis using l c by (simp add: bd_append_def split_beta)
qed

lemma appended_refl: "wf_cbb w \<Longrightarrow> length (cbb_chain w) = d \<Longrightarrow> appended w d [] w"
  by (simp add: appended_def bd_at_top)

lemma appended_trans:
  assumes "length (cbb_chain w) = d" "appended w d x w1" "appended w1 d y w2"
  shows "appended w d (x @ y) w2"
  using assms bd_append_abs [of d w y x] by (simp add: appended_def)

lemma flush_appended:
  assumes "length (cbb_chain w) = d" "appended w d x w1" "CBB_flush w1 d = (True, w2)"
  shows "appended w d x w2"
proof -
  have "wf_cbb w1" "length (cbb_chain w1) = d" using assms(2) by (simp_all add: appended_def)
  moreover have "bd_flush d (cbb_abs w1) = cbb_abs w1"
    using bd_flush_append [of d "fst (cbb_abs w)" "snd (cbb_abs w)" x] assms chain_of_abs [of w] by (simp add: appended_def)
  ultimately show ?thesis using CBB_flush_True [OF assms(3)] assms(2) by (simp add: appended_def succeeds_def)
qed

definition element_octets :: "asn1_tag \<Rightarrow> asn1_tag \<Rightarrow> byte list \<Rightarrow> byte list option" where
  "element_octets T tag x =
     (if T \<noteq> 0 then (if primitive_tag tag = T then Some x else None)
      else sized_der (if constructed tag \<and> is_string_type tag then primitive_tag tag else tag) x)"

lemma close_element:
  assumes w: "wf_cbb w" and d: "length (cbb_chain w) = d" and op: "ber_open T tag w d = (True, w1)"
    and c: "appended w1 (if T \<noteq> 0 then d else Suc d) x w2" and f: "CBB_flush w2 d = (True, w3)"
  shows "\<exists>y. element_octets T tag x = Some y \<and> appended w d y w3"
proof (cases "T = 0")
  case False
  then have "w1 = w" "primitive_tag tag = T" using op by (auto simp: ber_open_def)
  then show ?thesis using False flush_appended [OF d _ f] c by (simp add: element_octets_def)
next
  case True
  define t where "t = (if constructed tag \<and> is_string_type tag then primitive_tag tag else tag)"
  have a: "CBB_add_asn1 w d t = (True, w1)" using op True by (simp add: ber_open_def t_def)
  note o = CBB_add_asn1_opens [OF a w, unfolded opens_def succeeds_def]
  have w2: "wf_cbb w2" and abs2: "cbb_abs w2 = bd_append (Suc d) x (cbb_abs w1)" and l2: "length (cbb_chain w2) = Suc d"
    using c True by (simp_all add: appended_def)
  note s = CBB_flush_True [OF f w2, unfolded succeeds_def]
  have "cbb_abs w3 = bd_append d (der_enc t x) (cbb_abs w)"
    using o s abs2 bd_element [of d "cbb_abs w" x t] by (simp add: chain_of_abs)
  moreover have "length x \<le> 0xfffffffe"
  proof -
    obtain ks cs where b: "bd_append d (tag_enc t) (cbb_abs w) = (ks, cs)" "length ks = d" "length cs = Suc d"
      using d chain_of_abs [of w] by (simp add: bd_append_def split_beta)
    have "cbb_abs w1 = bd_open d Der_Length (ks, cs)" using o b(1) by simp
    then have "drop d (fst (cbb_abs w2)) = [Der_Length] \<and> (\<exists>c0. drop d (snd (cbb_abs w2)) = [c0, x])"
      using b(2,3) unfolding abs2 by (simp add: bd_open_def bd_flush_def bd_append_def)
    then show ?thesis using s by auto
  qed
  moreover have "length (cbb_chain w3) = d" using s l2 by simp
  ultimately show ?thesis using s True by (simp add: element_octets_def sized_der_def t_def appended_def)
qed

text \<open>The element read, in front of what is read after it.\<close>

lemma element_octets_Prim:
  "\<not> constructed t \<Longrightarrow> element_octets T t c = (if T \<noteq> 0 then string_octets T (Prim t c) else to_der (Prim t c))"
  by (simp add: element_octets_def)

lemma element_octets_Constr:
  assumes "constructed t" "ber_contents (ber_child_tag T t) cs = Some x"
  shows "element_octets T t x = Some y \<Longrightarrow> (if T \<noteq> 0 then string_octets T (Constr t cs) else to_der (Constr t cs)) = Some y"
  using assms string_type_nonzero [of t]
  by (auto simp: element_octets_def ber_child_tag_def ber_contents_def sized_der_def split: if_splits)

lemma ber_child_tag_primitive: "T AND CBS_ASN1_CONSTRUCTED = 0 \<Longrightarrow> ber_child_tag T t AND CBS_ASN1_CONSTRUCTED = 0"
  by (simp add: ber_child_tag_def primitive_tag_twice)

lemma open_ready:
  assumes "wf_cbb w" "length (cbb_chain w) = d" "ber_open T tag w d = (True, w1)"
  shows "wf_cbb w1 \<and> length (cbb_chain w1) = (if T \<noteq> 0 then d else Suc d)"
  using assms CBB_add_asn1_opens [of w d _ w1] by (auto simp: ber_open_def opens_def succeeds_def split: if_splits)

lemma convert_writes:
  assumes "wf_cbb w" "length (cbb_chain w) = d" "T AND CBS_ASN1_CONSTRUCTED = 0" "length s < SIZE_MOD"
    and "cbs_convert_ber s w d T eoc depth = (True, r, w')"
  shows "\<exists>ts x. ber_reads eoc s ts r \<and> ber_contents T ts = Some x \<and> appended w d x w' \<and> length r \<le> length s"
  using assms
proof (induction "length s" arbitrary: s w d T eoc depth r w' rule: less_induct)
  case less
  let ?d = "if T \<noteq> 0 then d else Suc d"
  have add: "\<exists>ts x. ber_reads eoc s ts r \<and> ber_contents T ts = Some x \<and> appended w d x w' \<and> length r \<le> length s"
    if op: "ber_open T tag w d = (True, w1)" and c: "appended w1 ?d x w2" and f: "CBB_flush w2 d = (True, w3)"
      and tree: "\<And>y. element_octets T tag x = Some y \<Longrightarrow> (if T \<noteq> 0 then string_octets T t else to_der t) = Some y"
      and rest: "cbs_convert_ber s2 w3 d T eoc depth = (True, r, w')" and s2: "length s2 < length s"
      and reads: "\<And>ts. ber_reads eoc s2 ts r \<Longrightarrow> ber_reads eoc s (t # ts) r" for tag x w1 w2 w3 t s2
  proof -
    obtain y where y: "element_octets T tag x = Some y" "appended w d y w3"
      using close_element [OF less.prems(1,2) op c f] by blast
    have "wf_cbb w3" "length (cbb_chain w3) = d" "length s2 < SIZE_MOD"
      using y(2) s2 less.prems(4) by (simp_all add: appended_def)
    from less.hyps [OF s2 this(1,2) less.prems(3) this(3) rest] obtain ts z where
      z: "ber_reads eoc s2 ts r" "ber_contents T ts = Some z" "appended w3 d z w'" "length r \<le> length s2" by blast
    then have "ber_contents T (t # ts) = Some (y @ z)" using ber_contents_Cons [OF tree [OF y(1)]] by blast
    then show ?thesis using reads [OF z(1)] appended_trans [OF less.prems(2) y(2) z(3)] z(4) s2
      by (meson le_trans less_imp_le_nat)
  qed
  from less.prems(5) show ?case
  proof (cases rule: convert_True_cases)
    case finished
    then show ?thesis using less.prems(1,2) by (intro exI [of _ "[]"]) (simp add: ber_end appended_refl)
  next
    case at_eoc
    then show ?thesis using less.prems(1,2) by (intro exI [of _ "[]"]) (simp add: ber_eoc appended_refl)
  next
    case (indefinite e s1 w1 s2 w2 w3)
    note o = open_ready [OF less.prems(1,2) indefinite(2)]
    from indefinite(1) have el: "tag_ok (out_tag e)" "constructed (out_tag e)" "s = tag_enc (out_tag e) @ 0x80 # s1"
      using indefinite(3) by (cases rule: ber_element_cases; simp)+
    then have s1: "length s1 < length s" "length s1 < SIZE_MOD" using less.prems(4) by simp_all
    from less.hyps [OF s1(1) _ _ ber_child_tag_primitive [OF less.prems(3)] s1(2) indefinite(4)] o obtain cs x where
      x: "ber_reads True s1 cs s2" "ber_contents (ber_child_tag T (out_tag e)) cs = Some x" "appended w1 ?d x w2" "length s2 \<le> length s1"
      by blast
    show ?thesis
      by (rule add [OF indefinite(2) x(3) indefinite(5) _ indefinite(6)])
        (use el x s1 element_octets_Constr [OF el(2) x(2)] in \<open>auto intro: ber_indefinite\<close>)
  next
    case (constr e s1 w1 c q w2 w3)
    note o = open_ready [OF less.prems(1,2) constr(2)]
    from constr(1) obtain lo where el: "tag_ok (out_tag e)" "ber_length lo (length c)" "s = tag_enc (out_tag e) @ lo @ c @ s1"
      using constr(3,4) by (cases rule: ber_element_cases) auto
    have c: "length c < length s" "length c < SIZE_MOD" "length s1 < length s"
      using el(1,3) less.prems(4) tag_enc_nonempty [of "out_tag e"] by (auto simp del: tag_enc_nonempty)
    from less.hyps [OF c(1) _ _ ber_child_tag_primitive [OF less.prems(3)] c(2) constr(6)] o obtain cs x where
      x: "ber_reads False c cs q" "ber_contents (ber_child_tag T (out_tag e)) cs = Some x" "appended w1 ?d x w2" by blast
    have "q = []" using x(1) by (induction False c cs q rule: ber_reads.induct) simp_all
    then show ?thesis
      by (intro add [OF constr(2) x(3) constr(7) _ constr(8)])
        (use el x c constr(5) element_octets_Constr [OF constr(5) x(2)] in \<open>auto intro: ber_definite\<close>)
  next
    case (prim e s1 w1 c w2 w3)
    note o = open_ready [OF less.prems(1,2) prim(2)]
    from prim(1) obtain lo where el: "tag_ok (out_tag e)" "ber_length lo (length c)" "s = tag_enc (out_tag e) @ lo @ c @ s1"
      using prim(3,4) by (cases rule: ber_element_cases) auto
    have c: "length c < SIZE_MOD" "length s1 < length s"
      using el(1,3) less.prems(4) tag_enc_nonempty [of "out_tag e"] by (auto simp del: tag_enc_nonempty)
    have "appended w1 ?d c w2"
      using bytes_writer.add_True [OF _ c(1) prim(6)] o by (simp add: appended_def succeeds_def)
    then show ?thesis
      by (intro add [OF prim(2) _ prim(7) _ prim(8)])
        (use el c prim(5) element_octets_Prim [OF prim(5)] in \<open>auto intro: ber_prim\<close>)
  qed
qed

section \<open>Looking for BER\<close>

lemma der_element_cases:
  assumes "CBS_get_any_ber_asn1_element s = (Some e, r)" "\<not> out_ber_found e"
  obtains c where "tag_ok (out_tag e)" "length c < 2 ^ 32" "s = der_enc (out_tag e) c @ r"
    "CBS_skip (out e) (out_header_len e) = (Some (), c)" "out e = der_enc (out_tag e) c"
proof -
  have e: "cbs_get_any_asn1_element True s = (Some e, r)" using assms by (simp add: CBS_get_any_ber_asn1_element_def)
  have ok: "tag_ok (out_tag e)" using assms(1) by (cases rule: ber_element_cases)
  from e show ?thesis
  proof (cases rule: element_cases)
    case (short lb h)
    have "len_enc (length (take (unat lb) h)) = [lb]" using short by (simp add: len_enc_def min_absorb2)
    then show ?thesis using short
      by (intro that [OF ok, of "take (unat lb) h"]) (simp_all add: der_enc_def CBS_skip_def cbs_get_def min_absorb2)
  next
    case (indefinite lb)
    then show ?thesis using assms(2) by simp
  next
    case (long lb lbs h)
    let ?n = "be_val lbs"
    have n: "128 \<le> ?n" "256 ^ (length lbs - 1) \<le> ?n" using long assms(2) by auto
    have "byte_len ?n = length lbs" using long n be_val_less [of lbs] by (intro byte_len_unique) simp_all
    moreover have "(word_of_nat (128 + length lbs) :: byte) = lb" unfolding long(2) [symmetric] by simp
    ultimately have "len_enc ?n = lb # lbs" using n by (simp add: len_enc_def be_bytes_be_val)
    moreover have "?n < 2 ^ 32"
    proof -
      have "(256 :: nat) ^ length lbs \<le> 256 ^ 4" using long by (intro power_increasing) simp_all
      then show ?thesis using be_val_less [of lbs] by simp
    qed
    ultimately show ?thesis using long
      by (intro that [OF ok, of "take ?n h"]) (simp_all add: der_enc_def CBS_skip_def cbs_get_def min_absorb2)
  qed
qed

lemma ber_length_len_enc:
  assumes "n < 2 ^ 32"
  shows "ber_length (len_enc n) n"
proof (cases "n < 128")
  case True
  then have "len_enc n = [word_of_nat n]" "unat (word_of_nat n :: byte) = n"
    by (simp_all add: len_enc_def unat_of_nat)
  then show ?thesis using True unfolding ber_length_def by metis
next
  case False
  have b: "0 < byte_len n" "byte_len n \<le> 4" using byte_len_range [of n] byte_len_upper [of n] assms False by auto
  define k where "k = 128 + byte_len n"
  have k: "unat (word_of_nat k :: byte) = k" using b by (simp add: k_def unat_of_nat del: of_nat_add)
  have l: "len_enc n = word_of_nat k # be_bytes (byte_len n) n" using False by (simp add: len_enc_def k_def)
  have v: "be_val (be_bytes (byte_len n) n) = n" using byte_len_upper [of n] by (simp add: be_val_be_bytes_id)
  have "be_bytes (byte_len n) n \<noteq> []" using b length_be_bytes [of "byte_len n" n] by force
  then show ?thesis unfolding ber_length_def l using k v b k_def by simp
qed

lemma find_ber_False:
  "cbs_find_ber s depth = Some False \<Longrightarrow> \<exists>ts. ber_reads False s ts [] \<and> ber_contents 0 ts = Some s"
proof (induction s depth rule: cbs_find_ber.induct)
  case (1 s depth)
  show ?case
  proof (cases "s = []")
    case True
    then show ?thesis by (intro exI [of _ "[]"]) (simp add: ber_end)
  next
    case False
    have dep: "\<not> depth > kMaxDepth" "length s > 0"
      using 1(4) False by (auto simp: cbs_find_ber.simps [of s] split: if_splits)
    note a = 1(4) [unfolded cbs_find_ber.simps [of s] if_not_P [OF dep(1)] if_P [OF dep(2)]]
    obtain e r where e: "CBS_get_any_ber_asn1_element s = (Some e, r)" using a by (auto split: prod.splits option.splits)
    have nb: "\<not> out_ber_found e" using a e by auto
    obtain c where c: "tag_ok (out_tag e)" "length c < 2 ^ 32" "s = der_enc (out_tag e) c @ r"
      "CBS_skip (out e) (out_header_len e) = (Some (), c)" using der_element_cases [OF e nb] by metis
    note lo = ber_length_len_enc [OF c(2)]
    have step: ?thesis
      if t: "\<And>eoc ss ts q. ber_reads eoc ss ts q \<Longrightarrow> ber_reads eoc (der_enc (out_tag e) c @ ss) (t # ts) q"
        "to_der t = Some (der_enc (out_tag e) c)" and r: "cbs_find_ber r depth = Some False"
        and IH: "\<exists>ts. ber_reads False r ts [] \<and> ber_contents 0 ts = Some r" for t
    proof -
      obtain ts where ts: "ber_reads False r ts []" "ber_contents 0 ts = Some r" using IH by blast
      have "ber_contents 0 (t # ts) = Some (der_enc (out_tag e) c @ r)" by (rule ber_contents_Cons) (simp_all add: t(2) ts(2))
      then show ?thesis using t(1) [OF ts(1)] c(3) by auto
    qed
    show ?thesis
    proof (cases "constructed (out_tag e)")
      case True
      have ns: "\<not> is_string_type (out_tag e)" using a e nb True by auto
      obtain f where "cbs_find_ber c (depth + 1) = Some f" using a e nb True ns c(4) by (auto split: option.splits)
      then have f: "cbs_find_ber c (depth + 1) = Some False" "cbs_find_ber r depth = Some False"
        using a e nb True ns c(4) by (auto split: bool.splits)
      obtain cs where cs: "ber_reads False c cs []" "ber_contents 0 cs = Some c"
        using 1(1) [OF dep e [symmetric] refl nb True ns c(4) [symmetric] refl f(1)] by blast
      have "to_der (Constr (out_tag e) cs) = Some (der_enc (out_tag e) c)"
        using cs(2) ns c(2) by (auto simp: ber_contents_def sized_der_def)
      then show ?thesis
        using step [of "Constr (out_tag e) cs"] ber_definite [OF c(1) True lo cs(1)] f(2)
          1(2) [OF dep e [symmetric] refl nb True ns c(4) [symmetric] refl f(1)]
        by (simp add: der_enc_def)
    next
      case False
      then have r: "cbs_find_ber r depth = Some False" using a e nb by simp
      have "to_der (Prim (out_tag e) c) = Some (der_enc (out_tag e) c)" using c(2) by (simp add: sized_der_def)
      then show ?thesis
        using step [of "Prim (out_tag e) c"] ber_prim [OF c(1) False lo] r 1(3) [OF dep e [symmetric] refl nb False r]
        by (simp add: der_enc_def)
    qed
  qed
qed

lemma ber_contents_head:
  assumes "ber_reads eoc s (t # ts) q" "ber_contents 0 (t # ts) = Some x"
  shows "\<exists>t' c' y. tag_ok t' \<and> length c' < 2 ^ 32 \<and> to_der t = Some (der_enc t' c') \<and> x = der_enc t' c' @ y"
proof -
  have ok: "case t of Prim u _ \<Rightarrow> tag_ok u | Constr u _ \<Rightarrow> tag_ok u" using assms(1) by (cases rule: ber_reads.cases) simp_all
  have sized: "sized_der u c = Some d \<longleftrightarrow> length c < 2 ^ 32 \<and> d = der_enc u c" for u c d by (auto simp: sized_der_def)
  obtain d y where d: "to_der t = Some d" "x = d @ y" using assms(2) by (auto simp: ber_contents_def split: option.splits)
  then obtain u c where "d = der_enc u c" "tag_ok u" "length c < 2 ^ 32"
    using ok tag_ok_primitive by (cases t) (auto simp: sized bind_eq_Some_conv split: if_splits)
  then show ?thesis using d by blast
qed

section \<open>Strings in fragments\<close>

definition fragments :: "asn1_tag \<Rightarrow> byte list list \<Rightarrow> byte list" where
  "fragments tag chunks = concat (map (der_enc tag) chunks)"

abbreviation chunks_ok :: "byte list list \<Rightarrow> bool" where
  "chunks_ok chunks \<equiv> \<forall>c \<in> set chunks. length c < 2 ^ 32"

lemma length_chunks: "length (concat chunks) \<le> length (fragments tag chunks)"
  by (induction chunks) (auto simp: fragments_def der_enc_def)

lemma implicit_chunks_True:
  "implicit_chunks child w t = (True, w1) \<Longrightarrow> \<exists>chunks. chunks_ok chunks \<and> child = fragments t chunks"
proof (induction child w t arbitrary: w1 rule: implicit_chunks.induct)
  case (1 child w t)
  show ?case
  proof (cases "child = []")
    case True
    then show ?thesis by (intro exI [of _ "[]"]) (simp add: fragments_def)
  next
    case False
    then have ne: "length child > 0" by simp
    note a = 1(2) [unfolded implicit_chunks.simps [of child] if_P [OF ne]]
    obtain c r w2 where g: "CBS_get_asn1 child t = (Some c, r)" and add: "CBB_add_bytes w 0 c = (True, w2)"
      and rest: "implicit_chunks r w2 t = (True, w1)" using a by (auto split: prod.splits option.splits bool.splits)
    obtain cs where cs: "chunks_ok cs" "r = fragments t cs"
      using 1(1) [OF ne g [symmetric] refl add [symmetric] refl rest] by blast
    show ?thesis
      by (intro exI [of _ "c # cs"]) (use g cs in \<open>simp add: CBS_get_asn1_iff fragments_def\<close>)
  qed
qed

lemma fragments_inj:
  "tag_ok t \<Longrightarrow> chunks_ok ds \<Longrightarrow> chunks_ok cs \<Longrightarrow> fragments t ds = fragments t cs \<Longrightarrow> ds = cs"
proof (induction ds arbitrary: cs)
  case Nil
  then show ?case by (cases cs) (simp_all add: fragments_def)
next
  case (Cons d ds)
  have "cs \<noteq> []" using Cons.prems(4) by (auto simp: fragments_def)
  then obtain c cs' where cs: "cs = c # cs'" by (metis neq_Nil_conv)
  have "der_enc t d @ fragments t ds = der_enc t c @ fragments t cs'" using Cons.prems(4) cs by (simp add: fragments_def)
  from der_enc_inj [OF this Cons.prems(1,1)] Cons.prems(2,3) cs have "d = c" "fragments t ds = fragments t cs'" by simp_all
  then show ?case using Cons cs by simp
qed

lemma implicit_chunks_runs:
  assumes "tag_ok t"
  shows "root_has w bs \<Longrightarrow> chunks_ok chunks \<Longrightarrow> length bs + length (fragments t chunks) < SIZE_MOD \<Longrightarrow>
   \<exists>w1. implicit_chunks (fragments t chunks) w t = (True, w1) \<and> root_has w1 (bs @ concat chunks)"
proof (induction chunks arbitrary: w bs)
  case Nil
  then show ?case by (simp add: fragments_def implicit_chunks.simps)
next
  case (Cons c cs)
  have f: "fragments t (c # cs) = der_enc t c @ fragments t cs" by (simp add: fragments_def)
  have g: "CBS_get_asn1 (fragments t (c # cs)) t = (Some c, fragments t cs)" using Cons.prems assms by (simp add: CBS_get_asn1_iff f)
  have l: "length bs + length c < SIZE_MOD" "length (bs @ c) + length (fragments t cs) < SIZE_MOD"
    using Cons.prems(3) by (simp_all add: f der_enc_def)
  then obtain w1 where w1: "CBB_add_bytes w 0 c = (True, w1)" "root_has w1 (bs @ c)"
    using bytes_writer.root_step [OF Cons.prems(1)] by (metis add_lessD1 add.commute)
  obtain w2 where "implicit_chunks (fragments t cs) w1 t = (True, w2)" "root_has w2 ((bs @ c) @ concat cs)"
    using Cons.IH [OF w1(2) _ l(2)] Cons.prems(2) by auto
  moreover have "length (fragments t (c # cs)) > 0" by (simp add: f)
  ultimately show ?case using g w1(1) by (subst implicit_chunks.simps) simp
qed

section \<open>Properties\<close>

text \<open>
  C4. The conversion is correct.  When \<^verbatim>\<open>CBS_asn1_ber_to_der\<close> succeeds without a conversion, what it returns
  is the first element of the input, a prefix, and this element is the distinguished encoding of the tree it
  reads as.  When it converts, it reads the whole input as trees of elements in BER (definite or indefinite
  lengths, strings in fragments of any depth), leaves nothing, and returns the distinguished encoding of all
  of these trees, with every constructed string made primitive.
\<close>

theorem ber_to_der_correct:
  assumes "CBS_asn1_ber_to_der al s = Some (x, converted, r)" and "length s < SIZE_MOD"
  shows "\<exists>t ts. ber_reads False s (t # ts) [] \<and>
    (if converted then r = [] \<and> ber_contents 0 (t # ts) = Some x
     else s = x @ r \<and> to_der t = Some x \<and> ber_contents 0 (t # ts) = Some s)"
proof -
  obtain f where f: "cbs_find_ber s 0 = Some f" using assms(1) by (auto simp: CBS_asn1_ber_to_der_def split: option.splits)
  have ne: "s \<noteq> []"
    using assms(1) by (auto simp: CBS_asn1_ber_to_der_def cbs_find_ber.simps CBS_get_any_asn1_element_def cbs_get_any_asn1_element_def
        parse_asn1_tag_def CBS_get_u8_def cbs_get_u_def cbs_get_def)
  have cons: "\<exists>t us. ts = t # us" if "ber_reads False s ts []" for ts
    using that ne by (cases rule: ber_reads.cases) auto
  show ?thesis
  proof (cases f)
    case False
    then obtain e where e: "CBS_get_any_asn1_element s = (Some e, r)" "x = out e" "\<not> converted"
      using assms(1) f by (auto simp: CBS_asn1_ber_to_der_def split: prod.splits option.splits)
    obtain c where c: "tag_ok (out_tag e)" "length c < 2 ^ 32" "s = der_enc (out_tag e) c @ r" "x = der_enc (out_tag e) c"
      using e unfolding der_element_iff by (metis asn1_element.select_convs(1))
    have "cbs_find_ber s 0 = Some False" using f False by simp
    note ff = find_ber_False [OF this]
    obtain t ts where ts: "ber_reads False s (t # ts) []" "ber_contents 0 (t # ts) = Some s"
      using ff cons by metis
    obtain t' c' q where t': "tag_ok t'" "length c' < 2 ^ 32" "to_der t = Some (der_enc t' c')" "s = der_enc t' c' @ q"
      using ber_contents_head [OF ts] by blast
    then have "x = der_enc t' c'" using der_enc_inj [of "out_tag e" c r t' c' q] c by simp
    then show ?thesis using ts t' e(3) c by auto
  next
    case True
    then obtain w w1 buf len w2 where i: "CBB_init al (length s) = Some w" and conv: "cbs_convert_ber s w 0 0 False 0 = (True, r, w1)"
      and fin: "CBB_finish w1 0 True True = (Some (buf, len), w2)" and x: "x = take len buf" "converted"
      using assms(1) f by (auto simp: CBS_asn1_ber_to_der_def split: prod.splits option.splits bool.splits)
    have w: "wf_cbb w" "cbb_abs w = ([], [[]])" using init_ok(1) [OF i assms(2)] by auto
    have "length (cbb_chain w) = 0" using chain_of_abs [of w] w(2) by simp
    from convert_writes [OF w(1) this _ assms(2) conv] obtain ts y where
      ts: "ber_reads False s ts r" "ber_contents 0 ts = Some y" "appended w 0 y w1" by auto
    have r: "r = []" using ts(1) by (induction False s ts r rule: ber_reads.induct) simp_all
    have "cbb_abs w1 = ([], [y])" using ts(3) w(2) by (simp add: appended_def bd_append_def bd_flush_def)
    then have "x = y" using finish_contents [OF _ fin] ts(3) x by (simp add: appended_def)
    then show ?thesis using ts r x(2) cons [of ts] by auto
  qed
qed

text \<open>An OCTET STRING of indefinite length in two fragments, and its conversion.\<close>

definition sample_ber :: "byte list" where
  "sample_ber = [0x24, 0x80, 4, 1, 7, 4, 1, 8, 0, 0]"

lemmas read_defs = CBS_get_any_ber_asn1_element_def cbs_get_any_asn1_element_def parse_asn1_tag_def CBS_get_u8_def cbs_get_u_def
  cbs_get_def CBS_get_bytes_def CBS_skip_def cbs_get_eoc_def
  CBS_ASN1_CONSTRUCTED_def is_string_type_def string_tag_defs kMaxDepth_def ber_open_def ber_child_tag_def

lemma sample_ber_found: "cbs_find_ber sample_ber 0 = Some True"
  by (simp add: sample_ber_def cbs_find_ber.simps read_defs eval_defs)

lemma sample_ber_converts: "CBS_asn1_ber_to_der (\<lambda>n. True) sample_ber = Some ([4, 2, 7, 8], True, [])"
  by (simp add: CBS_asn1_ber_to_der_def sample_ber_found) (simp add: sample_ber_def cbs_convert_ber.simps read_defs eval_defs)

theorem ber_to_der_correct_witness:
  "\<exists>t ts. ber_reads False sample_ber (t # ts) [] \<and> ber_contents 0 (t # ts) = Some [4, 2, 7, 8]"
  using ber_to_der_correct [OF sample_ber_converts] by (simp add: sample_ber_def SIZE_MOD_def)

text \<open>
  C25. Strings with an implicit tag.  \<^verbatim>\<open>CBS_get_asn1_implicit_string\<close>, with allocations granted, accepts exactly
  the DER elements with the primitive outer tag, whose contents it returns in place, and the elements with
  the constructed outer tag around a sequence of DER elements with the inner tag, whose contents it returns
  joined in a buffer of its own; the input is advanced over the one element.
\<close>

theorem implicit_string_exact:
  assumes "\<forall>m. al m" and "length s < SIZE_MOD" and "tag_ok inner" and "\<not> constructed outer"
  shows "CBS_get_asn1_implicit_string al s outer inner = Some (x, own, r) \<longleftrightarrow>
    (if \<not> own then CBS_get_asn1 s outer = (Some x, r)
     else \<exists>chunks. chunks_ok chunks \<and> x = concat chunks \<and>
       CBS_get_asn1 s (outer OR CBS_ASN1_CONSTRUCTED) = (Some (fragments inner chunks), r))"
proof -
  let ?C = "outer OR CBS_ASN1_CONSTRUCTED"
  have "?C AND CBS_ASN1_CONSTRUCTED = CBS_ASN1_CONSTRUCTED" by (rule bit_word_eqI) (auto simp: bit_simps)
  moreover have "CBS_ASN1_CONSTRUCTED \<noteq> 0" by (simp add: CBS_ASN1_CONSTRUCTED_def)
  ultimately have diff: "outer \<noteq> ?C" using assms(4) by metis
  have peek: "CBS_get_asn1 s t = (Some c, q) \<Longrightarrow> CBS_peek_asn1_tag s u \<longleftrightarrow> u = t" for t u c q
    by (auto simp: CBS_get_asn1_def cbs_get_asn1_def CBS_get_any_asn1_element_def cbs_get_any_asn1_element_def CBS_peek_asn1_tag_def
        Let_def split: prod.splits option.splits if_splits)
  show ?thesis
  proof (cases "CBS_peek_asn1_tag s outer")
    case True
    then show ?thesis using diff peek [of ?C] by (auto simp: CBS_get_asn1_implicit_string_def split: prod.splits option.splits)
  next
    case False
    obtain w where w: "CBB_init al (length s) = Some w" "root_has w []" using CBB_init_root [OF assms(1,2)] by blast
    have no: "CBS_get_asn1 s outer \<noteq> (Some x, r)" using False peek by blast
    show ?thesis
    proof (cases "CBS_get_asn1 s ?C")
      case (Pair g q)
      show ?thesis
      proof (cases "\<exists>chunks. g = Some (fragments inner chunks) \<and> chunks_ok chunks")
        case True
        then obtain cs where cs: "g = Some (fragments inner cs)" "chunks_ok cs" by blast
        then have "length (fragments inner cs) < SIZE_MOD"
          using Pair assms(2) by (auto simp: CBS_get_asn1_iff der_enc_def)
        then obtain w1 where w1: "implicit_chunks (fragments inner cs) w inner = (True, w1)" "root_has w1 (concat cs)"
          using implicit_chunks_runs [OF assms(3) w(2) cs(2)] by auto
        obtain fr w2 where fin: "CBB_finish w1 0 True True = (fr, w2)" by fastforce
        obtain buf where fr: "fr = Some (buf, length (concat cs))" "take (length (concat cs)) buf = concat cs"
          using CBB_finish_root [OF w1(2) fin] by blast
        have one: "concat ds = concat cs" if "fragments inner ds = fragments inner cs" "chunks_ok ds" for ds
          using fragments_inj [OF assms(3) that(2) cs(2) that(1)] by simp
        have lhs: "CBS_get_asn1_implicit_string al s outer inner = Some (concat cs, True, q)"
          using False w(1) w1(1) fin fr Pair cs(1) by (simp add: CBS_get_asn1_implicit_string_def)
        have "own \<Longrightarrow> (\<exists>ds. chunks_ok ds \<and> x = concat ds \<and> CBS_get_asn1 s ?C = (Some (fragments inner ds), r)) \<longleftrightarrow> x = concat cs \<and> r = q"
          using one cs Pair by (metis option.inject prod.inject)
        then show ?thesis using lhs no by (cases own) auto
      next
        case bad: False
        have "\<not> fst (implicit_chunks c w inner)" if "g = Some c" for c
          using bad that implicit_chunks_True [of c w inner] by (cases "implicit_chunks c w inner") auto
        then show ?thesis
          using False w no Pair bad by (auto simp: CBS_get_asn1_implicit_string_def split: option.splits prod.splits bool.splits)
      qed
    qed
  qed
qed

text \<open>The contents octets 7 and 8 of an OCTET STRING with the implicit tag 0, in two fragments.\<close>

definition sample_implicit :: "byte list" where
  "sample_implicit = [0xa0, 6, 4, 1, 7, 4, 1, 8]"

lemma sample_implicit_reads:
  "CBS_get_asn1 sample_implicit (0x80000000 OR CBS_ASN1_CONSTRUCTED) = (Some (fragments CBS_ASN1_OCTETSTRING [[7], [8]]), [])"
  by (simp add: sample_implicit_def fragments_def der_enc_def tag_enc_def tag_number_def tag_class_def len_enc_def CBS_get_asn1_def cbs_get_asn1_def
      CBS_get_any_asn1_element_def read_defs eval_defs)

theorem implicit_string_exact_witness:
  "CBS_get_asn1_implicit_string (\<lambda>n. True) sample_implicit 0x80000000 CBS_ASN1_OCTETSTRING = Some ([7, 8], True, [])"
proof (subst implicit_string_exact)
  show "if \<not> True then CBS_get_asn1 sample_implicit 0x80000000 = (Some [7, 8], [])
    else \<exists>chunks. chunks_ok chunks \<and> [7, 8] = concat chunks \<and>
      CBS_get_asn1 sample_implicit (0x80000000 OR CBS_ASN1_CONSTRUCTED) = (Some (fragments CBS_ASN1_OCTETSTRING chunks), [])"
    unfolding sample_implicit_reads by (simp, intro exI [of _ "[[7], [8]]"]) simp
qed (simp_all add: sample_implicit_def SIZE_MOD_def tag_ok_def CBS_ASN1_OCTETSTRING_def CBS_ASN1_CONSTRUCTED_def)

end
