(* ===== verification/Unicode.thy ===== *)
theory Unicode
  imports CbbOps
begin

text \<open>
  Unicode code points in byte strings (\<^verbatim>\<open>crypto/bytestring/unicode.c\<close>): UTF-8, Latin-1, UCS-2 and
  UTF-32 readers and writers.  The reference \<open>utf8_enc\<close> splits a code point into base-64 digits by
  division; the reader accepts exactly it, so overlong forms and surrogates are refused, and the
  writer produces it.
\<close>

section \<open>The code\<close>

definition is_valid_code_point :: "u32 \<Rightarrow> bool" where
  "is_valid_code_point v \<longleftrightarrow>
     \<not> (v > 0x10ffff \<or> v AND 0xfffe = 0xfffe \<or> (v \<ge> 0xfdd0 \<and> v \<le> 0xfdef) \<or> (v \<ge> 0xd800 \<and> v \<le> 0xdfff))"

definition BOTTOM_BITS :: "nat \<Rightarrow> byte" where
  "BOTTOM_BITS n = ucast (push_bit n 1 - 1 :: u32)"

definition TOP_BITS :: "nat \<Rightarrow> byte" where
  "TOP_BITS n = NOT (BOTTOM_BITS (8 - n))"

fun utf8_loop :: "nat \<Rightarrow> u32 \<Rightarrow> cbs \<Rightarrow> u32 option \<times> cbs" where
  "utf8_loop 0 v s = (Some v, s)"
| "utf8_loop (Suc n) v s = (case CBS_get_u8 s of
     (None, s1) \<Rightarrow> (None, s1)
   | (Some c, s1) \<Rightarrow>
       if c AND TOP_BITS 2 \<noteq> TOP_BITS 1 then (None, s1)
       else utf8_loop n (push_bit 6 v OR ucast (c AND BOTTOM_BITS 6)) s1)"

definition CBS_get_utf8 :: "cbs \<Rightarrow> u32 option \<times> cbs" where
  "CBS_get_utf8 s = (case CBS_get_u8 s of
     (None, s1) \<Rightarrow> (None, s1)
   | (Some c, s1) \<Rightarrow>
       if c \<le> 0x7f then (Some (ucast c), s1)
       else case
           (if c AND TOP_BITS 3 = TOP_BITS 2 then Some (ucast (c AND BOTTOM_BITS 5), 1, 0x80)
            else if c AND TOP_BITS 4 = TOP_BITS 3 then Some (ucast (c AND BOTTOM_BITS 4), 2, 0x800)
            else if c AND TOP_BITS 5 = TOP_BITS 4 then Some (ucast (c AND BOTTOM_BITS 3), 3, 0x10000)
            else None) of
           None \<Rightarrow> (None, s1)
         | Some (v, len, lower_bound) \<Rightarrow> (case utf8_loop len v s1 of
             (None, s2) \<Rightarrow> (None, s2)
           | (Some v', s2) \<Rightarrow>
               if \<not> is_valid_code_point v' \<or> v' < lower_bound then (None, s2) else (Some v', s2)))"

definition CBS_get_latin1 :: "cbs \<Rightarrow> u32 option \<times> cbs" where
  "CBS_get_latin1 s = (case CBS_get_u8 s of (None, s1) \<Rightarrow> (None, s1) | (Some c, s1) \<Rightarrow> (Some (ucast c), s1))"

definition CBS_get_ucs2_be :: "cbs \<Rightarrow> u32 option \<times> cbs" where
  "CBS_get_ucs2_be s = (case CBS_get_u16 s of
     (None, s1) \<Rightarrow> (None, s1)
   | (Some c, s1) \<Rightarrow> if \<not> is_valid_code_point (ucast c) then (None, s1) else (Some (ucast c), s1))"

definition CBS_get_utf32_be :: "cbs \<Rightarrow> u32 option \<times> cbs" where
  "CBS_get_utf32_be s = (case CBS_get_u32 s of
     (None, s1) \<Rightarrow> (None, s1)
   | (Some u, s1) \<Rightarrow> if is_valid_code_point u then (Some u, s1) else (None, s1))"

definition CBB_get_utf8_len :: "u32 \<Rightarrow> nat" where
  "CBB_get_utf8_len u = (if u \<le> 0x7f then 1 else if u \<le> 0x7ff then 2 else if u \<le> 0xffff then 3 else 4)"

text \<open>The conjunctions of calls of the source stop at the first call that fails.\<close>

definition CBB_add_utf8 :: "cbb \<Rightarrow> nat \<Rightarrow> u32 \<Rightarrow> bool \<times> cbb" where
  "CBB_add_utf8 w d u =
     (if \<not> is_valid_code_point u then (False, w)
      else if u \<le> 0x7f then CBB_add_u8 w d (ucast u)
      else if u \<le> 0x7ff then write_all CBB_add_u8 w d
        [ucast (ucast (TOP_BITS 2) OR drop_bit 6 u),
         ucast (ucast (TOP_BITS 1) OR (u AND ucast (BOTTOM_BITS 6)))]
      else if u \<le> 0xffff then write_all CBB_add_u8 w d
        [ucast (ucast (TOP_BITS 3) OR drop_bit 12 u),
         ucast (ucast (TOP_BITS 1) OR (drop_bit 6 u AND ucast (BOTTOM_BITS 6))),
         ucast (ucast (TOP_BITS 1) OR (u AND ucast (BOTTOM_BITS 6)))]
      else if u \<le> 0x10ffff then write_all CBB_add_u8 w d
        [ucast (ucast (TOP_BITS 4) OR drop_bit 18 u),
         ucast (ucast (TOP_BITS 1) OR (drop_bit 12 u AND ucast (BOTTOM_BITS 6))),
         ucast (ucast (TOP_BITS 1) OR (drop_bit 6 u AND ucast (BOTTOM_BITS 6))),
         ucast (ucast (TOP_BITS 1) OR (u AND ucast (BOTTOM_BITS 6)))]
      else (False, w))"

definition CBB_add_latin1 :: "cbb \<Rightarrow> nat \<Rightarrow> u32 \<Rightarrow> bool \<times> cbb" where
  "CBB_add_latin1 w d u = (if u \<le> 0xff then CBB_add_u8 w d (ucast u) else (False, w))"

definition CBB_add_ucs2_be :: "cbb \<Rightarrow> nat \<Rightarrow> u32 \<Rightarrow> bool \<times> cbb" where
  "CBB_add_ucs2_be w d u =
     (if u \<le> 0xffff \<and> is_valid_code_point u then CBB_add_u16 w d (ucast u) else (False, w))"

definition CBB_add_utf32_be :: "cbb \<Rightarrow> nat \<Rightarrow> u32 \<Rightarrow> bool \<times> cbb" where
  "CBB_add_utf32_be w d u = (if is_valid_code_point u then CBB_add_u32 w d u else (False, w))"

section \<open>UTF-8 in base 64\<close>

fun cont_bytes :: "nat \<Rightarrow> nat \<Rightarrow> byte list" where
  "cont_bytes 0 m = []"
| "cont_bytes (Suc n) m = word_of_nat (128 + m div 64 ^ n mod 64) # cont_bytes n m"

definition utf8_enc :: "nat \<Rightarrow> byte list" where
  "utf8_enc n =
     (if n < 0x80 then [word_of_nat n]
      else if n < 0x800 then word_of_nat (192 + n div 64) # cont_bytes 1 n
      else if n < 0x10000 then word_of_nat (224 + n div 4096) # cont_bytes 2 n
      else word_of_nat (240 + n div 262144) # cont_bytes 3 n)"

lemma bits_values:
  "TOP_BITS 1 = 0x80" "TOP_BITS (Suc 0) = 0x80" "TOP_BITS 2 = 0xc0" "TOP_BITS 3 = 0xe0" "TOP_BITS 4 = 0xf0" "TOP_BITS 5 = 0xf8"
  "BOTTOM_BITS 3 = mask 3" "BOTTOM_BITS 4 = mask 4" "BOTTOM_BITS 5 = mask 5" "BOTTOM_BITS 6 = mask 6"
  by (simp_all add: TOP_BITS_def BOTTOM_BITS_def mask_eq_exp_minus_1)

lemma unat_high_bits: "unat (push_bit k (drop_bit k (c :: byte))) = unat c div 2 ^ k * 2 ^ k"
proof -
  have "push_bit k (drop_bit k c) = c - take_bit k c" by (metis add_diff_cancel_right' bits_ident)
  moreover have "unat (take_bit k c) = unat c mod 2 ^ k" by (metis take_bit_eq_mask unat_mask_and)
  ultimately show ?thesis
    by (simp add: unat_sub word_le_nat_alt minus_mod_eq_div_mult)
qed

lemma and_top_iff:
  "(c :: byte) AND 0xc0 = 0x80 \<longleftrightarrow> unat c div 64 = 2"
  "c AND 0xe0 = 0xc0 \<longleftrightarrow> unat c div 32 = 6"
  "c AND 0xf0 = 0xe0 \<longleftrightarrow> unat c div 16 = 14"
  "c AND 0xf8 = 0xf0 \<longleftrightarrow> unat c div 8 = 30"
proof -
  have top: "c AND NOT (mask k) = w \<longleftrightarrow> unat c div 2 ^ k * 2 ^ k = unat w" for k w
  proof -
    have "c AND NOT (mask k) = push_bit k (drop_bit k c)"
      by (rule bit_word_eqI) (auto simp: bit_simps dest: bit_imp_le_length)
    then show ?thesis by (metis unat_high_bits word_eq_if_unat)
  qed
  have "(0xc0 :: byte) = NOT (mask 6)" "(0xe0 :: byte) = NOT (mask 5)" "(0xf0 :: byte) = NOT (mask 4)"
    "(0xf8 :: byte) = NOT (mask 3)" by (simp_all add: mask_eq_exp_minus_1)
  then show "c AND 0xc0 = 0x80 \<longleftrightarrow> unat c div 64 = 2" "c AND 0xe0 = 0xc0 \<longleftrightarrow> unat c div 32 = 6"
    "c AND 0xf0 = 0xe0 \<longleftrightarrow> unat c div 16 = 14" "c AND 0xf8 = 0xf0 \<longleftrightarrow> unat c div 8 = 30"
    using top [of 6 "0x80"] top [of 5 "0xc0"] top [of 4 "0xe0"] top [of 3 "0xf0"] by simp_all
qed

text \<open>A continuation octet carries one base-64 digit.\<close>

lemma utf8_loop_step:
  assumes "unat v < 2 ^ 26" and "unat c div 64 = 2"
  shows "unat (push_bit 6 v OR ucast (c AND BOTTOM_BITS 6) :: u32) = unat v * 64 + unat c mod 64"
proof -
  have l: "unat (ucast (c AND BOTTOM_BITS 6) :: u32) = unat c mod 64"
    by (simp add: bits_values unat_mask_and)
  then have "push_bit 6 v OR ucast (c AND BOTTOM_BITS 6) = v * 2 ^ 6 + ucast (c AND BOTTOM_BITS 6)"
    by (intro push_or_small) simp
  moreover have "unat (v * 64 + ucast (c AND BOTTOM_BITS 6)) = unat v * 64 + unat c mod 64"
    using assms(1) l by (simp add: unat_word_ariths)
  ultimately show ?thesis by simp
qed

lemma digit_split: "d < 64 \<Longrightarrow> (q :: nat) = v * 64 + d \<longleftrightarrow> q div 64 = v \<and> d = q mod 64"
  using div_mult_mod_eq [of q 64] by auto

lemma utf8_loop_iff:
  "(unat v + 1) * 64 ^ n \<le> 2 ^ 32 \<Longrightarrow>
   utf8_loop n v s = (Some w, r) \<longleftrightarrow> unat w div 64 ^ n = unat v \<and> s = cont_bytes n (unat w) @ r"
proof (induction n arbitrary: v s)
  case 0
  then show ?case by (auto intro: word_eq_if_unat)
next
  case (Suc n)
  have v: "unat v < 2 ^ 26"
  proof -
    have "(unat v + 1) * 64 * 1 \<le> (unat v + 1) * 64 * 64 ^ n" by (intro mult_le_mono2) simp
    also have "\<dots> \<le> 2 ^ 32" using Suc.prems by (simp only: power_Suc mult.assoc)
    finally show ?thesis by simp
  qed
  have digit: "unat (word_of_nat (128 + x mod 64) :: byte) = 128 + x mod 64" for x
    by (intro unat_byte_of_nat) (use mod_less_divisor [of 64 x] in linarith)
  show ?case
  proof (cases s)
    case Nil
    then show ?thesis by simp
  next
    case (Cons c s1)
    let ?v = "push_bit 6 v OR ucast (c AND BOTTOM_BITS 6) :: u32"
    show ?thesis
    proof (cases "unat c div 64 = 2")
      case True
      have u: "unat ?v = unat v * 64 + unat c mod 64" by (rule utf8_loop_step [OF v True])
      have "(unat ?v + 1) * 64 ^ n \<le> ((unat v + 1) * 64) * 64 ^ n"
        unfolding u using mod_less_divisor [of 64 "unat c"] by (intro mult_le_mono1) simp
      also have "\<dots> \<le> 2 ^ 32" using Suc.prems by (simp only: power_Suc mult.assoc)
      finally have "(unat ?v + 1) * 64 ^ n \<le> 2 ^ 32" .
      note ih = Suc.IH [OF this, of s1]
      have eq: "128 + unat c mod 64 = unat c" using True div_mult_mod_eq [of "unat c" 64] by linarith
      have c: "c = word_of_nat (128 + x mod 64) \<longleftrightarrow> unat c mod 64 = x mod 64" for x
        using digit [of x] eq by (metis add_left_imp_eq word_eq_if_unat)
      have "utf8_loop (Suc n) v s = utf8_loop n ?v s1"
        using True by (simp add: Cons bits_values and_top_iff)
      moreover have "unat w div 64 ^ n = unat v * 64 + unat c mod 64 \<longleftrightarrow>
          unat w div 64 ^ Suc n = unat v \<and> unat c mod 64 = unat w div 64 ^ n mod 64"
      proof -
        have "unat w div 64 ^ Suc n = unat w div 64 ^ n div 64" by (simp only: power_Suc2 div_mult2_eq)
        then show ?thesis using digit_split [of "unat c mod 64" "unat w div 64 ^ n" "unat v"] by simp
      qed
      ultimately show ?thesis
        using ih u c [of "unat w div 64 ^ n"] by (simp only: Cons cont_bytes.simps append_Cons list.inject) blast
    next
      case False
      have "c \<noteq> word_of_nat (128 + x mod 64)" for x
      proof
        assume "c = word_of_nat (128 + x mod 64)"
        then have "unat c = 128 + x mod 64" using digit [of x] by simp
        then show False using False mod_less_divisor [of 64 x] by linarith
      qed
      then show ?thesis using False by (simp add: Cons bits_values and_top_iff del: of_nat_add)
    qed
  qed
qed

section \<open>The reader accepts exactly the reference encoding\<close>

definition scalar_ok :: "nat \<Rightarrow> bool" where
  "scalar_ok n \<longleftrightarrow> n \<le> 0x10ffff \<and> n mod 0x10000 < 0xfffe \<and> \<not> (0xfdd0 \<le> n \<and> n \<le> 0xfdef) \<and> \<not> (0xd800 \<le> n \<and> n \<le> 0xdfff)"

lemma and_push_bit: "v AND push_bit k m = push_bit k (drop_bit k v AND m)" for v m :: "'a::len word"
  by (rule bit_word_eqI) (auto simp: bit_simps)

lemma unat_numeral_fffe: "unat (0xfffe :: u32) = 65534"
  by simp

lemma is_valid_code_point_iff: "is_valid_code_point v \<longleftrightarrow> scalar_ok (unat v)"
proof -
  have m: "(0xfffe :: u32) = push_bit 1 (mask 15)" by (simp add: mask_eq_exp_minus_1)
  have "v AND 0xfffe = push_bit 1 (drop_bit 1 v AND mask 15)"
    unfolding m by (rule and_push_bit)
  also have "\<dots> = (drop_bit 1 v AND mask 15) * 2" by (simp add: push_bit_eq_mult)
  finally have "unat (v AND 0xfffe) = unat v div 2 mod 32768 * 2"
    using mod_less_divisor [of 32768 "unat v div 2"] by (simp add: unat_word_ariths unat_mask_and unat_drop)
  then have "v AND 0xfffe = 0xfffe \<longleftrightarrow> unat v div 2 mod 32768 * 2 = 65534"
    by (metis unat_numeral_fffe word_eq_if_unat)
  also have "\<dots> \<longleftrightarrow> unat v mod 0x10000 \<ge> 0xfffe"
    using mod_mult2_eq [of "unat v" 2 32768] mod_less_divisor [of 32768 "unat v div 2"] mod_less_divisor [of 2 "unat v"]
    by simp linarith
  finally have "v AND 0xfffe = 0xfffe \<longleftrightarrow> unat v mod 0x10000 \<ge> 0xfffe" .
  then show ?thesis
    unfolding is_valid_code_point_def scalar_ok_def word_less_nat_alt word_le_nat_alt
    by (simp add: not_less not_le)
qed

definition utf8_lead :: "nat \<Rightarrow> nat" where
  "utf8_lead n = (if n < 0x80 then n else if n < 0x800 then 192 + n div 64
     else if n < 0x10000 then 224 + n div 4096 else 240 + n div 262144)"

definition utf8_conts :: "nat \<Rightarrow> nat" where
  "utf8_conts n = (if n < 0x80 then 0 else if n < 0x800 then 1 else if n < 0x10000 then 2 else 3)"

lemma utf8_enc_lead: "utf8_enc n = word_of_nat (utf8_lead n) # cont_bytes (utf8_conts n) n"
  by (simp add: utf8_enc_def utf8_lead_def utf8_conts_def)

lemma utf8_lead_bound: "n \<le> 0x10ffff \<Longrightarrow> utf8_lead n < 256"
  by (simp add: utf8_lead_def div_less_iff_less_mult)

lemma lead_octets:
  "x div 32 = 6 \<longleftrightarrow> 192 \<le> x \<and> x < 224" "x div 16 = 14 \<longleftrightarrow> 224 \<le> x \<and> x < 240"
  "x div 8 = 30 \<longleftrightarrow> 240 \<le> x \<and> x < 248" for x :: nat
  by linarith+

lemma utf8_lead_cases:
  assumes "n \<le> 0x10ffff"
  obtains "n < 0x80" "utf8_lead n = n"
  | "0x80 \<le> n" "n < 0x800" "utf8_lead n = 192 + n div 64" "n div 64 < 32"
  | "0x800 \<le> n" "n < 0x10000" "utf8_lead n = 224 + n div 4096" "n div 4096 < 16"
  | "0x10000 \<le> n" "utf8_lead n = 240 + n div 262144" "n div 262144 < 8"
proof -
  consider "n < 0x80" | "0x80 \<le> n" "n < 0x800" | "0x800 \<le> n" "n < 0x10000" | "0x10000 \<le> n" by linarith
  then show thesis
    by cases (use assms that in \<open>simp_all add: utf8_lead_def div_less_iff_less_mult\<close>)
qed

lemma utf8_lead_ranges:
  assumes "n \<le> 0x10ffff"
  shows "utf8_lead n < 128 \<longleftrightarrow> n < 0x80"
    "utf8_lead n div 32 = 6 \<longleftrightarrow> 0x80 \<le> n \<and> n < 0x800"
    "utf8_lead n div 16 = 14 \<longleftrightarrow> 0x800 \<le> n \<and> n < 0x10000"
    "utf8_lead n div 8 = 30 \<longleftrightarrow> 0x10000 \<le> n"
  using assms by (cases rule: utf8_lead_cases; simp add: lead_octets)+

lemma utf8_conts_lead:
  "scalar_ok n \<Longrightarrow> utf8_conts n =
    (if utf8_lead n < 128 then 0 else if utf8_lead n div 32 = 6 then 1 else if utf8_lead n div 16 = 14 then 2 else 3)"
  using utf8_lead_ranges [of n] by (auto simp: scalar_ok_def utf8_conts_def)

lemma utf8_word_lead:
  "scalar_ok n \<Longrightarrow> (c :: byte) = word_of_nat (utf8_lead n) \<longleftrightarrow> unat c = utf8_lead n"
  using utf8_lead_bound [of n] unat_byte_of_nat [of "utf8_lead n"] word_eq_if_unat [of c "word_of_nat (utf8_lead n)"]
  by (metis scalar_ok_def)

text \<open>The values of a multi-byte form: the lead octet, then the base-64 digits, above the lower bound.\<close>

lemma utf8_lead_value:
  assumes "scalar_ok n"
  shows "unat c div 32 = 6 \<Longrightarrow> unat c = utf8_lead n \<longleftrightarrow> n div 64 = unat c mod 32 \<and> 0x80 \<le> n"
    "unat c div 16 = 14 \<Longrightarrow> unat c = utf8_lead n \<longleftrightarrow> n div 4096 = unat c mod 16 \<and> 0x800 \<le> n"
    "unat c div 8 = 30 \<Longrightarrow> unat c = utf8_lead n \<longleftrightarrow> n div 262144 = unat c mod 8 \<and> 0x10000 \<le> n"
proof -
  have n: "n \<le> 0x10ffff" using assms by (simp add: scalar_ok_def)
  show "unat c = utf8_lead n \<longleftrightarrow> n div 64 = unat c mod 32 \<and> 0x80 \<le> n" if c: "unat c div 32 = 6"
  proof -
    have eq: "unat c = 192 + unat c mod 32" using c div_mult_mod_eq [of "unat c" 32] by linarith
    have lt: "unat c mod 32 < 32" by simp
    from n show ?thesis by (cases rule: utf8_lead_cases) (use eq lt in linarith)+
  qed
  show "unat c = utf8_lead n \<longleftrightarrow> n div 4096 = unat c mod 16 \<and> 0x800 \<le> n" if c: "unat c div 16 = 14"
  proof -
    have eq: "unat c = 224 + unat c mod 16" using c div_mult_mod_eq [of "unat c" 16] by linarith
    have lt: "unat c mod 16 < 16" by simp
    from n show ?thesis by (cases rule: utf8_lead_cases) (use eq lt in linarith)+
  qed
  show "unat c = utf8_lead n \<longleftrightarrow> n div 262144 = unat c mod 8 \<and> 0x10000 \<le> n" if c: "unat c div 8 = 30"
  proof -
    have eq: "unat c = 240 + unat c mod 8" using c div_mult_mod_eq [of "unat c" 8] by linarith
    have lt: "unat c mod 8 < 8" by simp
    from n show ?thesis by (cases rule: utf8_lead_cases) (use eq lt in linarith)+
  qed
qed


theorem CBS_get_utf8_iff:
  "CBS_get_utf8 s = (Some u, r) \<longleftrightarrow> is_valid_code_point u \<and> s = utf8_enc (unat u) @ r"
proof (cases s)
  case Nil
  then show ?thesis by (simp add: CBS_get_utf8_def utf8_enc_lead)
next
  case (Cons c s1)
  let ?n = "unat u"
  have rhs: "is_valid_code_point u \<and> s = utf8_enc ?n @ r \<longleftrightarrow>
      scalar_ok ?n \<and> unat c = utf8_lead ?n \<and> s1 = cont_bytes (utf8_conts ?n) ?n @ r"
    using utf8_word_lead [of ?n c] by (auto simp: Cons is_valid_code_point_iff utf8_enc_lead)
  have tests: "c \<le> 0x7f \<longleftrightarrow> unat c < 128" "c AND TOP_BITS 3 = TOP_BITS 2 \<longleftrightarrow> unat c div 32 = 6"
    "c AND TOP_BITS 4 = TOP_BITS 3 \<longleftrightarrow> unat c div 16 = 14" "c AND TOP_BITS 5 = TOP_BITS 4 \<longleftrightarrow> unat c div 8 = 30"
    by (auto simp: word_le_nat_alt bits_values and_top_iff)
  have multi: "(case utf8_loop len v s1 of (None, s2) \<Rightarrow> (None, s2)
      | (Some v', s2) \<Rightarrow> if \<not> is_valid_code_point v' \<or> v' < lower_bound then (None, s2) else (Some v', s2)) = (Some u, r)
    \<longleftrightarrow> ?n div 64 ^ len = unat v \<and> s1 = cont_bytes len ?n @ r \<and> scalar_ok ?n \<and> unat lower_bound \<le> ?n"
    if "(unat v + 1) * 64 ^ len \<le> 2 ^ 32" for len v and lower_bound :: u32
  proof -
    obtain o2 s2 where lp: "utf8_loop len v s1 = (o2, s2)" by (cases "utf8_loop len v s1")
    show ?thesis
      using utf8_loop_iff [OF that, of s1 u r] unfolding lp
      by (cases o2; cases "o2 = Some u \<and> s2 = r") (auto simp: is_valid_code_point_iff word_less_nat_alt not_less)
  qed
  note conts = utf8_conts_lead [of ?n] and val = utf8_lead_value [of ?n c]
  consider "unat c < 128" | "unat c div 32 = 6" | "unat c div 16 = 14" | "unat c div 8 = 30"
    | "\<not> unat c < 128" "unat c div 32 \<noteq> 6" "unat c div 16 \<noteq> 14" "unat c div 8 \<noteq> 30" by blast
  then show ?thesis
  proof cases
    case 1
    then have ok: "scalar_ok (unat c)" by (simp add: scalar_ok_def)
    have get: "CBS_get_utf8 s = (Some (ucast c), s1)" using 1 by (simp add: CBS_get_utf8_def Cons tests)
    show ?thesis
    proof (cases "unat c = ?n")
      case True
      then have "ucast c = u" by (intro word_eq_if_unat) simp
      moreover have "utf8_lead ?n = ?n" "utf8_conts ?n = 0"
        using 1 True by (simp_all add: utf8_lead_def utf8_conts_def)
      ultimately show ?thesis unfolding rhs get using ok True by auto
    next
      case False
      then have "ucast c \<noteq> u" by auto
      moreover have "scalar_ok ?n \<Longrightarrow> unat c \<noteq> utf8_lead ?n"
        using 1 False utf8_lead_ranges(1) [of ?n] by (metis scalar_ok_def utf8_lead_def)
      ultimately show ?thesis unfolding rhs get by blast
    qed
  next
    case 2
    then have nb: "\<not> unat c < 128" by linarith
    have "unat (ucast (c AND BOTTOM_BITS 5) :: u32) = unat c mod 32" by (simp add: bits_values unat_mask_and)
    then show ?thesis
      unfolding rhs using 2 nb multi [of "ucast (c AND BOTTOM_BITS 5)" 1 "0x80"] conts val(1)
      by (auto simp: CBS_get_utf8_def Cons tests)
  next
    case 3
    then have nb: "\<not> unat c < 128" "unat c div 32 \<noteq> 6" by linarith+
    have "unat (ucast (c AND BOTTOM_BITS 4) :: u32) = unat c mod 16" by (simp add: bits_values unat_mask_and)
    then show ?thesis
      unfolding rhs using 3 nb multi [of "ucast (c AND BOTTOM_BITS 4)" 2 "0x800"] conts val(2)
      by (auto simp: CBS_get_utf8_def Cons tests)
  next
    case 4
    then have nb: "\<not> unat c < 128" "unat c div 32 \<noteq> 6" "unat c div 16 \<noteq> 14" by linarith+
    have "unat (ucast (c AND BOTTOM_BITS 3) :: u32) = unat c mod 8" by (simp add: bits_values unat_mask_and)
    then show ?thesis
      unfolding rhs using 4 nb multi [of "ucast (c AND BOTTOM_BITS 3)" 3 "0x10000"] conts val(3)
      by (auto simp: CBS_get_utf8_def Cons tests)
  next
    case 5
    have "unat c \<noteq> utf8_lead ?n" if "scalar_ok ?n"
    proof -
      have "?n \<le> 0x10ffff" using that by (simp add: scalar_ok_def)
      moreover have "unat c < 192 \<or> 248 \<le> unat c" using 5 unfolding lead_octets by linarith
      ultimately show ?thesis by (cases rule: utf8_lead_cases) (use 5(1) in linarith)+
    qed
    then show ?thesis unfolding rhs using 5 by (auto simp: CBS_get_utf8_def Cons tests)
  qed
qed

section \<open>The writers\<close>

lemma unat_u32_of_nat: "n < 4294967296 \<Longrightarrow> unat (word_of_nat n :: u32) = n"
  by (rule trans [OF unat_of_nat]) simp

lemma utf8_octet:
  assumes "unat y < 2 ^ k" and "unat (b :: byte) = base * 2 ^ k" and "base * 2 ^ k + unat y < 256"
  shows "(ucast ((ucast b :: u32) OR y) :: byte) = word_of_nat (base * 2 ^ k + unat y)"
proof (rule word_eq_if_unat)
  have "(ucast b :: u32) = word_of_nat (base * 2 ^ k)"
    using assms(2,3) by (intro word_eq_if_unat) (subst unat_u32_of_nat, simp_all)
  also have "\<dots> = push_bit k (word_of_nat base)" by (simp add: push_bit_eq_mult)
  finally have "(ucast b :: u32) OR y = word_of_nat base * 2 ^ k + y"
    using push_or_small [OF assms(1)] by simp
  also have "\<dots> = word_of_nat (base * 2 ^ k + unat y)" by simp
  finally have "unat ((ucast b :: u32) OR y) = base * 2 ^ k + unat y"
    using assms(3) unat_u32_of_nat [of "base * 2 ^ k + unat y"] by (simp only:)
  then show "unat (ucast ((ucast b :: u32) OR y) :: byte) = unat (word_of_nat (base * 2 ^ k + unat y) :: byte)"
    using assms(3) by (simp only: unat_ucast_mod unat_byte_of_nat) simp
qed

lemma utf8_digit: "unat ((u :: u32) AND ucast (BOTTOM_BITS 6)) = unat u mod 64"
proof -
  have "(ucast (BOTTOM_BITS 6) :: u32) = mask 6" by (simp add: bits_values mask_eq_exp_minus_1)
  then show ?thesis by (simp only: unat_mask_and) simp
qed

lemma utf8_cont_octet:
  "(ucast ((ucast (TOP_BITS 1) :: u32) OR (y AND ucast (BOTTOM_BITS 6))) :: byte) = word_of_nat (128 + unat y mod 64)"
proof -
  have "unat (TOP_BITS 1) = 1 * 2 ^ 7" by (simp add: bits_values)
  from utf8_octet [OF _ this, of "y AND ucast (BOTTOM_BITS 6)", unfolded utf8_digit]
  show ?thesis using mod_less_divisor [of 64 "unat y"] by simp
qed

lemma CBB_add_utf8_eq:
  assumes "is_valid_code_point u"
  shows "CBB_add_utf8 w d u = write_all CBB_add_u8 w d (utf8_enc (unat u))"
proof -
  let ?n = "unat u"
  have n: "?n \<le> 0x10ffff" using assms by (simp add: is_valid_code_point_iff scalar_ok_def)
  have q: "unat (drop_bit 6 u) = ?n div 64" "unat (drop_bit 12 u) = ?n div 4096" "unat (drop_bit 18 u) = ?n div 262144"
    by (simp_all add: unat_drop)
  have t: "u \<le> 0x7f \<longleftrightarrow> ?n < 0x80" "u \<le> 0x7ff \<longleftrightarrow> ?n < 0x800" "u \<le> 0xffff \<longleftrightarrow> ?n < 0x10000" "u \<le> 0x10ffff"
    using n by (auto simp: word_le_nat_alt)
  from n show ?thesis
  proof (cases rule: utf8_lead_cases)
    case 1
    then have "(ucast u :: byte) = word_of_nat ?n"
      by (intro word_eq_if_unat) (simp add: unat_ucast_mod unat_byte_of_nat)
    then show ?thesis
      using 1 assms t by (simp add: CBB_add_utf8_def utf8_enc_def split: prod.split bool.split)
  next
    case 2
    have "(ucast ((ucast (TOP_BITS 2) :: u32) OR drop_bit 6 u) :: byte) = word_of_nat (192 + ?n div 64)"
      using utf8_octet [of "drop_bit 6 u" 6 "TOP_BITS 2" 3] 2 by (simp add: q bits_values)
    then show ?thesis
      using 2 assms t by (simp only: CBB_add_utf8_def utf8_cont_octet utf8_enc_def) (simp del: of_nat_add)
  next
    case 3
    have "(ucast ((ucast (TOP_BITS 3) :: u32) OR drop_bit 12 u) :: byte) = word_of_nat (224 + ?n div 4096)"
      using utf8_octet [of "drop_bit 12 u" 5 "TOP_BITS 3" 7] 3 by (simp add: q bits_values)
    then show ?thesis
      using 3 assms t by (simp only: CBB_add_utf8_def utf8_cont_octet utf8_enc_def q) (simp add: numeral_2_eq_2 del: of_nat_add)
  next
    case 4
    have "(ucast ((ucast (TOP_BITS 4) :: u32) OR drop_bit 18 u) :: byte) = word_of_nat (240 + ?n div 262144)"
      using utf8_octet [of "drop_bit 18 u" 4 "TOP_BITS 4" 15] 4 by (simp add: q bits_values)
    then show ?thesis
      using 4 assms t by (simp only: CBB_add_utf8_def utf8_cont_octet utf8_enc_def q) (simp add: numeral_3_eq_3 del: of_nat_add)
  qed
qed

interpretation utf8_writer: cbb_writer CBB_add_utf8 "\<lambda>u. utf8_enc (unat u)" is_valid_code_point
proof -
  have ne: "utf8_enc n \<noteq> []" for n by (simp add: utf8_enc_lead)
  then have hd_tl: "hd (utf8_enc n) # tl (utf8_enc n) = utf8_enc n" for n by simp
  have enc: "concat (map (\<lambda>v. [v]) xs) = xs" for xs :: "byte list" by (induction xs) auto
  have err: "\<not> fst (CBB_add_utf8 w d u)" if "bb_error (cbb_base w)" for w d u
    using u8_writer.write_all_error [OF that ne, of d "unat u"] CBB_add_utf8_eq [of u w d]
    by (cases "is_valid_code_point u") (simp_all, simp add: CBB_add_utf8_def)
  show "cbb_writer CBB_add_utf8 (\<lambda>u. utf8_enc (unat u)) is_valid_code_point"
    by (rule cbb_writer_via [OF octets_writer.cbb_writer_axioms,
          where f = "\<lambda>u. (hd (utf8_enc (unat u)), tl (utf8_enc (unat u)))"])
      (simp_all only: CBB_add_utf8_eq hd_tl prod.case enc err simp_thms, simp)
qed

interpretation utf8_reader: cbs_strict_reader CBS_get_utf8
proof
  fix s r :: cbs and u assume "CBS_get_utf8 s = (Some u, r)"
  then have s: "s = utf8_enc (unat u) @ r" and ok: "is_valid_code_point u" by (simp_all add: CBS_get_utf8_iff)
  then show "\<exists>c. s = c @ r" by blast
  show "CBS_get_utf8 (s @ t) = (Some u, r @ t)" for t
    using s ok by (simp add: CBS_get_utf8_iff)
  show "r \<noteq> s" using s by (simp add: utf8_enc_lead)
qed

lemma length_cont_bytes [simp]: "length (cont_bytes n m) = n"
  by (induction n) simp_all

lemma utf8_len: "length (utf8_enc (unat u)) = CBB_get_utf8_len u"
  by (simp add: utf8_enc_def CBB_get_utf8_len_def word_le_nat_alt)

interpretation latin1_writer: cbb_writer CBB_add_latin1 "\<lambda>u. [word_of_nat (unat u)]" "\<lambda>u. u \<le> 0xff"
  by (rule cbb_writer_via [OF u8_writer.cbb_writer_axioms, where f = ucast])
    (use u8_writer.add_error in \<open>auto simp: CBB_add_latin1_def\<close>)

interpretation ucs2_writer: cbb_writer CBB_add_ucs2_be "\<lambda>u. be_bytes 2 (unat u)"
  "\<lambda>u. u \<le> 0xffff \<and> is_valid_code_point u"
  by (rule cbb_writer_via [OF u16_writer.cbb_writer_axioms, where f = ucast])
    (use u16_writer.add_error in \<open>auto simp: CBB_add_ucs2_be_def unat_ucast_mod word_le_nat_alt\<close>)

interpretation utf32_writer: cbb_writer CBB_add_utf32_be "\<lambda>u. be_bytes 4 (unat u)" is_valid_code_point
  by (rule cbb_writer_via [OF u32_writer.cbb_writer_axioms, where f = id])
    (use u32_writer.add_error in \<open>auto simp: CBB_add_utf32_be_def\<close>)

text \<open>
  \<^verbatim>\<open>CBS_get_utf8\<close> accepts exactly the shortest UTF-8 form of the code points that are not
  surrogates or noncharacters, and consumes exactly that form.
\<close>

theorem utf8_reader_exact:
  "CBS_get_utf8 s = (Some u, r) \<longleftrightarrow> scalar_ok (unat u) \<and> s = utf8_enc (unat u) @ r"
  by (simp only: CBS_get_utf8_iff is_valid_code_point_iff)

text \<open>
  C35. A code point written as UTF-8 takes the number of bytes \<^verbatim>\<open>CBB_get_utf8_len\<close> says, and is read
  back; so it is in UTF-32, and in UCS-2 and Latin-1 when it fits, where it is refused and nothing written when it does not.
\<close>

theorem unicode_roundtrip:
  assumes "root_has w bs" and "length bs + 4 < SIZE_MOD" and "is_valid_code_point u"
  shows "(\<exists>w' e. CBB_add_utf8 w 0 u = (True, w') \<and> root_has w' (bs @ e) \<and> length e = CBB_get_utf8_len u \<and>
      CBS_get_utf8 (e @ rest) = (Some u, rest)) \<and>
    (\<exists>w' e. CBB_add_utf32_be w 0 u = (True, w') \<and> root_has w' (bs @ e) \<and>
      CBS_get_utf32_be (e @ rest) = (Some u, rest)) \<and>
    (if u \<le> 0xffff then \<exists>w' e. CBB_add_ucs2_be w 0 u = (True, w') \<and> root_has w' (bs @ e) \<and>
      CBS_get_ucs2_be (e @ rest) = (Some u, rest) else CBB_add_ucs2_be w 0 u = (False, w)) \<and>
    (if u \<le> 0xff then \<exists>w' e. CBB_add_latin1 w 0 u = (True, w') \<and> root_has w' (bs @ e) \<and>
      CBS_get_latin1 (e @ rest) = (Some u, rest) else CBB_add_latin1 w 0 u = (False, w))"
proof (intro conjI)
  have "length (utf8_enc (unat u)) \<le> 4" by (simp add: utf8_len CBB_get_utf8_len_def)
  then show "\<exists>w' e. CBB_add_utf8 w 0 u = (True, w') \<and> root_has w' (bs @ e) \<and> length e = CBB_get_utf8_len u \<and>
      CBS_get_utf8 (e @ rest) = (Some u, rest)"
    using utf8_writer.root_step [OF assms(1,3)] assms(2,3) utf8_len [of u] by (fastforce simp: CBS_get_utf8_iff)
  show "\<exists>w' e. CBB_add_utf32_be w 0 u = (True, w') \<and> root_has w' (bs @ e) \<and>
      CBS_get_utf32_be (e @ rest) = (Some u, rest)"
    using utf32_writer.root_step [OF assms(1,3)] assms(2,3) CBS_get_be_bytes(3) [of u rest]
    by (fastforce simp: CBS_get_utf32_be_def)
  show "if u \<le> 0xffff then \<exists>w' e. CBB_add_ucs2_be w 0 u = (True, w') \<and> root_has w' (bs @ e) \<and>
      CBS_get_ucs2_be (e @ rest) = (Some u, rest) else CBB_add_ucs2_be w 0 u = (False, w)"
  proof (cases "u \<le> 0xffff")
    case True
    then have u: "unat (ucast u :: u16) = unat u" by (simp add: unat_ucast_mod word_le_nat_alt)
    then have "(ucast (ucast u :: u16) :: u32) = u" by (intro word_eq_if_unat) simp
    then have "CBS_get_ucs2_be (be_bytes 2 (unat u) @ rest) = (Some u, rest)"
      using CBS_get_be_bytes(1) [of "ucast u" rest] assms(3) by (simp add: CBS_get_ucs2_be_def u)
    then show ?thesis
      using True ucs2_writer.root_step [OF assms(1), of u] assms(2,3) by fastforce
  next
    case False
    then show ?thesis by (simp add: CBB_add_ucs2_be_def)
  qed
  show "if u \<le> 0xff then \<exists>w' e. CBB_add_latin1 w 0 u = (True, w') \<and> root_has w' (bs @ e) \<and>
      CBS_get_latin1 (e @ rest) = (Some u, rest) else CBB_add_latin1 w 0 u = (False, w)"
  proof (cases "u \<le> 0xff")
    case True
    then have "unat u < 256" by (simp add: word_le_nat_alt)
    then have "(ucast (word_of_nat (unat u) :: byte) :: u32) = u"
      by (intro word_eq_if_unat) (simp add: unsigned_ucast_eq unsigned_of_nat unsigned_take_bit_eq take_bit_nat_def)
    then have "CBS_get_latin1 ([word_of_nat (unat u)] @ rest) = (Some u, rest)" by (simp add: CBS_get_latin1_def)
    then show ?thesis using True latin1_writer.root_step [OF assms(1), of u] assms(2) by fastforce
  next
    case False
    then show ?thesis by (simp add: CBB_add_latin1_def)
  qed
qed

theorem unicode_roundtrip_witness:
  "root_has sample_root [] \<and> is_valid_code_point 0x20ac \<and>
   (\<exists>w' e. CBB_add_utf8 sample_root 0 0x20ac = (True, w') \<and> root_has w' ([] @ e) \<and>
      length e = CBB_get_utf8_len 0x20ac \<and> CBS_get_utf8 (e @ [65]) = (Some 0x20ac, [65]))"
proof -
  have v: "is_valid_code_point 0x20ac" by (simp add: is_valid_code_point_def)
  then show ?thesis
    using sample_root_has unicode_roundtrip [OF sample_root_has _ v, of "[65]"] by (simp add: SIZE_MOD_def)
qed

end
