(* ===== verification/PosixTime.thy ===== *)
theory PosixTime
  imports Prelude "HOL-Library.Signed_Division"
begin

text \<open>
  Civil and POSIX time in UTC (\<^verbatim>\<open>crypto/asn1/posix_time.c\<close>).  The C integers are modelled as \<open>int\<close>
  with the division of C (\<open>sdiv\<close> and \<open>smod\<close> round towards zero); the values stay far inside 64
  bits in the range of years the code accepts, and the one place that guards against overflow
  (\<^verbatim>\<open>OPENSSL_gmtime_adj\<close>) has its guards in the model.

  The reference is the calendar itself: \<open>next_day\<close> goes from one day to the next.  The formula
  of the code is shown to count days (the successor of a day is one day later, 1970-01-01 is day
  0), and the inverse formula to invert it.
\<close>

section \<open>The code\<close>

definition SECS_PER_HOUR :: int where "SECS_PER_HOUR = 60 * 60"
definition SECS_PER_DAY :: int where "SECS_PER_DAY = 24 * SECS_PER_HOUR"

definition is_valid_date :: "int \<Rightarrow> int \<Rightarrow> int \<Rightarrow> bool" where
  "is_valid_date year month day =
     (if day < 1 \<or> month < 1 \<or> year < 0 \<or> year > 9999 then False
      else if month \<in> {1, 3, 5, 7, 8, 10, 12} then day > 0 \<and> day \<le> 31
      else if month \<in> {4, 6, 9, 11} then day > 0 \<and> day \<le> 30
      else if month = 2 then
        (if (year smod 4 = 0 \<and> year smod 100 \<noteq> 0) \<or> year smod 400 = 0 then day > 0 \<and> day \<le> 29
         else day > 0 \<and> day \<le> 28)
      else False)"

definition is_valid_time :: "int \<Rightarrow> int \<Rightarrow> int \<Rightarrow> bool" where
  "is_valid_time hours minutes seconds =
     (\<not> (hours < 0 \<or> minutes < 0 \<or> seconds < 0 \<or> hours > 23 \<or> minutes > 59 \<or> seconds > 59))"

definition MIN_POSIX_TIME :: int where "MIN_POSIX_TIME = - 62167219200"
definition MAX_POSIX_TIME :: int where "MAX_POSIX_TIME = 253402300799"

definition is_valid_posix_time :: "int \<Rightarrow> bool" where
  "is_valid_posix_time time = (MIN_POSIX_TIME \<le> time \<and> time \<le> MAX_POSIX_TIME)"

record civil =
  c_year :: int
  c_month :: int
  c_day :: int
  c_hours :: int
  c_minutes :: int
  c_seconds :: int

definition posix_time_from_utc :: "int \<Rightarrow> int \<Rightarrow> int \<Rightarrow> int \<Rightarrow> int \<Rightarrow> int \<Rightarrow> int option" where
  "posix_time_from_utc year0 month day hours minutes seconds =
     (if \<not> is_valid_date year0 month day \<or> \<not> is_valid_time hours minutes seconds then None
      else
        let year = (if month \<le> 2 then year0 - 1 else year0);
            era = (if year \<ge> 0 then year else year - 399) sdiv 400;
            year_of_era = year - era * 400;
            day_of_year = (153 * (if month > 2 then month - 3 else month + 9) + 2) sdiv 5 + day - 1;
            day_of_era = year_of_era * 365 + year_of_era sdiv 4 - year_of_era sdiv 100 + day_of_year;
            posix_days = era * 146097 + day_of_era - 719468
        in Some (posix_days * SECS_PER_DAY + hours * SECS_PER_HOUR + minutes * 60 + seconds))"

definition utc_from_posix_time :: "int \<Rightarrow> civil option" where
  "utc_from_posix_time time =
     (if \<not> is_valid_posix_time time then None
      else
        let days0 = time sdiv SECS_PER_DAY;
            leftover0 = time smod SECS_PER_DAY;
            (days1, leftover) = (if leftover0 < 0 then (days0 - 1, leftover0 + SECS_PER_DAY) else (days0, leftover0));
            days = days1 + 719468;
            era = (if days > 0 then days else days - 146096) sdiv 146097;
            day_of_era = days - era * 146097;
            year_of_era = (day_of_era - day_of_era sdiv 1460 + day_of_era sdiv 36524 - day_of_era sdiv 146096) sdiv 365;
            out_year = year_of_era + era * 400;
            day_of_year = day_of_era - (365 * year_of_era + year_of_era sdiv 4 - year_of_era sdiv 100);
            month_of_year = (5 * day_of_year + 2) sdiv 153;
            out_month = (if month_of_year < 10 then month_of_year + 3 else month_of_year - 9)
        in Some \<lparr>c_year = (if out_month \<le> 2 then out_year + 1 else out_year), c_month = out_month,
             c_day = day_of_year - (153 * month_of_year + 2) sdiv 5 + 1,
             c_hours = leftover sdiv SECS_PER_HOUR,
             c_minutes = leftover smod SECS_PER_HOUR sdiv 60,
             c_seconds = leftover smod SECS_PER_HOUR smod 60\<rparr>)"

text \<open>The fields of \<^verbatim>\<open>struct tm\<close> the code uses; the others are set to zero and never read.\<close>

record tm =
  tm_year :: int
  tm_mon :: int
  tm_mday :: int
  tm_hour :: int
  tm_min :: int
  tm_sec :: int

definition OPENSSL_tm_to_posix :: "tm \<Rightarrow> int option" where
  "OPENSSL_tm_to_posix t =
     posix_time_from_utc (tm_year t + 1900) (tm_mon t + 1) (tm_mday t) (tm_hour t) (tm_min t) (tm_sec t)"

definition OPENSSL_posix_to_tm :: "int \<Rightarrow> tm option" where
  "OPENSSL_posix_to_tm time = (case utc_from_posix_time time of
     None \<Rightarrow> None
   | Some c \<Rightarrow> Some \<lparr>tm_year = c_year c - 1900, tm_mon = c_month c - 1, tm_mday = c_day c,
       tm_hour = c_hours c, tm_min = c_minutes c, tm_sec = c_seconds c\<rparr>)"

text \<open>\<open>time_t_32\<close>: whether \<^verbatim>\<open>time_t\<close> has 32 bits.\<close>

definition OPENSSL_timegm :: "bool \<Rightarrow> tm \<Rightarrow> int option" where
  "OPENSSL_timegm time_t_32 t = (case OPENSSL_tm_to_posix t of
     None \<Rightarrow> None
   | Some posix_time \<Rightarrow>
       if time_t_32 \<and> (posix_time > 2147483647 \<or> posix_time < - 2147483648) then None else Some posix_time)"

definition OPENSSL_gmtime :: "int \<Rightarrow> tm option" where
  "OPENSSL_gmtime time = OPENSSL_posix_to_tm time"

definition INT64_MAX :: int where "INT64_MAX = 2 ^ 63 - 1"
definition INT64_MIN :: int where "INT64_MIN = - (2 ^ 63)"

definition OPENSSL_gmtime_adj :: "tm \<Rightarrow> int \<Rightarrow> int \<Rightarrow> tm option" where
  "OPENSSL_gmtime_adj t offset_day offset_sec = (case OPENSSL_tm_to_posix t of
     None \<Rightarrow> None
   | Some posix_time0 \<Rightarrow>
       let posix_time = posix_time0 + offset_day * SECS_PER_DAY
       in if posix_time > 0 \<and> offset_sec > INT64_MAX - posix_time then None
          else if posix_time < 0 \<and> offset_sec < INT64_MIN - posix_time then None
          else OPENSSL_posix_to_tm (posix_time + offset_sec))"

text \<open>The result is \<^verbatim>\<open>(out_days, out_secs)\<close>.\<close>

definition OPENSSL_gmtime_diff :: "tm \<Rightarrow> tm \<Rightarrow> (int \<times> int) option" where
  "OPENSSL_gmtime_diff from to = (case OPENSSL_tm_to_posix to of
     None \<Rightarrow> None
   | Some time_to \<Rightarrow> (case OPENSSL_tm_to_posix from of
       None \<Rightarrow> None
     | Some time_from \<Rightarrow>
         let timediff = time_to - time_from
         in Some (timediff sdiv SECS_PER_DAY, timediff smod SECS_PER_DAY)))"

section \<open>The day count\<close>

lemma sdiv_pos: "0 \<le> a \<Longrightarrow> 0 < b \<Longrightarrow> a sdiv b = a div (b :: int)"
  by (cases "a = 0") (simp_all add: signed_divide_int_def)

lemma smod_pos: "0 \<le> a \<Longrightarrow> 0 < b \<Longrightarrow> a smod b = a mod (b :: int)"
  using sdiv_pos [of a b] by (simp add: smod_int_alt_def minus_div_mult_eq_mod [symmetric]) (simp add: sgn_if)

lemma smod_sdiv: "a smod b = a - a sdiv b * (b :: int)"
  by (metis add_diff_cancel_left' sdiv_mult_smod_eq)

text \<open>The code shifts negative numbers so that the division of C rounds down.\<close>

lemma div_neg: "0 < b \<Longrightarrow> a < 0 \<Longrightarrow> a div (b :: int) = - ((b - 1 - a) div b)"
proof -
  assume b: "0 < b"
  let ?q = "(b - 1 - a) div b"
  have "b * ?q + (b - 1 - a) mod b = b - 1 - a" by simp
  moreover have "0 \<le> (b - 1 - a) mod b" "(b - 1 - a) mod b < b" using b by simp_all
  ultimately show "a div b = - ?q"
    by (intro int_div_pos_eq [where r = "a + b * ?q"]) linarith+
qed

lemma sdiv_neg: "0 < b \<Longrightarrow> a < 0 \<Longrightarrow> a sdiv (b :: int) = - ((- a) div b)"
  by (simp add: signed_divide_int_def sgn_if)

lemma sdiv_floor: "0 < b \<Longrightarrow> (if a \<ge> 0 then a else a - (b - 1)) sdiv b = a div (b :: int)"
  using div_neg [of b a] sdiv_neg [of b "a - (b - 1)"] by (auto simp: sdiv_pos algebra_simps)

lemma floor_divmod:
  assumes "0 < (b :: int)"
  shows "(if a smod b < 0 then (a sdiv b - 1, a smod b + b) else (a sdiv b, a smod b)) = (a div b, a mod b)"
proof (cases "0 \<le> a")
  case True
  then show ?thesis using assms by (simp add: sdiv_pos smod_pos not_less)
next
  case False
  let ?q = "(- a) div b"
  have q: "a sdiv b = - ?q" using False assms by (simp add: sdiv_neg)
  have r: "a smod b = a + ?q * b" by (simp add: smod_sdiv q)
  have "b * ?q + (- a) mod b = - a" by simp
  then have rm: "a + b * ?q = - ((- a) mod b)" by linarith
  have bnd: "0 \<le> (- a) mod b" "(- a) mod b < b" using assms by simp_all
  show ?thesis
  proof (cases "a smod b < 0")
    case True
    have "a div b = - ?q - 1" "a mod b = a + b * ?q + b"
      by (rule int_div_pos_eq [where r = "a + b * ?q + b"] int_mod_pos_eq [where q = "- ?q - 1"];
          use True r rm bnd in \<open>simp add: algebra_simps\<close>)+
    then show ?thesis using True q r by (simp add: algebra_simps)
  next
    case False
    then have z: "a + b * ?q = 0" using r rm bnd by (simp add: algebra_simps)
    have "a div b = - ?q" "a mod b = 0"
      by (rule int_div_pos_eq [where r = 0] int_mod_pos_eq [where q = "- ?q"];
          use z assms in \<open>simp add: algebra_simps\<close>)+
    then show ?thesis using False q r z by (simp add: algebra_simps)
  qed
qed

definition march_year :: "int \<Rightarrow> int \<Rightarrow> int" where
  "march_year y m = (if m \<le> 2 then y - 1 else y)"

definition march_month :: "int \<Rightarrow> int" where
  "march_month m = (if m > 2 then m - 3 else m + 9)"

definition year_days :: "int \<Rightarrow> int" where
  "year_days y = 365 * y + y div 4 - y div 100 + y div 400"

definition month_days :: "int \<Rightarrow> int" where
  "month_days k = (153 * k + 2) div 5"

definition day_number :: "int \<Rightarrow> int \<Rightarrow> int \<Rightarrow> int" where
  "day_number y m d = year_days (march_year y m) + month_days (march_month m) + d - 1"

lemma year_days_era: "year_days (400 * e + r) = e * 146097 + (365 * r + r div 4 - r div 100 + r div 400)"
proof -
  have "(400 * e + r) div 4 = 100 * e + r div 4" "(400 * e + r) div 100 = 4 * e + r div 100"
    "(400 * e + r) div 400 = e + r div 400" by linarith+
  then show ?thesis by (simp add: year_days_def)
qed

lemma posix_time_from_utc_eq:
  "posix_time_from_utc y m d h mi s =
   (if is_valid_date y m d \<and> is_valid_time h mi s
    then Some ((day_number y m d - 719468) * 86400 + h * 3600 + mi * 60 + s) else None)"
proof (cases "is_valid_date y m d \<and> is_valid_time h mi s")
  case True
  define Y where "Y = march_year y m"
  have m: "1 \<le> m" "m \<le> 12"
    using True by (auto simp: is_valid_date_def split: if_splits)
  have e: "(if Y \<ge> 0 then Y else Y - 399) sdiv 400 = Y div 400"
    by (cases "0 \<le> Y") (use sdiv_floor [of 400 Y] in simp_all)
  have r: "Y - Y div 400 * 400 = Y mod 400" by (simp add: minus_div_mult_eq_mod)
  have k: "(153 * march_month m + 2) sdiv 5 = month_days (march_month m)"
    using m by (simp add: month_days_def march_month_def sdiv_pos)
  have "year_days Y = Y div 400 * 146097 + (365 * (Y mod 400) + Y mod 400 div 4 - Y mod 400 div 100)"
    using year_days_era [of "Y div 400" "Y mod 400"] by simp
  moreover have "Y mod 400 sdiv 4 = Y mod 400 div 4" "Y mod 400 sdiv 100 = Y mod 400 div 100"
    by (simp_all add: sdiv_pos)
  ultimately show ?thesis
    unfolding posix_time_from_utc_def Let_def march_year_def [symmetric] march_month_def [symmetric]
      Y_def [symmetric] e r k day_number_def SECS_PER_DAY_def SECS_PER_HOUR_def
    using True by simp
next
  case False
  then show ?thesis by (auto simp: posix_time_from_utc_def)
qed

section \<open>The calendar\<close>

definition leap :: "int \<Rightarrow> bool" where
  "leap y \<longleftrightarrow> (4 dvd y \<and> \<not> 100 dvd y) \<or> 400 dvd y"

definition days_in_month :: "int \<Rightarrow> int \<Rightarrow> int" where
  "days_in_month y m = (if m \<in> {4, 6, 9, 11} then 30 else if m = 2 then (if leap y then 29 else 28) else 31)"

definition next_day :: "int \<times> int \<times> int \<Rightarrow> int \<times> int \<times> int" where
  "next_day = (\<lambda>(y, m, d). if d < days_in_month y m then (y, m, d + 1)
     else if m < 12 then (y, m + 1, 1) else (y + 1, 1, 1))"

lemma is_valid_date_iff:
  "is_valid_date y m d \<longleftrightarrow> 0 \<le> y \<and> y \<le> 9999 \<and> 1 \<le> m \<and> m \<le> 12 \<and> 1 \<le> d \<and> d \<le> days_in_month y m"
proof (cases "0 \<le> y")
  case True
  then have "(y smod 4 = 0 \<and> y smod 100 \<noteq> 0) \<or> y smod 400 = 0 \<longleftrightarrow> leap y"
    by (simp add: smod_pos leap_def dvd_eq_mod_eq_0)
  moreover have "1 \<le> m \<and> m \<le> 12 \<longleftrightarrow> m \<in> {1, 3, 5, 7, 8, 10, 12} \<or> m \<in> {4, 6, 9, 11} \<or> m = 2"
    by simp presburger
  ultimately show ?thesis using True by (auto simp: is_valid_date_def days_in_month_def)
qed (simp add: is_valid_date_def)

lemma div_succ: "0 < n \<Longrightarrow> (y + 1) div n = y div n + (if n dvd y + 1 then 1 else 0)" for n y :: int
proof -
  assume n: "0 < n"
  have y: "y = n * (y div n) + y mod n" by simp
  have m: "0 \<le> y mod n" "y mod n < n" using n by simp_all
  show ?thesis
  proof (cases "y mod n = n - 1")
    case True
    have "y + 1 = n * (y div n + 1)" using y True by (simp add: algebra_simps)
    then show ?thesis using n by (metis dvd_triv_left nonzero_mult_div_cancel_left less_irrefl)
  next
    case False
    have "(y + 1) div n = y div n" "(y + 1) mod n = y mod n + 1"
      by (rule int_div_pos_eq [where r = "y mod n + 1"] int_mod_pos_eq [where q = "y div n"]; use y m False in linarith)+
    then show ?thesis using m by (simp add: dvd_eq_mod_eq_0)
  qed
qed

lemma year_days_succ: "year_days y = year_days (y - 1) + 365 + (if leap y then 1 else 0)"
proof -
  have imp: "100 dvd y \<Longrightarrow> 4 dvd y" "400 dvd y \<Longrightarrow> 100 dvd y"
    using dvd_trans [of 4 100 y] dvd_trans [of 100 400 y] by simp_all
  have "y div 4 = (y - 1) div 4 + (if 4 dvd y then 1 else 0)" "y div 100 = (y - 1) div 100 + (if 100 dvd y then 1 else 0)"
    "y div 400 = (y - 1) div 400 + (if 400 dvd y then 1 else 0)"
    using div_succ [of _ "y - 1"] by simp_all
  note step = this
  show ?thesis
  proof (cases "100 dvd y")
    case True
    then show ?thesis unfolding year_days_def leap_def step using imp by simp
  next
    case False
    then have "\<not> 400 dvd y" using imp by blast
    then show ?thesis unfolding year_days_def leap_def step using False by simp
  qed
qed

lemma month_days_values:
  "month_days 0 = 0" "month_days 1 = 31" "month_days 2 = 61" "month_days 3 = 92" "month_days 4 = 122"
  "month_days 5 = 153" "month_days 6 = 184" "month_days 7 = 214" "month_days 8 = 245" "month_days 9 = 275"
  "month_days 10 = 306" "month_days 11 = 337"
  by (simp_all add: month_days_def)

lemma month_cases:
  assumes "1 \<le> m" "m \<le> (12 :: int)"
  obtains "m = 1" | "m = 2" | "m = 3" | "m = 4" | "m = 5" | "m = 6" | "m = 7" | "m = 8" | "m = 9" | "m = 10" | "m = 11" | "m = 12"
proof -
  have "m = 1 \<or> m = 2 \<or> m = 3 \<or> m = 4 \<or> m = 5 \<or> m = 6 \<or> m = 7 \<or> m = 8 \<or> m = 9 \<or> m = 10 \<or> m = 11 \<or> m = 12"
    using assms by presburger
  then show thesis using that by blast
qed

lemma day_number_succ:
  assumes "1 \<le> m" "m \<le> 12" "d \<le> days_in_month y m"
  shows "(case next_day (y, m, d) of (y', m', d') \<Rightarrow> day_number y' m' d') = day_number y m d + 1"
proof (cases "d < days_in_month y m")
  case True
  then show ?thesis by (simp add: next_day_def day_number_def)
next
  case False
  then have d: "d = days_in_month y m" using assms(3) by simp
  show ?thesis
    using assms(1,2)
    by (cases rule: month_cases)
      (use year_days_succ [of y] in \<open>auto simp: d next_day_def day_number_def days_in_month_def march_year_def
        march_month_def month_days_values\<close>)
qed

section \<open>The inverse formula\<close>

definition era_year :: "int \<Rightarrow> int" where
  "era_year n = (n - n div 1460 + n div 36524 - n div 146096) div 365"

lemma era_year_table:
  "list_all (\<lambda>r. era_year (year_days r) = r \<and> era_year (year_days (r + 1) - 1) = r) [0..399]"
  by code_simp

lemma era_year_mono:
  assumes "0 \<le> a" "a \<le> b"
  shows "era_year a \<le> era_year b"
proof -
  have step: "x - x div k \<le> y - y div k" if "x \<le> y" "0 < k" for x y k :: int
  proof -
    have "(y - x) * 1 \<le> (y - x) * k" using that by (intro mult_left_mono) simp_all
    then have "y div k \<le> (x + (y - x) * k) div k" using that(2) by (intro zdiv_mono1) simp_all
    also have "\<dots> = x div k + (y - x)" using that(2) by simp
    finally show ?thesis by simp
  qed
  have d4: "n div 146096 = n div 36524 div 4" for n :: int by (simp add: div_mult2_eq [symmetric])
  have "a div 36524 \<le> b div 36524" using assms(2) by (intro zdiv_mono1) simp_all
  then have "a div 36524 - a div 146096 \<le> b div 36524 - b div 146096"
    unfolding d4 by (rule step) simp
  with step [OF assms(2), of 1460]
  have "a - a div 1460 + (a div 36524 - a div 146096) \<le> b - b div 1460 + (b div 36524 - b div 146096)"
    by (intro add_mono) simp_all
  then show ?thesis unfolding era_year_def add_diff_eq by (rule zdiv_mono1) simp
qed

lemma era_year_unique:
  assumes "0 \<le> r" "r \<le> 399" "year_days r \<le> n" "n < year_days (r + 1)"
  shows "era_year n = r"
proof -
  have "r \<in> set [0..399]" using assms(1,2) by simp
  then have t: "era_year (year_days r) = r" "era_year (year_days (r + 1) - 1) = r"
    using era_year_table by (auto simp: list_all_iff)
  have "0 \<le> year_days r" using assms(1,2) by (simp add: year_days_def)
  then show ?thesis
    using era_year_mono [of "year_days r" n] era_year_mono [of n "year_days (r + 1) - 1"] t assms(3,4) by linarith
qed

lemma month_of_day:
  assumes "month_days k \<le> n" "n < month_days (k + 1)"
  shows "(5 * n + 2) div 153 = k"
proof -
  have "153 * k \<le> 5 * n + 2" "5 * n + 2 < 153 * k + 153" using assms by (simp_all add: month_days_def)
  then show ?thesis by linarith
qed

text \<open>Every day is in exactly one March year, at a day of year the year has.\<close>

lemma year_days_400: "year_days (y + 400 * e) = year_days y + 146097 * e"
proof -
  have "(y + 400 * e) div 4 = y div 4 + 100 * e" "(y + 400 * e) div 100 = y div 100 + 4 * e"
    "(y + 400 * e) div 400 = y div 400 + e" by linarith+
  then show ?thesis by (simp add: year_days_def)
qed

lemma year_days_less: "year_days y < year_days (y + 1)"
  using year_days_succ [of "y + 1"] by simp

lemma year_days_mono: "y \<le> z \<Longrightarrow> year_days y \<le> year_days z"
  by (induction z rule: int_ge_induct) (auto intro: order_trans [OF _ less_imp_le [OF year_days_less]])

lemma year_exists:
  assumes "0 \<le> n" "n < 146097"
  shows "\<exists>r. 0 \<le> r \<and> r \<le> 399 \<and> year_days r \<le> n \<and> n < year_days (r + 1)"
proof -
  let ?P = "\<lambda>k. n < year_days (int k + 1)"
  have P: "?P 399" using assms(2) by (simp add: year_days_def)
  define k where "k = (LEAST k. ?P k)"
  have k: "?P k" "k \<le> 399" using P LeastI [of ?P 399] Least_le [of ?P 399] by (simp_all add: k_def)
  have "year_days (int k) \<le> n"
  proof (cases k)
    case 0
    then show ?thesis using assms(1) by (simp add: year_days_def)
  next
    case (Suc j)
    then have "\<not> ?P j" using not_less_Least [of j ?P] by (simp add: k_def)
    then show ?thesis using Suc by (simp add: add.commute)
  qed
  then show ?thesis using k by (intro exI [of _ "int k"]) simp
qed

definition civil_day :: "int \<Rightarrow> int \<times> int \<times> int" where
  "civil_day n =
     (let e = n div 146097; doe = n mod 146097; r = era_year doe; doy = doe - year_days r;
          k = (5 * doy + 2) div 153; m = (if k < 10 then k + 3 else k - 9); y = r + e * 400
      in (if m \<le> 2 then y + 1 else y, m, doy - month_days k + 1))"

lemma month_bounds:
  assumes "0 \<le> n" "n \<le> 365"
  defines "k \<equiv> (5 * n + 2) div 153"
  shows "0 \<le> k" "k \<le> 11" "month_days k \<le> n" "n < month_days (k + 1)"
proof -
  have "153 * k \<le> 5 * n + 2" "5 * n + 2 < 153 * k + 153" by (simp_all add: k_def)
  then show "0 \<le> k" "k \<le> 11" "month_days k \<le> n" "n < month_days (k + 1)"
    using assms(1,2) by (simp_all add: month_days_def)
qed

lemma month_length:
  assumes "0 \<le> k" "k < 11"
  shows "month_days (k + 1) - month_days k = days_in_month y (if k < 10 then k + 3 else k - 9)"
proof -
  have "k = 0 \<or> k = 1 \<or> k = 2 \<or> k = 3 \<or> k = 4 \<or> k = 5 \<or> k = 6 \<or> k = 7 \<or> k = 8 \<or> k = 9 \<or> k = 10"
    using assms by presburger
  then show ?thesis by (elim disjE) (simp_all add: month_days_values days_in_month_def)
qed

lemma leap_period: "leap (y + 400 * e) = leap y"
proof -
  have "k dvd y + 400 * e \<longleftrightarrow> k dvd y" if "k dvd 400" for k
    using that by (simp add: dvd_add_left_iff)
  from this [of 4] this [of 100] this [of 400] show ?thesis by (simp add: leap_def)
qed

lemma civil_day_correct:
  assumes "civil_day n = (y, m, d)"
  shows "day_number y m d = n" "1 \<le> m" "m \<le> 12" "1 \<le> d" "d \<le> days_in_month y m"
proof -
  define e where "e = n div 146097"
  define doe where "doe = n mod 146097"
  have n: "n = e * 146097 + doe" and doe: "0 \<le> doe" "doe < 146097" by (simp_all add: e_def doe_def)
  obtain r where r: "0 \<le> r" "r \<le> 399" "year_days r \<le> doe" "doe < year_days (r + 1)"
    using year_exists [OF doe] by blast
  have er: "era_year doe = r" by (rule era_year_unique [OF r])
  define doy where "doy = doe - year_days r"
  have doy: "0 \<le> doy" "doy < 365 + (if leap (r + 1) then 1 else 0)"
    using r year_days_succ [of "r + 1"] by (simp_all add: doy_def)
  define k where "k = (5 * doy + 2) div 153"
  have "doy \<le> 365" using doy by (simp split: if_splits)
  note k = month_bounds [OF doy(1) this, folded k_def]
  have res: "y = (if k < 10 then r + e * 400 else r + e * 400 + 1)" "m = (if k < 10 then k + 3 else k - 9)"
      "d = doy - month_days k + 1"
    using assms k unfolding civil_day_def Let_def e_def [symmetric] doe_def [symmetric] er doy_def [symmetric] k_def [symmetric]
    by (auto split: if_splits)
  have my: "march_year y m = r + 400 * e" "march_month m = k"
    using res(1,2) k by (auto simp: march_year_def march_month_def)
  show "day_number y m d = n"
    unfolding day_number_def my year_days_400 using res(3) n by (simp add: doy_def)
  show m: "1 \<le> m" "m \<le> 12" and "1 \<le> d" using res k by (auto split: if_splits)
  show "d \<le> days_in_month y m"
  proof (cases "k = 11")
    case True
    then have "y = r + 1 + 400 * e" "m = 2" using res by simp_all
    then show ?thesis
      using doy(2) res(3) True leap_period [of "r + 1" e]
      by (auto simp: days_in_month_def month_days_values split: if_splits)
  next
    case False
    then have "month_days (k + 1) - month_days k = days_in_month y m"
      using month_length [of k y] k(1,2) res(2) by simp
    then show ?thesis using k(4) res(3) by simp
  qed
qed

text \<open>The civil day of a day number is the only one.\<close>

lemma day_number_inj:
  assumes "1 \<le> m" "m \<le> 12" "1 \<le> d" "d \<le> days_in_month y m"
  shows "civil_day (day_number y m d) = (y, m, d)"
proof -
  define Y where "Y = march_year y m"
  define e where "e = Y div 400"
  define r where "r = Y mod 400"
  define k where "k = march_month m"
  define doy where "doy = month_days k + d - 1"
  have Y: "Y = r + 400 * e" and r: "0 \<le> r" "r \<le> 399" by (simp_all add: r_def e_def)
  have k: "0 \<le> k" "k \<le> 11" "m = (if k < 10 then k + 3 else k - 9)"
    using assms(1,2) by (auto simp: k_def march_month_def)
  have y: "y = (if k < 10 then Y else Y + 1)"
    using assms(1,2) by (auto simp: k_def Y_def march_month_def march_year_def)
  have lp: "leap (Y + 1) = leap (r + 1)" using leap_period [of "r + 1" e] Y by (simp add: algebra_simps)
  have doy: "month_days k \<le> doy" "doy < month_days (k + 1)" "doy < 365 + (if leap (r + 1) then 1 else 0)"
  proof -
    show "month_days k \<le> doy" using assms(3) by (simp add: doy_def)
    show "doy < month_days (k + 1)"
    proof (cases "k = 11")
      case True
      then show ?thesis using assms(4) k(3) by (simp add: doy_def days_in_month_def month_days_def split: if_splits)
    next
      case False
      then show ?thesis using month_length [of k y] k assms(4) by (simp add: doy_def)
    qed
    show "doy < 365 + (if leap (r + 1) then 1 else 0)"
    proof (cases "k = 11")
      case True
      then have "m = 2" "y = Y + 1" using k y by simp_all
      then show ?thesis using assms(4) lp True by (auto simp: doy_def days_in_month_def month_days_values split: if_splits)
    next
      case False
      then have "month_days (k + 1) \<le> month_days 11"
        using k by (simp add: month_days_def)
      then show ?thesis using month_length [of k y] k False assms(4) by (auto simp: doy_def month_days_values)
    qed
  qed
  let ?n = "day_number y m d" and ?doe = "year_days r + doy"
  have yr: "year_days r \<le> ?doe" "?doe < year_days (r + 1)"
    using doy year_days_succ [of "r + 1"] k(1) month_days_values(1) by (auto simp: month_days_def split: if_splits)
  have "year_days (r + 1) \<le> year_days 400" using r by (intro year_days_mono) simp
  then have b: "0 \<le> ?doe" "?doe < 146097"
    using yr r year_days_mono [of 0 r] by (simp_all add: year_days_def)
  have "?n = e * 146097 + ?doe"
    using year_days_400 [of r e] by (simp add: day_number_def Y_def [symmetric] k_def [symmetric] Y doy_def)
  then have dm: "?n div 146097 = e" "?n mod 146097 = ?doe" using b by simp_all
  have er: "era_year ?doe = r" by (rule era_year_unique [OF r yr])
  have kk: "(5 * doy + 2) div 153 = k" by (rule month_of_day [OF doy(1,2)])
  have "civil_day ?n = (if m \<le> 2 then r + e * 400 + 1 else r + e * 400, m, doy - month_days k + 1)"
  proof -
    have m: "(if k < 10 then k + 3 else k - 9) = m" using k(3) by simp
    show ?thesis unfolding civil_day_def Let_def dm er add_diff_cancel_left' kk m ..
  qed
  then show ?thesis using y Y k by (auto simp: doy_def)
qed

lemma era_year_range:
  assumes "0 \<le> n" "n < 146097"
  shows "0 \<le> era_year n" "era_year n \<le> 399" "year_days (era_year n) \<le> n" "n - year_days (era_year n) \<le> 365"
proof -
  obtain r where r: "0 \<le> r" "r \<le> 399" "year_days r \<le> n" "n < year_days (r + 1)"
    using year_exists [OF assms] by blast
  moreover have "era_year n = r" by (rule era_year_unique [OF r])
  ultimately show "0 \<le> era_year n" "era_year n \<le> 399" "year_days (era_year n) \<le> n" "n - year_days (era_year n) \<le> 365"
    using year_days_succ [of "r + 1"] by (auto split: if_splits)
qed

lemma utc_from_posix_time_eq:
  "utc_from_posix_time t =
   (if is_valid_posix_time t then
      (case civil_day (t div 86400 + 719468) of (y, m, d) \<Rightarrow>
        Some \<lparr>c_year = y, c_month = m, c_day = d, c_hours = t mod 86400 div 3600,
          c_minutes = t mod 3600 div 60, c_seconds = t mod 60\<rparr>)
    else None)"
proof -
  define n where "n = t div 86400 + 719468"
  define doe where "doe = n mod 146097"
  have doe: "0 \<le> doe" "doe < 146097" by (simp_all add: doe_def)
  note er = era_year_range [OF doe]
  have secs: "SECS_PER_DAY = 86400" "SECS_PER_HOUR = 3600" by (simp_all add: SECS_PER_DAY_def SECS_PER_HOUR_def)
  have dm: "(if t smod 86400 < 0 then (t sdiv 86400 - 1, t smod 86400 + 86400) else (t sdiv 86400, t smod 86400))
      = (t div 86400, t mod 86400)" by (rule floor_divmod) simp
  have e: "(if n > 0 then n else n - 146096) sdiv 146097 = n div 146097"
  proof (cases "n = 0")
    case True
    then show ?thesis by (simp add: signed_divide_int_def)
  next
    case False
    then show ?thesis using sdiv_floor [of 146097 n] by (cases "0 \<le> n") simp_all
  qed
  have d: "n - n div 146097 * 146097 = doe" by (simp add: doe_def minus_div_mult_eq_mod)
  have y: "(doe - doe sdiv 1460 + doe sdiv 36524 - doe sdiv 146096) sdiv 365 = era_year doe"
  proof -
    have "doe div 1460 \<le> doe" "doe div 146096 \<le> doe div 36524" "0 \<le> doe div 36524"
      using doe zdiv_mono2 [of doe 36524 146096] zdiv_mono2 [of doe 1 1460] by (simp_all add: pos_imp_zdiv_nonneg_iff)
    then have "0 \<le> doe - doe div 1460 + (doe div 36524 - doe div 146096)" by (intro add_nonneg_nonneg) simp_all
    then show ?thesis using doe by (simp add: era_year_def sdiv_pos add_diff_eq)
  qed
  have q: "doe - (365 * era_year doe + era_year doe sdiv 4 - era_year doe sdiv 100) = doe - year_days (era_year doe)"
    using er by (simp add: sdiv_pos year_days_def)
  define doy where "doy = doe - year_days (era_year doe)"
  have doy: "0 \<le> doy" "doy \<le> 365" using er by (simp_all add: doy_def)
  define k where "k = (5 * doy + 2) div 153"
  have k: "(5 * doy + 2) sdiv 153 = k" "0 \<le> k" using doy month_bounds [OF doy] by (simp_all add: k_def sdiv_pos)
  have kd: "(153 * k + 2) sdiv 5 = month_days k" using k(2) by (simp add: sdiv_pos month_days_def)
  define l where "l = t mod 86400"
  have l: "0 \<le> l" by (simp add: l_def)
  have hms: "l sdiv 3600 = l div 3600" "l smod 3600 sdiv 60 = t mod 3600 div 60" "l smod 3600 smod 60 = t mod 60"
    using l by (simp_all add: sdiv_pos smod_pos l_def mod_mod_cancel)
  show ?thesis
    unfolding utc_from_posix_time_def secs dm Let_def prod.case n_def [symmetric] e d y q doy_def [symmetric] k(1) kd
      l_def [symmetric] hms civil_day_def doe_def [symmetric] k_def [symmetric]
    by simp
qed

section \<open>Conversion is a bijection\<close>

lemma day_number_in_year:
  assumes "1 \<le> m" "m \<le> 12" "1 \<le> d" "d \<le> days_in_month y m"
  shows "year_days (y - 1) + 306 \<le> day_number y m d" "day_number y m d \<le> year_days y + 305"
proof -
  have y: "year_days (y - 1) + 365 \<le> year_days y" using year_days_succ [of y] by simp
  have d: "d \<le> (if m = 2 then 29 else if m \<in> {4, 6, 9, 11} then 30 else 31)"
    using assms(4) by (auto simp: days_in_month_def split: if_splits)
  show "year_days (y - 1) + 306 \<le> day_number y m d" "day_number y m d \<le> year_days y + 305"
    using assms(1,2)
    by (cases rule: month_cases; use d y assms(3) in \<open>simp add: day_number_def march_year_def march_month_def month_days_values\<close>)+
qed

lemma civil_day_year_range:
  assumes "civil_day n = (y, m, d)"
  shows "- 60 \<le> n \<and> n \<le> 3652364 \<longleftrightarrow> 0 \<le> y \<and> y \<le> 9999"
proof -
  note c = civil_day_correct [OF assms]
  have n: "year_days (y - 1) + 306 \<le> n" "n \<le> year_days y + 305" using day_number_in_year [OF c(2-5)] c(1) by simp_all
  have v: "year_days (- 1) = - 366" "year_days 9999 = 3652059" by (simp_all add: year_days_def)
  show ?thesis
  proof
    assume r: "- 60 \<le> n \<and> n \<le> 3652364"
    have "0 \<le> y"
    proof (rule ccontr)
      assume "\<not> 0 \<le> y"
      then have "year_days y \<le> year_days (- 1)" by (intro year_days_mono) simp
      then show False using n(2) v r by linarith
    qed
    moreover have "y \<le> 9999"
    proof (rule ccontr)
      assume "\<not> y \<le> 9999"
      then have "year_days 9999 \<le> year_days (y - 1)" by (intro year_days_mono) simp
      then show False using n(1) v r by linarith
    qed
    ultimately show "0 \<le> y \<and> y \<le> 9999" ..
  next
    assume "0 \<le> y \<and> y \<le> 9999"
    then have "year_days (- 1) \<le> year_days (y - 1)" "year_days y \<le> year_days 9999" by (auto intro: year_days_mono)
    then show "- 60 \<le> n \<and> n \<le> 3652364" using n v by linarith
  qed
qed

lemma is_valid_posix_time_iff: "is_valid_posix_time t \<longleftrightarrow> - 60 \<le> t div 86400 + 719468 \<and> t div 86400 + 719468 \<le> 3652364"
proof -
  have "t = 86400 * (t div 86400) + t mod 86400" by simp
  moreover have "0 \<le> t mod 86400" "t mod 86400 < 86400" by simp_all
  ultimately show ?thesis unfolding is_valid_posix_time_def MIN_POSIX_TIME_def MAX_POSIX_TIME_def by linarith
qed

text \<open>The time of day in hours, minutes and seconds.\<close>

lemma quotient_range:
  fixes x :: int
  assumes "x = b * q + r" "0 \<le> r" "r < b" "0 \<le> x" "x < b * k"
  shows "0 \<le> q \<and> q < k"
proof
  show "0 \<le> q"
  proof (rule ccontr)
    assume "\<not> 0 \<le> q"
    then have "b * q \<le> b * (- 1)" using assms(2,3) by (intro mult_left_mono) auto
    then show False using assms by linarith
  qed
  have "b * q < b * k" using assms by linarith
  then show "q < k" using assms(2,3) by simp
qed

lemma valid_timeI:
  assumes "0 \<le> h \<and> h < 24" "0 \<le> m \<and> m < 60" "0 \<le> s" "s < 60"
  shows "is_valid_time h m s"
  using assms by (auto simp: is_valid_time_def)

lemma time_of_day:
  fixes t :: int
  shows "is_valid_time (t mod 86400 div 3600) (t mod 3600 div 60) (t mod 60)"
    "t mod 86400 div 3600 * 3600 + t mod 3600 div 60 * 60 + t mod 60 = t mod 86400"
proof -
  have h: "t mod 86400 = 3600 * (t mod 86400 div 3600) + t mod 3600"
    using mult_div_mod_eq [of 3600 "t mod 86400"] by (simp add: mod_mod_cancel)
  have m: "t mod 3600 = 60 * (t mod 3600 div 60) + t mod 60"
    using mult_div_mod_eq [of 60 "t mod 3600"] by (simp add: mod_mod_cancel)
  show "t mod 86400 div 3600 * 3600 + t mod 3600 div 60 * 60 + t mod 60 = t mod 86400"
    using h m by (simp add: mult.commute)
  have "0 \<le> t mod 86400 div 3600 \<and> t mod 86400 div 3600 < 24"
    by (rule quotient_range [OF h]) simp_all
  moreover have "0 \<le> t mod 3600 div 60 \<and> t mod 3600 div 60 < 60"
    by (rule quotient_range [OF m]) simp_all
  moreover have "0 \<le> t mod 60" "t mod 60 < 60" by simp_all
  ultimately show "is_valid_time (t mod 86400 div 3600) (t mod 3600 div 60) (t mod 60)"
    by (rule valid_timeI)
qed

lemma time_split:
  assumes "is_valid_time h mi s" and "t = n * 86400 + h * 3600 + mi * 60 + s"
  shows "t div 86400 = n" "t mod 86400 div 3600 = h" "t mod 3600 div 60 = mi" "t mod 60 = s"
proof -
  have v: "0 \<le> h" "h \<le> 23" "0 \<le> mi" "mi \<le> 59" "0 \<le> s" "s \<le> 59" using assms(1) by (auto simp: is_valid_time_def)
  show "t div 86400 = n" by (rule int_div_pos_eq [where r = "h * 3600 + mi * 60 + s"]) (use v assms(2) in simp_all)
  have "t mod 86400 = h * 3600 + mi * 60 + s" by (rule int_mod_pos_eq [where q = n]) (use v assms(2) in simp_all)
  moreover have "(h * 3600 + mi * 60 + s) div 3600 = h"
    by (rule int_div_pos_eq [where r = "mi * 60 + s"]) (use v in simp_all)
  ultimately show "t mod 86400 div 3600 = h" by simp
  have "t mod 3600 = mi * 60 + s"
    by (rule int_mod_pos_eq [where q = "n * 24 + h"]) (use v assms(2) in \<open>simp_all add: algebra_simps\<close>)
  moreover have "(mi * 60 + s) div 60 = mi" by (rule int_div_pos_eq [where r = s]) (use v in simp_all)
  ultimately show "t mod 3600 div 60 = mi" by simp
  show "t mod 60 = s"
    by (rule int_mod_pos_eq [where q = "n * 1440 + h * 60 + mi"]) (use v assms(2) in \<open>simp_all add: algebra_simps\<close>)
qed

theorem utc_posix_inverse:
  "utc_from_posix_time t = Some c \<longleftrightarrow>
   posix_time_from_utc (c_year c) (c_month c) (c_day c) (c_hours c) (c_minutes c) (c_seconds c) = Some t"
proof
  assume u: "utc_from_posix_time t = Some c"
  obtain y m d where cd: "civil_day (t div 86400 + 719468) = (y, m, d)"
    by (cases "civil_day (t div 86400 + 719468)")
  have v: "is_valid_posix_time t" using u by (auto simp: utc_from_posix_time_eq split: if_splits)
  then have c: "c = \<lparr>c_year = y, c_month = m, c_day = d, c_hours = t mod 86400 div 3600,
          c_minutes = t mod 3600 div 60, c_seconds = t mod 60\<rparr>"
    using u cd by (simp add: utc_from_posix_time_eq)
  note ok = civil_day_correct [OF cd]
  have dt: "is_valid_date y m d"
    using ok civil_day_year_range [OF cd] v by (simp only: is_valid_date_iff is_valid_posix_time_iff)
  have n: "day_number y m d - 719468 = t div 86400" using ok(1) by simp
  have "t div 86400 * 86400 + t mod 86400 = t" by simp
  then have "t div 86400 * 86400 + t mod 86400 div 3600 * 3600 + t mod 3600 div 60 * 60 + t mod 60 = t"
    using time_of_day(2) [of t] by linarith
  then show "posix_time_from_utc (c_year c) (c_month c) (c_day c) (c_hours c) (c_minutes c) (c_seconds c) = Some t"
    using dt time_of_day(1) [of t] by (simp only: posix_time_from_utc_eq c civil.select_convs n) simp
next
  assume p: "posix_time_from_utc (c_year c) (c_month c) (c_day c) (c_hours c) (c_minutes c) (c_seconds c) = Some t"
  let ?n = "day_number (c_year c) (c_month c) (c_day c)"
  have v: "is_valid_date (c_year c) (c_month c) (c_day c)" "is_valid_time (c_hours c) (c_minutes c) (c_seconds c)"
    and t: "t = (?n - 719468) * 86400 + c_hours c * 3600 + c_minutes c * 60 + c_seconds c"
    using p by (auto simp: posix_time_from_utc_eq split: if_splits)
  note sp = time_split [OF v(2) t]
  have cd: "civil_day ?n = (c_year c, c_month c, c_day c)"
    using v(1) by (intro day_number_inj) (simp_all add: is_valid_date_iff)
  have "is_valid_posix_time t"
    using civil_day_year_range [OF cd] v(1) unfolding is_valid_posix_time_iff sp by (simp add: is_valid_date_iff)
  then show "utc_from_posix_time t = Some c"
    unfolding utc_from_posix_time_eq sp by (simp add: cd)
qed

section \<open>What the conversions promise\<close>

lemma tm_civil:
  "OPENSSL_posix_to_tm t = Some c \<longleftrightarrow> OPENSSL_tm_to_posix c = Some t"
proof -
  define k where "k = \<lparr>c_year = tm_year c + 1900, c_month = tm_mon c + 1, c_day = tm_mday c,
    c_hours = tm_hour c, c_minutes = tm_min c, c_seconds = tm_sec c\<rparr>"
  have "OPENSSL_posix_to_tm t = Some c \<longleftrightarrow> utc_from_posix_time t = Some k"
    by (cases c) (auto simp: OPENSSL_posix_to_tm_def k_def split: option.splits)
  also have "\<dots> \<longleftrightarrow> OPENSSL_tm_to_posix c = Some t"
    unfolding utc_posix_inverse by (simp add: OPENSSL_tm_to_posix_def k_def)
  finally show ?thesis .
qed

lemma posix_to_tm_defined: "OPENSSL_posix_to_tm t \<noteq> None \<longleftrightarrow> is_valid_posix_time t"
  by (auto simp: OPENSSL_posix_to_tm_def utc_from_posix_time_eq split: option.splits prod.splits)

lemma tm_to_posix_range:
  assumes "OPENSSL_tm_to_posix c = Some t"
  shows "MIN_POSIX_TIME \<le> t \<and> t \<le> MAX_POSIX_TIME"
  using assms tm_civil [of t c] posix_to_tm_defined [of t] by (simp add: is_valid_posix_time_def)

lemma gmtime_adj_exact:
  assumes "OPENSSL_tm_to_posix c = Some p"
  shows "OPENSSL_gmtime_adj c od os = OPENSSL_posix_to_tm (p + od * 86400 + os)"
proof -
  have u: "OPENSSL_posix_to_tm x = None" if "x > INT64_MAX \<or> x < INT64_MIN" for x
    using that posix_to_tm_defined [of x]
    by (auto simp: is_valid_posix_time_def MIN_POSIX_TIME_def MAX_POSIX_TIME_def INT64_MAX_def INT64_MIN_def)
  show ?thesis
    using assms by (auto simp: OPENSSL_gmtime_adj_def Let_def SECS_PER_DAY_def SECS_PER_HOUR_def intro!: u [symmetric])
qed

lemma sdiv_smod_parts:
  fixes x k :: int
  assumes "\<bar>x\<bar> < 86400 * k"
  shows "\<bar>x smod 86400\<bar> < 86400" "0 \<le> x sdiv 86400 * (x smod 86400)" "\<bar>x sdiv 86400\<bar> < k"
proof -
  have "\<bar>x smod 86400\<bar> < 86400 \<and> 0 \<le> x sdiv 86400 * (x smod 86400) \<and> \<bar>x sdiv 86400\<bar> < k"
    if "0 \<le> x" "x < 86400 * k" for x
  proof -
    have "x = 86400 * (x div 86400) + x mod 86400" by simp
    from quotient_range [OF this _ _ that] have "0 \<le> x div 86400" "x div 86400 < k" by simp_all
    moreover have "0 \<le> x mod 86400" "x mod 86400 < 86400" by simp_all
    moreover from calculation have "0 \<le> x div 86400 * (x mod 86400)" by (intro mult_nonneg_nonneg)
    ultimately show ?thesis by (simp add: sdiv_pos smod_pos that)
  qed
  from this [of x] this [of "- x"]
  show "\<bar>x smod 86400\<bar> < 86400" "0 \<le> x sdiv 86400 * (x smod 86400)" "\<bar>x sdiv 86400\<bar> < k"
    using assms by (cases "0 \<le> x"; simp)+
qed

text \<open>
  C9.  The conversion to POSIX time counts days as the calendar does: midnight of 1970-01-01 is 0,
  and the day after a valid day is 86400 seconds later.  A date or time of day out of range is
  refused.
\<close>

theorem posix_time_counts_days:
  "posix_time_from_utc 1970 1 1 0 0 0 = Some 0
   \<and> (is_valid_date y m d \<and> is_valid_date y' m' d' \<and> next_day (y, m, d) = (y', m', d') \<longrightarrow>
      posix_time_from_utc y' m' d' h mi s = map_option (\<lambda>t. t + 86400) (posix_time_from_utc y m d h mi s))
   \<and> (posix_time_from_utc y m d h mi s \<noteq> None \<longleftrightarrow> is_valid_date y m d \<and> is_valid_time h mi s)"
proof (intro conjI impI)
  show "posix_time_from_utc 1970 1 1 0 0 0 = Some 0" by code_simp
  show "posix_time_from_utc y m d h mi s \<noteq> None \<longleftrightarrow> is_valid_date y m d \<and> is_valid_time h mi s"
    by (simp add: posix_time_from_utc_eq)
  assume a: "is_valid_date y m d \<and> is_valid_date y' m' d' \<and> next_day (y, m, d) = (y', m', d')"
  then have "day_number y' m' d' = day_number y m d + 1"
    using day_number_succ [of m d y] by (simp add: is_valid_date_iff)
  then show "posix_time_from_utc y' m' d' h mi s = map_option (\<lambda>t. t + 86400) (posix_time_from_utc y m d h mi s)"
    using a by (simp add: posix_time_from_utc_eq)
qed

theorem posix_time_counts_days_witness:
  "posix_time_from_utc 2024 3 1 12 30 0 = map_option (\<lambda>t. t + 86400) (posix_time_from_utc 2024 2 29 12 30 0)"
proof -
  have "is_valid_date 2024 2 29 \<and> is_valid_date 2024 3 1 \<and> next_day (2024, 2, 29) = (2024, 3, 1)" by code_simp
  then show ?thesis using posix_time_counts_days [of 2024 2 29 2024 3 1 12 30 0] by blast
qed

text \<open>
  The two conversions are inverse to each other: a POSIX time denotes a civil time exactly when
  that civil time denotes it, and the times that have a civil time are those of the years 0 to
  9999.
\<close>

theorem posix_tm_inverse:
  "(OPENSSL_posix_to_tm t = Some c \<longleftrightarrow> OPENSSL_tm_to_posix c = Some t)
   \<and> (OPENSSL_posix_to_tm t = None \<longleftrightarrow> t < MIN_POSIX_TIME \<or> MAX_POSIX_TIME < t)"
proof
  show "OPENSSL_posix_to_tm t = Some c \<longleftrightarrow> OPENSSL_tm_to_posix c = Some t" by (rule tm_civil)
  have "OPENSSL_posix_to_tm t = None \<longleftrightarrow> \<not> is_valid_posix_time t" using posix_to_tm_defined [of t] by blast
  then show "OPENSSL_posix_to_tm t = None \<longleftrightarrow> t < MIN_POSIX_TIME \<or> MAX_POSIX_TIME < t"
    by (auto simp: is_valid_posix_time_def)
qed

text \<open>
  The difference of two civil times is exact and can be added back: its days and seconds have
  the same sign, the seconds are less than a day, and moving the first time by them gives the
  second.
\<close>

theorem gmtime_diff_adj:
  assumes "OPENSSL_gmtime_diff a b = Some (dd, ds)"
  shows "OPENSSL_gmtime_adj a dd ds = Some b \<and> \<bar>ds\<bar> < 86400 \<and> 0 \<le> dd * ds \<and> \<bar>dd\<bar> < 2 ^ 31"
proof -
  obtain p q where pq: "OPENSSL_tm_to_posix a = Some p" "OPENSSL_tm_to_posix b = Some q"
    and d: "dd = (q - p) sdiv 86400" "ds = (q - p) smod 86400"
    using assms by (auto simp: OPENSSL_gmtime_diff_def SECS_PER_DAY_def SECS_PER_HOUR_def Let_def split: option.splits)
  have e: "p + dd * 86400 + ds = q"
    using signed_division_class.mult_sdiv_smod_eq [of 86400 "q - p"] by (simp add: d)
  then have adj: "OPENSSL_gmtime_adj a dd ds = Some b"
    using gmtime_adj_exact [OF pq(1)] pq(2) by (simp add: tm_civil)
  have r: "\<bar>q - p\<bar> < 86400 * 2 ^ 31"
    using tm_to_posix_range [OF pq(1)] tm_to_posix_range [OF pq(2)]
    by (simp add: MIN_POSIX_TIME_def MAX_POSIX_TIME_def abs_if)
  show ?thesis using adj sdiv_smod_parts [OF r] by (simp add: d)
qed

theorem gmtime_diff_adj_witness:
  "OPENSSL_gmtime_adj \<lparr>tm_year = 100, tm_mon = 1, tm_mday = 29, tm_hour = 23, tm_min = 0, tm_sec = 0\<rparr> (- 60) (- 1800)
   = Some \<lparr>tm_year = 99, tm_mon = 11, tm_mday = 31, tm_hour = 22, tm_min = 30, tm_sec = 0\<rparr>"
proof -
  have "OPENSSL_gmtime_diff \<lparr>tm_year = 100, tm_mon = 1, tm_mday = 29, tm_hour = 23, tm_min = 0, tm_sec = 0\<rparr>
    \<lparr>tm_year = 99, tm_mon = 11, tm_mday = 31, tm_hour = 22, tm_min = 30, tm_sec = 0\<rparr> = Some (- 60, - 1800)"
    by code_simp
  from gmtime_diff_adj [OF this] show ?thesis by blast
qed

end
