(* ===== verification/CbsTime.thy ===== *)
theory CbsTime
  imports CbbOid PosixTime "HOL-Library.Monad_Syntax"
begin

text \<open>
  The time parser of \<^verbatim>\<open>crypto/bytestring/cbs.c\<close> (UTCTime and GeneralizedTime bodies as RFC 5280
  restricts them).  \<^verbatim>\<open>CBS_parse_rfc5280_time_internal\<close> works on a local copy of the cursor that is
  dropped on return, so its parts return the value with the rest of the copy, or nothing when the
  function returns zero.  The caller's \<^verbatim>\<open>out_tm\<close> is an optional \<open>tm\<close>, \<open>None\<close> for a null pointer, and
  is returned as the function leaves it.

  The parser is shown to accept exactly the printed forms of the valid times, and its result to be
  the instant the text denotes once the zone is applied the way the code applies it.
\<close>

section \<open>The code\<close>

definition cbs_get_two_digits :: "cbs \<Rightarrow> (int \<times> cbs) option" where
  "cbs_get_two_digits cbs = (case CBS_get_u8 cbs of
     (None, s) \<Rightarrow> None
   | (Some first_digit, s) \<Rightarrow>
       if \<not> OPENSSL_isdigit first_digit then None
       else (case CBS_get_u8 s of
         (None, s') \<Rightarrow> None
       | (Some second_digit, s') \<Rightarrow>
           if \<not> OPENSSL_isdigit second_digit then None
           else Some (uint (first_digit - 48) * 10 + uint (second_digit - 48), s')))"

definition is_valid_day :: "int \<Rightarrow> int \<Rightarrow> int \<Rightarrow> bool" where
  "is_valid_day year month day =
     (if day < 1 then False
      else if month \<in> {1, 3, 5, 7, 8, 10, 12} then day \<le> 31
      else if month \<in> {4, 6, 9, 11} then day \<le> 30
      else if month = 2 then
        (if (year smod 4 = 0 \<and> year smod 100 \<noteq> 0) \<or> year smod 400 = 0 then day \<le> 29 else day \<le> 28)
      else False)"

text \<open>The year: four digits, or two digits that stand for 1950 to 2049.\<close>

definition rfc5280_year :: "cbs \<Rightarrow> bool \<Rightarrow> (int \<times> cbs) option" where
  "rfc5280_year copy is_gentime =
     (if is_gentime then do {
        (tmp, copy) \<leftarrow> cbs_get_two_digits copy;
        let year = tmp * 100;
        (tmp, copy) \<leftarrow> cbs_get_two_digits copy;
        Some (year + tmp, copy)
      } else do {
        (tmp, copy) \<leftarrow> cbs_get_two_digits copy;
        let year = 1900 + tmp;
        let year = (if year < 1950 then year + 100 else year);
        if year \<ge> 2050 then None else Some (year, copy)
      })"

text \<open>The other fields, and the byte \<^verbatim>\<open>tz\<close> after them.\<close>

definition rfc5280_fields :: "cbs \<Rightarrow> int \<Rightarrow> (tm \<times> byte \<times> cbs) option" where
  "rfc5280_fields copy year = do {
     (month, copy) \<leftarrow> cbs_get_two_digits copy;
     if month < 1 \<or> month > 12 then None else do {
     (day, copy) \<leftarrow> cbs_get_two_digits copy;
     if \<not> is_valid_day year month day then None else do {
     (hour, copy) \<leftarrow> cbs_get_two_digits copy;
     if hour > 23 then None else do {
     (min, copy) \<leftarrow> cbs_get_two_digits copy;
     if min > 59 then None else do {
     (sec, copy) \<leftarrow> cbs_get_two_digits copy;
     if sec > 59 then None else
     case CBS_get_u8 copy of
       (None, copy) \<Rightarrow> None
     | (Some tz, copy) \<Rightarrow>
         Some (\<lparr>tm_year = year - 1900, tm_mon = month - 1, tm_mday = day,
                tm_hour = hour, tm_min = min, tm_sec = sec\<rparr>, tz, copy)}}}}}"

definition rfc5280_offset_sign :: "byte \<Rightarrow> int option" where
  "rfc5280_offset_sign tz =
     (if tz = 0x5a then Some 0 else if tz = 0x2b then Some 1 else if tz = 0x2d then Some (- 1) else None)"

definition rfc5280_offset :: "cbs \<Rightarrow> int \<Rightarrow> bool \<Rightarrow> (int \<times> cbs) option" where
  "rfc5280_offset copy offset_sign allow_timezone_offset =
     (if offset_sign \<noteq> 0 then
        if \<not> allow_timezone_offset then None else do {
          (offset_hours, copy) \<leftarrow> cbs_get_two_digits copy;
          if offset_hours > 23 then None else do {
            (offset_minutes, copy) \<leftarrow> cbs_get_two_digits copy;
            if offset_minutes > 59 then None
            else Some (offset_sign * (offset_hours * 3600 + offset_minutes * 60), copy)
          }
        }
      else Some (0, copy))"

definition rfc5280_parse :: "cbs \<Rightarrow> bool \<Rightarrow> bool \<Rightarrow> (tm \<times> int) option" where
  "rfc5280_parse cbs is_gentime allow_timezone_offset = do {
     (year, copy) \<leftarrow> rfc5280_year cbs is_gentime;
     (tm, tz, copy) \<leftarrow> rfc5280_fields copy year;
     offset_sign \<leftarrow> rfc5280_offset_sign tz;
     (offset_seconds, copy) \<leftarrow> rfc5280_offset copy offset_sign allow_timezone_offset;
     if length copy \<noteq> 0 then None else Some (tm, offset_seconds)
   }"

definition CBS_parse_rfc5280_time_internal :: "cbs \<Rightarrow> bool \<Rightarrow> bool \<Rightarrow> tm option \<Rightarrow> bool \<times> tm option" where
  "CBS_parse_rfc5280_time_internal cbs is_gentime allow_timezone_offset out_tm =
     (case rfc5280_parse cbs is_gentime allow_timezone_offset of
        None \<Rightarrow> (False, out_tm)
      | Some (tm, offset_seconds) \<Rightarrow>
          if out_tm \<noteq> None then
            if offset_seconds \<noteq> 0 then
              (case OPENSSL_gmtime_adj tm 0 offset_seconds of
                 None \<Rightarrow> (False, Some tm)
               | Some tm' \<Rightarrow> (True, Some tm'))
            else (True, Some tm)
          else (True, out_tm))"

definition CBS_parse_generalized_time :: "cbs \<Rightarrow> tm option \<Rightarrow> bool \<Rightarrow> bool \<times> tm option" where
  "CBS_parse_generalized_time cbs out_tm allow_timezone_offset =
     CBS_parse_rfc5280_time_internal cbs True allow_timezone_offset out_tm"

definition CBS_parse_utc_time :: "cbs \<Rightarrow> tm option \<Rightarrow> bool \<Rightarrow> bool \<times> tm option" where
  "CBS_parse_utc_time cbs out_tm allow_timezone_offset =
     CBS_parse_rfc5280_time_internal cbs False allow_timezone_offset out_tm"

section \<open>The printed form of a time\<close>

definition two_digits :: "int \<Rightarrow> byte list" where
  "two_digits n = [word_of_nat (48 + nat n div 10), word_of_nat (48 + nat n mod 10)]"

definition year_text :: "bool \<Rightarrow> int \<Rightarrow> byte list" where
  "year_text is_gentime y = (if is_gentime then two_digits (y div 100) else []) @ two_digits (y mod 100)"

definition year_ok :: "bool \<Rightarrow> int \<Rightarrow> bool" where
  "year_ok is_gentime y \<longleftrightarrow> (if is_gentime then 0 \<le> y \<and> y \<le> 9999 else 1950 \<le> y \<and> y < 2050)"

text \<open>A zone: UTC itself, or a sign with hours and minutes.\<close>

datatype zone = Zulu | Offset bool int int

fun zone_text :: "zone \<Rightarrow> byte list" where
  "zone_text Zulu = [0x5a]"
| "zone_text (Offset east h m) = (if east then 0x2b else 0x2d) # two_digits h @ two_digits m"

fun zone_ok :: "bool \<Rightarrow> zone \<Rightarrow> bool" where
  "zone_ok allow Zulu = True"
| "zone_ok allow (Offset east h m) = (allow \<and> 0 \<le> h \<and> h \<le> 23 \<and> 0 \<le> m \<and> m \<le> 59)"

fun zone_seconds :: "zone \<Rightarrow> int" where
  "zone_seconds Zulu = 0"
| "zone_seconds (Offset east h m) = (if east then 1 else - 1) * (h * 3600 + m * 60)"

definition fields_text :: "tm \<Rightarrow> byte list" where
  "fields_text t = two_digits (tm_mon t + 1) @ two_digits (tm_mday t) @ two_digits (tm_hour t) @
     two_digits (tm_min t) @ two_digits (tm_sec t)"

definition tm_text :: "bool \<Rightarrow> tm \<Rightarrow> byte list" where
  "tm_text is_gentime t = year_text is_gentime (tm_year t + 1900) @ fields_text t"

definition tm_ok :: "bool \<Rightarrow> tm \<Rightarrow> bool" where
  "tm_ok is_gentime t \<longleftrightarrow> year_ok is_gentime (tm_year t + 1900) \<and>
     is_valid_date (tm_year t + 1900) (tm_mon t + 1) (tm_mday t) \<and>
     is_valid_time (tm_hour t) (tm_min t) (tm_sec t)"

lemma cbs_get_two_digits_iff:
  "cbs_get_two_digits s = Some (n, r) \<longleftrightarrow> 0 \<le> n \<and> n \<le> 99 \<and> s = two_digits n @ r"
proof
  assume "cbs_get_two_digits s = Some (n, r)"
  then obtain a b where s: "s = a # b # r" and d: "OPENSSL_isdigit a" "OPENSSL_isdigit b"
    and n: "n = uint (a - 48) * 10 + uint (b - 48)"
    by (cases s; cases "tl s") (auto simp: cbs_get_two_digits_def split: if_splits)
  let ?i = "unat (a - 48)" and ?j = "unat (b - 48)"
  have ij: "?i \<le> 9" "?j \<le> 9" using d digit_value by blast+
  have n': "n = int (?i * 10 + ?j)" by (simp only: n uint_nat of_nat_add of_nat_mult of_nat_numeral)
  have "(i * 10 + j) div 10 = i" "(i * 10 + j) mod 10 = j" if "j \<le> 9" for i j :: nat using that by simp_all
  from this [OF ij(2), of ?i] have "nat n div 10 = ?i" "nat n mod 10 = ?j" by (simp_all only: n' nat_int)
  then have "two_digits n = [a, b]"
    using digit_byte_inv [OF d(1)] digit_byte_inv [OF d(2)] by (simp only: two_digits_def)
  moreover have "0 \<le> n \<and> n \<le> 99" using n' ij by linarith
  ultimately show "0 \<le> n \<and> n \<le> 99 \<and> s = two_digits n @ r" using s by simp
next
  assume a: "0 \<le> n \<and> n \<le> 99 \<and> s = two_digits n @ r"
  have v: "nat n div 10 < 10" "nat n mod 10 < 10" using a by linarith+
  have u: "uint (word_of_nat (48 + k) - 48 :: byte) = int k" if "k < 10" for k
    using digit_byte [OF that] by (simp only: uint_nat)
  have "int (nat n div 10 * 10 + nat n mod 10) = n" using a by (simp only: div_mult_mod_eq) simp
  then have "int (nat n div 10) * 10 + int (nat n mod 10) = n" by (simp only: of_nat_add of_nat_mult of_nat_numeral)
  then show "cbs_get_two_digits s = Some (n, r)"
    using a digit_byte [OF v(1)] digit_byte [OF v(2)] u [OF v(1)] u [OF v(2)]
    by (simp only: cbs_get_two_digits_def two_digits_def append_Cons append_Nil CBS_get_u8_simps prod.case option.case
        if_False if_True not_True_eq_False) 
qed


lemma year_digits:
  assumes "0 \<le> a" "a \<le> 99" "0 \<le> b" "b \<le> (99 :: int)"
  shows "(a * 100 + b) div 100 = a" "(a * 100 + b) mod 100 = b"
  using assms by simp_all

lemma short_year:
  assumes "1950 \<le> y" "y < (2050 :: int)"
  shows "y mod 100 = (if y < 2000 then y - 1900 else y - 2000)"
  using assms by (auto intro: int_mod_pos_eq [where q = 19] int_mod_pos_eq [where q = 20])

lemma bind_two_digits:
  "(cbs_get_two_digits s \<bind> (\<lambda>(n, c). f n c)) = Some v \<longleftrightarrow>
   (\<exists>n c. 0 \<le> n \<and> n \<le> 99 \<and> s = two_digits n @ c \<and> f n c = Some v)"
  by (auto simp: bind_eq_Some_conv cbs_get_two_digits_iff)

lemma guard_Some: "(if P then None else x) = Some v \<longleftrightarrow> \<not> P \<and> x = Some v"
  by simp

lemma short_year_iff:
  "(\<exists>a. y = (if a < 50 then 2000 + a else 1900 + a) \<and> 0 \<le> a \<and> a \<le> 99 \<and> P a) \<longleftrightarrow>
   1950 \<le> y \<and> y < (2050 :: int) \<and> P (y mod 100)"
proof
  assume "\<exists>a. y = (if a < 50 then 2000 + a else 1900 + a) \<and> 0 \<le> a \<and> a \<le> 99 \<and> P a"
  then obtain a where a: "y = (if a < 50 then 2000 + a else 1900 + a)" "0 \<le> a" "a \<le> 99" "P a" by blast
  then have r: "1950 \<le> y" "y < 2050" by (auto split: if_splits)
  moreover have "y mod 100 = a" using short_year [OF r] a by (auto split: if_splits)
  ultimately show "1950 \<le> y \<and> y < 2050 \<and> P (y mod 100)" using a by simp
next
  assume h: "1950 \<le> y \<and> y < 2050 \<and> P (y mod 100)"
  define a where "a = y mod 100"
  have "a = (if y < 2000 then y - 1900 else y - 2000)" using h short_year by (simp add: a_def)
  then have "y = (if a < 50 then 2000 + a else 1900 + a) \<and> 0 \<le> a \<and> a \<le> 99 \<and> P a"
    using h by (auto simp flip: a_def)
  then show "\<exists>a. y = (if a < 50 then 2000 + a else 1900 + a) \<and> 0 \<le> a \<and> a \<le> 99 \<and> P a" ..
qed

lemma rfc5280_year_iff:
  "rfc5280_year s g = Some (y, r) \<longleftrightarrow> year_ok g y \<and> s = year_text g y @ r"
proof (cases g)
  case True
  have "rfc5280_year s g = Some (y, r) \<longleftrightarrow>
    (\<exists>a b. y = a * 100 + b \<and> 0 \<le> a \<and> a \<le> 99 \<and> 0 \<le> b \<and> b \<le> 99 \<and> s = two_digits a @ two_digits b @ r)"
    by (auto simp: rfc5280_year_def True Let_def bind_eq_Some_conv cbs_get_two_digits_iff)
  also have "\<dots> \<longleftrightarrow> 0 \<le> y \<and> y \<le> 9999 \<and> s = two_digits (y div 100) @ two_digits (y mod 100) @ r"
  proof
    assume "\<exists>a b. y = a * 100 + b \<and> 0 \<le> a \<and> a \<le> 99 \<and> 0 \<le> b \<and> b \<le> 99 \<and> s = two_digits a @ two_digits b @ r"
    then show "0 \<le> y \<and> y \<le> 9999 \<and> s = two_digits (y div 100) @ two_digits (y mod 100) @ r"
      using year_digits by auto
  next
    assume h: "0 \<le> y \<and> y \<le> 9999 \<and> s = two_digits (y div 100) @ two_digits (y mod 100) @ r"
    have "y = y div 100 * 100 + y mod 100" "0 \<le> y mod 100" "y mod 100 \<le> 99" by simp_all
    moreover have "0 \<le> y div 100 \<and> y div 100 < 100"
      by (rule quotient_range [of y 100 _ "y mod 100"]) (use h in simp_all)
    ultimately show "\<exists>a b. y = a * 100 + b \<and> 0 \<le> a \<and> a \<le> 99 \<and> 0 \<le> b \<and> b \<le> 99 \<and> s = two_digits a @ two_digits b @ r"
      using h by (intro exI [of _ "y div 100"] exI [of _ "y mod 100"]) (simp only: zle_add1_eq_le, simp)
  qed
  finally show ?thesis by (simp add: True year_text_def year_ok_def)
next
  case False
  have "rfc5280_year s g = Some (y, r) \<longleftrightarrow>
    (\<exists>a. y = (if a < 50 then 2000 + a else 1900 + a) \<and> 0 \<le> a \<and> a \<le> 99 \<and> s = two_digits a @ r)"
    unfolding rfc5280_year_def Let_def bind_two_digits guard_Some using False
    by (simp add: bind_two_digits) (rule arg_cong [where f = Ex], rule ext, auto)
  also have "\<dots> \<longleftrightarrow> 1950 \<le> y \<and> y < 2050 \<and> s = two_digits (y mod 100) @ r"
    by (rule short_year_iff)
  finally show ?thesis by (simp add: False year_text_def year_ok_def)
qed

lemma is_valid_day_date: "0 \<le> y \<Longrightarrow> y \<le> 9999 \<Longrightarrow> is_valid_date y m d \<longleftrightarrow> 1 \<le> m \<and> m \<le> 12 \<and> is_valid_day y m d"
  by (auto simp: is_valid_date_def is_valid_day_def)

lemma rfc5280_fields_iff:
  assumes "0 \<le> y" "y \<le> 9999"
  shows "rfc5280_fields s y = Some (t, z, r) \<longleftrightarrow>
    tm_year t + 1900 = y \<and> is_valid_date y (tm_mon t + 1) (tm_mday t) \<and> is_valid_time (tm_hour t) (tm_min t) (tm_sec t)
    \<and> s = fields_text t @ z # r"
proof -
  have last: "(case CBS_get_u8 s of (None, c) \<Rightarrow> None | (Some tz, c) \<Rightarrow> Some (u, tz, c)) = Some (t, z, r) \<longleftrightarrow>
    u = t \<and> s = z # r" for s and u :: tm
    by (cases s) auto
  have d: "is_valid_day y m d \<Longrightarrow> 1 \<le> d \<and> d \<le> 99" for m d
    by (auto simp: is_valid_day_def split: if_splits)
  have "rfc5280_fields s y = Some (t, z, r) \<longleftrightarrow>
    (\<exists>mo da h mi se. 1 \<le> mo \<and> mo \<le> 12 \<and> is_valid_day y mo da \<and> is_valid_time h mi se
       \<and> s = two_digits mo @ two_digits da @ two_digits h @ two_digits mi @ two_digits se @ z # r
       \<and> t = \<lparr>tm_year = y - 1900, tm_mon = mo - 1, tm_mday = da, tm_hour = h, tm_min = mi, tm_sec = se\<rparr>)"
    (is "_ \<longleftrightarrow> ?w")
  proof
    assume "rfc5280_fields s y = Some (t, z, r)"
    then obtain mo da h mi se where
      "\<lparr>tm_year = y - 1900, tm_mon = mo - 1, tm_mday = da, tm_hour = h, tm_min = mi, tm_sec = se\<rparr> = t"
      "1 \<le> mo" "mo \<le> 12" "is_valid_day y mo da" "is_valid_time h mi se"
      "s = two_digits mo @ two_digits da @ two_digits h @ two_digits mi @ two_digits se @ z # r"
      unfolding rfc5280_fields_def bind_two_digits guard_Some last
      by (elim exE conjE) (rule that, assumption, simp_all add: is_valid_time_def)
    then show ?w by blast
  next
    assume ?w
    then show "rfc5280_fields s y = Some (t, z, r)"
      unfolding rfc5280_fields_def bind_two_digits guard_Some last
      by (elim exE conjE) (intro exI conjI; auto simp: is_valid_time_def dest: d)
  qed
  also have "\<dots> \<longleftrightarrow> tm_year t + 1900 = y \<and> is_valid_date y (tm_mon t + 1) (tm_mday t)
    \<and> is_valid_time (tm_hour t) (tm_min t) (tm_sec t) \<and> s = fields_text t @ z # r"
    (is "_ \<longleftrightarrow> ?v")
  proof
    show ?v if ?w using that by (auto simp: fields_text_def is_valid_day_date [OF assms])
    show ?w if ?v
      by (rule exI [of _ "tm_mon t + 1"], cases t)
        (use that assms in \<open>auto simp: fields_text_def is_valid_day_date\<close>)
  qed
  finally show ?thesis .
qed

lemma bind_offset_sign:
  "(rfc5280_offset_sign z \<bind> f) = Some v \<longleftrightarrow>
   z = 0x5a \<and> f 0 = Some v \<or> (\<exists>east. z = (if east then 0x2b else 0x2d) \<and> f (if east then 1 else - 1) = Some v)"
  by (auto simp: rfc5280_offset_sign_def bind_eq_Some_conv split: if_splits)

lemma rfc5280_zone_iff:
  "(do {
      offset_sign \<leftarrow> rfc5280_offset_sign z;
      (offset_seconds, copy) \<leftarrow> rfc5280_offset r offset_sign allow;
      if length copy \<noteq> 0 then None else Some (t, offset_seconds)
    }) = Some (u, off) \<longleftrightarrow>
   u = t \<and> (\<exists>zn. zone_ok allow zn \<and> z # r = zone_text zn \<and> off = zone_seconds zn)"
proof -
  have e: "(rfc5280_offset r (if east then 1 else - 1) allow \<bind>
      (\<lambda>(offset_seconds, copy). if length copy \<noteq> 0 then None else Some (t, offset_seconds))) = Some (u, off) \<longleftrightarrow>
    u = t \<and> (\<exists>h m. zone_ok allow (Offset east h m) \<and> r = two_digits h @ two_digits m \<and> off = zone_seconds (Offset east h m))"
    for east
  proof
    assume "(rfc5280_offset r (if east then 1 else - 1) allow \<bind>
      (\<lambda>(offset_seconds, copy). if length copy \<noteq> 0 then None else Some (t, offset_seconds))) = Some (u, off)"
    then have o: "rfc5280_offset r (if east then 1 else - 1) allow = Some (off, [])" and u: "u = t"
      by (auto simp: bind_eq_Some_conv split: if_splits)
    then have al: allow by (simp add: rfc5280_offset_def split: if_splits)
    with o have "(cbs_get_two_digits r \<bind> (\<lambda>(oh, c). if oh > 23 then None else cbs_get_two_digits c \<bind>
       (\<lambda>(om, c). if om > 59 then None else Some ((if east then 1 else - 1) * (oh * 3600 + om * 60), c)))) = Some (off, [])"
      by (cases east) (simp_all add: rfc5280_offset_def)
    then show "u = t \<and> (\<exists>h m. zone_ok allow (Offset east h m) \<and> r = two_digits h @ two_digits m
        \<and> off = zone_seconds (Offset east h m))"
      unfolding bind_two_digits guard_Some using al u by auto
  next
    assume a: "u = t \<and> (\<exists>h m. zone_ok allow (Offset east h m) \<and> r = two_digits h @ two_digits m
        \<and> off = zone_seconds (Offset east h m))"
    then obtain h m where hm: "0 \<le> h" "h \<le> 23" "0 \<le> m" "m \<le> 59" allow
      and r: "r = two_digits h @ two_digits m" and off: "off = (if east then 1 else - 1) * (h * 3600 + m * 60)" by auto
    have "cbs_get_two_digits r = Some (h, two_digits m)" "cbs_get_two_digits (two_digits m) = Some (m, [])"
      using hm r by (simp_all add: cbs_get_two_digits_iff)
    then show "(rfc5280_offset r (if east then 1 else - 1) allow \<bind>
      (\<lambda>(offset_seconds, copy). if length copy \<noteq> 0 then None else Some (t, offset_seconds))) = Some (u, off)"
      using hm a off by (simp add: rfc5280_offset_def)
  qed
  have n: "(rfc5280_offset r 0 allow \<bind>
      (\<lambda>(offset_seconds, copy). if length copy \<noteq> 0 then None else Some (t, offset_seconds))) = Some (u, off) \<longleftrightarrow>
    u = t \<and> r = [] \<and> off = 0"
    by (auto simp: rfc5280_offset_def)
  have "(\<exists>zn. zone_ok allow zn \<and> z # r = zone_text zn \<and> off = zone_seconds zn) \<longleftrightarrow>
    z = 0x5a \<and> r = [] \<and> off = 0 \<or> (\<exists>east. z = (if east then 0x2b else 0x2d) \<and>
      (\<exists>h m. zone_ok allow (Offset east h m) \<and> r = two_digits h @ two_digits m \<and> off = zone_seconds (Offset east h m)))"
    (is "?l \<longleftrightarrow> ?r")
  proof
    assume ?l
    then obtain zn where "zone_ok allow zn" "z # r = zone_text zn" "off = zone_seconds zn" by blast
    then show ?r by (cases zn) fastforce+
  next
    assume ?r
    then show ?l
    proof
      assume "z = 0x5a \<and> r = [] \<and> off = 0"
      then show ?l by (intro exI [of _ Zulu]) simp
    next
      assume "\<exists>east. z = (if east then 0x2b else 0x2d) \<and>
      (\<exists>h m. zone_ok allow (Offset east h m) \<and> r = two_digits h @ two_digits m \<and> off = zone_seconds (Offset east h m))"
      then obtain east h m where "z # r = zone_text (Offset east h m)" "zone_ok allow (Offset east h m)"
        "off = zone_seconds (Offset east h m)" by auto
      then show ?l by blast
    qed
  qed
  then show ?thesis unfolding bind_offset_sign e n by blast
qed

lemma year_ok_range: "year_ok g y \<Longrightarrow> 0 \<le> y \<and> y \<le> 9999"
  by (auto simp: year_ok_def split: if_splits)

lemma tm_ok_posix: "tm_ok g t \<Longrightarrow> \<exists>p. OPENSSL_tm_to_posix t = Some p"
  by (simp add: tm_ok_def OPENSSL_tm_to_posix_def posix_time_from_utc_eq)

lemma rfc5280_parse_iff:
  "rfc5280_parse s g allow = Some (t, off) \<longleftrightarrow>
   tm_ok g t \<and> (\<exists>zn. zone_ok allow zn \<and> s = tm_text g t @ zone_text zn \<and> off = zone_seconds zn)"
  (is "_ \<longleftrightarrow> ?r")
proof -
  have "rfc5280_parse s g allow = Some (t, off) \<longleftrightarrow>
    (\<exists>y c z r. rfc5280_year s g = Some (y, c) \<and> rfc5280_fields c y = Some (t, z, r)
     \<and> (\<exists>zn. zone_ok allow zn \<and> z # r = zone_text zn \<and> off = zone_seconds zn))"
    unfolding rfc5280_parse_def
    by (simp only: bind_eq_Some_conv [of "rfc5280_year s g"] bind_eq_Some_conv [of "rfc5280_fields c y" for c y]
        split_paired_Ex prod.case rfc5280_zone_iff) blast
  also have "\<dots> \<longleftrightarrow> (\<exists>z r. tm_ok g t \<and> s = tm_text g t @ z # r
     \<and> (\<exists>zn. zone_ok allow zn \<and> z # r = zone_text zn \<and> off = zone_seconds zn))"
  proof -
    have f: "year_ok g y \<and> s = year_text g y @ c \<Longrightarrow> rfc5280_fields c y = Some (t, z, r) \<longleftrightarrow>
      tm_year t + 1900 = y \<and> is_valid_date y (tm_mon t + 1) (tm_mday t) \<and> is_valid_time (tm_hour t) (tm_min t) (tm_sec t)
      \<and> c = fields_text t @ z # r" for y z r c
      using rfc5280_fields_iff year_ok_range by blast
    show ?thesis by (simp only: rfc5280_year_iff f tm_ok_def tm_text_def append_assoc cong: conj_cong) blast
  qed
  also have "\<dots> \<longleftrightarrow> ?r"
    by (metis zone_text.elims)
  finally show ?thesis .
qed

lemma rfc5280_time_iff:
  "CBS_parse_rfc5280_time_internal s g allow (Some t0) = (True, res) \<longleftrightarrow>
   (\<exists>t zn p t'. tm_ok g t \<and> zone_ok allow zn \<and> s = tm_text g t @ zone_text zn
      \<and> OPENSSL_tm_to_posix t = Some p \<and> OPENSSL_tm_to_posix t' = Some (p + zone_seconds zn) \<and> res = Some t')"
proof -
  define fin where "fin = (\<lambda>t off. if off \<noteq> 0 then
      case OPENSSL_gmtime_adj t 0 off of None \<Rightarrow> (False, Some t) | Some tm' \<Rightarrow> (True, Some tm') else (True, Some t))"
  have adj: "fin t off = (True, res) \<longleftrightarrow>
    (\<exists>p t'. OPENSSL_tm_to_posix t = Some p \<and> OPENSSL_tm_to_posix t' = Some (p + off) \<and> res = Some t')" if ok: "tm_ok g t" for t off
  proof -
    obtain p where p: "OPENSSL_tm_to_posix t = Some p" using tm_ok_posix [OF ok] by blast
    have "fin t off = (True, res) \<longleftrightarrow> (\<exists>t'. OPENSSL_posix_to_tm (p + off) = Some t' \<and> res = Some t')"
      using gmtime_adj_exact [OF p, of 0 off] p by (auto simp: fin_def tm_civil [THEN iffD2] split: option.splits)
    then show ?thesis using p by (simp add: tm_civil)
  qed
  have "CBS_parse_rfc5280_time_internal s g allow (Some t0) =
    (case rfc5280_parse s g allow of None \<Rightarrow> (False, Some t0) | Some (t, off) \<Rightarrow> fin t off)"
    by (cases "rfc5280_parse s g allow") (auto simp: CBS_parse_rfc5280_time_internal_def fin_def)
  then have "CBS_parse_rfc5280_time_internal s g allow (Some t0) = (True, res) \<longleftrightarrow>
    (\<exists>t off. rfc5280_parse s g allow = Some (t, off) \<and> fin t off = (True, res))"
    by (cases "rfc5280_parse s g allow") auto
  then show ?thesis by (simp only: rfc5280_parse_iff adj conj_assoc cong: conj_cong) blast
qed

lemma rfc5280_time_strict:
  "CBS_parse_rfc5280_time_internal s g False (Some t0) = (True, res) \<longleftrightarrow>
   (\<exists>t. tm_ok g t \<and> s = tm_text g t @ [0x5a] \<and> res = Some t)"
proof -
  have z: "zone_ok False zn \<longleftrightarrow> zn = Zulu" for zn by (cases zn) simp_all
  have u: "OPENSSL_tm_to_posix t' = Some p \<Longrightarrow> OPENSSL_tm_to_posix t = Some p \<Longrightarrow> t' = t" for t t' p
    by (metis option.inject tm_civil)
  show ?thesis
  proof
    assume "CBS_parse_rfc5280_time_internal s g False (Some t0) = (True, res)"
    then obtain t p t' where "tm_ok g t" "s = tm_text g t @ [0x5a]" "OPENSSL_tm_to_posix t = Some p"
      "OPENSSL_tm_to_posix t' = Some p" "res = Some t'"
      unfolding rfc5280_time_iff z by auto
    then show "\<exists>t. tm_ok g t \<and> s = tm_text g t @ [0x5a] \<and> res = Some t" using u by blast
  next
    assume "\<exists>t. tm_ok g t \<and> s = tm_text g t @ [0x5a] \<and> res = Some t"
    then obtain t where t: "tm_ok g t" "s = tm_text g t @ [0x5a]" "res = Some t" by blast
    obtain p where "OPENSSL_tm_to_posix t = Some p" using tm_ok_posix [OF t(1)] by blast
    then show "CBS_parse_rfc5280_time_internal s g False (Some t0) = (True, res)"
      unfolding rfc5280_time_iff using t
      by (intro exI [of _ t] exI [of _ Zulu] exI [of _ p]) simp
  qed
qed

text \<open>
  C36.  The strict parsers accept exactly the printed forms of the valid times followed by the letter
  Z: four-digit years 0 to 9999 for a GeneralizedTime, two-digit years that stand for 1950 to 2049
  for a UTCTime; the time returned is the one printed.
\<close>

theorem time_parsers_exact:
  "(CBS_parse_generalized_time s (Some t0) False = (True, res) \<longleftrightarrow>
      (\<exists>t. tm_ok True t \<and> s = tm_text True t @ [0x5a] \<and> res = Some t))
   \<and> (CBS_parse_utc_time s (Some t0) False = (True, res) \<longleftrightarrow>
      (\<exists>t. tm_ok False t \<and> s = tm_text False t @ [0x5a] \<and> res = Some t))"
  by (simp add: CBS_parse_generalized_time_def CBS_parse_utc_time_def rfc5280_time_strict)

text \<open>
  C39.  With offsets allowed, a time with a zone \<^verbatim>\<open>+hhmm\<close> is returned as the instant that lies
  hh:mm \<^emph>\<open>after\<close> the reading of its fields as UTC.  (A time that is hh:mm ahead of UTC denotes the
  instant hh:mm before that reading.)
\<close>

theorem utc_time_offset_added:
  assumes "tm_ok False t" "0 \<le> h" "h \<le> 23" "0 \<le> m" "m \<le> 59"
    and "OPENSSL_tm_to_posix t = Some p" "OPENSSL_tm_to_posix t' = Some (p + (h * 3600 + m * 60))"
  shows "CBS_parse_utc_time (tm_text False t @ 0x2b # two_digits h @ two_digits m) (Some t0) True = (True, Some t')"
  unfolding CBS_parse_utc_time_def rfc5280_time_iff using assms
  by (intro exI [of _ t] exI [of _ "Offset True h m"] exI [of _ p] exI [of _ t']) simp

theorem utc_time_offset_added_witness:
  "CBS_parse_utc_time (map (word_of_nat \<circ> of_char) ''240101120000+0100'')
     (Some \<lparr>tm_year = 0, tm_mon = 0, tm_mday = 0, tm_hour = 0, tm_min = 0, tm_sec = 0\<rparr>) True =
   (True, Some \<lparr>tm_year = 124, tm_mon = 0, tm_mday = 1, tm_hour = 13, tm_min = 0, tm_sec = 0\<rparr>)"
proof -
  let ?t = "\<lparr>tm_year = 124, tm_mon = 0, tm_mday = 1, tm_hour = 12, tm_min = 0, tm_sec = 0\<rparr>"
  let ?u = "\<lparr>tm_year = 124, tm_mon = 0, tm_mday = 1, tm_hour = 13, tm_min = 0, tm_sec = 0\<rparr>"
  have "tm_ok False ?t" by code_simp
  moreover have "OPENSSL_tm_to_posix ?t = Some 1704110400" by code_simp
  moreover have "OPENSSL_tm_to_posix ?u = Some (1704110400 + (1 * 3600 + 0 * 60))" by code_simp
  moreover have "map (word_of_nat \<circ> of_char) ''240101120000+0100'' = tm_text False ?t @ 0x2b # two_digits 1 @ two_digits 0"
    by code_simp
  ultimately show ?thesis using utc_time_offset_added [of ?t 1 0 1704110400 ?u] by simp
qed

end
