(* ===== verification/ConstTime.thy ===== *)
theory ConstTime
  imports Prelude
begin

text \<open>
  The branch-free primitives of \<^verbatim>\<open>crypto/internal.h\<close> on the 64-bit \<^verbatim>\<open>crypto_word_t\<close>: comparisons
  that return a mask of ones or zeros, selection by a mask, addition and subtraction with carry,
  rotations, and \<^verbatim>\<open>CRYPTO_memcmp\<close> of \<^verbatim>\<open>crypto/mem.c\<close>.  \<^verbatim>\<open>value_barrier_w\<close> returns its argument;
  it only stops the compiler.  Each primitive is shown to compute the comparison, choice or
  arithmetic it replaces.
\<close>

section \<open>The code\<close>

type_synonym crypto_word = u64

definition CONSTTIME_TRUE_W :: crypto_word where "CONSTTIME_TRUE_W = NOT 0"
definition CONSTTIME_FALSE_W :: crypto_word where "CONSTTIME_FALSE_W = 0"
definition CONSTTIME_TRUE_8 :: byte where "CONSTTIME_TRUE_8 = 0xff"
definition CONSTTIME_FALSE_8 :: byte where "CONSTTIME_FALSE_8 = 0"

definition value_barrier_w :: "crypto_word \<Rightarrow> crypto_word" where
  "value_barrier_w a = a"

definition constant_time_msb_w :: "crypto_word \<Rightarrow> crypto_word" where
  "constant_time_msb_w a = 0 - drop_bit 63 a"

definition constant_time_lt_w :: "crypto_word \<Rightarrow> crypto_word \<Rightarrow> crypto_word" where
  "constant_time_lt_w a b = constant_time_msb_w (a XOR ((a XOR b) OR ((a - b) XOR a)))"

definition constant_time_lt_8 :: "crypto_word \<Rightarrow> crypto_word \<Rightarrow> byte" where
  "constant_time_lt_8 a b = ucast (constant_time_lt_w a b)"

definition constant_time_ge_w :: "crypto_word \<Rightarrow> crypto_word \<Rightarrow> crypto_word" where
  "constant_time_ge_w a b = NOT (constant_time_lt_w a b)"

definition constant_time_ge_8 :: "crypto_word \<Rightarrow> crypto_word \<Rightarrow> byte" where
  "constant_time_ge_8 a b = ucast (constant_time_ge_w a b)"

definition constant_time_is_zero_w :: "crypto_word \<Rightarrow> crypto_word" where
  "constant_time_is_zero_w a = constant_time_msb_w (NOT a AND (a - 1))"

definition constant_time_is_zero_8 :: "crypto_word \<Rightarrow> byte" where
  "constant_time_is_zero_8 a = ucast (constant_time_is_zero_w a)"

definition constant_time_eq_w :: "crypto_word \<Rightarrow> crypto_word \<Rightarrow> crypto_word" where
  "constant_time_eq_w a b = constant_time_is_zero_w (a XOR b)"

definition constant_time_eq_8 :: "crypto_word \<Rightarrow> crypto_word \<Rightarrow> byte" where
  "constant_time_eq_8 a b = ucast (constant_time_eq_w a b)"

text \<open>An \<^verbatim>\<open>int\<close> has 32 bits; its conversion to a word extends the sign.\<close>

definition constant_time_eq_int :: "32 word \<Rightarrow> 32 word \<Rightarrow> crypto_word" where
  "constant_time_eq_int a b = constant_time_eq_w (scast a) (scast b)"

definition constant_time_eq_int_8 :: "32 word \<Rightarrow> 32 word \<Rightarrow> byte" where
  "constant_time_eq_int_8 a b = constant_time_eq_8 (scast a) (scast b)"

definition constant_time_select_w :: "crypto_word \<Rightarrow> crypto_word \<Rightarrow> crypto_word \<Rightarrow> crypto_word" where
  "constant_time_select_w msk a b =
     (let msk = value_barrier_w msk in (msk AND a) OR (NOT msk AND b))"

definition constant_time_select_8 :: "crypto_word \<Rightarrow> byte \<Rightarrow> byte \<Rightarrow> byte" where
  "constant_time_select_8 msk a b =
     (let m = ucast (value_barrier_w msk) in (m AND a) OR (NOT m AND b))"

definition constant_time_select_int :: "crypto_word \<Rightarrow> 32 word \<Rightarrow> 32 word \<Rightarrow> 32 word" where
  "constant_time_select_int msk a b = ucast (constant_time_select_w msk (scast a) (scast b))"

text \<open>The loops over the two arrays; the first \<open>n\<close> bytes of both are read.\<close>

fun constant_time_conditional_memcpy :: "byte list \<Rightarrow> byte list \<Rightarrow> nat \<Rightarrow> crypto_word \<Rightarrow> byte list" where
  "constant_time_conditional_memcpy (d # out) (s # src) (Suc n) msk =
     constant_time_select_8 msk s d # constant_time_conditional_memcpy out src n msk"
| "constant_time_conditional_memcpy out src n msk = out"

fun constant_time_conditional_memxor :: "byte list \<Rightarrow> byte list \<Rightarrow> nat \<Rightarrow> crypto_word \<Rightarrow> byte list" where
  "constant_time_conditional_memxor (d # out) (s # src) (Suc n) msk =
     (d XOR (ucast (value_barrier_w msk) AND s)) # constant_time_conditional_memxor out src n msk"
| "constant_time_conditional_memxor out src n msk = out"

fun memcmp_loop :: "byte \<Rightarrow> byte list \<Rightarrow> byte list \<Rightarrow> nat \<Rightarrow> byte" where
  "memcmp_loop x (a # as) (b # bs) (Suc n) = memcmp_loop (x OR (a XOR b)) as bs n"
| "memcmp_loop x as bs n = x"

definition CRYPTO_memcmp :: "byte list \<Rightarrow> byte list \<Rightarrow> nat \<Rightarrow> byte" where
  "CRYPTO_memcmp in_a in_b len = memcmp_loop 0 in_a in_b len"

definition CRYPTO_rotl_u32 :: "u32 \<Rightarrow> nat \<Rightarrow> u32" where
  "CRYPTO_rotl_u32 value shift = push_bit shift value OR drop_bit (unat (- word_of_nat shift AND 31 :: u32)) value"

definition CRYPTO_rotr_u32 :: "u32 \<Rightarrow> nat \<Rightarrow> u32" where
  "CRYPTO_rotr_u32 value shift = drop_bit shift value OR push_bit (unat (- word_of_nat shift AND 31 :: u32)) value"

definition CRYPTO_rotl_u64 :: "u64 \<Rightarrow> nat \<Rightarrow> u64" where
  "CRYPTO_rotl_u64 value shift = push_bit shift value OR drop_bit (unat (- word_of_nat shift AND 63 :: u32)) value"

definition CRYPTO_rotr_u64 :: "u64 \<Rightarrow> nat \<Rightarrow> u64" where
  "CRYPTO_rotr_u64 value shift = drop_bit shift value OR push_bit (unat (- word_of_nat shift AND 63 :: u32)) value"

text \<open>The portable versions; the results are the sum or difference and the carry or borrow.\<close>

definition CRYPTO_addc_u32 :: "u32 \<Rightarrow> u32 \<Rightarrow> u32 \<Rightarrow> u32 \<times> u32" where
  "CRYPTO_addc_u32 x y carry =
     (let ret = (ucast carry :: u64) + (ucast x + ucast y) in (ucast ret, ucast (drop_bit 32 ret)))"

definition CRYPTO_addc_u64 :: "u64 \<Rightarrow> u64 \<Rightarrow> u64 \<Rightarrow> u64 \<times> u64" where
  "CRYPTO_addc_u64 x y carry =
     (let x = x + carry;
          carry = of_bool (x < carry);
          ret = x + y;
          carry = carry + of_bool (ret < x)
      in (ret, carry))"

definition CRYPTO_subc_u32 :: "u32 \<Rightarrow> u32 \<Rightarrow> u32 \<Rightarrow> u32 \<times> u32" where
  "CRYPTO_subc_u32 x y borrow = (x - y - borrow, of_bool (x < y) OR (of_bool (x = y) AND borrow))"

definition CRYPTO_subc_u64 :: "u64 \<Rightarrow> u64 \<Rightarrow> u64 \<Rightarrow> u64 \<times> u64" where
  "CRYPTO_subc_u64 x y borrow = (x - y - borrow, of_bool (x < y) OR (of_bool (x = y) AND borrow))"

section \<open>Masks\<close>

abbreviation mask_w :: "bool \<Rightarrow> crypto_word" where
  "mask_w p \<equiv> (if p then CONSTTIME_TRUE_W else CONSTTIME_FALSE_W)"

abbreviation mask_8 :: "bool \<Rightarrow> byte" where
  "mask_8 p \<equiv> (if p then CONSTTIME_TRUE_8 else CONSTTIME_FALSE_8)"

lemma bit_63_iff: "bit w 63 \<longleftrightarrow> 9223372036854775808 \<le> unat (w :: u64)"
proof -
  have "bit w 63 \<longleftrightarrow> odd (unat w div 2 ^ 63)"
    using bit_iff_odd [of "unat w" 63] by (simp add: bit_unsigned_iff)
  also have "\<dots> \<longleftrightarrow> 9223372036854775808 \<le> unat w"
  proof (cases "9223372036854775808 \<le> unat w")
    case True
    then have "unat w div 2 ^ 63 = 1" by (intro div_nat_eqI) (simp_all add: unat_u64_bound [of w])
    then show ?thesis using True by simp
  qed simp
  finally show ?thesis .
qed

lemma msb_w_mask: "constant_time_msb_w a = mask_w (bit a 63)"
proof -
  have "drop_bit 63 a = of_bool (bit a 63)"
  proof (rule bit_word_eqI)
    fix n
    show "bit (drop_bit 63 a) n = bit (of_bool (bit a 63) :: u64) n"
      by (cases n) (auto simp: bit_simps dest: bit_imp_le_length)
  qed
  then show ?thesis
    by (simp add: constant_time_msb_w_def CONSTTIME_TRUE_W_def CONSTTIME_FALSE_W_def)
qed

lemma lt_w_mask: "constant_time_lt_w a b = mask_w (a < b)"
proof -
  have "bit (a XOR ((a XOR b) OR ((a - b) XOR a))) 63 \<longleftrightarrow>
    (if bit a 63 = bit b 63 then bit (a - b) 63 else bit b 63)"
    by (auto simp: bit_simps)
  also have "\<dots> \<longleftrightarrow> a < b"
  proof -
    define x y where "x = unat a" and "y = unat b"
    have "x < 18446744073709551616" "y < 18446744073709551616" by (simp_all add: x_def y_def)
    then show ?thesis
      unfolding bit_63_iff word_less_nat_alt unat_sub_if' x_def [symmetric] y_def [symmetric] by simp linarith
  qed
  finally show ?thesis by (simp add: constant_time_lt_w_def msb_w_mask)
qed

lemma is_zero_w_mask: "constant_time_is_zero_w a = mask_w (a = 0)"
proof -
  have "bit (NOT a AND (a - 1)) 63 \<longleftrightarrow> \<not> bit a 63 \<and> bit (a - 1) 63"
    by (simp add: bit_simps)
  also have "\<dots> \<longleftrightarrow> a = 0"
    unfolding bit_63_iff by (auto simp: unat_sub_if' unat_eq_zero not_le)
  finally show ?thesis by (simp add: constant_time_is_zero_w_def msb_w_mask)
qed

lemma xor_eq_0: "a XOR b = 0 \<longleftrightarrow> a = (b :: 'a :: len word)"
  by (auto simp: bit_eq_iff bit_simps)

lemma ucast_ones: "(ucast (- 1 :: u64) :: byte) = - 1"
  by (rule bit_word_eqI) (simp add: bit_simps)

lemma ucast_mask: "(ucast (mask_w p) :: byte) = mask_8 p"
  by (simp add: CONSTTIME_TRUE_W_def CONSTTIME_FALSE_W_def CONSTTIME_TRUE_8_def CONSTTIME_FALSE_8_def ucast_ones)

lemma not_mask: "NOT (mask_w p) = mask_w (\<not> p)"
  by (simp add: CONSTTIME_TRUE_W_def CONSTTIME_FALSE_W_def)

lemma ge_w_mask: "constant_time_ge_w a b = mask_w (b \<le> a)"
  by (simp add: constant_time_ge_w_def lt_w_mask not_mask not_less)

lemma eq_w_mask: "constant_time_eq_w a b = mask_w (a = b)"
  by (simp add: constant_time_eq_w_def is_zero_w_mask xor_eq_0)

lemma select_w_mask: "constant_time_select_w (mask_w p) a b = (if p then a else b)"
  by (simp add: constant_time_select_w_def value_barrier_w_def CONSTTIME_TRUE_W_def CONSTTIME_FALSE_W_def)

lemma select_8_mask: "constant_time_select_8 (mask_w p) a b = (if p then a else b)"
  by (simp add: constant_time_select_8_def value_barrier_w_def CONSTTIME_TRUE_W_def CONSTTIME_FALSE_W_def ucast_ones)

lemma select_8_mask_8: "constant_time_select_8 (ucast (mask_8 p)) a b = (if p then a else b)"
proof -
  have "(ucast (ucast CONSTTIME_TRUE_8 :: u64) :: byte) = - 1" by (simp add: CONSTTIME_TRUE_8_def)
  then show ?thesis
    by (cases p) (simp_all only: constant_time_select_8_def value_barrier_w_def Let_def if_True if_False, simp_all add: CONSTTIME_FALSE_8_def)
qed

lemma ucast_scast_int [simp]: "ucast (scast a :: u64) = (a :: 32 word)"
  by (rule bit_word_eqI) (simp add: bit_simps)

lemma scast_eq_int: "(scast a :: u64) = scast b \<longleftrightarrow> a = (b :: 32 word)"
proof
  assume "(scast a :: u64) = scast b"
  then have "ucast (scast a :: u64) = (ucast (scast b :: u64) :: 32 word)" by simp
  then show "a = b" by simp
qed simp

lemma memcpy_mask:
  assumes "n \<le> length dst" "n \<le> length src"
  shows "constant_time_conditional_memcpy dst src n (mask_w p) = (if p then take n src @ drop n dst else dst)"
  using assms
proof (induction dst src n "mask_w p" rule: constant_time_conditional_memcpy.induct)
  case (1 d out s src n)
  then show ?case by (simp only: constant_time_conditional_memcpy.simps select_8_mask) simp
qed simp_all

lemma memxor_mask:
  assumes "n \<le> length dst" "n \<le> length src"
  shows "constant_time_conditional_memxor dst src n (mask_w p) =
    (if p then map2 (XOR) (take n dst) (take n src) @ drop n dst else dst)"
  using assms
proof (induction dst src n "mask_w p" rule: constant_time_conditional_memxor.induct)
  case (1 d out s src n)
  have "(ucast (value_barrier_w (mask_w p)) :: byte) AND s = (if p then s else 0)"
    by (simp add: value_barrier_w_def CONSTTIME_TRUE_W_def CONSTTIME_FALSE_W_def ucast_ones)
  then show ?case using 1 by (simp only: constant_time_conditional_memxor.simps) simp
qed simp_all

lemma or_eq_0: "a OR b = 0 \<longleftrightarrow> a = 0 \<and> b = (0 :: 'a :: len word)"
  by (auto simp: bit_eq_iff bit_simps)

lemma memcmp_loop_zero:
  assumes "n \<le> length as" "n \<le> length bs"
  shows "memcmp_loop x as bs n = 0 \<longleftrightarrow> x = 0 \<and> take n as = take n bs"
  using assms by (induction x as bs n rule: memcmp_loop.induct) (auto simp: or_eq_0 xor_eq_0)

text \<open>
  The branch-free comparisons return all ones when the comparison holds and zero when it does
  not, and a selection by such a mask is the choice between its arguments.
\<close>

theorem constant_time_masks:
  "constant_time_lt_w a b = mask_w (a < b) \<and> constant_time_lt_8 a b = mask_8 (a < b)
   \<and> constant_time_ge_w a b = mask_w (b \<le> a) \<and> constant_time_ge_8 a b = mask_8 (b \<le> a)
   \<and> constant_time_is_zero_w a = mask_w (a = 0) \<and> constant_time_is_zero_8 a = mask_8 (a = 0)
   \<and> constant_time_eq_w a b = mask_w (a = b) \<and> constant_time_eq_8 a b = mask_8 (a = b)
   \<and> constant_time_eq_int i j = mask_w (i = j) \<and> constant_time_eq_int_8 i j = mask_8 (i = j)
   \<and> constant_time_select_w (mask_w p) a b = (if p then a else b)
   \<and> constant_time_select_8 (mask_w p) c d = (if p then c else d)
   \<and> constant_time_select_int (mask_w p) i j = (if p then i else j)"
  by (simp only: lt_w_mask ge_w_mask is_zero_w_mask eq_w_mask select_w_mask select_8_mask ucast_mask
      constant_time_lt_8_def constant_time_ge_8_def constant_time_is_zero_8_def constant_time_eq_8_def
      constant_time_eq_int_def constant_time_eq_int_8_def constant_time_select_int_def scast_eq_int)
    simp

text \<open>
  C37.  The conditional copy copies the first bytes when the mask is set and changes nothing when it
  is zero, and the branch-free comparison returns zero exactly for equal arrays.
\<close>

theorem constant_time_arrays:
  assumes "n \<le> length xs" "n \<le> length ys"
  shows "constant_time_conditional_memcpy xs ys n (mask_w p) = (if p then take n ys @ drop n xs else xs)
    \<and> constant_time_conditional_memxor xs ys n (mask_w p) =
        (if p then map2 (XOR) (take n xs) (take n ys) @ drop n xs else xs)
    \<and> (CRYPTO_memcmp xs ys n = 0 \<longleftrightarrow> take n xs = take n ys)"
  using memcpy_mask [OF assms] memxor_mask [OF assms] memcmp_loop_zero [OF assms, of 0]
  by (simp only: CRYPTO_memcmp_def simp_thms)

theorem constant_time_arrays_witness:
  "constant_time_conditional_memcpy [1, 2, 3] [7, 8, 9] 2 CONSTTIME_TRUE_W = [7, 8, 3]
   \<and> CRYPTO_memcmp [1, 2, 3] [1, 2, 4] 2 = 0 \<and> CRYPTO_memcmp [1, 2, 3] [1, 2, 4] 3 \<noteq> 0"
  using constant_time_arrays [of 2 "[1, 2, 3]" "[7, 8, 9]" True] constant_time_arrays [of 2 "[1, 2, 3]" "[1, 2, 4]" True]
    constant_time_arrays [of 3 "[1, 2, 3]" "[1, 2, 4]" True]
  by (simp add: numeral_2_eq_2 numeral_3_eq_3)

section \<open>Rotations and carries\<close>

lemma unat_neg_and:
  assumes "k < 2 ^ m" "m < 32"
  shows "unat (- word_of_nat k AND mask m :: u32) = (2 ^ m - k) mod 2 ^ m"
proof -
  have k: "k < 2 ^ 32" using assms by (meson less_trans power_strict_increasing_iff one_less_numeral_iff semiring_norm(76))
  have "unat (- word_of_nat k AND mask m :: u32) = unat (- word_of_nat k :: u32) mod 2 ^ m"
    by (simp only: take_bit_eq_mask [symmetric] unsigned_take_bit_eq) (simp add: take_bit_eq_mod)
  moreover have "unat (- word_of_nat k :: u32) = (if k = 0 then 0 else 2 ^ 32 - k)"
    using unat_sub_if' [of 0 "word_of_nat k :: u32"] k by (simp add: unat_of_nat)
  moreover have "(2 ^ 32 - k) mod 2 ^ m = (2 ^ m - k) mod 2 ^ m" if "k \<noteq> 0"
  proof -
    have "(2 :: nat) ^ 32 = 2 ^ m * 2 ^ (32 - m)" using assms(2) by (simp flip: power_add)
    moreover have "(1 :: nat) \<le> 2 ^ (32 - m)" by simp
    then obtain j where "(2 :: nat) ^ (32 - m) = Suc j" by (metis Suc_le_D One_nat_def)
    ultimately have "(2 :: nat) ^ 32 - k = 2 ^ m - k + 2 ^ m * j" using assms(1) by simp
    then show ?thesis by simp
  qed
  ultimately show ?thesis by (cases "k = 0") simp_all
qed

lemma rotl_bits:
  fixes v :: "'a :: len word"
  assumes "k < LENGTH('a)"
  shows "push_bit k v OR drop_bit ((LENGTH('a) - k) mod LENGTH('a)) v = word_rotl k v"
proof (cases "k = 0")
  case False
  show ?thesis
  proof (rule bit_word_eqI)
    fix n assume n: "n < LENGTH('a)"
    have "(n + (LENGTH('a) - k)) mod LENGTH('a) = (if k \<le> n then n - k else n + (LENGTH('a) - k))"
      using assms n False by (auto simp: mod_if)
    then show "bit (push_bit k v OR drop_bit ((LENGTH('a) - k) mod LENGTH('a)) v) n = bit (word_rotl k v) n"
      using assms n False by (auto simp: bit_simps bit_word_rotl_iff add.commute dest: bit_imp_le_length)
  qed
qed (simp add: bit_word_eqI bit_simps)

lemma rotr_bits:
  fixes v :: "'a :: len word"
  assumes "k < LENGTH('a)"
  shows "drop_bit k v OR push_bit ((LENGTH('a) - k) mod LENGTH('a)) v = word_rotr k v"
proof (cases "k = 0")
  case False
  show ?thesis
  proof (rule bit_word_eqI)
    fix n assume n: "n < LENGTH('a)"
    have "(n + k) mod LENGTH('a) = (if n + k < LENGTH('a) then n + k else n + k - LENGTH('a))"
      using assms n by (auto simp: mod_if)
    then show "bit (drop_bit k v OR push_bit ((LENGTH('a) - k) mod LENGTH('a)) v) n = bit (word_rotr k v) n"
      using assms n False by (auto simp: bit_simps bit_word_rotr_iff add.commute dest: bit_imp_le_length)
  qed
qed (simp add: bit_word_eqI bit_simps)

lemma mask_5_6: "(31 :: u32) = mask 5" "(63 :: u32) = mask 6"
  by (simp_all add: mask_eq_exp_minus_1)

text \<open>
  The rotations, written with two shifts that never shift by the full width, rotate.
\<close>

theorem rotations_rotate:
  "(k < 32 \<longrightarrow> CRYPTO_rotl_u32 v k = word_rotl k v \<and> CRYPTO_rotr_u32 v k = word_rotr k v)
   \<and> (k < 64 \<longrightarrow> CRYPTO_rotl_u64 w k = word_rotl k w \<and> CRYPTO_rotr_u64 w k = word_rotr k w)"
  using rotl_bits [of k v] rotr_bits [of k v] rotl_bits [of k w] rotr_bits [of k w]
  by (simp add: CRYPTO_rotl_u32_def CRYPTO_rotr_u32_def CRYPTO_rotl_u64_def CRYPTO_rotr_u64_def mask_5_6 unat_neg_and
      del: mask_numeral)

theorem rotations_rotate_witness:
  "CRYPTO_rotl_u32 0x80000001 4 = 0x18 \<and> CRYPTO_rotr_u64 1 1 = 0x8000000000000000"
proof -
  have "CRYPTO_rotl_u32 0x80000001 4 = word_rotl 4 0x80000001" "CRYPTO_rotr_u64 1 1 = word_rotr 1 1"
    using rotations_rotate [of 4 "0x80000001"] rotations_rotate [of 1 _ 1] by simp_all
  then show ?thesis by code_simp
qed

lemma carry_value: "unat c \<le> 1 \<Longrightarrow> c = 0 \<or> c = (1 :: 'a :: len word)"
  by (simp add: word_unat_eq_iff le_Suc_eq)

lemma addc_u64:
  assumes "unat c \<le> 1" "CRYPTO_addc_u64 x y c = (r, c')"
  shows "unat r + 18446744073709551616 * unat c' = unat x + unat y + unat c \<and> unat c' \<le> 1"
proof -
  define X Y where "X = unat x" and "Y = unat y"
  have b: "X < 18446744073709551616" "Y < 18446744073709551616" by (simp_all add: X_def Y_def)
  have s: "unat (u + v) = (if unat u + unat v < 18446744073709551616 then unat u + unat v
     else unat u + unat v - 18446744073709551616)" for u v :: u64
    by (simp add: unat_plus_if')
  have l: "(u < v) = (unat u < unat v)" for u v :: u64 by (rule word_less_nat_alt)
  have o: "unat (of_bool p :: u64) = of_bool p" for p by simp
  have r: "r = x + c + y" "c' = of_bool (x + c < c) + of_bool (x + c + y < x + c)"
    using assms(2) by (auto simp only: CRYPTO_addc_u64_def Let_def prod.inject)
  show ?thesis
    using carry_value [OF assms(1)]
  proof
    assume "c = 0"
    then show ?thesis using b unfolding r by (auto simp: l s o X_def [symmetric] Y_def [symmetric])
  next
    assume "c = 1"
    then show ?thesis using b unfolding r by (auto simp: l s o X_def [symmetric] Y_def [symmetric])
  qed
qed

lemma addc_u32:
  assumes "unat c \<le> 1" "CRYPTO_addc_u32 x y c = (r, c')"
  shows "unat r + 4294967296 * unat c' = unat x + unat y + unat c \<and> unat c' \<le> 1"
proof -
  define S where "S = unat x + unat y + unat c"
  have S: "S < 8589934592" using assms(1) unat_u32_bound [of x] unat_u32_bound [of y] unfolding S_def by linarith
  have t: "unat (ucast c + (ucast x + ucast y) :: u64) = S"
  proof -
    have u: "unat (ucast w :: u64) = unat w" for w :: u32 by simp
    have a: "unat (v + w) = unat v + unat w" if "unat v + unat w < 18446744073709551616" for v w :: u64
      using that by (simp add: unat_plus_if')
    have "unat (ucast x + ucast y :: u64) = unat x + unat y" using S unfolding S_def by (subst a) (use u in simp_all)
    then show ?thesis using S unfolding S_def by (subst a) (simp_all add: u)
  qed
  have r: "r = ucast (ucast c + (ucast x + ucast y) :: u64)" "c' = ucast (drop_bit 32 (ucast c + (ucast x + ucast y) :: u64))"
    using assms(2) by (simp_all add: CRYPTO_addc_u32_def Let_def)
  have "unat r = S mod 4294967296" "unat c' = S div 4294967296"
  proof -
    have d: "unat (drop_bit 32 w) = unat w div 4294967296" for w :: u64
      by (simp only: unat_drop_bit_eq) (simp add: drop_bit_eq_div)
    have "unat r = S mod 2 ^ 32" "unat c' = S div 4294967296 mod 2 ^ 32"
      unfolding r unat_ucast_mod d t by simp_all
    then show "unat r = S mod 4294967296" "unat c' = S div 4294967296" using S by (simp_all add: div_less_iff_less_mult)
  qed
  then show ?thesis using S unfolding S_def [symmetric] by (simp add: div_less_iff_less_mult)
qed

lemma borrow_bit:
  fixes x y b :: "'a :: len word"
  assumes "unat b \<le> 1"
  shows "of_bool (x < y) OR (of_bool (x = y) AND b) = of_bool (unat x < unat y + unat b)"
  using carry_value [OF assms]
proof
  assume "b = 0" then show ?thesis by (simp add: word_less_nat_alt)
next
  assume b: "b = 1"
  show ?thesis unfolding b by (auto simp: word_less_nat_alt word_unat_eq_iff)
qed

lemma subc_value:
  fixes x y b :: "'a :: len word"
  assumes "unat b \<le> 1"
  shows "unat (x - y - b) + (unat y + unat b) = unat x + (if unat x < unat y + unat b then 2 ^ LENGTH('a) else 0)"
proof -
  define X Y M where "X = unat x" and "Y = unat y" and "M = (2 :: nat) ^ LENGTH('a)"
  have u: "X < M" "Y < M" by (simp_all add: X_def Y_def M_def)
  have d: "unat (v - w) = (if unat w \<le> unat v then unat v - unat w else unat v + M - unat w)" for v w :: "'a word"
    by (simp add: unat_sub_if' M_def)
  show ?thesis
    using carry_value [OF assms]
  proof
    assume b: "b = 0"
    show ?thesis using u unfolding b by (auto simp: d X_def [symmetric] Y_def [symmetric] M_def [symmetric])
  next
    assume b: "b = 1"
    have "2 \<le> M" by (simp add: self_le_power M_def)
    then show ?thesis using u unfolding b by (auto simp: d X_def [symmetric] Y_def [symmetric] M_def [symmetric])
  qed
qed

text \<open>
  Addition and subtraction with carry lose nothing: the word and the carry (borrow) together
  are the exact sum (difference), and the carry out is again 0 or 1.
\<close>

theorem carries_exact:
  "(unat c \<le> 1 \<and> CRYPTO_addc_u64 x y c = (r, c') \<longrightarrow>
      unat r + 2 ^ 64 * unat c' = unat x + unat y + unat c \<and> unat c' \<le> 1)
   \<and> (unat c \<le> 1 \<and> CRYPTO_subc_u64 x y c = (r, c') \<longrightarrow>
      unat r + (unat y + unat c) = unat x + 2 ^ 64 * unat c' \<and> unat c' \<le> 1)
   \<and> (unat d \<le> 1 \<and> CRYPTO_addc_u32 v w d = (s, d') \<longrightarrow>
      unat s + 2 ^ 32 * unat d' = unat v + unat w + unat d \<and> unat d' \<le> 1)
   \<and> (unat d \<le> 1 \<and> CRYPTO_subc_u32 v w d = (s, d') \<longrightarrow>
      unat s + (unat w + unat d) = unat v + 2 ^ 32 * unat d' \<and> unat d' \<le> 1)"
proof (intro conjI impI; elim conjE)
  assume c: "unat c \<le> 1" and "CRYPTO_subc_u64 x y c = (r, c')"
  then have "r = x - y - c" "c' = of_bool (unat x < unat y + unat c)"
    by (simp_all only: CRYPTO_subc_u64_def borrow_bit prod.inject)
  then show "unat r + (unat y + unat c) = unat x + 2 ^ 64 * unat c' " "unat c' \<le> 1"
    using subc_value [OF c, of x y] by simp_all
next
  assume c: "unat d \<le> 1" and "CRYPTO_subc_u32 v w d = (s, d')"
  then have "s = v - w - d" "d' = of_bool (unat v < unat w + unat d)"
    by (simp_all only: CRYPTO_subc_u32_def borrow_bit prod.inject)
  then show "unat s + (unat w + unat d) = unat v + 2 ^ 32 * unat d' " "unat d' \<le> 1"
    using subc_value [OF c, of v w] by simp_all
qed (use addc_u64 [of c x y r c'] addc_u32 [of d v w s d'] in simp_all)

theorem carries_exact_witness:
  "CRYPTO_addc_u64 0xffffffffffffffff 0 1 = (0, 1) \<and> unat (0 :: u64) + 2 ^ 64 * unat (1 :: u64) = unat (0xffffffffffffffff :: u64) + 1"
proof -
  have e: "CRYPTO_addc_u64 0xffffffffffffffff 0 1 = (0, 1)" by code_simp
  then show ?thesis using carries_exact [of 1 "0xffffffffffffffff" 0 0 1 0 0 0 0 0] by simp
qed

end
