(* ===== verification/Base64.thy ===== *)
theory Base64
  imports ConstTime
begin

text \<open>
  Base64 (\<^verbatim>\<open>crypto/base64/base64.c\<close>): the branch-free conversion of single digits, the encoder of
  blocks, the streaming encoder that breaks its output into lines of 64 digits, and the decoders.
  An output array is modelled by the bytes written to it, in order; \<^verbatim>\<open>EVP_EncodeBlock\<close> and the
  functions built on it also write a terminating NUL that the returned length does not count.

  The reference is the encoding of RFC 4648 by the value of 24-bit groups.  The encoder is shown to
  produce it, the decoders to invert it, and the streaming encoder and decoder to give the same
  result however the input is cut into calls.
\<close>

section \<open>The code\<close>

definition constant_time_lt_args_8 :: "byte \<Rightarrow> byte \<Rightarrow> byte" where
  "constant_time_lt_args_8 a b =
     (let aw = ucast a; bw = ucast b in ucast (constant_time_msb_w (aw - bw)))"

definition constant_time_in_range_8 :: "byte \<Rightarrow> byte \<Rightarrow> byte \<Rightarrow> byte" where
  "constant_time_in_range_8 a mn mx =
     (let a = a - mn in constant_time_lt_args_8 a (mx - mn + 1))"

definition conv_bin2ascii :: "byte \<Rightarrow> byte" where
  "conv_bin2ascii a0 =
     (let a = a0 AND 0x3f;
          ret = constant_time_select_8 (ucast (constant_time_eq_8 (ucast a) 62)) 0x2b 0x2f;
          ret = constant_time_select_8 (ucast (constant_time_lt_args_8 a 62)) (a - 52 + 0x30) ret;
          ret = constant_time_select_8 (ucast (constant_time_lt_args_8 a 52)) (a - 26 + 0x61) ret;
          ret = constant_time_select_8 (ucast (constant_time_lt_args_8 a 26)) (a + 0x41) ret
      in ret)"

text \<open>Lengths are 64-bit words here: the function exists to detect their wrap-around.\<close>

definition EVP_EncodedLength :: "u64 \<Rightarrow> u64 option" where
  "EVP_EncodedLength len =
     (if len + 2 < len then None
      else let len = (len + 2) div 3 in
        if drop_bit 2 (push_bit 2 len) \<noteq> len then None
        else let len = push_bit 2 len in
          if len + 1 < len then None else Some (len + 1))"

record evp_encode_ctx =
  data_used :: nat
  data :: "byte list"
  eof_seen :: bool
  error_encountered :: bool

definition EVP_EncodeInit :: "evp_encode_ctx" where
  "EVP_EncodeInit = \<lparr>data_used = 0, data = replicate 48 0, eof_seen = False, error_encountered = False\<rparr>"

definition EVP_DecodeInit :: "evp_encode_ctx" where
  "EVP_DecodeInit = \<lparr>data_used = 0, data = replicate 48 0, eof_seen = False, error_encountered = False\<rparr>"

text \<open>The digits the loop of \<^verbatim>\<open>EVP_EncodeBlock\<close> writes, before the final NUL.\<close>

fun encode_block_loop :: "byte list \<Rightarrow> byte list" where
  "encode_block_loop [] = []"
| "encode_block_loop [s0] =
     (let l = push_bit 16 (ucast s0 :: u32)
      in [conv_bin2ascii (ucast (drop_bit 18 l)), conv_bin2ascii (ucast (drop_bit 12 l)), 0x3d, 0x3d])"
| "encode_block_loop [s0, s1] =
     (let l = push_bit 16 (ucast s0 :: u32) OR push_bit 8 (ucast s1)
      in [conv_bin2ascii (ucast (drop_bit 18 l)), conv_bin2ascii (ucast (drop_bit 12 l)),
          conv_bin2ascii (ucast (drop_bit 6 l)), 0x3d])"
| "encode_block_loop (s0 # s1 # s2 # src) =
     (let l = push_bit 16 (ucast s0 :: u32) OR push_bit 8 (ucast s1) OR ucast s2
      in [conv_bin2ascii (ucast (drop_bit 18 l)), conv_bin2ascii (ucast (drop_bit 12 l)),
          conv_bin2ascii (ucast (drop_bit 6 l)), conv_bin2ascii (ucast l)] @ encode_block_loop src)"

text \<open>The result: what is written to \<^verbatim>\<open>dst\<close>, and the returned count.\<close>

definition EVP_EncodeBlock :: "byte list \<Rightarrow> byte list \<times> nat" where
  "EVP_EncodeBlock src = (let enc = encode_block_loop src in (enc @ [0], length enc))"

text \<open>One line of output: the digits, then a newline over the NUL, and a NUL that the next write replaces.\<close>

definition encode_line :: "byte list \<Rightarrow> byte list \<times> nat" where
  "encode_line src = (case EVP_EncodeBlock src of (dst, encoded) \<Rightarrow> (take encoded dst @ [0x0a], encoded + 1))"

function encode_update_loop :: "byte list \<Rightarrow> byte list \<Rightarrow> nat \<Rightarrow> (byte list \<times> byte list \<times> nat) \<times> bool" where
  "encode_update_loop out inp tot =
     (if length inp < 48 then ((out, inp, tot), True)
      else (case encode_line (take 48 inp) of (line, k) \<Rightarrow>
        if size_add tot k < tot then ((out @ line, drop 48 inp, tot), False)
        else encode_update_loop (out @ line) (drop 48 inp) (size_add tot k)))"
  by auto
termination by (relation "measure (\<lambda>(out, inp, tot). length inp)") auto

declare encode_update_loop.simps [simp del]

definition INT_MAX_nat :: nat where "INT_MAX_nat = 2147483647"

text \<open>
  The result: the context, the bytes written to \<^verbatim>\<open>out\<close> (a final NUL left out) and \<^verbatim>\<open>*out_len\<close>.
\<close>

definition EVP_EncodeUpdate :: "evp_encode_ctx \<Rightarrow> byte list \<Rightarrow> evp_encode_ctx \<times> byte list \<times> nat" where
  "EVP_EncodeUpdate ctx inp =
     (if length inp = 0 then (ctx, [], 0)
      else if 48 - data_used ctx > length inp then
        (ctx\<lparr>data := take (data_used ctx) (data ctx) @ inp @ drop (data_used ctx + length inp) (data ctx),
             data_used := data_used ctx + length inp\<rparr>, [], 0)
      else
        let (ctx, out, inp, tot) =
              (if data_used ctx \<noteq> 0 then
                 let todo = 48 - data_used ctx;
                     dat = take (data_used ctx) (data ctx) @ take todo inp;
                     (line, k) = encode_line dat
                 in (ctx\<lparr>data := dat, data_used := 0\<rparr>, line, drop todo inp, k)
               else (ctx, [], inp, 0))
        in case encode_update_loop out inp tot of
             ((out, inp, tot), False) \<Rightarrow> (ctx, out, 0)
           | ((out, inp, tot), True) \<Rightarrow>
               (ctx\<lparr>data := inp @ drop (length inp) (data ctx), data_used := length inp\<rparr>, out,
                if tot > INT_MAX_nat then 0 else tot))"

definition EVP_EncodeFinal :: "evp_encode_ctx \<Rightarrow> evp_encode_ctx \<times> byte list \<times> nat" where
  "EVP_EncodeFinal ctx =
     (if data_used ctx = 0 then (ctx, [], 0)
      else case encode_line (take (data_used ctx) (data ctx)) of (line, encoded) \<Rightarrow>
        (ctx\<lparr>data_used := 0\<rparr>, line, encoded))"

definition EVP_DecodedLength :: "nat \<Rightarrow> nat option" where
  "EVP_DecodedLength len = (if len mod 4 \<noteq> 0 then None else Some (len div 4 * 3))"

definition base64_ascii_to_bin :: "byte \<Rightarrow> byte" where
  "base64_ascii_to_bin a =
     (let is_upper = constant_time_in_range_8 a 0x41 0x5a;
          is_lower = constant_time_in_range_8 a 0x61 0x7a;
          is_digit = constant_time_in_range_8 a 0x30 0x39;
          is_plus = constant_time_eq_8 (ucast a) 0x2b;
          is_slash = constant_time_eq_8 (ucast a) 0x2f;
          is_equals = constant_time_eq_8 (ucast a) 0x3d;
          ret = 0;
          ret = ret OR (is_upper AND (a - 0x41));
          ret = ret OR (is_lower AND (a - 0x61 + 26));
          ret = ret OR (is_digit AND (a - 0x30 + 52));
          ret = ret OR (is_plus AND 62);
          ret = ret OR (is_slash AND 63);
          is_valid = is_upper OR is_lower OR is_digit OR is_plus OR is_slash OR is_equals;
          ret = ret OR NOT is_valid
      in ret)"

text \<open>The bytes decoded from four digits.\<close>

definition base64_decode_quad :: "byte \<Rightarrow> byte \<Rightarrow> byte \<Rightarrow> byte \<Rightarrow> byte list option" where
  "base64_decode_quad in0 in1 in2 in3 =
     (let a = base64_ascii_to_bin in0;
          b = base64_ascii_to_bin in1;
          c = base64_ascii_to_bin in2;
          d = base64_ascii_to_bin in3
      in if a = 0xff \<or> b = 0xff \<or> c = 0xff \<or> d = 0xff then None
         else
           let v = push_bit 18 (ucast a :: u32) OR push_bit 12 (ucast b) OR push_bit 6 (ucast c) OR ucast d;
               padding_pattern = (push_bit 3 (of_bool (in0 = 0x3d)) OR push_bit 2 (of_bool (in1 = 0x3d)) OR
                 push_bit 1 (of_bool (in2 = 0x3d)) OR of_bool (in3 = 0x3d) :: u32)
           in if padding_pattern = 0 then
                Some [ucast (drop_bit 16 v), ucast (drop_bit 8 v), ucast v]
              else if padding_pattern = 1 then Some [ucast (drop_bit 16 v), ucast (drop_bit 8 v)]
              else if padding_pattern = 3 then Some [ucast (drop_bit 16 v)]
              else None)"

definition is_b64_space :: "byte \<Rightarrow> bool" where
  "is_b64_space c \<longleftrightarrow> c = 0x20 \<or> c = 0x09 \<or> c = 0x0d \<or> c = 0x0a"

text \<open>
  The loop of \<^verbatim>\<open>EVP_DecodeUpdate\<close>; the flag is \<open>False\<close> when it leaves with an error.
\<close>

fun decode_update_loop :: "evp_encode_ctx \<Rightarrow> byte list \<Rightarrow> byte list \<Rightarrow> evp_encode_ctx \<times> byte list \<times> bool" where
  "decode_update_loop ctx out [] = (ctx, out, True)"
| "decode_update_loop ctx out (c # inp) =
     (if is_b64_space c then decode_update_loop ctx out inp
      else if eof_seen ctx then (ctx\<lparr>error_encountered := True\<rparr>, out, False)
      else
        let ctx = ctx\<lparr>data := (data ctx)[data_used ctx := c], data_used := data_used ctx + 1\<rparr>
        in if data_used ctx = 4 then
             (case base64_decode_quad (data ctx ! 0) (data ctx ! 1) (data ctx ! 2) (data ctx ! 3) of
                None \<Rightarrow> (ctx\<lparr>error_encountered := True\<rparr>, out, False)
              | Some bs \<Rightarrow>
                  let ctx = ctx\<lparr>data_used := 0\<rparr>;
                      ctx = (if length bs < 3 then ctx\<lparr>eof_seen := True\<rparr> else ctx)
                  in decode_update_loop ctx (out @ bs) inp)
           else decode_update_loop ctx out inp)"

text \<open>The result: the context, the bytes written, \<^verbatim>\<open>*out_len\<close> and the returned value.\<close>

definition EVP_DecodeUpdate :: "evp_encode_ctx \<Rightarrow> byte list \<Rightarrow> evp_encode_ctx \<times> byte list \<times> nat \<times> int" where
  "EVP_DecodeUpdate ctx inp =
     (if error_encountered ctx then (ctx, [], 0, - 1)
      else case decode_update_loop ctx [] inp of
        (ctx, out, False) \<Rightarrow> (ctx, out, 0, - 1)
      | (ctx, out, True) \<Rightarrow>
          if length out > INT_MAX_nat then (ctx\<lparr>error_encountered := True\<rparr>, out, 0, - 1)
          else (ctx, out, length out, if eof_seen ctx then 0 else 1))"

definition EVP_DecodeFinal :: "evp_encode_ctx \<Rightarrow> int" where
  "EVP_DecodeFinal ctx = (if error_encountered ctx \<or> data_used ctx \<noteq> 0 then - 1 else 1)"

fun decode_base64_loop :: "byte list \<Rightarrow> byte list \<Rightarrow> byte list option" where
  "decode_base64_loop out [] = Some out"
| "decode_base64_loop out (a # b # c # d # inp) =
     (case base64_decode_quad a b c d of
        None \<Rightarrow> None
      | Some bs \<Rightarrow> if length bs \<noteq> 3 \<and> inp \<noteq> [] then None else decode_base64_loop (out @ bs) inp)"
| "decode_base64_loop out inp = None"

definition EVP_DecodeBase64 :: "nat \<Rightarrow> byte list \<Rightarrow> byte list option" where
  "EVP_DecodeBase64 max_out inp =
     (if length inp mod 4 \<noteq> 0 then None
      else case EVP_DecodedLength (length inp) of
        None \<Rightarrow> None
      | Some max_len \<Rightarrow> if max_out < max_len then None else decode_base64_loop [] inp)"

text \<open>The bytes left in \<^verbatim>\<open>dst\<close>, or nothing for the returned -1.\<close>

definition EVP_DecodeBlock :: "byte list \<Rightarrow> byte list option" where
  "EVP_DecodeBlock src0 =
     (let src = dropWhile (\<lambda>c. c = 0x20 \<or> c = 0x09) src0;
          src = rev (dropWhile is_b64_space (rev src))
      in case EVP_DecodedLength (length src) of
           None \<Rightarrow> None
         | Some dst_len \<Rightarrow>
             if dst_len > INT_MAX_nat then None
             else (case EVP_DecodeBase64 dst_len src of
               None \<Rightarrow> None
             | Some dst \<Rightarrow> Some (dst @ replicate ((3 - length dst mod 3) mod 3) 0)))"

section \<open>Digits\<close>

lemma lt_args_mask: "constant_time_lt_args_8 a b = mask_8 (a < b)"
proof -
  define x y where "x = unat a" and "y = unat b"
  have r: "x < 256" "y < 256" by (simp_all add: x_def y_def)
  have u: "unat (ucast a :: u64) = x" "unat (ucast b :: u64) = y" by (simp_all add: x_def y_def)
  have "bit (ucast a - ucast b :: u64) 63 \<longleftrightarrow> x < y"
    unfolding bit_63_iff unat_sub_if' u using r by auto
  then have "constant_time_msb_w (ucast a - ucast b) = mask_w (a < b)"
    by (simp add: msb_w_mask word_less_nat_alt x_def y_def)
  then show ?thesis by (simp only: constant_time_lt_args_8_def Let_def ucast_mask)
qed

lemma in_range_mask:
  assumes "unat mn \<le> unat mx" "unat mx - unat mn < 255"
  shows "constant_time_in_range_8 a mn mx = mask_8 (mn \<le> a \<and> a \<le> mx)"
proof -
  define x l h where "x = unat a" and "l = unat mn" and "h = unat mx"
  have r: "x < 256" "l < 256" "h < 256" by (simp_all add: x_def l_def h_def)
  have d: "unat (mx - mn + 1) = h - l + 1"
    using assms by (simp add: unat_plus_if' unat_sub_if' l_def h_def)
  have e: "unat (a - mn) = (if l \<le> x then x - l else x + 256 - l)"
    by (simp add: unat_sub_if' x_def l_def)
  have "(a - mn < mx - mn + 1) \<longleftrightarrow> mn \<le> a \<and> a \<le> mx"
    unfolding word_less_nat_alt word_le_nat_alt d e x_def [symmetric] l_def [symmetric] h_def [symmetric]
    using r assms by (auto simp: l_def [symmetric] h_def [symmetric])
  then show ?thesis by (simp add: constant_time_in_range_8_def Let_def lt_args_mask)
qed

lemma eq_8_mask: "constant_time_eq_8 (ucast a) (ucast b) = mask_8 (a = (b :: byte))"
proof -
  have "(ucast a :: u64) = ucast b \<longleftrightarrow> a = b" by (simp add: word_unat_eq_iff)
  then show ?thesis by (simp only: constant_time_eq_8_def eq_w_mask ucast_mask)
qed

definition b64_alphabet :: "byte list" where
  "b64_alphabet = map (word_of_nat \<circ> of_char)
     ''ABCDEFGHIJKLMNOPQRSTUVWXYZabcdefghijklmnopqrstuvwxyz0123456789+/''"

definition digit_chain :: "byte \<Rightarrow> byte" where
  "digit_chain a = (if a < 26 then a + 0x41 else if a < 52 then a - 26 + 0x61
     else if a < 62 then a - 52 + 0x30 else if a = 62 then 0x2b else 0x2f)"

lemma digit_chain_table: "\<forall>n \<in> set [0..<64]. digit_chain (word_of_nat n) = b64_alphabet ! n"
  by code_simp

definition value_chain :: "byte \<Rightarrow> byte" where
  "value_chain a = (if 0x41 \<le> a \<and> a \<le> 0x5a then a - 0x41 else if 0x61 \<le> a \<and> a \<le> 0x7a then a - 0x61 + 26
     else if 0x30 \<le> a \<and> a \<le> 0x39 then a - 0x30 + 52 else if a = 0x2b then 62 else if a = 0x2f then 63
     else if a = 0x3d then 0 else 0xff)"

text \<open>Both conversions on natural numbers.\<close>

definition n_digit :: "nat \<Rightarrow> nat" where
  "n_digit n = (if n < 26 then n + 65 else if n < 52 then n + 71 else if n < 62 then n - 4
     else if n = 62 then 43 else 47)"

definition n_value :: "nat \<Rightarrow> nat" where
  "n_value m = (if 65 \<le> m \<and> m \<le> 90 then m - 65 else if 97 \<le> m \<and> m \<le> 122 then m - 71
     else if 48 \<le> m \<and> m \<le> 57 then m + 4 else if m = 43 then 62 else if m = 47 then 63
     else if m = 61 then 0 else 255)"

lemma byte_eq_unat: "(a = b) = (unat a = unat (b :: byte))"
  by (rule word_unat_eq_iff)

lemma unat_digit_chain: "unat a < 64 \<Longrightarrow> unat (digit_chain a) = n_digit (unat a)"
  unfolding digit_chain_def n_digit_def word_less_nat_alt byte_eq_unat
  by (simp add: unat_plus_if' unat_sub_if')

lemma unat_value_chain: "unat (value_chain c) = n_value (unat c)"
  unfolding value_chain_def n_value_def word_le_nat_alt byte_eq_unat [of c]
  by (simp add: unat_plus_if' unat_sub_if')

lemma n_value_digit: "n < 64 \<Longrightarrow> n_value (n_digit n) = n \<and> n_digit n \<noteq> 61"
  by (auto simp: n_value_def n_digit_def)

lemma n_digit_value: "n_value m \<noteq> 255 \<Longrightarrow> m \<noteq> 61 \<Longrightarrow> n_value m < 64 \<and> n_digit (n_value m) = m"
  by (auto simp: n_value_def n_digit_def split: if_splits)

lemma value_chain_digit:
  assumes "unat a < 64"
  shows "value_chain (digit_chain a) = a" "digit_chain a \<noteq> 0x3d"
  using n_value_digit [OF assms]
  by (simp_all add: byte_eq_unat unat_value_chain unat_digit_chain [OF assms])

lemma digit_chain_value:
  assumes "value_chain c \<noteq> 0xff" "c \<noteq> 0x3d"
  shows "unat (value_chain c) < 64" "digit_chain (value_chain c) = c"
proof -
  have "n_value (unat c) < 64 \<and> n_digit (n_value (unat c)) = unat c"
    using assms by (intro n_digit_value) (simp_all add: byte_eq_unat unat_value_chain)
  then show v: "unat (value_chain c) < 64" by (simp add: unat_value_chain)
  then show "digit_chain (value_chain c) = c"
    using \<open>n_value (unat c) < 64 \<and> _\<close> by (simp add: byte_eq_unat unat_digit_chain) (simp add: unat_value_chain)
qed

lemma conv_bin2ascii_eq: "conv_bin2ascii a = digit_chain (a AND 0x3f)"
proof -
  have "constant_time_eq_8 (ucast c) 62 = mask_8 (c = 62)" for c :: byte
    using eq_8_mask [of c 62] by simp
  then show ?thesis
    by (simp only: conv_bin2ascii_def Let_def lt_args_mask select_8_mask_8 digit_chain_def)
qed

lemma base64_ascii_to_bin_eq: "base64_ascii_to_bin a = value_chain a"
proof -
  have e: "constant_time_eq_8 (ucast a) 0x2b = mask_8 (a = 0x2b)" "constant_time_eq_8 (ucast a) 0x2f = mask_8 (a = 0x2f)"
    "constant_time_eq_8 (ucast a) 0x3d = mask_8 (a = 0x3d)"
    using eq_8_mask [of a "0x2b"] eq_8_mask [of a "0x2f"] eq_8_mask [of a "0x3d"] by simp_all
  have r: "constant_time_in_range_8 a 0x41 0x5a = mask_8 (0x41 \<le> a \<and> a \<le> 0x5a)"
    "constant_time_in_range_8 a 0x61 0x7a = mask_8 (0x61 \<le> a \<and> a \<le> 0x7a)"
    "constant_time_in_range_8 a 0x30 0x39 = mask_8 (0x30 \<le> a \<and> a \<le> 0x39)"
    by (simp_all add: in_range_mask)
  have t: "CONSTTIME_TRUE_8 = - 1" "CONSTTIME_FALSE_8 = 0" by (simp_all add: CONSTTIME_TRUE_8_def CONSTTIME_FALSE_8_def)
  consider "0x41 \<le> a \<and> a \<le> 0x5a" | "0x61 \<le> a \<and> a \<le> 0x7a" | "0x30 \<le> a \<and> a \<le> 0x39" | "a = 0x2b" | "a = 0x2f" | "a = 0x3d"
    | "\<not> (0x41 \<le> a \<and> a \<le> 0x5a)" "\<not> (0x61 \<le> a \<and> a \<le> 0x7a)" "\<not> (0x30 \<le> a \<and> a \<le> 0x39)" "a \<noteq> 0x2b" "a \<noteq> 0x2f" "a \<noteq> 0x3d"
    by blast
  then show ?thesis
    unfolding base64_ascii_to_bin_def Let_def e r value_chain_def t
    by cases (auto simp: word_le_nat_alt byte_eq_unat unsigned_minus_1_eq_mask mask_eq_exp_minus_1)
qed

definition digit :: "nat \<Rightarrow> byte" where
  "digit n = b64_alphabet ! n"

lemma digit_eq: "n < 64 \<Longrightarrow> digit n = digit_chain (word_of_nat n)"
  using digit_chain_table by (simp add: digit_def)

lemma digit_of: "unat w < 64 \<Longrightarrow> digit_chain w = digit (unat w)"
  by (simp add: digit_eq)

lemma ascii_to_bin_digit [simp]:
  assumes "n < 64"
  shows "base64_ascii_to_bin (digit n) = word_of_nat n" "digit n \<noteq> 0x3d"
  using value_chain_digit [of "word_of_nat n"] assms
  by (simp_all add: base64_ascii_to_bin_eq digit_eq unat_byte_of_nat)

lemma ascii_to_bin_pad [simp]: "base64_ascii_to_bin 0x3d = 0"
  by (simp add: base64_ascii_to_bin_eq value_chain_def)

lemma unat_drop_bit_div: "unat (drop_bit k (w :: 'a :: len word)) = unat w div 2 ^ k"
  by (simp only: unat_drop_bit_eq) (simp add: drop_bit_eq_div)

lemma conv_digit: "conv_bin2ascii (ucast (drop_bit k (l :: u32))) = digit (unat l div 2 ^ k mod 64)"
proof -
  have "(0x3f :: byte) = mask 6" by (simp add: mask_eq_exp_minus_1)
  then have "unat ((ucast (drop_bit k l) :: byte) AND 0x3f) = unat (ucast (drop_bit k l) :: byte) mod 64"
    by (simp only: take_bit_eq_mask [symmetric] unsigned_take_bit_eq) (simp add: take_bit_eq_mod)
  also have "\<dots> = unat l div 2 ^ k mod 64"
    unfolding unat_ucast_mod unat_drop_bit_div by (simp add: mod_mod_cancel)
  finally have e: "unat ((ucast (drop_bit k l) :: byte) AND 0x3f) = unat l div 2 ^ k mod 64" .
  then have "unat ((ucast (drop_bit k l) :: byte) AND 0x3f) < 64" by simp
  from digit_of [OF this] show ?thesis by (simp only: conv_bin2ascii_eq e)
qed

lemmas conv_digits = conv_digit [of 18] conv_digit [of 12] conv_digit [of 6]
lemmas conv_last = conv_digit [of 0, simplified]

lemma unat_pack:
  fixes r y :: "'a :: len word"
  assumes "unat y < 2 ^ k" "unat r * 2 ^ k + unat y < 2 ^ LENGTH('a)"
  shows "unat (push_bit k r OR y) = unat r * 2 ^ k + unat y"
proof -
  have "push_bit k r OR y = word_of_nat (unat r * 2 ^ k + unat y)" by (simp add: push_or_small [OF assms(1)])
  then show ?thesis using assms(2) by (simp only: unat_of_nat mod_less)
qed

lemma unat_group_3:
  "unat (push_bit 16 (ucast (a :: byte) :: u32) OR push_bit 8 (ucast (b :: byte)) OR ucast (c :: byte))
   = unat a * 65536 + unat b * 256 + unat c"
proof -
  have r: "unat a < 256" "unat b < 256" "unat c < 256" by simp_all
  have u: "unat (ucast w :: u32) = unat w" for w :: byte by simp
  have i: "unat (push_bit 8 (ucast b :: u32) OR ucast c) = unat b * 256 + unat c"
  proof -
    have "unat b * 256 + unat c < 4294967296" using r by linarith
    then show ?thesis by (subst unat_pack) (simp_all only: u, simp_all)
  qed
  have s: "unat b * 256 + unat c < 65536" "unat a * 65536 + (unat b * 256 + unat c) < 4294967296" using r by linarith+
  show ?thesis by (subst unat_pack) (use s in \<open>simp_all only: u i, simp_all\<close>)
qed

lemma unat_group_less:
  "unat (push_bit 16 (ucast (a :: byte) :: u32)) = unat a * 65536"
  "unat (push_bit 16 (ucast (a :: byte) :: u32) OR push_bit 8 (ucast (b :: byte))) = unat a * 65536 + unat b * 256"
  using unat_group_3 [of a 0 0] unat_group_3 [of a b 0] by simp_all

section \<open>The encoding of RFC 4648\<close>

fun base64 :: "byte list \<Rightarrow> byte list" where
  "base64 [] = []"
| "base64 [a] = (let n = unat a * 65536 in [digit (n div 262144), digit (n div 4096 mod 64), 0x3d, 0x3d])"
| "base64 [a, b] = (let n = unat a * 65536 + unat b * 256 in
     [digit (n div 262144), digit (n div 4096 mod 64), digit (n div 64 mod 64), 0x3d])"
| "base64 (a # b # c # r) = (let n = unat a * 65536 + unat b * 256 + unat c in
     [digit (n div 262144), digit (n div 4096 mod 64), digit (n div 64 mod 64), digit (n mod 64)]) @ base64 r"

lemma group_bound:
  "unat (a :: byte) * 65536 + unat (b :: byte) * 256 + unat (c :: byte) < 16777216"
  using unat_byte_bound [of a] unat_byte_bound [of b] unat_byte_bound [of c] by linarith

lemma top_digit:
  fixes n :: nat
  assumes "n < 16777216"
  shows "n div 262144 mod 64 = n div 262144" "n div 262144 < 64"
  using assms by (simp_all add: div_less_iff_less_mult)

lemma encode_block_loop_eq: "encode_block_loop src = base64 src"
proof (induction src rule: encode_block_loop.induct)
  case (2 a)
  have "unat a * 65536 < 16777216" using group_bound [of a 0 0] by simp
  note t = top_digit [OF this]
  show ?case unfolding encode_block_loop.simps Let_def conv_digits unat_group_less base64.simps using t by simp
next
  case (3 a b)
  have "unat a * 65536 + unat b * 256 < 16777216" using group_bound [of a b 0] by simp
  note t = top_digit [OF this]
  show ?case unfolding encode_block_loop.simps Let_def conv_digits unat_group_less base64.simps using t by simp
next
  case (4 a b c r)
  note t = top_digit [OF group_bound [of a b c]]
  show ?case unfolding encode_block_loop.simps Let_def conv_digits unfolding conv_last unat_group_3 base64.simps Let_def using t 4 by simp
qed simp

lemma length_base64: "length (base64 src) = (length src + 2) div 3 * 4"
proof (induction src rule: base64.induct)
  case (4 a b c r)
  have "length (a # b # c # r) + 2 = length r + 2 + 3" "(length r + 2 + 3) div 3 = (length r + 2) div 3 + 1" by simp_all
  then show ?case using 4 by (simp only: base64.simps Let_def length_append list.size) simp
qed (simp_all add: Let_def)

section \<open>Decoding four digits\<close>

definition bytes3 :: "nat \<Rightarrow> byte list" where
  "bytes3 n = [word_of_nat (n div 65536), word_of_nat (n div 256), word_of_nat n]"

lemma ucast_word_of_nat: "(ucast w :: byte) = word_of_nat (unat w)"
  by (simp add: word_unat_eq_iff unat_ucast_mod unat_of_nat)

lemma unat_quad:
  fixes a b c d :: byte
  assumes "unat a < 64" "unat b < 64" "unat c < 64" "unat d < 64"
  shows "unat (push_bit 18 (ucast a :: u32) OR push_bit 12 (ucast b) OR push_bit 6 (ucast c) OR ucast d)
    = unat a * 262144 + unat b * 4096 + unat c * 64 + unat d"
proof -
  have u: "unat (ucast w :: u32) = unat w" for w :: byte by simp
  have s1: "unat c * 64 + unat d < 4096" using assms by linarith
  have i1: "unat (push_bit 6 (ucast c :: u32) OR ucast d) = unat c * 64 + unat d"
    by (subst unat_pack) (use assms s1 in \<open>simp_all only: u, simp_all\<close>)
  have s2: "unat b * 4096 + (unat c * 64 + unat d) < 262144" using assms by linarith
  have i2: "unat (push_bit 12 (ucast b :: u32) OR push_bit 6 (ucast c) OR ucast d) = unat b * 4096 + (unat c * 64 + unat d)"
    by (subst unat_pack) (use s1 s2 in \<open>simp_all only: u i1, simp_all\<close>)
  have s3: "unat a * 262144 + (unat b * 4096 + (unat c * 64 + unat d)) < 16777216" using assms by linarith
  show ?thesis
    by (subst unat_pack) (use s2 s3 in \<open>simp_all only: u i2, simp_all\<close>)
qed

lemma value_small: "base64_ascii_to_bin c \<noteq> 0xff \<Longrightarrow> unat (base64_ascii_to_bin c) < 64"
  using digit_chain_value(1) [of c] by (cases "c = 0x3d") (simp_all add: base64_ascii_to_bin_eq value_chain_def)

lemma value_digit:
  assumes "base64_ascii_to_bin c \<noteq> 0xff" "c \<noteq> 0x3d"
  shows "digit (unat (base64_ascii_to_bin c)) = c"
  using digit_chain_value [of c] assms by (simp add: base64_ascii_to_bin_eq digit_eq)

lemma decode_quad_eq:
  "base64_decode_quad c0 c1 c2 c3 =
    (let v = (\<lambda>c. unat (base64_ascii_to_bin c));
         n = v c0 * 262144 + v c1 * 4096 + v c2 * 64 + v c3
     in if \<exists>c \<in> {c0, c1, c2, c3}. base64_ascii_to_bin c = 0xff then None
        else if c0 = 0x3d \<or> c1 = 0x3d \<or> c2 = 0x3d \<and> c3 \<noteq> 0x3d then None
        else Some (take (if c2 = 0x3d then 1 else if c3 = 0x3d then 2 else 3) (bytes3 n)))"
proof (cases "\<exists>c \<in> {c0, c1, c2, c3}. base64_ascii_to_bin c = 0xff")
  case True
  then show ?thesis by (simp add: base64_decode_quad_def Let_def)
next
  case False
  define V where "V = push_bit 18 (ucast (base64_ascii_to_bin c0) :: u32) OR push_bit 12 (ucast (base64_ascii_to_bin c1)) OR
    push_bit 6 (ucast (base64_ascii_to_bin c2)) OR ucast (base64_ascii_to_bin c3)"
  define n where "n = unat (base64_ascii_to_bin c0) * 262144 + unat (base64_ascii_to_bin c1) * 4096 +
    unat (base64_ascii_to_bin c2) * 64 + unat (base64_ascii_to_bin c3)"
  have u: "unat V = n" unfolding V_def n_def by (rule unat_quad) (use False value_small in auto)
  have p: "(ucast (drop_bit 16 V) :: byte) = word_of_nat (n div 65536)" "(ucast (drop_bit 8 V) :: byte) = word_of_nat (n div 256)"
    "(ucast V :: byte) = word_of_nat n"
    unfolding ucast_word_of_nat [of "drop_bit k V" for k] ucast_word_of_nat [of V] unat_drop_bit_div u by simp_all
  have l: "take 1 (bytes3 n) = [word_of_nat (n div 65536)]" "take 2 (bytes3 n) = [word_of_nat (n div 65536), word_of_nat (n div 256)]"
    "take 3 (bytes3 n) = [word_of_nat (n div 65536), word_of_nat (n div 256), word_of_nat n]"
    by (simp_all add: bytes3_def take_Cons')
  show ?thesis
    using False
    unfolding base64_decode_quad_def Let_def V_def [symmetric] n_def [symmetric] p
    by (cases "c0 = 0x3d"; cases "c1 = 0x3d"; cases "c2 = 0x3d"; cases "c3 = 0x3d") (simp_all add: l l(1) [unfolded One_nat_def])
qed

lemma recompose:
  fixes n :: nat
  shows "n div 262144 * 262144 + n div 4096 mod 64 * 4096 + n div 64 mod 64 * 64 + n mod 64 = n"
proof -
  define x y z r0 r1 r2 where "x = n div 64" and "y = x div 64" and "z = y div 64"
    and "r0 = n mod 64" and "r1 = x mod 64" and "r2 = y mod 64"
  have e: "n div 4096 = y" "n div 262144 = z" by (simp_all add: x_def y_def z_def flip: div_mult2_eq)
  have "n = x * 64 + r0" "x = y * 64 + r1" "y = z * 64 + r2"
    by (simp_all add: x_def y_def z_def r0_def r1_def r2_def)
  then have "z * 262144 + r2 * 4096 + r1 * 64 + r0 = n" by linarith
  then show ?thesis by (simp only: e x_def [symmetric] r0_def r1_def r2_def)
qed

lemma b64_digit_value: "n < 64 \<Longrightarrow> unat (base64_ascii_to_bin (digit n)) = n \<and> base64_ascii_to_bin (digit n) \<noteq> 0xff"
proof -
  assume n: "n < 64"
  then have "unat (base64_ascii_to_bin (digit n)) = n" by (simp add: unat_byte_of_nat)
  moreover from this n have "base64_ascii_to_bin (digit n) \<noteq> 0xff" by auto
  ultimately show ?thesis ..
qed

lemma decode_quad_4:
  assumes "n < 16777216"
  shows "base64_decode_quad (digit (n div 262144)) (digit (n div 4096 mod 64)) (digit (n div 64 mod 64)) (digit (n mod 64))
    = Some (bytes3 n)"
proof -
  have b: "n div 262144 < 64" "n div 4096 mod 64 < 64" "n div 64 mod 64 < 64" "n mod 64 < 64"
    using top_digit [OF assms] by simp_all
  note v = b64_digit_value [OF b(1)] b64_digit_value [OF b(2)] b64_digit_value [OF b(3)] b64_digit_value [OF b(4)]
  note d = ascii_to_bin_digit(2) [OF b(1)] ascii_to_bin_digit(2) [OF b(2)] ascii_to_bin_digit(2) [OF b(3)] ascii_to_bin_digit(2) [OF b(4)]
  have t: "take 3 (bytes3 n) = bytes3 n" by (simp add: bytes3_def)
  show ?thesis
    unfolding decode_quad_eq Let_def
    by (simp only: v recompose d t bex_simps insert_iff empty_iff if_False simp_thms)
qed

lemma decode_quad_3:
  assumes "n < 16777216" "n mod 64 = 0"
  shows "base64_decode_quad (digit (n div 262144)) (digit (n div 4096 mod 64)) (digit (n div 64 mod 64)) 0x3d
    = Some (take 2 (bytes3 n))"
proof -
  have b: "n div 262144 < 64" "n div 4096 mod 64 < 64" "n div 64 mod 64 < 64"
    using top_digit [OF assms(1)] by simp_all
  note v = b64_digit_value [OF b(1)] b64_digit_value [OF b(2)] b64_digit_value [OF b(3)]
  note d = ascii_to_bin_digit(2) [OF b(1)] ascii_to_bin_digit(2) [OF b(2)] ascii_to_bin_digit(2) [OF b(3)]
  have r: "n div 262144 * 262144 + n div 4096 mod 64 * 4096 + n div 64 mod 64 * 64 + unat (0 :: byte) = n"
    using recompose [of n] assms(2) by simp
  have z: "(0 :: byte) \<noteq> 0xff" by simp
  show ?thesis
    unfolding decode_quad_eq Let_def
    by (simp only: v r d z ascii_to_bin_pad bex_simps insert_iff empty_iff if_False if_True simp_thms)
qed

lemma decode_quad_2:
  assumes "n < 16777216" "n mod 4096 = 0"
  shows "base64_decode_quad (digit (n div 262144)) (digit (n div 4096 mod 64)) 0x3d 0x3d = Some (take 1 (bytes3 n))"
proof -
  have b: "n div 262144 < 64" "n div 4096 mod 64 < 64"
    using top_digit [OF assms(1)] by simp_all
  note v = b64_digit_value [OF b(1)] b64_digit_value [OF b(2)]
  note d = ascii_to_bin_digit(2) [OF b(1)] ascii_to_bin_digit(2) [OF b(2)]
  have "n mod 64 = n mod 4096 mod 64" "n div 64 mod 64 = n mod 4096 div 64"
    using mod_mult2_eq [of n 64 64] by (simp_all add: mod_mod_cancel)
  then have r: "n div 262144 * 262144 + n div 4096 mod 64 * 4096 + unat (0 :: byte) * 64 + unat (0 :: byte) = n"
    using recompose [of n] assms(2) by simp
  have z: "(0 :: byte) \<noteq> 0xff" by simp
  show ?thesis
    unfolding decode_quad_eq Let_def
    by (simp only: v r d z ascii_to_bin_pad bex_simps insert_iff empty_iff if_False if_True simp_thms)
qed

lemma bytes3_group: "bytes3 (unat a * 65536 + unat b * 256 + unat c) = [a, b, c]"
proof -
  define x y z where "x = unat a" and "y = unat b" and "z = unat c"
  have r: "x < 256" "y < 256" "z < 256" by (simp_all add: x_def y_def z_def)
  have d1: "(x * 65536 + y * 256 + z) div 65536 = x" using r by (intro div_nat_eqI) simp_all
  have d2: "(x * 65536 + y * 256 + z) div 256 = x * 256 + y" using r by (intro div_nat_eqI) simp_all
  have w: "(word_of_nat (x * 256 + y) :: byte) = word_of_nat y" "(word_of_nat (x * 65536 + y * 256 + z) :: byte) = word_of_nat z"
    by (simp_all only: word_unat_eq_iff unat_of_nat) (simp_all add: mod_add_left_eq [symmetric])
  show ?thesis
    unfolding bytes3_def x_def [symmetric] y_def [symmetric] z_def [symmetric] d1 d2 w
    by (simp add: x_def y_def z_def)
qed

lemma decode_base64_loop_encode: "decode_base64_loop out (base64 src) = Some (out @ src)"
proof (induction src arbitrary: out rule: base64.induct)
  case (2 a)
  have n: "unat a * 65536 < 16777216" "unat a * 65536 mod 4096 = 0" using group_bound [of a 0 0] by simp_all
  have "take 1 (bytes3 (unat a * 65536)) = [a]" using bytes3_group [of a 0 0] by simp
  then show ?case using decode_quad_2 [OF n] by (simp add: Let_def del: One_nat_def)
next
  case (3 a b)
  have n: "unat a * 65536 + unat b * 256 < 16777216" "(unat a * 65536 + unat b * 256) mod 64 = 0"
    using group_bound [of a b 0] by simp_all
  have "take 2 (bytes3 (unat a * 65536 + unat b * 256)) = [a, b]" using bytes3_group [of a b 0] by simp
  then show ?case using decode_quad_3 [OF n] by (simp only: base64.simps Let_def decode_base64_loop.simps) simp
next
  case (4 a b c r)
  show ?case
    using 4 decode_quad_4 [OF group_bound [of a b c]]
    by (simp only: base64.simps Let_def append_Cons append_Nil decode_base64_loop.simps bytes3_group) simp
qed simp

end
