(* ===== verification/Base64Stream.thy ===== *)
theory Base64Stream
  imports Base64
begin

text \<open>
  The streaming base64 encoder and decoder against the encoding of whole sequences, and the
  properties of the codec: chunk independence, agreement of the decoders, round trips, the exact
  output size and the exact language the decoders accept.
\<close>

section \<open>The streaming encoder\<close>

text \<open>The complete lines of 48 bytes of an input, and what is left of it.\<close>

function b64_lines :: "byte list \<Rightarrow> byte list" where
  "b64_lines s = (if length s < 48 then [] else base64 (take 48 s) @ 0x0a # b64_lines (drop 48 s))"
  by auto
termination by (relation "measure length") auto

declare b64_lines.simps [simp del]

definition b64_rest :: "byte list \<Rightarrow> byte list" where
  "b64_rest s = drop (48 * (length s div 48)) s"

definition b64_text :: "byte list \<Rightarrow> byte list" where
  "b64_text s = b64_lines s @ (if b64_rest s = [] then [] else base64 (b64_rest s) @ [0x0a])"

lemma b64_lines_short [simp]: "length s < 48 \<Longrightarrow> b64_lines s = []" "length s < 48 \<Longrightarrow> b64_rest s = s"
  by (simp_all add: b64_lines.simps b64_rest_def)

lemma b64_lines_long:
  "48 \<le> length s \<Longrightarrow> b64_lines s = base64 (take 48 s) @ 0x0a # b64_lines (drop 48 s)"
  "48 \<le> length s \<Longrightarrow> b64_rest s = b64_rest (drop 48 s)"
proof -
  assume l: "48 \<le> length s"
  show "b64_lines s = base64 (take 48 s) @ 0x0a # b64_lines (drop 48 s)" using l by (subst b64_lines.simps) simp
  have "length s div 48 = Suc ((length s - 48) div 48)" using l by (simp add: le_div_geq)
  then show "b64_rest s = b64_rest (drop 48 s)" by (simp add: b64_rest_def add.commute)
qed

lemma length_b64_rest: "length (b64_rest s) < 48"
proof -
  have "length s - 48 * (length s div 48) = length s mod 48" by (simp add: minus_mult_div_eq_mod)
  then show ?thesis by (simp add: b64_rest_def)
qed

lemma b64_lines_append:
  "b64_lines (s @ t) = b64_lines s @ b64_lines (b64_rest s @ t) \<and> b64_rest (s @ t) = b64_rest (b64_rest s @ t)"
proof (induction s rule: b64_lines.induct)
  case (1 s)
  then show ?case by (cases "length s < 48") (simp_all add: b64_lines_long)
qed

lemma encode_line_eq: "encode_line s = (base64 s @ [0x0a], length (base64 s) + 1)"
  by (simp add: encode_line_def EVP_EncodeBlock_def Let_def encode_block_loop_eq)

lemma encode_update_loop_eq:
  assumes "length out + length (b64_lines inp) < SIZE_MOD"
  shows "encode_update_loop out inp (length out) =
    ((out @ b64_lines inp, b64_rest inp, length out + length (b64_lines inp)), True)"
  using assms
proof (induction inp arbitrary: out rule: b64_lines.induct)
  case (1 inp)
  show ?case
  proof (cases "length inp < 48")
    case True
    then show ?thesis by (simp add: encode_update_loop.simps)
  next
    case False
    let ?l = "base64 (take 48 inp) @ [0x0a]"
    have l: "b64_lines inp = ?l @ b64_lines (drop 48 inp)" "b64_rest inp = b64_rest (drop 48 inp)"
      using False by (simp_all add: b64_lines_long)
    have a: "size_add (length out) (Suc (length (base64 (take 48 inp)))) = Suc (length out + length (base64 (take 48 inp)))"
      using 1(2) by (subst size_add_small) (simp_all add: l)
    have "encode_update_loop (out @ ?l) (drop 48 inp) (length (out @ ?l)) =
      ((out @ ?l @ b64_lines (drop 48 inp), b64_rest (drop 48 inp), length (out @ ?l) + length (b64_lines (drop 48 inp))), True)"
      using 1(1) [OF False, of "out @ ?l"] 1(2) by (simp add: l)
    then show ?thesis
      using False by (subst encode_update_loop.simps) (simp add: encode_line_eq a l)
  qed
qed

definition enc_ok :: "evp_encode_ctx \<Rightarrow> bool" where
  "enc_ok ctx \<longleftrightarrow> data_used ctx < 48 \<and> length (data ctx) = 48"

definition pending :: "evp_encode_ctx \<Rightarrow> byte list" where
  "pending ctx = take (data_used ctx) (data ctx)"

lemma EVP_EncodeUpdate_spec:
  assumes "enc_ok ctx" "length (b64_lines (pending ctx @ inp)) < SIZE_MOD"
    and "EVP_EncodeUpdate ctx inp = (ctx', out, n)"
  shows "out = b64_lines (pending ctx @ inp) \<and> pending ctx' = b64_rest (pending ctx @ inp) \<and> enc_ok ctx'
    \<and> n = (if length out > INT_MAX_nat then 0 else length out)"
proof -
  have ok: "data_used ctx < 48" "length (data ctx) = 48" using assms(1) by (auto simp: enc_ok_def)
  have lp: "length (pending ctx) = data_used ctx" using ok by (simp add: pending_def)
  consider "inp = []" | "inp \<noteq> []" "data_used ctx + length inp < 48" | "inp \<noteq> []" "48 \<le> data_used ctx + length inp"
    by linarith
  then show ?thesis
  proof cases
    case 1
    then show ?thesis using assms lp ok by (auto simp: EVP_EncodeUpdate_def)
  next
    case 2
    then have "48 - data_used ctx > length inp" by simp
    then have e: "ctx' = ctx\<lparr>data := pending ctx @ inp @ drop (data_used ctx + length inp) (data ctx),
        data_used := data_used ctx + length inp\<rparr>" "out = []" "n = 0"
      using 2 assms(3) by (auto simp: EVP_EncodeUpdate_def pending_def)
    show ?thesis using 2 ok lp by (simp add: e pending_def [of "ctx\<lparr>data := _, data_used := _\<rparr>"] enc_ok_def)
  next
    case 3
    let ?d = "48 - data_used ctx"
    have d: "\<not> ?d > length inp" using 3 by simp
    define ctx1 out1 inp1 where "ctx1 = (if data_used ctx \<noteq> 0 then ctx\<lparr>data := pending ctx @ take ?d inp, data_used := 0\<rparr> else ctx)"
      and "out1 = (if data_used ctx \<noteq> 0 then base64 (pending ctx @ take ?d inp) @ [0x0a] else [])"
      and "inp1 = (if data_used ctx \<noteq> 0 then drop ?d inp else inp)"
    have l: "b64_lines (pending ctx @ inp) = out1 @ b64_lines inp1" "b64_rest (pending ctx @ inp) = b64_rest inp1"
      using 3 lp ok by (simp_all add: b64_lines_long out1_def inp1_def) (simp add: pending_def)+
    have lo: "length out1 + length (b64_lines inp1) < SIZE_MOD" using assms(2) by (simp add: l)
    have len: "length (data ctx1) = 48" using ok lp 3 by (simp add: ctx1_def)
    have "EVP_EncodeUpdate ctx inp =
      (ctx1\<lparr>data := b64_rest inp1 @ drop (length (b64_rest inp1)) (data ctx1), data_used := length (b64_rest inp1)\<rparr>,
       out1 @ b64_lines inp1, let k = length (out1 @ b64_lines inp1) in if k > INT_MAX_nat then 0 else k)"
    proof (cases "data_used ctx = 0")
      case True
      then show ?thesis
        using 3(1) d encode_update_loop_eq [OF lo]
        by (simp add: EVP_EncodeUpdate_def ctx1_def out1_def inp1_def Let_def)
    next
      case False
      then show ?thesis
        using 3(1) d encode_update_loop_eq [OF lo]
        by (simp add: EVP_EncodeUpdate_def encode_line_eq ctx1_def out1_def inp1_def Let_def pending_def [symmetric])
    qed
    then have e: "ctx' = ctx1\<lparr>data := b64_rest inp1 @ drop (length (b64_rest inp1)) (data ctx1), data_used := length (b64_rest inp1)\<rparr>"
      "out = out1 @ b64_lines inp1" "n = (if length out > INT_MAX_nat then 0 else length out)"
      using assms(3) by (simp_all add: Let_def)
    show ?thesis
      using length_b64_rest [of inp1] len by (simp add: e l pending_def [of "ctx1\<lparr>data := _, data_used := _\<rparr>"] enc_ok_def)
  qed
qed

text \<open>A whole run of the encoder over a list of chunks; the outputs are concatenated.\<close>

fun encode_chunks :: "evp_encode_ctx \<Rightarrow> byte list list \<Rightarrow> byte list" where
  "encode_chunks ctx [] = (case EVP_EncodeFinal ctx of (ctx', out, n) \<Rightarrow> take n out)"
| "encode_chunks ctx (c # cs) = (case EVP_EncodeUpdate ctx c of (ctx', out, n) \<Rightarrow> take n out @ encode_chunks ctx' cs)"

lemma EVP_EncodeFinal_spec:
  assumes "enc_ok ctx" "EVP_EncodeFinal ctx = (ctx', out, n)"
  shows "take n out = (if pending ctx = [] then [] else base64 (pending ctx) @ [0x0a])"
proof -
  have "pending ctx = [] \<longleftrightarrow> data_used ctx = 0" using assms(1) by (auto simp: enc_ok_def pending_def)
  then show ?thesis
    using assms(2) by (auto simp: EVP_EncodeFinal_def encode_line_eq pending_def [symmetric] split: if_splits)
qed

lemma encode_chunks_eq:
  assumes "enc_ok ctx" "length (b64_lines (pending ctx @ concat cs)) \<le> INT_MAX_nat"
  shows "encode_chunks ctx cs = b64_lines (pending ctx @ concat cs) @
    (let r = b64_rest (pending ctx @ concat cs) in if r = [] then [] else base64 r @ [0x0a])"
  using assms
proof (induction cs arbitrary: ctx)
  case Nil
  have "length (pending ctx) < 48" using Nil(1) by (simp add: enc_ok_def pending_def)
  then show ?case
    using EVP_EncodeFinal_spec [OF Nil(1)] by (cases "EVP_EncodeFinal ctx") (simp add: Let_def)
next
  case (Cons c cs)
  obtain ctx' out n where u: "EVP_EncodeUpdate ctx c = (ctx', out, n)" by (cases "EVP_EncodeUpdate ctx c")
  have ap: "b64_lines (pending ctx @ c @ concat cs) = b64_lines (pending ctx @ c) @ b64_lines (b64_rest (pending ctx @ c) @ concat cs)"
    "b64_rest (pending ctx @ c @ concat cs) = b64_rest (b64_rest (pending ctx @ c) @ concat cs)"
    using b64_lines_append [of "pending ctx @ c" "concat cs"] by simp_all
  have le: "length (b64_lines (pending ctx @ c)) \<le> INT_MAX_nat" using Cons.prems(2) by (simp add: ap)
  then have "length (b64_lines (pending ctx @ c)) < SIZE_MOD" by (simp add: INT_MAX_nat_def SIZE_MOD_def)
  from EVP_EncodeUpdate_spec [OF Cons.prems(1) this u]
  have r: "out = b64_lines (pending ctx @ c)" "pending ctx' = b64_rest (pending ctx @ c)" "enc_ok ctx'" "n = length out"
    using le by auto
  show ?case using Cons.IH [OF r(3)] Cons.prems(2) by (simp add: u r ap Let_def)
qed

lemma encode_chunks_text:
  assumes "length (b64_lines (concat cs)) \<le> INT_MAX_nat"
  shows "encode_chunks EVP_EncodeInit cs = b64_text (concat cs)"
  using encode_chunks_eq [of EVP_EncodeInit cs] assms
  by (simp add: EVP_EncodeInit_def enc_ok_def pending_def b64_text_def Let_def)

text \<open>
  C8.  The streaming encoder does not depend on how its input is cut into calls: whatever the chunks,
  the digits written are those of the whole input in lines of 48 bytes, each ended by a newline.
\<close>

theorem encode_stream_chunks:
  assumes "length (b64_lines (concat cs)) \<le> INT_MAX_nat"
  shows "encode_chunks EVP_EncodeInit cs = b64_text (concat cs)"
  using assms by (rule encode_chunks_text)

theorem encode_stream_chunks_witness:
  "encode_chunks EVP_EncodeInit [[0x66], [0x6f, 0x6f], []] = [0x5a, 0x6d, 0x39, 0x76, 0x0a]"
proof -
  have "b64_text (concat [[0x66], [0x6f, 0x6f], []]) = [0x5a, 0x6d, 0x39, 0x76, 0x0a]"
    by (simp add: b64_text_def Let_def digit_eq digit_chain_def)
  then show ?thesis
    using encode_stream_chunks [of "[[0x66], [0x6f, 0x6f], []]"] by simp
qed

section \<open>The streaming decoder\<close>

text \<open>A run over two inputs is a run over their concatenation.\<close>

lemma decode_update_loop_append:
  "decode_update_loop ctx out (a @ b) = (case decode_update_loop ctx out a of
     (ctx', out', ok) \<Rightarrow> if ok then decode_update_loop ctx' out' b else (ctx', out', ok))"
  by (induction ctx out a rule: decode_update_loop.induct) (auto simp: Let_def split: option.split)

lemma decode_update_loop_filter:
  "decode_update_loop ctx out (filter (\<lambda>c. \<not> is_b64_space c) inp) = decode_update_loop ctx out inp"
  by (induction ctx out inp rule: decode_update_loop.induct) (auto simp: Let_def split: option.split)

lemma decode_update_loop_out:
  "decode_update_loop ctx (o1 @ o2) inp = apsnd (apfst (\<lambda>o'. o1 @ o')) (decode_update_loop ctx o2 inp)"
  by (induction ctx o2 inp rule: decode_update_loop.induct) (auto simp: Let_def split: option.split)

lemma decode_update_loop_error:
  "decode_update_loop ctx out inp = (ctx', o', True) \<Longrightarrow> error_encountered ctx' = error_encountered ctx"
  by (induction ctx out inp rule: decode_update_loop.induct) (auto simp: Let_def split: option.splits if_splits)

lemma quad_length: "base64_decode_quad a b c d = Some bs \<Longrightarrow> length bs \<le> 3"
  by (auto simp: decode_quad_eq Let_def bytes3_def split: if_splits)

lemma decode_update_loop_length:
  "length (fst (snd (decode_update_loop ctx out inp))) \<le> length out + 3 * length inp"
proof (induction inp arbitrary: ctx out)
  case (Cons c inp)
  have s: "length (fst (snd (decode_update_loop ctx1 (out @ bs) inp))) \<le> length out + (3 + 3 * length inp)"
    if "base64_decode_quad x y z w = Some bs" for ctx1 bs x y z w
    using Cons [of ctx1 "out @ bs"] quad_length [OF that] by simp
  have t: "length (fst (snd (decode_update_loop ctx1 out inp))) \<le> length out + (3 + 3 * length inp)" for ctx1
    using Cons [of ctx1 out] by simp
  show ?case using s t by (auto simp: Let_def split: option.split)
qed simp

text \<open>The decoder that starts on a boundary, against the one for a whole buffer.\<close>

definition dec_ok :: "evp_encode_ctx \<Rightarrow> bool" where
  "dec_ok ctx \<longleftrightarrow> length (data ctx) = 48 \<and> data_used ctx = 0 \<and> \<not> eof_seen ctx \<and> \<not> error_encountered ctx"

lemma decode_update_quad:
  assumes "dec_ok ctx" "\<forall>x \<in> {a, b, c, d}. \<not> is_b64_space x"
  shows "decode_update_loop ctx out (a # b # c # d # inp) =
    (let ctx1 = ctx\<lparr>data := (data ctx)[0 := a, 1 := b, 2 := c, 3 := d], data_used := 4\<rparr> in
     case base64_decode_quad a b c d of
       None \<Rightarrow> (ctx1\<lparr>error_encountered := True\<rparr>, out, False)
     | Some bs \<Rightarrow> decode_update_loop (let ctx2 = ctx1\<lparr>data_used := 0\<rparr> in if length bs < 3 then ctx2\<lparr>eof_seen := True\<rparr> else ctx2) (out @ bs) inp)"
proof -
  have l: "length (data ctx) = 48" and u: "data_used ctx = 0" "\<not> eof_seen ctx" using assms(1) by (auto simp: dec_ok_def)
  show ?thesis
    using assms(2) l u by (auto simp: Let_def numeral_eq_Suc split: option.split)
qed

definition accepted :: "evp_encode_ctx \<times> byte list \<times> bool \<Rightarrow> byte list option" where
  "accepted r = (case r of (ctx, out, ok) \<Rightarrow> if ok \<and> data_used ctx = 0 then Some out else None)"

lemma decode_loops:
  assumes "dec_ok ctx" "\<forall>x \<in> set inp. \<not> is_b64_space x"
  shows "accepted (decode_update_loop ctx out inp) = decode_base64_loop out inp"
  using assms
proof (induction out inp arbitrary: ctx rule: decode_base64_loop.induct)
  case (1 out)
  then show ?case by (simp add: accepted_def dec_ok_def)
next
  case (2 out a b c d inp)
  note q = decode_update_quad [OF 2(2), of a b c d out inp]
  show ?case
  proof (cases "base64_decode_quad a b c d")
    case None
    then show ?thesis using q 2(3) by (simp add: accepted_def Let_def)
  next
    case (Some bs)
    define ctx2 where "ctx2 = ctx\<lparr>data := (data ctx)[0 := a, 1 := b, 2 := c, 3 := d], data_used := 0\<rparr>"
    have e: "decode_update_loop ctx out (a # b # c # d # inp) =
      decode_update_loop (if length bs < 3 then ctx2\<lparr>eof_seen := True\<rparr> else ctx2) (out @ bs) inp"
      using q 2(3) Some by (simp add: Let_def ctx2_def)
    have ok: "dec_ok ctx2" using 2(2) by (simp add: dec_ok_def ctx2_def)
    have le: "length bs \<le> 3" by (rule quad_length [OF Some])
    consider "length bs = 3" | "length bs < 3" "inp = []" | "length bs < 3" "inp \<noteq> []" using le by linarith
    then show ?thesis
    proof cases
      case 1
      then show ?thesis unfolding e using 2(1) [OF Some _ ok] 2(3) by (simp add: Some)
    next
      case 2
      then show ?thesis unfolding e using Some by (simp add: accepted_def ctx2_def)
    next
      case 3
      then show ?thesis unfolding e using Some 2(3) by (cases inp) (auto simp: accepted_def)
    qed
  qed
qed (auto simp: accepted_def dec_ok_def Let_def)

text \<open>
  A whole run of the decoder: the calls stop at the first error; the outputs are concatenated.
\<close>

fun decode_chunks :: "evp_encode_ctx \<Rightarrow> byte list list \<Rightarrow> evp_encode_ctx \<times> byte list \<times> bool" where
  "decode_chunks ctx [] = (ctx, [], True)"
| "decode_chunks ctx (c # cs) = (case EVP_DecodeUpdate ctx c of
     (ctx1, out, n, ret) \<Rightarrow>
       if ret < 0 then (ctx1, out, False)
       else (case decode_chunks ctx1 cs of (ctx2, out2, ok) \<Rightarrow> (ctx2, take n out @ out2, ok)))"

definition decode_stream :: "byte list list \<Rightarrow> byte list option" where
  "decode_stream cs = (case decode_chunks EVP_DecodeInit cs of
     (ctx, out, ok) \<Rightarrow> if ok \<and> EVP_DecodeFinal ctx = 1 then Some out else None)"

lemma decode_chunks_eq:
  assumes "\<not> error_encountered ctx" "3 * length (concat cs) \<le> INT_MAX_nat"
  shows "decode_chunks ctx cs = decode_update_loop ctx [] (concat cs)"
  using assms
proof (induction cs arbitrary: ctx)
  case (Cons c cs)
  obtain ctx1 o1 ok where u: "decode_update_loop ctx [] c = (ctx1, o1, ok)" by (cases "decode_update_loop ctx [] c")
  have "length o1 \<le> 3 * length c" using decode_update_loop_length [of ctx "[]" c] by (simp add: u)
  then have l: "length o1 \<le> INT_MAX_nat" using Cons.prems(2) by simp
  show ?case
  proof (cases ok)
    case False
    then show ?thesis using Cons.prems u by (simp add: EVP_DecodeUpdate_def decode_update_loop_append)
  next
    case True
    then have ne: "\<not> error_encountered ctx1" using decode_update_loop_error [of ctx "[]" c ctx1 o1] u Cons.prems(1) by simp
    have "decode_update_loop ctx [] (concat (c # cs)) = apsnd (apfst (\<lambda>o'. o1 @ o')) (decode_update_loop ctx1 [] (concat cs))"
      using True u decode_update_loop_out [of ctx1 o1 "[]"] by (simp add: decode_update_loop_append)
    also have "\<dots> = apsnd (apfst (\<lambda>o'. o1 @ o')) (decode_chunks ctx1 cs)"
      using Cons.IH [OF ne] Cons.prems(2) by simp
    also have "\<dots> = decode_chunks ctx (c # cs)"
      using Cons.prems(1) u True l by (auto simp: EVP_DecodeUpdate_def split: prod.split)
    finally show ?thesis by simp
  qed
qed simp

lemma decode_stream_eq:
  assumes "3 * length (concat cs) \<le> INT_MAX_nat"
  shows "decode_stream cs = EVP_DecodeBase64 INT_MAX_nat (filter (\<lambda>c. \<not> is_b64_space c) (concat cs))"
proof -
  let ?s = "filter (\<lambda>c. \<not> is_b64_space c) (concat cs)"
  have ok: "dec_ok EVP_DecodeInit" by (simp add: dec_ok_def EVP_DecodeInit_def)
  obtain ctx out k where r: "decode_update_loop EVP_DecodeInit [] (concat cs) = (ctx, out, k)"
    by (cases "decode_update_loop EVP_DecodeInit [] (concat cs)")
  have e: "k \<Longrightarrow> \<not> error_encountered ctx"
    using decode_update_loop_error [of EVP_DecodeInit "[]" "concat cs" ctx out] r ok by (auto simp: dec_ok_def)
  have "decode_chunks EVP_DecodeInit cs = (ctx, out, k)"
    using decode_chunks_eq [OF _ assms, of EVP_DecodeInit] ok r by (simp add: dec_ok_def)
  then have "decode_stream cs = accepted (decode_update_loop EVP_DecodeInit [] (concat cs))"
    using e by (auto simp: decode_stream_def accepted_def r EVP_DecodeFinal_def)
  also have "\<dots> = accepted (decode_update_loop EVP_DecodeInit [] ?s)" by (simp only: decode_update_loop_filter)
  also have "\<dots> = decode_base64_loop [] ?s" by (rule decode_loops [OF ok]) simp
  also have "\<dots> = EVP_DecodeBase64 INT_MAX_nat ?s"
  proof -
    have "length ?s \<le> length (concat cs)" by (rule length_filter_le)
    then have "length ?s div 4 * 3 \<le> INT_MAX_nat" using assms div_times_less_eq_dividend [of "length ?s" 4] by linarith
    moreover have "decode_base64_loop out s = None" if "length s mod 4 \<noteq> 0" for out s
      using that by (induction out s rule: decode_base64_loop.induct) (auto split: option.split)
    ultimately show ?thesis by (auto simp: EVP_DecodeBase64_def EVP_DecodedLength_def)
  qed
  finally show ?thesis .
qed

text \<open>
  The streaming decoder, over any chunks, and the decoder of a whole buffer agree: white space
  left out, a run ends in success with some bytes exactly when the buffer decoder returns them.
\<close>

theorem decode_stream_whole:
  assumes "3 * length (concat cs) \<le> INT_MAX_nat"
  shows "decode_stream cs = EVP_DecodeBase64 INT_MAX_nat (filter (\<lambda>c. \<not> is_b64_space c) (concat cs))"
  using assms by (rule decode_stream_eq)

theorem decode_stream_whole_witness:
  "decode_stream [[0x5a, 0x6d], [0x0a, 0x39], [], [0x76, 0x0a]] =
   EVP_DecodeBase64 INT_MAX_nat [0x5a, 0x6d, 0x39, 0x76]"
  using decode_stream_whole [of "[[0x5a, 0x6d], [0x0a, 0x39], [], [0x76, 0x0a]]"]
  by (simp add: INT_MAX_nat_def is_b64_space_def)

section \<open>What the encoding promises\<close>

text \<open>
  The block encoder, branch-free digit by digit, writes the encoding of RFC 4648: the digits of
  the 24-bit groups, padded with equals signs, then a NUL; it returns the number of digits, four
  for every three bytes begun.
\<close>

theorem encode_block_rfc4648:
  "EVP_EncodeBlock src = (base64 src @ [0], length (base64 src))
   \<and> length (base64 src) = (length src + 2) div 3 * 4"
  by (simp add: EVP_EncodeBlock_def Let_def encode_block_loop_eq length_base64)

lemma length_base64_mod: "length (base64 s) mod 4 = 0" "length (base64 s) div 4 * 3 = (length s + 2) div 3 * 3"
  by (simp_all add: length_base64)

text \<open>
  The encoding of a sequence cut at a multiple of three bytes.
\<close>

lemma base64_append: "length s mod 3 = 0 \<Longrightarrow> base64 (s @ t) = base64 s @ base64 t"
  by (induction s rule: base64.induct) (simp_all add: Let_def)

lemma digit_not_space: "n < 64 \<Longrightarrow> \<not> is_b64_space (digit n)"
proof -
  assume n: "n < 64"
  then have "unat (digit n) = n_digit n" using unat_digit_chain [of "word_of_nat n"] by (simp add: digit_eq unat_byte_of_nat)
  then show ?thesis using n by (auto simp: is_b64_space_def byte_eq_unat n_digit_def split: if_splits)
qed

lemma base64_not_space: "c \<in> set (base64 s) \<Longrightarrow> \<not> is_b64_space c"
proof (induction s rule: base64.induct)
  case (2 a)
  have "unat a * 65536 < 16777216" using group_bound [of a 0 0] by simp
  from top_digit(2) [OF this] show ?case using 2 digit_not_space by (auto simp: Let_def is_b64_space_def)
next
  case (3 a b)
  have "unat a * 65536 + unat b * 256 < 16777216" using group_bound [of a b 0] by simp
  from top_digit(2) [OF this] show ?case using 3 digit_not_space by (auto simp: Let_def is_b64_space_def)
next
  case (4 a b c r)
  from top_digit(2) [OF group_bound [of a b c]] show ?case using 4 digit_not_space by (auto simp: Let_def)
qed simp

lemma filter_b64_text: "filter (\<lambda>c. \<not> is_b64_space c) (b64_text s) = base64 s"
proof -
  have f: "filter (\<lambda>c. \<not> is_b64_space c) (base64 t) = base64 t" for t
    using base64_not_space by (simp add: filter_id_conv)
  have n: "is_b64_space 0x0a" by (simp add: is_b64_space_def)
  have "filter (\<lambda>c. \<not> is_b64_space c) (b64_lines s) @ base64 (b64_rest s) = base64 s"
  proof (induction s rule: b64_lines.induct)
    case (1 s)
    show ?case
    proof (cases "length s < 48")
      case False
      then have "base64 s = base64 (take 48 s) @ base64 (drop 48 s)"
        using base64_append [of "take 48 s" "drop 48 s"] by simp
      then show ?thesis using 1 False by (simp add: b64_lines_long f n)
    qed simp
  qed
  then show ?thesis by (auto simp: b64_text_def f n)
qed

lemma DecodeBase64_base64:
  "(length src + 2) div 3 * 3 \<le> max_out \<Longrightarrow> EVP_DecodeBase64 max_out (base64 src) = Some src"
  using decode_base64_loop_encode [of "[]" src]
  by (simp add: EVP_DecodeBase64_def EVP_DecodedLength_def length_base64_mod)

text \<open>
  C33.  Decoding inverts encoding: the buffer decoder returns the bytes that were encoded whenever
  there is room for the decoded length, and the block decoder returns them filled up with zeros to
  a multiple of three.
\<close>

theorem base64_roundtrip:
  assumes "EVP_EncodeBlock src = (dst, n)" "(length src + 2) div 3 * 3 \<le> INT_MAX_nat"
  shows "EVP_DecodeBase64 ((length src + 2) div 3 * 3) (take n dst) = Some src
    \<and> EVP_DecodeBlock (take n dst) = Some (src @ replicate ((3 - length src mod 3) mod 3) 0)"
proof -
  have e: "take n dst = base64 src"
    using assms(1) by (auto simp: EVP_EncodeBlock_def Let_def encode_block_loop_eq)
  have "dropWhile (\<lambda>c. c = 0x20 \<or> c = 0x09) (base64 src) = base64 src"
    using base64_not_space [of "hd (base64 src)" src] hd_in_set [of "base64 src"]
    unfolding dropWhile_eq_self_iff is_b64_space_def by blast
  moreover have "dropWhile is_b64_space (rev (base64 src)) = rev (base64 src)"
    using base64_not_space [of "last (base64 src)" src] last_in_set [of "base64 src"]
    unfolding dropWhile_eq_self_iff hd_rev by auto
  ultimately have "EVP_DecodeBlock (base64 src) = Some (src @ replicate ((3 - length src mod 3) mod 3) 0)"
    using assms(2) DecodeBase64_base64 [of src, OF order_refl]
    by (simp add: EVP_DecodeBlock_def EVP_DecodedLength_def length_base64_mod Let_def)
  then show ?thesis using DecodeBase64_base64 [of src, OF order_refl] by (simp add: e)
qed

theorem base64_roundtrip_witness:
  "EVP_DecodeBase64 6 [0x5a, 0x6d, 0x39, 0x76, 0x59, 0x67, 0x3d, 0x3d] = Some [0x66, 0x6f, 0x6f, 0x62]"
proof -
  have "EVP_EncodeBlock [0x66, 0x6f, 0x6f, 0x62] = ([0x5a, 0x6d, 0x39, 0x76, 0x59, 0x67, 0x3d, 0x3d, 0], 8)"
    by (simp add: EVP_EncodeBlock_def encode_block_loop_eq Let_def digit_eq digit_chain_def)
  from base64_roundtrip [OF this] show ?thesis by (simp add: INT_MAX_nat_def)
qed

text \<open>
  What the streaming encoder writes, in whatever chunks, the streaming decoder reads back, in
  whatever chunks.
\<close>

theorem base64_stream_roundtrip:
  assumes "concat ds = encode_chunks EVP_EncodeInit cs" "3 * length (concat ds) \<le> INT_MAX_nat"
    "length (b64_lines (concat cs)) \<le> INT_MAX_nat"
  shows "decode_stream ds = Some (concat cs)"
proof -
  let ?s = "concat cs"
  have t: "concat ds = b64_text ?s" using assms(1,3) by (simp add: encode_chunks_text)
  have "length (base64 ?s) \<le> length (b64_text ?s)"
    using length_filter_le [of "\<lambda>c. \<not> is_b64_space c" "b64_text ?s"] by (simp add: filter_b64_text)
  then have "3 * ((length ?s + 2) div 3 * 4) \<le> INT_MAX_nat" using assms(2) by (simp add: t length_base64)
  then have "EVP_DecodeBase64 INT_MAX_nat (base64 ?s) = Some ?s" by (intro DecodeBase64_base64) simp
  then show ?thesis using decode_stream_eq [OF assms(2)] by (simp add: t filter_b64_text)
qed

theorem base64_stream_roundtrip_witness:
  "decode_stream [[0x5a, 0x6d], [0x39], [0x76, 0x0a]] = Some [0x66, 0x6f, 0x6f]"
proof -
  have "b64_text [0x66, 0x6f, 0x6f] = [0x5a, 0x6d, 0x39, 0x76, 0x0a]"
    by (simp add: b64_text_def Let_def digit_eq digit_chain_def)
  moreover have "encode_chunks EVP_EncodeInit [[0x66, 0x6f, 0x6f]] = b64_text [0x66, 0x6f, 0x6f]"
    using encode_chunks_text [of "[[0x66, 0x6f, 0x6f]]"] by simp
  ultimately show ?thesis
    using base64_stream_roundtrip [of "[[0x5a, 0x6d], [0x39], [0x76, 0x0a]]" "[[0x66, 0x6f, 0x6f]]"]
    by (simp add: INT_MAX_nat_def)
qed

lemma EncodedLength_eq:
  "EVP_EncodedLength len =
     (let n = (unat len + 2) div 3 * 4 + 1 in if n < 2 ^ 64 then Some (word_of_nat n) else None)"
proof (cases "unat len + 2 < 18446744073709551616")
  case False
  define N where "N = unat len"
  have N: "N < 18446744073709551616" "18446744073709551614 \<le> N" using False by (simp_all add: N_def)
  have "len + 2 < len" using N unfolding word_less_nat_alt by (simp add: unat_plus_if' N_def)
  moreover have "\<not> (N + 2) div 3 * 4 + 1 < 18446744073709551616"
    using div_le_mono [of 18446744073709551616 "N + 2" 3] N by simp
  ultimately show ?thesis by (simp add: EVP_EncodedLength_def Let_def N_def)
next
  case True
  define M where "M = (unat len + 2) div 3"
  have u2: "unat (len + 2) = unat len + 2" using True by (simp add: unat_plus_if')
  then have nl: "\<not> len + 2 < len" by (simp add: word_less_nat_alt)
  have m: "unat ((len + 2) div 3) = M" by (simp add: unat_div u2 M_def)
  have Mb: "M < 6148914691236517206" using True unfolding M_def by (simp add: div_less_iff_less_mult)
  define w where "w = (len + 2) div 3"
  have p: "unat (push_bit 2 w) = (if M * 4 < 18446744073709551616 then M * 4 else M * 4 - 18446744073709551616)"
  proof -
    have "unat (push_bit 2 w) = M * 4 mod 18446744073709551616"
      using m by (simp only: push_bit_eq_mult unat_word_ariths w_def [symmetric]) simp
    then show ?thesis using Mb by (simp add: mod_if)
  qed
  have c: "drop_bit 2 (push_bit 2 w) = w \<longleftrightarrow> M * 4 < 18446744073709551616"
  proof -
    have "unat (drop_bit 2 (push_bit 2 w)) = unat (push_bit 2 w) div 4" by (simp only: unat_drop_bit_div) simp
    then show ?thesis using m Mb by (auto simp: word_unat_eq_iff p w_def [symmetric])
  qed
  have f: "(if len + 2 < len then None
      else if drop_bit 2 (push_bit 2 w) \<noteq> w then None
        else if push_bit 2 w + 1 < push_bit 2 w then None else Some (push_bit 2 w + 1)) = EVP_EncodedLength len"
    by (simp only: EVP_EncodedLength_def Let_def w_def)
  show ?thesis
  proof (cases "M * 4 < 18446744073709551616")
    case True
    have o: "M * 4 + 1 < 18446744073709551616" using True by presburger
    have k: "unat (push_bit 2 w + 1) = M * 4 + 1" using o True by (simp add: unat_plus_if' p)
    then have "\<not> push_bit 2 w + 1 < push_bit 2 w" using True by (simp add: word_less_nat_alt p)
    moreover have "push_bit 2 w + 1 = word_of_nat (M * 4 + 1)"
      using o by (simp only: word_unat_eq_iff k unat_of_nat) simp
    moreover have "M * 4 + 1 < 2 ^ 64" using o by simp
    ultimately show ?thesis
      unfolding Let_def M_def [symmetric] f [symmetric] using nl c True by (simp only: if_True if_False not_True_eq_False)
  next
    case False
    then have "\<not> M * 4 + 1 < 2 ^ 64" by simp
    then show ?thesis
      unfolding Let_def M_def [symmetric] f [symmetric] using nl c False by (simp only: if_True if_False not_False_eq_True)
  qed
qed

text \<open>
  The size that the encoder announces is exact: it is the number of bytes the block encoder
  writes, its NUL included, and it is refused exactly when it does not fit into 64 bits.
\<close>

theorem encoded_length_exact:
  assumes "length src < 2 ^ 64"
  shows "EVP_EncodedLength (word_of_nat (length src)) =
     (let n = length (fst (EVP_EncodeBlock src)) in if n < 2 ^ 64 then Some (word_of_nat n) else None)"
proof -
  have "length (fst (EVP_EncodeBlock src)) = (length src + 2) div 3 * 4 + 1"
    by (simp add: EVP_EncodeBlock_def Let_def encode_block_loop_eq length_base64)
  then show ?thesis
    using EncodedLength_eq [of "word_of_nat (length src)"] assms by (simp add: unat_of_nat)
qed

theorem encoded_length_exact_witness:
  "EVP_EncodedLength 4 = Some 9"
proof -
  have "length (fst (EVP_EncodeBlock [0, 0, 0, 0])) = 9"
    by (simp add: EVP_EncodeBlock_def Let_def encode_block_loop_eq)
  then show ?thesis using encoded_length_exact [of "[0, 0, 0, 0]"] by simp
qed

section \<open>What the decoders accept\<close>

lemma length_alphabet: "length b64_alphabet = 64"
  by (simp add: b64_alphabet_def)

lemma alphabet_iff: "c \<in> set b64_alphabet \<longleftrightarrow> base64_ascii_to_bin c \<noteq> 0xff \<and> c \<noteq> 0x3d"
proof
  assume "c \<in> set b64_alphabet"
  then obtain n where "n < 64" "c = digit n" by (auto simp: in_set_conv_nth digit_def length_alphabet)
  then show "base64_ascii_to_bin c \<noteq> 0xff \<and> c \<noteq> 0x3d" using b64_digit_value ascii_to_bin_digit(2) by simp
next
  assume c: "base64_ascii_to_bin c \<noteq> 0xff \<and> c \<noteq> 0x3d"
  then have "c = b64_alphabet ! unat (base64_ascii_to_bin c)" using value_digit [of c] by (simp add: digit_def)
  moreover have "unat (base64_ascii_to_bin c) < length b64_alphabet" using value_small c by (simp add: length_alphabet)
  ultimately show "c \<in> set b64_alphabet" by (metis nth_mem)
qed

text \<open>Digits, then at most two equals signs.\<close>

definition b64_shape :: "byte list \<Rightarrow> bool" where
  "b64_shape s \<longleftrightarrow> dropWhile (\<lambda>c. c \<in> set b64_alphabet) s \<in> {[], [0x3d], [0x3d, 0x3d]}"

lemma pad_not_digit [simp]: "0x3d \<notin> set b64_alphabet"
  by (simp add: alphabet_iff)

lemma bin_invalid: "base64_ascii_to_bin c = 0xff \<longleftrightarrow> c \<notin> set b64_alphabet \<and> c \<noteq> 0x3d"
  by (cases "c = 0x3d") (simp_all add: alphabet_iff)

lemma decode_quad_accepts:
  "base64_decode_quad a b c d \<noteq> None \<longleftrightarrow> b64_shape [a, b, c, d]"
  by (cases "a \<in> set b64_alphabet"; cases "b \<in> set b64_alphabet"; cases "c \<in> set b64_alphabet"; cases "d \<in> set b64_alphabet")
    (auto simp: decode_quad_eq Let_def bin_invalid b64_shape_def)

lemma decode_quad_full:
  "base64_decode_quad a b c d = Some bs \<Longrightarrow> length bs = 3 \<longleftrightarrow> {a, b, c, d} \<subseteq> set b64_alphabet"
  by (auto simp: decode_quad_eq Let_def bin_invalid bytes3_def split: if_splits)

lemma shape_long:
  assumes "\<not> {a, b, c, d} \<subseteq> set b64_alphabet" "r \<noteq> []" "length r mod 4 = 0"
  shows "\<not> b64_shape (a # b # c # d # r)"
proof -
  let ?d = "dropWhile (\<lambda>c. c \<in> set b64_alphabet) (a # b # c # d # r)"
  have "4 \<le> length r" using assms(2,3) by (cases "length r < 4") auto
  then have "5 \<le> length ?d" using assms(1) by (auto split: if_splits)
  then have "D \<notin> {[], [0x3d], [0x3d, 0x3d]}" if "D = ?d" for D unfolding that [symmetric] by auto
  then show ?thesis by (simp only: b64_shape_def not_False_eq_True)
qed

lemma decode_base64_loop_accepts:
  "decode_base64_loop out s \<noteq> None \<longleftrightarrow> length s mod 4 = 0 \<and> b64_shape s"
proof (induction out s rule: decode_base64_loop.induct)
  case (1 out)
  then show ?case by (simp add: b64_shape_def)
next
  case (2 out a b c d r)
  have m: "length (a # b # c # d # r) mod 4 = length r mod 4" by simp
  have four: "b64_shape [a, b, c, d]" if "{a, b, c, d} \<subseteq> set b64_alphabet"
    using that by (simp add: b64_shape_def)
  show ?case
  proof (cases "base64_decode_quad a b c d")
    case None
    then have n: "\<not> b64_shape [a, b, c, d]" using decode_quad_accepts by blast
    then have "\<not> {a, b, c, d} \<subseteq> set b64_alphabet" using four by blast
    then have "\<not> (length r mod 4 = 0 \<and> b64_shape (a # b # c # d # r))" using n shape_long by (cases "r = []") metis+
    then show ?thesis using None m by (simp only: decode_base64_loop.simps option.case) simp
  next
    case (Some bs)
    then have q: "b64_shape [a, b, c, d]" using decode_quad_accepts [of a b c d] by blast
    show ?thesis
    proof (cases "length bs = 3")
      case True
      then have "{a, b, c, d} \<subseteq> set b64_alphabet" using decode_quad_full [OF Some] by blast
      then have "b64_shape (a # b # c # d # r) = b64_shape r" by (simp add: b64_shape_def)
      then show ?thesis using 2 [OF Some] True m Some by (simp only: decode_base64_loop.simps option.case) simp
    next
      case False
      then have n: "\<not> {a, b, c, d} \<subseteq> set b64_alphabet" using decode_quad_full [OF Some] by blast
      show ?thesis
      proof (cases "r = []")
        case True
        then show ?thesis using q Some by simp
      next
        case r: False
        then have "decode_base64_loop out (a # b # c # d # r) = None" using False Some by simp
        then show ?thesis using shape_long [OF n r] m by metis
      qed
    qed
  qed
qed simp_all

text \<open>
  C34.  The buffer decoder accepts exactly the texts whose length is a multiple of four, whose
  decoded length fits into the given room, and which are digits of the alphabet followed by at
  most two equals signs.
\<close>

theorem decode_base64_accepts:
  "EVP_DecodeBase64 max_out s \<noteq> None \<longleftrightarrow>
   length s mod 4 = 0 \<and> length s div 4 * 3 \<le> max_out \<and> b64_shape s"
  using decode_base64_loop_accepts [of "[]" s]
  by (auto simp: EVP_DecodeBase64_def EVP_DecodedLength_def)

end
