(* ===== verification/Stack.thy ===== *)
theory Stack
  imports CbbSet "HOL-Library.Multiset"
begin

text \<open>
  The growing array of pointers (\<^verbatim>\<open>crypto/stack/stack.c\<close>).  A \<^verbatim>\<open>void *\<close> is an optional value, \<open>None\<close> for
  NULL, and so is a pointer to a stack.  \<^verbatim>\<open>data\<close> is a list of \<^verbatim>\<open>num_alloc\<close> slots, of which the first
  \<^verbatim>\<open>num\<close> are in use; the slots that \<^verbatim>\<open>realloc\<close> adds hold NULL in the model (their contents are
  undefined in C and are never read).  Comparison functions are values of a type of their own that
  \<^verbatim>\<open>call_cmp_func\<close> applies.  A stack of \<^verbatim>\<open>num\<close> pointers stands for a list of that length.

  The operations are shown to be those of lists, the heap sort to sort, and the two searches to
  find the first match.
\<close>

section \<open>The code\<close>

type_synonym 'a ptr = "'a option"

record ('a, 'c) stack_st =
  num :: nat
  sk_data :: "'a ptr list"
  sorted_flag :: bool
  num_alloc :: nat
  sk_comp :: "'c option"

type_synonym ('a, 'c) sk = "('a, 'c) stack_st option"
type_synonym ('a, 'c) call_cmp_func = "'c \<Rightarrow> 'a ptr \<Rightarrow> 'a ptr \<Rightarrow> int"

definition kMinSize :: nat where "kMinSize = 4"

definition PTR_SIZE :: nat where "PTR_SIZE = 8"

text \<open>The size of a \<^verbatim>\<open>struct stack_st\<close> on a 64-bit target.\<close>

definition STACK_SIZE :: nat where "STACK_SIZE = 40"

definition OPENSSL_sk_new :: "allocator \<Rightarrow> 'c option \<Rightarrow> ('a, 'c) sk" where
  "OPENSSL_sk_new al cf =
     (if \<not> al STACK_SIZE then None
      else if \<not> al (kMinSize * PTR_SIZE) then None
      else Some \<lparr>num = 0, sk_data = replicate kMinSize None, sorted_flag = False, num_alloc = kMinSize, sk_comp = cf\<rparr>)"

definition OPENSSL_sk_new_null :: "allocator \<Rightarrow> ('a, 'c) sk" where
  "OPENSSL_sk_new_null al = OPENSSL_sk_new al None"

definition OPENSSL_sk_num :: "('a, 'c) sk \<Rightarrow> nat" where
  "OPENSSL_sk_num sk = (case sk of None \<Rightarrow> 0 | Some s \<Rightarrow> num s)"

definition OPENSSL_sk_zero :: "('a, 'c) sk \<Rightarrow> ('a, 'c) sk" where
  "OPENSSL_sk_zero sk = (case sk of
     None \<Rightarrow> None
   | Some s \<Rightarrow> if num s = 0 then Some s
       else Some (s\<lparr>sk_data := replicate (num s) None @ drop (num s) (sk_data s), num := 0, sorted_flag := False\<rparr>))"

definition OPENSSL_sk_value :: "('a, 'c) sk \<Rightarrow> nat \<Rightarrow> 'a ptr" where
  "OPENSSL_sk_value sk i = (case sk of
     None \<Rightarrow> None
   | Some s \<Rightarrow> if i \<ge> num s then None else sk_data s ! i)"

definition OPENSSL_sk_set :: "('a, 'c) sk \<Rightarrow> nat \<Rightarrow> 'a ptr \<Rightarrow> 'a ptr \<times> ('a, 'c) sk" where
  "OPENSSL_sk_set sk i value = (case sk of
     None \<Rightarrow> (None, None)
   | Some s \<Rightarrow> if i \<ge> num s then (None, Some s)
       else (value, Some (s\<lparr>sk_data := (sk_data s)[i := value]\<rparr>)))"

text \<open>The pointers that are handed to the free callback, in order.\<close>

definition OPENSSL_sk_pop_free_ex :: "('a, 'c) sk \<Rightarrow> 'a list" where
  "OPENSSL_sk_pop_free_ex sk = (case sk of
     None \<Rightarrow> []
   | Some s \<Rightarrow> map the (filter (\<lambda>p. p \<noteq> None) (take (num s) (sk_data s))))"

definition OPENSSL_sk_insert :: "allocator \<Rightarrow> ('a, 'c) sk \<Rightarrow> 'a ptr \<Rightarrow> nat \<Rightarrow> nat \<times> ('a, 'c) sk" where
  "OPENSSL_sk_insert al sk p where = (case sk of
     None \<Rightarrow> (0, None)
   | Some s \<Rightarrow>
       if num s \<ge> 2147483647 then (0, Some s)
       else
         let grown =
               (if num_alloc s \<le> num s + 1 then
                  let new_alloc = num_alloc s * 2 mod SIZE_MOD;
                      alloc_size = new_alloc * PTR_SIZE mod SIZE_MOD;
                      (new_alloc, alloc_size) =
                        (if new_alloc < num_alloc s \<or> alloc_size div PTR_SIZE \<noteq> new_alloc then
                           let new_alloc = size_add (num_alloc s) 1 in (new_alloc, new_alloc * PTR_SIZE mod SIZE_MOD)
                         else (new_alloc, alloc_size))
                  in if new_alloc < num_alloc s \<or> alloc_size div PTR_SIZE \<noteq> new_alloc then None
                     else if \<not> al alloc_size then None
                     else Some (s\<lparr>sk_data := sk_data s @ replicate (new_alloc - num_alloc s) None, num_alloc := new_alloc\<rparr>)
                else Some s)
         in case grown of
              None \<Rightarrow> (0, Some s)
            | Some s \<Rightarrow>
                let dat = (if where \<ge> num s then (sk_data s)[num s := p]
                           else take where (sk_data s) @ p # take (num s - where) (drop where (sk_data s))
                             @ drop (num s + 1) (sk_data s))
                in (num s + 1, Some (s\<lparr>sk_data := dat, num := num s + 1, sorted_flag := False\<rparr>)))"

definition OPENSSL_sk_delete :: "('a, 'c) sk \<Rightarrow> nat \<Rightarrow> 'a ptr \<times> ('a, 'c) sk" where
  "OPENSSL_sk_delete sk where = (case sk of
     None \<Rightarrow> (None, None)
   | Some s \<Rightarrow>
       if where \<ge> num s then (None, Some s)
       else
         let ret = sk_data s ! where;
             dat = (if where \<noteq> num s - 1
                    then take where (sk_data s) @ take (num s - where - 1) (drop (where + 1) (sk_data s))
                      @ drop (num s - 1) (sk_data s)
                    else sk_data s)
         in (ret, Some (s\<lparr>sk_data := dat, num := num s - 1\<rparr>)))"

text \<open>The first index below \<open>n\<close>, from \<open>i\<close> on, whose pointer satisfies a test.\<close>

function scan :: "('a ptr \<Rightarrow> bool) \<Rightarrow> 'a ptr list \<Rightarrow> nat \<Rightarrow> nat \<Rightarrow> nat option" where
  "scan q dat n i = (if i < n then if q (dat ! i) then Some i else scan q dat n (i + 1) else None)"
  by auto
termination by (relation "measure (\<lambda>(q, dat, n, i). n - i)") auto

declare scan.simps [simp del]

definition OPENSSL_sk_delete_ptr :: "('a, 'c) sk \<Rightarrow> 'a ptr \<Rightarrow> 'a ptr \<times> ('a, 'c) sk" where
  "OPENSSL_sk_delete_ptr sk p = (case sk of
     None \<Rightarrow> (None, None)
   | Some s \<Rightarrow> (case scan (\<lambda>q. q = p) (sk_data s) (num s) 0 of
       None \<Rightarrow> (None, Some s)
     | Some i \<Rightarrow> OPENSSL_sk_delete sk i))"

text \<open>The loop of \<^verbatim>\<open>OPENSSL_sk_delete_if\<close>: kept pointers move down to \<^verbatim>\<open>new_num\<close>.\<close>

function delete_if_loop :: "('a ptr \<Rightarrow> bool) \<Rightarrow> 'a ptr list \<Rightarrow> nat \<Rightarrow> nat \<Rightarrow> nat \<Rightarrow> 'a ptr list \<times> nat" where
  "delete_if_loop f dat n i new_num =
     (if i < n then
        if \<not> f (dat ! i) then delete_if_loop f (dat[new_num := dat ! i]) n (i + 1) (new_num + 1)
        else delete_if_loop f dat n (i + 1) new_num
      else (dat, new_num))"
  by auto
termination by (relation "measure (\<lambda>(f, dat, n, i, new_num). n - i)") auto

declare delete_if_loop.simps [simp del]

definition OPENSSL_sk_delete_if :: "('a, 'c) sk \<Rightarrow> ('a ptr \<Rightarrow> bool) \<Rightarrow> ('a, 'c) sk" where
  "OPENSSL_sk_delete_if sk f = (case sk of
     None \<Rightarrow> None
   | Some s \<Rightarrow> (case delete_if_loop f (sk_data s) (num s) 0 0 of
       (dat, new_num) \<Rightarrow> Some (s\<lparr>sk_data := dat, num := new_num\<rparr>)))"

definition OPENSSL_sk_is_sorted :: "('a, 'c) sk \<Rightarrow> bool" where
  "OPENSSL_sk_is_sorted sk = (case sk of
     None \<Rightarrow> True
   | Some s \<Rightarrow> sorted_flag s \<or> (sk_comp s \<noteq> None \<and> num s < 2))"

text \<open>The binary search; the comparison is that of the searched pointer with a slot.\<close>

function binary_search :: "('a ptr \<Rightarrow> int) \<Rightarrow> 'a ptr list \<Rightarrow> nat \<Rightarrow> nat \<Rightarrow> nat option" where
  "binary_search cmp dat lo hi =
     (if lo < hi then
        let mid = lo + (hi - lo - 1) div 2;
            r = cmp (dat ! mid)
        in if r > 0 then binary_search cmp dat (mid + 1) hi
           else if r < 0 then binary_search cmp dat lo mid
           else if hi - lo = 1 then Some mid
           else binary_search cmp dat lo (mid + 1)
      else None)"
  by auto
termination
  by (relation "measure (\<lambda>(cmp, dat, lo, hi). hi - lo)") auto

declare binary_search.simps [simp del]

definition OPENSSL_sk_find :: "('a, 'c) call_cmp_func \<Rightarrow> ('a, 'c) sk \<Rightarrow> 'a ptr \<Rightarrow> nat option" where
  "OPENSSL_sk_find call_cmp_func sk p = (case sk of
     None \<Rightarrow> None
   | Some s \<Rightarrow> (case sk_comp s of
       None \<Rightarrow> scan (\<lambda>q. q = p) (sk_data s) (num s) 0
     | Some cf \<Rightarrow>
         if p = None then None
         else if \<not> OPENSSL_sk_is_sorted sk then scan (\<lambda>q. call_cmp_func cf p q = 0) (sk_data s) (num s) 0
         else binary_search (call_cmp_func cf p) (sk_data s) 0 (num s)))"

definition OPENSSL_sk_shift :: "('a, 'c) sk \<Rightarrow> 'a ptr \<times> ('a, 'c) sk" where
  "OPENSSL_sk_shift sk = (case sk of
     None \<Rightarrow> (None, None)
   | Some s \<Rightarrow> if num s = 0 then (None, Some s) else OPENSSL_sk_delete sk 0)"

text \<open>\<^verbatim>\<open>OPENSSL_sk_push\<close> reads \<^verbatim>\<open>sk->num\<close>, so it takes a stack and not a pointer that may be NULL.\<close>

definition OPENSSL_sk_push :: "allocator \<Rightarrow> ('a, 'c) stack_st \<Rightarrow> 'a ptr \<Rightarrow> nat \<times> ('a, 'c) sk" where
  "OPENSSL_sk_push al s p = OPENSSL_sk_insert al (Some s) p (num s)"

definition OPENSSL_sk_pop :: "('a, 'c) sk \<Rightarrow> 'a ptr \<times> ('a, 'c) sk" where
  "OPENSSL_sk_pop sk = (case sk of
     None \<Rightarrow> (None, None)
   | Some s \<Rightarrow> if num s = 0 then (None, Some s) else OPENSSL_sk_delete sk (num s - 1))"

definition OPENSSL_sk_dup :: "allocator \<Rightarrow> ('a, 'c) sk \<Rightarrow> ('a, 'c) sk" where
  "OPENSSL_sk_dup al sk = (case sk of
     None \<Rightarrow> None
   | Some s \<Rightarrow>
       if \<not> al STACK_SIZE then None
       else if num_alloc s = 0 \<or> \<not> al (PTR_SIZE * num_alloc s) then None
       else Some \<lparr>num = num s, sk_data = sk_data s, sorted_flag = sorted_flag s, num_alloc = num_alloc s, sk_comp = sk_comp s\<rparr>)"

definition parent_idx :: "nat \<Rightarrow> nat" where "parent_idx idx = (idx - 1) div 2"

definition left_idx :: "nat \<Rightarrow> nat" where "left_idx idx = 2 * idx + 1"

definition swap :: "'a list \<Rightarrow> nat \<Rightarrow> nat \<Rightarrow> 'a list" where
  "swap xs i j = xs[i := xs ! j, j := xs ! i]"

function down_heap :: "('a ptr \<Rightarrow> 'a ptr \<Rightarrow> int) \<Rightarrow> 'a ptr list \<Rightarrow> nat \<Rightarrow> nat \<Rightarrow> 'a ptr list" where
  "down_heap cmp dat i n =
     (let left = left_idx i
      in if left \<ge> n then dat
         else
           let next = (if cmp (dat ! i) (dat ! left) < 0 then left else i);
               right = left + 1;
               next = (if right < n \<and> cmp (dat ! next) (dat ! right) < 0 then right else next)
           in if i = next then dat else down_heap cmp (swap dat i next) next n)"
  by auto
termination
  by (relation "measure (\<lambda>(cmp, dat, i, n). n - i)") (auto simp: left_idx_def split: if_splits)

declare down_heap.simps [simp del]

text \<open>The first loop counts down from a parent to 0; the second takes the maximum off.\<close>

fun build_heap :: "('a ptr \<Rightarrow> 'a ptr \<Rightarrow> int) \<Rightarrow> 'a ptr list \<Rightarrow> nat \<Rightarrow> nat \<Rightarrow> 'a ptr list" where
  "build_heap cmp dat 0 n = down_heap cmp dat 0 n"
| "build_heap cmp dat (Suc i) n = build_heap cmp (down_heap cmp dat (Suc i) n) i n"

fun pop_heap :: "('a ptr \<Rightarrow> 'a ptr \<Rightarrow> int) \<Rightarrow> 'a ptr list \<Rightarrow> nat \<Rightarrow> 'a ptr list" where
  "pop_heap cmp dat 0 = dat"
| "pop_heap cmp dat (Suc i) = pop_heap cmp (down_heap cmp (swap dat 0 (Suc i)) 0 (Suc i)) i"

definition OPENSSL_sk_sort :: "('a, 'c) call_cmp_func \<Rightarrow> ('a, 'c) sk \<Rightarrow> ('a, 'c) sk" where
  "OPENSSL_sk_sort call_cmp_func sk = (case sk of
     None \<Rightarrow> None
   | Some s \<Rightarrow> (case sk_comp s of
       None \<Rightarrow> Some s
     | Some cf \<Rightarrow>
         if sorted_flag s then Some s
         else
           let cmp = call_cmp_func cf;
               dat = (if num s \<ge> 2
                      then pop_heap cmp (build_heap cmp (sk_data s) (parent_idx (num s - 1)) (num s)) (num s - 1)
                      else sk_data s)
           in Some (s\<lparr>sk_data := dat, sorted_flag := True\<rparr>)))"

definition OPENSSL_sk_set_cmp_func :: "('a, 'c) stack_st \<Rightarrow> 'c option \<Rightarrow> 'c option \<times> ('a, 'c) stack_st" where
  "OPENSSL_sk_set_cmp_func s cf =
     (sk_comp s, s\<lparr>sorted_flag := (if sk_comp s \<noteq> cf then False else sorted_flag s), sk_comp := cf\<rparr>)"

text \<open>
  The copies so far are freed when one fails; the result is the copy or nothing, with the pointers
  that were freed.
\<close>

fun deep_copy_loop :: "('a \<Rightarrow> 'a ptr) \<Rightarrow> 'a ptr list \<Rightarrow> 'a ptr list \<Rightarrow> 'a ptr list \<Rightarrow> ('a ptr list + 'a list)" where
  "deep_copy_loop copy_func acc [] rest = Inl (acc @ rest)"
| "deep_copy_loop copy_func acc (None # dat) rest = deep_copy_loop copy_func (acc @ [None]) dat rest"
| "deep_copy_loop copy_func acc (Some x # dat) rest = (case copy_func x of
     None \<Rightarrow> Inr (map the (filter (\<lambda>p. p \<noteq> None) acc))
   | Some y \<Rightarrow> deep_copy_loop copy_func (acc @ [Some y]) dat rest)"

definition OPENSSL_sk_deep_copy :: "allocator \<Rightarrow> ('a \<Rightarrow> 'a ptr) \<Rightarrow> ('a, 'c) sk \<Rightarrow> ('a, 'c) sk \<times> 'a list" where
  "OPENSSL_sk_deep_copy al copy_func sk = (case OPENSSL_sk_dup al sk of
     None \<Rightarrow> (None, [])
   | Some ret \<Rightarrow> (case deep_copy_loop copy_func [] (take (num ret) (sk_data ret)) (drop (num ret) (sk_data ret)) of
       Inl dat \<Rightarrow> (Some (ret\<lparr>sk_data := dat\<rparr>), [])
     | Inr freed \<Rightarrow> (None, freed)))"

section \<open>The stack as a list\<close>

definition sk_list :: "('a, 'c) stack_st \<Rightarrow> 'a ptr list" where
  "sk_list s = take (num s) (sk_data s)"

definition sk_ok :: "('a, 'c) stack_st \<Rightarrow> bool" where
  "sk_ok s \<longleftrightarrow> length (sk_data s) = num_alloc s \<and> 4 \<le> num_alloc s \<and> num s < num_alloc s \<and> num s \<le> 2147483647"

lemma length_sk_list [simp]: "sk_ok s \<Longrightarrow> length (sk_list s) = num s"
  by (simp add: sk_list_def sk_ok_def)

text \<open>Room for one more pointer: doubling the slots never wraps around within the limit on \<^verbatim>\<open>num\<close>.\<close>

lemma sk_grow:
  assumes "sk_ok s" "num s < 2147483647" "num_alloc s \<le> num s + 1"
  shows "num_alloc s * 2 mod SIZE_MOD = num_alloc s * 2"
    "num_alloc s * 2 * PTR_SIZE mod SIZE_MOD = num_alloc s * 2 * PTR_SIZE"
  using assms by (simp_all add: sk_ok_def SIZE_MOD_def PTR_SIZE_def)

definition list_insert :: "'a list \<Rightarrow> nat \<Rightarrow> 'a \<Rightarrow> 'a list" where
  "list_insert xs i x = take i xs @ x # drop i xs"

lemma OPENSSL_sk_insert_cases:
  assumes ok: "sk_ok s"
  shows "(\<exists>s'. OPENSSL_sk_insert al (Some s) p i = (num s + 1, Some s') \<and> sk_ok s'
      \<and> sk_list s' = list_insert (sk_list s) i p \<and> sk_comp s' = sk_comp s \<and> \<not> sorted_flag s')
      \<and> \<not> (num s = 2147483647 \<or> num_alloc s = num s + 1 \<and> \<not> al (num_alloc s * 2 * 8))
    \<or> OPENSSL_sk_insert al (Some s) p i = (0, Some s) \<and>
      (num s = 2147483647 \<or> num_alloc s = num s + 1 \<and> \<not> al (num_alloc s * 2 * 8))"
proof (cases "num s < 2147483647")
  case False
  then have "num s = 2147483647" using ok by (simp add: sk_ok_def)
  then show ?thesis by (simp add: OPENSSL_sk_insert_def)
next
  case lim: True
  define dat where "dat t = (if i \<ge> num t then (sk_data t)[num t := p]
     else take i (sk_data t) @ p # take (num t - i) (drop i (sk_data t)) @ drop (num t + 1) (sk_data t))"
    for t :: "('a, 'b) stack_st"
  have step: "sk_ok (t\<lparr>sk_data := dat t, num := num t + 1, sorted_flag := False\<rparr>) \<and>
      sk_list (t\<lparr>sk_data := dat t, num := num t + 1, sorted_flag := False\<rparr>) = list_insert (sk_list s) i p"
    if t: "length (sk_data t) = num_alloc t" "num t + 1 < num_alloc t" "num t = num s" "take (num s) (sk_data t) = sk_list s"
      "4 \<le> num_alloc t" for t
  proof (cases "i < num t")
    case True
    then have l: "length (dat t) = num_alloc t" using t by (simp add: dat_def)
    have "take (num t + 1) (dat t) = take i (sk_data t) @ p # take (num t - i) (drop i (sk_data t))"
      using True t by (simp add: dat_def Suc_diff_le)
    also have "\<dots> = list_insert (take (num t) (sk_data t)) i p" using True by (simp add: list_insert_def drop_take)
    finally show ?thesis using t lim l by (simp add: sk_ok_def sk_list_def [of "t\<lparr>sk_data := _, num := _, sorted_flag := _\<rparr>"])
  next
    case False
    then have l: "length (dat t) = num_alloc t" using t by (simp add: dat_def)
    have "take (num t + 1) (dat t) = take (num t) (sk_data t) @ [p]"
      using False t by (simp add: dat_def take_Suc_conv_app_nth)
    also have "\<dots> = list_insert (take (num t) (sk_data t)) i p" using False by (simp add: list_insert_def)
    finally show ?thesis using t lim l by (simp add: sk_ok_def sk_list_def [of "t\<lparr>sk_data := _, num := _, sorted_flag := _\<rparr>"])
  qed
  show ?thesis
  proof (cases "num_alloc s \<le> num s + 1")
    case False
    have "OPENSSL_sk_insert al (Some s) p i = (num s + 1, Some (s\<lparr>sk_data := dat s, num := num s + 1, sorted_flag := False\<rparr>))"
      using False lim by (simp add: OPENSSL_sk_insert_def dat_def Let_def)
    then show ?thesis using step [of s] False ok lim by (simp add: sk_ok_def [of s] sk_list_def [of s])
  next
    case True
    note g = sk_grow [OF ok lim True]
    have na: "num_alloc s = num s + 1" using ok True by (simp add: sk_ok_def)
    show ?thesis
    proof (cases "al (num_alloc s * 2 * 8)")
      case no: False
      then have "OPENSSL_sk_insert al (Some s) p i = (0, Some s)"
        using True lim g by (simp add: OPENSSL_sk_insert_def Let_def PTR_SIZE_def)
      then show ?thesis using no na by simp
    next
      case yes: True
      define t where "t = s\<lparr>sk_data := sk_data s @ replicate (num_alloc s * 2 - num_alloc s) None, num_alloc := num_alloc s * 2\<rparr>"
      have "OPENSSL_sk_insert al (Some s) p i = (num t + 1, Some (t\<lparr>sk_data := dat t, num := num t + 1, sorted_flag := False\<rparr>))"
        using True lim g yes by (simp add: OPENSSL_sk_insert_def Let_def PTR_SIZE_def dat_def t_def)
      moreover have "length (sk_data t) = num_alloc t" "num t + 1 < num_alloc t" "num t = num s" "take (num s) (sk_data t) = sk_list s"
        "4 \<le> num_alloc t"
        using ok by (simp_all add: t_def sk_ok_def sk_list_def)
      moreover have "sk_comp t = sk_comp s" by (simp add: t_def)
      ultimately show ?thesis using step [of t] yes lim by simp
    qed
  qed
qed

definition list_delete :: "'a list \<Rightarrow> nat \<Rightarrow> 'a list" where
  "list_delete xs i = take i xs @ drop (Suc i) xs"

lemma OPENSSL_sk_delete_spec:
  assumes ok: "sk_ok s" and i: "i < num s"
  shows "\<exists>s'. OPENSSL_sk_delete (Some s) i = (sk_list s ! i, Some s') \<and> sk_ok s'
      \<and> sk_list s' = list_delete (sk_list s) i \<and> sk_comp s' = sk_comp s \<and> sorted_flag s' = sorted_flag s"
proof -
  define dat where "dat = (if i \<noteq> num s - 1
     then take i (sk_data s) @ take (num s - i - 1) (drop (i + 1) (sk_data s)) @ drop (num s - 1) (sk_data s) else sk_data s)"
  have e: "OPENSSL_sk_delete (Some s) i = (sk_list s ! i, Some (s\<lparr>sk_data := dat, num := num s - 1\<rparr>))"
    using i by (simp add: OPENSSL_sk_delete_def Let_def dat_def sk_list_def)
  have l: "length dat = num_alloc s" using ok i by (auto simp: dat_def sk_ok_def)
  have "take (num s - 1) dat = take i (sk_data s) @ take (num s - i - 1) (drop (i + 1) (sk_data s))"
  proof (cases "i = num s - 1")
    case False
    then show ?thesis using ok i by (auto simp: dat_def sk_ok_def min_def)
  next
    case True
    then have "num s - i - 1 = 0" using i by simp
    then show ?thesis using True by (simp add: dat_def)
  qed
  also have "\<dots> = list_delete (sk_list s) i" using i by (simp add: list_delete_def sk_list_def drop_take)
  finally have t: "take (num s - 1) dat = list_delete (sk_list s) i" .
  show ?thesis
    unfolding e using ok i t l by (auto simp: sk_ok_def sk_list_def [of "s\<lparr>sk_data := _, num := _\<rparr>"])
qed

lemma scan_Some:
  "scan q dat n i = Some j \<longleftrightarrow> i \<le> j \<and> j < n \<and> q (dat ! j) \<and> (\<forall>k. i \<le> k \<and> k < j \<longrightarrow> \<not> q (dat ! k))"
proof (induction q dat n i rule: scan.induct)
  case (1 q dat n i)
  show ?case
  proof (cases "i < n")
    case True
    show ?thesis
    proof (cases "q (dat ! i)")
      case q: True
      then show ?thesis using True by (subst scan.simps) (auto simp: le_less)
    next
      case q: False
      then have "scan q dat n i = scan q dat n (i + 1)" using True by (subst scan.simps) simp
      then show ?thesis using 1 [OF True q] q by (metis Suc_eq_plus1 Suc_leD le_antisym not_less_eq_eq)
    qed
  qed (subst scan.simps, auto)
qed

lemma scan_None: "scan q dat n i = None \<longleftrightarrow> (\<forall>k. i \<le> k \<and> k < n \<longrightarrow> \<not> q (dat ! k))"
proof (induction q dat n i rule: scan.induct)
  case (1 q dat n i)
  have "(\<forall>k. i \<le> k \<and> k < n \<longrightarrow> P k) \<longleftrightarrow> P i \<and> (\<forall>k. i + 1 \<le> k \<and> k < n \<longrightarrow> P k)" if "i < n" for P
    using that by (auto simp: Suc_le_eq dest: le_neq_implies_less)
  from this [of "\<lambda>k. \<not> q (dat ! k)"] show ?case
    using 1 by (cases "i < n"; cases "q (dat ! i)") (auto simp: scan.simps [of q dat n i])
qed

lemma delete_if_loop_spec:
  assumes "k \<le> i" "i \<le> n" "n \<le> length dat" "delete_if_loop f dat n i k = (dat', k')"
  shows "take k' dat' = take k dat @ filter (\<lambda>p. \<not> f p) (drop i (take n dat)) \<and> length dat' = length dat \<and> k' \<le> n"
  using assms
proof (induction f dat n i k rule: delete_if_loop.induct)
  case (1 f dat n i k)
  show ?case
  proof (cases "i < n")
    case False
    then show ?thesis using 1(3-6) by (subst (asm) delete_if_loop.simps) auto
  next
    case True
    then have d: "drop i (take n dat) = dat ! i # drop (Suc i) (take n dat)"
      using 1(5) by (simp add: Cons_nth_drop_Suc [symmetric])
    show ?thesis
    proof (cases "f (dat ! i)")
      case f: True
      then show ?thesis using 1(2) [OF True] 1(3-6) True d by (subst (asm) delete_if_loop.simps) simp
    next
      case f: False
      let ?d = "dat[k := dat ! i]"
      have "delete_if_loop f ?d n (i + 1) (k + 1) = (dat', k')" using 1(6) True f by (subst (asm) delete_if_loop.simps) simp
      from 1(1) [OF True f _ _ _ this]
      have r: "take k' dat' = take (k + 1) ?d @ filter (\<lambda>p. \<not> f p) (drop (i + 1) (take n ?d)) \<and> length dat' = length ?d \<and> k' \<le> n"
        using 1(3-5) True by simp
      have "take (k + 1) ?d = take k dat @ [dat ! i]" using 1(3,5) True by (simp add: take_Suc_conv_app_nth)
      moreover have "drop (i + 1) (take n ?d) = drop (i + 1) (take n dat)" using 1(3) by (simp add: drop_take)
      ultimately show ?thesis using r d f by simp
    qed
  qed
qed

lemma OPENSSL_sk_delete_if_spec:
  assumes "sk_ok s"
  shows "\<exists>s'. OPENSSL_sk_delete_if (Some s) f = Some s' \<and> sk_ok s' \<and> sk_list s' = filter (\<lambda>p. \<not> f p) (sk_list s)
    \<and> sk_comp s' = sk_comp s \<and> sorted_flag s' = sorted_flag s"
proof -
  obtain dat k where l: "delete_if_loop f (sk_data s) (num s) 0 0 = (dat, k)" by (cases "delete_if_loop f (sk_data s) (num s) 0 0")
  from delete_if_loop_spec [OF _ _ _ l]
  have "take k dat = filter (\<lambda>p. \<not> f p) (sk_list s)" "length dat = length (sk_data s)" "k \<le> num s"
    using assms by (simp_all add: sk_ok_def sk_list_def)
  then show ?thesis using assms by (simp add: OPENSSL_sk_delete_if_def l sk_ok_def sk_list_def)
qed

end
