(* ===== verification/StackSort.thy ===== *)
theory StackSort
  imports Stack
begin

text \<open>
  The heap sort and the binary search of the stack, for any comparison that is the sign of a total
  preorder.  The contract of such a comparison is a locale; the sort is proved inside it from the
  invariant of a heap with one value on its way down, the search from the place of the first match.
\<close>

section \<open>Heap sort\<close>

text \<open>What the code expects of a comparison function: the sign of a total preorder.\<close>

definition cmp_order :: "('a ptr \<Rightarrow> 'a ptr \<Rightarrow> int) \<Rightarrow> bool" where
  "cmp_order cmp \<longleftrightarrow> (\<forall>a b. cmp a b < 0 \<longleftrightarrow> cmp b a > 0) \<and> (\<forall>a b c. cmp a b \<le> 0 \<and> cmp b c \<le> 0 \<longrightarrow> cmp a c \<le> 0)"

locale comparator =
  fixes cmp :: "'a ptr \<Rightarrow> 'a ptr \<Rightarrow> int"
  assumes cmp_anti: "cmp a b < 0 \<longleftrightarrow> cmp b a > 0"
    and cmp_trans: "cmp a b \<le> 0 \<Longrightarrow> cmp b c \<le> 0 \<Longrightarrow> cmp a c \<le> 0"
begin

abbreviation le :: "'a ptr \<Rightarrow> 'a ptr \<Rightarrow> bool" where "le a b \<equiv> cmp a b \<le> 0"

lemma le_refl: "le a a"
  using cmp_anti [of a a] by linarith

lemma le_flip: "\<not> cmp a b < 0 \<longleftrightarrow> le b a"
  using cmp_anti [of a b] by linarith

lemma eq_sym: "cmp a b = 0 \<longleftrightarrow> cmp b a = 0"
  using cmp_anti [of a b] cmp_anti [of b a] by linarith

end

lemma comparator_iff: "comparator cmp \<longleftrightarrow> cmp_order cmp"
  unfolding comparator_def cmp_order_def by blast

text \<open>Positions of a heap; \<open>heap_above\<close> has the order at every parent from \<open>l\<close> on.\<close>

lemma parent_left: "0 < k \<Longrightarrow> parent_idx k = p \<longleftrightarrow> k = left_idx p \<or> k = left_idx p + 1"
  by (auto simp: parent_idx_def left_idx_def)

lemma parent_less: "0 < k \<Longrightarrow> parent_idx k < k"
  by (simp add: parent_idx_def)

lemma length_swap [simp]: "length (swap xs i j) = length xs"
  by (simp add: swap_def)

lemma nth_swap: "i < length xs \<Longrightarrow> j < length xs \<Longrightarrow> k < length xs \<Longrightarrow>
    swap xs i j ! k = (if k = i then xs ! j else if k = j then xs ! i else xs ! k)"
  by (auto simp: swap_def nth_list_update)

lemma mset_swap_ptrs: "i < length xs \<Longrightarrow> j < length xs \<Longrightarrow> mset (swap xs i j) = mset xs"
  unfolding swap_def by (rule Multiset.mset_swap)

context comparator
begin

definition heap_above :: "nat \<Rightarrow> nat \<Rightarrow> 'a ptr list \<Rightarrow> bool" where
  "heap_above l n xs \<longleftrightarrow> (\<forall>k. 0 < k \<and> k < n \<and> l \<le> parent_idx k \<longrightarrow> le (xs ! k) (xs ! parent_idx k))"

text \<open>The order while the value at \<open>i\<close> moves down: it may be too small at \<open>i\<close> only.\<close>

definition sifting :: "nat \<Rightarrow> nat \<Rightarrow> nat \<Rightarrow> 'a ptr list \<Rightarrow> bool" where
  "sifting l i n xs \<longleftrightarrow>
     (\<forall>k. 0 < k \<and> k < n \<and> l \<le> parent_idx k \<and> parent_idx k \<noteq> i \<longrightarrow> le (xs ! k) (xs ! parent_idx k))
     \<and> (\<forall>k. 0 < k \<and> k < n \<and> parent_idx k = i \<and> 0 < i \<and> l \<le> parent_idx i \<longrightarrow> le (xs ! k) (xs ! parent_idx i))"

lemma sifting_start: "heap_above (Suc i) n xs \<Longrightarrow> sifting i i n xs"
proof -
  assume h: "heap_above (Suc i) n xs"
  have "\<not> i \<le> parent_idx i" if "0 < i" using parent_less [OF that] by simp
  then show ?thesis using h by (auto simp: heap_above_def sifting_def Suc_le_eq le_less)
qed

lemma heap_root:
  assumes "heap_above 0 n xs" "k < n"
  shows "le (xs ! k) (xs ! 0)"
  using assms(2)
proof (induction k rule: less_induct)
  case (less k)
  show ?case
  proof (cases "k = 0")
    case False
    then have p: "parent_idx k < k" by (simp add: parent_less)
    then have "le (xs ! parent_idx k) (xs ! 0)" using less by simp
    moreover have "le (xs ! k) (xs ! parent_idx k)" using assms(1) False less.prems by (simp add: heap_above_def)
    ultimately show ?thesis using cmp_trans by blast
  qed (simp add: le_refl)
qed

lemma sifting_step:
  assumes s: "sifting l i n xs" and n: "n \<le> length xs" and m: "m < n" "parent_idx m = i" "0 < m"
    and lt: "cmp (xs ! i) (xs ! m) < 0"
    and big: "\<And>k. 0 < k \<Longrightarrow> k < n \<Longrightarrow> parent_idx k = i \<Longrightarrow> le (xs ! k) (xs ! m)"
  shows "sifting l m n (swap xs i m)"
proof -
  have im: "i < m" using m parent_less by auto
  have nth: "swap xs i m ! k = (if k = i then xs ! m else if k = m then xs ! i else xs ! k)" if "k < n" for k
    using that n im m by (intro nth_swap) simp_all
  have A: "le (swap xs i m ! k) (swap xs i m ! parent_idx k)"
    if k: "0 < k" "k < n" "l \<le> parent_idx k" "parent_idx k \<noteq> m" for k
  proof -
    have p: "parent_idx k < k" "parent_idx k < n" using k parent_less [of k] by simp_all
    consider "k = m" | "k \<noteq> m" "parent_idx k = i" | "k = i" | "k \<noteq> m" "k \<noteq> i" "parent_idx k \<noteq> i" by blast
    then show ?thesis
    proof cases
      case 1
      then show ?thesis using lt im m by (simp add: nth)
    next
      case 2
      then show ?thesis using big [of k] k p im by (auto simp: nth)
    next
      case 3
      then have "le (xs ! m) (xs ! parent_idx i)" using s m k by (auto simp: sifting_def)
      then show ?thesis using 3 p im k by (simp add: nth)
    next
      case 4
      then show ?thesis using s k p by (simp add: nth sifting_def)
    qed
  qed
  have B: "le (swap xs i m ! k) (swap xs i m ! parent_idx m)" if k: "0 < k" "k < n" "parent_idx k = m" "l \<le> parent_idx m" for k
  proof -
    have "m < k" using parent_less [of k] k by simp
    moreover have "le (xs ! k) (xs ! m)" using s [unfolded sifting_def, THEN conjunct1, rule_format, of k] k m im by simp
    ultimately show ?thesis using k m im by (simp add: nth)
  qed
  show ?thesis unfolding sifting_def using A B by blast
qed

lemma less_trans_cmp: "cmp a b < 0 \<Longrightarrow> cmp b c < 0 \<Longrightarrow> cmp a c < 0"
  using cmp_trans [of c a b] cmp_anti [of b c] le_flip [of a c] by linarith

text \<open>The child that the code picks: a largest one, larger than the parent; or none is.\<close>

definition pick :: "'a ptr list \<Rightarrow> nat \<Rightarrow> nat \<Rightarrow> nat" where
  "pick xs i n =
     (let left = left_idx i;
          next = (if cmp (xs ! i) (xs ! left) < 0 then left else i);
          right = left + 1
      in if right < n \<and> cmp (xs ! next) (xs ! right) < 0 then right else next)"

lemma down_heap_pick:
  "down_heap cmp xs i n =
     (if left_idx i \<ge> n \<or> pick xs i n = i then xs else down_heap cmp (swap xs i (pick xs i n)) (pick xs i n) n)"
  by (subst down_heap.simps) (simp add: Let_def pick_def)

lemma pick_spec:
  assumes "left_idx i < n"
  shows "pick xs i n = i \<Longrightarrow> 0 < k \<Longrightarrow> k < n \<Longrightarrow> parent_idx k = i \<Longrightarrow> le (xs ! k) (xs ! i)"
    and "pick xs i n \<noteq> i \<Longrightarrow> pick xs i n < n \<and> parent_idx (pick xs i n) = i \<and> 0 < pick xs i n
      \<and> cmp (xs ! i) (xs ! pick xs i n) < 0"
    and "pick xs i n \<noteq> i \<Longrightarrow> 0 < k \<Longrightarrow> k < n \<Longrightarrow> parent_idx k = i \<Longrightarrow> le (xs ! k) (xs ! pick xs i n)"
proof -
  define L where "L = left_idx i"
  have li: "i \<noteq> L" "i \<noteq> Suc L" "0 < L" and pl: "parent_idx L = i" "parent_idx (Suc L) = i"
    by (simp_all add: L_def left_idx_def parent_idx_def)
  have ln: "L < n" using assms by (simp add: L_def)
  have ch: "k = L \<or> k = Suc L" if "0 < k" "parent_idx k = i" for k
    using that parent_left [of k i] by (simp add: L_def)
  note tr = less_trans_cmp [of "xs ! i" "xs ! L" "xs ! Suc L"] cmp_trans [of "xs ! L" "xs ! i" "xs ! Suc L"]
    le_refl [of "xs ! L"] le_refl [of "xs ! Suc L"]
    le_flip [of "xs ! i" "xs ! L"] le_flip [of "xs ! i" "xs ! Suc L"] le_flip [of "xs ! L" "xs ! Suc L"]
  have p: "pick xs i n = (let next = (if cmp (xs ! i) (xs ! L) < 0 then L else i)
      in if Suc L < n \<and> cmp (xs ! next) (xs ! Suc L) < 0 then Suc L else next)"
    by (simp add: pick_def L_def Let_def)
  show "le (xs ! k) (xs ! i)" if "pick xs i n = i" "0 < k" "k < n" "parent_idx k = i"
    using that ch [of k] li tr by (auto simp: p Let_def split: if_splits)
  show "pick xs i n < n \<and> parent_idx (pick xs i n) = i \<and> 0 < pick xs i n \<and> cmp (xs ! i) (xs ! pick xs i n) < 0"
    if "pick xs i n \<noteq> i"
    using that tr ln li pl unfolding p Let_def
    by (cases "cmp (xs ! i) (xs ! L) < 0"; cases "Suc L < n \<and> cmp (xs ! (if cmp (xs ! i) (xs ! L) < 0 then L else i)) (xs ! Suc L) < 0") simp_all
  show "le (xs ! k) (xs ! pick xs i n)" if "pick xs i n \<noteq> i" "0 < k" "k < n" "parent_idx k = i"
    using that(1) ch [OF that(2,4)] that(3) tr ln li pl unfolding p Let_def
    by (cases "cmp (xs ! i) (xs ! L) < 0"; cases "Suc L < n \<and> cmp (xs ! (if cmp (xs ! i) (xs ! L) < 0 then L else i)) (xs ! Suc L) < 0") auto
qed

lemma down_heap_spec:
  assumes "sifting l i n xs" "n \<le> length xs" "i < n"
  shows "heap_above l n (down_heap cmp xs i n) \<and> mset (down_heap cmp xs i n) = mset xs
    \<and> length (down_heap cmp xs i n) = length xs \<and> drop n (down_heap cmp xs i n) = drop n xs"
  using assms
proof (induction "n - i" arbitrary: xs i rule: less_induct)
  case less
  show ?case
  proof (cases "left_idx i \<ge> n \<or> pick xs i n = i")
    case True
    have "heap_above l n xs"
      unfolding heap_above_def
    proof (intro allI impI)
      fix k assume k: "0 < k \<and> k < n \<and> l \<le> parent_idx k"
      show "le (xs ! k) (xs ! parent_idx k)"
      proof (cases "parent_idx k = i")
        case p: True
        then have "left_idx i < n" using k parent_left [of k i] by auto
        then show ?thesis using pick_spec(1) [of i n xs k] True k p by simp
      next
        case False
        then show ?thesis using less.prems(1) k by (simp add: sifting_def)
      qed
    qed
    then show ?thesis using True by (simp add: down_heap_pick [of xs i n])
  next
    case False
    define m where "m = pick xs i n"
    have m: "m < n" "parent_idx m = i" "0 < m" "cmp (xs ! i) (xs ! m) < 0"
      using pick_spec(2) [of i n xs] False by (simp_all add: m_def)
    have im: "i < m" using parent_less [of m] m by simp
    have "sifting l m n (swap xs i m)"
      by (rule sifting_step [OF less.prems(1,2) m]) (use pick_spec(3) [of i n xs] False in \<open>simp add: m_def\<close>)
    then have "heap_above l n (down_heap cmp (swap xs i m) m n) \<and> mset (down_heap cmp (swap xs i m) m n) = mset (swap xs i m)
      \<and> length (down_heap cmp (swap xs i m) m n) = length (swap xs i m) \<and> drop n (down_heap cmp (swap xs i m) m n) = drop n (swap xs i m)"
      using less.hyps [of m "swap xs i m"] less.prems im m by simp
    moreover have "drop n (swap xs i m) = drop n xs" using im m by (simp add: swap_def)
    moreover have "mset (swap xs i m) = mset xs" using im m less.prems by (simp add: mset_swap_ptrs)
    ultimately show ?thesis using False by (simp add: down_heap_pick [of xs i n] m_def [symmetric])
  qed
qed

lemma build_heap_spec:
  assumes "heap_above (Suc i) n xs" "n \<le> length xs" "i < n"
  shows "heap_above 0 n (build_heap cmp xs i n) \<and> mset (build_heap cmp xs i n) = mset xs
    \<and> length (build_heap cmp xs i n) = length xs \<and> drop n (build_heap cmp xs i n) = drop n xs"
  using assms
proof (induction i arbitrary: xs)
  case 0
  then show ?case using down_heap_spec [OF sifting_start] by simp
next
  case (Suc i)
  let ?y = "down_heap cmp xs (Suc i) n"
  have y: "heap_above (Suc i) n ?y \<and> mset ?y = mset xs \<and> length ?y = length xs \<and> drop n ?y = drop n xs"
    using Suc.prems by (intro down_heap_spec sifting_start) simp_all
  then show ?case using Suc.IH [of ?y] Suc.prems by simp
qed

definition popping :: "nat \<Rightarrow> nat \<Rightarrow> 'a ptr list \<Rightarrow> bool" where
  "popping n i xs \<longleftrightarrow> heap_above 0 (Suc i) xs \<and> sorted_wrt le (drop (Suc i) (take n xs))
     \<and> (\<forall>a \<in> set (take (Suc i) xs). \<forall>b \<in> set (drop (Suc i) (take n xs)). le a b)"

lemma set_take_drop_mset:
  assumes "mset ys = mset xs" "drop n ys = drop n (xs :: 'a ptr list)"
  shows "mset (take n ys) = mset (take n xs)" "set (take n ys) = set (take n xs)"
proof -
  have "mset (take n ys) + mset (drop n ys) = mset (take n xs) + mset (drop n xs)"
    using assms(1) by (metis append_take_drop_id mset_append)
  then show m: "mset (take n ys) = mset (take n xs)" using assms(2) by simp
  then show "set (take n ys) = set (take n xs)" by (metis set_mset_mset)
qed

lemma popping_step:
  assumes "popping n (Suc i) xs" "n \<le> length xs" "Suc i < n"
  defines "zs \<equiv> down_heap cmp (swap xs 0 (Suc i)) 0 (Suc i)"
  shows "popping n i zs \<and> mset zs = mset xs \<and> length zs = length xs \<and> drop n zs = drop n xs"
proof -
  define ys where "ys = swap xs 0 (Suc i)"
  have len: "Suc i < length xs" using assms by simp
  have heap: "heap_above 0 (Suc (Suc i)) xs" and srt: "sorted_wrt le (drop (Suc (Suc i)) (take n xs))"
    and below: "\<And>a b. a \<in> set (take (Suc (Suc i)) xs) \<Longrightarrow> b \<in> set (drop (Suc (Suc i)) (take n xs)) \<Longrightarrow> le a b"
    using assms(1) unfolding popping_def by blast+
  have nth: "ys ! k = (if k = 0 then xs ! Suc i else if k = Suc i then xs ! 0 else xs ! k)" if "k < length xs" for k
    unfolding ys_def using that len by (intro nth_swap) auto
  have "heap_above (Suc 0) (Suc i) ys"
    unfolding heap_above_def
  proof (intro allI impI)
    fix k assume k: "0 < k \<and> k < Suc i \<and> Suc 0 \<le> parent_idx k"
    then have p: "parent_idx k < k" "0 < parent_idx k" using parent_less by simp_all
    have "le (xs ! k) (xs ! parent_idx k)" using heap k by (simp add: heap_above_def)
    then show "le (ys ! k) (ys ! parent_idx k)" using k p len by (simp add: nth)
  qed
  then have z: "heap_above 0 (Suc i) zs" "mset zs = mset ys" "length zs = length ys" "drop (Suc i) zs = drop (Suc i) ys"
    using down_heap_spec [OF sifting_start, of 0 "Suc i" ys] len by (simp_all add: zs_def ys_def)
  have ms: "mset ys = mset xs" "length ys = length xs" using len by (auto simp: ys_def intro!: mset_swap_ptrs)
  have dy: "drop (Suc i) ys = xs ! 0 # drop (Suc (Suc i)) xs"
  proof -
    have "drop (Suc i) ys = ys ! Suc i # drop (Suc (Suc i)) ys" using len ms(2) by (simp add: Cons_nth_drop_Suc)
    then show ?thesis using len by (simp add: nth) (simp add: ys_def swap_def)
  qed
  have dz: "drop (Suc i) (take n zs) = xs ! 0 # drop (Suc (Suc i)) (take n xs)"
    using z(4) dy assms(3) by (simp add: drop_take take_Cons')
  have st: "set (take (Suc i) zs) \<subseteq> set (take (Suc (Suc i)) xs)"
  proof -
    have "set (take (Suc i) zs) = set (take (Suc i) ys)" using z(2,4) by (rule set_take_drop_mset)
    also have "\<dots> \<subseteq> set (take (Suc (Suc i)) xs)"
    proof
      fix a assume "a \<in> set (take (Suc i) ys)"
      then obtain k where k: "k < Suc i" "a = ys ! k" by (auto simp: in_set_conv_nth)
      define j where "j = (if k = 0 then Suc i else k)"
      have "a = take (Suc (Suc i)) xs ! j" "j < length (take (Suc (Suc i)) xs)" using k len by (auto simp: nth j_def)
      then show "a \<in> set (take (Suc (Suc i)) xs)" by (simp only: nth_mem)
    qed
    finally show ?thesis .
  qed
  have root: "le a (xs ! 0)" if "a \<in> set (take (Suc (Suc i)) xs)" for a
    using that heap_root [OF heap] len by (auto simp: in_set_conv_nth)
  have x0: "xs ! 0 \<in> set (take (Suc (Suc i)) xs)" using len by (auto simp: in_set_conv_nth)
  have "popping n i zs"
    unfolding popping_def dz using z(1) srt below [OF x0] root st below by auto
  moreover have "drop n zs = drop n xs"
  proof -
    have "drop n zs = drop (n - Suc i) (drop (Suc i) zs)" using assms(3) by simp
    also have "\<dots> = drop n ys" using z(4) assms(3) by simp
    also have "\<dots> = drop n xs" using assms(3) by (simp add: ys_def swap_def)
    finally show ?thesis .
  qed
  ultimately show ?thesis using z ms by simp
qed

lemma pop_heap_spec:
  assumes "popping n i xs" "n \<le> length xs" "i < n"
  shows "sorted_wrt le (take n (pop_heap cmp xs i)) \<and> mset (pop_heap cmp xs i) = mset xs
    \<and> length (pop_heap cmp xs i) = length xs \<and> drop n (pop_heap cmp xs i) = drop n xs"
  using assms
proof (induction i arbitrary: xs)
  case 0
  then have "take n xs = xs ! 0 # drop 1 (take n xs)"
    by (metis Cons_nth_drop_Suc One_nat_def drop0 length_take min.absorb2 nth_take)
  then show ?case using 0 by (cases xs) (auto simp: popping_def take_Cons')
next
  case (Suc i)
  show ?case using popping_step [OF Suc.prems] Suc.IH Suc.prems by simp
qed

lemma heap_sort_spec:
  assumes "2 \<le> n" "n \<le> length xs"
  defines "ys \<equiv> pop_heap cmp (build_heap cmp xs (parent_idx (n - 1)) n) (n - 1)"
  shows "sorted_wrt le (take n ys) \<and> mset (take n ys) = mset (take n xs) \<and> length ys = length xs"
proof -
  let ?b = "build_heap cmp xs (parent_idx (n - 1)) n"
  have "heap_above (Suc (parent_idx (n - 1))) n xs"
    by (auto simp: heap_above_def parent_idx_def Suc_le_eq dest: div_le_mono)
  moreover have "parent_idx (n - 1) < n" using assms(1) by (simp add: parent_idx_def)
  ultimately have b: "heap_above 0 n ?b" "mset ?b = mset xs" "length ?b = length xs" "drop n ?b = drop n xs"
    using build_heap_spec assms(2) by blast+
  have "popping n (n - 1) ?b" using b(1,3) assms by (simp add: popping_def)
  from pop_heap_spec [OF this] have "sorted_wrt le (take n ys)" "mset ys = mset xs" "length ys = length xs" "drop n ys = drop n xs"
    using assms b by (simp_all add: ys_def)
  then show ?thesis using set_take_drop_mset(1) by blast
qed

section \<open>Binary search\<close>

lemma sorted_le:
  assumes "sorted_wrt le (take n xs)" "n \<le> length xs" "i \<le> j" "j < n"
  shows "le (xs ! i) (xs ! j)"
proof (cases "i = j")
  case False
  then show ?thesis using sorted_wrt_nth_less [OF assms(1), of i j] assms by simp
qed (simp add: le_refl)

lemma binary_search_first:
  assumes "sorted_wrt le (take n xs)" "n \<le> length xs" "hi \<le> n"
    and f: "\<And>f. scan (\<lambda>q. cmp p q = 0) xs n 0 = Some f \<Longrightarrow> lo \<le> f \<and> f < hi"
  shows "binary_search (cmp p) xs lo hi = scan (\<lambda>q. cmp p q = 0) xs n 0"
  using assms(3,4)
proof (induction "hi - lo" arbitrary: lo hi rule: less_induct)
  case less
  let ?s = "scan (\<lambda>q. cmp p q = 0) xs n 0"
  show ?case
  proof (cases "lo < hi")
    case False
    then have "?s = None" using less.prems(2) by (cases ?s) fastforce+
    then show ?thesis using False by (simp add: binary_search.simps)
  next
    case True
    define mid where "mid = lo + (hi - lo - 1) div 2"
    have mid: "lo \<le> mid" "mid < hi" "mid < n" using True less.prems(1) by (auto simp: mid_def)
    have first: "cmp p (xs ! g) = 0 \<and> g < n \<and> (\<forall>k < g. cmp p (xs ! k) \<noteq> 0)" if "?s = Some g" for g
      using that by (simp add: scan_Some)
    have e: "binary_search (cmp p) xs lo hi =
      (if cmp p (xs ! mid) > 0 then binary_search (cmp p) xs (mid + 1) hi
       else if cmp p (xs ! mid) < 0 then binary_search (cmp p) xs lo mid
       else if hi - lo = 1 then Some mid else binary_search (cmp p) xs lo (mid + 1))"
      using True by (subst binary_search.simps) (simp add: Let_def mid_def)
    consider "cmp p (xs ! mid) > 0" | "cmp p (xs ! mid) < 0" | "cmp p (xs ! mid) = 0" "hi - lo = 1" | "cmp p (xs ! mid) = 0" "hi - lo \<noteq> 1"
      by linarith
    then show ?thesis
    proof cases
      case 1
      have "mid + 1 \<le> g" if "?s = Some g" for g
      proof (rule ccontr)
        assume "\<not> mid + 1 \<le> g"
        then have "le (xs ! g) (xs ! mid)" using sorted_le [OF assms(1,2)] mid by simp
        then show False using cmp_trans [of p "xs ! g" "xs ! mid"] first [OF that] 1 by simp
      qed
      then show ?thesis using less.hyps [of hi "mid + 1"] less.prems mid 1 by (simp add: e)
    next
      case 2
      have "g < mid" if "?s = Some g" for g
      proof (rule ccontr)
        assume "\<not> g < mid"
        then have "le (xs ! mid) (xs ! g)" using sorted_le [OF assms(1,2)] first [OF that] by simp
        then have "le (xs ! mid) p" using cmp_trans [of "xs ! mid" "xs ! g" p] first [OF that] eq_sym [of p "xs ! g"] by simp
        then show False using 2 cmp_anti [of p "xs ! mid"] by simp
      qed
      then show ?thesis using less.hyps [of mid lo] less.prems mid 2 by (simp add: e)
    next
      case 3
      then have "mid = lo" using mid by simp
      have "?s \<noteq> None" using 3 mid by (auto simp: scan_None)
      then obtain g where g: "?s = Some g" by blast
      then have "g = mid" using less.prems(2) [OF g] 3 mid by linarith
      then show ?thesis using 3 g by (simp add: e)
    next
      case 4
      have "g < mid + 1" if "?s = Some g" for g
        using first [OF that] 4 by (metis less_SucI not_less_eq Suc_eq_plus1)
      moreover have "mid + 1 - lo < hi - lo" using 4 True by (auto simp: mid_def)
      ultimately show ?thesis using less.hyps [of "mid + 1" lo] less.prems mid 4 by (simp add: e)
    qed
  qed
qed

lemma binary_search_scan:
  "sorted_wrt le (take n xs) \<Longrightarrow> n \<le> length xs \<Longrightarrow>
   binary_search (cmp p) xs 0 n = scan (\<lambda>q. cmp p q = 0) xs n 0"
  by (rule binary_search_first) (auto simp: scan_Some)

end

end
