(* ===== verification/StackProps.thy ===== *)
theory StackProps
  imports StackSort
begin

text \<open>
  What the stack promises: the interface of a list with insertion and removal, which the stack
  provides; sorting and searching; and the truth of the mark that a stack is sorted.
\<close>

text \<open>
  A comparison of the library itself: the order of the elements of a SET OF, extended to pointers
  with NULL below everything.
\<close>

definition cmp_cbs :: "cbs ptr \<Rightarrow> cbs ptr \<Rightarrow> int" where
  "cmp_cbs a b = (case (a, b) of
     (None, None) \<Rightarrow> 0 | (None, Some _) \<Rightarrow> - 1 | (Some _, None) \<Rightarrow> 1
   | (Some x, Some y) \<Rightarrow> compare_set_of_element x y)"

lemma compare_set_zero: "compare_set_of_element a b = 0 \<longleftrightarrow> a = b"
proof (induction a arbitrary: b)
  case Nil
  then show ?case by (cases b) (simp_all add: compare_set_of_element_def)
next
  case (Cons x a)
  show ?case
  proof (cases b)
    case (Cons y b')
    then show ?thesis
      using Cons.IH [of b'] by (auto simp: compare_set_of_element_def Let_def word_less_def word_le_def word_uint_eq_iff split: if_splits)
  qed (simp add: compare_set_of_element_def)
qed

lemma compare_set_less: "compare_set_of_element a b < 0 \<longleftrightarrow> a < b"
  using compare_le_iff [of a b] compare_set_zero [of a b] by (auto simp: less_le)

interpretation cbs_order: comparator cmp_cbs
proof
  show "cmp_cbs a b < 0 \<longleftrightarrow> cmp_cbs b a > 0" for a b
  proof (cases a; cases b)
    fix x y assume "a = Some x" "b = Some y"
    then show ?thesis
      using compare_set_less [of x y] compare_le_iff [of y x] by (simp add: cmp_cbs_def not_le [symmetric])
  qed (simp_all add: cmp_cbs_def)
  show "cmp_cbs a c \<le> 0" if "cmp_cbs a b \<le> 0" "cmp_cbs b c \<le> 0" for a b c
    using that by (auto simp: cmp_cbs_def compare_le_iff split: option.splits)
qed

section \<open>The interface of a list\<close>

text \<open>Operations and their results: the new length, 0 when an insertion is refused, and the element removed.\<close>

datatype 'e list_op = Ins 'e nat | Del nat

datatype 'e list_res = Count nat | Removed 'e

fun list_step :: "'e \<Rightarrow> bool \<Rightarrow> 'e list_op \<Rightarrow> 'e list \<Rightarrow> 'e list_res \<times> 'e list" where
  "list_step nul refused (Ins x i) xs = (if refused then (Count 0, xs) else (Count (length xs + 1), list_insert xs i x))"
| "list_step nul refused (Del i) xs = (if i < length xs then (Removed (xs ! i), list_delete xs i) else (Removed nul, xs))"

fun list_run :: "'e \<Rightarrow> bool list \<Rightarrow> 'e list_op list \<Rightarrow> 'e list \<Rightarrow> 'e list_res list \<times> 'e list" where
  "list_run nul (b # bs) (c # cs) xs = (case list_step nul b c xs of (r, ys) \<Rightarrow> map_prod ((#) r) id (list_run nul bs cs ys))"
| "list_run nul _ _ xs = ([], xs)"

text \<open>
  What provides them; \<open>m\<close> is the memory that an insertion may ask for, and below \<open>limit\<close> elements only the memory
  can refuse it.
\<close>

locale array_list =
  fixes ok :: "'s \<Rightarrow> bool" and lst :: "'s \<Rightarrow> 'e list" and nul :: 'e and grants :: "'m \<Rightarrow> bool" and limit :: nat
    and refuses :: "'m \<Rightarrow> 's \<Rightarrow> bool" and ins :: "'m \<Rightarrow> 's \<Rightarrow> 'e \<Rightarrow> nat \<Rightarrow> nat \<times> 's" and del :: "'s \<Rightarrow> nat \<Rightarrow> 'e \<times> 's"
  assumes ins_law: "ok s \<Longrightarrow> ins m s x i = (n, s') \<Longrightarrow> ok s' \<and> (if refuses m s then n = 0 \<and> s' = s
      else n = length (lst s) + 1 \<and> lst s' = list_insert (lst s) i x)"
    and del_law: "ok s \<Longrightarrow> del s i = (x, s') \<Longrightarrow> ok s' \<and> (if i < length (lst s) then x = lst s ! i \<and> lst s' = list_delete (lst s) i
      else x = nul \<and> s' = s)"
    and refuse_law: "ok s \<Longrightarrow> grants m \<Longrightarrow> length (lst s) < limit \<Longrightarrow> \<not> refuses m s"
begin

lemma ins_del:
  assumes "ok s" "i \<le> length (lst s)" "ins m s x i = (n, s')" "n \<noteq> 0"
  shows "\<exists>s''. del s' i = (x, s'') \<and> ok s'' \<and> lst s'' = lst s"
proof -
  have s': "ok s'" "lst s' = list_insert (lst s) i x" using ins_law [OF assms(1,3)] assms(4) by (auto split: if_splits)
  obtain y s'' where d: "del s' i = (y, s'')" by fastforce
  have "i < length (lst s')" using assms(2) by (simp add: s' list_insert_def)
  then show ?thesis using del_law [OF s'(1) d] assms(2) d by (simp add: s' list_insert_def list_delete_def nth_append)
qed

fun impl_step :: "'s \<Rightarrow> 'm \<times> 'e list_op \<Rightarrow> 'e list_res \<times> 's" where
  "impl_step s (m, Ins x i) = map_prod Count id (ins m s x i)"
| "impl_step s (m, Del i) = map_prod Removed id (del s i)"

fun impl_run :: "'s \<Rightarrow> ('m \<times> 'e list_op) list \<Rightarrow> 'e list_res list \<times> 's" where
  "impl_run s [] = ([], s)"
| "impl_run s (c # cs) = (case impl_step s c of (r, t) \<Rightarrow> map_prod ((#) r) id (impl_run t cs))"

lemma impl_step_ok:
  assumes "ok s" "impl_step s (m, c) = (r, s')"
  shows "ok s' \<and> list_step nul (refuses m s) c (lst s) = (r, lst s')"
proof (cases c)
  case (Ins x i)
  obtain n t where t: "ins m s x i = (n, t)" by fastforce
  then show ?thesis using assms(2) Ins ins_law [OF assms(1) t] by (auto split: if_splits)
next
  case (Del i)
  obtain x t where t: "del s i = (x, t)" by fastforce
  then show ?thesis using assms(2) Del del_law [OF assms(1) t] by (auto split: if_splits)
qed

lemma length_list_step: "list_step nul b c xs = (r, ys) \<Longrightarrow> length ys \<le> Suc (length xs)"
  by (cases c) (auto simp: list_insert_def list_delete_def split: if_splits)

lemma impl_run_ok:
  "ok s \<Longrightarrow> impl_run s cs = (rs, s') \<Longrightarrow> ok s' \<and> (\<exists>bs. length bs = length cs \<and> list_run nul bs (map snd cs) (lst s) = (rs, lst s') \<and>
     ((\<forall>c \<in> set cs. grants (fst c)) \<and> length (lst s) + length cs \<le> limit \<longrightarrow> bs = replicate (length cs) False))"
proof (induction cs arbitrary: s rs)
  case Nil
  then show ?case by simp
next
  case (Cons mc cs)
  obtain m c where mc: "mc = (m, c)" by fastforce
  obtain r t where t: "impl_step s mc = (r, t)" by fastforce
  obtain qs u where u: "impl_run t cs = (qs, u)" by fastforce
  then have q: "impl_run t cs = (qs, s')" "rs = r # qs" using Cons.prems(2) t by simp_all
  have st: "ok t" "list_step nul (refuses m s) c (lst s) = (r, lst t)" using impl_step_ok [OF Cons.prems(1) t [unfolded mc]] by simp_all
  obtain bs where b: "ok s'" "length bs = length cs" "list_run nul bs (map snd cs) (lst t) = (qs, lst s')"
    "(\<forall>c \<in> set cs. grants (fst c)) \<and> length (lst t) + length cs \<le> limit \<longrightarrow> bs = replicate (length cs) False"
    using Cons.IH [OF st(1) q(1)] by blast
  have "refuses m s # bs = replicate (length (mc # cs)) False"
    if "(\<forall>c \<in> set (mc # cs). grants (fst c)) \<and> length (lst s) + length (mc # cs) \<le> limit"
    using that b(4) length_list_step [OF st(2)] refuse_law [OF Cons.prems(1), of m] by (simp add: mc)
  moreover have "list_run nul (refuses m s # bs) (map snd (mc # cs)) (lst s) = (rs, lst s')" using st(2) b(3) q(2) by (simp add: mc)
  ultimately show ?case using b(1,2) by (intro conjI exI [of _ "refuses m s # bs"]) simp_all
qed

end

text \<open>The stack provides the interface; a stack that is there is not lost.\<close>

definition sk_ins :: "allocator \<Rightarrow> ('a, 'c) stack_st \<Rightarrow> 'a ptr \<Rightarrow> nat \<Rightarrow> nat \<times> ('a, 'c) stack_st" where
  "sk_ins al s p i = map_prod id the (OPENSSL_sk_insert al (Some s) p i)"

definition sk_del :: "('a, 'c) stack_st \<Rightarrow> nat \<Rightarrow> 'a ptr \<times> ('a, 'c) stack_st" where
  "sk_del s i = map_prod id the (OPENSSL_sk_delete (Some s) i)"

definition sk_refuses :: "allocator \<Rightarrow> ('a, 'c) stack_st \<Rightarrow> bool" where
  "sk_refuses al s \<longleftrightarrow> num s = 2147483647 \<or> num_alloc s = num s + 1 \<and> \<not> al (num_alloc s * 2 * 8)"

lemma OPENSSL_sk_delete_out: "num s \<le> i \<Longrightarrow> OPENSSL_sk_delete (Some s) i = (None, Some s)"
  by (simp add: OPENSSL_sk_delete_def)

interpretation stack: array_list sk_ok sk_list None "\<lambda>al. \<forall>n. al n" 2147483647 sk_refuses sk_ins sk_del
proof
  fix s s' :: "('a, 'c) stack_st" and m :: allocator and x :: "'a ptr" and i n :: nat
  assume ok: "sk_ok s"
  show "sk_ok s' \<and> (if sk_refuses m s then n = 0 \<and> s' = s else n = length (sk_list s) + 1 \<and> sk_list s' = list_insert (sk_list s) i x)"
    if "sk_ins m s x i = (n, s')"
    using OPENSSL_sk_insert_cases [OF ok, of m x i] that ok length_sk_list [OF ok] by (auto simp: sk_ins_def sk_refuses_def)
  show "sk_ok s' \<and> (if i < length (sk_list s) then x = sk_list s ! i \<and> sk_list s' = list_delete (sk_list s) i else x = None \<and> s' = s)"
    if "sk_del s i = (x, s')"
    using OPENSSL_sk_delete_spec [OF ok, of i] OPENSSL_sk_delete_out [of s i] that ok length_sk_list [OF ok]
    by (cases "i < num s") (auto simp: sk_del_def)
  show "\<not> sk_refuses m s" if "\<forall>n. m n" "length (sk_list s) < 2147483647"
    using that length_sk_list [OF ok] by (simp add: sk_refuses_def)
qed

section \<open>What the stack promises\<close>

definition sk_inv :: "('a, 'c) call_cmp_func \<Rightarrow> ('a, 'c) stack_st \<Rightarrow> bool" where
  "sk_inv call s \<longleftrightarrow> sk_ok s \<and> (case sk_comp s of None \<Rightarrow> \<not> sorted_flag s
     | Some c \<Rightarrow> sorted_flag s \<longrightarrow> sorted_wrt (\<lambda>a b. call c a b \<le> 0) (sk_list s))"

lemma sorted_wrt_delete: "sorted_wrt P xs \<Longrightarrow> sorted_wrt P (list_delete xs i)"
proof (cases "i < length xs")
  case True
  assume s: "sorted_wrt P xs"
  have "xs = take i xs @ xs ! i # drop (Suc i) xs" using True by (simp add: Cons_nth_drop_Suc)
  then have "sorted_wrt P (take i xs @ xs ! i # drop (Suc i) xs)" using s by simp
  then show ?thesis by (simp add: list_delete_def sorted_wrt_append)
qed (simp add: list_delete_def)

lemma sorted_wrt_short: "n < 2 \<Longrightarrow> sorted_wrt P (take n xs)"
  by (cases xs) (auto simp: take_Cons' less_Suc_eq numeral_2_eq_2)

lemma OPENSSL_sk_sort_spec:
  assumes "sk_ok s" "sk_comp s = Some c" "cmp_order (call c)" "\<not> sorted_flag s"
  shows "\<exists>s'. OPENSSL_sk_sort call (Some s) = Some s' \<and> sk_ok s' \<and> sorted_flag s' \<and> sk_comp s' = Some c
    \<and> sorted_wrt (\<lambda>a b. call c a b \<le> 0) (sk_list s') \<and> mset (sk_list s') = mset (sk_list s)"
proof -
  define dat where "dat = (if num s \<ge> 2
     then pop_heap (call c) (build_heap (call c) (sk_data s) (parent_idx (num s - 1)) (num s)) (num s - 1) else sk_data s)"
  have r: "OPENSSL_sk_sort call (Some s) = Some (s\<lparr>sk_data := dat, sorted_flag := True\<rparr>)"
    using assms by (simp add: OPENSSL_sk_sort_def dat_def Let_def)
  have "sorted_wrt (\<lambda>a b. call c a b \<le> 0) (take (num s) dat) \<and> mset (take (num s) dat) = mset (take (num s) (sk_data s))
    \<and> length dat = length (sk_data s)"
  proof (cases "2 \<le> num s")
    case True
    then show ?thesis
      using comparator.heap_sort_spec [of "call c" "num s" "sk_data s"] assms(1,3)
      by (simp add: dat_def comparator_iff sk_ok_def)
  next
    case False
    then show ?thesis using sorted_wrt_short [of "num s"] by (simp add: dat_def)
  qed
  then show ?thesis using assms by (simp add: r sk_ok_def sk_list_def)
qed

lemma OPENSSL_sk_find_spec:
  assumes "sk_inv call s" "\<And>c. sk_comp s = Some c \<Longrightarrow> cmp_order (call c)"
  shows "OPENSSL_sk_find call (Some s) p = (case sk_comp s of
      None \<Rightarrow> scan (\<lambda>q. q = p) (sk_data s) (num s) 0
    | Some c \<Rightarrow> if p = None then None else scan (\<lambda>q. call c p q = 0) (sk_data s) (num s) 0)"
proof (cases "sk_comp s")
  case None
  then show ?thesis by (simp add: OPENSSL_sk_find_def)
next
  case (Some c)
  have "binary_search (call c p) (sk_data s) 0 (num s) = scan (\<lambda>q. call c p q = 0) (sk_data s) (num s) 0"
    if "OPENSSL_sk_is_sorted (Some s)"
  proof -
    have "sorted_wrt (\<lambda>a b. call c a b \<le> 0) (take (num s) (sk_data s))"
    proof (cases "sorted_flag s")
      case True
      then show ?thesis using assms(1) Some by (simp add: sk_inv_def sk_list_def)
    next
      case False
      then show ?thesis using that sorted_wrt_short [of "num s"] by (simp add: OPENSSL_sk_is_sorted_def)
    qed
    then show ?thesis
      using comparator.binary_search_scan [of "call c"] assms Some by (simp add: comparator_iff sk_inv_def sk_ok_def)
  qed
  then show ?thesis using Some by (simp add: OPENSSL_sk_find_def)
qed

lemma scan_list: "sk_ok s \<Longrightarrow> scan q (sk_data s) (num s) 0 = scan q (sk_list s) (num s) 0"
proof -
  assume "sk_ok s"
  have "scan q xs n i = scan q (take n xs) n i" for xs n i
    by (induction q xs n i rule: scan.induct) (subst (1 2) scan.simps, simp)
  then show ?thesis by (simp add: sk_list_def)
qed

lemma delete_first:
  assumes "scan (\<lambda>q. q = p) xs (length xs) 0 = Some i"
  shows "xs ! i = p" "list_delete xs i = remove1 p xs"
proof -
  have i: "i < length xs" "xs ! i = p" "\<forall>k < i. xs ! k \<noteq> p" using assms by (simp_all add: scan_Some)
  show "xs ! i = p" by (rule i)
  have "p \<notin> set (take i xs)" using i by (auto simp: in_set_conv_nth)
  moreover have "xs = take i xs @ p # drop (Suc i) xs" using i id_take_nth_drop [of i xs] by simp
  ultimately have "remove1 p xs = take i xs @ drop (Suc i) xs" by (metis remove1.simps(2) remove1_append)
  then show "list_delete xs i = remove1 p xs" by (simp add: list_delete_def)
qed

text \<open>
  An insertion puts the pointer at the place asked for, or at the end, and returns the new
  length; it returns zero and leaves the stack alone exactly when the stack is full or the
  allocator refuses the doubled array.
\<close>

theorem sk_insert_inserts:
  assumes "sk_ok s" "OPENSSL_sk_insert al (Some s) p i = (n, sk')"
  shows "if num s = 2147483647 \<or> num_alloc s = num s + 1 \<and> \<not> al (num_alloc s * 2 * 8)
    then n = 0 \<and> sk' = Some s
    else n = num s + 1 \<and> (\<exists>s'. sk' = Some s' \<and> sk_ok s' \<and> sk_list s' = take i (sk_list s) @ p # drop i (sk_list s))"
  using OPENSSL_sk_insert_cases [OF assms(1), of al p i] assms(2) by (auto simp: list_insert_def)

lemma OPENSSL_sk_delete_ptr_spec:
  assumes "sk_ok s"
  shows "\<exists>s'. OPENSSL_sk_delete_ptr (Some s) p = (if p \<in> set (sk_list s) then p else None, Some s') \<and> sk_ok s'
    \<and> sk_list s' = remove1 p (sk_list s)"
proof (cases "scan (\<lambda>q. q = p) (sk_list s) (num s) 0")
  case None
  then have "p \<notin> set (sk_list s)" using assms by (auto simp: scan_None in_set_conv_nth)
  then show ?thesis using None assms by (simp add: OPENSSL_sk_delete_ptr_def scan_list remove1_idem)
next
  case (Some i)
  note d = delete_first [of p "sk_list s" i]
  have "i < num s" "p \<in> set (sk_list s)" using Some assms by (auto simp: scan_Some in_set_conv_nth)
  then show ?thesis
    using OPENSSL_sk_delete_spec [OF assms, of i] d Some assms by (auto simp: OPENSSL_sk_delete_ptr_def scan_list)
qed

lemma OPENSSL_sk_pop_spec:
  assumes "sk_ok s"
  shows "\<exists>s'. OPENSSL_sk_pop (Some s) = (if sk_list s = [] then None else last (sk_list s), Some s') \<and> sk_ok s'
    \<and> sk_list s' = butlast (sk_list s)"
proof (cases "num s = 0")
  case True
  then show ?thesis using assms by (simp add: OPENSSL_sk_pop_def sk_list_def)
next
  case False
  then have "sk_list s \<noteq> []" using length_sk_list [OF assms] by auto
  then show ?thesis
    using OPENSSL_sk_delete_spec [OF assms, of "num s - 1"] False length_sk_list [OF assms]
    by (auto simp: OPENSSL_sk_pop_def list_delete_def last_conv_nth butlast_conv_take)
qed

lemma OPENSSL_sk_shift_spec:
  assumes "sk_ok s"
  shows "\<exists>s'. OPENSSL_sk_shift (Some s) = (if sk_list s = [] then None else hd (sk_list s), Some s') \<and> sk_ok s'
    \<and> sk_list s' = tl (sk_list s)"
proof (cases "num s = 0")
  case True
  then show ?thesis using assms by (simp add: OPENSSL_sk_shift_def sk_list_def)
next
  case False
  then have "sk_list s \<noteq> []" using length_sk_list [OF assms] by auto
  then show ?thesis
    using OPENSSL_sk_delete_spec [OF assms, of 0] False
    by (auto simp: OPENSSL_sk_shift_def list_delete_def hd_conv_nth drop_Suc)
qed

text \<open>
  The removals are those of lists: by index, the first occurrence of a pointer, all pointers
  that satisfy a test, the last and the first; out of range or absent, nothing changes.
\<close>

theorem sk_deletions:
  assumes "sk_ok s"
  shows "(\<exists>s'. OPENSSL_sk_delete (Some s) i = (if i < num s then sk_list s ! i else None, Some s') \<and> sk_ok s'
        \<and> sk_list s' = take i (sk_list s) @ drop (Suc i) (sk_list s))
    \<and> (\<exists>s'. OPENSSL_sk_delete_ptr (Some s) p = (if p \<in> set (sk_list s) then p else None, Some s') \<and> sk_ok s'
        \<and> sk_list s' = remove1 p (sk_list s))
    \<and> (\<exists>s'. OPENSSL_sk_delete_if (Some s) f = Some s' \<and> sk_ok s' \<and> sk_list s' = filter (\<lambda>p. \<not> f p) (sk_list s))
    \<and> (\<exists>s'. OPENSSL_sk_pop (Some s) = (if sk_list s = [] then None else last (sk_list s), Some s') \<and> sk_ok s'
        \<and> sk_list s' = butlast (sk_list s))
    \<and> (\<exists>s'. OPENSSL_sk_shift (Some s) = (if sk_list s = [] then None else hd (sk_list s), Some s') \<and> sk_ok s'
        \<and> sk_list s' = tl (sk_list s))"
proof (intro conjI)
  show "\<exists>s'. OPENSSL_sk_delete (Some s) i = (if i < num s then sk_list s ! i else None, Some s') \<and> sk_ok s'
      \<and> sk_list s' = take i (sk_list s) @ drop (Suc i) (sk_list s)"
    using OPENSSL_sk_delete_spec [OF assms, of i] OPENSSL_sk_delete_out [of s i] assms
    by (cases "i < num s") (auto simp: list_delete_def)
  show "\<exists>s'. OPENSSL_sk_delete_if (Some s) f = Some s' \<and> sk_ok s' \<and> sk_list s' = filter (\<lambda>p. \<not> f p) (sk_list s)"
    using OPENSSL_sk_delete_if_spec [OF assms, of f] by blast
qed (rule OPENSSL_sk_delete_ptr_spec [OF assms] OPENSSL_sk_pop_spec [OF assms] OPENSSL_sk_shift_spec [OF assms])+

definition sample_stack :: "(nat, bool) stack_st" where
  "sample_stack = \<lparr>num = 3, sk_data = [Some 5, Some 2, Some 9, None], sorted_flag = False, num_alloc = 4, sk_comp = Some True\<rparr>"

definition sample_cmp :: "(nat, bool) call_cmp_func" where
  "sample_cmp c a b = (case (a, b) of (None, None) \<Rightarrow> 0 | (None, Some _) \<Rightarrow> - 1 | (Some _, None) \<Rightarrow> 1
     | (Some x, Some y) \<Rightarrow> int x - int y)"

lemma sample_ok: "sk_ok sample_stack" "sk_list sample_stack = [Some 5, Some 2, Some 9]"
  by (simp_all add: sk_ok_def sk_list_def sample_stack_def)

lemma sample_order: "cmp_order (sample_cmp c)"
  by (auto simp: cmp_order_def sample_cmp_def split: option.splits)

theorem sk_insert_inserts_witness:
  "\<exists>s'. OPENSSL_sk_insert (\<lambda>n. True) (Some sample_stack) (Some 7) 1 = (4, Some s')
     \<and> sk_list s' = [Some 5, Some 7, Some 2, Some 9]"
proof -
  obtain n sk' where e: "OPENSSL_sk_insert (\<lambda>n. True) (Some sample_stack) (Some 7) 1 = (n, sk')"
    by (cases "OPENSSL_sk_insert (\<lambda>n. True) (Some sample_stack) (Some 7) 1")
  have "num sample_stack = 3" by (simp add: sample_stack_def)
  then show ?thesis using sk_insert_inserts [OF sample_ok(1) e] e sample_ok(2) by auto
qed

theorem sk_deletions_witness:
  "\<exists>s'. OPENSSL_sk_delete_ptr (Some sample_stack) (Some 2) = (Some 2, Some s') \<and> sk_list s' = [Some 5, Some 9]"
  using sk_deletions [OF sample_ok(1), of 0 "Some 2"] sample_ok(2) by auto

text \<open>
  C32.  Any sequence of insertions and removals by index gives on the stack what it gives on a list: the count after
  every insertion, the pointer of every removal, NULL when the index is out of range, and the list at the end.  An
  insertion that is refused returns 0 and leaves the stack as it was; none is while memory is granted and the
  stack is shorter than \<^verbatim>\<open>INT_MAX\<close>.
\<close>

theorem stack_run_refines_list:
  assumes "sk_ok s" "array_list.impl_run sk_ins sk_del s cs = (rs, s')"
  shows "sk_ok s' \<and> (\<exists>refused. length refused = length cs \<and> list_run None refused (map snd cs) (sk_list s) = (rs, sk_list s') \<and>
    ((\<forall>c \<in> set cs. \<forall>n. fst c n) \<and> length (sk_list s) + length cs \<le> 2147483647 \<longrightarrow> refused = replicate (length cs) False))"
  using stack.impl_run_ok [OF assms] .

theorem stack_run_refines_list_witness:
  "\<exists>s'. array_list.impl_run sk_ins sk_del sample_stack [(\<lambda>n. True, Del 0), (\<lambda>n. True, Ins (Some 4) 1), (\<lambda>n. True, Del 7)] =
     ([Removed (Some 5), Count 3, Removed None], s') \<and> sk_list s' = [Some 2, Some 4, Some 9]"
proof -
  let ?cs = "[(\<lambda>n. True, Del 0), (\<lambda>n. True, Ins (Some 4) 1), (\<lambda>n. True, Del 7)] :: (allocator \<times> nat ptr list_op) list"
  obtain rs s' where e: "array_list.impl_run sk_ins sk_del sample_stack ?cs = (rs, s')" by fastforce
  obtain bs where b: "length bs = length ?cs" "list_run None bs (map snd ?cs) (sk_list sample_stack) = (rs, sk_list s')"
    "(\<forall>c \<in> set ?cs. \<forall>n. fst c n) \<and> length (sk_list sample_stack) + length ?cs \<le> 2147483647 \<longrightarrow> bs = replicate (length ?cs) False"
    using stack_run_refines_list [OF sample_ok(1) e] by blast
  have "bs = [False, False, False]" using b(3) by (simp add: sample_ok(2) numeral_3_eq_3)
  then have "rs = [Removed (Some 5), Count 3, Removed None] \<and> sk_list s' = [Some 2, Some 4, Some 9]"
    using b(2) by (auto simp: sample_ok(2) list_insert_def list_delete_def)
  then show ?thesis using e by blast
qed

text \<open>
  C6.  Sorting sorts: with a comparison function that is the sign of a total preorder, the pointers
  end in ascending order, none lost and none added, and the stack is marked as sorted.
\<close>

theorem sk_sort_sorts:
  assumes "sk_ok s" "sk_comp s = Some c" "cmp_order (call c)" "\<not> sorted_flag s"
  shows "\<exists>s'. OPENSSL_sk_sort call (Some s) = Some s' \<and> sk_ok s' \<and> sorted_flag s'
    \<and> sorted_wrt (\<lambda>a b. call c a b \<le> 0) (sk_list s') \<and> mset (sk_list s') = mset (sk_list s)"
  using OPENSSL_sk_sort_spec [of s c call] assms by blast

theorem sk_sort_sorts_witness:
  "\<exists>s'. OPENSSL_sk_sort sample_cmp (Some sample_stack) = Some s' \<and> sk_ok s'
     \<and> sorted_wrt (\<lambda>a b. sample_cmp True a b \<le> 0) (sk_list s') \<and> mset (sk_list s') = {#Some 5, Some 2, Some 9#}"
proof -
  have "sk_comp sample_stack = Some True" "\<not> sorted_flag sample_stack" by (simp_all add: sample_stack_def)
  then show ?thesis using sk_sort_sorts [of sample_stack True sample_cmp] sample_ok sample_order by auto
qed

text \<open>What a pointer in the stack has to satisfy to be found.\<close>

definition sk_match :: "('a, 'c) call_cmp_func \<Rightarrow> ('a, 'c) stack_st \<Rightarrow> 'a ptr \<Rightarrow> 'a ptr \<Rightarrow> bool" where
  "sk_match call s p q \<longleftrightarrow> (case sk_comp s of None \<Rightarrow> q = p | Some c \<Rightarrow> p \<noteq> None \<and> call c p q = 0)"

text \<open>
  C7.  Finding returns the first match, whichever search the code uses: on a stack that is marked as
  sorted the binary search returns the same index as the scan from the front does.
\<close>

theorem sk_find_first:
  assumes "sk_inv call s" "\<forall>c. sk_comp s = Some c \<longrightarrow> cmp_order (call c)"
  shows "case OPENSSL_sk_find call (Some s) p of
      None \<Rightarrow> \<forall>q \<in> set (sk_list s). \<not> sk_match call s p q
    | Some i \<Rightarrow> i < num s \<and> sk_match call s p (sk_list s ! i) \<and> (\<forall>k < i. \<not> sk_match call s p (sk_list s ! k))"
proof -
  have ok: "sk_ok s" using assms(1) by (simp add: sk_inv_def)
  have "OPENSSL_sk_find call (Some s) p = scan (sk_match call s p) (sk_list s) (num s) 0"
  proof (cases "sk_comp s")
    case None
    then have "sk_match call s p = (\<lambda>q. q = p)" by (simp add: sk_match_def fun_eq_iff)
    then show ?thesis using OPENSSL_sk_find_spec [OF assms(1), of p] None scan_list [OF ok] by simp
  next
    case (Some c)
    have n: "scan (\<lambda>q. False) (sk_list s) (num s) 0 = None" by (simp add: scan_None)
    have "sk_match call s p = (\<lambda>q. p \<noteq> None \<and> call c p q = 0)" using Some by (simp add: sk_match_def fun_eq_iff)
    then show ?thesis using OPENSSL_sk_find_spec [OF assms(1), of p] assms(2) scan_list [OF ok] Some n by simp
  qed
  then show ?thesis
    using length_sk_list [OF ok] by (auto simp: scan_Some scan_None in_set_conv_nth split: option.split)
qed

theorem sk_find_first_witness:
  "OPENSSL_sk_find sample_cmp (Some sample_stack) (Some 9) \<noteq> None"
proof -
  have "sk_inv sample_cmp sample_stack" using sample_ok by (simp add: sk_inv_def) (simp add: sample_stack_def)
  note f = sk_find_first [OF this, of "Some 9"]
  have "sk_match sample_cmp sample_stack (Some 9) (Some 9)" by (simp add: sk_match_def sample_stack_def sample_cmp_def)
  then show ?thesis
    using f sample_order by (cases "OPENSSL_sk_find sample_cmp (Some sample_stack) (Some 9)") (auto simp: sample_ok(2))
qed

text \<open>
  C31.  The mark of a sorted stack tells the truth through every operation that keeps or sets it:
  insertion and a new comparison function clear it, removal keeps an ascending stack ascending,
  sorting establishes it.  (Overwriting a slot is not among them.)
\<close>

theorem sk_sorted_invariant:
  assumes "sk_inv call s" "\<forall>c. cmp_order (call c)"
  shows "(\<forall>s'. snd (OPENSSL_sk_insert al (Some s) p i) = Some s' \<longrightarrow> sk_inv call s')
    \<and> (\<forall>s'. snd (OPENSSL_sk_delete (Some s) i) = Some s' \<longrightarrow> sk_inv call s')
    \<and> (\<forall>s'. OPENSSL_sk_delete_if (Some s) f = Some s' \<longrightarrow> sk_inv call s')
    \<and> (\<forall>s'. OPENSSL_sk_sort call (Some s) = Some s' \<longrightarrow> sk_inv call s')
    \<and> (\<forall>s'. OPENSSL_sk_zero (Some s) = Some s' \<longrightarrow> sk_inv call s')
    \<and> (\<forall>s'. OPENSSL_sk_dup al (Some s) = Some s' \<longrightarrow> sk_inv call s' \<and> sk_list s' = sk_list s)
    \<and> sk_inv call (snd (OPENSSL_sk_set_cmp_func s cf))
    \<and> (\<forall>s'. OPENSSL_sk_new al cf = Some s' \<longrightarrow> sk_inv call s' \<and> sk_list s' = [])"
proof (intro conjI allI impI)
  have ok: "sk_ok s" using assms(1) by (simp add: sk_inv_def)
  fix s'
  show "sk_inv call s'" if "snd (OPENSSL_sk_insert al (Some s) p i) = Some s'"
    using OPENSSL_sk_insert_cases [OF ok, of al p i] that assms(1) by (auto simp: sk_inv_def split: option.splits)
  show "sk_inv call s'" if "snd (OPENSSL_sk_delete (Some s) i) = Some s'"
    using OPENSSL_sk_delete_spec [OF ok, of i] OPENSSL_sk_delete_out [of s i] that assms(1) sorted_wrt_delete
    by (cases "i < num s") (fastforce simp: sk_inv_def split: option.splits)+
  show "sk_inv call s'" if "OPENSSL_sk_delete_if (Some s) f = Some s'"
    using OPENSSL_sk_delete_if_spec [OF ok, of f] that assms(1) sorted_wrt_filter
    by (fastforce simp: sk_inv_def split: option.splits)
  show "sk_inv call s'" if "OPENSSL_sk_sort call (Some s) = Some s'"
  proof (cases "sk_comp s = None \<or> sorted_flag s")
    case True
    then have "s' = s" using that by (auto simp: OPENSSL_sk_sort_def split: option.splits)
    then show ?thesis using assms(1) by simp
  next
    case False
    then obtain c where "sk_comp s = Some c" by (cases "sk_comp s") auto
    then show ?thesis using OPENSSL_sk_sort_spec [of s c call] ok False assms(2) that by (auto simp: sk_inv_def)
  qed
  show "sk_inv call s'" if "OPENSSL_sk_zero (Some s) = Some s'"
    using that assms(1) by (auto simp: OPENSSL_sk_zero_def sk_inv_def sk_ok_def sk_list_def split: if_splits option.splits)
  show "sk_inv call s'" "sk_list s' = sk_list s" if "OPENSSL_sk_dup al (Some s) = Some s'"
    using that assms(1) by (auto simp: OPENSSL_sk_dup_def sk_inv_def sk_ok_def sk_list_def split: if_splits option.splits)
  show "sk_inv call s'" "sk_list s' = []" if "OPENSSL_sk_new al cf = Some s'"
    using that by (auto simp: OPENSSL_sk_new_def sk_inv_def sk_ok_def sk_list_def kMinSize_def split: if_splits option.splits)
next
  show "sk_inv call (snd (OPENSSL_sk_set_cmp_func s cf))"
    using assms(1) by (auto simp: OPENSSL_sk_set_cmp_func_def sk_inv_def sk_ok_def sk_list_def split: option.splits)
qed

theorem sk_sorted_invariant_witness:
  "\<exists>s'. OPENSSL_sk_sort sample_cmp (Some sample_stack) = Some s' \<and> sk_inv sample_cmp s'"
proof -
  have "sk_inv sample_cmp sample_stack" using sample_ok by (simp add: sk_inv_def) (simp add: sample_stack_def)
  from sk_sorted_invariant [OF this] sample_order
  have "\<forall>s'. OPENSSL_sk_sort sample_cmp (Some sample_stack) = Some s' \<longrightarrow> sk_inv sample_cmp s'" by blast
  then show ?thesis by (simp add: OPENSSL_sk_sort_def Let_def sample_stack_def)
qed




end
