(* ===== verification/BioPair.thy ===== *)
theory BioPair
  imports Prelude
begin

text \<open>
  The pair of connected BIOs (\<^verbatim>\<open>crypto/bio/pair.c\<close>) behind the generic entry points of
  \<^verbatim>\<open>crypto/bio/bio.c\<close>.  The BIOs live in a store from identities to records, so that \<^verbatim>\<open>peer\<close> is a
  reference from one to the other; \<^verbatim>\<open>bio->ptr\<close>, which each BIO owns alone, is a record inside it.
  What one side writes goes into its own ring buffer, and the other side reads from there.

  The two loops that copy across the end of a ring run until nothing is left to copy; they are
  partial functions (\<open>None\<close>: no return), and are shown to return.  An operation on the store is an
  optional result for that reason only.

  The abstract view of one direction is a bounded queue of bytes.
\<close>

section \<open>The code\<close>

record bio_bio_st =
  bp_peer :: "nat option"
  bp_closed :: bool
  bp_len :: nat
  bp_offset :: nat
  bp_size :: nat
  bp_buf :: "byte list option"
  bp_request :: nat

text \<open>
  The fields of a BIO that the pair uses.  The method table is that of the pair, there is no next BIO
  in a chain, and the BIO has one reference.
\<close>

record bio =
  bio_init :: bool
  bio_shutdown :: int
  bio_flags :: u32
  retry_reason :: int
  num_read :: u64
  num_write :: u64
  bio_ptr :: bio_bio_st

type_synonym bios = "nat \<Rightarrow> bio option"

abbreviation bio_of :: "bios \<Rightarrow> nat \<Rightarrow> bio" where "bio_of st i \<equiv> the (st i)"
abbreviation pair_of :: "bios \<Rightarrow> nat \<Rightarrow> bio_bio_st" where "pair_of st i \<equiv> bio_ptr (the (st i))"

definition set_bio :: "nat \<Rightarrow> (bio \<Rightarrow> bio) \<Rightarrow> bios \<Rightarrow> bios" where
  "set_bio i f st = st(i \<mapsto> f (bio_of st i))"

definition set_pair :: "nat \<Rightarrow> (bio_bio_st \<Rightarrow> bio_bio_st) \<Rightarrow> bios \<Rightarrow> bios" where
  "set_pair i f st = set_bio i (\<lambda>b. b\<lparr>bio_ptr := f (bio_ptr b)\<rparr>) st"

definition BIO_FLAGS_READ :: u32 where "BIO_FLAGS_READ = 0x01"
definition BIO_FLAGS_WRITE :: u32 where "BIO_FLAGS_WRITE = 0x02"
definition BIO_FLAGS_IO_SPECIAL :: u32 where "BIO_FLAGS_IO_SPECIAL = 0x04"
definition BIO_FLAGS_SHOULD_RETRY :: u32 where "BIO_FLAGS_SHOULD_RETRY = 0x08"

lemmas bio_flag_defs = BIO_FLAGS_READ_def BIO_FLAGS_WRITE_def BIO_FLAGS_IO_SPECIAL_def BIO_FLAGS_SHOULD_RETRY_def

definition BIO_set_flags :: "nat \<Rightarrow> u32 \<Rightarrow> bios \<Rightarrow> bios" where
  "BIO_set_flags i flags = set_bio i (\<lambda>b. b\<lparr>bio_flags := bio_flags b OR flags\<rparr>)"

definition BIO_clear_flags :: "nat \<Rightarrow> u32 \<Rightarrow> bios \<Rightarrow> bios" where
  "BIO_clear_flags i flags = set_bio i (\<lambda>b. b\<lparr>bio_flags := bio_flags b AND NOT flags\<rparr>)"

definition BIO_test_flags :: "nat \<Rightarrow> u32 \<Rightarrow> bios \<Rightarrow> u32" where
  "BIO_test_flags i flags st = bio_flags (bio_of st i) AND flags"

definition BIO_should_read :: "nat \<Rightarrow> bios \<Rightarrow> u32" where
  "BIO_should_read i = BIO_test_flags i BIO_FLAGS_READ"

definition BIO_should_write :: "nat \<Rightarrow> bios \<Rightarrow> u32" where
  "BIO_should_write i = BIO_test_flags i BIO_FLAGS_WRITE"

definition BIO_should_retry :: "nat \<Rightarrow> bios \<Rightarrow> u32" where
  "BIO_should_retry i = BIO_test_flags i BIO_FLAGS_SHOULD_RETRY"

definition BIO_set_retry_read :: "nat \<Rightarrow> bios \<Rightarrow> bios" where
  "BIO_set_retry_read i =
     set_bio i (\<lambda>b. b\<lparr>bio_flags := bio_flags b OR (BIO_FLAGS_READ OR BIO_FLAGS_SHOULD_RETRY)\<rparr>)"

definition BIO_set_retry_write :: "nat \<Rightarrow> bios \<Rightarrow> bios" where
  "BIO_set_retry_write i =
     set_bio i (\<lambda>b. b\<lparr>bio_flags := bio_flags b OR (BIO_FLAGS_WRITE OR BIO_FLAGS_SHOULD_RETRY)\<rparr>)"

definition kRetryFlags :: u32 where
  "kRetryFlags = (BIO_FLAGS_READ OR BIO_FLAGS_WRITE OR BIO_FLAGS_IO_SPECIAL) OR BIO_FLAGS_SHOULD_RETRY"

definition BIO_get_retry_flags :: "nat \<Rightarrow> bios \<Rightarrow> u32" where
  "BIO_get_retry_flags i st = bio_flags (bio_of st i) AND kRetryFlags"

definition BIO_clear_retry_flags :: "nat \<Rightarrow> bios \<Rightarrow> bios" where
  "BIO_clear_retry_flags i =
     set_bio i (\<lambda>b. b\<lparr>bio_flags := bio_flags b AND NOT kRetryFlags, retry_reason := 0\<rparr>)"

definition BIO_PAIR_SIZE :: nat where "BIO_PAIR_SIZE = 56"
definition BIO_SIZE :: nat where "BIO_SIZE = 96"

text \<open>\<^verbatim>\<open>BIO_new\<close> with the methods of the pair: the new BIO gets the identity \<open>i\<close>.\<close>

definition bio_new :: "allocator \<Rightarrow> bio_bio_st option" where
  "bio_new al =
     (if \<not> al BIO_PAIR_SIZE then None
      else Some \<lparr>bp_peer = None, bp_closed = False, bp_len = 0, bp_offset = 0, bp_size = 17 * 1024,
             bp_buf = None, bp_request = 0\<rparr>)"

definition BIO_new :: "allocator \<Rightarrow> nat \<Rightarrow> bios \<Rightarrow> bool \<times> bios" where
  "BIO_new al i st =
     (if \<not> al BIO_SIZE then (False, st)
      else case bio_new al of
        None \<Rightarrow> (False, st)
      | Some b \<Rightarrow> (True, st(i \<mapsto> \<lparr>bio_init = False, bio_shutdown = 1, bio_flags = 0, retry_reason = 0,
             num_read = 0, num_write = 0, bio_ptr = b\<rparr>)))"

definition bio_destroy_pair :: "nat \<Rightarrow> bios \<Rightarrow> bios" where
  "bio_destroy_pair i st = (case bp_peer (pair_of st i) of
     None \<Rightarrow> st
   | Some j \<Rightarrow>
       let st = set_pair j (\<lambda>b. b\<lparr>bp_peer := None\<rparr>) st;
           st = set_bio j (\<lambda>b. b\<lparr>bio_init := False\<rparr>) st;
           st = set_pair j (\<lambda>b. b\<lparr>bp_len := 0, bp_offset := 0\<rparr>) st;
           st = set_pair i (\<lambda>b. b\<lparr>bp_peer := None\<rparr>) st;
           st = set_bio i (\<lambda>b. b\<lparr>bio_init := False\<rparr>) st
       in set_pair i (\<lambda>b. b\<lparr>bp_len := 0, bp_offset := 0\<rparr>) st)"

text \<open>
  \<^verbatim>\<open>bio_free\<close> releases the ring and the record, which go with the BIO: \<^verbatim>\<open>BIO_free\<close> of the last
  reference takes the BIO out of the store.
\<close>

definition bio_free :: "nat \<Rightarrow> bios \<Rightarrow> bios" where
  "bio_free i st = (if bp_peer (pair_of st i) \<noteq> None then bio_destroy_pair i st else st)"

definition BIO_free :: "nat \<Rightarrow> bios \<Rightarrow> bios" where
  "BIO_free i st = (bio_free i st)(i := None)"

text \<open>The loop that reads \<open>rest\<close> bytes out of a ring.\<close>

partial_function (option) read_loop :: "bio_bio_st \<Rightarrow> nat \<Rightarrow> byte list \<Rightarrow> (bio_bio_st \<times> byte list) option" where
  "read_loop b rest out =
     (let chunk = (if bp_offset b + rest \<le> bp_size b then rest else bp_size b - bp_offset b);
          out = out @ take chunk (drop (bp_offset b) (the (bp_buf b)));
          b = b\<lparr>bp_len := bp_len b - chunk\<rparr>;
          b = (if bp_len b \<noteq> 0 then
                 let b = b\<lparr>bp_offset := bp_offset b + chunk\<rparr>
                 in if bp_offset b = bp_size b then b\<lparr>bp_offset := 0\<rparr> else b
               else b\<lparr>bp_offset := 0\<rparr>)
      in if rest - chunk \<noteq> 0 then read_loop b (rest - chunk) out else Some (b, out))"

text \<open>The result of a read: the returned value, the bytes put into the caller's array, the store.\<close>

definition bio_read :: "nat \<Rightarrow> bool \<Rightarrow> nat \<Rightarrow> bios \<Rightarrow> (int \<times> byte list \<times> bios) option" where
  "bio_read i buf_nonnull size0 st =
     (let st = BIO_clear_retry_flags i st
      in if \<not> bio_init (bio_of st i) then Some (0, [], st)
         else
           let j = the (bp_peer (pair_of st i));
               st = set_pair j (\<lambda>b. b\<lparr>bp_request := 0\<rparr>) st
           in if \<not> buf_nonnull \<or> size0 = 0 then Some (0, [], st)
              else if bp_len (pair_of st j) = 0 then
                if bp_closed (pair_of st j) then Some (0, [], st)
                else
                  let st = BIO_set_retry_read i st;
                      st = set_pair j (\<lambda>b. b\<lparr>bp_request := (if size0 \<le> bp_size b then size0 else bp_size b)\<rparr>) st
                  in Some (- 1, [], st)
              else
                let size1 = (if bp_len (pair_of st j) < size0 then bp_len (pair_of st j) else size0)
                in case read_loop (pair_of st j) size1 [] of
                     None \<Rightarrow> None
                   | Some (b, out) \<Rightarrow> Some (int size1, out, set_pair j (\<lambda>_. b) st))"

partial_function (option) write_loop :: "bio_bio_st \<Rightarrow> nat \<Rightarrow> byte list \<Rightarrow> bio_bio_st option" where
  "write_loop b rest buf =
     (let write_offset = bp_offset b + bp_len b;
          write_offset = (if write_offset \<ge> bp_size b then write_offset - bp_size b else write_offset);
          chunk = (if write_offset + rest \<le> bp_size b then rest else bp_size b - write_offset);
          ring = the (bp_buf b);
          b = b\<lparr>bp_buf := Some (take write_offset ring @ take chunk buf @ drop (write_offset + chunk) ring),
                bp_len := bp_len b + chunk\<rparr>
      in if rest - chunk \<noteq> 0 then write_loop b (rest - chunk) (drop chunk buf) else Some b)"

text \<open>
  \<open>buf\<close> is the caller's array (\<open>None\<close>: a null pointer), and \<open>num0\<close> the number of its bytes to write.
\<close>

definition bio_write :: "nat \<Rightarrow> byte list option \<Rightarrow> nat \<Rightarrow> bios \<Rightarrow> (int \<times> bios) option" where
  "bio_write i buf num0 st =
     (let st = BIO_clear_retry_flags i st
      in if \<not> bio_init (bio_of st i) \<or> buf = None \<or> num0 = 0 then Some (0, st)
         else
           let st = set_pair i (\<lambda>b. b\<lparr>bp_request := 0\<rparr>) st;
               b = pair_of st i
           in if bp_closed b then Some (- 1, st)
              else if bp_len b = bp_size b then Some (- 1, BIO_set_retry_write i st)
              else
                let num1 = (if num0 > bp_size b - bp_len b then bp_size b - bp_len b else num0)
                in case write_loop b num1 (the buf) of
                     None \<Rightarrow> None
                   | Some b \<Rightarrow> Some (int num1, set_pair i (\<lambda>_. b) st))"

text \<open>
  Making the pair.  The two allocators answer for what belongs to the first and to the second BIO.
  The bytes of a fresh ring, which the code never reads before they are written, are zero here.
\<close>

definition ready_buf :: "allocator \<Rightarrow> nat \<Rightarrow> nat \<Rightarrow> bios \<Rightarrow> bool \<times> bios" where
  "ready_buf al k writebuf_len st =
     (if bp_buf (pair_of st k) = None then
        let st = (if writebuf_len \<noteq> 0 then set_pair k (\<lambda>b. b\<lparr>bp_size := writebuf_len\<rparr>) st else st);
            n = bp_size (pair_of st k)
        in if \<not> al n then (False, st)
           else (True, set_pair k (\<lambda>b. b\<lparr>bp_buf := Some (replicate n 0), bp_len := 0, bp_offset := 0\<rparr>) st)
      else (True, st))"

definition bio_make_pair :: "allocator \<Rightarrow> allocator \<Rightarrow> nat \<Rightarrow> nat \<Rightarrow> nat \<Rightarrow> nat \<Rightarrow> bios \<Rightarrow> bool \<times> bios" where
  "bio_make_pair al1 al2 i j writebuf1_len writebuf2_len st =
     (if bp_peer (pair_of st i) \<noteq> None \<or> bp_peer (pair_of st j) \<noteq> None then (False, st)
      else
        let (ok1, st) = ready_buf al1 i writebuf1_len st
        in if \<not> ok1 then (False, st)
           else
             let (ok2, st) = ready_buf al2 j writebuf2_len st
             in if \<not> ok2 then (False, st)
                else
                  let st = set_pair i (\<lambda>b. b\<lparr>bp_peer := Some j, bp_closed := False, bp_request := 0\<rparr>) st;
                      st = set_pair j (\<lambda>b. b\<lparr>bp_peer := Some i, bp_closed := False, bp_request := 0\<rparr>) st;
                      st = set_bio i (\<lambda>b. b\<lparr>bio_init := True\<rparr>) st
                  in (True, set_bio j (\<lambda>b. b\<lparr>bio_init := True\<rparr>) st))"

datatype bio_cmd = GET_WRITE_BUF_SIZE | GET_WRITE_GUARANTEE | GET_READ_REQUEST | RESET_READ_REQUEST
  | SHUTDOWN_WR | GET_CLOSE | SET_CLOSE int | PENDING | WPENDING | FLUSH | EOF "nat option" | OTHER

definition bio_ctrl :: "nat \<Rightarrow> bio_cmd \<Rightarrow> bios \<Rightarrow> int \<times> bios" where
  "bio_ctrl i cmd st =
     (let b = pair_of st i in
      case cmd of
        GET_WRITE_BUF_SIZE \<Rightarrow> (int (bp_size b), st)
      | GET_WRITE_GUARANTEE \<Rightarrow> (if bp_peer b = None \<or> bp_closed b then 0 else int (bp_size b) - int (bp_len b), st)
      | GET_READ_REQUEST \<Rightarrow> (int (bp_request b), st)
      | RESET_READ_REQUEST \<Rightarrow> (1, set_pair i (\<lambda>b. b\<lparr>bp_request := 0\<rparr>) st)
      | SHUTDOWN_WR \<Rightarrow> (1, set_pair i (\<lambda>b. b\<lparr>bp_closed := True\<rparr>) st)
      | GET_CLOSE \<Rightarrow> (bio_shutdown (bio_of st i), st)
      | SET_CLOSE n \<Rightarrow> (1, set_bio i (\<lambda>b. b\<lparr>bio_shutdown := n\<rparr>) st)
      | PENDING \<Rightarrow> (case bp_peer b of None \<Rightarrow> 0 | Some j \<Rightarrow> int (bp_len (pair_of st j)), st)
      | WPENDING \<Rightarrow> (if bp_buf b \<noteq> None then int (bp_len b) else 0, st)
      | FLUSH \<Rightarrow> (1, st)
      | EOF other \<Rightarrow> (case other of
            Some k \<Rightarrow> of_bool (bp_len (pair_of st k) = 0 \<and> bp_closed (pair_of st k))
          | None \<Rightarrow> 1, st)
      | OTHER \<Rightarrow> (0, st))"

definition BIO_ctrl :: "nat \<Rightarrow> bio_cmd \<Rightarrow> bios \<Rightarrow> int \<times> bios" where
  "BIO_ctrl i cmd st = (if st i = None then (0, st) else bio_ctrl i cmd st)"

definition BIO_ctrl_get_read_request :: "nat \<Rightarrow> bios \<Rightarrow> int \<times> bios" where
  "BIO_ctrl_get_read_request i = BIO_ctrl i GET_READ_REQUEST"

definition BIO_ctrl_get_write_guarantee :: "nat \<Rightarrow> bios \<Rightarrow> int \<times> bios" where
  "BIO_ctrl_get_write_guarantee i = BIO_ctrl i GET_WRITE_GUARANTEE"

definition BIO_shutdown_wr :: "nat \<Rightarrow> bios \<Rightarrow> int \<times> bios" where
  "BIO_shutdown_wr i = BIO_ctrl i SHUTDOWN_WR"

definition BIO_flush :: "nat \<Rightarrow> bios \<Rightarrow> int \<times> bios" where
  "BIO_flush i = BIO_ctrl i FLUSH"

definition BIO_eof :: "nat \<Rightarrow> bios \<Rightarrow> int \<times> bios" where
  "BIO_eof i = BIO_ctrl i (EOF None)"

definition BIO_pending :: "nat \<Rightarrow> bios \<Rightarrow> int \<times> bios" where
  "BIO_pending i st =
     (let (r, st) = BIO_ctrl i PENDING st in (if r < 0 then 0 else r, st))"

definition BIO_wpending :: "nat \<Rightarrow> bios \<Rightarrow> int \<times> bios" where
  "BIO_wpending i st =
     (let (r, st) = BIO_ctrl i WPENDING st in (if r < 0 then 0 else r, st))"

definition BIO_set_close :: "nat \<Rightarrow> int \<Rightarrow> bios \<Rightarrow> int \<times> bios" where
  "BIO_set_close i close_flag = BIO_ctrl i (SET_CLOSE close_flag)"

definition BIO_new_bio_pair :: "allocator \<Rightarrow> allocator \<Rightarrow> nat \<Rightarrow> nat \<Rightarrow> nat \<Rightarrow> nat \<Rightarrow> bios \<Rightarrow> bool \<times> bios" where
  "BIO_new_bio_pair al1 al2 i writebuf1_len j writebuf2_len st =
     (let (ok1, st) = BIO_new al1 i st;
          (ok2, st) = BIO_new al2 j st;
          (ok, st) = (if \<not> ok1 \<or> \<not> ok2 then (False, st)
                      else bio_make_pair al1 al2 i j writebuf1_len writebuf2_len st)
      in if \<not> ok then
           let st = (if ok1 then BIO_free i st else st);
               st = (if ok2 then BIO_free j st else st)
           in (False, st)
         else (True, st))"

text \<open>
  The entry points for data.  \<open>len\<close> and \<open>inl\<close> are the \<^verbatim>\<open>int\<close>s of the call; \<open>buf_nonnull\<close> says that the
  array to read into is there, and a read gives the bytes it puts there beside the returned value.
\<close>

definition BIO_read :: "nat \<Rightarrow> bool \<Rightarrow> int \<Rightarrow> bios \<Rightarrow> (int \<times> byte list \<times> bios) option" where
  "BIO_read i buf_nonnull len st =
     (if st i = None then Some (- 2, [], st)
      else if \<not> bio_init (bio_of st i) then Some (- 2, [], st)
      else if len \<le> 0 then Some (0, [], st)
      else case bio_read i buf_nonnull (nat len) st of
        None \<Rightarrow> None
      | Some (ret, out, st) \<Rightarrow>
          Some (ret, out, if ret > 0 then set_bio i (\<lambda>b. b\<lparr>num_read := num_read b + word_of_int ret\<rparr>) st else st))"

definition BIO_write :: "nat \<Rightarrow> byte list option \<Rightarrow> int \<Rightarrow> bios \<Rightarrow> (int \<times> bios) option" where
  "BIO_write i buf inl st =
     (if st i = None then Some (- 2, st)
      else if \<not> bio_init (bio_of st i) then Some (- 2, st)
      else if inl \<le> 0 then Some (0, st)
      else case bio_write i buf (nat inl) st of
        None \<Rightarrow> None
      | Some (ret, st) \<Rightarrow>
          Some (ret, if ret > 0 then set_bio i (\<lambda>b. b\<lparr>num_write := num_write b + word_of_int ret\<rparr>) st else st))"

definition C_INT_MAX :: nat where "C_INT_MAX = 2 ^ 31 - 1"

text \<open>\<^verbatim>\<open>BIO_write_all\<close> for an array of \<^verbatim>\<open>len\<close> bytes.\<close>

partial_function (option) BIO_write_all :: "nat \<Rightarrow> byte list \<Rightarrow> bios \<Rightarrow> (bool \<times> bios) option" where
  "BIO_write_all i data st =
     (if length data > 0 then
        case BIO_write i (Some data) (int (if length data > C_INT_MAX then C_INT_MAX else length data)) st of
          None \<Rightarrow> None
        | Some (ret, st) \<Rightarrow> if ret \<le> 0 then Some (False, st) else BIO_write_all i (drop (nat ret) data) st
      else Some (True, st))"

section \<open>One direction as a queue\<close>

definition ring_ok :: "bio_bio_st \<Rightarrow> bool" where
  "ring_ok b \<longleftrightarrow> (case bp_buf b of
     None \<Rightarrow> False
   | Some l \<Rightarrow> length l = bp_size b \<and> bp_len b \<le> bp_size b \<and> bp_offset b < bp_size b
       \<and> (bp_len b = 0 \<longrightarrow> bp_offset b = 0))"

definition ring_contents :: "bio_bio_st \<Rightarrow> byte list" where
  "ring_contents b = take (bp_len b) (drop (bp_offset b) (the (bp_buf b)) @ take (bp_offset b) (the (bp_buf b)))"

lemma length_ring_contents: "ring_ok b \<Longrightarrow> length (ring_contents b) = bp_len b"
  by (auto simp: ring_ok_def ring_contents_def split: option.splits)

lemma take_prefix: "n \<le> m \<Longrightarrow> take n (xs @ take m ys) = take n (xs @ ys)"
  by simp

text \<open>One round of the read loop.\<close>

definition read_round :: "bio_bio_st \<Rightarrow> nat \<Rightarrow> bio_bio_st" where
  "read_round b chunk =
     (let b = b\<lparr>bp_len := bp_len b - chunk\<rparr>
      in if bp_len b \<noteq> 0 then
           let b = b\<lparr>bp_offset := bp_offset b + chunk\<rparr>
           in if bp_offset b = bp_size b then b\<lparr>bp_offset := 0\<rparr> else b
         else b\<lparr>bp_offset := 0\<rparr>)"

definition chunk_of :: "bio_bio_st \<Rightarrow> nat \<Rightarrow> nat \<Rightarrow> nat" where
  "chunk_of b offset rest = (if offset + rest \<le> bp_size b then rest else bp_size b - offset)"

lemma read_loop_round:
  "read_loop b rest out =
     (let chunk = chunk_of b (bp_offset b) rest;
          out = out @ take chunk (drop (bp_offset b) (the (bp_buf b)))
      in if rest - chunk \<noteq> 0 then read_loop (read_round b chunk) (rest - chunk) out else Some (read_round b chunk, out))"
  by (subst read_loop.simps) (simp only: chunk_of_def read_round_def Let_def)

lemma read_round_spec:
  assumes ok: "ring_ok b" and c: "0 < c" "c \<le> bp_len b" "bp_offset b + c \<le> bp_size b"
  shows "ring_ok (read_round b c)" "ring_contents (read_round b c) = drop c (ring_contents b)"
    "take c (drop (bp_offset b) (the (bp_buf b))) = take c (ring_contents b)"
    "bp_len (read_round b c) = bp_len b - c"
    "read_round b c = b\<lparr>bp_len := bp_len (read_round b c), bp_offset := bp_offset (read_round b c)\<rparr>"
proof -
  obtain l where l: "bp_buf b = Some l" "length l = bp_size b" "bp_len b \<le> bp_size b" "bp_offset b < bp_size b"
    using ok by (auto simp: ring_ok_def split: option.splits)
  show "ring_ok (read_round b c)"
    using l c ok by (auto simp: ring_ok_def read_round_def Let_def)
  show "bp_len (read_round b c) = bp_len b - c"
    by (simp add: read_round_def Let_def)
  show "read_round b c = b\<lparr>bp_len := bp_len (read_round b c), bp_offset := bp_offset (read_round b c)\<rparr>"
    by (simp add: read_round_def Let_def)
  show "take c (drop (bp_offset b) (the (bp_buf b))) = take c (ring_contents b)"
  proof -
    have "c \<le> length (drop (bp_offset b) l)" using l c by simp
    then show ?thesis using l c(2) by (simp add: ring_contents_def min_absorb1)
  qed
  let ?o = "bp_offset b" and ?n = "bp_len b"
  have "drop c (ring_contents b) = take (?n - c) (drop (?o + c) l @ take ?o l)"
    using l c by (simp add: ring_contents_def drop_take add.commute)
  also have "\<dots> = ring_contents (read_round b c)"
  proof -
    consider "?n = c" | "?n \<noteq> c" "?o + c = bp_size b" | "?n \<noteq> c" "?o + c \<noteq> bp_size b" by blast
    then show ?thesis
    proof cases
      case 1
      then show ?thesis by (simp add: ring_contents_def read_round_def Let_def)
    next
      case 2
      then have "?n - c \<le> ?o" using l c by linarith
      then show ?thesis using 2 l c by (simp add: ring_contents_def read_round_def Let_def min_def)
    next
      case 3
      then have "take (?n - c) (drop (?o + c) l @ take (?o + c) l) = take (?n - c) (drop (?o + c) l @ take ?o l)"
      proof -
        have "?n - c - length (drop (?o + c) l) \<le> ?o" using l c by simp
        then show ?thesis by (simp only: take_append take_take min_absorb1 le_add1 order_trans [OF _ le_add1])
      qed
      then show ?thesis using 3 l c by (simp add: ring_contents_def read_round_def Let_def)
    qed
  qed
  finally show "ring_contents (read_round b c) = drop c (ring_contents b)" by simp
qed

lemma read_loop_spec:
  assumes "ring_ok b" "0 < rest" "rest \<le> bp_len b"
  shows "\<exists>b'. read_loop b rest out = Some (b', out @ take rest (ring_contents b)) \<and> ring_ok b'
    \<and> ring_contents b' = drop rest (ring_contents b)
    \<and> b' = b\<lparr>bp_len := bp_len b - rest, bp_offset := bp_offset b'\<rparr>"
  using assms
proof (induction rest arbitrary: b out rule: less_induct)
  case (less rest)
  define c where "c = chunk_of b (bp_offset b) rest"
  have sz: "bp_offset b < bp_size b" "bp_len b \<le> bp_size b" using less.prems(1) by (auto simp: ring_ok_def split: option.splits)
  have c: "0 < c" "c \<le> rest" "bp_offset b + c \<le> bp_size b" using sz less.prems(2) by (auto simp: c_def chunk_of_def)
  note r = read_round_spec [OF less.prems(1) c(1) _ c(3)]
  have cl: "c \<le> bp_len b" using c(2) less.prems(3) by simp
  have e: "read_loop b rest out = (if rest - c \<noteq> 0 then read_loop (read_round b c) (rest - c) (out @ take c (ring_contents b))
      else Some (read_round b c, out @ take c (ring_contents b)))"
    using r(3) [OF cl] by (subst read_loop_round) (simp only: c_def [symmetric] Let_def)
  show ?case
  proof (cases "rest = c")
    case True
    then have "read_loop b rest out = Some (read_round b c, out @ take rest (ring_contents b))" using e by simp
    then show ?thesis using r [OF cl] True by (intro exI [of _ "read_round b c"]) simp
  next
    case False
    have "rest - c < rest" "0 < rest - c" "rest - c \<le> bp_len (read_round b c)"
      using c False less.prems(3) r(4) [OF cl] by simp_all
    note less.IH [OF this(1) r(1) [OF cl] this(2,3), of "out @ take c (ring_contents b)"]
    then obtain b' where b': "read_loop (read_round b c) (rest - c) (out @ take c (ring_contents b)) =
        Some (b', (out @ take c (ring_contents b)) @ take (rest - c) (ring_contents (read_round b c)))" "ring_ok b'"
      "ring_contents b' = drop (rest - c) (ring_contents (read_round b c))"
      "b' = (read_round b c)\<lparr>bp_len := bp_len (read_round b c) - (rest - c), bp_offset := bp_offset b'\<rparr>" by blast
    have "read_loop b rest out = read_loop (read_round b c) (rest - c) (out @ take c (ring_contents b))"
      using False c by (simp add: e)
    moreover have "take c (ring_contents b) @ take (rest - c) (drop c (ring_contents b)) = take rest (ring_contents b)"
      using c(2) by (metis add_diff_inverse_nat le_antisym less_imp_le_nat not_less take_add)
    moreover have "b' = b\<lparr>bp_len := bp_len b - rest, bp_offset := bp_offset b'\<rparr>"
    proof -
      have "t\<lparr>bp_len := u, bp_offset := v\<rparr> = b\<lparr>bp_len := u, bp_offset := v\<rparr>"
        if "t = b\<lparr>bp_len := x, bp_offset := y\<rparr>" for t x y u v using that by simp
      from this [OF r(5) [OF cl]] b'(4) have "b' = b\<lparr>bp_len := bp_len (read_round b c) - (rest - c), bp_offset := bp_offset b'\<rparr>"
        by simp
      then show ?thesis using r(4) [OF cl] c(2) cl by simp
    qed
    ultimately show ?thesis using b'(1-3) r(2) [OF cl] c(2) by (intro exI [of _ b']) simp
  qed
qed

text \<open>One round of the write loop.\<close>

definition write_at :: "bio_bio_st \<Rightarrow> nat" where
  "write_at b = (if bp_offset b + bp_len b \<ge> bp_size b then bp_offset b + bp_len b - bp_size b else bp_offset b + bp_len b)"

definition write_round :: "bio_bio_st \<Rightarrow> nat \<Rightarrow> byte list \<Rightarrow> bio_bio_st" where
  "write_round b c buf =
     b\<lparr>bp_buf := Some (take (write_at b) (the (bp_buf b)) @ take c buf @ drop (write_at b + c) (the (bp_buf b))),
       bp_len := bp_len b + c\<rparr>"

lemma write_loop_round:
  "write_loop b rest buf =
     (let c = chunk_of b (write_at b) rest
      in if rest - c \<noteq> 0 then write_loop (write_round b c buf) (rest - c) (drop c buf) else Some (write_round b c buf))"
  by (subst write_loop.simps) (simp only: chunk_of_def write_at_def write_round_def Let_def)

lemma write_round_spec:
  assumes ok: "ring_ok b" and c: "0 < c" "c \<le> bp_size b - bp_len b" "write_at b + c \<le> bp_size b" "c \<le> length buf"
  shows "ring_ok (write_round b c buf)" "ring_contents (write_round b c buf) = ring_contents b @ take c buf"
proof -
  obtain l where l: "bp_buf b = Some l" "length l = bp_size b" "bp_len b \<le> bp_size b" "bp_offset b < bp_size b"
    using ok by (auto simp: ring_ok_def split: option.splits)
  let ?o = "bp_offset b" and ?n = "bp_len b" and ?w = "write_at b"
  define l' where "l' = take ?w l @ take c buf @ drop (?w + c) l"
  have len: "length l' = bp_size b" using l c by (simp add: l'_def)
  show "ring_ok (write_round b c buf)"
    using ok l c len by (auto simp: ring_ok_def write_round_def l'_def)
  have "take (?n + c) (drop ?o l' @ take ?o l') = take ?n (drop ?o l @ take ?o l) @ take c buf"
  proof (cases "?o + ?n < bp_size b")
    case True
    then have w: "?w = ?o + ?n" by (simp add: write_at_def)
    have "drop ?o l' = take ?n (drop ?o l) @ take c buf @ drop (?w + c) l"
      using True l w by (simp add: l'_def drop_take)
    moreover have "length (take ?n (drop ?o l)) = ?n" using True l by simp
    ultimately have "take (?n + c) (drop ?o l' @ take ?o l') = take ?n (drop ?o l) @ take c buf"
      using c by simp
    then show ?thesis using True l by simp
  next
    case False
    then have w: "?w = ?o + ?n - bp_size b" by (simp add: write_at_def)
    have wo: "?w + c \<le> ?o" using w c l False by linarith
    define e where "e = drop (?w + c) l"
    have la: "length (take ?w l @ take c buf) = ?w + c" using l c wo by simp
    have l': "l' = (take ?w l @ take c buf) @ e" by (simp add: l'_def e_def)
    have d: "drop ?o l' = drop ?o l"
      unfolding l' drop_append la using wo la by (simp add: e_def)
    have t: "take ?o l' = take ?w l @ take c buf @ take (?o - ?w - c) e"
      unfolding l' take_append la using wo la by simp
    have n: "?n + c = length (drop ?o l @ take ?w l @ take c buf)" "?n = length (drop ?o l @ take ?w l)"
      using w l c False wo by simp_all
    have "take (?n + c) ((drop ?o l @ take ?w l @ take c buf) @ take (?o - ?w - c) e) = drop ?o l @ take ?w l @ take c buf"
      unfolding n(1) by (rule append_eq_conv_conj [THEN iffD1, THEN conjunct1, symmetric, OF refl])
    then have "take (?n + c) (drop ?o l' @ take ?o l') = (drop ?o l @ take ?w l) @ take c buf" by (simp add: d t)
    moreover have "take ?n (drop ?o l @ take ?o l) = drop ?o l @ take ?w l"
    proof -
      have "take ?w (take ?o l) = take ?w l" using wo by (simp add: min_def)
      then have "take ?o l = take ?w l @ drop ?w (take ?o l)" by (metis append_take_drop_id)
      then have "drop ?o l @ take ?o l = (drop ?o l @ take ?w l) @ drop ?w (take ?o l)" by simp
      then show ?thesis using n(2) by (metis append_eq_conv_conj)
    qed
    ultimately show ?thesis by simp
  qed
  moreover have "bp_len (write_round b c buf) = ?n + c" "bp_offset (write_round b c buf) = ?o"
    "bp_buf (write_round b c buf) = Some l'"
    by (simp_all add: write_round_def l'_def l(1))
  ultimately show "ring_contents (write_round b c buf) = ring_contents b @ take c buf"
    by (simp only: ring_contents_def option.sel l(1))
qed

lemma write_loop_spec:
  assumes "ring_ok b" "0 < rest" "rest \<le> bp_size b - bp_len b" "rest \<le> length buf"
  shows "\<exists>b'. write_loop b rest buf = Some b' \<and> ring_ok b' \<and> ring_contents b' = ring_contents b @ take rest buf
    \<and> b' = b\<lparr>bp_len := bp_len b + rest, bp_buf := bp_buf b'\<rparr>"
  using assms
proof (induction rest arbitrary: b buf rule: less_induct)
  case (less rest)
  define c where "c = chunk_of b (write_at b) rest"
  have sz: "bp_offset b < bp_size b" "bp_len b \<le> bp_size b" using less.prems(1) by (auto simp: ring_ok_def split: option.splits)
  have "write_at b < bp_size b" using sz less.prems(2,3) by (auto simp: write_at_def)
  then have c: "0 < c" "c \<le> rest" "write_at b + c \<le> bp_size b" using less.prems(2) by (auto simp: c_def chunk_of_def)
  have r: "ring_ok (write_round b c buf)" "ring_contents (write_round b c buf) = ring_contents b @ take c buf"
    using write_round_spec [OF less.prems(1) c(1) _ c(3)] c(2) less.prems(3,4) by simp_all
  have e: "write_loop b rest buf = (if rest - c \<noteq> 0 then write_loop (write_round b c buf) (rest - c) (drop c buf)
      else Some (write_round b c buf))"
    by (subst write_loop_round) (simp only: c_def [symmetric] Let_def)
  have f: "bp_len (write_round b c buf) = bp_len b + c" "bp_size (write_round b c buf) = bp_size b"
    by (simp_all add: write_round_def)
  show ?case
  proof (cases "rest = c")
    case True
    then have "write_loop b rest buf = Some (write_round b c buf)" using e by simp
    then show ?thesis using r True by (intro exI [of _ "write_round b c buf"]) (simp add: write_round_def)
  next
    case False
    have "rest - c < rest" "0 < rest - c" "rest - c \<le> bp_size (write_round b c buf) - bp_len (write_round b c buf)"
      "rest - c \<le> length (drop c buf)"
      using c False less.prems(3,4) f by simp_all
    note less.IH [OF this(1) r(1) this(2,3,4)]
    then obtain b' where b': "write_loop (write_round b c buf) (rest - c) (drop c buf) = Some b'" "ring_ok b'"
      "ring_contents b' = ring_contents (write_round b c buf) @ take (rest - c) (drop c buf)"
      "b' = (write_round b c buf)\<lparr>bp_len := bp_len (write_round b c buf) + (rest - c), bp_buf := bp_buf b'\<rparr>"
      by blast
    have "take c buf @ take (rest - c) (drop c buf) = take rest buf"
      using c(2) by (metis le_add_diff_inverse take_add)
    then have "ring_contents b' = ring_contents b @ take rest buf" using b'(3) r(2) by simp
    moreover have "b' = b\<lparr>bp_len := bp_len b + rest, bp_buf := bp_buf b'\<rparr>"
      using b'(4) c(2) by (cases b) (simp add: write_round_def)
    ultimately show ?thesis using b'(1,2) False c(2) by (intro exI [of _ b']) (simp add: e)
  qed
qed

end
