(* ===== verification/BioStore.thy ===== *)
theory BioStore
  imports BioPair
begin

text \<open>
  The store of BIOs: the invariant that the comments of \<^verbatim>\<open>struct bio_bio_st\<close> state, the effect of every
  operation on a connected pair, and the steps a store can take.
\<close>

section \<open>The invariant of the store\<close>

definition bio_ok :: "bios \<Rightarrow> nat \<Rightarrow> bio \<Rightarrow> bool" where
  "bio_ok st i b \<longleftrightarrow>
     (let p = bio_ptr b in
      (bio_init b \<longleftrightarrow> bp_peer p \<noteq> None) \<and> 0 < bp_size p
      \<and> (case bp_buf p of None \<Rightarrow> bp_len p = 0 \<and> bp_offset p = 0 | Some _ \<Rightarrow> ring_ok p)
      \<and> (case bp_peer p of
          None \<Rightarrow> bp_len p = 0
        | Some j \<Rightarrow> j \<noteq> i \<and> bp_buf p \<noteq> None \<and> st j \<noteq> None \<and> bp_peer (pair_of st j) = Some i
            \<and> bp_request p \<le> bp_size p \<and> (bp_len p \<noteq> 0 \<longrightarrow> bp_request p = 0)))"

definition bios_ok :: "bios \<Rightarrow> bool" where
  "bios_ok st \<longleftrightarrow> (\<forall>i b. st i = Some b \<longrightarrow> bio_ok st i b)"

text \<open>Two BIOs that are each other's peers.\<close>

definition connected :: "bios \<Rightarrow> nat \<Rightarrow> nat \<Rightarrow> bool" where
  "connected st i j \<longleftrightarrow> st i \<noteq> None \<and> st j \<noteq> None \<and> bp_peer (pair_of st i) = Some j \<and> bp_peer (pair_of st j) = Some i"

lemma bios_okD: "bios_ok st \<Longrightarrow> st i = Some b \<Longrightarrow> bio_ok st i b"
  by (simp add: bios_ok_def)

text \<open>
  An update of one BIO that keeps its peer, its \<^verbatim>\<open>init\<close> and the shape of its ring keeps the invariant.
\<close>

lemma bios_ok_update:
  assumes ok: "bios_ok st" and b: "st i = Some b"
    and keep: "bio_init b' = bio_init b" "bp_peer (bio_ptr b') = bp_peer (bio_ptr b)"
      "bp_size (bio_ptr b') = bp_size (bio_ptr b)"
    and ring: "case bp_buf (bio_ptr b') of None \<Rightarrow> bp_len (bio_ptr b') = 0 \<and> bp_offset (bio_ptr b') = 0 | Some _ \<Rightarrow> ring_ok (bio_ptr b')"
    and buf: "bp_buf (bio_ptr b') = None \<longleftrightarrow> bp_buf (bio_ptr b) = None"
    and len: "bp_peer (bio_ptr b) = None \<Longrightarrow> bp_len (bio_ptr b') = 0"
    and req: "bp_peer (bio_ptr b) \<noteq> None \<Longrightarrow>
      bp_request (bio_ptr b') \<le> bp_size (bio_ptr b) \<and> (bp_len (bio_ptr b') \<noteq> 0 \<longrightarrow> bp_request (bio_ptr b') = 0)"
  shows "bios_ok (st(i \<mapsto> b'))"
  unfolding bios_ok_def
proof (intro allI impI)
  fix k c assume c: "(st(i \<mapsto> b')) k = Some c"
  have peers: "bp_peer (pair_of (st(i \<mapsto> b')) j) = bp_peer (pair_of st j)" for j using b keep(2) by simp
  have present: "(st(i \<mapsto> b')) j = None \<longleftrightarrow> st j = None" for j using b by simp
  show "bio_ok (st(i \<mapsto> b')) k c"
  proof (cases "k = i")
    case True
    then have "c = b'" using c by simp
    then show ?thesis using bios_okD [OF ok b] keep ring buf len req True
      unfolding bio_ok_def Let_def peers present by (auto split: option.splits)
  next
    case False
    then have "bio_ok st k c" using c bios_okD [OF ok] by simp
    then show ?thesis unfolding bio_ok_def Let_def peers present .
  qed
qed

section \<open>Reading and writing on a connected pair\<close>

definition cleared :: "bio \<Rightarrow> bio" where
  "cleared b = b\<lparr>bio_flags := bio_flags b AND NOT kRetryFlags, retry_reason := 0\<rparr>"

definition with_pair :: "bio \<Rightarrow> bio_bio_st \<Rightarrow> bio" where
  "with_pair b p = b\<lparr>bio_ptr := p\<rparr>"

lemma cleared_simps [simp]: "bio_init (cleared b) = bio_init b" "bio_ptr (cleared b) = bio_ptr b"
  "num_read (cleared b) = num_read b" "num_write (cleared b) = num_write b" "bio_shutdown (cleared b) = bio_shutdown b"
  by (simp_all add: cleared_def)

lemma with_pair_simps [simp]: "bio_init (with_pair b p) = bio_init b" "bio_ptr (with_pair b p) = p"
  "with_pair (with_pair b p) q = with_pair b q"
  by (simp_all add: with_pair_def)

lemma set_bio_Some: "st i = Some b \<Longrightarrow> set_bio i f st = st(i \<mapsto> f b)"
  by (simp add: set_bio_def)

lemma set_pair_Some: "st i = Some b \<Longrightarrow> set_pair i f st = st(i \<mapsto> with_pair b (f (bio_ptr b)))"
  by (simp add: set_pair_def set_bio_def with_pair_def)

lemma clear_retry_Some: "st i = Some b \<Longrightarrow> BIO_clear_retry_flags i st = st(i \<mapsto> cleared b)"
  by (simp add: BIO_clear_retry_flags_def set_bio_def cleared_def)

definition asked :: "nat \<Rightarrow> bio_bio_st \<Rightarrow> bio_bio_st" where
  "asked n p = p\<lparr>bp_request := (if n \<le> bp_size p then n else bp_size p)\<rparr>"

definition retrying :: "u32 \<Rightarrow> bio \<Rightarrow> bio" where
  "retrying fl b = b\<lparr>bio_flags := bio_flags b OR (fl OR BIO_FLAGS_SHOULD_RETRY)\<rparr>"

lemma retrying_simps [simp]: "bio_init (retrying fl b) = bio_init b" "bio_ptr (retrying fl b) = bio_ptr b"
  "num_read (retrying fl b) = num_read b" "num_write (retrying fl b) = num_write b"
  by (simp_all add: retrying_def)

lemma bio_read_on_pair:
  assumes i: "st i = Some bi" and j: "st j = Some bj" and ij: "i \<noteq> j"
    and init: "bio_init bi" and peer: "bp_peer (bio_ptr bi) = Some j" and n: "0 < n"
  shows "bio_read i True n st =
    (let p = (bio_ptr bj)\<lparr>bp_request := 0\<rparr> in
     if bp_len p = 0 then
       if bp_closed p then Some (0, [], st(i \<mapsto> cleared bi, j \<mapsto> with_pair bj p))
       else Some (- 1, [], st(i \<mapsto> retrying BIO_FLAGS_READ (cleared bi), j \<mapsto> with_pair bj (asked n p)))
     else case read_loop p (min n (bp_len p)) [] of
       None \<Rightarrow> None
     | Some (q, out) \<Rightarrow> Some (int (min n (bp_len p)), out, st(i \<mapsto> cleared bi, j \<mapsto> with_pair bj q)))"
proof -
  have twist: "m(j \<mapsto> x, i \<mapsto> y) = m(i \<mapsto> y, j \<mapsto> x)" for m :: bios and x y using ij by (simp add: fun_upd_twist)
  have rd: "BIO_set_retry_read i (st(i \<mapsto> cleared bi, j \<mapsto> with_pair bj p)) =
      st(i \<mapsto> retrying BIO_FLAGS_READ (cleared bi), j \<mapsto> with_pair bj p)" for p
    using ij by (simp add: BIO_set_retry_read_def set_bio_def retrying_def twist)
  have mn: "(if bp_len p < n then bp_len p else n) = min n (bp_len p)" for p by (simp add: min_def)
  show ?thesis
    using i j ij init peer n
    by (simp add: bio_read_def clear_retry_Some set_pair_Some rd mn asked_def Let_def split: option.splits)
qed

lemma bio_write_on_pair:
  assumes i: "st i = Some bi" and init: "bio_init bi" and n: "0 < n"
  shows "bio_write i (Some data) n st =
    (let p = (bio_ptr bi)\<lparr>bp_request := 0\<rparr> in
     if bp_closed p then Some (- 1, st(i \<mapsto> with_pair (cleared bi) p))
     else if bp_len p = bp_size p then Some (- 1, st(i \<mapsto> retrying BIO_FLAGS_WRITE (with_pair (cleared bi) p)))
     else case write_loop p (min n (bp_size p - bp_len p)) data of
       None \<Rightarrow> None
     | Some q \<Rightarrow> Some (int (min n (bp_size p - bp_len p)), st(i \<mapsto> with_pair (cleared bi) q)))"
proof -
  have mn: "(if a < n then a else n) = min n a" for a by (simp add: min_def)
  show ?thesis
    using i init n
    by (simp add: bio_write_def clear_retry_Some set_pair_Some BIO_set_retry_write_def set_bio_def retrying_def mn Let_def
        split: option.splits)
qed

lemma ring_ok_request [simp]: "ring_ok (p\<lparr>bp_request := n\<rparr>) = ring_ok p"
  by (simp add: ring_ok_def split: option.split)

lemma ring_contents_request [simp]: "ring_contents (p\<lparr>bp_request := n\<rparr>) = ring_contents p"
  by (simp add: ring_contents_def)

lemma ring_asked [simp]: "ring_ok (asked n p) = ring_ok p" "ring_contents (asked n p) = ring_contents p"
  "bp_peer (asked n p) = bp_peer p" "bp_size (asked n p) = bp_size p" "bp_len (asked n p) = bp_len p"
  "bp_buf (asked n p) = bp_buf p" "bp_closed (asked n p) = bp_closed p"
  by (simp_all add: asked_def)

section \<open>The effect of the operations\<close>

definition in_flight :: "bios \<Rightarrow> nat \<Rightarrow> byte list" where
  "in_flight st i = ring_contents (pair_of st i)"

text \<open>What no read or write changes: the pairing, the sizes, the closed ends.\<close>

definition same_shape :: "bios \<Rightarrow> bios \<Rightarrow> bool" where
  "same_shape st st' \<longleftrightarrow> (\<forall>k. (st' k = None \<longleftrightarrow> st k = None)
     \<and> bio_init (bio_of st' k) = bio_init (bio_of st k) \<and> bp_peer (pair_of st' k) = bp_peer (pair_of st k)
     \<and> bp_closed (pair_of st' k) = bp_closed (pair_of st k) \<and> bp_size (pair_of st' k) = bp_size (pair_of st k))"

lemma same_shape_upd:
  assumes "st i = Some b" "bio_init b' = bio_init b" "bp_peer (bio_ptr b') = bp_peer (bio_ptr b)"
    "bp_closed (bio_ptr b') = bp_closed (bio_ptr b)" "bp_size (bio_ptr b') = bp_size (bio_ptr b)"
  shows "same_shape st (st(i \<mapsto> b'))"
  using assms by (simp add: same_shape_def)

lemma same_shape_trans: "same_shape a b \<Longrightarrow> same_shape b c \<Longrightarrow> same_shape a c"
  by (simp add: same_shape_def)

lemma same_shape_refl [simp]: "same_shape a a"
  by (simp add: same_shape_def)

lemma same_shape_connected: "same_shape st st' \<Longrightarrow> connected st' i j = connected st i j"
  by (simp add: same_shape_def connected_def)

lemma connected_sym: "connected st i j \<Longrightarrow> connected st j i"
  by (auto simp: connected_def)

lemma connectedE:
  assumes "bios_ok st" "connected st i j"
  obtains bi bj where "st i = Some bi" "st j = Some bj" "i \<noteq> j" "bio_init bi" "bp_peer (bio_ptr bi) = Some j"
    "bio_init bj" "bp_peer (bio_ptr bj) = Some i" "ring_ok (bio_ptr bi)" "ring_ok (bio_ptr bj)"
    "bp_request (bio_ptr bj) \<le> bp_size (bio_ptr bj)" "bp_len (bio_ptr bj) \<noteq> 0 \<longrightarrow> bp_request (bio_ptr bj) = 0"
    "bp_request (bio_ptr bi) \<le> bp_size (bio_ptr bi)" "bp_len (bio_ptr bi) \<noteq> 0 \<longrightarrow> bp_request (bio_ptr bi) = 0"
proof -
  obtain bi bj where b: "st i = Some bi" "st j = Some bj" using assms(2) by (auto simp: connected_def)
  have "bio_ok st i bi" "bio_ok st j bj" using assms(1) b by (simp_all add: bios_ok_def)
  moreover have "bp_peer (bio_ptr bi) = Some j" "bp_peer (bio_ptr bj) = Some i"
    using assms(2) b by (simp_all add: connected_def)
  ultimately show ?thesis by (intro that [OF b]) (auto simp: bio_ok_def Let_def split: option.splits)
qed

lemma init_connected:
  assumes "bios_ok st" "st i \<noteq> None" "bio_init (bio_of st i)"
  shows "connected st i (the (bp_peer (pair_of st i)))"
proof -
  obtain b where b: "st i = Some b" using assms(2) by blast
  then show ?thesis using bios_okD [OF assms(1) b] assms(3)
    by (auto simp: connected_def bio_ok_def Let_def split: option.splits)
qed

lemma ring_ok_buf: "ring_ok p \<Longrightarrow> bp_buf p \<noteq> None"
  by (auto simp: ring_ok_def split: option.splits)

text \<open>An update of one end of a connected pair by a ring of the same shape keeps the invariant.\<close>

lemma connected_update:
  assumes ok: "bios_ok st" and b: "st i = Some b" "bp_peer (bio_ptr b) \<noteq> None"
    and keep: "bio_init b' = bio_init b" "bp_peer (bio_ptr b') = bp_peer (bio_ptr b)"
      "bp_size (bio_ptr b') = bp_size (bio_ptr b)" "bp_closed (bio_ptr b') = bp_closed (bio_ptr b)"
    and ring: "ring_ok (bio_ptr b')"
    and req: "bp_request (bio_ptr b') \<le> bp_size (bio_ptr b)" "bp_len (bio_ptr b') \<noteq> 0 \<Longrightarrow> bp_request (bio_ptr b') = 0"
  shows "bios_ok (st(i \<mapsto> b')) \<and> same_shape st (st(i \<mapsto> b'))"
proof -
  have "bp_buf (bio_ptr b) \<noteq> None" using bios_okD [OF ok b(1)] b(2) by (auto simp: bio_ok_def Let_def)
  moreover have "bp_buf (bio_ptr b') \<noteq> None" using ring by (rule ring_ok_buf)
  ultimately have "bios_ok (st(i \<mapsto> b'))"
    using ring req b(2) by (intro bios_ok_update [OF ok b(1) keep(1-3)]) (auto split: option.splits)
  moreover have "same_shape st (st(i \<mapsto> b'))" using same_shape_upd [of st i b b'] b(1) keep by simp
  ultimately show ?thesis by blast
qed

text \<open>A read changes the reader's flags and counters and the ring of its peer.\<close>

definition count_read :: "int \<Rightarrow> bio \<Rightarrow> bio" where
  "count_read ret b = (if ret > 0 then b\<lparr>num_read := num_read b + word_of_int ret\<rparr> else b)"

definition count_write :: "int \<Rightarrow> bio \<Rightarrow> bio" where
  "count_write ret b = (if ret > 0 then b\<lparr>num_write := num_write b + word_of_int ret\<rparr> else b)"

lemma count_simps [simp]: "bio_init (count_read r b) = bio_init b" "bio_ptr (count_read r b) = bio_ptr b"
  "bio_flags (count_read r b) = bio_flags b" "bio_init (count_write r b) = bio_init b"
  "bio_ptr (count_write r b) = bio_ptr b" "bio_flags (count_write r b) = bio_flags b"
  by (simp_all add: count_read_def count_write_def)

lemma read_update:
  assumes ok: "bios_ok st" and con: "connected st i j" and b: "st i = Some bi" "st j = Some bj"
    and bi': "bio_init bi' = bio_init bi" "bio_ptr bi' = bio_ptr bi"
    and q: "ring_ok q" "bp_peer q = bp_peer (bio_ptr bj)" "bp_size q = bp_size (bio_ptr bj)"
      "bp_closed q = bp_closed (bio_ptr bj)" "bp_request q \<le> bp_size q" "bp_len q \<noteq> 0 \<Longrightarrow> bp_request q = 0"
    and st': "st' = st(i \<mapsto> bi', j \<mapsto> with_pair bj q)"
  shows "bios_ok st' \<and> same_shape st st'" "in_flight st' j = ring_contents q" "in_flight st' i = in_flight st i"
    "\<forall>k. k \<noteq> i \<and> k \<noteq> j \<longrightarrow> st' k = st k"
proof -
  have c: "i \<noteq> j" "bp_peer (bio_ptr bi) = Some j" "bp_peer (bio_ptr bj) = Some i" "ring_ok (bio_ptr bi)"
    "bp_request (bio_ptr bi) \<le> bp_size (bio_ptr bi)" "bp_len (bio_ptr bi) \<noteq> 0 \<Longrightarrow> bp_request (bio_ptr bi) = 0"
    using connectedE [OF ok con] b by (metis option.inject)+
  define sa where "sa = st(i \<mapsto> bi')"
  have 1: "bios_ok sa \<and> same_shape st sa"
    unfolding sa_def using b(1) c bi' by (intro connected_update [where st = st and i = i, OF ok b(1)]) simp_all
  have "bios_ok (sa(j \<mapsto> with_pair bj q)) \<and> same_shape sa (sa(j \<mapsto> with_pair bj q))"
  proof -
    have j: "sa j = Some bj" using b(2) c(1) by (simp add: sa_def)
    show ?thesis using 1 q c by (intro connected_update [where st = sa and i = j, OF _ j]) simp_all
  qed
  then show "bios_ok st' \<and> same_shape st st'" using 1 same_shape_trans by (auto simp: st' sa_def)
  show "in_flight st' j = ring_contents q" "in_flight st' i = in_flight st i" "\<forall>k. k \<noteq> i \<and> k \<noteq> j \<longrightarrow> st' k = st k"
    using b c(1) bi'(2) by (simp_all add: st' in_flight_def)
qed

lemma BIO_read_on_pair:
  assumes "st i = Some bi" "st j = Some bj" "i \<noteq> j" "bio_init bi" "bp_peer (bio_ptr bi) = Some j" "0 < len"
  shows "BIO_read i True len st =
    (let p = (bio_ptr bj)\<lparr>bp_request := 0\<rparr>; n = nat len in
     if bp_len p = 0 then
       if bp_closed p then Some (0, [], st(i \<mapsto> cleared bi, j \<mapsto> with_pair bj p))
       else Some (- 1, [], st(i \<mapsto> retrying BIO_FLAGS_READ (cleared bi), j \<mapsto> with_pair bj (asked n p)))
     else case read_loop p (min n (bp_len p)) [] of
       None \<Rightarrow> None
     | Some (q, out) \<Rightarrow> let ret = int (min n (bp_len p)) in
         Some (ret, out, st(i \<mapsto> count_read ret (cleared bi), j \<mapsto> with_pair bj q)))"
proof -
  have n: "0 < nat len" using assms(6) by simp
  have twist: "m(j \<mapsto> x, i \<mapsto> y) = m(i \<mapsto> y, j \<mapsto> x)" for m :: bios and x y using assms(3) by (simp add: fun_upd_twist)
  show ?thesis
    using assms unfolding BIO_read_def bio_read_on_pair [where st = st and i = i and j = j, OF assms(1-5) n]
    by (simp add: Let_def set_bio_def twist count_read_def split: option.splits)
qed

lemma BIO_write_on_pair:
  assumes "st i = Some bi" "bio_init bi" "0 < len"
  shows "BIO_write i (Some data) len st =
    (let p = (bio_ptr bi)\<lparr>bp_request := 0\<rparr>; n = nat len in
     if bp_closed p then Some (- 1, st(i \<mapsto> with_pair (cleared bi) p))
     else if bp_len p = bp_size p then Some (- 1, st(i \<mapsto> retrying BIO_FLAGS_WRITE (with_pair (cleared bi) p)))
     else case write_loop p (min n (bp_size p - bp_len p)) data of
       None \<Rightarrow> None
     | Some q \<Rightarrow> let ret = int (min n (bp_size p - bp_len p)) in
         Some (ret, st(i \<mapsto> count_write ret (with_pair (cleared bi) q))))"
proof -
  have n: "0 < nat len" using assms(3) by simp
  show ?thesis
    using assms unfolding BIO_write_def bio_write_on_pair [where st = st and i = i, OF assms(1,2) n]
    by (simp add: Let_def set_bio_def count_write_def split: option.splits)
qed

lemma retry_flags_cleared: "bio_flags (cleared b) AND BIO_FLAGS_READ = 0" "bio_flags (cleared b) AND BIO_FLAGS_WRITE = 0"
  "bio_flags (cleared b) AND BIO_FLAGS_SHOULD_RETRY = 0"
  by (simp_all add: cleared_def kRetryFlags_def bio_flag_defs and.assoc)

lemma retry_flags_retrying:
  "bio_flags (retrying BIO_FLAGS_READ (cleared b)) AND BIO_FLAGS_READ = BIO_FLAGS_READ"
  "bio_flags (retrying BIO_FLAGS_WRITE (with_pair (cleared b) p)) AND BIO_FLAGS_WRITE = BIO_FLAGS_WRITE"
  "bio_flags (retrying BIO_FLAGS_READ (cleared b)) AND BIO_FLAGS_SHOULD_RETRY = BIO_FLAGS_SHOULD_RETRY"
  "bio_flags (retrying BIO_FLAGS_WRITE (with_pair (cleared b) p)) AND BIO_FLAGS_SHOULD_RETRY = BIO_FLAGS_SHOULD_RETRY"
  by (simp_all add: retrying_def cleared_def with_pair_def kRetryFlags_def bio_flag_defs and.assoc bit.conj_disj_distrib2)

lemma BIO_read_connected:
  assumes ok: "bios_ok st" and con: "connected st i j" and n: "0 < len"
  shows "\<exists>ret st'. BIO_read i True len st = Some (ret, take (nat len) (in_flight st j), st')
    \<and> ret = (if in_flight st j \<noteq> [] then min len (int (length (in_flight st j)))
             else if bp_closed (pair_of st j) then 0 else - 1)
    \<and> in_flight st' j = drop (nat len) (in_flight st j) \<and> in_flight st' i = in_flight st i
    \<and> (\<forall>k. k \<noteq> i \<and> k \<noteq> j \<longrightarrow> st' k = st k) \<and> (bios_ok st' \<and> same_shape st st')
    \<and> bp_request (pair_of st' j) = (if in_flight st j = [] \<and> \<not> bp_closed (pair_of st j)
                                    then min (nat len) (bp_size (pair_of st j)) else 0)
    \<and> BIO_should_read i st' = (if ret = - 1 then BIO_FLAGS_READ else 0)
    \<and> BIO_should_retry i st' = (if ret = - 1 then BIO_FLAGS_SHOULD_RETRY else 0)"
    (is "\<exists>ret st'. ?P ret st'")
proof -
  obtain bi bj where b: "st i = Some bi" "st j = Some bj" "i \<noteq> j" "bio_init bi" "bp_peer (bio_ptr bi) = Some j"
    "ring_ok (bio_ptr bj)"
    using connectedE [OF ok con] by metis
  define p where "p = (bio_ptr bj)\<lparr>bp_request := 0\<rparr>"
  have p: "ring_ok p" "ring_contents p = in_flight st j" "bp_closed p = bp_closed (pair_of st j)"
    "length (in_flight st j) = bp_len p" "bp_peer p = bp_peer (bio_ptr bj)" "bp_size p = bp_size (bio_ptr bj)"
    "bp_request p = 0" "bp_closed p = bp_closed (bio_ptr bj)" "pair_of st j = bio_ptr bj"
    using b by (simp_all add: p_def in_flight_def length_ring_contents)
  note e = BIO_read_on_pair [where st = st and i = i and j = j, OF b(1-5) n, folded p_def]
  note u = read_update [OF ok con b(1,2)]
  note tests = BIO_should_read_def BIO_should_retry_def BIO_test_flags_def retry_flags_cleared retry_flags_retrying
  consider "bp_len p = 0" "bp_closed p" | "bp_len p = 0" "\<not> bp_closed p" | "bp_len p \<noteq> 0" by blast
  then show ?thesis
  proof cases
    case 1
    define st' where "st' = st(i \<mapsto> cleared bi, j \<mapsto> with_pair bj p)"
    have "?P 0 st'"
      using u [OF _ _ p(1,5,6,8) _ _ st'_def] e 1 p n b(3)
      by (simp add: st'_def [symmetric]) (simp add: st'_def tests)
    then show ?thesis by blast
  next
    case 2
    define st' where "st' = st(i \<mapsto> retrying BIO_FLAGS_READ (cleared bi), j \<mapsto> with_pair bj (asked (nat len) p))"
    have "?P (- 1) st'"
      using u [OF _ _ _ _ _ _ _ _ st'_def] e 2 p n b(3)
      by (simp add: st'_def [symmetric]) (simp add: st'_def tests asked_def)
    then show ?thesis by blast
  next
    case 3
    let ?m = "min (nat len) (bp_len p)"
    have "0 < ?m" "?m \<le> bp_len p" using 3 n by simp_all
    from read_loop_spec [OF p(1) this, of "[]"] obtain q where
      q: "read_loop p ?m [] = Some (q, take ?m (in_flight st j))" "ring_ok q" "ring_contents q = drop ?m (in_flight st j)"
        "q = p\<lparr>bp_len := bp_len p - ?m, bp_offset := bp_offset q\<rparr>"
      unfolding p(2) by auto
    have qf: "bp_peer q = bp_peer p" "bp_size q = bp_size p" "bp_closed q = bp_closed p" "bp_request q = 0"
      by (subst q(4), simp add: p(7))+
    define st' where "st' = st(i \<mapsto> count_read (int ?m) (cleared bi), j \<mapsto> with_pair bj q)"
    have td: "take ?m (in_flight st j) = take (nat len) (in_flight st j)" "drop ?m (in_flight st j) = drop (nat len) (in_flight st j)"
      using p(4) by (auto simp: min_def)
    have ne: "in_flight st j \<noteq> []" using 3 p(4) by (metis list.size(3))
    have "BIO_read i True len st = Some (int ?m, take (nat len) (in_flight st j), st')"
      using 3 e q(1) by (simp only: Let_def if_False option.case prod.case td st'_def)
    moreover have "int ?m = min len (int (length (in_flight st j)))" using n p(4) by (simp add: of_nat_min)
    ultimately have "?P (int ?m) st'"
      using u [OF _ _ q(2) _ _ _ _ _ st'_def] p(3,5-9) b(3) q(3) qf ne
      by (simp add: td) (simp add: st'_def tests)
    then show ?thesis by blast
  qed
qed

lemma BIO_write_connected:
  assumes ok: "bios_ok st" and con: "connected st i j" and n: "0 < len" "nat len \<le> length data"
  shows "\<exists>ret st'. BIO_write i (Some data) len st = Some (ret, st')
    \<and> ret = (if bp_closed (pair_of st i) \<or> length (in_flight st i) = bp_size (pair_of st i) then - 1
             else min len (int (bp_size (pair_of st i)) - int (length (in_flight st i))))
    \<and> in_flight st' i = in_flight st i @ take (nat ret) data \<and> in_flight st' j = in_flight st j
    \<and> (\<forall>k. k \<noteq> i \<longrightarrow> st' k = st k) \<and> (bios_ok st' \<and> same_shape st st')
    \<and> bp_request (pair_of st' i) = 0
    \<and> BIO_should_write i st' = (if ret = - 1 \<and> \<not> bp_closed (pair_of st i) then BIO_FLAGS_WRITE else 0)
    \<and> BIO_should_retry i st' = (if ret = - 1 \<and> \<not> bp_closed (pair_of st i) then BIO_FLAGS_SHOULD_RETRY else 0)"
    (is "\<exists>ret st'. ?P ret st'")
proof -
  obtain bi bj where b: "st i = Some bi" "st j = Some bj" "i \<noteq> j" "bio_init bi" "bp_peer (bio_ptr bi) = Some j"
    "ring_ok (bio_ptr bi)"
    using connectedE [OF ok con] by metis
  define p where "p = (bio_ptr bi)\<lparr>bp_request := 0\<rparr>"
  have p: "ring_ok p" "ring_contents p = in_flight st i" "bp_closed p = bp_closed (bio_ptr bi)"
    "length (in_flight st i) = bp_len p" "bp_peer p = bp_peer (bio_ptr bi)" "bp_size p = bp_size (bio_ptr bi)"
    "bp_request p = 0" "pair_of st i = bio_ptr bi" "bp_peer p \<noteq> None"
    using b by (simp_all add: p_def in_flight_def length_ring_contents)
  have upd: "(bios_ok st' \<and> same_shape st st') \<and> in_flight st' i = ring_contents q \<and> in_flight st' j = in_flight st j
      \<and> (\<forall>k. k \<noteq> i \<longrightarrow> st' k = st k) \<and> bp_request (pair_of st' i) = 0"
    if "st' = st(i \<mapsto> b')" "bio_init b' = bio_init bi" "bio_ptr b' = q" "ring_ok q" "bp_peer q = bp_peer p"
      "bp_size q = bp_size p" "bp_closed q = bp_closed p" "bp_request q = 0" for st' b' q
    using connected_update [where st = st and i = i and b = bi and b' = b', OF ok b(1)] that p b(3)
    by (simp add: in_flight_def)
  note e = BIO_write_on_pair [where st = st and i = i and data = data, OF b(1,4) n(1), folded p_def]
  note tests = BIO_should_write_def BIO_should_retry_def BIO_test_flags_def retry_flags_cleared retry_flags_retrying
  have wp: "bio_flags (with_pair b q) = bio_flags b" for b q by (simp add: with_pair_def)
  consider "bp_closed p" | "\<not> bp_closed p" "bp_len p = bp_size p" | "\<not> bp_closed p" "bp_len p \<noteq> bp_size p" by blast
  then show ?thesis
  proof cases
    case 1
    define st' where "st' = st(i \<mapsto> with_pair (cleared bi) p)"
    have "BIO_write i (Some data) len st = Some (- 1, st')" using 1 e by (simp add: st'_def Let_def)
    then have "?P (- 1) st'" using upd [OF st'_def, of p] p 1 by simp (simp add: st'_def tests wp)
    then show ?thesis by blast
  next
    case 2
    define st' where "st' = st(i \<mapsto> retrying BIO_FLAGS_WRITE (with_pair (cleared bi) p))"
    have "BIO_write i (Some data) len st = Some (- 1, st')" using 2 e by (simp add: st'_def Let_def)
    then have "?P (- 1) st'" using upd [OF st'_def, of p] p 2 by simp (simp add: st'_def tests)
    then show ?thesis by blast
  next
    case 3
    let ?m = "min (nat len) (bp_size p - bp_len p)"
    have le: "bp_len p \<le> bp_size p" using p(1) by (auto simp: ring_ok_def split: option.splits)
    have "0 < ?m" "?m \<le> bp_size p - bp_len p" "?m \<le> length data" using 3(2) le n by simp_all
    from write_loop_spec [OF p(1) this] obtain q where
      q: "write_loop p ?m data = Some q" "ring_ok q" "ring_contents q = in_flight st i @ take ?m data"
        "q = p\<lparr>bp_len := bp_len p + ?m, bp_buf := bp_buf q\<rparr>"
      unfolding p(2) by auto
    have qf: "bp_peer q = bp_peer p" "bp_size q = bp_size p" "bp_closed q = bp_closed p" "bp_request q = 0"
      by (subst q(4), simp add: p(7))+
    define st' where "st' = st(i \<mapsto> count_write (int ?m) (with_pair (cleared bi) q))"
    note u = upd [OF st'_def _ _ q(2) qf]
    have rm: "int ?m = min len (int (bp_size (pair_of st i)) - int (length (in_flight st i)))"
      using n le p(4,6,8) by (simp add: of_nat_min of_nat_diff)
    have "?P (int ?m) st'"
    proof (intro conjI)
      show "BIO_write i (Some data) len st = Some (int ?m, st')"
        using 3 e q(1) by (simp only: Let_def if_False option.case st'_def)
      show "int ?m = (if bp_closed (pair_of st i) \<or> length (in_flight st i) = bp_size (pair_of st i) then - 1
             else min len (int (bp_size (pair_of st i)) - int (length (in_flight st i))))"
        unfolding rm using p(3,4,6,8) 3 by simp
      show "in_flight st' i = in_flight st i @ take (nat (int ?m)) data" using u q(3) by simp
    qed (use u in \<open>simp_all add: st'_def tests wp\<close>)
    then show ?thesis by blast
  qed
qed

section \<open>Making and breaking pairs\<close>

definition ring_size :: "nat \<Rightarrow> nat" where
  "ring_size n = (if n \<noteq> 0 then n else 17 * 1024)"

definition paired :: "nat \<Rightarrow> nat \<Rightarrow> bio" where
  "paired n j = \<lparr>bio_init = True, bio_shutdown = 1, bio_flags = 0, retry_reason = 0, num_read = 0, num_write = 0,
     bio_ptr = \<lparr>bp_peer = Some j, bp_closed = False, bp_len = 0, bp_offset = 0, bp_size = ring_size n,
       bp_buf = Some (replicate (ring_size n) 0), bp_request = 0\<rparr>\<rparr>"

definition unpaired :: "nat \<Rightarrow> byte list option \<Rightarrow> bio" where
  "unpaired n l = \<lparr>bio_init = False, bio_shutdown = 1, bio_flags = 0, retry_reason = 0, num_read = 0, num_write = 0,
     bio_ptr = \<lparr>bp_peer = None, bp_closed = False, bp_len = 0, bp_offset = 0, bp_size = n, bp_buf = l, bp_request = 0\<rparr>\<rparr>"

lemma unpaired_simps [simp]: "bp_peer (bio_ptr (unpaired n l)) = None" "bp_buf (bio_ptr (unpaired n l)) = l"
  "bp_size (bio_ptr (unpaired n l)) = n"
  by (simp_all add: unpaired_def)

lemma BIO_new_unpaired:
  "BIO_new al i st = (if al BIO_SIZE \<and> al BIO_PAIR_SIZE then (True, st(i \<mapsto> unpaired (17 * 1024) None)) else (False, st))"
  by (simp add: BIO_new_def bio_new_def unpaired_def)

lemma ready_buf_unpaired:
  assumes "st k = Some (unpaired (17 * 1024) None)"
  shows "ready_buf al k n st = (if al (ring_size n)
      then (True, st(k \<mapsto> unpaired (ring_size n) (Some (replicate (ring_size n) 0))))
      else (False, st(k \<mapsto> unpaired (ring_size n) None)))"
  using assms by (auto simp: ready_buf_def ring_size_def set_pair_def set_bio_def unpaired_def Let_def fun_upd_idem)

lemma BIO_free_unpaired: "st i = Some (unpaired n l) \<Longrightarrow> BIO_free i st = st(i := None)"
  by (simp add: BIO_free_def bio_free_def)

lemma bio_make_pair_unpaired:
  assumes i: "st i = Some (unpaired (17 * 1024) None)" and j: "st j = Some (unpaired (17 * 1024) None)" and ij: "i \<noteq> j"
  shows "bio_make_pair al1 al2 i j n1 n2 st =
    (if al1 (ring_size n1) then
       if al2 (ring_size n2) then (True, st(i \<mapsto> paired n1 j, j \<mapsto> paired n2 i))
       else (False, st(i \<mapsto> unpaired (ring_size n1) (Some (replicate (ring_size n1) 0)), j \<mapsto> unpaired (ring_size n2) None))
     else (False, st(i \<mapsto> unpaired (ring_size n1) None)))"
  using i j ij
  by (simp add: bio_make_pair_def ready_buf_unpaired [of st i] ready_buf_unpaired [where k = j] Let_def
      set_pair_def set_bio_def fun_upd_twist [of i j])
     (simp add: unpaired_def paired_def)

lemma BIO_new_bio_pair_spec:
  assumes fresh: "st i = None" "st j = None" and ij: "i \<noteq> j"
  shows "BIO_new_bio_pair al1 al2 i n1 j n2 st =
    (if al1 BIO_SIZE \<and> al1 BIO_PAIR_SIZE \<and> al2 BIO_SIZE \<and> al2 BIO_PAIR_SIZE \<and> al1 (ring_size n1) \<and> al2 (ring_size n2)
     then (True, st(i \<mapsto> paired n1 j, j \<mapsto> paired n2 i)) else (False, st))"
proof -
  have restore: "st(i := None) = st" "st(j := None) = st" "st(i := None, j := None) = st" using fresh by (simp_all add: fun_upd_idem)
  show ?thesis
    using fresh ij restore
    by (auto simp: BIO_new_bio_pair_def BIO_new_unpaired bio_make_pair_unpaired BIO_free_unpaired Let_def
        fun_upd_twist [of i j])
qed

lemma bios_ok_new_pair:
  assumes ok: "bios_ok st" and fresh: "st i = None" "st j = None" and ij: "i \<noteq> j"
  shows "bios_ok (st(i \<mapsto> paired n1 j, j \<mapsto> paired n2 i))"
  unfolding bios_ok_def
proof (intro allI impI)
  fix k c assume c: "(st(i \<mapsto> paired n1 j, j \<mapsto> paired n2 i)) k = Some c"
  have rs: "0 < ring_size n" for n by (simp add: ring_size_def)
  show "bio_ok (st(i \<mapsto> paired n1 j, j \<mapsto> paired n2 i)) k c"
  proof (cases "k = i \<or> k = j")
    case True
    then show ?thesis using c ij rs by (auto simp: bio_ok_def paired_def ring_ok_def Let_def)
  next
    case False
    then have "bio_ok st k c" using c bios_okD [OF ok] by simp
    moreover have "m \<noteq> i \<and> m \<noteq> j" if "bp_peer (bio_ptr c) = Some m" for m
      using \<open>bio_ok st k c\<close> that fresh by (auto simp: bio_ok_def Let_def)
    ultimately show ?thesis by (auto simp: bio_ok_def Let_def split: option.splits)
  qed
qed

definition unlinked :: "bio \<Rightarrow> bio" where
  "unlinked b = b\<lparr>bio_init := False, bio_ptr := (bio_ptr b)\<lparr>bp_peer := None, bp_len := 0, bp_offset := 0\<rparr>\<rparr>"

lemma BIO_free_connected:
  assumes "bios_ok st" "connected st i j"
  shows "BIO_free i st = st(i := None, j \<mapsto> unlinked (bio_of st j))"
proof -
  obtain bi bj where "st i = Some bi" "st j = Some bj" "i \<noteq> j" "bp_peer (bio_ptr bi) = Some j"
    using connectedE [OF assms] by metis
  then show ?thesis
    by (auto simp: BIO_free_def bio_free_def bio_destroy_pair_def set_pair_def set_bio_def unlinked_def Let_def fun_eq_iff)
qed

lemma BIO_free_single: "bp_peer (pair_of st i) = None \<Longrightarrow> BIO_free i st = st(i := None)"
  by (simp add: BIO_free_def bio_free_def)

lemma unlinked_ok:
  assumes "bio_ok st j b" "bp_buf (bio_ptr b) \<noteq> None"
  shows "bio_ok st' j (unlinked b)"
  using assms by (auto simp: bio_ok_def unlinked_def ring_ok_def Let_def split: option.splits)

lemma bios_ok_free:
  assumes ok: "bios_ok st" and i: "st i = Some b"
  shows "bios_ok (BIO_free i st)"
proof (cases "bp_peer (bio_ptr b)")
  case None
  have "bio_ok (st(i := None)) k c" if k: "k \<noteq> i" "st k = Some c" for k c
  proof -
    have "bio_ok st k c" using bios_okD [OF ok k(2)] .
    moreover have "m \<noteq> i" if "bp_peer (bio_ptr c) = Some m" for m
      using \<open>bio_ok st k c\<close> that i None by (auto simp: bio_ok_def Let_def)
    ultimately show ?thesis by (auto simp: bio_ok_def Let_def split: option.splits)
  qed
  then show ?thesis using i None by (auto simp: BIO_free_single bios_ok_def split: if_splits)
next
  case (Some j)
  have con: "connected st i j" using bios_okD [OF ok i] Some i by (auto simp: bio_ok_def connected_def Let_def)
  obtain bj where b: "st j = Some bj" "i \<noteq> j" "bp_peer (bio_ptr bj) = Some i" "ring_ok (bio_ptr bj)"
    using connectedE [OF ok con] by metis
  let ?st = "st(i := None, j \<mapsto> unlinked bj)"
  have "bio_ok ?st k c" if k: "?st k = Some c" for k c
  proof (cases "k = j")
    case True
    then show ?thesis using k unlinked_ok [OF bios_okD [OF ok b(1)]] ring_ok_buf [OF b(4)] by auto
  next
    case False
    then have kc: "k \<noteq> i" "st k = Some c" using k by (auto split: if_splits)
    then have "bio_ok st k c" using bios_okD [OF ok] by blast
    moreover have "m \<noteq> i \<and> m \<noteq> j" if "bp_peer (bio_ptr c) = Some m" for m
    proof -
      have "bp_peer (pair_of st m) = Some k" using \<open>bio_ok st k c\<close> that by (auto simp: bio_ok_def Let_def)
      then show ?thesis using i Some b False kc(1) by auto
    qed
    ultimately show ?thesis by (auto simp: bio_ok_def Let_def split: option.splits)
  qed
  then show ?thesis using BIO_free_connected [OF ok con] b(1) by (simp add: bios_ok_def)
qed

text \<open>A control call changes nothing but the request, the closed end and \<^verbatim>\<open>shutdown\<close> of its BIO.\<close>

lemma bios_ok_ctrl:
  assumes ok: "bios_ok st" and i: "st i = Some b"
  shows "bios_ok (snd (BIO_ctrl i cmd st))"
proof -
  have b: "bio_ok st i b" using bios_okD [OF ok i] .
  note upd = bios_ok_update [where st = st and i = i and b = b, OF ok i]
  have 1: "bios_ok (st(i \<mapsto> with_pair b ((bio_ptr b)\<lparr>bp_request := 0\<rparr>)))"
    using b by (intro upd) (auto simp: bio_ok_def Let_def split: option.splits)
  have 2: "bios_ok (st(i \<mapsto> with_pair b ((bio_ptr b)\<lparr>bp_closed := True\<rparr>)))"
    using b by (intro upd) (auto simp: bio_ok_def Let_def ring_ok_def split: option.splits)
  have 3: "bios_ok (st(i \<mapsto> b\<lparr>bio_shutdown := n\<rparr>))" for n
    using b by (intro upd) (auto simp: bio_ok_def Let_def split: option.splits)
  show ?thesis
    using ok 1 2 3 i by (cases cmd) (simp_all add: BIO_ctrl_def bio_ctrl_def Let_def set_pair_Some set_bio_Some)
qed

lemma in_flight_ctrl: "st i \<noteq> None \<Longrightarrow> in_flight (snd (BIO_ctrl i cmd st)) k = in_flight st k"
  by (cases cmd)
     (auto simp: BIO_ctrl_def bio_ctrl_def Let_def set_pair_def set_bio_def in_flight_def ring_contents_def)

lemma connected_ctrl: "st i \<noteq> None \<Longrightarrow> connected (snd (BIO_ctrl i cmd st)) k l = connected st k l"
  by (cases cmd)
     (auto simp: BIO_ctrl_def bio_ctrl_def Let_def set_pair_def set_bio_def connected_def)

text \<open>A read without an array, and a write without one.\<close>

lemma BIO_read_null:
  assumes ok: "bios_ok st" and con: "connected st i j" and n: "0 < len"
  shows "\<exists>st'. BIO_read i False len st = Some (0, [], st') \<and> (bios_ok st' \<and> same_shape st st')
    \<and> in_flight st' j = in_flight st j \<and> in_flight st' i = in_flight st i \<and> (\<forall>k. k \<noteq> i \<and> k \<noteq> j \<longrightarrow> st' k = st k)"
proof -
  obtain bi bj where b: "st i = Some bi" "st j = Some bj" "i \<noteq> j" "bio_init bi" "bp_peer (bio_ptr bi) = Some j"
    "ring_ok (bio_ptr bj)"
    using connectedE [OF ok con] by metis
  define st' where "st' = st(i \<mapsto> cleared bi, j \<mapsto> with_pair bj ((bio_ptr bj)\<lparr>bp_request := 0\<rparr>))"
  have "BIO_read i False len st = Some (0, [], st')"
    using b n by (simp add: BIO_read_def bio_read_def clear_retry_Some set_pair_Some st'_def Let_def)
  moreover have "in_flight st j = ring_contents (bio_ptr bj)" using b(2) by (simp add: in_flight_def)
  ultimately show ?thesis
    using read_update [OF ok con b(1,2) _ _ _ _ _ _ _ _ st'_def] b(6) by simp
qed

lemma BIO_write_null:
  assumes ok: "bios_ok st" and con: "connected st i j" and n: "0 < len"
  shows "\<exists>st'. BIO_write i None len st = Some (0, st') \<and> (bios_ok st' \<and> same_shape st st')
    \<and> in_flight st' j = in_flight st j \<and> in_flight st' i = in_flight st i \<and> (\<forall>k. k \<noteq> i \<longrightarrow> st' k = st k)"
proof -
  obtain bi bj where b: "st i = Some bi" "st j = Some bj" "i \<noteq> j" "bio_init bi" "bp_peer (bio_ptr bi) = Some j"
    "ring_ok (bio_ptr bi)" "bp_request (bio_ptr bi) \<le> bp_size (bio_ptr bi)"
    "bp_len (bio_ptr bi) \<noteq> 0 \<longrightarrow> bp_request (bio_ptr bi) = 0"
    using connectedE [OF ok con] by metis
  define st' where "st' = st(i \<mapsto> cleared bi)"
  have "BIO_write i None len st = Some (0, st')"
    using b n by (simp add: BIO_write_def bio_write_def clear_retry_Some st'_def Let_def)
  moreover have "bios_ok st' \<and> same_shape st st'"
    unfolding st'_def using b by (intro connected_update [where st = st and i = i and b = bi, OF ok b(1)]) simp_all
  ultimately show ?thesis using b by (auto simp: st'_def in_flight_def)
qed

section \<open>The steps of a store\<close>

inductive bio_step :: "bios \<Rightarrow> bios \<Rightarrow> bool" where
  step_new: "st i = None \<Longrightarrow> st j = None \<Longrightarrow> i \<noteq> j \<Longrightarrow> bio_step st (snd (BIO_new_bio_pair al1 al2 i n1 j n2 st))"
| step_read: "BIO_read i nonnull len st = Some (ret, bytes, st') \<Longrightarrow> bio_step st st'"
| step_write: "BIO_write i buf len st = Some (ret, st') \<Longrightarrow> (\<And>data. buf = Some data \<Longrightarrow> nat len \<le> length data) \<Longrightarrow> bio_step st st'"
| step_ctrl: "bio_step st (snd (BIO_ctrl i cmd st))"
| step_free: "st i \<noteq> None \<Longrightarrow> bio_step st (BIO_free i st)"

inductive bio_reachable :: "bios \<Rightarrow> bool" where
  reach_start: "bio_reachable (\<lambda>_. None)"
| reach_step: "bio_reachable st \<Longrightarrow> bio_step st st' \<Longrightarrow> bio_reachable st'"

lemma BIO_read_trivial:
  assumes "\<not> (st i \<noteq> None \<and> bio_init (bio_of st i) \<and> 0 < len)"
  shows "BIO_read i nonnull len st = Some (if st i = None \<or> \<not> bio_init (bio_of st i) then - 2 else 0, [], st)"
  using assms by (auto simp: BIO_read_def)

lemma BIO_write_trivial:
  assumes "\<not> (st i \<noteq> None \<and> bio_init (bio_of st i) \<and> 0 < len)"
  shows "BIO_write i buf len st = Some (if st i = None \<or> \<not> bio_init (bio_of st i) then - 2 else 0, st)"
  using assms by (auto simp: BIO_write_def)

lemma BIO_read_total:
  assumes ok: "bios_ok st"
  shows "\<exists>ret bytes st'. BIO_read i nonnull len st = Some (ret, bytes, st') \<and> bios_ok st' \<and> same_shape st st'"
proof (cases "st i \<noteq> None \<and> bio_init (bio_of st i) \<and> 0 < len")
  case True
  then have "connected st i (the (bp_peer (pair_of st i)))" using init_connected [OF ok] by blast
  from BIO_read_connected [OF ok this, of len] BIO_read_null [OF ok this, of len] True
  have "\<exists>ret bytes st'. BIO_read i True len st = Some (ret, bytes, st') \<and> bios_ok st' \<and> same_shape st st'"
    "\<exists>ret bytes st'. BIO_read i False len st = Some (ret, bytes, st') \<and> bios_ok st' \<and> same_shape st st'" by blast+
  then show ?thesis by (cases nonnull) simp_all
next
  case False
  then show ?thesis using ok by (simp add: BIO_read_trivial)
qed

lemma BIO_write_total:
  assumes ok: "bios_ok st" and buf: "\<And>data. buf = Some data \<Longrightarrow> nat len \<le> length data"
  shows "\<exists>ret st'. BIO_write i buf len st = Some (ret, st') \<and> bios_ok st' \<and> same_shape st st'"
proof (cases "st i \<noteq> None \<and> bio_init (bio_of st i) \<and> 0 < len")
  case True
  then have "connected st i (the (bp_peer (pair_of st i)))" using init_connected [OF ok] by blast
  from BIO_write_connected [OF ok this, of len] BIO_write_null [OF ok this, of len] True buf
  show ?thesis by (cases buf) blast+
next
  case False
  then show ?thesis using ok by (simp add: BIO_write_trivial)
qed

lemma bio_step_ok: "bio_step st st' \<Longrightarrow> bios_ok st \<Longrightarrow> bios_ok st'"
proof (induction rule: bio_step.induct)
  case (step_new st i j al1 al2 n1 n2)
  then show ?case using bios_ok_new_pair [of st i j n1 n2] by (simp add: BIO_new_bio_pair_spec del: fun_upd_apply)
next
  case (step_read i nonnull len st ret bytes st')
  then show ?case using BIO_read_total [of st i nonnull len] by auto
next
  case (step_write i buf len st ret st')
  then show ?case using BIO_write_total [of st buf len i] by auto
next
  case (step_ctrl st i cmd)
  then show ?case using bios_ok_ctrl [of st i _ cmd] by (cases "st i") (simp_all add: BIO_ctrl_def)
next
  case (step_free st i)
  then show ?case using bios_ok_free by blast
qed

lemma bios_ok_empty: "bios_ok (\<lambda>_. None)"
  by (simp add: bios_ok_def)

lemma bio_reachable_ok: "bio_reachable st \<Longrightarrow> bios_ok st"
  by (induction rule: bio_reachable.induct) (auto intro: bios_ok_empty bio_step_ok)

end
