(* ===== verification/BioPairProps.thy ===== *)
theory BioPairProps
  imports BioStore
begin

text \<open>
  What a BIO pair promises: each direction is a bounded queue of bytes.  The locale \<open>byte_channel\<close> is
  the interface of such a queue, the pair provides it, and the order and completeness of what is
  received follow inside the locale.
\<close>

section \<open>Writing everything\<close>

lemma nat_min_int: "nat (min a (int b)) = min (nat a) b"
  by (auto simp: min_def)

definition room :: "bios \<Rightarrow> nat \<Rightarrow> nat" where
  "room st i = (if bp_closed (pair_of st i) then 0 else bp_size (pair_of st i) - length (in_flight st i))"

lemma in_flight_le:
  assumes "bios_ok st" "connected st i j"
  shows "length (in_flight st i) \<le> bp_size (pair_of st i)"
proof -
  obtain bi where "st i = Some bi" "ring_ok (bio_ptr bi)" using connectedE [OF assms] by metis
  then show ?thesis by (auto simp: in_flight_def length_ring_contents ring_ok_def split: option.splits)
qed

text \<open>A write accepts what there is room for.\<close>

lemma BIO_write_room:
  assumes ok: "bios_ok st" and con: "connected st i j" and n: "0 < len" "nat len \<le> length data"
  shows "\<exists>st'. BIO_write i (Some data) len st = Some (if room st i = 0 then - 1 else min len (int (room st i)), st')
    \<and> in_flight st' i = in_flight st i @ take (min (nat len) (room st i)) data \<and> in_flight st' j = in_flight st j
    \<and> bios_ok st' \<and> same_shape st st'"
proof -
  from BIO_write_connected [OF assms] obtain ret st' where
    w: "BIO_write i (Some data) len st = Some (ret, st')"
      "ret = (if bp_closed (pair_of st i) \<or> length (in_flight st i) = bp_size (pair_of st i) then - 1
             else min len (int (bp_size (pair_of st i)) - int (length (in_flight st i))))"
      "in_flight st' i = in_flight st i @ take (nat ret) data" "in_flight st' j = in_flight st j"
      "bios_ok st'" "same_shape st st'" by blast
  have r: "ret = (if room st i = 0 then - 1 else min len (int (room st i)))"
    using in_flight_le [OF ok con] by (auto simp: w(2) room_def of_nat_diff)
  have "nat ret = min (nat len) (room st i)"
    unfolding r using n(1) by (simp add: nat_min_int)
  then show ?thesis using w(1,3-6) unfolding r [symmetric] by auto
qed

lemma BIO_write_all_room:
  assumes "bios_ok st" "connected st i j"
  shows "\<exists>st'. BIO_write_all i data st = Some (length data \<le> room st i, st')
    \<and> in_flight st' i = in_flight st i @ take (room st i) data \<and> in_flight st' j = in_flight st j
    \<and> bios_ok st' \<and> same_shape st st'"
  using assms
proof (induction "length data" arbitrary: data st rule: less_induct)
  case less
  show ?case
  proof (cases "data = []")
    case True
    then show ?thesis using less.prems by (subst BIO_write_all.simps) auto
  next
    case False
    define n where "n = (if length data > C_INT_MAX then C_INT_MAX else length data)"
    have n: "0 < n" "n \<le> length data" using False by (auto simp: n_def C_INT_MAX_def)
    obtain st1 where w: "BIO_write i (Some data) (int n) st =
        Some (if room st i = 0 then - 1 else min (int n) (int (room st i)), st1)"
      "in_flight st1 i = in_flight st i @ take (min n (room st i)) data" "in_flight st1 j = in_flight st j"
      "bios_ok st1" "same_shape st st1"
      using BIO_write_room [OF less.prems, of "int n" data] n by auto
    have e: "BIO_write_all i data st = (if room st i = 0 then Some (False, st1)
        else BIO_write_all i (drop (min n (room st i)) data) st1)"
      using False n w(1) by (subst BIO_write_all.simps) (auto simp: n_def [symmetric] nat_min_int)
    show ?thesis
    proof (cases "room st i = 0")
      case True
      then show ?thesis using e w False by simp
    next
      case nz: False
      define m where "m = min n (room st i)"
      have m: "0 < m" "m \<le> length data" "m \<le> room st i" using n nz by (auto simp: m_def)
      have con: "connected st1 i j" using w(5) less.prems(2) by (simp add: same_shape_connected)
      have sh: "bp_closed (pair_of st1 i) = bp_closed (pair_of st i)" "bp_size (pair_of st1 i) = bp_size (pair_of st i)"
        using w(5) by (simp_all add: same_shape_def)
      have "length (in_flight st1 i) = length (in_flight st i) + m" using w(2) m(2) by (simp add: m_def [symmetric])
      then have r1: "room st1 i = room st i - m" using sh by (simp add: room_def)
      have "length (drop m data) < length data" using m by simp
      from less.hyps [OF this w(4) con] obtain st2 where
        st2: "BIO_write_all i (drop m data) st1 = Some (length (drop m data) \<le> room st1 i, st2)"
          "in_flight st2 i = in_flight st1 i @ take (room st1 i) (drop m data)" "in_flight st2 j = in_flight st1 j"
          "bios_ok st2" "same_shape st1 st2" by blast
      have "take m data @ take (room st i - m) (drop m data) = take (room st i) data"
        using m(3) by (metis le_add_diff_inverse take_add)
      then have "in_flight st2 i = in_flight st i @ take (room st i) data"
        using st2(2) w(2) r1 by (simp add: m_def [symmetric])
      moreover have "(length (drop m data) \<le> room st1 i) = (length data \<le> room st i)" using r1 m by auto
      ultimately show ?thesis
        using e nz st2(1,3-5) w(3) same_shape_trans [OF w(5) st2(5)] by (simp add: m_def [symmetric])
    qed
  qed
qed

section \<open>The interface of a channel\<close>

datatype 'e channel_op = Put "byte list" | Get nat | Other 'e

text \<open>A run of a channel: what was accepted, what was delivered, and the state at the end.\<close>

fun run_channel :: "(byte list \<Rightarrow> 's \<Rightarrow> (nat \<times> 's) option) \<Rightarrow> (nat \<Rightarrow> 's \<Rightarrow> (byte list \<times> 's) option) \<Rightarrow>
    ('e \<Rightarrow> 's \<Rightarrow> 's option) \<Rightarrow> 'e channel_op list \<Rightarrow> 's \<Rightarrow> (byte list \<times> byte list \<times> 's) option" where
  "run_channel put get env [] s = Some ([], [], s)"
| "run_channel put get env (Put d # ops) s = (case put d s of
     None \<Rightarrow> None
   | Some (n, s) \<Rightarrow> map_option (\<lambda>(sent, rcv, s). (take n d @ sent, rcv, s)) (run_channel put get env ops s))"
| "run_channel put get env (Get n # ops) s = (case get n s of
     None \<Rightarrow> None
   | Some (bs, s) \<Rightarrow> map_option (\<lambda>(sent, rcv, s). (sent, bs @ rcv, s)) (run_channel put get env ops s))"
| "run_channel put get env (Other e # ops) s = (case env e s of
     None \<Rightarrow> None
   | Some s \<Rightarrow> run_channel put get env ops s)"

locale byte_channel =
  fixes ok :: "'s \<Rightarrow> bool" and contents :: "'s \<Rightarrow> byte list"
    and put :: "byte list \<Rightarrow> 's \<Rightarrow> (nat \<times> 's) option" and get :: "nat \<Rightarrow> 's \<Rightarrow> (byte list \<times> 's) option"
    and env :: "'e \<Rightarrow> 's \<Rightarrow> 's option"
  assumes put_law: "ok s \<Longrightarrow> \<exists>n t. put d s = Some (n, t) \<and> ok t \<and> contents t = contents s @ take n d"
    and get_law: "ok s \<Longrightarrow> \<exists>t. get m s = Some (take m (contents s), t) \<and> ok t \<and> contents t = drop m (contents s)"
    and env_law: "ok s \<Longrightarrow> \<exists>t. env e s = Some t \<and> ok t \<and> contents t = contents s"
begin

text \<open>What was in the channel and what was put into it is what was got and what is still there, in order.\<close>

lemma run_fifo:
  assumes "ok s"
  shows "\<exists>sent rcv t. run_channel put get env ops s = Some (sent, rcv, t) \<and> ok t \<and> contents s @ sent = rcv @ contents t"
  using assms
proof (induction ops arbitrary: s)
  case Nil
  then show ?case by simp
next
  case (Cons e ops)
  show ?case
  proof (cases e)
    case (Put d)
    obtain n t where t: "put d s = Some (n, t)" "ok t" "contents t = contents s @ take n d"
      using put_law [OF Cons.prems] by blast
    then show ?thesis using Cons.IH [OF t(2)] Put by auto
  next
    case (Get m)
    obtain t where t: "get m s = Some (take m (contents s), t)" "ok t" "contents t = drop m (contents s)"
      using get_law [OF Cons.prems] by blast
    obtain sent rcv u where u: "run_channel put get env ops t = Some (sent, rcv, u)" "ok u" "contents t @ sent = rcv @ contents u"
      using Cons.IH [OF t(2)] by blast
    have "contents s @ sent = take m (contents s) @ contents t @ sent" unfolding t(3) by (simp only: append_assoc [symmetric] append_take_drop_id)
    then show ?thesis using u t(1) Get by simp
  next
    case (Other x)
    obtain t where t: "env x s = Some t" "ok t" "contents t = contents s" using env_law [OF Cons.prems] by blast
    then show ?thesis using Cons.IH [OF t(2)] Other by simp
  qed
qed

end

text \<open>One direction of a pair: \<open>i\<close> writes, \<open>j\<close> reads, and the other calls on the two happen in between.\<close>

datatype pair_event = Write_back "byte list" | Read_back nat | Control nat bio_cmd

definition channel_put :: "nat \<Rightarrow> byte list \<Rightarrow> bios \<Rightarrow> (nat \<times> bios) option" where
  "channel_put i d st = map_option (\<lambda>(ret, st). (nat ret, st)) (BIO_write i (Some d) (int (length d)) st)"

definition channel_get :: "nat \<Rightarrow> nat \<Rightarrow> bios \<Rightarrow> (byte list \<times> bios) option" where
  "channel_get j n st = map_option (\<lambda>(ret, bs, st). (bs, st)) (BIO_read j True (int n) st)"

fun channel_env :: "nat \<Rightarrow> nat \<Rightarrow> pair_event \<Rightarrow> bios \<Rightarrow> bios option" where
  "channel_env i j (Write_back d) st = map_option snd (BIO_write j (Some d) (int (length d)) st)"
| "channel_env i j (Read_back n) st = map_option (snd \<circ> snd) (BIO_read i True (int n) st)"
| "channel_env i j (Control k cmd) st = Some (snd (BIO_ctrl k cmd st))"

lemma BIO_zero_length:
  assumes "bios_ok st" "connected st k l"
  shows "BIO_write k buf 0 st = Some (0, st)" "BIO_read k nonnull 0 st = Some (0, [], st)"
proof -
  obtain b where "st k = Some b" "bio_init b" using connectedE [OF assms] by metis
  then show "BIO_write k buf 0 st = Some (0, st)" "BIO_read k nonnull 0 st = Some (0, [], st)"
    by (simp_all add: BIO_write_def BIO_read_def)
qed

interpretation pair: byte_channel "\<lambda>st. bios_ok st \<and> connected st i j" "\<lambda>st. in_flight st i"
  "channel_put i" "channel_get j" "channel_env i j" for i j
proof
  fix st d m e assume ok: "bios_ok st \<and> connected st i j"
  then have con: "connected st i j" "connected st j i" by (auto intro: connected_sym)
  have z: "BIO_write k (Some []) 0 st = Some (0, st)" "BIO_read k True 0 st = Some (0, [], st)" if "k = i \<or> k = j" for k
    using that BIO_zero_length ok con by blast+
  show "\<exists>n t. channel_put i d st = Some (n, t) \<and> (bios_ok t \<and> connected t i j) \<and> in_flight t i = in_flight st i @ take n d"
  proof (cases "d = []")
    case False
    then show ?thesis
      using BIO_write_connected [of st i j "int (length d)" d] ok con same_shape_connected by (force simp: channel_put_def)
  qed (use ok z in \<open>simp add: channel_put_def\<close>)
  show "\<exists>t. channel_get j m st = Some (take m (in_flight st i), t) \<and> (bios_ok t \<and> connected t i j)
      \<and> in_flight t i = drop m (in_flight st i)"
  proof (cases "m = 0")
    case False
    then show ?thesis
      using BIO_read_connected [of st j i "int m"] ok con same_shape_connected by (force simp: channel_get_def)
  qed (use ok z in \<open>simp add: channel_get_def\<close>)
  show "\<exists>t. channel_env i j e st = Some t \<and> (bios_ok t \<and> connected t i j) \<and> in_flight t i = in_flight st i"
  proof (cases e)
    case (Write_back d)
    show ?thesis
    proof (cases "d = []")
      case False
      then show ?thesis
        using BIO_write_connected [of st j i "int (length d)" d] ok con same_shape_connected Write_back by force
    qed (use ok z Write_back in simp)
  next
    case (Read_back m)
    show ?thesis
    proof (cases "m = 0")
      case False
      then show ?thesis
        using BIO_read_connected [of st i j "int m"] ok con same_shape_connected Read_back by force
    qed (use ok z Read_back in simp)
  next
    case (Control k cmd)
    have "bios_ok (snd (BIO_ctrl k cmd st)) \<and> connected (snd (BIO_ctrl k cmd st)) i j
      \<and> in_flight (snd (BIO_ctrl k cmd st)) i = in_flight st i"
    proof (cases "st k")
      case None
      then show ?thesis using ok by (simp add: BIO_ctrl_def)
    next
      case (Some b)
      then show ?thesis using ok bios_ok_ctrl [of st k b cmd] in_flight_ctrl [of st k cmd i] connected_ctrl [of st k cmd i j] by simp
    qed
    then show ?thesis using Control by simp
  qed
qed

section \<open>Properties\<close>

text \<open>A pair with rings of four and two bytes, for the examples.\<close>

definition pair42 :: bios where
  "pair42 = snd (BIO_new_bio_pair (\<lambda>_. True) (\<lambda>_. True) 0 4 1 2 (\<lambda>_. None))"

lemma pair42_new: "BIO_new_bio_pair (\<lambda>_. True) (\<lambda>_. True) 0 4 1 2 (\<lambda>_. None) = (True, pair42)"
  by (simp add: pair42_def BIO_new_bio_pair_spec)

lemma pair42_eq: "pair42 = [0 \<mapsto> paired 4 1, 1 \<mapsto> paired 2 0]"
  by (simp add: pair42_def BIO_new_bio_pair_spec)

lemma pair42_reachable: "bio_reachable pair42"
  unfolding pair42_def by (rule reach_step [OF reach_start step_new]) simp_all

lemma pair42_connected: "connected pair42 0 1" "connected pair42 1 0"
  by (simp_all add: pair42_eq connected_def paired_def)

lemma connected_after_new:
  "BIO_new_bio_pair al1 al2 i n1 j n2 st = (True, st') \<Longrightarrow> st i = None \<Longrightarrow> st j = None \<Longrightarrow> i \<noteq> j \<Longrightarrow>
    connected st' i j \<and> in_flight st' i = [] \<and> in_flight st' j = []
    \<and> bp_size (pair_of st' i) = ring_size n1 \<and> bp_size (pair_of st' j) = ring_size n2"
  by (auto simp: BIO_new_bio_pair_spec connected_def paired_def in_flight_def ring_contents_def split: if_splits)

text \<open>
  C5. Whatever sequence of creations, reads, writes, control calls and releases led to a store, every
  BIO in it satisfies what the comments of \<^verbatim>\<open>struct bio_bio_st\<close> say: \<^verbatim>\<open>init\<close> is set exactly when there
  is a peer; the peer exists, is another BIO and points back; \<^verbatim>\<open>buf\<close> has \<^verbatim>\<open>size\<close> bytes, and is there
  when there is a peer; \<^verbatim>\<open>len\<close> fits in it and is zero without a peer; \<^verbatim>\<open>offset\<close> is inside it, and zero
  when \<^verbatim>\<open>len\<close> is; and \<^verbatim>\<open>request\<close> is zero when there is data and never exceeds the buffer.
\<close>

theorem bio_pair_invariant:
  assumes "bio_reachable st" "st i = Some b"
  shows "let p = bio_ptr b in
      bio_init b = (bp_peer p \<noteq> None)
    \<and> (\<forall>j. bp_peer p = Some j \<longrightarrow> j \<noteq> i \<and> bp_buf p \<noteq> None \<and> st j \<noteq> None \<and> bp_peer (pair_of st j) = Some i)
    \<and> (\<forall>l. bp_buf p = Some l \<longrightarrow> length l = bp_size p)
    \<and> bp_len p \<le> bp_size p \<and> (bp_peer p = None \<longrightarrow> bp_len p = 0)
    \<and> bp_offset p < bp_size p \<and> (bp_len p = 0 \<longrightarrow> bp_offset p = 0)
    \<and> (bp_peer p \<noteq> None \<longrightarrow> bp_request p \<le> bp_size p \<and> (bp_len p \<noteq> 0 \<longrightarrow> bp_request p = 0))"
proof -
  define p where "p = bio_ptr b"
  have "bio_ok st i b" using bios_okD [OF bio_reachable_ok] assms by blast
  note ok = this [unfolded bio_ok_def Let_def, folded p_def]
  have 1: "bio_init b = (bp_peer p \<noteq> None)" using ok by blast
  have 2: "j \<noteq> i \<and> bp_buf p \<noteq> None \<and> st j \<noteq> None \<and> bp_peer (pair_of st j) = Some i" if "bp_peer p = Some j" for j
    using ok that by simp
  have 3: "length l = bp_size p" if "bp_buf p = Some l" for l using ok that by (simp add: ring_ok_def)
  have 4: "bp_len p \<le> bp_size p \<and> bp_offset p < bp_size p \<and> (bp_len p = 0 \<longrightarrow> bp_offset p = 0)"
    using ok by (auto simp: ring_ok_def split: option.splits)
  have 5: "bp_peer p = None \<longrightarrow> bp_len p = 0" using ok by auto
  have 6: "bp_peer p \<noteq> None \<longrightarrow> bp_request p \<le> bp_size p \<and> (bp_len p \<noteq> 0 \<longrightarrow> bp_request p = 0)"
    using ok by auto
  show ?thesis unfolding Let_def p_def [symmetric] using 1 2 3 4 5 6 by blast
qed

theorem bio_pair_invariant_witness:
  "bio_reachable pair42 \<and> bp_size (bio_ptr (paired 4 1)) = 4 \<and> bp_offset (bio_ptr (paired 4 1)) < 4"
  using bio_pair_invariant [of pair42 0 "paired 4 1"] pair42_reachable
  by (simp add: pair42_eq Let_def) (simp add: paired_def ring_size_def)

text \<open>
  C29. Every read and every write on a reachable store returns: the loops around the end of the ring
  finish, whatever the BIO, the length and the array.
\<close>

theorem bio_calls_return:
  assumes "bio_reachable st"
  shows "(\<exists>r. BIO_read i nonnull len st = Some r) \<and> (\<exists>r. BIO_write i None len st = Some r)
    \<and> (\<exists>r. BIO_write i (Some data) (int (length data)) st = Some r)"
  using BIO_read_total [OF bio_reachable_ok [OF assms], of i nonnull len]
    BIO_write_total [OF bio_reachable_ok [OF assms], of None len i]
    BIO_write_total [OF bio_reachable_ok [OF assms], of "Some data" "int (length data)" i] by auto

theorem bio_calls_return_witness: "\<exists>r. BIO_write 0 (Some [1, 2, 3]) (int (length [1, 2, 3 :: byte])) pair42 = Some r"
  using bio_calls_return [OF pair42_reachable, of 0 True 5 "[1, 2, 3]"] by blast

text \<open>
  C3. A direction of a pair is a queue.  After any sequence of writes at one end, reads at the other,
  writes and reads the other way, and control calls, the bytes accepted are the bytes delivered
  followed by those still in the ring: nothing is lost, duplicated or reordered, and no more than the
  ring's size is in flight.
\<close>

theorem bio_pair_fifo:
  assumes "bio_reachable st" "st i = None" "st j = None" "i \<noteq> j"
    "BIO_new_bio_pair al1 al2 i n1 j n2 st = (True, st')"
  shows "\<exists>sent rcv t. run_channel (channel_put i) (channel_get j) (channel_env i j) ops st' = Some (sent, rcv, t)
    \<and> sent = rcv @ in_flight t i \<and> length (in_flight t i) \<le> bp_size (pair_of t i)"
proof -
  have "bio_step st st'" using step_new [OF assms(2-4), of al1 al2 n1 n2] assms(5) by simp
  then have "bios_ok st'" using assms(1) bio_reachable_ok bio_step_ok by blast
  moreover have "connected st' i j" "in_flight st' i = []" using connected_after_new [OF assms(5,2-4)] by simp_all
  ultimately show ?thesis using pair.run_fifo [of st' i j ops] in_flight_le by fastforce
qed

theorem bio_pair_fifo_witness:
  "\<exists>sent rcv t. run_channel (channel_put 0) (channel_get 1) (channel_env 0 1)
      [Put [1, 2, 3], Get 2, Put [4, 5, 6], Other (Control 0 SHUTDOWN_WR), Get 9] pair42 = Some (sent, rcv, t)
    \<and> sent = rcv @ in_flight t 0 \<and> length (in_flight t 0) \<le> bp_size (pair_of t 0)"
  by (rule bio_pair_fifo [OF reach_start _ _ _ pair42_new]) simp_all

lemma write_guarantee_room:
  assumes ok: "bios_ok st" and con: "connected st i j"
  shows "BIO_ctrl_get_write_guarantee i st = (int (room st i), st)"
proof -
  obtain bi where b: "st i = Some bi" "bp_peer (bio_ptr bi) = Some j" "ring_ok (bio_ptr bi)"
    using connectedE [OF ok con] by metis
  then have "length (in_flight st i) = bp_len (bio_ptr bi)" by (simp add: in_flight_def length_ring_contents)
  then show ?thesis using b in_flight_le [OF ok con]
    by (simp add: BIO_ctrl_get_write_guarantee_def BIO_ctrl_def bio_ctrl_def room_def of_nat_diff Let_def)
qed

text \<open>
  The write guarantee is exact: on a connected BIO it is the number of bytes the next write accepts.
  A write of more accepts just that many, a write of less accepts all, and with a guarantee of zero the
  write fails with -1.
\<close>

theorem bio_write_guarantee:
  assumes "bio_reachable st" "connected st i j" "0 < len" "nat len \<le> length data"
  shows "\<exists>g st'. BIO_ctrl_get_write_guarantee i st = (int g, st)
    \<and> BIO_write i (Some data) len st = Some (if g = 0 then - 1 else min len (int g), st')
    \<and> in_flight st' i = in_flight st i @ take (min (nat len) g) data"
proof -
  note ok = bio_reachable_ok [OF assms(1)]
  show ?thesis using BIO_write_room [OF ok assms(2-4)] write_guarantee_room [OF ok assms(2)] by blast
qed

theorem bio_write_guarantee_witness:
  "\<exists>g st'. BIO_ctrl_get_write_guarantee 1 pair42 = (int g, pair42)
    \<and> BIO_write 1 (Some [7, 8, 9]) 3 pair42 = Some (if g = 0 then - 1 else min 3 (int g), st')
    \<and> in_flight st' 1 = in_flight pair42 1 @ take (min (nat 3) g) [7, 8, 9]"
  by (rule bio_write_guarantee [OF pair42_reachable pair42_connected(2)]) simp_all

text \<open>
  \<^verbatim>\<open>BIO_write_all\<close> on a connected BIO returns, succeeds exactly when there is room for everything,
  and puts into the ring as much of the data as there is room for.
\<close>

theorem bio_write_all_exact:
  assumes "bio_reachable st" "connected st i j"
    and "BIO_ctrl_get_write_guarantee i st = (int g, st)"
  shows "\<exists>st'. BIO_write_all i data st = Some (length data \<le> g, st')
    \<and> in_flight st' i = in_flight st i @ take g data \<and> in_flight st' j = in_flight st j"
proof -
  note ok = bio_reachable_ok [OF assms(1)]
  have "g = room st i" using assms(3) write_guarantee_room [OF ok assms(2)] by simp
  then show ?thesis using BIO_write_all_room [OF ok assms(2), of data] by auto
qed

theorem bio_write_all_exact_witness:
  "\<exists>st'. BIO_write_all 0 [1, 2, 3, 4, 5] pair42 = Some (length [1, 2, 3, 4, 5 :: byte] \<le> 4, st')
    \<and> in_flight st' 0 = in_flight pair42 0 @ take 4 [1, 2, 3, 4, 5] \<and> in_flight st' 1 = in_flight pair42 1"
  by (rule bio_write_all_exact [OF pair42_reachable pair42_connected(1)])
     (simp add: pair42_eq BIO_ctrl_get_write_guarantee_def BIO_ctrl_def bio_ctrl_def paired_def ring_size_def)

lemma connected_size_pos:
  assumes "bios_ok st" "connected st i j"
  shows "0 < bp_size (pair_of st i)"
proof -
  obtain bi where "st i = Some bi" "ring_ok (bio_ptr bi)" using connectedE [OF assms] by metis
  then show ?thesis by (auto simp: ring_ok_def split: option.splits)
qed

text \<open>
  C28. A refused call can be retried with success after the other side has acted.  When a write is
  refused because the ring is full, a read by the peer makes room and the next write accepts at least
  a byte; when a read is refused because the ring is empty, its flags say to retry the read, the writer
  sees the request, and after a successful write the next read delivers what was written.
\<close>

theorem bio_pair_progress:
  assumes "bio_reachable st" "connected st i j" "\<not> bp_closed (pair_of st i)" "0 < n"
    and "0 < len" "nat len \<le> length data"
  shows "if in_flight st i \<noteq> [] then
      \<exists>m bytes st1 k st2. BIO_read j True n st = Some (m, bytes, st1) \<and> 0 < m
      \<and> BIO_write i (Some data) len st1 = Some (k, st2) \<and> 0 < k
    else \<exists>st1 k st2 st3. BIO_read j True n st = Some (- 1, [], st1)
      \<and> BIO_should_read j st1 = BIO_FLAGS_READ \<and> BIO_should_retry j st1 = BIO_FLAGS_SHOULD_RETRY
      \<and> BIO_ctrl_get_read_request i st1 = (int (min (nat n) (bp_size (pair_of st i))), st1)
      \<and> BIO_write i (Some data) len st1 = Some (k, st2) \<and> 0 < k
      \<and> BIO_read j True k st2 = Some (k, take (nat k) data, st3)"
proof -
  note ok = bio_reachable_ok [OF assms(1)] and ji = connected_sym [OF assms(2)]
  from BIO_read_connected [OF ok ji assms(4)] obtain ret st1 where
    r: "BIO_read j True n st = Some (ret, take (nat n) (in_flight st i), st1)"
      "ret = (if in_flight st i \<noteq> [] then min n (int (length (in_flight st i))) else - 1)"
      "in_flight st1 i = drop (nat n) (in_flight st i)" "bios_ok st1" "same_shape st st1"
      "bp_request (pair_of st1 i) = (if in_flight st i = [] then min (nat n) (bp_size (pair_of st i)) else 0)"
      "BIO_should_read j st1 = (if ret = - 1 then BIO_FLAGS_READ else 0)"
      "BIO_should_retry j st1 = (if ret = - 1 then BIO_FLAGS_SHOULD_RETRY else 0)"
    using assms(3) by auto
  have con: "connected st1 i j" using r(5) assms(2) by (simp add: same_shape_connected)
  note le = in_flight_le [OF ok assms(2)] connected_size_pos [OF ok assms(2)]
  have room: "0 < room st1 i"
    using r(3,5) assms(3,4) le by (auto simp: room_def same_shape_def)
  obtain k st2 where w: "BIO_write i (Some data) len st1 = Some (k, st2)" "k = min len (int (room st1 i))"
      "in_flight st2 i = in_flight st1 i @ take (min (nat len) (room st1 i)) data" "bios_ok st2" "same_shape st1 st2"
    using BIO_write_room [OF r(4) con assms(5,6)] room by auto
  have k: "0 < k" "nat k = min (nat len) (room st1 i)" using w(2) assms(5) room by (simp_all add: nat_min_int)
  have con2: "connected st2 j i" using con w(5) by (auto simp: same_shape_connected intro: connected_sym)
  show ?thesis
  proof (cases "in_flight st i = []")
    case False
    then show ?thesis using r(1,2) w(1) k(1) assms(4) by auto
  next
    case empty: True
    from BIO_read_connected [OF w(4) con2 k(1)] obtain ret3 st3 where
      "BIO_read j True k st2 = Some (ret3, take (nat k) (in_flight st2 i), st3)"
      "ret3 = (if in_flight st2 i \<noteq> [] then min k (int (length (in_flight st2 i)))
             else if bp_closed (pair_of st2 i) then 0 else - 1)" by blast
    moreover have "in_flight st2 i = take (nat k) data" using w(3) r(3) empty k(2) by simp
    moreover have "length (take (nat k) data) = nat k" using k(2) assms(6) by simp
    ultimately have "BIO_read j True k st2 = Some (k, take (nat k) data, st3)" using k(1) by auto
    moreover have "BIO_ctrl_get_read_request i st1 = (int (min (nat n) (bp_size (pair_of st i))), st1)"
      using r(6) empty con by (auto simp: BIO_ctrl_get_read_request_def BIO_ctrl_def bio_ctrl_def connected_def Let_def)
    ultimately show ?thesis using r(1,2,7,8) empty w(1) k(1) by auto
  qed
qed

theorem bio_pair_progress_witness:
  "\<exists>st1 k st2 st3. BIO_read 1 True 3 pair42 = Some (- 1, [], st1)
      \<and> BIO_should_read 1 st1 = BIO_FLAGS_READ \<and> BIO_should_retry 1 st1 = BIO_FLAGS_SHOULD_RETRY
      \<and> BIO_ctrl_get_read_request 0 st1 = (int (min (nat 3) (bp_size (pair_of pair42 0))), st1)
      \<and> BIO_write 0 (Some [5, 6]) 2 st1 = Some (k, st2) \<and> 0 < k
      \<and> BIO_read 1 True k st2 = Some (k, take (nat k) [5, 6], st3)"
proof -
  have "\<not> bp_closed (pair_of pair42 0)" "in_flight pair42 0 = []"
    by (simp_all add: pair42_eq paired_def in_flight_def ring_contents_def)
  then show ?thesis
    using bio_pair_progress [OF pair42_reachable pair42_connected(1), of 3 2 "[5, 6]"] by simp
qed

text \<open>
  The end of a stream.  After \<^verbatim>\<open>BIO_shutdown_wr\<close> a write at that end fails with -1 and is not to be
  retried, the peer still reads what is in flight, and once the ring is empty its reads report the end
  with 0, never a retry.
\<close>

theorem bio_shutdown_drains:
  assumes "bio_reachable st" "connected st i j" "BIO_shutdown_wr i st = (r, st0)"
    and "0 < len" "nat len \<le> length data" "0 < n"
  shows "\<exists>st1 m st2. BIO_write i (Some data) len st0 = Some (- 1, st1) \<and> BIO_should_retry i st1 = 0
    \<and> in_flight st1 i = in_flight st i
    \<and> BIO_read j True n st1 = Some (m, take (nat n) (in_flight st i), st2) \<and> m = int (length (take (nat n) (in_flight st i)))
    \<and> BIO_should_retry j st2 = 0 \<and> in_flight st2 i = drop (nat n) (in_flight st i)"
proof -
  note ok = bio_reachable_ok [OF assms(1)]
  obtain bi where b: "st i = Some bi" using assms(2) by (auto simp: connected_def)
  have st0: "st0 = snd (BIO_ctrl i SHUTDOWN_WR st)" using assms(3) by (simp add: BIO_shutdown_wr_def)
  have 0: "bios_ok st0" "connected st0 i j" "in_flight st0 i = in_flight st i"
    using bios_ok_ctrl [OF ok b] connected_ctrl [of st i] in_flight_ctrl [of st i] assms(2) b by (simp_all add: st0)
  have cl: "bp_closed (pair_of st0 i)"
    using b by (simp add: st0 BIO_ctrl_def bio_ctrl_def set_pair_def set_bio_def Let_def)
  from BIO_write_connected [OF 0(1,2) assms(4,5)] cl obtain st1 where
    w: "BIO_write i (Some data) len st0 = Some (- 1, st1)" "in_flight st1 i = in_flight st0 i"
      "bios_ok st1" "same_shape st0 st1" "BIO_should_retry i st1 = 0" by auto
  have con: "connected st1 j i" using 0(2) w(4) by (auto simp: same_shape_connected intro: connected_sym)
  have cl1: "bp_closed (pair_of st1 i)" using cl w(4) by (simp add: same_shape_def)
  from BIO_read_connected [OF w(3) con assms(6)] cl1 obtain m st2 where
    "BIO_read j True n st1 = Some (m, take (nat n) (in_flight st1 i), st2)"
    "m = (if in_flight st1 i \<noteq> [] then min n (int (length (in_flight st1 i))) else 0)"
    "in_flight st2 i = drop (nat n) (in_flight st1 i)" "BIO_should_retry j st2 = (if m = - 1 then BIO_FLAGS_SHOULD_RETRY else 0)"
    by auto
  moreover from this have "m = int (length (take (nat n) (in_flight st1 i)))"
    using assms(6) by (auto simp: of_nat_min min.commute)
  ultimately show ?thesis using w(1,2,5) 0(3) by auto
qed

theorem bio_shutdown_drains_witness:
  "\<exists>st0. BIO_shutdown_wr 0 pair42 = (1, st0) \<and> (\<exists>st1 m st2. BIO_write 0 (Some [1]) 1 st0 = Some (- 1, st1) \<and> BIO_should_retry 0 st1 = 0
    \<and> in_flight st1 0 = in_flight pair42 0
    \<and> BIO_read 1 True 8 st1 = Some (m, take (nat 8) (in_flight pair42 0), st2) \<and> m = int (length (take (nat 8) (in_flight pair42 0)))
    \<and> BIO_should_retry 1 st2 = 0 \<and> in_flight st2 0 = drop (nat 8) (in_flight pair42 0))"
proof -
  obtain st0 where s: "BIO_shutdown_wr 0 pair42 = (1, st0)"
    by (simp add: BIO_shutdown_wr_def BIO_ctrl_def bio_ctrl_def pair42_eq)
  show ?thesis
    using bio_shutdown_drains [OF pair42_reachable pair42_connected(1) s, of 1 "[1]" 8] s by simp
qed

text \<open>
  C30. Releasing one end is safe for the other: no BIO of the store keeps a reference to it, and the
  former peer refuses reads and writes with -2 and keeps nothing to read.
\<close>

theorem bio_free_no_dangling:
  assumes "bio_reachable st" "connected st i j"
  shows "BIO_free i st i = None \<and> (\<forall>k. bp_peer (pair_of (BIO_free i st) k) = Some i \<longrightarrow> BIO_free i st k = None)
    \<and> BIO_read j nonnull len (BIO_free i st) = Some (- 2, [], BIO_free i st)
    \<and> BIO_write j buf len (BIO_free i st) = Some (- 2, BIO_free i st)
    \<and> in_flight (BIO_free i st) j = []"
proof -
  note ok = bio_reachable_ok [OF assms(1)]
  obtain bi bj where b: "st i = Some bi" "st j = Some bj" "i \<noteq> j" "bp_peer (bio_ptr bi) = Some j"
    using connectedE [OF ok assms(2)] by metis
  have f: "BIO_free i st = st(i := None, j \<mapsto> unlinked bj)" using BIO_free_connected [OF ok assms(2)] b(2) by simp
  have ok': "bios_ok (BIO_free i st)" using bios_ok_free [OF ok b(1)] .
  have gone: "BIO_free i st i = None" using b(3) by (simp add: f)
  have "BIO_free i st k = None" if k: "bp_peer (pair_of (BIO_free i st) k) = Some i" for k
  proof (rule ccontr)
    assume "BIO_free i st k \<noteq> None"
    then obtain c where c: "BIO_free i st k = Some c" by blast
    then show False using bios_okD [OF ok' c] k gone by (simp add: bio_ok_def Let_def)
  qed
  then show ?thesis
    using b(3) by (auto simp: f BIO_read_def BIO_write_def unlinked_def in_flight_def ring_contents_def)
qed

theorem bio_free_no_dangling_witness:
  "BIO_free 0 pair42 0 = None \<and> BIO_write 1 (Some [1]) 1 (BIO_free 0 pair42) = Some (- 2, BIO_free 0 pair42)"
  using bio_free_no_dangling [OF pair42_reachable pair42_connected(1), of True 1 "Some [1]"] by blast

end
