(* ===== verification/CString.thy ===== *)
theory CString
  imports Cbs
begin

text \<open>
  The string helpers of \<^verbatim>\<open>crypto/mem.c\<close>.  A C string in a buffer is the bytes up to the first NUL; a buffer
  is read through \<open>at\<close>, which sees a NUL behind its end, so that every loop that stops at a NUL stops
  inside the buffer or there.  \<^verbatim>\<open>char\<close> is signed on the targets of the app.
\<close>

section \<open>Strings\<close>

definition at :: "byte list \<Rightarrow> nat \<Rightarrow> byte" where
  "at buf p = (if p < length buf then buf ! p else 0)"

definition cstr :: "byte list \<Rightarrow> nat \<Rightarrow> byte list" where
  "cstr buf p = takeWhile (\<lambda>c. c \<noteq> 0) (drop p buf)"

text \<open>\<^verbatim>\<open>strcmp\<close>, of which the code uses the sign only.\<close>

fun strcmp :: "byte list \<Rightarrow> byte list \<Rightarrow> int" where
  "strcmp [] [] = 0"
| "strcmp [] (_ # _) = -1"
| "strcmp (_ # _) [] = 1"
| "strcmp (a # as) (b # bs) = (if a = b then strcmp as bs else if a < b then -1 else 1)"

definition OPENSSL_hash32 :: "byte list \<Rightarrow> u32" where
  "OPENSSL_hash32 data = foldl (\<lambda>h b. (h XOR ucast b) * 16777619) 2166136261 data"

definition OPENSSL_strhash :: "byte list \<Rightarrow> u32" where
  "OPENSSL_strhash s = OPENSSL_hash32 s"

definition OPENSSL_memdup :: "allocator \<Rightarrow> byte list \<Rightarrow> byte list option" where
  "OPENSSL_memdup al data = (if length data = 0 then None else if \<not> al (length data) then None else Some data)"

text \<open>\<^verbatim>\<open>OPENSSL_strdup\<close> of a string that is not null; the copy is the string again.\<close>

definition OPENSSL_strdup :: "allocator \<Rightarrow> byte list \<Rightarrow> byte list option" where
  "OPENSSL_strdup al s = map_option butlast (OPENSSL_memdup al (s @ [0]))"

section \<open>Characters\<close>

definition OPENSSL_isalpha :: "int \<Rightarrow> bool" where
  "OPENSSL_isalpha c \<longleftrightarrow> c \<ge> 97 \<and> c \<le> 122 \<or> c \<ge> 65 \<and> c \<le> 90"

definition OPENSSL_isxdigit :: "int \<Rightarrow> bool" where
  "OPENSSL_isxdigit c \<longleftrightarrow> (c \<ge> 48 \<and> c \<le> 57) \<or> c \<ge> 97 \<and> c \<le> 102 \<or> c \<ge> 65 \<and> c \<le> 70"

definition OPENSSL_fromxdigit :: "int \<Rightarrow> byte option" where
  "OPENSSL_fromxdigit c =
     (if c \<ge> 48 \<and> c \<le> 57 then Some (word_of_int (c - 48))
      else if 97 \<le> c \<and> c \<le> 102 then Some (word_of_int (c - 97 + 10))
      else if 65 \<le> c \<and> c \<le> 70 then Some (word_of_int (c - 65 + 10))
      else None)"

definition OPENSSL_isalnum :: "int \<Rightarrow> bool" where
  "OPENSSL_isalnum c \<longleftrightarrow> OPENSSL_isalpha c \<or> (c \<ge> 48 \<and> c \<le> 57)"

definition OPENSSL_tolower :: "int \<Rightarrow> int" where
  "OPENSSL_tolower c = (if c \<ge> 65 \<and> c \<le> 90 then c + (97 - 65) else c)"

definition OPENSSL_isspace :: "int \<Rightarrow> bool" where
  "OPENSSL_isspace c \<longleftrightarrow> c = 9 \<or> c = 10 \<or> c = 11 \<or> c = 12 \<or> c = 13 \<or> c = 32"

section \<open>Comparison without case\<close>

function strcasecmp_loop :: "byte list \<Rightarrow> byte list \<Rightarrow> nat \<Rightarrow> int" where
  "strcasecmp_loop a b i =
     (let aa = OPENSSL_tolower (sint (at a i)); bb = OPENSSL_tolower (sint (at b i))
      in if aa < bb then -1 else if aa > bb then 1 else if aa = 0 then 0 else strcasecmp_loop a b (i + 1))"
  by pat_completeness auto
termination
  by (relation "measure (\<lambda>(a, b, i). length a - i)") (auto simp: at_def OPENSSL_tolower_def split: if_splits)

declare strcasecmp_loop.simps [simp del]

definition OPENSSL_strcasecmp :: "byte list \<Rightarrow> byte list \<Rightarrow> int" where
  "OPENSSL_strcasecmp a b = strcasecmp_loop a b 0"

function strncasecmp_loop :: "byte list \<Rightarrow> byte list \<Rightarrow> nat \<Rightarrow> nat \<Rightarrow> int" where
  "strncasecmp_loop a b n i =
     (if i < n then
        (let aa = OPENSSL_tolower (sint (at a i)); bb = OPENSSL_tolower (sint (at b i))
         in if aa < bb then -1 else if aa > bb then 1 else if aa = 0 then 0 else strncasecmp_loop a b n (i + 1))
      else 0)"
  by pat_completeness auto
termination
  by (relation "measure (\<lambda>(a, b, n, i). n - i)") auto

declare strncasecmp_loop.simps [simp del]

definition OPENSSL_strncasecmp :: "byte list \<Rightarrow> byte list \<Rightarrow> nat \<Rightarrow> int" where
  "OPENSSL_strncasecmp a b n = strncasecmp_loop a b n 0"

section \<open>Bounded copies\<close>

text \<open>
  The copy into the buffer \<open>buf\<close> from the position \<open>d\<close> on, with \<open>dst_size\<close> bytes left, of what is at the
  position \<open>p\<close> of \<open>src\<close>.  The results: the buffer and the length the string would have.
\<close>

fun strlcpy_loop :: "byte list \<Rightarrow> nat \<Rightarrow> byte list \<Rightarrow> nat \<Rightarrow> nat \<Rightarrow> nat \<Rightarrow> byte list \<times> nat \<times> nat \<times> nat \<times> nat" where
  "strlcpy_loop buf d src p dst_size l =
     (if dst_size > 1 \<and> at src p \<noteq> 0 then strlcpy_loop (buf[d := at src p]) (d + 1) src (p + 1) (dst_size - 1) (l + 1)
      else (buf, d, p, dst_size, l))"

declare strlcpy_loop.simps [simp del]

definition strlcpy_at :: "byte list \<Rightarrow> nat \<Rightarrow> byte list \<Rightarrow> nat \<Rightarrow> byte list \<times> nat" where
  "strlcpy_at buf d src dst_size = (case strlcpy_loop buf d src 0 dst_size 0 of
     (buf1, d1, p1, n1, l) \<Rightarrow> (if n1 \<noteq> 0 then buf1[d1 := 0] else buf1, l + length (cstr src p1)))"

definition OPENSSL_strlcpy :: "byte list \<Rightarrow> byte list \<Rightarrow> nat \<Rightarrow> byte list \<times> nat" where
  "OPENSSL_strlcpy dst src dst_size = strlcpy_at dst 0 src dst_size"

fun strlcat_loop :: "byte list \<Rightarrow> nat \<Rightarrow> nat \<Rightarrow> nat \<Rightarrow> nat \<times> nat \<times> nat" where
  "strlcat_loop dst d dst_size l =
     (if dst_size > 0 \<and> at dst d \<noteq> 0 then strlcat_loop dst (d + 1) (dst_size - 1) (l + 1) else (d, dst_size, l))"

declare strlcat_loop.simps [simp del]

definition OPENSSL_strlcat :: "byte list \<Rightarrow> byte list \<Rightarrow> nat \<Rightarrow> byte list \<times> nat" where
  "OPENSSL_strlcat dst src dst_size = (case strlcat_loop dst 0 dst_size 0 of
     (d, n, l) \<Rightarrow> (case strlcpy_at dst d src n of (buf, k) \<Rightarrow> (buf, l + k)))"

section \<open>Facts\<close>

lemma strcmp_eq_0: "strcmp a b = 0 \<longleftrightarrow> a = b"
  by (induction a b rule: strcmp.induct) auto

lemma at_cstr: "at buf p \<noteq> 0 \<Longrightarrow> cstr buf p = at buf p # cstr buf (Suc p)"
  by (simp add: at_def cstr_def Cons_nth_drop_Suc [symmetric] split: if_splits)

lemma at_0_cstr: "at buf p = 0 \<Longrightarrow> cstr buf p = []"
  by (auto simp: at_def cstr_def Cons_nth_drop_Suc [symmetric] not_less split: if_splits)

lemma cstr_empty: "cstr buf p = [] \<longleftrightarrow> at buf p = 0"
  using at_cstr at_0_cstr by (metis list.distinct(1))

lemma tolower_0: "OPENSSL_tolower (sint c) = 0 \<longleftrightarrow> c = (0 :: byte)"
  by (auto simp: OPENSSL_tolower_def signed_eq_0_iff)

abbreviation lower :: "byte list \<Rightarrow> int list" where
  "lower \<equiv> map (\<lambda>c. OPENSSL_tolower (sint c))"

lemma strcasecmp_loop_0: "strcasecmp_loop a b i = 0 \<longleftrightarrow> lower (cstr a i) = lower (cstr b i)"
proof (induction a b i rule: strcasecmp_loop.induct)
  case (1 a b i)
  let ?a = "OPENSSL_tolower (sint (at a i))" and ?b = "OPENSSL_tolower (sint (at b i))"
  show ?case
  proof (cases "?a = ?b \<and> ?a \<noteq> 0")
    case True
    then have "at a i \<noteq> 0" "at b i \<noteq> 0" using tolower_0 by metis+
    then show ?thesis using 1 True by (subst strcasecmp_loop.simps) (simp add: at_cstr)
  next
    case False
    then show ?thesis using at_cstr [of a i] at_cstr [of b i] at_0_cstr [of a i] at_0_cstr [of b i] tolower_0 [of "at a i"] tolower_0 [of "at b i"]
      by (subst strcasecmp_loop.simps) (cases "at a i = 0"; cases "at b i = 0"; auto simp: Let_def)
  qed
qed

lemma strncasecmp_loop_0:
  "i \<le> n \<Longrightarrow> strncasecmp_loop a b n i = 0 \<longleftrightarrow> lower (take (n - i) (cstr a i)) = lower (take (n - i) (cstr b i))"
proof (induction a b n i rule: strncasecmp_loop.induct)
  case (1 a b n i)
  let ?a = "OPENSSL_tolower (sint (at a i))" and ?b = "OPENSSL_tolower (sint (at b i))"
  show ?case
  proof (cases "i < n")
    case lt: True
    then have t: "take (n - i) (x # xs) = x # take (n - Suc i) xs" for x and xs :: "byte list" by (simp add: Suc_diff_Suc take_Suc_conv_app_nth flip: take_Suc_Cons)
    show ?thesis
    proof (cases "?a = ?b \<and> ?a \<noteq> 0")
      case True
      then have "at a i \<noteq> 0" "at b i \<noteq> 0" using tolower_0 by metis+
      then show ?thesis using 1 True lt by (subst strncasecmp_loop.simps) (simp add: at_cstr t)
    next
      case False
      then show ?thesis
        using at_cstr [of a i] at_cstr [of b i] at_0_cstr [of a i] at_0_cstr [of b i] tolower_0 [of "at a i"] tolower_0 [of "at b i"] lt
        by (subst strncasecmp_loop.simps) (cases "at a i = 0"; cases "at b i = 0"; auto simp: Let_def t)
    qed
  next
    case False
    then show ?thesis using 1(2) by (subst strncasecmp_loop.simps) simp
  qed
qed

text \<open>The copy stops at the end of the string or one byte before the end of the room, and is terminated.\<close>

lemma strlcpy_loop_eq:
  assumes "d + n \<le> length buf" "k = min (n - 1) (length (cstr src p))"
  shows "strlcpy_loop buf d src p n l = (take d buf @ take k (cstr src p) @ drop (d + k) buf, d + k, p + k, n - k, l + k)"
  using assms
proof (induction buf d src p n l arbitrary: k rule: strlcpy_loop.induct)
  case (1 buf d src p n l)
  show ?case
  proof (cases "n > 1 \<and> at src p \<noteq> 0")
    case True
    define j where "j = min (n - 2) (length (cstr src (Suc p)))"
    have k: "k = Suc j" using True 1(3) at_cstr [of src p] by (auto simp: j_def)
    have IH: "strlcpy_loop (buf[d := at src p]) (d + 1) src (p + 1) (n - 1) (l + 1) =
        (take (d + 1) (buf[d := at src p]) @ take j (cstr src (p + 1)) @ drop (d + 1 + j) (buf[d := at src p]), d + 1 + j, p + 1 + j, n - 1 - j, l + 1 + j)"
      by (rule 1(1) [OF True]) (use True 1(2) in \<open>auto simp: j_def\<close>)
    have d: "d < length buf" using True 1(2) by simp
    have "take (Suc d) (buf[d := at src p]) = take d buf @ [at src p]" using d by (simp add: take_Suc_conv_app_nth)
    then show ?thesis using IH True k d at_cstr [of src p] by (subst strlcpy_loop.simps) simp
  next
    case False
    then have "k = 0" using 1(3) at_0_cstr [of src p] by auto
    then show ?thesis using False by (subst strlcpy_loop.simps) auto
  qed
qed

lemma cstr_drop: "k \<le> length (cstr src p) \<Longrightarrow> cstr src (p + k) = drop k (cstr src p)"
proof (induction k arbitrary: p)
  case (Suc k)
  then have "at src p \<noteq> 0" using at_0_cstr [of src p] by fastforce
  then show ?case using Suc at_cstr [of src p] by (simp flip: add_Suc)
qed simp

lemma strlcpy_at_eq:
  assumes "d + n \<le> length buf"
  shows "strlcpy_at buf d src n = (if n = 0 then buf else take d buf @ take (n - 1) (cstr src 0) @ 0 # drop (d + min n (Suc (length (cstr src 0)))) buf,
    length (cstr src 0))"
proof -
  define k where "k = min (n - 1) (length (cstr src 0))"
  have t: "take k (cstr src 0) = take (n - 1) (cstr src 0)" by (auto simp: k_def min_def)
  have len: "k + length (cstr src k) = length (cstr src 0)" using cstr_drop [of k src 0] by (simp add: k_def)
  have "(take d buf @ take (n - 1) (cstr src 0) @ drop (d + k) buf)[d + k := 0] =
      take d buf @ take (n - 1) (cstr src 0) @ 0 # drop (d + Suc k) buf" if "n \<noteq> 0"
  proof -
    have "length (take d buf) = d" "length (take (n - 1) (cstr src 0)) = k" "d + k < length buf" using that assms by (auto simp: k_def)
    then show ?thesis by (simp add: list_update_append Cons_nth_drop_Suc [symmetric])
  qed
  moreover have "n \<noteq> 0 \<Longrightarrow> min n (Suc (length (cstr src 0))) = Suc k" by (auto simp: k_def)
  ultimately show ?thesis
    using strlcpy_loop_eq [OF assms k_def, of 0] len unfolding t by (auto simp: strlcpy_at_def k_def)
qed

lemma strlcat_loop_eq:
  "strlcat_loop dst d n l = (d + min n (length (cstr dst d)), n - min n (length (cstr dst d)), l + min n (length (cstr dst d)))"
proof (induction dst d n l rule: strlcat_loop.induct)
  case (1 dst d n l)
  show ?case
  proof (cases "n > 0 \<and> at dst d \<noteq> 0")
    case True
    then show ?thesis using 1 at_cstr [of dst d] by (subst strlcat_loop.simps) (auto simp: min_def)
  next
    case False
    then show ?thesis using at_0_cstr [of dst d] by (subst strlcat_loop.simps) auto
  qed
qed

section \<open>Properties\<close>

text \<open>
  The bounded copies of \<^verbatim>\<open>OPENSSL_strlcpy\<close> and \<^verbatim>\<open>OPENSSL_strlcat\<close>, with room for \<open>n\<close> bytes, write nothing
  behind them and leave the length of the buffer: a copy, or the old string with the new one appended, is cut
  to \<open>n - 1\<close> bytes and terminated (a string that fills the room is left alone), and the result is the length the uncut string would have.
\<close>

theorem bounded_string_copies:
  assumes "n \<le> length dst"
  shows "OPENSSL_strlcpy dst src n =
      (if n = 0 then dst else take (n - 1) (cstr src 0) @ 0 # drop (min n (Suc (length (cstr src 0)))) dst, length (cstr src 0)) \<and>
    OPENSSL_strlcat dst src n =
      (if length (cstr dst 0) < n
       then (take (n - 1) (cstr dst 0 @ cstr src 0) @ 0 # drop (min n (Suc (length (cstr dst 0 @ cstr src 0)))) dst, length (cstr dst 0 @ cstr src 0))
       else (dst, n + length (cstr src 0)))"
proof -
  define old where "old = cstr dst 0"
  define new where "new = cstr src 0"
  have pre: "take (length old) dst = old" unfolding old_def cstr_def drop_0 by (metis append_eq_conv_conj takeWhile_dropWhile_id)
  have cat: "OPENSSL_strlcat dst src n = (case strlcpy_at dst (min n (length old)) src (n - min n (length old)) of (buf, k) \<Rightarrow> (buf, min n (length old) + k))"
    by (simp add: OPENSSL_strlcat_def strlcat_loop_eq old_def)
  have "OPENSSL_strlcat dst src n =
      (if length old < n then (take (n - 1) (old @ new) @ 0 # drop (min n (Suc (length (old @ new)))) dst, length (old @ new))
       else (dst, n + length new))"
  proof (cases "length old < n")
    case True
    have m: "min n (length old) = length old" using True by simp
    have "take (n - 1) (old @ new) = old @ take (n - length old - 1) new" using True by simp
    moreover have "length old + min (n - length old) (Suc (length new)) = min n (Suc (length (old @ new)))" using True by simp
    moreover have "n - length old \<noteq> 0" using True by simp
    ultimately have "strlcpy_at dst (length old) src (n - length old) =
        (take (n - 1) (old @ new) @ 0 # drop (min n (Suc (length (old @ new)))) dst, length new)"
      using strlcpy_at_eq [of "length old" "n - length old" dst src] assms True unfolding new_def [symmetric] pre by simp
    then show ?thesis using True unfolding cat m by simp
  next
    case False
    then show ?thesis using strlcpy_at_eq [of n 0 dst src] assms unfolding cat new_def by simp
  qed
  then show ?thesis using strlcpy_at_eq [of 0 n dst src] assms unfolding old_def new_def by (simp add: OPENSSL_strlcpy_def)
qed

theorem bounded_string_copies_witness:
  "OPENSSL_strlcpy [9, 9, 9, 9] [1, 2, 3, 4, 5, 0] 3 = ([1, 2, 0, 9], 5)"
  using bounded_string_copies [of 3 "[9, 9, 9, 9]" "[1, 2, 3, 4, 5, 0]"] by (simp add: cstr_def)

text \<open>
  Comparison without case: \<^verbatim>\<open>OPENSSL_strcasecmp\<close> is 0 exactly for strings that agree up to the case of ASCII
  letters, and \<^verbatim>\<open>OPENSSL_strncasecmp\<close> for strings whose first \<open>n\<close> characters do.
\<close>

theorem strcasecmp_exact:
  "(OPENSSL_strcasecmp a b = 0 \<longleftrightarrow> lower (cstr a 0) = lower (cstr b 0)) \<and>
   (OPENSSL_strncasecmp a b n = 0 \<longleftrightarrow> lower (take n (cstr a 0)) = lower (take n (cstr b 0)))"
  using strcasecmp_loop_0 [of a b 0] strncasecmp_loop_0 [of 0 n a b]
  by (simp add: OPENSSL_strcasecmp_def OPENSSL_strncasecmp_def)

end
