(* ===== verification/MemBio.thy ===== *)
theory MemBio
  imports CString BioPairProps
begin

text \<open>
  The growing byte buffer (\<^verbatim>\<open>crypto/buf/buf.c\<close>) and the memory BIO on top of it (\<^verbatim>\<open>crypto/bio/bio_mem.c\<close>): a
  queue of bytes that is written at its end and read, in blocks or by lines, from its front.  A read-only
  memory BIO is a window on bytes of the caller that moves on with every read.
\<close>

section \<open>Buffers\<close>

text \<open>
  \<^verbatim>\<open>data\<close> is the list of the \<^verbatim>\<open>max\<close> bytes allocated; the bytes that \<^verbatim>\<open>realloc\<close> adds are 0 in the model (C leaves
  them undefined, and they are written before they are read).
\<close>

record buf_mem =
  bm_length :: nat
  bm_data :: "byte list"
  bm_max :: nat

definition BUF_MEM_SIZE :: nat where "BUF_MEM_SIZE = 24"

definition BUF_MEM_new :: "allocator \<Rightarrow> buf_mem option" where
  "BUF_MEM_new al = (if al BUF_MEM_SIZE then Some \<lparr>bm_length = 0, bm_data = [], bm_max = 0\<rparr> else None)"

definition BUF_MEM_reserve :: "allocator \<Rightarrow> nat \<Rightarrow> buf_mem \<Rightarrow> bool \<times> buf_mem" where
  "BUF_MEM_reserve al cap buf =
     (if bm_max buf \<ge> cap then (True, buf)
      else let n = size_add cap 3
        in if n < cap then (False, buf)
           else let n = n div 3; alloc_size = n * 4 mod SIZE_MOD
             in if alloc_size div 4 \<noteq> n then (False, buf)
                else if \<not> al alloc_size then (False, buf)
                else (True, buf\<lparr>bm_data := bm_data buf @ replicate (alloc_size - bm_max buf) 0, bm_max := alloc_size\<rparr>))"

text \<open>Bytes written into a buffer from a position on.\<close>

definition put_bytes :: "nat \<Rightarrow> byte list \<Rightarrow> byte list \<Rightarrow> byte list" where
  "put_bytes p bs xs = take p xs @ bs @ drop (p + length bs) xs"

definition BUF_MEM_grow :: "allocator \<Rightarrow> nat \<Rightarrow> buf_mem \<Rightarrow> nat \<times> buf_mem" where
  "BUF_MEM_grow al len buf = (case BUF_MEM_reserve al len buf of
     (False, b) \<Rightarrow> (0, b)
   | (True, b) \<Rightarrow>
       let b = (if bm_length b < len then b\<lparr>bm_data := put_bytes (bm_length b) (replicate (len - bm_length b) 0) (bm_data b)\<rparr> else b)
       in (len, b\<lparr>bm_length := len\<rparr>))"

definition BUF_MEM_grow_clean :: "allocator \<Rightarrow> nat \<Rightarrow> buf_mem \<Rightarrow> nat \<times> buf_mem" where
  "BUF_MEM_grow_clean al len buf = BUF_MEM_grow al len buf"

definition BUF_MEM_append :: "allocator \<Rightarrow> byte list \<Rightarrow> buf_mem \<Rightarrow> bool \<times> buf_mem" where
  "BUF_MEM_append al inp buf =
     (let len = length inp
      in if len = 0 then (True, buf)
         else let new_len = size_add (bm_length buf) len
           in if new_len < len then (False, buf)
              else (case BUF_MEM_reserve al new_len buf of
                  (False, b) \<Rightarrow> (False, b)
                | (True, b) \<Rightarrow> (True, b\<lparr>bm_data := put_bytes (bm_length b) inp (bm_data b), bm_length := new_len\<rparr>)))"

definition buf_ok :: "buf_mem \<Rightarrow> bool" where
  "buf_ok b \<longleftrightarrow> length (bm_data b) = bm_max b \<and> bm_length b \<le> bm_max b \<and> bm_max b < SIZE_MOD"

definition buf_bytes :: "buf_mem \<Rightarrow> byte list" where
  "buf_bytes b = take (bm_length b) (bm_data b)"

lemma buf_new: "BUF_MEM_new al = Some b \<Longrightarrow> buf_ok b \<and> buf_bytes b = []"
  by (auto simp: BUF_MEM_new_def buf_ok_def buf_bytes_def SIZE_MOD_def split: if_splits)

text \<open>A third more than asked for, and enough in every case.\<close>

lemma reserve_ok:
  assumes "buf_ok b" "BUF_MEM_reserve al cap b = (ok, b')"
  shows "buf_ok b' \<and> buf_bytes b' = buf_bytes b \<and> bm_length b' = bm_length b \<and> (ok \<longrightarrow> cap \<le> bm_max b') \<and> bm_max b \<le> bm_max b'"
proof (cases "bm_max b \<ge> cap \<or> \<not> ok")
  case True
  then show ?thesis using assms by (auto simp: BUF_MEM_reserve_def Let_def split: if_splits)
next
  case False
  let ?n = "size_add cap 3 div 3"
  have r: "\<not> size_add cap 3 < cap" "?n * 4 mod SIZE_MOD div 4 = ?n" "b' = b\<lparr>bm_data := bm_data b @ replicate (?n * 4 mod SIZE_MOD - bm_max b) 0, bm_max := ?n * 4 mod SIZE_MOD\<rparr>"
    using assms(2) False by (auto simp: BUF_MEM_reserve_def Let_def split: if_splits)
  have "cap + 3 < SIZE_MOD \<or> cap \<ge> SIZE_MOD"
    using r(1) by (cases "cap < SIZE_MOD") (auto simp: size_add_def SIZE_MOD_def mod_if split: if_splits)
  moreover have "size_add cap 3 < SIZE_MOD" by (simp add: size_add_def SIZE_MOD_def)
  ultimately have s: "size_add cap 3 = cap + 3" using r(1) by (auto simp: size_add_def)
  have "?n * 4 mod SIZE_MOD div 4 * 4 \<le> ?n * 4 mod SIZE_MOD" by simp
  then have "?n * 4 \<le> ?n * 4 mod SIZE_MOD" using r(2) by simp
  then have n: "?n * 4 mod SIZE_MOD = ?n * 4" by (metis mod_less_eq_dividend le_antisym)
  moreover have "?n * 4 mod SIZE_MOD < SIZE_MOD" by (simp add: SIZE_MOD_def)
  ultimately have "cap \<le> ?n * 4" "?n * 4 < SIZE_MOD" using s by simp_all
  then show ?thesis using r(3) assms(1) False unfolding n by (simp add: buf_ok_def buf_bytes_def)
qed

lemma append_ok:
  assumes "buf_ok b" "BUF_MEM_append al bs b = (ok, b')" "length bs < SIZE_MOD"
  shows "buf_ok b' \<and> buf_bytes b' = buf_bytes b @ (if ok then bs else [])"
proof (cases "bs = []")
  case True
  then show ?thesis using assms by (simp add: BUF_MEM_append_def)
next
  case False
  let ?n = "size_add (bm_length b) (length bs)"
  show ?thesis
  proof (cases "?n < length bs")
    case True
    then show ?thesis using assms False by (simp add: BUF_MEM_append_def Let_def)
  next
    case ge: False
    have "bm_length b < SIZE_MOD" using assms(1) by (simp add: buf_ok_def)
    then have n: "?n = bm_length b + length bs"
      using ge assms(3) size_add_wraps [of "length bs" "bm_length b"] size_add_small by (simp add: size_add_def add.commute)
    obtain ok1 b1 where r: "BUF_MEM_reserve al ?n b = (ok1, b1)" by fastforce
    note k = reserve_ok [OF assms(1) r]
    show ?thesis
    proof (cases ok1)
      case True
      have len: "bm_length b1 + length bs \<le> length (bm_data b1)" using k True n by (simp add: buf_ok_def)
      have "take (bm_length b1 + length bs) (put_bytes (bm_length b1) bs (bm_data b1)) = take (bm_length b1) (bm_data b1) @ bs"
        "length (put_bytes (bm_length b1) bs (bm_data b1)) = length (bm_data b1)"
        using len by (simp_all add: put_bytes_def min_absorb2)
      then show ?thesis using assms(2) r True False ge k n by (auto simp: BUF_MEM_append_def Let_def buf_ok_def buf_bytes_def)
    next
      case False': False
      then show ?thesis using assms(2) r False ge k by (auto simp: BUF_MEM_append_def Let_def)
    qed
  qed
qed

section \<open>The memory BIO\<close>

text \<open>
  The fields that \<^verbatim>\<open>bio_mem.c\<close> uses.  \<open>mb_pos\<close> is how far the data pointer of a read-only BIO has moved
  into the bytes it was made from; it is 0 for any other.
\<close>

record mem_bio =
  mb_init :: bool
  mb_shutdown :: int
  mb_flags :: u32
  mb_retry_reason :: int
  mb_num :: int
  mb_buf :: buf_mem
  mb_pos :: nat
  mb_num_read :: u64
  mb_num_write :: u64

definition BIO_FLAGS_MEM_RDONLY :: u32 where "BIO_FLAGS_MEM_RDONLY = 0x200"

abbreviation rdonly :: "mem_bio \<Rightarrow> bool" where
  "rdonly bio \<equiv> mb_flags bio AND BIO_FLAGS_MEM_RDONLY \<noteq> 0"

definition mem_new :: "allocator \<Rightarrow> mem_bio option" where
  "mem_new al = (case BUF_MEM_new al of
     None \<Rightarrow> None
   | Some b \<Rightarrow> Some \<lparr>mb_init = True, mb_shutdown = 1, mb_flags = 0, mb_retry_reason = 0, mb_num = -1, mb_buf = b, mb_pos = 0,
       mb_num_read = 0, mb_num_write = 0\<rparr>)"

definition BIO_new_mem :: "allocator \<Rightarrow> mem_bio option" where
  "BIO_new_mem al = (if \<not> al BIO_SIZE then None else mem_new al)"

text \<open>\<open>buf\<close> is the memory behind the pointer, \<open>None\<close> for a null one; a negative length asks for \<^verbatim>\<open>strlen\<close>.\<close>

definition BIO_new_mem_buf :: "allocator \<Rightarrow> byte list option \<Rightarrow> int \<Rightarrow> mem_bio option" where
  "BIO_new_mem_buf al buf len =
     (let sz = (if len < 0 then length (cstr (the buf) 0) else nat len)
      in if buf = None \<and> len \<noteq> 0 then None
         else (case BIO_new_mem al of
             None \<Rightarrow> None
           | Some bio \<Rightarrow> Some (bio\<lparr>mb_buf := \<lparr>bm_length = sz, bm_data = (case buf of None \<Rightarrow> [] | Some d \<Rightarrow> take sz d), bm_max = sz\<rparr>,
               mb_flags := mb_flags bio OR BIO_FLAGS_MEM_RDONLY, mb_num := 0\<rparr>)))"

definition mem_clear_retry :: "mem_bio \<Rightarrow> mem_bio" where
  "mem_clear_retry bio = bio\<lparr>mb_flags := mb_flags bio AND NOT kRetryFlags, mb_retry_reason := 0\<rparr>"

text \<open>What the data pointer points to.\<close>

definition mem_data :: "mem_bio \<Rightarrow> byte list" where
  "mem_data bio = drop (mb_pos bio) (bm_data (mb_buf bio))"

definition mem_read :: "int \<Rightarrow> mem_bio \<Rightarrow> int \<times> byte list \<times> mem_bio" where
  "mem_read outl bio0 =
     (let bio = mem_clear_retry bio0
      in if outl \<le> 0 then (0, [], bio)
         else let b = mb_buf bio; ret = (if nat outl > bm_length b then int (bm_length b) else outl)
           in if ret > 0 then
                let k = nat ret; out = take k (mem_data bio); b1 = b\<lparr>bm_length := bm_length b - k\<rparr>
                in if rdonly bio then (ret, out, bio\<lparr>mb_buf := b1, mb_pos := mb_pos bio + k\<rparr>)
                   else (ret, out, bio\<lparr>mb_buf := b1\<lparr>bm_data := put_bytes 0 (take (bm_length b1) (drop k (bm_data b1))) (bm_data b1)\<rparr>\<rparr>)
              else if bm_length b = 0 then
                (mb_num bio, [], if mb_num bio \<noteq> 0 then bio\<lparr>mb_flags := mb_flags bio OR (BIO_FLAGS_READ OR BIO_FLAGS_SHOULD_RETRY)\<rparr> else bio)
              else (ret, [], bio))"

definition mem_write :: "allocator \<Rightarrow> byte list \<Rightarrow> mem_bio \<Rightarrow> int \<times> mem_bio" where
  "mem_write al inp bio0 =
     (let bio = mem_clear_retry bio0
      in if int (length inp) \<le> 0 then (0, bio)
         else if rdonly bio then (-1, bio)
         else (case BUF_MEM_append al inp (mb_buf bio) of
             (False, b) \<Rightarrow> (-1, bio\<lparr>mb_buf := b\<rparr>)
           | (True, b) \<Rightarrow> (int (length inp), bio\<lparr>mb_buf := b\<rparr>)))"

text \<open>The bytes read, to which the code appends a NUL when the result is not negative.\<close>

definition mem_gets :: "int \<Rightarrow> mem_bio \<Rightarrow> int \<times> byte list \<times> mem_bio" where
  "mem_gets sz bio0 =
     (let bio = mem_clear_retry bio0
      in if sz \<le> 0 then (0, [], bio)
         else let b = mb_buf bio;
                  ret = (if nat (sz - 1) > bm_length b then int (bm_length b) else sz - 1);
                  ret = (case OPENSSL_memchr (take (nat ret) (mem_data bio)) 10 of None \<Rightarrow> ret | Some i \<Rightarrow> int i + 1)
           in mem_read ret bio)"

section \<open>The control calls\<close>

text \<open>
  Exchanging the buffer is given the new one as it is; the old one is freed (\<^verbatim>\<open>mem_free\<close>) when the BIO owns it,
  which leaves nothing of it in the state.
\<close>

datatype mem_ctrl_cmd = CTRL_RESET | CTRL_EOF | SET_BUF_MEM_EOF_RETURN int | CTRL_INFO | SET_BUF_MEM int buf_mem | GET_BUF_MEM_PTR
  | GET_CLOSE | SET_CLOSE int
  | CTRL_WPENDING | CTRL_PENDING | CTRL_FLUSH | CTRL_UNKNOWN

fun mem_ctrl :: "mem_ctrl_cmd \<Rightarrow> mem_bio \<Rightarrow> int \<times> mem_bio" where
  "mem_ctrl CTRL_RESET bio =
     (1, if bm_data (mb_buf bio) \<noteq> [] then
           if rdonly bio then
             bio\<lparr>mb_pos := mb_pos bio - (bm_max (mb_buf bio) - bm_length (mb_buf bio)), mb_buf := (mb_buf bio)\<lparr>bm_length := bm_max (mb_buf bio)\<rparr>\<rparr>
           else bio\<lparr>mb_buf := (mb_buf bio)\<lparr>bm_data := replicate (bm_max (mb_buf bio)) 0, bm_length := 0\<rparr>\<rparr>
         else bio)"
| "mem_ctrl CTRL_EOF bio = (if bm_length (mb_buf bio) = 0 then 1 else 0, bio)"
| "mem_ctrl (SET_BUF_MEM_EOF_RETURN v) bio = (1, bio\<lparr>mb_num := v\<rparr>)"
| "mem_ctrl CTRL_INFO bio = (int (bm_length (mb_buf bio)), bio)"
| "mem_ctrl (SET_BUF_MEM n b) bio = (1, bio\<lparr>mb_shutdown := n, mb_buf := b, mb_pos := 0\<rparr>)"
| "mem_ctrl GET_BUF_MEM_PTR bio = (1, bio)"
| "mem_ctrl GET_CLOSE bio = (mb_shutdown bio, bio)"
| "mem_ctrl (SET_CLOSE v) bio = (1, bio\<lparr>mb_shutdown := v\<rparr>)"
| "mem_ctrl CTRL_WPENDING bio = (0, bio)"
| "mem_ctrl CTRL_PENDING bio = (int (bm_length (mb_buf bio)), bio)"
| "mem_ctrl CTRL_FLUSH bio = (1, bio)"
| "mem_ctrl CTRL_UNKNOWN bio = (0, bio)"

text \<open>\<^verbatim>\<open>BIO_mem_contents\<close>, which hands out the pointer and the length, as the bytes there.\<close>

definition BIO_mem_contents :: "mem_bio \<Rightarrow> byte list" where
  "BIO_mem_contents bio = take (bm_length (mb_buf bio)) (mem_data bio)"

text \<open>The generic entry points on a memory BIO.\<close>

definition mem_BIO_read :: "int \<Rightarrow> mem_bio \<Rightarrow> int \<times> byte list \<times> mem_bio" where
  "mem_BIO_read len bio =
     (if \<not> mb_init bio then (-2, [], bio)
      else if len \<le> 0 then (0, [], bio)
      else case mem_read len bio of
        (ret, out, b) \<Rightarrow> (ret, out, if ret > 0 then b\<lparr>mb_num_read := mb_num_read b + word_of_int ret\<rparr> else b))"

definition mem_BIO_gets :: "int \<Rightarrow> mem_bio \<Rightarrow> int \<times> byte list \<times> mem_bio" where
  "mem_BIO_gets len bio =
     (if \<not> mb_init bio then (-2, [], bio)
      else if len \<le> 0 then (0, [], bio)
      else case mem_gets len bio of
        (ret, out, b) \<Rightarrow> (ret, out, if ret > 0 then b\<lparr>mb_num_read := mb_num_read b + word_of_int ret\<rparr> else b))"

definition mem_BIO_write :: "allocator \<Rightarrow> byte list \<Rightarrow> mem_bio \<Rightarrow> int \<times> mem_bio" where
  "mem_BIO_write al inp bio =
     (if \<not> mb_init bio then (-2, bio)
      else if int (length inp) \<le> 0 then (0, bio)
      else case mem_write al inp bio of
        (ret, b) \<Rightarrow> (ret, if ret > 0 then b\<lparr>mb_num_write := mb_num_write b + word_of_int ret\<rparr> else b))"

definition BIO_puts :: "allocator \<Rightarrow> byte list \<Rightarrow> mem_bio \<Rightarrow> int \<times> mem_bio" where
  "BIO_puts al s bio = (if length s > 2147483647 then (-1, bio) else mem_BIO_write al s bio)"

section \<open>The queue\<close>

definition mem_ok :: "mem_bio \<Rightarrow> bool" where
  "mem_ok bio \<longleftrightarrow> mb_init bio \<and>
     (if rdonly bio then length (bm_data (mb_buf bio)) = bm_max (mb_buf bio) \<and> mb_pos bio + bm_length (mb_buf bio) = bm_max (mb_buf bio)
      else mb_pos bio = 0 \<and> buf_ok (mb_buf bio))"

lemma flags_keep_rdonly:
  "flags AND NOT kRetryFlags AND BIO_FLAGS_MEM_RDONLY = flags AND BIO_FLAGS_MEM_RDONLY"
  "(flags OR (BIO_FLAGS_READ OR BIO_FLAGS_SHOULD_RETRY)) AND BIO_FLAGS_MEM_RDONLY = flags AND BIO_FLAGS_MEM_RDONLY"
proof -
  have "NOT kRetryFlags AND BIO_FLAGS_MEM_RDONLY = BIO_FLAGS_MEM_RDONLY" by (simp add: kRetryFlags_def bio_flag_defs BIO_FLAGS_MEM_RDONLY_def)
  then show "flags AND NOT kRetryFlags AND BIO_FLAGS_MEM_RDONLY = flags AND BIO_FLAGS_MEM_RDONLY" by (simp add: and.assoc)
  have "(BIO_FLAGS_READ OR BIO_FLAGS_SHOULD_RETRY) AND BIO_FLAGS_MEM_RDONLY = 0" by (simp add: bio_flag_defs BIO_FLAGS_MEM_RDONLY_def)
  then show "(flags OR (BIO_FLAGS_READ OR BIO_FLAGS_SHOULD_RETRY)) AND BIO_FLAGS_MEM_RDONLY = flags AND BIO_FLAGS_MEM_RDONLY"
    by (simp add: bit.conj_disj_distrib2)
qed

lemma clear_retry_keeps:
  "mem_ok (mem_clear_retry bio) = mem_ok bio" "BIO_mem_contents (mem_clear_retry bio) = BIO_mem_contents bio"
  "rdonly (mem_clear_retry bio) = rdonly bio" "mb_num (mem_clear_retry bio) = mb_num bio" "mb_buf (mem_clear_retry bio) = mb_buf bio"
  "mem_clear_retry (mem_clear_retry bio) = mem_clear_retry bio" "mb_init (mem_clear_retry bio) = mb_init bio"
  by (simp_all add: mem_clear_retry_def mem_ok_def BIO_mem_contents_def mem_data_def flags_keep_rdonly and.assoc)

lemma contents_length: "mem_ok bio \<Longrightarrow> length (BIO_mem_contents bio) = bm_length (mb_buf bio)"
  by (cases "rdonly bio") (auto simp: mem_ok_def BIO_mem_contents_def mem_data_def buf_ok_def)

lemma mem_read_takes:
  assumes ok: "mem_ok bio" and n: "0 < outl" and c: "BIO_mem_contents bio \<noteq> []" and r: "mem_read outl bio = (ret, out, bio')"
  shows "ret = int (min (nat outl) (length (BIO_mem_contents bio))) \<and> out = take (nat outl) (BIO_mem_contents bio) \<and> mem_ok bio' \<and>
    BIO_mem_contents bio' = drop (nat outl) (BIO_mem_contents bio) \<and> rdonly bio' = rdonly bio"
proof -
  define b where "b = mem_clear_retry bio"
  define k where "k = min (nat outl) (length (BIO_mem_contents bio))"
  have b: "mem_ok b" "BIO_mem_contents b = BIO_mem_contents bio" "rdonly b = rdonly bio" using ok by (simp_all add: b_def clear_retry_keeps)
  have len: "length (BIO_mem_contents bio) = bm_length (mb_buf b)" using contents_length [OF b(1)] b(2) by simp
  have k: "0 < k" "k \<le> bm_length (mb_buf b)" using n c len by (auto simp: k_def simp flip: length_greater_0_conv)
  have ret: "(if nat outl > bm_length (mb_buf b) then int (bm_length (mb_buf b)) else outl) = int k"
    using n len by (auto simp: k_def min_def)
  let ?b1 = "(mb_buf b)\<lparr>bm_length := bm_length (mb_buf b) - k\<rparr>"
  have e: "mem_read outl bio = (int k, take k (mem_data b),
      if rdonly b then b\<lparr>mb_buf := ?b1, mb_pos := mb_pos b + k\<rparr>
      else b\<lparr>mb_buf := ?b1\<lparr>bm_data := put_bytes 0 (take (bm_length (mb_buf b) - k) (drop k (bm_data (mb_buf b)))) (bm_data (mb_buf b))\<rparr>\<rparr>)"
    using n k(1) unfolding mem_read_def Let_def b_def [symmetric] ret by simp
  have tk: "take k (BIO_mem_contents bio) = take (nat outl) (BIO_mem_contents bio)" "drop k (BIO_mem_contents bio) = drop (nat outl) (BIO_mem_contents bio)"
    by (auto simp: k_def min_def)
  have "take k (mem_data b) = take k (BIO_mem_contents b)" using k(2) by (simp add: BIO_mem_contents_def min_absorb1)
  then have out: "out = take (nat outl) (BIO_mem_contents bio)" using r e b(2) tk by simp
  show ?thesis
  proof (cases "rdonly b")
    case True
    then have "bio' = b\<lparr>mb_buf := ?b1, mb_pos := mb_pos b + k\<rparr>" using r e by simp
    moreover have "BIO_mem_contents (b\<lparr>mb_buf := ?b1, mb_pos := mb_pos b + k\<rparr>) = drop k (BIO_mem_contents b)"
      by (simp add: BIO_mem_contents_def mem_data_def drop_take add.commute)
    ultimately show ?thesis using r e out b tk True k(2) by (simp add: k_def mem_ok_def)
  next
    case False
    let ?d = "put_bytes 0 (take (bm_length (mb_buf b) - k) (drop k (bm_data (mb_buf b)))) (bm_data (mb_buf b))"
    have bo: "buf_ok (mb_buf b)" "mb_pos b = 0" using b(1) False by (simp_all add: mem_ok_def)
    then have l: "length (take (bm_length (mb_buf b) - k) (drop k (bm_data (mb_buf b)))) = bm_length (mb_buf b) - k" by (auto simp: buf_ok_def)
    have d: "length ?d = bm_max (mb_buf b)" "take (bm_length (mb_buf b) - k) ?d = take (bm_length (mb_buf b) - k) (drop k (bm_data (mb_buf b)))"
      using bo l by (simp_all add: put_bytes_def buf_ok_def)
    have bio': "bio' = b\<lparr>mb_buf := ?b1\<lparr>bm_data := ?d\<rparr>\<rparr>" using r e False by simp
    have "bm_length (mb_buf b) - k \<le> bm_max (mb_buf b)" using bo by (auto simp: buf_ok_def)
    then have "mem_ok bio'" using b(1) False bo d(1) by (simp add: bio' mem_ok_def buf_ok_def)
    moreover have "BIO_mem_contents bio' = drop k (BIO_mem_contents b)"
      using d(2) bo(2) by (simp add: bio' BIO_mem_contents_def mem_data_def drop_take)
    ultimately show ?thesis using r e out b tk bio' by (simp add: k_def)
  qed
qed

lemma mem_read_empty:
  assumes "mem_ok bio" "0 < outl" "BIO_mem_contents bio = []" "mem_read outl bio = (ret, out, bio')"
  shows "ret = mb_num bio \<and> out = [] \<and> mem_ok bio' \<and> BIO_mem_contents bio' = [] \<and> rdonly bio' = rdonly bio \<and>
    (ret \<noteq> 0 \<longrightarrow> mb_flags bio' AND BIO_FLAGS_SHOULD_RETRY \<noteq> 0)"
proof -
  define b where "b = mem_clear_retry bio"
  have b: "mem_ok b" "BIO_mem_contents b = []" "rdonly b = rdonly bio" "mb_num b = mb_num bio"
    using assms(1,3) by (simp_all add: b_def clear_retry_keeps)
  have z: "bm_length (mb_buf b) = 0" using contents_length [OF b(1)] b(2) by simp
  have "mem_read outl bio = (mb_num b, [], if mb_num b \<noteq> 0 then b\<lparr>mb_flags := mb_flags b OR (BIO_FLAGS_READ OR BIO_FLAGS_SHOULD_RETRY)\<rparr> else b)"
    using assms(2) z unfolding mem_read_def Let_def b_def [symmetric] by simp
  moreover have "(f OR (BIO_FLAGS_READ OR BIO_FLAGS_SHOULD_RETRY)) AND BIO_FLAGS_SHOULD_RETRY \<noteq> 0" for f
  proof
    have "bit ((f OR (BIO_FLAGS_READ OR BIO_FLAGS_SHOULD_RETRY)) AND BIO_FLAGS_SHOULD_RETRY) 3" by (simp add: bit_simps bio_flag_defs)
    moreover assume "(f OR (BIO_FLAGS_READ OR BIO_FLAGS_SHOULD_RETRY)) AND BIO_FLAGS_SHOULD_RETRY = 0"
    ultimately show False by simp
  qed
  ultimately show ?thesis using assms(4) b by (auto simp: mem_ok_def BIO_mem_contents_def mem_data_def flags_keep_rdonly)
qed

lemma mem_write_appends:
  assumes "mem_ok bio" "length bs < SIZE_MOD" "mem_write al bs bio = (ret, bio')"
  shows "(ret = int (length bs) \<or> ret = -1) \<and> mem_ok bio' \<and> rdonly bio' = rdonly bio \<and>
    BIO_mem_contents bio' = BIO_mem_contents bio @ (if ret = -1 then [] else bs) \<and> (rdonly bio \<longrightarrow> ret \<le> 0)"
proof -
  define b where "b = mem_clear_retry bio"
  have b: "mem_ok b" "BIO_mem_contents b = BIO_mem_contents bio" "rdonly b = rdonly bio" using assms(1) by (simp_all add: b_def clear_retry_keeps)
  show ?thesis
  proof (cases "bs = [] \<or> rdonly b")
    case True
    then show ?thesis using assms(3) b by (auto simp: mem_write_def Let_def b_def [symmetric] split: if_splits)
  next
    case False
    obtain ok q where q: "BUF_MEM_append al bs (mb_buf b) = (ok, q)" by fastforce
    have bo: "buf_ok (mb_buf b)" "mb_pos b = 0" using b(1) False by (simp_all add: mem_ok_def)
    note a = append_ok [OF bo(1) q assms(2)]
    have "(ret, bio') = (if ok then int (length bs) else -1, b\<lparr>mb_buf := q\<rparr>)"
      using assms(3) q False by (cases ok) (simp_all add: mem_write_def Let_def b_def [symmetric])
    moreover have "BIO_mem_contents c = buf_bytes (mb_buf c)" if "mb_pos c = 0" for c using that by (simp add: BIO_mem_contents_def mem_data_def buf_bytes_def)
    ultimately show ?thesis using a b bo False by (auto simp: mem_ok_def)
  qed
qed

text \<open>A line of the front of the queue: up to the first newline, and not longer than \<open>n\<close>.\<close>

definition first_line :: "nat \<Rightarrow> byte list \<Rightarrow> byte list" where
  "first_line n xs = (let l = takeWhile (\<lambda>c. c \<noteq> 10) xs in take n (if length l < length xs then l @ [10] else l))"

lemma first_line_prefix: "\<exists>r. xs = first_line n xs @ r"
proof -
  let ?l = "takeWhile (\<lambda>c. c \<noteq> 10) xs"
  have "\<exists>r. xs = (if length ?l < length xs then ?l @ [10] else ?l) @ r"
  proof (cases "length ?l < length xs")
    case True
    have "dropWhile (\<lambda>c. c \<noteq> 10) xs \<noteq> []" using True by (metis append_Nil2 less_irrefl takeWhile_dropWhile_id)
    then obtain y ys where y: "dropWhile (\<lambda>c. c \<noteq> 10) xs = y # ys" by (cases "dropWhile (\<lambda>c. c \<noteq> 10) xs") auto
    then have "y = 10" using hd_dropWhile [of "\<lambda>c. c \<noteq> 10" xs] by simp
    then have "xs = (?l @ [10]) @ ys" using y takeWhile_dropWhile_id [of "\<lambda>c. c \<noteq> 10" xs] by simp
    then show ?thesis using True by (simp only: if_True) blast
  next
    case False
    then show ?thesis by (intro exI [of _ "dropWhile (\<lambda>c. c \<noteq> 10) xs"]) simp
  qed
  then obtain r where "xs = (if length ?l < length xs then ?l @ [10] else ?l) @ r" by blast
  then show ?thesis unfolding first_line_def Let_def by (metis append.assoc append_take_drop_id)
qed

lemma first_line_take: "first_line n xs = take (case OPENSSL_memchr (take n xs) 10 of None \<Rightarrow> n | Some i \<Rightarrow> Suc i) xs"
proof -
  let ?l = "takeWhile (\<lambda>c. c \<noteq> 10) xs"
  have tk: "length (takeWhile (\<lambda>c. c \<noteq> 10) (take n xs)) = min n (length ?l)"
    by (induction xs arbitrary: n) (auto simp: take_Cons split: nat.split)
  have pre: "take (length ?l) xs = ?l" by (metis append_eq_conv_conj takeWhile_dropWhile_id)
  have at10: "length ?l < length xs \<Longrightarrow> take (Suc (length ?l)) xs = ?l @ [10]"
    using nth_length_takeWhile [of "\<lambda>c. c \<noteq> 10" xs] pre by (simp add: take_Suc_conv_app_nth)
  have le: "length ?l \<le> length xs" by (rule length_takeWhile_le)
  show ?thesis
  proof (cases "length ?l < min n (length xs)")
    case True
    then have "OPENSSL_memchr (take n xs) 10 = Some (length ?l)" by (simp add: OPENSSL_memchr_def tk)
    then show ?thesis using at10 True by (auto simp: first_line_def Let_def Suc_le_eq)
  next
    case False
    then have "OPENSSL_memchr (take n xs) 10 = None" using le by (auto simp: OPENSSL_memchr_def tk Let_def)
    moreover have "first_line n xs = take n xs"
    proof (cases "length ?l < length xs")
      case True
      then have "n \<le> length ?l" using False by simp
      then have "take n (?l @ [10]) = take n (take (length ?l) xs)" unfolding pre by simp
      also have "\<dots> = take n xs" using \<open>n \<le> length ?l\<close> by (simp add: min_absorb1)
      finally show ?thesis using True by (simp add: first_line_def)
    next
      case F: False
      then have "length ?l = length xs" using le by simp
      then show ?thesis using F pre by (simp add: first_line_def)
    qed
    ultimately show ?thesis by simp
  qed
qed

lemma mem_gets_line:
  assumes ok: "mem_ok bio" and sz: "1 < sz" and r: "mem_gets sz bio = (ret, out, bio')"
  shows "out = first_line (nat (sz - 1)) (BIO_mem_contents bio) \<and> ret = int (length out) \<and> mem_ok bio' \<and>
    BIO_mem_contents bio = out @ BIO_mem_contents bio' \<and> rdonly bio' = rdonly bio"
proof -
  define b where "b = mem_clear_retry bio"
  have b: "mem_ok b" "BIO_mem_contents b = BIO_mem_contents bio" "rdonly b = rdonly bio" using ok by (simp_all add: b_def clear_retry_keeps)
  define n where "n = nat (sz - 1)"
  define xs where "xs = BIO_mem_contents bio"
  define k where "k = min n (length xs)"
  have len: "length xs = bm_length (mb_buf b)" using contents_length [OF b(1)] b(2) by (simp add: xs_def)
  have ret: "(if nat (sz - 1) > bm_length (mb_buf b) then int (bm_length (mb_buf b)) else sz - 1) = int k"
    using sz len by (auto simp: k_def n_def)
  have xs': "xs = take (bm_length (mb_buf b)) (mem_data b)" using b(2) by (simp add: xs_def BIO_mem_contents_def)
  have "k = min n (bm_length (mb_buf b))" unfolding k_def len ..
  then have tk: "take k (mem_data b) = take n xs" unfolding xs' by simp
  define j where "j = (case OPENSSL_memchr (take n xs) 10 of None \<Rightarrow> k | Some i \<Rightarrow> Suc i)"
  have g: "mem_gets sz bio = mem_read (int j) b"
    using sz unfolding mem_gets_def Let_def b_def [symmetric] ret
    by (cases "OPENSSL_memchr (take n xs) 10") (simp_all add: tk j_def add.commute)
  have "take k xs = take n xs" by (simp add: k_def min_def)
  then have line: "first_line n xs = take j xs"
    unfolding first_line_take j_def by (cases "OPENSSL_memchr (take n xs) 10") simp_all
  show ?thesis
  proof (cases "xs = []")
    case True
    then have "j = 0" by (simp add: j_def k_def OPENSSL_memchr_def)
    then have "(ret, out, bio') = (0, [], mem_clear_retry b)" using r g by (simp add: mem_read_def Let_def)
    then show ?thesis using True b by (simp add: clear_retry_keeps xs_def first_line_def)
  next
    case False
    have j: "0 < j" "j \<le> length xs"
    proof -
      have "0 < k" using False sz by (auto simp: k_def n_def)
      then show "0 < j" by (simp add: j_def split: option.split)
      show "j \<le> length xs" by (auto simp: j_def k_def OPENSSL_memchr_def Let_def split: option.splits if_splits)
    qed
    have "0 < int j" "BIO_mem_contents b \<noteq> []" using j(1) False b(2) by (simp_all add: xs_def)
    from mem_read_takes [OF b(1) this, of ret out bio'] r g b(2,3) j
    show ?thesis unfolding n_def [symmetric] xs_def [symmetric] line by simp
  qed
qed

section \<open>What the memory BIO promises\<close>

text \<open>The entry points as the operations of a channel; the caller's lengths are those of its buffers.\<close>

definition mem_put :: "allocator \<Rightarrow> byte list \<Rightarrow> mem_bio \<Rightarrow> (nat \<times> mem_bio) option" where
  "mem_put al d bio = (if length d < SIZE_MOD then case mem_BIO_write al d bio of (ret, b) \<Rightarrow> Some (nat ret, b) else Some (0, bio))"

definition mem_get :: "nat \<Rightarrow> mem_bio \<Rightarrow> (byte list \<times> mem_bio) option" where
  "mem_get n bio = (case mem_BIO_read (int n) bio of (ret, bs, b) \<Rightarrow> Some (bs, b))"

definition mem_other :: "mem_ctrl_cmd \<Rightarrow> mem_bio \<Rightarrow> mem_bio option" where
  "mem_other cmd bio = Some (snd (mem_ctrl cmd bio))"

lemma count_keeps:
  "mem_ok (bio\<lparr>mb_num_read := v\<rparr>) = mem_ok bio" "mem_ok (bio\<lparr>mb_num_write := v\<rparr>) = mem_ok bio"
  "BIO_mem_contents (bio\<lparr>mb_num_read := v\<rparr>) = BIO_mem_contents bio" "BIO_mem_contents (bio\<lparr>mb_num_write := v\<rparr>) = BIO_mem_contents bio"
  by (simp_all add: mem_ok_def BIO_mem_contents_def mem_data_def)

lemma mem_BIO_write_law:
  assumes "mem_ok bio" "length d < SIZE_MOD" "mem_BIO_write al d bio = (ret, bio')"
  shows "mem_ok bio' \<and> rdonly bio' = rdonly bio \<and> BIO_mem_contents bio' = BIO_mem_contents bio @ take (nat ret) d \<and>
    (ret = int (length d) \<or> ret = -1) \<and> (rdonly bio \<longrightarrow> ret \<le> 0)"
proof (cases "d = []")
  case True
  have "mb_init bio" using assms(1) by (simp add: mem_ok_def)
  then show ?thesis using assms True by (auto simp: mem_BIO_write_def)
next
  case False
  obtain r b where w: "mem_write al d bio = (r, b)" by fastforce
  note k = mem_write_appends [OF assms(1,2) w]
  have "mb_init bio" using assms(1) by (simp add: mem_ok_def)
  then have e: "ret = r" "bio' = (if r > 0 then b\<lparr>mb_num_write := mb_num_write b + word_of_int r\<rparr> else b)"
    using assms(3) False w by (auto simp: mem_BIO_write_def)
  have "take (nat r) d = (if r = -1 then [] else d)" using k by auto
  then show ?thesis using k unfolding e by (simp add: count_keeps)
qed

lemma mem_BIO_read_law:
  assumes "mem_ok bio" "mem_BIO_read n bio = (ret, bs, bio')"
  shows "mem_ok bio' \<and> bs = take (nat n) (BIO_mem_contents bio) \<and> BIO_mem_contents bio' = drop (nat n) (BIO_mem_contents bio) \<and>
    (0 < n \<longrightarrow> ret = (if BIO_mem_contents bio = [] then mb_num bio else int (length bs))) \<and> rdonly bio' = rdonly bio"
proof (cases "n \<le> 0")
  case True
  then show ?thesis using assms by (auto simp: mem_BIO_read_def mem_ok_def)
next
  case False
  obtain r o1 b where w: "mem_read n bio = (r, o1, b)" using prod_cases3 by blast
  have "mb_init bio" using assms(1) by (simp add: mem_ok_def)
  then have e: "ret = r" "bs = o1" "bio' = (if r > 0 then b\<lparr>mb_num_read := mb_num_read b + word_of_int r\<rparr> else b)"
    using assms(2) False w by (auto simp: mem_BIO_read_def)
  show ?thesis
  proof (cases "BIO_mem_contents bio = []")
    case True
    then show ?thesis using mem_read_empty [OF assms(1) _ True w] False unfolding e by (simp add: count_keeps)
  next
    case c: False
    then show ?thesis using mem_read_takes [OF assms(1) _ c w] False unfolding e by (simp add: count_keeps min_def)
  qed
qed

text \<open>The control calls that replace what the BIO holds.\<close>

fun replaces :: "mem_ctrl_cmd \<Rightarrow> bool" where
  "replaces CTRL_RESET = True"
| "replaces (SET_BUF_MEM _ _) = True"
| "replaces _ = False"

lemma mem_ctrl_keeps:
  assumes "mem_ok bio" "\<not> replaces cmd"
  shows "mem_ok (snd (mem_ctrl cmd bio)) \<and> BIO_mem_contents (snd (mem_ctrl cmd bio)) = BIO_mem_contents bio \<and>
    rdonly (snd (mem_ctrl cmd bio)) = rdonly bio"
  using assms by (cases cmd) (simp_all add: mem_ok_def BIO_mem_contents_def mem_data_def)

interpretation membio: byte_channel mem_ok BIO_mem_contents "mem_put al" mem_get
  "\<lambda>cmd bio. mem_other (if replaces cmd then CTRL_FLUSH else cmd) bio" for al
proof
  fix s d m cmd assume ok: "mem_ok s"
  show "\<exists>n t. mem_put al d s = Some (n, t) \<and> mem_ok t \<and> BIO_mem_contents t = BIO_mem_contents s @ take n d"
  proof (cases "length d < SIZE_MOD")
    case True
    obtain r t where "mem_BIO_write al d s = (r, t)" by fastforce
    then show ?thesis using mem_BIO_write_law [OF ok True] True by (simp add: mem_put_def)
  qed (use ok in \<open>simp add: mem_put_def\<close>)
  obtain r bs t where r: "mem_BIO_read (int m) s = (r, bs, t)" using prod_cases3 by blast
  show "\<exists>t. mem_get m s = Some (take m (BIO_mem_contents s), t) \<and> mem_ok t \<and> BIO_mem_contents t = drop m (BIO_mem_contents s)"
    using mem_BIO_read_law [OF ok r] r by (simp add: mem_get_def)
  show "\<exists>t. mem_other (if replaces cmd then CTRL_FLUSH else cmd) s = Some t \<and> mem_ok t \<and> BIO_mem_contents t = BIO_mem_contents s"
    using mem_ctrl_keeps [OF ok] by (simp add: mem_other_def)
qed

lemma run_channel_env_cong:
  assumes "\<And>e. Other e \<in> set ops \<Longrightarrow> env e = env' e"
  shows "run_channel put get env ops s = run_channel put get env' ops s"
  using assms
proof (induction ops arbitrary: s)
  case (Cons x ops)
  then have "run_channel put get env ops t = run_channel put get env' ops t" for t by simp
  then show ?case using Cons.prems by (cases x) (auto split: option.split)
qed simp

text \<open>
  A memory BIO is a first-in first-out queue of bytes: over every run of writes, reads and control calls (no
  reset and no exchange of the buffer), from any state, what was in it followed by what was accepted is what was read followed by what it still
  holds, and its invariant holds at the end.
\<close>

theorem mem_bio_fifo:
  assumes "mem_ok bio" "list_all (\<lambda>e. case e of Other cmd \<Rightarrow> \<not> replaces cmd | _ \<Rightarrow> True) ops"
  shows "\<exists>sent rcv t. run_channel (mem_put al) mem_get mem_other ops bio = Some (sent, rcv, t) \<and> mem_ok t \<and>
    BIO_mem_contents bio @ sent = rcv @ BIO_mem_contents t"
proof -
  have "run_channel (mem_put al) mem_get mem_other ops bio = run_channel (mem_put al) mem_get
      (\<lambda>cmd bio. mem_other (if replaces cmd then CTRL_FLUSH else cmd) bio) ops bio"
    using assms(2) by (intro run_channel_env_cong) (auto simp: list_all_iff)
  then show ?thesis using membio.run_fifo [OF assms(1), of al ops] by simp
qed

definition sample_mem_bio :: mem_bio where
  "sample_mem_bio = \<lparr>mb_init = True, mb_shutdown = 1, mb_flags = 0, mb_retry_reason = 0, mb_num = -1,
     mb_buf = \<lparr>bm_length = 3, bm_data = [65, 10, 66, 0], bm_max = 4\<rparr>, mb_pos = 0, mb_num_read = 0, mb_num_write = 0\<rparr>"

lemma sample_mem_bio_ok: "mem_ok sample_mem_bio" "BIO_mem_contents sample_mem_bio = [65, 10, 66]"
  by (simp_all add: sample_mem_bio_def mem_ok_def buf_ok_def SIZE_MOD_def BIO_mem_contents_def mem_data_def)

theorem mem_bio_fifo_witness:
  "\<exists>sent rcv t. run_channel (mem_put (\<lambda>_. True)) mem_get mem_other [Put [1, 2], Get 2, Other CTRL_PENDING, Get 9] sample_mem_bio
     = Some (sent, rcv, t) \<and> mem_ok t \<and> [65, 10, 66] @ sent = rcv @ BIO_mem_contents t"
  using mem_bio_fifo [OF sample_mem_bio_ok(1), of "[Put [1, 2], Get 2, Other CTRL_PENDING, Get 9]" "\<lambda>_. True"]
  by (simp add: sample_mem_bio_ok(2))

lemma BIO_gets_line:
  assumes "mem_ok bio" "1 < n" "mem_BIO_gets n bio = (ret, bs, bio')"
  shows "bs = first_line (nat (n - 1)) (BIO_mem_contents bio) \<and> ret = int (length bs) \<and> mem_ok bio' \<and>
    BIO_mem_contents bio = bs @ BIO_mem_contents bio' \<and> rdonly bio' = rdonly bio"
proof -
  obtain r o1 b where w: "mem_gets n bio = (r, o1, b)" using prod_cases3 by blast
  have "mb_init bio" using assms(1) by (simp add: mem_ok_def)
  then have e: "ret = r" "bs = o1" "bio' = (if r > 0 then b\<lparr>mb_num_read := mb_num_read b + word_of_int r\<rparr> else b)"
    using assms(2,3) w by (auto simp: mem_BIO_gets_def)
  have c: "mem_ok bio' = mem_ok b" "BIO_mem_contents bio' = BIO_mem_contents b" "mb_flags bio' = mb_flags b"
    unfolding e(3) by (simp_all add: count_keeps)
  show ?thesis using mem_gets_line [OF assms(1,2) w] unfolding e(1,2) c .
qed

text \<open>
  C20. \<^verbatim>\<open>BIO_gets\<close> on a memory BIO with room for a byte and its NUL takes the first line of what it holds, newline
  included, cut to the room; it returns the number of bytes it took and leaves exactly the rest, in a read-only BIO
  as in one that is written.
\<close>

theorem mem_gets_takes_line:
  assumes "mem_ok bio" "1 < n" "mem_BIO_gets n bio = (ret, bs, bio')"
  shows "bs = first_line (nat (n - 1)) (BIO_mem_contents bio) \<and> ret = int (length bs) \<and> mem_ok bio' \<and>
    BIO_mem_contents bio = bs @ BIO_mem_contents bio' \<and> rdonly bio' = rdonly bio"
  using assms by (rule BIO_gets_line)

theorem mem_gets_takes_line_witness:
  "\<exists>ret bs b. mem_BIO_gets 10 sample_mem_bio = (ret, bs, b) \<and> bs = [65, 10] \<and> ret = 2 \<and> BIO_mem_contents b = [66]"
proof -
  obtain ret bs b where r: "mem_BIO_gets 10 sample_mem_bio = (ret, bs, b)" using prod_cases3 by blast
  show ?thesis using mem_gets_takes_line [OF sample_mem_bio_ok(1) _ r] r by (auto simp: sample_mem_bio_ok first_line_def)
qed

end
