(* ===== verification/Lhash.thy ===== *)
theory Lhash
  imports Prelude
begin

text \<open>
  The hash table (\<^verbatim>\<open>crypto/lhash/lhash.c\<close>): an array of buckets, each the head of a linked list of items
  on the heap.  Items are allocated and freed, so the heap is explicit: an address without an item is
  free, and an operation that reads or frees it is \<open>None\<close>, as is one that follows a chain for ever.
\<close>

section \<open>State\<close>

type_synonym addr = nat

record 'a lhash_item =
  item_data :: 'a
  item_next :: "addr option"
  item_hash :: u32

text \<open>
  The table with its items.  \<open>lh_calls\<close> counts the requests for memory; \<open>lh_al\<close> says which of them, by
  number and size, are granted, and the number is the address of what is allocated.
\<close>

record 'a lhash_st =
  num_items :: nat
  buckets :: "addr option list"
  num_buckets :: nat
  callback_depth :: u32
  comp_fn :: "'a \<Rightarrow> 'a \<Rightarrow> int"
  hash_fn :: "'a \<Rightarrow> u32"
  lh_heap :: "addr \<Rightarrow> 'a lhash_item option"
  lh_calls :: nat
  lh_al :: "nat \<Rightarrow> allocator"

definition kMinNumBuckets :: nat where "kMinNumBuckets = 16"
definition kMaxAverageChainLength :: nat where "kMaxAverageChainLength = 2"
definition kMinAverageChainLength :: nat where "kMinAverageChainLength = 1"

text \<open>The sizes of the table, of an item and of a pointer on the 64-bit targets.\<close>

definition sizeof_lhash :: nat where "sizeof_lhash = 48"
definition sizeof_item :: nat where "sizeof_item = 24"
definition sizeof_ptr :: nat where "sizeof_ptr = 8"

definition lh_malloc :: "nat \<Rightarrow> 'a lhash_st \<Rightarrow> addr option \<times> 'a lhash_st" where
  "lh_malloc sz lh = (if lh_al lh (lh_calls lh) sz then Some (lh_calls lh) else None, lh\<lparr>lh_calls := Suc (lh_calls lh)\<rparr>)"

definition OPENSSL_lh_new :: "(nat \<Rightarrow> allocator) \<Rightarrow> ('a \<Rightarrow> u32) \<Rightarrow> ('a \<Rightarrow> 'a \<Rightarrow> int) \<Rightarrow> 'a lhash_st option" where
  "OPENSSL_lh_new al hash cmp =
     (if \<not> al 0 sizeof_lhash then None
      else if \<not> al 1 (kMinNumBuckets * sizeof_ptr) then None
      else Some \<lparr>num_items = 0, buckets = replicate kMinNumBuckets None, num_buckets = kMinNumBuckets, callback_depth = 0,
                 comp_fn = cmp, hash_fn = hash, lh_heap = (\<lambda>_. None), lh_calls = 2, lh_al = al\<rparr>)"

text \<open>Pointers to pointers: to a bucket of the array, or to the \<^verbatim>\<open>next\<close> field of an item.\<close>

datatype lh_loc = Bucket nat | Next addr

fun lh_load :: "'a lhash_st \<Rightarrow> lh_loc \<Rightarrow> addr option option" where
  "lh_load lh (Bucket i) = (if i < length (buckets lh) then Some (buckets lh ! i) else None)"
| "lh_load lh (Next a) = map_option item_next (lh_heap lh a)"

fun lh_store :: "lh_loc \<Rightarrow> addr option \<Rightarrow> 'a lhash_st \<Rightarrow> 'a lhash_st option" where
  "lh_store (Bucket i) p lh = (if i < length (buckets lh) then Some (lh\<lparr>buckets := (buckets lh)[i := p]\<rparr>) else None)"
| "lh_store (Next a) p lh = (case lh_heap lh a of
     None \<Rightarrow> None
   | Some it \<Rightarrow> Some (lh\<lparr>lh_heap := (lh_heap lh)(a \<mapsto> it\<lparr>item_next := p\<rparr>)\<rparr>))"

definition lh_free_item :: "addr \<Rightarrow> 'a lhash_st \<Rightarrow> 'a lhash_st option" where
  "lh_free_item a lh = (case lh_heap lh a of None \<Rightarrow> None | Some _ \<Rightarrow> Some (lh\<lparr>lh_heap := (lh_heap lh)(a := None)\<rparr>))"

section \<open>Lookup\<close>

text \<open>The loop of both searches; \<open>eq\<close> is the call of the comparison with the value of an item.\<close>

partial_function (option) find_loop :: "('a \<Rightarrow> bool) \<Rightarrow> 'a lhash_st \<Rightarrow> lh_loc \<Rightarrow> lh_loc option" where
  "find_loop eq lh ret = (case lh_load lh ret of
     None \<Rightarrow> None
   | Some None \<Rightarrow> Some ret
   | Some (Some cur) \<Rightarrow> (case lh_heap lh cur of
       None \<Rightarrow> None
     | Some it \<Rightarrow> if eq (item_data it) then Some ret else find_loop eq lh (Next cur)))"

definition get_next_ptr_and_hash :: "'a lhash_st \<Rightarrow> 'a \<Rightarrow> (lh_loc \<times> u32) option" where
  "get_next_ptr_and_hash lh data =
     (let hash = hash_fn lh data
      in map_option (\<lambda>ret. (ret, hash)) (find_loop (\<lambda>d. comp_fn lh d data = 0) lh (Bucket (unat hash mod num_buckets lh))))"

definition get_next_ptr_by_key :: "'a lhash_st \<Rightarrow> 'k \<Rightarrow> u32 \<Rightarrow> ('k \<Rightarrow> 'a \<Rightarrow> int) \<Rightarrow> lh_loc option" where
  "get_next_ptr_by_key lh key key_hash cmp_key =
     find_loop (\<lambda>d. cmp_key key d = 0) lh (Bucket (unat key_hash mod num_buckets lh))"

definition deref_data :: "'a lhash_st \<Rightarrow> lh_loc \<Rightarrow> 'a option option" where
  "deref_data lh loc = (case lh_load lh loc of
     None \<Rightarrow> None
   | Some None \<Rightarrow> Some None
   | Some (Some a) \<Rightarrow> (case lh_heap lh a of None \<Rightarrow> None | Some it \<Rightarrow> Some (Some (item_data it))))"

definition OPENSSL_lh_retrieve :: "'a lhash_st \<Rightarrow> 'a \<Rightarrow> 'a option option" where
  "OPENSSL_lh_retrieve lh data = (case get_next_ptr_and_hash lh data of None \<Rightarrow> None | Some (loc, _) \<Rightarrow> deref_data lh loc)"

definition OPENSSL_lh_retrieve_key :: "'a lhash_st \<Rightarrow> 'k \<Rightarrow> u32 \<Rightarrow> ('k \<Rightarrow> 'a \<Rightarrow> int) \<Rightarrow> 'a option option" where
  "OPENSSL_lh_retrieve_key lh key key_hash cmp_key =
     (case get_next_ptr_by_key lh key key_hash cmp_key of None \<Rightarrow> None | Some loc \<Rightarrow> deref_data lh loc)"

section \<open>Resizing\<close>

type_synonym 'a heap = "addr \<Rightarrow> 'a lhash_item option"

text \<open>The two loops of \<^verbatim>\<open>lh_rebucket\<close>: one chain of items, and the buckets of the old array.\<close>

partial_function (option) rebucket_chain ::
    "nat \<Rightarrow> 'a heap \<Rightarrow> addr option list \<Rightarrow> addr option \<Rightarrow> ('a heap \<times> addr option list) option" where
  "rebucket_chain n h nb cur = (case cur of
     None \<Rightarrow> Some (h, nb)
   | Some a \<Rightarrow> (case h a of
       None \<Rightarrow> None
     | Some it \<Rightarrow>
         let b = unat (item_hash it) mod n
         in rebucket_chain n (h(a \<mapsto> it\<lparr>item_next := nb ! b\<rparr>)) (nb[b := Some a]) (item_next it)))"

fun rebucket_all :: "nat \<Rightarrow> 'a heap \<Rightarrow> addr option list \<Rightarrow> addr option list \<Rightarrow> ('a heap \<times> addr option list) option" where
  "rebucket_all n h nb [] = Some (h, nb)"
| "rebucket_all n h nb (p # ps) = (case rebucket_chain n h nb p of
     None \<Rightarrow> None
   | Some (h1, nb1) \<Rightarrow> rebucket_all n h1 nb1 ps)"

definition lh_rebucket :: "nat \<Rightarrow> 'a lhash_st \<Rightarrow> 'a lhash_st option" where
  "lh_rebucket new_num_buckets lh =
     (let alloc_size = sizeof_ptr * new_num_buckets mod SIZE_MOD
      in if alloc_size div sizeof_ptr \<noteq> new_num_buckets then Some lh
         else (case lh_malloc alloc_size lh of
             (None, lh1) \<Rightarrow> Some lh1
           | (Some _, lh1) \<Rightarrow> (case rebucket_all new_num_buckets (lh_heap lh1) (replicate new_num_buckets None) (buckets lh1) of
               None \<Rightarrow> None
             | Some (h, nb) \<Rightarrow> Some (lh1\<lparr>lh_heap := h, num_buckets := new_num_buckets, buckets := nb\<rparr>))))"

definition lh_maybe_resize :: "'a lhash_st \<Rightarrow> 'a lhash_st option" where
  "lh_maybe_resize lh =
     (if callback_depth lh > 0 then Some lh
      else let avg_chain_length = num_items lh div num_buckets lh in
        if avg_chain_length > kMaxAverageChainLength then
          let new_num_buckets = num_buckets lh * 2 mod SIZE_MOD
          in if new_num_buckets > num_buckets lh then lh_rebucket new_num_buckets lh else Some lh
        else if avg_chain_length < kMinAverageChainLength \<and> num_buckets lh > kMinNumBuckets then
          let new_num_buckets = num_buckets lh div 2
          in lh_rebucket (if new_num_buckets < kMinNumBuckets then kMinNumBuckets else new_num_buckets) lh
        else Some lh)"

section \<open>Changes\<close>

text \<open>\<^verbatim>\<open>OPENSSL_lh_insert\<close>: success, the value replaced, the table.\<close>

definition OPENSSL_lh_insert :: "'a \<Rightarrow> 'a lhash_st \<Rightarrow> (bool \<times> 'a option \<times> 'a lhash_st) option" where
  "OPENSSL_lh_insert data lh = (case get_next_ptr_and_hash lh data of
     None \<Rightarrow> None
   | Some (next_ptr, hash) \<Rightarrow> (case lh_load lh next_ptr of
       None \<Rightarrow> None
     | Some (Some a) \<Rightarrow> (case lh_heap lh a of
         None \<Rightarrow> None
       | Some it \<Rightarrow> Some (True, Some (item_data it), lh\<lparr>lh_heap := (lh_heap lh)(a \<mapsto> it\<lparr>item_data := data\<rparr>)\<rparr>))
     | Some None \<Rightarrow> (case lh_malloc sizeof_item lh of
         (None, lh1) \<Rightarrow> Some (False, None, lh1)
       | (Some a, lh1) \<Rightarrow>
           let lh2 = lh1\<lparr>lh_heap := (lh_heap lh1)(a \<mapsto> \<lparr>item_data = data, item_next = None, item_hash = hash\<rparr>)\<rparr>
           in (case lh_store next_ptr (Some a) lh2 of
               None \<Rightarrow> None
             | Some lh3 \<Rightarrow> map_option (\<lambda>lh4. (True, None, lh4))
                 (lh_maybe_resize (lh3\<lparr>num_items := size_add (num_items lh3) 1\<rparr>))))))"

text \<open>\<^verbatim>\<open>OPENSSL_lh_delete\<close>: the value removed, the table.\<close>

definition OPENSSL_lh_delete :: "'a \<Rightarrow> 'a lhash_st \<Rightarrow> ('a option \<times> 'a lhash_st) option" where
  "OPENSSL_lh_delete data lh = (case get_next_ptr_and_hash lh data of
     None \<Rightarrow> None
   | Some (next_ptr, _) \<Rightarrow> (case lh_load lh next_ptr of
       None \<Rightarrow> None
     | Some None \<Rightarrow> Some (None, lh)
     | Some (Some a) \<Rightarrow> (case lh_heap lh a of
         None \<Rightarrow> None
       | Some it \<Rightarrow> (case lh_store next_ptr (item_next it) lh of
           None \<Rightarrow> None
         | Some lh1 \<Rightarrow> (case lh_free_item a lh1 of
             None \<Rightarrow> None
           | Some lh2 \<Rightarrow> map_option (\<lambda>lh3. (Some (item_data it), lh3))
               (lh_maybe_resize (lh2\<lparr>num_items := (num_items lh2 + SIZE_MOD - 1) mod SIZE_MOD\<rparr>)))))))"

section \<open>Going through the items\<close>

text \<open>The callback works on the table and on a state of its own, \<^verbatim>\<open>arg\<close>.\<close>

partial_function (option) doall_chain ::
    "('a \<Rightarrow> 'a lhash_st \<times> 's \<Rightarrow> ('a lhash_st \<times> 's) option) \<Rightarrow> addr option \<Rightarrow> 'a lhash_st \<times> 's \<Rightarrow> ('a lhash_st \<times> 's) option" where
  "doall_chain func cur st = (case cur of
     None \<Rightarrow> Some st
   | Some a \<Rightarrow> (case lh_heap (fst st) a of
       None \<Rightarrow> None
     | Some it \<Rightarrow> (case func (item_data it) st of
         None \<Rightarrow> None
       | Some st1 \<Rightarrow> doall_chain func (item_next it) st1)))"

partial_function (option) doall_buckets ::
    "('a \<Rightarrow> 'a lhash_st \<times> 's \<Rightarrow> ('a lhash_st \<times> 's) option) \<Rightarrow> nat \<Rightarrow> 'a lhash_st \<times> 's \<Rightarrow> ('a lhash_st \<times> 's) option" where
  "doall_buckets func i st =
     (if i < num_buckets (fst st) then
        (case lh_load (fst st) (Bucket i) of
           None \<Rightarrow> None
         | Some p \<Rightarrow> (case doall_chain func p st of
             None \<Rightarrow> None
           | Some st1 \<Rightarrow> doall_buckets func (Suc i) st1))
      else Some st)"

definition OPENSSL_lh_doall_arg ::
    "('a \<Rightarrow> 'a lhash_st \<times> 's \<Rightarrow> ('a lhash_st \<times> 's) option) \<Rightarrow> 'a lhash_st \<times> 's \<Rightarrow> ('a lhash_st \<times> 's) option" where
  "OPENSSL_lh_doall_arg func st =
     (let up = (\<lambda>lh. if callback_depth lh < 0xffffffff then lh\<lparr>callback_depth := callback_depth lh + 1\<rparr> else lh);
          down = (\<lambda>lh. if callback_depth lh < 0xffffffff then lh\<lparr>callback_depth := callback_depth lh - 1\<rparr> else lh)
      in (case doall_buckets func 0 (up (fst st), snd st) of
          None \<Rightarrow> None
        | Some (lh1, arg) \<Rightarrow> map_option (\<lambda>lh2. (lh2, arg)) (lh_maybe_resize (down lh1))))"

text \<open>\<^verbatim>\<open>OPENSSL_lh_free\<close> frees the items, then the array and the table; what is left is the heap.\<close>

partial_function (option) free_chain :: "addr option \<Rightarrow> 'a lhash_st \<Rightarrow> 'a lhash_st option" where
  "free_chain n lh = (case n of
     None \<Rightarrow> Some lh
   | Some a \<Rightarrow> (case lh_heap lh a of
       None \<Rightarrow> None
     | Some it \<Rightarrow> (case lh_free_item a lh of
         None \<Rightarrow> None
       | Some lh1 \<Rightarrow> free_chain (item_next it) lh1)))"

fun free_buckets :: "addr option list \<Rightarrow> 'a lhash_st \<Rightarrow> 'a lhash_st option" where
  "free_buckets [] lh = Some lh"
| "free_buckets (p # ps) lh = (case free_chain p lh of None \<Rightarrow> None | Some lh1 \<Rightarrow> free_buckets ps lh1)"

definition OPENSSL_lh_free :: "'a lhash_st \<Rightarrow> 'a heap option" where
  "OPENSSL_lh_free lh = map_option lh_heap (free_buckets (take (num_buckets lh) (buckets lh)) lh)"

definition OPENSSL_lh_num_items :: "'a lhash_st \<Rightarrow> nat" where
  "OPENSSL_lh_num_items lh = num_items lh"

end
