(* ===== verification/LhashChain.thy ===== *)
theory LhashChain
  imports Lhash
begin

text \<open>
  The chains of the hash table: the list of addresses behind a pointer, what the search finds in it, and
  how a chain changes when an item is appended, unlinked, moved or freed.
\<close>

section \<open>Chains\<close>

fun chain :: "'a heap \<Rightarrow> addr option \<Rightarrow> addr list \<Rightarrow> bool" where
  "chain h p [] \<longleftrightarrow> p = None"
| "chain h p (a # as) \<longleftrightarrow> p = Some a \<and> (\<exists>it. h a = Some it \<and> chain h (item_next it) as)"

lemma chain_None [simp]: "chain h None as \<longleftrightarrow> as = []"
  by (cases as) auto

lemma chain_Some: "chain h (Some a) as \<longleftrightarrow> (\<exists>it bs. as = a # bs \<and> h a = Some it \<and> chain h (item_next it) bs)"
  by (cases as) auto

lemma chain_unique: "chain h p as \<Longrightarrow> chain h p bs \<Longrightarrow> as = bs"
  by (induction as arbitrary: p bs) (auto simp: chain_Some)

lemma chain_append: "chain h p (as @ b # bs) \<Longrightarrow> chain h (Some b) (b # bs)"
  by (induction as arbitrary: p) auto

lemma chain_notin_tl: "chain h p (a # as) \<Longrightarrow> a \<notin> set as"
proof
  assume c: "chain h p (a # as)" and "a \<in> set as"
  then obtain xs ys where as: "as = xs @ a # ys" by (meson split_list)
  have "chain h (Some a) (a # ys)" using chain_append [of h p "a # xs" a ys] c as by simp
  moreover have "p = Some a" using c by simp
  ultimately have "a # as = a # ys" using c chain_unique by blast
  then show False using as by simp
qed

lemma chain_distinct: "chain h p as \<Longrightarrow> distinct as"
proof (induction as arbitrary: p)
  case (Cons a as)
  then show ?case using chain_notin_tl [of h p a as] by auto
qed simp

lemma chain_dom: "chain h p as \<Longrightarrow> set as \<subseteq> dom h"
  by (induction as arbitrary: p) auto

text \<open>Only the links of the items of the chain matter.\<close>

lemma chain_cong:
  "(\<And>a. a \<in> set as \<Longrightarrow> map_option item_next (h a) = map_option item_next (h' a)) \<Longrightarrow> chain h p as \<longleftrightarrow> chain h' p as"
proof (induction as arbitrary: p)
  case (Cons a as)
  have "map_option item_next (h a) = map_option item_next (h' a)" using Cons.prems by simp
  moreover have "chain h q as \<longleftrightarrow> chain h' q as" for q using Cons.IH Cons.prems by simp
  ultimately show ?case by (cases "h a"; cases "h' a") auto
qed simp

lemma chain_upd: "a \<notin> set as \<Longrightarrow> chain (h(a := x)) p as \<longleftrightarrow> chain h p as"
  by (rule chain_cong) auto

text \<open>The pointer to the rest of a chain: the bucket itself, or the last item before it.\<close>

definition loc_after :: "lh_loc \<Rightarrow> addr list \<Rightarrow> lh_loc" where
  "loc_after ret pre = (if pre = [] then ret else Next (last pre))"

lemma loc_after_Nil [simp]: "loc_after ret [] = ret"
  by (simp add: loc_after_def)

lemma loc_after_Cons [simp]: "loc_after ret (a # pre) = loc_after (Next a) pre"
  by (simp add: loc_after_def)

definition head :: "addr list \<Rightarrow> addr option" where
  "head as = (case as of [] \<Rightarrow> None | a # _ \<Rightarrow> Some a)"

lemma head_simps [simp]: "head [] = None" "head (a # as) = Some a"
  by (simp_all add: head_def)

lemma chain_head: "chain h p as \<Longrightarrow> p = head as"
  by (cases as) auto

abbreviation dat :: "'a heap \<Rightarrow> addr \<Rightarrow> 'a" where
  "dat h a \<equiv> item_data (the (h a))"

lemma find_loop_chain:
  assumes "chain (lh_heap lh) p as" "lh_load lh ret = Some p"
  shows "\<exists>pre post. as = pre @ post \<and> (\<forall>a \<in> set pre. \<not> eq (dat (lh_heap lh) a)) \<and>
    (post \<noteq> [] \<longrightarrow> eq (dat (lh_heap lh) (hd post))) \<and>
    find_loop eq lh ret = Some (loc_after ret pre) \<and> lh_load lh (loc_after ret pre) = Some (head post)"
  using assms
proof (induction as arbitrary: p ret)
  case Nil
  then show ?case by (subst find_loop.simps) auto
next
  case (Cons a as)
  then obtain it where it: "p = Some a" "lh_heap lh a = Some it" "chain (lh_heap lh) (item_next it) as" by auto
  show ?case
  proof (cases "eq (item_data it)")
    case True
    then show ?thesis using it Cons.prems(2) by (intro exI [of _ "[]"] exI [of _ "a # as"]) (subst find_loop.simps, simp)
  next
    case False
    have l: "lh_load lh (Next a) = Some (item_next it)" using it by simp
    from Cons.IH [OF it(3) l] obtain pre post where
      r: "as = pre @ post" "\<forall>a \<in> set pre. \<not> eq (dat (lh_heap lh) a)" "post \<noteq> [] \<longrightarrow> eq (dat (lh_heap lh) (hd post))"
        "find_loop eq lh (Next a) = Some (loc_after (Next a) pre)" "lh_load lh (loc_after (Next a) pre) = Some (head post)"
      by blast
    show ?thesis
      by (intro exI [of _ "a # pre"] exI [of _ post]) (use r it False Cons.prems(2) in \<open>subst find_loop.simps, simp\<close>)
  qed
qed

text \<open>Relinking: behind \<open>pre\<close> comes another chain.\<close>

lemma chain_relink:
  assumes "chain h p (pre @ post)" "pre \<noteq> []" "chain h' q post'" "set pre \<inter> set post' = {}"
    and "\<And>a. a \<in> set pre \<Longrightarrow> a \<noteq> last pre \<Longrightarrow> h' a = h a"
    and "h' (last pre) = Some (it\<lparr>item_next := q\<rparr>)"
  shows "chain h' p (pre @ post')"
  using assms
proof (induction pre arbitrary: p)
  case (Cons a pre)
  then obtain ia where ia: "p = Some a" "h a = Some ia" "chain h (item_next ia) (pre @ post)" by auto
  show ?case
  proof (cases "pre = []")
    case True
    then show ?thesis using Cons.prems ia by simp
  next
    case False
    have "a \<noteq> last pre"
      using chain_distinct [OF Cons.prems(1)] False by (metis append_Cons distinct.simps(2) in_set_conv_decomp last_in_set append_assoc)
    then have "h' a = Some ia" using Cons.prems(5) [of a] False ia by simp
    moreover have "chain h' (item_next ia) (pre @ post')"
      using Cons.IH [OF ia(3) False Cons.prems(3)] Cons.prems False by auto
    ultimately show ?thesis using ia by simp
  qed
qed simp

end
