(* ===== verification/LhashInv.thy ===== *)
theory LhashInv
  imports LhashChain
begin

text \<open>
  The invariant of the hash table and its meaning as a map from keys, and that every operation keeps
  the invariant and does on the map what it should.
\<close>

section \<open>The invariant\<close>

definition bucket_items :: "'a heap \<Rightarrow> addr set \<Rightarrow> nat \<Rightarrow> nat \<Rightarrow> addr set" where
  "bucket_items h D n i = {a \<in> D. unat (item_hash (the (h a))) mod n = i}"

text \<open>The items of \<open>D\<close> are in the chains of the buckets \<open>nb\<close>, by their cached hashes.\<close>

definition distributed :: "nat \<Rightarrow> 'a heap \<Rightarrow> addr option list \<Rightarrow> addr set \<Rightarrow> bool" where
  "distributed n h nb D \<longleftrightarrow> length nb = n \<and> (\<forall>i < n. \<exists>as. chain h (nb ! i) as \<and> set as = bucket_items h D n i)"

text \<open>
  The array is a power of two times the least size, the items of the heap are those in the chains and
  as many as the table counts, their cached hashes are those of their data, and no two have the same key.
\<close>

definition lh_shape :: "'a lhash_st \<Rightarrow> bool" where
  "lh_shape lh \<longleftrightarrow> (\<exists>k. num_buckets lh = kMinNumBuckets * 2 ^ k) \<and> num_buckets lh < 2 ^ 61 \<and>
     distributed (num_buckets lh) (lh_heap lh) (buckets lh) (dom (lh_heap lh)) \<and>
     finite (dom (lh_heap lh)) \<and> num_items lh = card (dom (lh_heap lh))"

definition lh_items_ok :: "('a \<Rightarrow> 'k) \<Rightarrow> 'a lhash_st \<Rightarrow> bool" where
  "lh_items_ok key lh \<longleftrightarrow>
     (\<forall>a it. lh_heap lh a = Some it \<longrightarrow> a < lh_calls lh \<and> item_hash it = hash_fn lh (item_data it)) \<and>
     (\<forall>a b. a \<in> dom (lh_heap lh) \<and> b \<in> dom (lh_heap lh) \<and> key (dat (lh_heap lh) a) = key (dat (lh_heap lh) b) \<longrightarrow> a = b)"

definition lh_inv :: "('a \<Rightarrow> 'k) \<Rightarrow> 'a lhash_st \<Rightarrow> bool" where
  "lh_inv key lh \<longleftrightarrow> lh_shape lh \<and> lh_items_ok key lh"

text \<open>The table as a map: a value is found under its key.\<close>

definition represents :: "('a \<Rightarrow> 'k) \<Rightarrow> 'a lhash_st \<Rightarrow> ('k \<Rightarrow> 'a option) \<Rightarrow> bool" where
  "represents key lh m \<longleftrightarrow> (\<forall>k d. m k = Some d \<longleftrightarrow> key d = k \<and> (\<exists>a \<in> dom (lh_heap lh). dat (lh_heap lh) a = d))"

lemma kMin_pos: "0 < kMinNumBuckets * 2 ^ k"
  by (simp add: kMinNumBuckets_def)

lemma shape_pos: "lh_shape lh \<Longrightarrow> 0 < num_buckets lh"
  by (auto simp: lh_shape_def kMinNumBuckets_def)

lemma inv_pos: "lh_inv key lh \<Longrightarrow> 0 < num_buckets lh"
  by (simp add: lh_inv_def shape_pos)

section \<open>Resizing\<close>

definition relinked :: "'a heap \<Rightarrow> 'a heap \<Rightarrow> bool" where
  "relinked h h' \<longleftrightarrow> (\<forall>a. \<exists>q. h' a = map_option (item_next_update (\<lambda>_. q)) (h a))"

lemma relinked_refl: "relinked h h"
  unfolding relinked_def
proof
  fix a
  show "\<exists>q. h a = map_option (item_next_update (\<lambda>_. q)) (h a)"
    by (cases "h a") (auto intro: exI [of _ "item_next (the (h a))"])
qed

lemma relinked_trans: "relinked h h1 \<Longrightarrow> relinked h1 h2 \<Longrightarrow> relinked h h2"
proof (unfold relinked_def, intro allI)
  fix a
  assume "\<forall>a. \<exists>q. h1 a = map_option (item_next_update (\<lambda>_. q)) (h a)" "\<forall>a. \<exists>q. h2 a = map_option (item_next_update (\<lambda>_. q)) (h1 a)"
  then obtain q1 q2 where "h1 a = map_option (item_next_update (\<lambda>_. q1)) (h a)" "h2 a = map_option (item_next_update (\<lambda>_. q2)) (h1 a)" by metis
  then show "\<exists>q. h2 a = map_option (item_next_update (\<lambda>_. q)) (h a)" by (intro exI [of _ q2]) (cases "h a"; simp)
qed

lemma relinked_upd: "h a = Some it \<Longrightarrow> relinked h (h(a \<mapsto> it\<lparr>item_next := q\<rparr>))"
  using relinked_refl [of h] by (auto simp: relinked_def)

lemma relinked_dom: "relinked h h' \<Longrightarrow> dom h' = dom h"
proof -
  assume r: "relinked h h'"
  have "h' a = None \<longleftrightarrow> h a = None" for a
  proof -
    obtain q where "h' a = map_option (item_next_update (\<lambda>_. q)) (h a)" using r unfolding relinked_def by blast
    then show ?thesis by (cases "h a") auto
  qed
  then show ?thesis by (auto simp: dom_def)
qed

lemma relinked_fields:
  assumes "relinked h h'" "a \<in> dom h"
  shows "item_hash (the (h' a)) = item_hash (the (h a))" "dat h' a = dat h a"
proof -
  obtain q it where "h' a = map_option (item_next_update (\<lambda>_. q)) (h a)" "h a = Some it"
    using assms unfolding relinked_def by blast
  then show "item_hash (the (h' a)) = item_hash (the (h a))" "dat h' a = dat h a" by simp_all
qed

lemma rebucket_step:
  assumes d: "distributed n h nb D" and n: "0 < n" and a: "h a = Some it" "a \<notin> D" and b: "b = unat (item_hash it) mod n"
    and D: "D \<subseteq> dom h"
  shows "distributed n (h(a \<mapsto> it\<lparr>item_next := nb ! b\<rparr>)) (nb[b := Some a]) (insert a D)"
proof -
  let ?h = "h(a \<mapsto> it\<lparr>item_next := nb ! b\<rparr>)"
  have bn: "b < n" using n b by simp
  have l: "length nb = n" using d by (simp add: distributed_def)
  have "\<exists>as. chain ?h (nb[b := Some a] ! i) as \<and> set as = bucket_items ?h (insert a D) n i" if i: "i < n" for i
  proof -
    obtain as where as: "chain h (nb ! i) as" "set as = bucket_items h D n i" using d i by (auto simp: distributed_def)
    have na: "a \<notin> set as" using as(2) a(2) by (simp add: bucket_items_def)
    have c: "chain ?h (nb ! i) as" using as(1) na by (simp add: chain_upd)
    have D': "bucket_items ?h D n i = bucket_items h D n i" using a(2) by (auto simp: bucket_items_def)
    have I: "bucket_items ?h (insert a D) n i = (if i = b then {a} else {}) \<union> bucket_items ?h D n i"
      by (auto simp: bucket_items_def b)
    show ?thesis
    proof (cases "i = b")
      case True
      have "chain ?h (nb[b := Some a] ! i) (a # as)" using True bn l c by simp
      moreover have "set (a # as) = bucket_items ?h (insert a D) n i"
        using as(2) True unfolding I D' by simp
      ultimately show ?thesis by blast
    next
      case False
      have "chain ?h (nb[b := Some a] ! i) as" using False c by simp
      moreover have "set as = bucket_items ?h (insert a D) n i"
        using as(2) False unfolding I D' by simp
      ultimately show ?thesis by blast
    qed
  qed
  then show ?thesis using l by (simp add: distributed_def)
qed

lemma rebucket_chain_ok:
  assumes "0 < n" "chain h p as" "distributed n h nb D" "D \<inter> set as = {}" "D \<subseteq> dom h"
  shows "\<exists>h' nb'. rebucket_chain n h nb p = Some (h', nb') \<and> relinked h h' \<and> (\<forall>a. a \<notin> set as \<longrightarrow> h' a = h a) \<and>
    distributed n h' nb' (D \<union> set as)"
  using assms
proof (induction as arbitrary: p h nb D)
  case Nil
  then show ?case by (simp add: rebucket_chain.simps relinked_refl)
next
  case (Cons a as)
  then obtain it where it: "p = Some a" "h a = Some it" "chain h (item_next it) as" by auto
  define b where "b = unat (item_hash it) mod n"
  define h1 where "h1 = h(a \<mapsto> it\<lparr>item_next := nb ! b\<rparr>)"
  have na: "a \<notin> set as" using chain_notin_tl [OF Cons.prems(2)] .
  have d1: "distributed n h1 (nb[b := Some a]) (insert a D)"
    unfolding h1_def by (rule rebucket_step [OF Cons.prems(3,1) it(2) _ b_def Cons.prems(5)]) (use Cons.prems(4) in auto)
  have c1: "chain h1 (item_next it) as" using it(3) na by (simp add: h1_def chain_upd)
  have i1: "insert a D \<inter> set as = {}" "insert a D \<subseteq> dom h1" using na Cons.prems(4,5) by (auto simp: h1_def)
  from Cons.IH [OF Cons.prems(1) c1 d1 i1] obtain h' nb' where
    r: "rebucket_chain n h1 (nb[b := Some a]) (item_next it) = Some (h', nb')" "relinked h1 h'"
      "\<forall>a. a \<notin> set as \<longrightarrow> h' a = h1 a" "distributed n h' nb' (insert a D \<union> set as)" by blast
  have "rebucket_chain n h nb p = Some (h', nb')"
    using it r(1) by (subst rebucket_chain.simps) (simp add: h1_def b_def Let_def)
  moreover have "relinked h h'" using relinked_trans [OF _ r(2)] relinked_upd [where h = h and a = a and it = it and q = "nb ! b", OF it(2)] by (simp add: h1_def)
  moreover have "\<forall>x. x \<notin> set (a # as) \<longrightarrow> h' x = h x" using r(3) by (simp add: h1_def)
  ultimately show ?case using r(4) by auto
qed

lemma list_all2_chain_cong:
  "list_all2 (chain h) ps ass \<Longrightarrow> (\<And>a. a \<in> set (concat ass) \<Longrightarrow> h' a = h a) \<Longrightarrow> list_all2 (chain h') ps ass"
proof (induction ps ass rule: list_all2_induct)
  case (Cons p ps as ass)
  have "chain h' p as" using Cons(1,4) chain_cong [of as h h' p] by auto
  then show ?case using Cons by simp
qed simp

lemma rebucket_all_ok:
  assumes "0 < n" "list_all2 (chain h) ps ass" "distinct (concat ass)" "distributed n h nb D" "D \<inter> set (concat ass) = {}" "D \<subseteq> dom h"
  shows "\<exists>h' nb'. rebucket_all n h nb ps = Some (h', nb') \<and> relinked h h' \<and> distributed n h' nb' (D \<union> set (concat ass))"
  using assms(2-)
proof (induction ass arbitrary: ps h nb D rule: list.induct)
  case Nil
  have "ps = []" using Nil.prems(1) by simp
  then show ?case using relinked_refl [of h] Nil by simp
next
  case (Cons as ass)
  then obtain p qs where ps: "ps = p # qs" "chain h p as" "list_all2 (chain h) qs ass" by (auto simp: list_all2_Cons2)
  have dis: "D \<inter> set as = {}" "set as \<inter> set (concat ass) = {}" "D \<inter> set (concat ass) = {}" "distinct (concat ass)"
    using Cons.prems(2,4) by auto
  from rebucket_chain_ok [OF assms(1) ps(2) Cons.prems(3) dis(1) Cons.prems(5)] obtain h1 nb1 where
    r: "rebucket_chain n h nb p = Some (h1, nb1)" "relinked h h1" "\<forall>a. a \<notin> set as \<longrightarrow> h1 a = h a" "distributed n h1 nb1 (D \<union> set as)"
    by blast
  have l1: "list_all2 (chain h1) qs ass" by (rule list_all2_chain_cong [OF ps(3)]) (use r(3) dis(2) in blast)
  have D1: "(D \<union> set as) \<inter> set (concat ass) = {}" "D \<union> set as \<subseteq> dom h1"
    using dis Cons.prems(5) chain_dom [OF ps(2)] relinked_dom [OF r(2)] by auto
  from Cons.IH [OF l1 dis(4) r(4) D1] obtain h' nb' where
    "rebucket_all n h1 nb1 qs = Some (h', nb')" "relinked h1 h'" "distributed n h' nb' (D \<union> set as \<union> set (concat ass))" by blast
  then show ?case using ps(1) r(1) relinked_trans [OF r(2)] by (simp add: Un_assoc)
qed

lemma distinct_concat_map:
  "distinct xs \<Longrightarrow> (\<And>x. x \<in> set xs \<Longrightarrow> distinct (f x)) \<Longrightarrow>
   (\<And>x y. x \<in> set xs \<Longrightarrow> y \<in> set xs \<Longrightarrow> x \<noteq> y \<Longrightarrow> set (f x) \<inter> set (f y) = {}) \<Longrightarrow> distinct (concat (map f xs))"
proof (induction xs)
  case (Cons x xs)
  have "set (f x) \<inter> (\<Union>y \<in> set xs. set (f y)) = {}" using Cons.prems(1) Cons.prems(3) [of x] by fastforce
  then show ?case using Cons by simp
qed simp

text \<open>The chains of a table, in the order of its buckets.\<close>

lemma distributed_chains:
  assumes "distributed n h nb (dom h)" "0 < n"
  obtains ass where "list_all2 (chain h) nb ass" "distinct (concat ass)" "set (concat ass) = dom h"
    "\<forall>i < n. set (ass ! i) = bucket_items h (dom h) n i" "length ass = n"
proof -
  have l: "length nb = n" using assms by (simp add: distributed_def)
  have "\<forall>i \<in> {..<n}. \<exists>as. chain h (nb ! i) as \<and> set as = bucket_items h (dom h) n i" using assms by (simp add: distributed_def)
  from bchoice [OF this] obtain f where f: "\<forall>i < n. chain h (nb ! i) (f i) \<and> set (f i) = bucket_items h (dom h) n i" by auto
  define ass where "ass = map f [0..<n]"
  have "list_all2 (chain h) nb ass" using f l by (auto simp: list_all2_conv_all_nth ass_def)
  moreover have "distinct (concat ass)"
    unfolding ass_def by (rule distinct_concat_map) (use f in \<open>auto simp: bucket_items_def intro: chain_distinct\<close>)
  moreover have "set (concat ass) = dom h" using f assms(2) by (auto simp: ass_def bucket_items_def)
  ultimately show ?thesis using that f by (simp add: ass_def)
qed

text \<open>What resizing keeps.\<close>

definition same_table :: "'a lhash_st \<Rightarrow> 'a lhash_st \<Rightarrow> bool" where
  "same_table lh lh' \<longleftrightarrow> relinked (lh_heap lh) (lh_heap lh') \<and> num_items lh' = num_items lh \<and> callback_depth lh' = callback_depth lh \<and>
     comp_fn lh' = comp_fn lh \<and> hash_fn lh' = hash_fn lh \<and> lh_al lh' = lh_al lh \<and> lh_calls lh \<le> lh_calls lh'"

lemma same_table_refl: "same_table lh lh"
  by (simp add: same_table_def relinked_refl)

lemma represents_relinked: "relinked (lh_heap lh) (lh_heap lh') \<Longrightarrow> represents key lh m \<Longrightarrow> represents key lh' m"
  using relinked_dom [of "lh_heap lh" "lh_heap lh'"] relinked_fields(2) [of "lh_heap lh" "lh_heap lh'"]
  by (simp add: represents_def)

lemma items_ok_same:
  assumes "same_table lh lh'" "lh_items_ok key lh"
  shows "lh_items_ok key lh'"
proof -
  have r: "relinked (lh_heap lh) (lh_heap lh')" using assms(1) by (simp add: same_table_def)
  have "a < lh_calls lh' \<and> item_hash it = hash_fn lh' (item_data it)" if a: "lh_heap lh' a = Some it" for a it
  proof -
    obtain jt where j: "lh_heap lh a = Some jt" using a relinked_dom [OF r] by blast
    then show ?thesis using relinked_fields [OF r, of a] a assms by (fastforce simp: lh_items_ok_def same_table_def)
  qed
  moreover have "a = b" if "a \<in> dom (lh_heap lh')" "b \<in> dom (lh_heap lh')" "key (dat (lh_heap lh') a) = key (dat (lh_heap lh') b)" for a b
    using that assms(2) relinked_fields(2) [OF r] relinked_dom [OF r] unfolding lh_items_ok_def by metis
  ultimately show ?thesis by (simp add: lh_items_ok_def)
qed

lemma rebucket_keeps:
  assumes "lh_inv key lh" "n = kMinNumBuckets * 2 ^ k"
  shows "\<exists>lh'. lh_rebucket n lh = Some lh' \<and> lh_inv key lh' \<and> same_table lh lh'"
proof -
  let ?sz = "sizeof_ptr * n mod SIZE_MOD"
  obtain ok lh1 where m: "lh_malloc ?sz lh = (ok, lh1)" by fastforce
  have lh1: "lh1 = lh\<lparr>lh_calls := Suc (lh_calls lh)\<rparr>" using m by (simp add: lh_malloc_def split: if_splits)
  have same1: "same_table lh lh1" by (simp add: same_table_def relinked_refl lh1)
  have shape1: "lh_shape lh1" using assms(1) by (simp add: lh1 lh_inv_def lh_shape_def)
  show ?thesis
  proof (cases "?sz div sizeof_ptr \<noteq> n \<or> ok = None")
    case True
    then show ?thesis using m assms(1) same_table_refl [of lh] same1 shape1 items_ok_same [OF same1]
      by (cases "?sz div sizeof_ptr \<noteq> n") (auto simp: lh_rebucket_def Let_def lh_inv_def)
  next
    case False
    then obtain p where p: "ok = Some p" and sz: "?sz div sizeof_ptr = n" by auto
    have n: "0 < n" "n < 2 ^ 61"
    proof -
      show "0 < n" using assms(2) kMin_pos by simp
      have "?sz < SIZE_MOD" by (simp add: SIZE_MOD_def)
      then have "?sz div 8 < 2 ^ 61" by (simp add: SIZE_MOD_def div_less_iff_less_mult)
      then show "n < 2 ^ 61" using sz by (simp add: sizeof_ptr_def)
    qed
    have pos: "0 < num_buckets lh" using assms(1) by (rule inv_pos)
    have "distributed (num_buckets lh1) (lh_heap lh1) (buckets lh1) (dom (lh_heap lh1))" "0 < num_buckets lh1"
      using shape1 pos by (simp_all add: lh_shape_def lh1)
    then obtain ass where
      ass: "list_all2 (chain (lh_heap lh1)) (buckets lh1) ass" "distinct (concat ass)" "set (concat ass) = dom (lh_heap lh1)"
      by (rule distributed_chains)
    have e: "distributed n (lh_heap lh1) (replicate n None) {}" by (simp add: distributed_def bucket_items_def)
    obtain h' nb' where r: "rebucket_all n (lh_heap lh1) (replicate n None) (buckets lh1) = Some (h', nb')"
        "relinked (lh_heap lh1) h'" "distributed n h' nb' (dom (lh_heap lh1))"
      using rebucket_all_ok [OF n(1) ass(1,2) e] ass(3) by auto
    define lh' where "lh' = lh1\<lparr>lh_heap := h', num_buckets := n, buckets := nb'\<rparr>"
    have "lh_rebucket n lh = Some lh'" using m p sz r(1) by (simp add: lh_rebucket_def Let_def lh'_def)
    moreover have same: "same_table lh lh'" using r(2) same1 by (simp add: same_table_def lh'_def lh1)
    moreover have "lh_shape lh'"
      using r n assms(2) shape1 relinked_dom [OF r(2)] by (auto simp: lh_shape_def lh'_def)
    ultimately show ?thesis using items_ok_same [OF same] assms(1) by (auto simp: lh_inv_def)
  qed
qed

lemma maybe_resize_keeps:
  assumes "lh_inv key lh"
  shows "\<exists>lh'. lh_maybe_resize lh = Some lh' \<and> lh_inv key lh' \<and> same_table lh lh'"
proof -
  obtain k where k: "num_buckets lh = kMinNumBuckets * 2 ^ k" and b: "num_buckets lh < 2 ^ 61"
    using assms by (auto simp: lh_inv_def lh_shape_def)
  have dbl: "num_buckets lh * 2 mod SIZE_MOD = kMinNumBuckets * 2 ^ Suc k" using k b by (simp add: SIZE_MOD_def)
  have half: "\<exists>j. (if num_buckets lh div 2 < kMinNumBuckets then kMinNumBuckets else num_buckets lh div 2) = kMinNumBuckets * 2 ^ j"
    using k by (cases k) (auto simp: kMinNumBuckets_def intro: exI [of _ "0 :: nat"])
  show ?thesis
    using rebucket_keeps [OF assms dbl] half rebucket_keeps [OF assms] same_table_refl [of lh] assms
    unfolding lh_maybe_resize_def Let_def by (simp split del: if_split) (smt (verit))
qed

section \<open>Changing one chain\<close>

lemma distributed_local:
  assumes d: "distributed n h nb (dom h)" and i: "i < n" and l: "length nb' = n" "\<forall>j. j \<noteq> i \<longrightarrow> nb' ! j = nb ! j"
    and c: "chain h' (nb' ! i) as" "set as = bucket_items h' (dom h') n i"
    and other: "\<And>a. a \<in> dom h \<union> dom h' \<Longrightarrow> h' a = h a \<or> a \<in> bucket_items h (dom h) n i \<union> bucket_items h' (dom h') n i"
    and old: "\<And>a. a \<in> dom h \<Longrightarrow> a \<in> dom h' \<Longrightarrow> item_hash (the (h' a)) = item_hash (the (h a))"
  shows "distributed n h' nb' (dom h')"
proof -
  have "\<exists>as. chain h' (nb' ! j) as \<and> set as = bucket_items h' (dom h') n j" if j: "j < n" "j \<noteq> i" for j
  proof -
    obtain bs where bs: "chain h (nb ! j) bs" "set bs = bucket_items h (dom h) n j" using d j by (auto simp: distributed_def)
    have eq: "h' a = h a" if "a \<in> bucket_items h (dom h) n j" for a
      using that other [of a] old [of a] j(2) by (auto simp: bucket_items_def domIff)
    then have "bucket_items h (dom h) n j = bucket_items h' (dom h') n j"
      using other old j(2) by (fastforce simp: bucket_items_def)
    moreover have "chain h' (nb' ! j) bs" using bs eq l j chain_cong [of bs h h'] by simp
    ultimately show ?thesis using bs(2) by auto
  qed
  then show ?thesis using c l unfolding distributed_def by metis
qed

lemma store_after:
  assumes "chain (lh_heap lh) (buckets lh ! i) (pre @ post)" "i < length (buckets lh)"
    and "chain (lh_heap lh) q post'" "set pre \<inter> set post' = {}"
  shows "\<exists>h' nb'. lh_store (loc_after (Bucket i) pre) q lh = Some (lh\<lparr>lh_heap := h', buckets := nb'\<rparr>) \<and>
    chain h' (nb' ! i) (pre @ post') \<and> relinked (lh_heap lh) h' \<and> (\<forall>a. a \<notin> set pre \<longrightarrow> h' a = lh_heap lh a) \<and>
    length nb' = length (buckets lh) \<and> (\<forall>j. j \<noteq> i \<longrightarrow> nb' ! j = buckets lh ! j)"
proof (cases "pre = []")
  case True
  show ?thesis
    by (rule exI [of _ "lh_heap lh"], rule exI [of _ "(buckets lh)[i := q]"])
      (use assms True in \<open>simp add: relinked_refl\<close>)
next
  case False
  have "last pre \<in> dom (lh_heap lh)" using chain_dom [OF assms(1)] last_in_set [OF False] by auto
  then obtain it where it: "lh_heap lh (last pre) = Some it" by auto
  define h' where "h' = (lh_heap lh)(last pre \<mapsto> it\<lparr>item_next := q\<rparr>)"
  have "last pre \<notin> set post'" using assms(4) last_in_set [OF False] by auto
  then have "chain h' q post'" using assms(3) by (simp add: h'_def chain_upd)
  then have "chain h' (buckets lh ! i) (pre @ post')"
    by (rule chain_relink [OF assms(1) False _ assms(4), where it = it]) (simp_all add: h'_def)
  moreover have "relinked (lh_heap lh) h'"
    using relinked_upd [where h = "lh_heap lh" and a = "last pre" and it = it and q = q, OF it] by (simp add: h'_def)
  ultimately show ?thesis
    by (intro exI [of _ h'] exI [of _ "buckets lh"]) (use False it in \<open>auto simp: loc_after_def h'_def\<close>)
qed

text \<open>A new item at the end of the chain of its bucket, and an item taken out of it.\<close>

lemma link_item:
  assumes shape: "lh_shape lh" and i: "i = unat (item_hash it) mod num_buckets lh" "i < num_buckets lh"
    and c: "chain (lh_heap lh) (buckets lh ! i) pre" "set pre = bucket_items (lh_heap lh) (dom (lh_heap lh)) (num_buckets lh) i"
    and a: "a \<notin> dom (lh_heap lh)" and it: "item_next it = None"
    and lh2: "lh_heap lh2 = (lh_heap lh)(a \<mapsto> it)" "buckets lh2 = buckets lh"
  obtains h' nb' where "lh_store (loc_after (Bucket i) pre) (Some a) lh2 = Some (lh2\<lparr>lh_heap := h', buckets := nb'\<rparr>)"
    "distributed (num_buckets lh) h' nb' (dom h')" "relinked ((lh_heap lh)(a \<mapsto> it)) h'"
proof -
  have dist: "distributed (num_buckets lh) (lh_heap lh) (buckets lh) (dom (lh_heap lh))" using shape by (simp add: lh_shape_def)
  have pre: "set pre \<subseteq> dom (lh_heap lh)" using chain_dom [OF c(1)] .
  have "a \<notin> set pre" using a pre by blast
  then have "chain (lh_heap lh2) (buckets lh2 ! i) (pre @ [])" using c(1) by (simp add: lh2 chain_upd)
  moreover have "chain (lh_heap lh2) (Some a) [a]" by (simp add: lh2 it)
  moreover have "i < length (buckets lh2)" "set pre \<inter> set [a] = {}" using i dist a pre by (auto simp: lh2 distributed_def)
  ultimately obtain h' nb' where st: "lh_store (loc_after (Bucket i) pre) (Some a) lh2 = Some (lh2\<lparr>lh_heap := h', buckets := nb'\<rparr>)"
      "chain h' (nb' ! i) (pre @ [a])" "relinked (lh_heap lh2) h'" "\<forall>a. a \<notin> set pre \<longrightarrow> h' a = lh_heap lh2 a"
      "length nb' = length (buckets lh2)" "\<forall>j. j \<noteq> i \<longrightarrow> nb' ! j = buckets lh2 ! j"
    using store_after [of lh2 i pre "[]" "Some a" "[a]"] by blast
  have dom: "dom h' = insert a (dom (lh_heap lh))" using relinked_dom [OF st(3)] by (simp add: lh2)
  have hh: "item_hash (the (h' x)) = (if x = a then item_hash it else item_hash (the (lh_heap lh x)))" if "x \<in> dom h'" for x
    using that relinked_fields [OF st(3), of x] relinked_dom [OF st(3)] by (simp add: lh2)
  have items: "set (pre @ [a]) = bucket_items h' (dom h') (num_buckets lh) i"
  proof -
    have "bucket_items h' (dom h') (num_buckets lh) i = insert a (bucket_items (lh_heap lh) (dom (lh_heap lh)) (num_buckets lh) i)"
    proof (rule set_eqI)
      fix x
      show "x \<in> bucket_items h' (dom h') (num_buckets lh) i \<longleftrightarrow> x \<in> insert a (bucket_items (lh_heap lh) (dom (lh_heap lh)) (num_buckets lh) i)"
        using hh [of x] a i(1) unfolding bucket_items_def dom by (cases "x = a"; cases "x \<in> dom (lh_heap lh)") auto
    qed
    then show ?thesis using c(2) by simp
  qed
  have "distributed (num_buckets lh) h' nb' (dom h')"
  proof (rule distributed_local [OF dist i(2) _ _ st(2) items])
    show "h' x = lh_heap lh x \<or> x \<in> bucket_items (lh_heap lh) (dom (lh_heap lh)) (num_buckets lh) i \<union> bucket_items h' (dom h') (num_buckets lh) i"
      for x using st(4) items by (cases "x = a") (auto simp: lh2)
    show "item_hash (the (h' x)) = item_hash (the (lh_heap lh x))" if "x \<in> dom (lh_heap lh)" "x \<in> dom h'" for x
      using hh [OF that(2)] that(1) a by auto
  qed (use dist st(5,6) lh2 in \<open>auto simp: distributed_def\<close>)
  then show ?thesis using that st(1,3) lh2 by simp
qed

lemma unlink_item:
  assumes shape: "lh_shape lh" and i: "i < num_buckets lh" and it: "lh_heap lh a = Some it"
    and c: "chain (lh_heap lh) (buckets lh ! i) (pre @ a # post)"
      "set (pre @ a # post) = bucket_items (lh_heap lh) (dom (lh_heap lh)) (num_buckets lh) i"
  obtains h1 nb' where "lh_store (loc_after (Bucket i) pre) (item_next it) lh = Some (lh\<lparr>lh_heap := h1, buckets := nb'\<rparr>)"
    "relinked (lh_heap lh) h1" "distributed (num_buckets lh) (h1(a := None)) nb' (dom (h1(a := None)))"
    "chain (h1(a := None)) (nb' ! i) (pre @ post)"
proof -
  have dist: "distributed (num_buckets lh) (lh_heap lh) (buckets lh) (dom (lh_heap lh))" using shape by (simp add: lh_shape_def)
  have post: "chain (lh_heap lh) (item_next it) post" using chain_append [OF c(1)] it by simp
  have disj: "set pre \<inter> set post = {}" "a \<notin> set (pre @ post)" using chain_distinct [OF c(1)] by auto
  have "i < length (buckets lh)" using i dist by (simp add: distributed_def)
  from store_after [OF c(1) this post disj(1)] obtain h1 nb' where
    st: "lh_store (loc_after (Bucket i) pre) (item_next it) lh = Some (lh\<lparr>lh_heap := h1, buckets := nb'\<rparr>)"
      "chain h1 (nb' ! i) (pre @ post)" "relinked (lh_heap lh) h1" "\<forall>a. a \<notin> set pre \<longrightarrow> h1 a = lh_heap lh a"
      "length nb' = length (buckets lh)" "\<forall>j. j \<noteq> i \<longrightarrow> nb' ! j = buckets lh ! j" by blast
  let ?h = "h1(a := None)"
  have dom: "dom ?h = dom (lh_heap lh) - {a}" using relinked_dom [OF st(3)] by auto
  have hh: "item_hash (the (?h x)) = item_hash (the (lh_heap lh x))" if "x \<in> dom ?h" for x
    using that relinked_fields [OF st(3), of x] relinked_dom [OF st(3)] by (auto split: if_splits)
  have items: "set (pre @ post) = bucket_items ?h (dom ?h) (num_buckets lh) i"
  proof -
    have "x \<in> bucket_items ?h (dom ?h) (num_buckets lh) i \<longleftrightarrow> x \<in> bucket_items (lh_heap lh) (dom (lh_heap lh)) (num_buckets lh) i - {a}" for x
    proof (cases "x \<in> dom ?h")
      case True
      then show ?thesis using hh [OF True] unfolding bucket_items_def dom by (simp split del: if_split)
    next
      case False
      then show ?thesis unfolding bucket_items_def dom by auto
    qed
    then show ?thesis using c(2) disj(2) by auto
  qed
  have c': "chain ?h (nb' ! i) (pre @ post)" using st(2) disj(2) chain_upd [of a "pre @ post" h1 None] by simp
  have "distributed (num_buckets lh) ?h nb' (dom ?h)"
  proof (rule distributed_local [OF dist i _ _ c' items])
    have ai: "insert a (set pre) \<subseteq> bucket_items (lh_heap lh) (dom (lh_heap lh)) (num_buckets lh) i" using c(2) by auto
    show "?h x = lh_heap lh x \<or> x \<in> bucket_items (lh_heap lh) (dom (lh_heap lh)) (num_buckets lh) i \<union> bucket_items ?h (dom ?h) (num_buckets lh) i"
      for x using st(4) ai by (cases "x \<in> insert a (set pre)") auto
  qed (use dist st(5,6) hh in \<open>auto simp: distributed_def\<close>)
  then show ?thesis using that st(1,3) c' by simp
qed

lemma items_ok_add:
  assumes ok: "lh_items_ok key lh" and a: "a \<notin> dom (lh_heap lh)" and dom: "dom h' = insert a (dom (lh_heap lh))"
    and flds: "\<And>x. x \<in> dom h' \<Longrightarrow> item_hash (the (h' x)) = (if x = a then hh else item_hash (the (lh_heap lh x)))"
      "\<And>x. x \<in> dom h' \<Longrightarrow> dat h' x = (if x = a then d else dat (lh_heap lh) x)"
    and none: "\<forall>x \<in> dom (lh_heap lh). key (dat (lh_heap lh) x) \<noteq> key d"
    and hh: "hh = hash_fn lh d"
    and lh': "lh_heap lh' = h'" "lh_calls lh \<le> lh_calls lh'" "a < lh_calls lh'" "hash_fn lh' = hash_fn lh"
  shows "lh_items_ok key lh'"
proof -
  have "x < lh_calls lh' \<and> item_hash jt = hash_fn lh (item_data jt)" if x: "h' x = Some jt" for x jt
  proof (cases "x = a")
    case True
    then show ?thesis using flds [of a] dom x lh'(3) hh by simp
  next
    case False
    then obtain it where "lh_heap lh x = Some it" using x dom by blast
    then show ?thesis using flds [of x] False x ok lh'(2) by (fastforce simp: lh_items_ok_def dom)
  qed
  moreover have "x = y" if "x \<in> dom h'" "y \<in> dom h'" "key (dat h' x) = key (dat h' y)" for x y
    using that none ok a flds(2) unfolding dom lh_items_ok_def by (metis insert_iff)
  ultimately show ?thesis by (simp add: lh_items_ok_def lh')
qed

lemma represents_add:
  assumes m: "represents key lh m" and none: "m (key d) = None" "\<forall>x \<in> dom (lh_heap lh). key (dat (lh_heap lh) x) \<noteq> key d"
    and a: "a \<notin> dom (lh_heap lh)" and dom: "dom (lh_heap lh') = insert a (dom (lh_heap lh))"
    and flds: "\<And>x. x \<in> dom (lh_heap lh') \<Longrightarrow> dat (lh_heap lh') x = (if x = a then d else dat (lh_heap lh) x)"
  shows "represents key lh' (m(key d \<mapsto> d))"
proof -
  have e: "(\<exists>x \<in> dom (lh_heap lh'). dat (lh_heap lh') x = e) \<longleftrightarrow> e = d \<or> (\<exists>x \<in> dom (lh_heap lh). dat (lh_heap lh) x = e)" for e
    using flds a unfolding dom by (metis insert_iff)
  have "(m(key d \<mapsto> d)) k = Some e \<longleftrightarrow> key e = k \<and> (\<exists>x \<in> dom (lh_heap lh'). dat (lh_heap lh') x = e)" for k e
    unfolding e using m none(2) unfolding represents_def by (cases "k = key d") auto
  then show ?thesis by (simp add: represents_def)
qed

lemma items_ok_remove:
  assumes ok: "lh_items_ok key lh" and dom: "dom (lh_heap lh') = dom (lh_heap lh) - {a}"
    and flds: "\<And>x. x \<in> dom (lh_heap lh') \<Longrightarrow> item_hash (the (lh_heap lh' x)) = item_hash (the (lh_heap lh x))"
      "\<And>x. x \<in> dom (lh_heap lh') \<Longrightarrow> dat (lh_heap lh') x = dat (lh_heap lh) x"
    and lh': "lh_calls lh' = lh_calls lh" "hash_fn lh' = hash_fn lh"
  shows "lh_items_ok key lh'"
proof -
  have "x < lh_calls lh \<and> item_hash jt = hash_fn lh (item_data jt)" if x: "lh_heap lh' x = Some jt" for x jt
  proof -
    obtain it where "lh_heap lh x = Some it" using x dom by blast
    then show ?thesis using flds [of x] x ok by (fastforce simp: lh_items_ok_def)
  qed
  moreover have "x = y" if "x \<in> dom (lh_heap lh')" "y \<in> dom (lh_heap lh')" "key (dat (lh_heap lh') x) = key (dat (lh_heap lh') y)" for x y
    using that ok flds(2) dom unfolding lh_items_ok_def by (metis DiffE)
  ultimately show ?thesis by (simp add: lh_items_ok_def lh')
qed

lemma represents_remove:
  assumes m: "represents key lh m" and a: "a \<in> dom (lh_heap lh)" and md: "m (key d) = Some (dat (lh_heap lh) a)"
    and dom: "dom (lh_heap lh') = dom (lh_heap lh) - {a}"
    and flds: "\<And>x. x \<in> dom (lh_heap lh') \<Longrightarrow> dat (lh_heap lh') x = dat (lh_heap lh) x"
    and uniq: "\<forall>x y. x \<in> dom (lh_heap lh) \<and> y \<in> dom (lh_heap lh) \<and> key (dat (lh_heap lh) x) = key (dat (lh_heap lh) y) \<longrightarrow> x = y"
  shows "represents key lh' (m(key d := None))"
proof -
  have ka: "key (dat (lh_heap lh) a) = key d" using m md by (simp add: represents_def)
  have e: "(\<exists>x \<in> dom (lh_heap lh'). dat (lh_heap lh') x = e) \<longleftrightarrow> (\<exists>x \<in> dom (lh_heap lh). dat (lh_heap lh) x = e) \<and> key e \<noteq> key d" for e
    using flds uniq a ka unfolding dom by (metis DiffE DiffI singletonD singletonI)
  have "(m(key d := None)) k = Some e \<longleftrightarrow> key e = k \<and> (\<exists>x \<in> dom (lh_heap lh'). dat (lh_heap lh') x = e)" for k e
    unfolding e using m unfolding represents_def by (cases "k = key d") auto
  then show ?thesis by (simp add: represents_def)
qed

section \<open>The contract of the callbacks\<close>

text \<open>
  What the table expects of its two functions: the comparison says whether two values have the same
  key, and values with the same key have the same hash.
\<close>

locale lhash_key =
  fixes hash :: "'a \<Rightarrow> u32" and cmp :: "'a \<Rightarrow> 'a \<Rightarrow> int" and key :: "'a \<Rightarrow> 'k"
  assumes cmp_key: "cmp a b = 0 \<longleftrightarrow> key a = key b"
    and hash_key: "key a = key b \<Longrightarrow> hash a = hash b"
begin

definition table :: "'a lhash_st \<Rightarrow> bool" where
  "table lh \<longleftrightarrow> lh_inv key lh \<and> hash_fn lh = hash \<and> comp_fn lh = cmp"

text \<open>The search ends before an item with the key, or at the end of the one chain that could hold it.\<close>

definition located :: "'a lhash_st \<Rightarrow> 'a \<Rightarrow> nat \<Rightarrow> addr list \<Rightarrow> addr list \<Rightarrow> bool" where
  "located lh d i pre post \<longleftrightarrow> get_next_ptr_and_hash lh d = Some (loc_after (Bucket i) pre, hash d) \<and>
     i = unat (hash d) mod num_buckets lh \<and> i < num_buckets lh \<and> chain (lh_heap lh) (buckets lh ! i) (pre @ post) \<and>
     set (pre @ post) = bucket_items (lh_heap lh) (dom (lh_heap lh)) (num_buckets lh) i \<and>
     lh_load lh (loc_after (Bucket i) pre) = Some (head post) \<and>
     (\<forall>a \<in> set pre. key (dat (lh_heap lh) a) \<noteq> key d) \<and> (post \<noteq> [] \<longrightarrow> key (dat (lh_heap lh) (hd post)) = key d)"

lemma locatedD:
  assumes "located lh d i pre post"
  shows "get_next_ptr_and_hash lh d = Some (loc_after (Bucket i) pre, hash d)" "i = unat (hash d) mod num_buckets lh"
    "i < num_buckets lh" "chain (lh_heap lh) (buckets lh ! i) (pre @ post)"
    "set (pre @ post) = bucket_items (lh_heap lh) (dom (lh_heap lh)) (num_buckets lh) i"
    "lh_load lh (loc_after (Bucket i) pre) = Some (head post)"
    "\<forall>a \<in> set pre. key (dat (lh_heap lh) a) \<noteq> key d" "post \<noteq> [] \<Longrightarrow> key (dat (lh_heap lh) (hd post)) = key d"
  using assms unfolding located_def by blast+

lemma search:
  assumes "table lh"
  obtains i pre post where "located lh d i pre post"
proof -
  define i where "i = unat (hash d) mod num_buckets lh"
  have i: "i < num_buckets lh" using assms inv_pos [of key lh] by (simp add: i_def table_def)
  have dist: "distributed (num_buckets lh) (lh_heap lh) (buckets lh) (dom (lh_heap lh))"
    using assms by (simp add: table_def lh_inv_def lh_shape_def)
  then obtain as where as: "chain (lh_heap lh) (buckets lh ! i) as" "set as = bucket_items (lh_heap lh) (dom (lh_heap lh)) (num_buckets lh) i"
    using i by (auto simp: distributed_def)
  have "lh_load lh (Bucket i) = Some (buckets lh ! i)" using i dist by (simp add: distributed_def)
  from find_loop_chain [OF as(1) this, where eq = "\<lambda>x. comp_fn lh x d = 0"] obtain pre post where
    r: "as = pre @ post" "\<forall>a \<in> set pre. comp_fn lh (dat (lh_heap lh) a) d \<noteq> 0"
      "post \<noteq> [] \<longrightarrow> comp_fn lh (dat (lh_heap lh) (hd post)) d = 0"
      "find_loop (\<lambda>x. comp_fn lh x d = 0) lh (Bucket i) = Some (loc_after (Bucket i) pre)"
      "lh_load lh (loc_after (Bucket i) pre) = Some (head post)" by blast
  have "get_next_ptr_and_hash lh d = Some (loc_after (Bucket i) pre, hash d)"
    using r(4) assms by (simp add: get_next_ptr_and_hash_def i_def table_def Let_def)
  then have "located lh d i pre post" using i i_def as r assms by (auto simp: located_def table_def cmp_key)
  then show ?thesis by (rule that)
qed

lemma item_with_key:
  assumes "table lh" "represents key lh m" "a \<in> dom (lh_heap lh)" "key (dat (lh_heap lh) a) = key d"
  shows "m (key d) = Some (dat (lh_heap lh) a)"
  using assms by (auto simp: represents_def)

lemma no_item_with_key:
  assumes t: "table lh" and m: "represents key lh m"
    and none: "\<forall>a \<in> bucket_items (lh_heap lh) (dom (lh_heap lh)) (num_buckets lh) (unat (hash d) mod num_buckets lh). key (dat (lh_heap lh) a) \<noteq> key d"
  shows "m (key d) = None" "\<forall>a \<in> dom (lh_heap lh). key (dat (lh_heap lh) a) \<noteq> key d"
proof -
  show 1: "\<forall>a \<in> dom (lh_heap lh). key (dat (lh_heap lh) a) \<noteq> key d"
  proof
    fix a assume a: "a \<in> dom (lh_heap lh)"
    show "key (dat (lh_heap lh) a) \<noteq> key d"
    proof
      assume k: "key (dat (lh_heap lh) a) = key d"
      have "item_hash (the (lh_heap lh a)) = hash d"
        using a t hash_key [OF k] by (auto simp: table_def lh_inv_def lh_items_ok_def)
      then show False using none a k by (auto simp: bucket_items_def)
    qed
  qed
  show "m (key d) = None"
  proof (rule ccontr)
    assume "m (key d) \<noteq> None"
    then obtain e where "m (key d) = Some e" by auto
    then have "key e = key d" "\<exists>a \<in> dom (lh_heap lh). dat (lh_heap lh) a = e" using m unfolding represents_def by blast+
    then show False using 1 by blast
  qed
qed

theorem retrieve_correct:
  assumes "table lh" "represents key lh m"
  shows "OPENSSL_lh_retrieve lh d = Some (m (key d))"
proof -
  from search [OF assms(1), of d] obtain i pre post where l: "located lh d i pre post" .
  note r = locatedD [OF l]
  show ?thesis
  proof (cases post)
    case Nil
    have "m (key d) = None" by (rule no_item_with_key(1) [OF assms]) (use r(2,5,7) Nil in simp)
    then show ?thesis using r(1,6) Nil by (simp add: OPENSSL_lh_retrieve_def deref_data_def)
  next
    case (Cons a as)
    then have a: "a \<in> dom (lh_heap lh)" using chain_dom [OF r(4)] by simp
    then have "m (key d) = Some (dat (lh_heap lh) a)" using item_with_key [OF assms a] r(8) Cons by simp
    then show ?thesis using r(1,6) Cons a by (auto simp: OPENSSL_lh_retrieve_def deref_data_def)
  qed
qed

lemma table_same: "table lh \<Longrightarrow> same_table lh lh' \<Longrightarrow> lh_inv key lh' \<Longrightarrow> table lh'"
  by (simp add: table_def same_table_def)

text \<open>
  Inserting: a value with the same key is replaced, and handed back; otherwise the value is added, unless
  the memory for its item is refused.
\<close>

lemma insert_replaces:
  assumes t: "table lh" and m: "represents key lh m" and l: "located lh d i pre (a # post)"
  shows "\<exists>lh'. OPENSSL_lh_insert d lh = Some (True, m (key d), lh') \<and> table lh' \<and> represents key lh' (m(key d \<mapsto> d)) \<and>
    m (key d) \<noteq> None \<and> num_items lh' = num_items lh \<and> num_buckets lh' = num_buckets lh \<and> callback_depth lh' = callback_depth lh \<and> lh_al lh' = lh_al lh"
proof -
  note r = locatedD [OF l]
  have ad: "a \<in> dom (lh_heap lh)" using chain_dom [OF r(4)] by simp
  then obtain it where it: "lh_heap lh a = Some it" by auto
  have k: "key (item_data it) = key d" using r(8) it by simp
  define h' where "h' = (lh_heap lh)(a \<mapsto> it\<lparr>item_data := d\<rparr>)"
  define lh' where "lh' = lh\<lparr>lh_heap := h'\<rparr>"
  have dom: "dom h' = dom (lh_heap lh)" using ad by (auto simp: h'_def)
  have hash': "item_hash (the (h' x)) = item_hash (the (lh_heap lh x))" for x using it by (simp add: h'_def)
  have key': "key (dat h' x) = key (dat (lh_heap lh) x)" for x using it k by (simp add: h'_def)
  have "distributed (num_buckets lh) h' (buckets lh) (dom h')"
  proof -
    have "chain h' p as \<longleftrightarrow> chain (lh_heap lh) p as" for p as by (rule chain_cong) (simp add: h'_def it)
    then show ?thesis using t by (simp add: distributed_def bucket_items_def table_def lh_inv_def lh_shape_def hash' dom)
  qed
  then have shape: "lh_shape lh'" using t by (simp add: lh_shape_def lh'_def table_def lh_inv_def dom)
  have "x < lh_calls lh \<and> item_hash jt = hash (item_data jt)" if "h' x = Some jt" for x jt
    using that t it hash_key [OF k] by (auto simp: h'_def table_def lh_inv_def lh_items_ok_def split: if_splits)
  moreover have "x = y" if "x \<in> dom h'" "y \<in> dom h'" "key (dat h' x) = key (dat h' y)" for x y
    using that t unfolding key' dom table_def lh_inv_def lh_items_ok_def by blast
  ultimately have ok: "lh_items_ok key lh'" using t by (simp add: lh_items_ok_def lh'_def table_def)
  have old: "m (key d) = Some (item_data it)" using item_with_key [OF t m ad, of d] k it by simp
  have "represents key lh' (m(key d \<mapsto> d))"
  proof -
    have "(\<exists>x \<in> dom h'. dat h' x = e) \<longleftrightarrow> (if key e = key d then e = d else \<exists>x \<in> dom (lh_heap lh). dat (lh_heap lh) x = e)" for e
    proof -
      have u: "x = a" if "x \<in> dom (lh_heap lh)" "key (dat (lh_heap lh) x) = key d" for x
        using that t ad k it unfolding table_def lh_inv_def lh_items_ok_def by (metis option.sel)
      have ev: "dat h' x = (if x = a then d else dat (lh_heap lh) x)" for x by (simp add: h'_def)
      show ?thesis
      proof (cases "key e = key d")
        case True
        then have "(\<exists>x \<in> dom (lh_heap lh). dat h' x = e) \<longleftrightarrow> dat h' a = e" using u ad ev by metis
        then show ?thesis using True ev dom by auto
      next
        case False
        then have "dat h' x = e \<longleftrightarrow> dat (lh_heap lh) x = e" for x using ev it k by auto
        then show ?thesis using False dom by auto
      qed
    qed
    then have "(m(key d \<mapsto> d)) k = Some e \<longleftrightarrow> key e = k \<and> (\<exists>x \<in> dom h'. dat h' x = e)" for k e
      using m unfolding represents_def by (cases "k = key d") auto
    then show ?thesis by (simp add: represents_def lh'_def)
  qed
  moreover have "OPENSSL_lh_insert d lh = Some (True, m (key d), lh')"
    using r(1,6) it old by (simp add: OPENSSL_lh_insert_def lh'_def h'_def)
  ultimately show ?thesis using shape ok old t by (simp add: table_def lh_inv_def lh'_def)
qed

text \<open>Resizing at the end of an operation changes nothing of this.\<close>

lemma resized:
  assumes "lh_inv key lh" "hash_fn lh = hash" "comp_fn lh = cmp" "represents key lh m"
  obtains lh' where "lh_maybe_resize lh = Some lh'" "table lh'" "represents key lh' m" "num_items lh' = num_items lh"
    "callback_depth lh' = callback_depth lh" "lh_al lh' = lh_al lh" "relinked (lh_heap lh) (lh_heap lh')"
proof -
  from maybe_resize_keeps [OF assms(1)] obtain lh' where r: "lh_maybe_resize lh = Some lh'" "lh_inv key lh'" "same_table lh lh'" by blast
  show ?thesis
    by (rule that [OF r(1)]) (use r(2,3) assms represents_relinked [of lh lh'] in \<open>auto simp: table_def same_table_def\<close>)
qed

text \<open>
  How the size changes: not at all, or by one item and then by resizing.
\<close>

definition resized_from :: "'a lhash_st \<Rightarrow> nat \<Rightarrow> 'a lhash_st \<Rightarrow> bool" where
  "resized_from lh n lh' \<longleftrightarrow> (\<exists>lh1. lh_inv key lh1 \<and> lh_maybe_resize lh1 = Some lh' \<and> num_items lh1 = n \<and> num_buckets lh1 = num_buckets lh \<and>
     callback_depth lh1 = callback_depth lh \<and> lh_al lh1 = lh_al lh)"

definition changes :: "'a lhash_st \<Rightarrow> 'a lhash_st \<Rightarrow> bool" where
  "changes lh lh' \<longleftrightarrow> num_items lh' = num_items lh \<and> num_buckets lh' = num_buckets lh \<or>
     resized_from lh (Suc (num_items lh)) lh' \<or> (0 < num_items lh \<and> resized_from lh (num_items lh - 1) lh')"

lemma changes_refl: "changes lh lh"
  by (simp add: changes_def)

lemma insert_adds:
  assumes t: "table lh" and m: "represents key lh m" and l: "located lh d i pre []" and n: "Suc (num_items lh) < SIZE_MOD"
  shows "\<exists>ok lh'. OPENSSL_lh_insert d lh = Some (ok, None, lh') \<and> table lh' \<and> represents key lh' (if ok then m(key d \<mapsto> d) else m) \<and>
    m (key d) = None \<and> ok = lh_al lh (lh_calls lh) sizeof_item \<and> num_items lh' = (if ok then Suc (num_items lh) else num_items lh) \<and>
    callback_depth lh' = callback_depth lh \<and> lh_al lh' = lh_al lh \<and> changes lh lh'"
proof -
  note r = locatedD [OF l]
  have none: "m (key d) = None" "\<forall>a \<in> dom (lh_heap lh). key (dat (lh_heap lh) a) \<noteq> key d"
    using no_item_with_key [OF t m, of d] r(2,5,7) by simp_all
  define lh1 where "lh1 = lh\<lparr>lh_calls := Suc (lh_calls lh)\<rparr>"
  have ok1: "lh_items_ok key lh1" "lh_shape lh1"
    using t by (auto simp: lh1_def table_def lh_inv_def lh_items_ok_def lh_shape_def less_Suc_eq)
  show ?thesis
  proof (cases "lh_al lh (lh_calls lh) sizeof_item")
    case False
    then have "OPENSSL_lh_insert d lh = Some (False, None, lh1)"
      using r(1,6) by (simp add: OPENSSL_lh_insert_def lh_malloc_def lh1_def)
    then show ?thesis using False none ok1 t m by (intro exI [of _ False] exI [of _ lh1]) (simp add: lh1_def table_def lh_inv_def represents_def changes_def)
  next
    case True
    define a where "a = lh_calls lh"
    define it where "it = \<lparr>item_data = d, item_next = None, item_hash = hash d\<rparr>"
    define lh2 where "lh2 = lh1\<lparr>lh_heap := (lh_heap lh1)(a \<mapsto> it)\<rparr>"
    have a: "a \<notin> dom (lh_heap lh)" using t by (auto simp: a_def table_def lh_inv_def lh_items_ok_def)
    have sh: "lh_shape lh" using t by (simp add: table_def lh_inv_def)
    have pre: "i = unat (item_hash it) mod num_buckets lh" "chain (lh_heap lh) (buckets lh ! i) pre"
        "set pre = bucket_items (lh_heap lh) (dom (lh_heap lh)) (num_buckets lh) i"
      using r(2,4,5) by (simp_all add: it_def)
    obtain h' nb' where st: "lh_store (loc_after (Bucket i) pre) (Some a) lh2 = Some (lh2\<lparr>lh_heap := h', buckets := nb'\<rparr>)"
      "distributed (num_buckets lh) h' nb' (dom h')" "relinked ((lh_heap lh)(a \<mapsto> it)) h'"
      by (rule link_item [OF sh pre(1) r(3) pre(2,3) a, of lh2]) (simp_all add: it_def lh2_def lh1_def)
    define lh4 where "lh4 = lh2\<lparr>lh_heap := h', buckets := nb', num_items := Suc (num_items lh)\<rparr>"
    have dom: "dom h' = insert a (dom (lh_heap lh))" using relinked_dom [OF st(3)] by simp
    have shape: "lh_shape lh4" using st(2) sh a dom by (simp add: lh_shape_def lh4_def lh2_def lh1_def)
    have flds: "item_hash (the (h' x)) = (if x = a then hash d else item_hash (the (lh_heap lh x)))"
      "dat h' x = (if x = a then d else dat (lh_heap lh) x)" if "x \<in> dom h'" for x
      using that relinked_fields [OF st(3), of x] relinked_dom [OF st(3)] by (simp_all add: it_def)
    have ok4: "lh_items_ok key lh4"
      by (rule items_ok_add [OF _ a dom flds none(2)]) (use t in \<open>simp_all add: table_def lh_inv_def lh4_def lh2_def lh1_def a_def\<close>)
    have rep: "represents key lh4 (m(key d \<mapsto> d))"
      by (rule represents_add [OF m none a]) (use flds(2) in \<open>simp_all add: dom lh4_def\<close>)
    obtain lh5 where "lh_maybe_resize lh4 = Some lh5" "table lh5" "represents key lh5 (m(key d \<mapsto> d))" "num_items lh5 = num_items lh4"
      "callback_depth lh5 = callback_depth lh4" "lh_al lh5 = lh_al lh4"
      using resized [of lh4 "m(key d \<mapsto> d)"] shape ok4 rep t by (auto simp: lh_inv_def lh4_def lh2_def lh1_def table_def)
    moreover have "OPENSSL_lh_insert d lh = map_option (\<lambda>lh4. (True, None, lh4)) (lh_maybe_resize lh4)"
      using r(1,6) True st(1) n
      by (simp add: OPENSSL_lh_insert_def lh_malloc_def lh4_def lh2_def lh1_def it_def a_def Let_def size_add_small)
    moreover have "changes lh lh5" unfolding changes_def resized_from_def
      using calculation(1) shape ok4 by (intro disjI2 disjI1 exI [of _ lh4]) (simp add: lh_inv_def lh4_def lh2_def lh1_def)
    ultimately show ?thesis using True none by (intro exI [of _ True] exI [of _ lh5]) (simp add: lh4_def lh2_def lh1_def)
  qed
qed

theorem insert_correct:
  assumes "table lh" "represents key lh m" "Suc (num_items lh) < SIZE_MOD"
  shows "\<exists>ok lh'. OPENSSL_lh_insert d lh = Some (ok, m (key d), lh') \<and> table lh' \<and> represents key lh' (if ok then m(key d \<mapsto> d) else m) \<and>
    (\<not> ok \<longrightarrow> m (key d) = None \<and> \<not> lh_al lh (lh_calls lh) sizeof_item) \<and> num_items lh' \<le> Suc (num_items lh) \<and>
    callback_depth lh' = callback_depth lh \<and> lh_al lh' = lh_al lh \<and> changes lh lh'"
proof -
  from search [OF assms(1), of d] obtain i pre post where l: "located lh d i pre post" .
  show ?thesis
  proof (cases post)
    case Nil
    from insert_adds [OF assms(1,2) l [unfolded Nil] assms(3)] obtain ok lh' where
      r: "OPENSSL_lh_insert d lh = Some (ok, None, lh')" "table lh'" "represents key lh' (if ok then m(key d \<mapsto> d) else m)"
        "m (key d) = None" "ok = lh_al lh (lh_calls lh) sizeof_item" "num_items lh' = (if ok then Suc (num_items lh) else num_items lh)"
        "callback_depth lh' = callback_depth lh" "lh_al lh' = lh_al lh" "changes lh lh'" by blast
    show ?thesis by (rule exI [of _ ok], rule exI [of _ lh']) (use r in \<open>simp split: if_splits\<close>)
  next
    case (Cons a as)
    from insert_replaces [OF assms(1,2) l [unfolded Cons]] obtain lh' where
      r: "OPENSSL_lh_insert d lh = Some (True, m (key d), lh')" "table lh'" "represents key lh' (m(key d \<mapsto> d))"
        "num_items lh' = num_items lh" "num_buckets lh' = num_buckets lh" "callback_depth lh' = callback_depth lh" "lh_al lh' = lh_al lh" by blast
    show ?thesis by (rule exI [of _ True], rule exI [of _ lh']) (use r in \<open>simp add: changes_def\<close>)
  qed
qed

text \<open>Deleting, up to the resizing at the end.\<close>

lemma unlinks:
  assumes t: "table lh" and m: "represents key lh m" and l: "located lh d i pre (a # post)" and n: "num_items lh < SIZE_MOD"
  obtains h1 nb' lh2 where "OPENSSL_lh_delete d lh = map_option (\<lambda>lh3. (m (key d), lh3)) (lh_maybe_resize lh2)"
    "lh2 = lh\<lparr>buckets := nb', lh_heap := h1(a := None), num_items := num_items lh - 1\<rparr>" "relinked (lh_heap lh) h1" "table lh2"
    "represents key lh2 (m(key d := None))" "m (key d) = Some (dat (lh_heap lh) a)" "chain (lh_heap lh2) (nb' ! i) (pre @ post)"
proof -
  note r = locatedD [OF l]
  have ad: "a \<in> dom (lh_heap lh)" using chain_dom [OF r(4)] by simp
  then obtain it where it: "lh_heap lh a = Some it" by auto
  have sh: "lh_shape lh" using t by (simp add: table_def lh_inv_def)
  obtain h1 nb' where st: "lh_store (loc_after (Bucket i) pre) (item_next it) lh = Some (lh\<lparr>lh_heap := h1, buckets := nb'\<rparr>)"
    "relinked (lh_heap lh) h1" "distributed (num_buckets lh) (h1(a := None)) nb' (dom (h1(a := None)))"
    "chain (h1(a := None)) (nb' ! i) (pre @ post)"
    using unlink_item [OF sh r(3) it r(4,5)] by blast
  define h2 where "h2 = h1(a := None)"
  define lh2 where "lh2 = lh\<lparr>buckets := nb', lh_heap := h2, num_items := num_items lh - 1\<rparr>"
  have dom: "dom h2 = dom (lh_heap lh) - {a}" using relinked_dom [OF st(2)] by (auto simp: h2_def)
  have flds: "item_hash (the (h2 x)) = item_hash (the (lh_heap lh x))" "dat h2 x = dat (lh_heap lh) x" if "x \<in> dom h2" for x
  proof -
    have "x \<in> dom (lh_heap lh)" "x \<noteq> a" using that unfolding dom by simp_all
    then show "item_hash (the (h2 x)) = item_hash (the (lh_heap lh x))" "dat h2 x = dat (lh_heap lh) x"
      using relinked_fields [OF st(2), of x] by (simp_all add: h2_def)
  qed
  have md: "m (key d) = Some (dat (lh_heap lh) a)" using item_with_key [OF t m ad, of d] r(8) by simp
  have fin: "finite (dom (lh_heap lh))" "num_items lh = card (dom (lh_heap lh))" using sh by (simp_all add: lh_shape_def)
  have pos: "0 < num_items lh" using fin ad card_gt_0_iff by fastforce
  have "lh_shape lh2" using sh st(3) [folded h2_def] dom fin ad by (simp add: lh_shape_def lh2_def card_Diff_singleton)
  moreover have "lh_items_ok key lh2"
    by (rule items_ok_remove [where lh = lh and a = a]) (use t dom flds in \<open>simp_all add: lh2_def table_def lh_inv_def\<close>)
  ultimately have "table lh2" using t by (simp add: table_def lh_inv_def lh2_def)
  moreover have "represents key lh2 (m(key d := None))"
    by (rule represents_remove [OF m ad md]) (use t dom flds in \<open>simp_all add: lh2_def table_def lh_inv_def lh_items_ok_def\<close>)
  moreover have "OPENSSL_lh_delete d lh = map_option (\<lambda>lh3. (m (key d), lh3)) (lh_maybe_resize lh2)"
  proof -
    have "h1 a \<noteq> None" using relinked_dom [OF st(2)] ad by blast
    moreover have "(num_items lh + SIZE_MOD - 1) mod SIZE_MOD = num_items lh - 1" using n pos by (simp add: mod_if SIZE_MOD_def)
    ultimately show ?thesis using r(1,6) it st(1) md
      by (auto simp: OPENSSL_lh_delete_def lh_free_item_def lh2_def h2_def)
  qed
  moreover have "chain (lh_heap lh2) (nb' ! i) (pre @ post)" using st(4) by (simp add: lh2_def h2_def)
  ultimately show ?thesis using that [OF _ lh2_def [unfolded h2_def] st(2)] md by blast
qed

lemma located_pos: "table lh \<Longrightarrow> located lh d i pre post \<Longrightarrow> post \<noteq> [] \<Longrightarrow> 0 < num_items lh"
proof -
  assume t: "table lh" and l: "located lh d i pre post" and p: "post \<noteq> []"
  have "dom (lh_heap lh) \<noteq> {}" using chain_dom [OF locatedD(4) [OF l]] p by (cases post) auto
  then show ?thesis using t by (simp add: table_def lh_inv_def lh_shape_def card_gt_0_iff)
qed

theorem delete_correct:
  assumes t: "table lh" and m: "represents key lh m" and n: "num_items lh < SIZE_MOD"
  shows "\<exists>lh'. OPENSSL_lh_delete d lh = Some (m (key d), lh') \<and> table lh' \<and> represents key lh' (m(key d := None)) \<and>
    num_items lh' \<le> num_items lh \<and> callback_depth lh' = callback_depth lh \<and> lh_al lh' = lh_al lh \<and> changes lh lh'"
proof -
  from search [OF t, of d] obtain i pre post where l: "located lh d i pre post" .
  note r = locatedD [OF l]
  show ?thesis
  proof (cases post)
    case Nil
    have md: "m (key d) = None" by (rule no_item_with_key(1) [OF t m]) (use r(2,5,7) Nil in simp)
    then have "m(key d := None) = m" by auto
    then show ?thesis using r(1,6) Nil t m md changes_refl by (simp add: OPENSSL_lh_delete_def)
  next
    case (Cons a as)
    have pos: "0 < num_items lh" using located_pos [OF t l] Cons by simp
    obtain h1 nb' lh2 where u: "OPENSSL_lh_delete d lh = map_option (\<lambda>lh3. (m (key d), lh3)) (lh_maybe_resize lh2)"
      "lh2 = lh\<lparr>buckets := nb', lh_heap := h1(a := None), num_items := num_items lh - 1\<rparr>" "table lh2" "represents key lh2 (m(key d := None))"
      by (rule unlinks [OF t m l [unfolded Cons] n]) blast
    obtain lh3 where "lh_maybe_resize lh2 = Some lh3" "table lh3" "represents key lh3 (m(key d := None))" "num_items lh3 = num_items lh2"
      "callback_depth lh3 = callback_depth lh2" "lh_al lh3 = lh_al lh2"
      using resized [of lh2 "m(key d := None)"] u(3,4) unfolding table_def by metis
    moreover have "changes lh lh3" unfolding changes_def resized_from_def
      using calculation(1) u pos by (intro disjI2 disjI2 conjI exI [of _ lh2]) (simp_all add: table_def)
    ultimately show ?thesis using u(1,2) by (intro exI [of _ lh3]) simp
  qed
qed

end

text \<open>The contract as a predicate, for statements outside the locale.\<close>

definition key_ok :: "('a \<Rightarrow> u32) \<Rightarrow> ('a \<Rightarrow> 'a \<Rightarrow> int) \<Rightarrow> ('a \<Rightarrow> 'k) \<Rightarrow> bool" where
  "key_ok hash cmp key \<longleftrightarrow> (\<forall>a b. cmp a b = 0 \<longleftrightarrow> key a = key b) \<and> (\<forall>a b. key a = key b \<longrightarrow> hash a = hash b)"

lemma lhash_key_iff: "lhash_key hash cmp key \<longleftrightarrow> key_ok hash cmp key"
  unfolding lhash_key_def key_ok_def by blast

end
