(* ===== verification/LhashProps.thy ===== *)
theory LhashProps
  imports LhashInv
begin

text \<open>
  What the hash table does over whole runs: it is a map from keys to values, going through it visits every
  value once although the visitor deletes, freeing it leaves no item, and its load is bounded.
\<close>

section \<open>Runs\<close>

datatype 'a lh_op = Insert 'a | Delete 'a | Retrieve 'a | Num_items
datatype 'a lh_out = Inserted bool "'a option" | Deleted "'a option" | Found "'a option" | Count nat

fun lh_exec :: "'a lh_op \<Rightarrow> 'a lhash_st \<Rightarrow> ('a lh_out \<times> 'a lhash_st) option" where
  "lh_exec (Insert d) lh = map_option (\<lambda>(ok, old, lh'). (Inserted ok old, lh')) (OPENSSL_lh_insert d lh)"
| "lh_exec (Delete d) lh = map_option (\<lambda>(x, lh'). (Deleted x, lh')) (OPENSSL_lh_delete d lh)"
| "lh_exec (Retrieve d) lh = map_option (\<lambda>x. (Found x, lh)) (OPENSSL_lh_retrieve lh d)"
| "lh_exec Num_items lh = Some (Count (OPENSSL_lh_num_items lh), lh)"

fun lh_run :: "'a lh_op list \<Rightarrow> 'a lhash_st \<Rightarrow> ('a lh_out list \<times> 'a lhash_st) option" where
  "lh_run [] lh = Some ([], lh)"
| "lh_run (e # es) lh = (case lh_exec e lh of
     None \<Rightarrow> None
   | Some (x, lh1) \<Rightarrow> map_option (\<lambda>(xs, lh2). (x # xs, lh2)) (lh_run es lh1))"

text \<open>The specification: which results a map allows, and the map after them.  Only an insertion that adds may fail.\<close>

fun map_exec :: "('a \<Rightarrow> 'k) \<Rightarrow> 'a lh_op \<Rightarrow> 'a lh_out \<Rightarrow> ('k \<Rightarrow> 'a option) \<Rightarrow> ('k \<Rightarrow> 'a option) option" where
  "map_exec key (Insert d) (Inserted ok old) m =
     (if old = m (key d) \<and> (ok \<or> old = None) then Some (if ok then m(key d \<mapsto> d) else m) else None)"
| "map_exec key (Delete d) (Deleted x) m = (if x = m (key d) then Some (m(key d := None)) else None)"
| "map_exec key (Retrieve d) (Found x) m = (if x = m (key d) then Some m else None)"
| "map_exec key Num_items (Count n) m = (if n = card (dom m) then Some m else None)"
| "map_exec key _ _ m = None"

fun map_run :: "('a \<Rightarrow> 'k) \<Rightarrow> 'a lh_op list \<Rightarrow> 'a lh_out list \<Rightarrow> ('k \<Rightarrow> 'a option) \<Rightarrow> ('k \<Rightarrow> 'a option) option" where
  "map_run key [] [] m = Some m"
| "map_run key (e # es) (x # xs) m = Option.bind (map_exec key e x m) (map_run key es xs)"
| "map_run key _ _ m = None"

context lhash_key
begin

lemma new_table: "OPENSSL_lh_new al hash cmp = Some lh \<Longrightarrow>
    table lh \<and> represents key lh Map.empty \<and> num_items lh = 0 \<and> lh_al lh = al \<and> callback_depth lh = 0 \<and> num_buckets lh = kMinNumBuckets"
  by (auto simp: OPENSSL_lh_new_def table_def lh_inv_def lh_shape_def lh_items_ok_def distributed_def bucket_items_def represents_def
      kMinNumBuckets_def intro: exI [of _ "0 :: nat"] split: if_splits)

text \<open>The number of items is that of the map.\<close>

lemma count_items:
  assumes "table lh" "represents key lh m"
  shows "num_items lh = card (dom m)"
proof -
  let ?f = "\<lambda>a. key (dat (lh_heap lh) a)"
  have "inj_on ?f (dom (lh_heap lh))" using assms(1) by (simp add: inj_on_def table_def lh_inv_def lh_items_ok_def)
  moreover have "?f ` dom (lh_heap lh) = dom m"
  proof (rule set_eqI)
    fix k
    have "k \<in> dom m \<longleftrightarrow> (\<exists>d. m k = Some d)" by auto
    then show "k \<in> ?f ` dom (lh_heap lh) \<longleftrightarrow> k \<in> dom m" using assms(2) unfolding represents_def image_iff by metis
  qed
  ultimately have "card (dom m) = card (dom (lh_heap lh))" by (metis card_image)
  then show ?thesis using assms(1) by (simp add: table_def lh_inv_def lh_shape_def)
qed

lemma exec_correct:
  assumes "table lh" "represents key lh m" "Suc (num_items lh) < SIZE_MOD"
  shows "\<exists>x lh' m'. lh_exec e lh = Some (x, lh') \<and> map_exec key e x m = Some m' \<and> table lh' \<and> represents key lh' m' \<and>
    num_items lh' \<le> Suc (num_items lh) \<and> lh_al lh' = lh_al lh \<and> ((\<forall>n s. lh_al lh n s) \<longrightarrow> (\<forall>old. x \<noteq> Inserted False old)) \<and>
    callback_depth lh' = callback_depth lh \<and> changes lh lh'"
proof (cases e)
  case (Insert d)
  from insert_correct [OF assms, of d] obtain ok lh' where
    r: "OPENSSL_lh_insert d lh = Some (ok, m (key d), lh')" "table lh'" "represents key lh' (if ok then m(key d \<mapsto> d) else m)"
      "\<not> ok \<longrightarrow> m (key d) = None \<and> \<not> lh_al lh (lh_calls lh) sizeof_item" "num_items lh' \<le> Suc (num_items lh)"
      "lh_al lh' = lh_al lh" "callback_depth lh' = callback_depth lh" "changes lh lh'" by blast
  then show ?thesis using Insert by auto
next
  case (Delete d)
  from delete_correct [OF assms(1,2), of d] assms(3) obtain lh' where
    r: "OPENSSL_lh_delete d lh = Some (m (key d), lh')" "table lh'" "represents key lh' (m(key d := None))"
      "num_items lh' \<le> num_items lh" "lh_al lh' = lh_al lh" "callback_depth lh' = callback_depth lh" "changes lh lh'" by auto
  then show ?thesis using Delete by auto
next
  case (Retrieve d)
  then show ?thesis using retrieve_correct [OF assms(1,2), of d] assms changes_refl by simp
next
  case Num_items
  then show ?thesis using count_items [OF assms(1,2)] assms changes_refl by (simp add: OPENSSL_lh_num_items_def)
qed

lemma run_correct:
  assumes "table lh" "represents key lh m" "num_items lh + length es < SIZE_MOD"
  shows "\<exists>xs lh' m'. lh_run es lh = Some (xs, lh') \<and> map_run key es xs m = Some m' \<and> table lh' \<and> represents key lh' m' \<and>
    lh_al lh' = lh_al lh \<and> callback_depth lh' = callback_depth lh \<and> ((\<forall>n s. lh_al lh n s) \<longrightarrow> (\<forall>old. Inserted False old \<notin> set xs)) \<and>
    num_items lh' \<le> num_items lh + length es"
  using assms
proof (induction es arbitrary: lh m)
  case (Cons e es)
  have "Suc (num_items lh) < SIZE_MOD" using Cons.prems(3) by simp
  from exec_correct [OF Cons.prems(1,2) this, of e] obtain x lh1 m1 where
    r: "lh_exec e lh = Some (x, lh1)" "map_exec key e x m = Some m1" "table lh1" "represents key lh1 m1"
      "num_items lh1 \<le> Suc (num_items lh)" "lh_al lh1 = lh_al lh" "callback_depth lh1 = callback_depth lh"
      "(\<forall>n s. lh_al lh n s) \<longrightarrow> (\<forall>old. x \<noteq> Inserted False old)" by blast
  have "num_items lh1 + length es < SIZE_MOD" using r(5) Cons.prems(3) by simp
  from Cons.IH [OF r(3,4) this] obtain xs lh' m' where
    q: "lh_run es lh1 = Some (xs, lh')" "map_run key es xs m1 = Some m'" "table lh'" "represents key lh' m'" "lh_al lh' = lh_al lh1"
      "callback_depth lh' = callback_depth lh1" "(\<forall>n s. lh_al lh1 n s) \<longrightarrow> (\<forall>old. Inserted False old \<notin> set xs)"
      "num_items lh' \<le> num_items lh1 + length es" by blast
  show ?case
    by (rule exI [of _ "x # xs"], rule exI [of _ lh'], rule exI [of _ m']) (use r q in auto)
qed auto

end

section \<open>Freeing\<close>

text \<open>The items at some addresses are gone.\<close>

definition erase :: "addr set \<Rightarrow> 'a lhash_st \<Rightarrow> 'a lhash_st" where
  "erase A lh = lh\<lparr>lh_heap := lh_heap lh |` (- A)\<rparr>"

lemma erase_simps [simp]: "lh_heap (erase A lh) = lh_heap lh |` (- A)" "erase {} lh = lh" "erase B (erase A lh) = erase (A \<union> B) lh"
  by (simp_all add: erase_def) (simp_all add: restrict_map_def Int_commute)

lemma erase_one: "lh_heap lh a = Some it \<Longrightarrow> lh_free_item a lh = Some (erase {a} lh)"
  by (simp add: lh_free_item_def erase_def restrict_complement_singleton_eq)

lemma chain_erased: "set as \<inter> A = {} \<Longrightarrow> chain (h |` (- A)) p as \<longleftrightarrow> chain h p as"
  by (rule chain_cong) (auto simp: restrict_map_def)

lemma free_chain_ok: "chain (lh_heap lh) p as \<Longrightarrow> free_chain p lh = Some (erase (set as) lh)"
proof (induction as arbitrary: p lh)
  case Nil
  then show ?case by (simp add: free_chain.simps)
next
  case (Cons a as)
  then obtain it where it: "p = Some a" "lh_heap lh a = Some it" "chain (lh_heap lh) (item_next it) as" by auto
  have "chain (lh_heap (erase {a} lh)) (item_next it) as" using it(3) chain_notin_tl [OF Cons.prems] by (simp add: chain_erased)
  from Cons.IH [OF this] show ?case using it(1,2) erase_one [OF it(2)] by (subst free_chain.simps) simp
qed

lemma free_buckets_ok:
  "list_all2 (chain (lh_heap lh)) ps ass \<Longrightarrow> distinct (concat ass) \<Longrightarrow> free_buckets ps lh = Some (erase (set (concat ass)) lh)"
proof (induction ps arbitrary: ass lh)
  case (Cons p ps)
  then obtain as bss where ass: "ass = as # bss" "chain (lh_heap lh) p as" "list_all2 (chain (lh_heap lh)) ps bss"
    by (auto simp: list_all2_Cons1)
  have "list_all2 (chain (lh_heap (erase (set as) lh))) ps bss"
    by (rule list_all2_chain_cong [OF ass(3)]) (use Cons.prems(2) ass(1) in \<open>auto simp: restrict_map_def\<close>)
  from Cons.IH [OF this] show ?case using free_chain_ok [OF ass(2)] Cons.prems(2) ass(1) by simp
qed simp

lemma free_all:
  assumes "lh_shape lh"
  shows "OPENSSL_lh_free lh = Some (\<lambda>_. None)"
proof -
  have "distributed (num_buckets lh) (lh_heap lh) (buckets lh) (dom (lh_heap lh))" "0 < num_buckets lh"
    using assms shape_pos by (simp_all add: lh_shape_def)
  then obtain ass where ass: "list_all2 (chain (lh_heap lh)) (buckets lh) ass" "distinct (concat ass)" "set (concat ass) = dom (lh_heap lh)"
    by (rule distributed_chains)
  have "lh_heap lh |` (- dom (lh_heap lh)) = (\<lambda>_. None)" by (auto simp: restrict_map_def fun_eq_iff)
  moreover have "length (buckets lh) = num_buckets lh" using assms by (simp add: lh_shape_def distributed_def)
  ultimately show ?thesis using free_buckets_ok [OF ass(1,2)] unfolding ass(3) by (simp add: OPENSSL_lh_free_def)
qed

section \<open>Going through the values\<close>

text \<open>A visitor notes the value, and deletes it from the table when \<open>del\<close> says so.\<close>

definition visitor :: "('a \<Rightarrow> bool) \<Rightarrow> 'a \<Rightarrow> 'a lhash_st \<times> 'a list \<Rightarrow> ('a lhash_st \<times> 'a list) option" where
  "visitor del d st = (if del d then map_option (\<lambda>(_, lh'). (lh', snd st @ [d])) (OPENSSL_lh_delete d (fst st))
     else Some (fst st, snd st @ [d]))"

definition without :: "('a \<Rightarrow> 'k) \<Rightarrow> 'a list \<Rightarrow> ('k \<Rightarrow> 'a option) \<Rightarrow> ('k \<Rightarrow> 'a option)" where
  "without key ds m = m |` (- (key ` set ds))"

lemma without_Nil [simp]: "without key [] m = m"
  by (simp add: without_def restrict_map_def)

lemma without_append: "without key es (without key ds m) = without key (ds @ es) m"
  by (auto simp: without_def restrict_map_def fun_eq_iff)

lemma without_one: "without key [d] m = m(key d := None)"
  by (simp add: without_def restrict_complement_singleton_eq)

context lhash_key
begin

text \<open>While the table is gone through, nothing is resized, and what is still to be visited stays as it is.\<close>

definition visiting :: "nat \<Rightarrow> 'a lhash_st \<Rightarrow> ('k \<Rightarrow> 'a option) \<Rightarrow> bool" where
  "visiting n lh m \<longleftrightarrow> table lh \<and> represents key lh m \<and> num_items lh < SIZE_MOD \<and> num_buckets lh = n \<and> callback_depth lh > 0"

lemma delete_visited:
  assumes v: "visiting n lh m" and c: "chain (lh_heap lh) (Some a) (a # as)"
  shows "\<exists>lh'. OPENSSL_lh_delete (dat (lh_heap lh) a) lh = Some (Some (dat (lh_heap lh) a), lh') \<and>
    visiting n lh' (m(key (dat (lh_heap lh) a) := None)) \<and> chain (lh_heap lh') (head as) as \<and>
    map (dat (lh_heap lh')) as = map (dat (lh_heap lh)) as \<and> callback_depth lh' = callback_depth lh"
proof -
  let ?d = "dat (lh_heap lh) a"
  have t: "table lh" and m: "represents key lh m" and n: "num_items lh < SIZE_MOD" using v by (simp_all add: visiting_def)
  have ad: "a \<in> dom (lh_heap lh)" using c by auto
  from search [OF t, of ?d] obtain i pre post where l: "located lh ?d i pre post" .
  note r = locatedD [OF l]
  have md: "m (key ?d) = Some ?d" using item_with_key [OF t m ad refl] .
  obtain b post' where post: "post = b # post'"
  proof (cases post)
    case Nil
    have "m (key ?d) = None" by (rule no_item_with_key(1) [OF t m]) (use r(2,5,7) Nil in simp)
    then show ?thesis using md by simp
  qed (rule that)
  have "b \<in> dom (lh_heap lh)" using chain_dom [OF r(4)] post by simp
  then have "b = a" using r(8) post ad t by (simp add: table_def lh_inv_def lh_items_ok_def)
  then have l': "located lh ?d i pre (a # post')" and p: "post = a # post'" using l post by simp_all
  have "chain (lh_heap lh) (Some a) (a # post')" using chain_append [of "lh_heap lh" _ pre a post'] r(4) p by simp
  then have as: "post' = as" using chain_unique [OF c] by blast
  obtain h1 nb' lh2 where u: "OPENSSL_lh_delete ?d lh = map_option (\<lambda>lh3. (m (key ?d), lh3)) (lh_maybe_resize lh2)"
    "lh2 = lh\<lparr>buckets := nb', lh_heap := h1(a := None), num_items := num_items lh - 1\<rparr>" "relinked (lh_heap lh) h1" "table lh2"
    "represents key lh2 (m(key ?d := None))" "chain (lh_heap lh2) (nb' ! i) (pre @ post')"
    by (rule unlinks [OF t m l' n]) blast
  have "lh_maybe_resize lh2 = Some lh2" using v u(2) by (simp add: lh_maybe_resize_def visiting_def)
  moreover have "chain (lh_heap lh2) (head as) as"
    using u(6) as chain_append [of "lh_heap lh2" _ pre] by (cases as) auto
  moreover have "map (dat (lh_heap lh2)) as = map (dat (lh_heap lh)) as"
  proof (rule map_cong [OF refl])
    fix x assume x: "x \<in> set as"
    then have "x \<noteq> a" "x \<in> dom (lh_heap lh)" using chain_notin_tl [OF c] chain_dom [OF c] by auto
    then show "dat (lh_heap lh2) x = dat (lh_heap lh) x" using relinked_fields(2) [OF u(3)] u(2) by simp
  qed
  moreover have "num_items lh - 1 < SIZE_MOD" using n by simp
  then have "visiting n lh2 (m(key ?d := None))" "callback_depth lh2 = callback_depth lh" using u(2,4,5) v by (simp_all add: visiting_def)
  ultimately show ?thesis using u(1) md by (intro exI [of _ lh2]) simp
qed

lemma doall_chain_visits:
  assumes "visiting n lh m" "chain (lh_heap lh) p as"
  shows "\<exists>lh'. doall_chain (visitor del) p (lh, s) = Some (lh', s @ map (dat (lh_heap lh)) as) \<and>
    visiting n lh' (without key (filter del (map (dat (lh_heap lh)) as)) m) \<and> callback_depth lh' = callback_depth lh"
  using assms
proof (induction as arbitrary: p lh m s)
  case Nil
  then show ?case by (simp add: doall_chain.simps)
next
  case (Cons a as)
  then obtain it where it: "p = Some a" "lh_heap lh a = Some it" "chain (lh_heap lh) (item_next it) as" by auto
  let ?d = "dat (lh_heap lh) a"
  have d: "item_data it = ?d" using it(2) by simp
  show ?case
  proof (cases "del ?d")
    case True
    from delete_visited [OF Cons.prems(1), of a as] Cons.prems(2) it(1) obtain lh1 where
      r: "OPENSSL_lh_delete ?d lh = Some (Some ?d, lh1)" "visiting n lh1 (m(key ?d := None))" "chain (lh_heap lh1) (head as) as"
        "map (dat (lh_heap lh1)) as = map (dat (lh_heap lh)) as" "callback_depth lh1 = callback_depth lh" by auto
    have nx: "item_next it = head as" using chain_head [OF it(3)] .
    have vis: "visitor del ?d (lh, s) = Some (lh1, s @ [?d])" using r(1) True by (simp add: visitor_def)
    from Cons.IH [OF r(2,3), of "s @ [?d]"] obtain lh' where
      q: "doall_chain (visitor del) (head as) (lh1, s @ [?d]) = Some (lh', s @ ?d # map (dat (lh_heap lh)) as)"
        "visiting n lh' (without key (filter del (map (dat (lh_heap lh)) as)) (m(key ?d := None)))" "callback_depth lh' = callback_depth lh"
      unfolding r(4,5) by (auto simp del: fun_upd_apply)
    have "doall_chain (visitor del) p (lh, s) = doall_chain (visitor del) (head as) (lh1, s @ [?d])"
      using it(1,2) d vis nx by (subst doall_chain.simps) simp
    moreover have "without key (filter del (map (dat (lh_heap lh)) as)) (m(key ?d := None)) = without key (filter del (map (dat (lh_heap lh)) (a # as))) m"
      using True without_append [of key "filter del (map (dat (lh_heap lh)) as)" "[?d]" m] by (simp add: without_one)
    ultimately show ?thesis using q by (intro exI [of _ lh']) simp
  next
    case False
    then have vis: "visitor del ?d (lh, s) = Some (lh, s @ [?d])" by (simp add: visitor_def)
    have "doall_chain (visitor del) p (lh, s) = doall_chain (visitor del) (item_next it) (lh, s @ [?d])"
      using it(1,2) d vis by (subst doall_chain.simps) simp
    then show ?thesis using Cons.IH [OF Cons.prems(1) it(3), of "s @ [?d]"] False by simp
  qed
qed

text \<open>The values of the map whose bucket is before the \<open>i\<close>th.\<close>

definition values_below :: "nat \<Rightarrow> nat \<Rightarrow> ('k \<Rightarrow> 'a option) \<Rightarrow> 'a set" where
  "values_below n i m = {d \<in> ran m. unat (hash d) mod n < i}"

lemma item_values:
  assumes "table lh" "represents key lh m"
  shows "ran m = (\<lambda>a. dat (lh_heap lh) a) ` dom (lh_heap lh)" "inj_on (\<lambda>a. dat (lh_heap lh) a) (dom (lh_heap lh))"
proof -
  show "ran m = (\<lambda>a. dat (lh_heap lh) a) ` dom (lh_heap lh)"
    using assms(2) unfolding ran_def represents_def by auto
  show "inj_on (\<lambda>a. dat (lh_heap lh) a) (dom (lh_heap lh))"
    using assms(1) unfolding inj_on_def table_def lh_inv_def lh_items_ok_def by metis
qed

lemma item_hash_value: "table lh \<Longrightarrow> a \<in> dom (lh_heap lh) \<Longrightarrow> item_hash (the (lh_heap lh a)) = hash (dat (lh_heap lh) a)"
  by (auto simp: table_def lh_inv_def lh_items_ok_def)

lemma ran_without:
  assumes "represents key lh m" "set ds \<subseteq> ran m"
  shows "ran (without key ds m) = ran m - set ds"
proof -
  have k: "m k = Some d \<Longrightarrow> key d = k" for k d using assms(1) by (simp add: represents_def)
  have "d \<in> ran (without key ds m) \<longleftrightarrow> m (key d) = Some d \<and> key d \<notin> key ` set ds" for d
    using k by (auto simp: ran_def without_def restrict_map_def split: if_splits)
  moreover have "d \<in> ran m \<longleftrightarrow> m (key d) = Some d" for d using k by (auto simp: ran_def)
  moreover have "key d \<in> key ` set ds \<longleftrightarrow> d \<in> set ds" if "m (key d) = Some d" for d
  proof -
    have "d \<in> set ds" if im: "key d \<in> key ` set ds"
    proof -
      obtain e where e: "key d = key e" "e \<in> set ds" using im by (rule imageE)
      then obtain k' where "m k' = Some e" using assms(2) unfolding ran_def by blast
      then have "m (key e) = Some e" using k [of k' e] by simp
      then show ?thesis using e \<open>m (key d) = Some d\<close> by (metis option.inject)
    qed
    then show ?thesis by blast
  qed
  ultimately show ?thesis by blast
qed

lemma doall_buckets_visits:
  assumes "visiting n lh (without key (filter del s) m)" "represents key lh0 m" "set s = values_below n i m" "distinct s" "i \<le> n"
  shows "\<exists>lh' ds. doall_buckets (visitor del) i (lh, s) = Some (lh', ds) \<and> visiting n lh' (without key (filter del ds) m) \<and>
    set ds = ran m \<and> distinct ds \<and> callback_depth lh' = callback_depth lh"
  using assms
proof (induction "n - i" arbitrary: i lh s)
  case 0
  then have "i = n" "num_buckets lh = n" by (simp_all add: visiting_def)
  moreover have "0 < n" using 0 inv_pos [of key lh] by (simp add: visiting_def table_def)
  ultimately show ?case using 0 by (subst doall_buckets.simps) (auto simp: values_below_def)
next
  case (Suc j)
  let ?m = "without key (filter del s) m"
  have i: "i < n" and nb: "num_buckets lh = n" and t: "table lh" and m: "represents key lh ?m"
    using Suc.hyps(2) Suc.prems(1) by (simp_all add: visiting_def)
  have dist: "distributed n (lh_heap lh) (buckets lh) (dom (lh_heap lh))" using t nb by (auto simp: table_def lh_inv_def lh_shape_def)
  then obtain as where as: "chain (lh_heap lh) (buckets lh ! i) as" "set as = bucket_items (lh_heap lh) (dom (lh_heap lh)) n i"
    using i by (auto simp: distributed_def)
  let ?ds = "map (dat (lh_heap lh)) as"
  have sub: "set as \<subseteq> dom (lh_heap lh)" using chain_dom [OF as(1)] .
  obtain lh1 where r: "doall_chain (visitor del) (buckets lh ! i) (lh, s) = Some (lh1, s @ ?ds)"
      "visiting n lh1 (without key (filter del ?ds) ?m)" "callback_depth lh1 = callback_depth lh"
    using doall_chain_visits [OF Suc.prems(1) as(1)] by blast
  have rs: "ran ?m = ran m - set (filter del s)"
    using ran_without [OF Suc.prems(2)] Suc.prems(3) by (auto simp: values_below_def)
  have ds: "set ?ds = {d \<in> ran ?m. unat (hash d) mod n = i}"
    using item_values(1) [OF t m] item_hash_value [OF t] as(2) by (force simp: bucket_items_def)
  also have "\<dots> = {d \<in> ran m. unat (hash d) mod n = i}"
    using Suc.prems(3) unfolding rs by (auto simp: values_below_def)
  finally have ds: "set ?ds = {d \<in> ran m. unat (hash d) mod n = i}" .
  have set': "set (s @ ?ds) = values_below n (Suc i) m" using ds Suc.prems(3) by (auto simp: values_below_def less_Suc_eq)
  have dis': "distinct (s @ ?ds)"
    using Suc.prems(3,4) ds chain_distinct [OF as(1)] inj_on_subset [OF item_values(2) [OF t m] sub]
    by (auto simp: distinct_map values_below_def)
  have v': "visiting n lh1 (without key (filter del (s @ ?ds)) m)" using r(2) by (simp add: without_append)
  have j: "j = n - Suc i" "Suc i \<le> n" using Suc.hyps(2) by simp_all
  from Suc.hyps(1) [OF j(1) v' Suc.prems(2) set' dis' j(2)] obtain lh' ds where
    "doall_buckets (visitor del) (Suc i) (lh1, s @ ?ds) = Some (lh', ds)" "visiting n lh' (without key (filter del ds) m)"
      "set ds = ran m" "distinct ds" "callback_depth lh' = callback_depth lh1" by blast
  moreover have "doall_buckets (visitor del) i (lh, s) = doall_buckets (visitor del) (Suc i) (lh1, s @ ?ds)"
    using r(1) i nb dist by (subst doall_buckets.simps) (simp add: distributed_def)
  ultimately show ?case using r(3) by auto
qed

theorem doall_visits:
  assumes t: "table lh" and m: "represents key lh m" and n: "num_items lh < SIZE_MOD"
  shows "\<exists>lh' ds. OPENSSL_lh_doall_arg (visitor del) (lh, []) = Some (lh', ds) \<and> table lh' \<and>
    represents key lh' (without key (filter del ds) m) \<and> set ds = ran m \<and> distinct ds"
proof -
  define up where "up = (if callback_depth lh < 0xffffffff then lh\<lparr>callback_depth := callback_depth lh + 1\<rparr> else lh)"
  have dp: "callback_depth up > 0"
  proof -
    have "c < 0xffffffff \<Longrightarrow> 0 < c + 1" "\<not> c < 0xffffffff \<Longrightarrow> 0 < c" for c :: u32
      by (simp_all add: word_less_nat_alt unat_word_ariths)
    then show ?thesis by (simp add: up_def)
  qed
  have "visiting (num_buckets lh) up m"
    using t m n dp by (auto simp: visiting_def up_def table_def lh_inv_def lh_shape_def lh_items_ok_def represents_def)
  then obtain lh1 ds where r: "doall_buckets (visitor del) 0 (up, []) = Some (lh1, ds)"
      "visiting (num_buckets lh) lh1 (without key (filter del ds) m)" "set ds = ran m" "distinct ds"
    using doall_buckets_visits [of "num_buckets lh" up del "[]" m lh 0] m by (auto simp: values_below_def)
  define dn where "dn = (if callback_depth lh1 < 0xffffffff then lh1\<lparr>callback_depth := callback_depth lh1 - 1\<rparr> else lh1)"
  have "table dn" "represents key dn (without key (filter del ds) m)"
    using r(2) by (auto simp: visiting_def dn_def table_def lh_inv_def lh_shape_def lh_items_ok_def represents_def)
  then obtain lh2 where "lh_maybe_resize dn = Some lh2" "table lh2" "represents key lh2 (without key (filter del ds) m)"
    using resized [of dn] unfolding table_def by metis
  then show ?thesis using r by (auto simp: OPENSSL_lh_doall_arg_def Let_def simp flip: up_def dn_def)
qed

end

section \<open>The load\<close>

text \<open>With all memory granted and nothing being gone through, chains are at most three long on average, and at least one.\<close>

definition balanced :: "'a lhash_st \<Rightarrow> bool" where
  "balanced lh \<longleftrightarrow> num_items lh < 3 * num_buckets lh \<and> (num_buckets lh = kMinNumBuckets \<or> num_buckets lh \<le> num_items lh)"

lemma rebucket_size:
  assumes "lh_inv key lh" "n = kMinNumBuckets * 2 ^ k" "n < 2 ^ 61" "\<forall>c s. lh_al lh c s" "lh_rebucket n lh = Some lh'"
  shows "num_buckets lh' = n \<and> num_items lh' = num_items lh"
proof -
  have "sizeof_ptr * n mod SIZE_MOD = sizeof_ptr * n" using assms(3) by (simp add: sizeof_ptr_def SIZE_MOD_def)
  then have "sizeof_ptr * n mod SIZE_MOD div sizeof_ptr = n" by (simp add: sizeof_ptr_def)
  then show ?thesis using assms(4,5) by (auto simp: lh_rebucket_def Let_def lh_malloc_def split: option.splits prod.splits)
qed

lemma resize_balances:
  assumes inv: "lh_inv key lh" and al: "\<forall>c s. lh_al lh c s" and d: "callback_depth lh = 0" and n: "num_items lh < 2 ^ 60"
    and near: "num_items lh \<le> 3 * num_buckets lh" "num_buckets lh = kMinNumBuckets \<or> num_buckets lh \<le> Suc (num_items lh)"
    and r: "lh_maybe_resize lh = Some lh'"
  shows "balanced lh' \<and> num_items lh' = num_items lh"
proof -
  obtain k where k: "num_buckets lh = kMinNumBuckets * 2 ^ k" using inv by (auto simp: lh_inv_def lh_shape_def)
  have pos: "0 < num_buckets lh" using inv by (rule inv_pos)
  have km: "kMinNumBuckets \<le> num_buckets lh" using k by simp
  consider (full) "num_items lh = 3 * num_buckets lh" | (short) "num_items lh < num_buckets lh" "kMinNumBuckets < num_buckets lh"
    | (fine) "num_items lh < 3 * num_buckets lh" "num_buckets lh \<le> num_items lh \<or> num_buckets lh = kMinNumBuckets"
    using near km by linarith
  then show ?thesis
  proof cases
    case full
    have b: "kMinNumBuckets * 2 ^ Suc k < 2 ^ 61" "num_buckets lh * 2 = kMinNumBuckets * 2 ^ Suc k" using full n k by simp_all
    moreover have "num_buckets lh * 2 mod SIZE_MOD = num_buckets lh * 2" using b by (simp add: SIZE_MOD_def)
    moreover have "num_items lh div num_buckets lh = 3" using full pos by simp
    ultimately have "lh_rebucket (kMinNumBuckets * 2 ^ Suc k) lh = Some lh'"
      using r d pos by (simp add: lh_maybe_resize_def Let_def kMaxAverageChainLength_def ac_simps)
    from rebucket_size [OF inv refl b(1) al this] show ?thesis using full k pos by (auto simp: balanced_def)
  next
    case short
    then obtain j where j: "k = Suc j" using k by (cases k) auto
    have h: "num_buckets lh div 2 = kMinNumBuckets * 2 ^ j" using k j by simp
    have b: "kMinNumBuckets * 2 ^ j < 2 ^ 61" using inv le_less_trans [OF div_le_dividend] unfolding h [symmetric] by (auto simp: lh_inv_def lh_shape_def)
    have "\<not> num_buckets lh div 2 < kMinNumBuckets" unfolding h by simp
    moreover have "num_items lh div num_buckets lh = 0" using short by simp
    ultimately have "lh_rebucket (kMinNumBuckets * 2 ^ j) lh = Some lh'"
      using r d short h by (simp add: lh_maybe_resize_def Let_def kMaxAverageChainLength_def kMinAverageChainLength_def)
    from rebucket_size [OF inv refl b al this] show ?thesis using short near h k j by (auto simp: balanced_def kMinNumBuckets_def)
  next
    case fine
    then have "num_items lh div num_buckets lh < 3" by (simp add: div_less_iff_less_mult pos)
    moreover have "\<not> (num_items lh div num_buckets lh < 1 \<and> kMinNumBuckets < num_buckets lh)"
      using fine pos by (auto simp: div_eq_0_iff)
    ultimately have "lh' = lh" using r by (auto simp: lh_maybe_resize_def Let_def kMaxAverageChainLength_def kMinAverageChainLength_def split: if_splits)
    then show ?thesis using fine by (auto simp: balanced_def)
  qed
qed

context lhash_key
begin

lemma changes_balanced:
  assumes "changes lh lh'" "balanced lh" "\<forall>c s. lh_al lh c s" "callback_depth lh = 0" "Suc (num_items lh) < 2 ^ 60"
  shows "balanced lh'"
  using assms(1) unfolding changes_def
proof (elim disjE conjE)
  assume "resized_from lh (Suc (num_items lh)) lh'"
  then obtain lh1 where r: "lh_inv key lh1" "lh_maybe_resize lh1 = Some lh'" "num_items lh1 = Suc (num_items lh)" "num_buckets lh1 = num_buckets lh"
    "callback_depth lh1 = 0" "lh_al lh1 = lh_al lh" using assms(4) by (auto simp: resized_from_def)
  show ?thesis using resize_balances [OF r(1) _ r(5) _ _ _ r(2)] r(3,4,6) assms by (auto simp: balanced_def)
next
  assume p: "0 < num_items lh" and "resized_from lh (num_items lh - 1) lh'"
  then obtain lh1 where r: "lh_inv key lh1" "lh_maybe_resize lh1 = Some lh'" "num_items lh1 = num_items lh - 1" "num_buckets lh1 = num_buckets lh"
    "callback_depth lh1 = 0" "lh_al lh1 = lh_al lh" using assms(4) by (auto simp: resized_from_def)
  have "num_items lh1 < 2 ^ 60" "num_items lh1 \<le> 3 * num_buckets lh1"
    "num_buckets lh1 = kMinNumBuckets \<or> num_buckets lh1 \<le> Suc (num_items lh1)"
    using r(3,4) p assms(2,5) by (auto simp: balanced_def)
  from resize_balances [OF r(1) _ r(5) this r(2)] show ?thesis using r(6) assms(3) by simp
qed (use assms(2) in \<open>simp add: balanced_def\<close>)

lemma run_balanced:
  assumes "table lh" "represents key lh m" "num_items lh + length es < 2 ^ 60" "lh_run es lh = Some (xs, lh')"
    and "\<forall>c s. lh_al lh c s" "callback_depth lh = 0" "balanced lh"
  shows "balanced lh'"
  using assms
proof (induction es arbitrary: lh m xs)
  case (Cons e es)
  have n: "Suc (num_items lh) < 2 ^ 60" "Suc (num_items lh) < SIZE_MOD" using Cons.prems(3) by (simp_all add: SIZE_MOD_def)
  from exec_correct [OF Cons.prems(1,2) n(2), of e] obtain x lh1 m1 where
    r: "lh_exec e lh = Some (x, lh1)" "table lh1" "represents key lh1 m1" "num_items lh1 \<le> Suc (num_items lh)" "lh_al lh1 = lh_al lh"
      "callback_depth lh1 = callback_depth lh" "changes lh lh1" by blast
  obtain ys where ys: "lh_run es lh1 = Some (ys, lh')" using Cons.prems(4) r(1) by auto
  have "num_items lh1 + length es < 2 ^ 60" using r(4) Cons.prems(3) by simp
  then show ?case
    using Cons.IH [OF r(2,3) _ ys] r changes_balanced [OF r(7) Cons.prems(7,5,6) n(1)] Cons.prems(5,6) by simp
qed simp

end

section \<open>Properties\<close>

text \<open>Numbers under their own value as a table to start from, with two numbers in one bucket.\<close>

definition same_number :: "u32 \<Rightarrow> u32 \<Rightarrow> int" where
  "same_number a b = (if a = b then 0 else 1)"

definition sample_table :: "u32 lhash_st" where
  "sample_table = the (OPENSSL_lh_new (\<lambda>_ _. True) id same_number)"

definition sample_ops :: "u32 lh_op list" where
  "sample_ops = [Insert 3, Insert 19, Delete 3, Insert 4]"

lemma sample_key: "key_ok id same_number id"
  by (simp add: key_ok_def same_number_def)

lemma sample_new: "OPENSSL_lh_new (\<lambda>_ _. True) id same_number = Some sample_table"
  by (simp add: sample_table_def OPENSSL_lh_new_def)

text \<open>
  C13. The hash table is a map.  From a new table on, any sequence of insertions, deletions, lookups and
  counts runs to its end without following a bad pointer, whatever resizing happens on the way, and its
  results are those of a map from keys to values, where only the insertion of a new key may fail, and does
  not when memory is granted; afterwards a lookup finds what the map has.
\<close>

theorem lhash_refines_map:
  assumes "key_ok hash cmp key" and "OPENSSL_lh_new al hash cmp = Some lh" and "length ops < SIZE_MOD"
  shows "\<exists>outs lh' m. lh_run ops lh = Some (outs, lh') \<and> map_run key ops outs Map.empty = Some m \<and>
    (\<forall>d. OPENSSL_lh_retrieve lh' d = Some (m (key d))) \<and> OPENSSL_lh_num_items lh' = card (dom m) \<and>
    ((\<forall>n s. al n s) \<longrightarrow> (\<forall>old. Inserted False old \<notin> set outs))"
proof -
  have loc: "lhash_key hash cmp key" using assms(1) by (simp add: lhash_key_iff)
  note new = lhash_key.new_table [OF loc assms(2)]
  have t: "lhash_key.table hash cmp key lh" and m: "represents key lh Map.empty" and n: "num_items lh + length ops < SIZE_MOD"
    using new assms(3) by simp_all
  from lhash_key.run_correct [OF loc t m n] obtain outs lh' m' where
    r: "lh_run ops lh = Some (outs, lh')" "map_run key ops outs Map.empty = Some m'" "lhash_key.table hash cmp key lh'"
      "represents key lh' m'" "lh_al lh' = lh_al lh" "(\<forall>n s. lh_al lh n s) \<longrightarrow> (\<forall>old. Inserted False old \<notin> set outs)" by blast
  show ?thesis
    by (rule exI [of _ outs], rule exI [of _ lh'], rule exI [of _ m'])
      (use r new lhash_key.retrieve_correct [OF loc r(3,4)] lhash_key.count_items [OF loc r(3,4)] in \<open>simp add: OPENSSL_lh_num_items_def\<close>)
qed

theorem lhash_refines_map_witness:
  "\<exists>outs lh' m. lh_run sample_ops sample_table = Some (outs, lh') \<and> map_run id sample_ops outs Map.empty = Some m \<and>
     (\<forall>d. OPENSSL_lh_retrieve lh' d = Some (m d))"
  using lhash_refines_map [OF sample_key sample_new, of sample_ops] by (simp add: sample_ops_def SIZE_MOD_def) blast

text \<open>
  C14. Going through a table visits every value of it exactly once, also when the visitor deletes the value it
  is called with, for any choice of the values to delete: no item is used after it is freed, nothing is
  resized on the way, and afterwards the table has the values that were not deleted.
\<close>

theorem lhash_doall_visits:
  assumes "key_ok hash cmp key" and "OPENSSL_lh_new al hash cmp = Some lh" and "length ops < SIZE_MOD"
    and "lh_run ops lh = Some (outs, lh1)" and "map_run key ops outs Map.empty = Some m"
  shows "\<exists>lh' ds. OPENSSL_lh_doall_arg (visitor del) (lh1, []) = Some (lh', ds) \<and> distinct ds \<and> set ds = ran m \<and>
    (\<forall>d. OPENSSL_lh_retrieve lh' d = Some (without key (filter del ds) m (key d)))"
proof -
  have loc: "lhash_key hash cmp key" using assms(1) by (simp add: lhash_key_iff)
  note new = lhash_key.new_table [OF loc assms(2)]
  have t: "lhash_key.table hash cmp key lh" and r0: "represents key lh Map.empty" and n: "num_items lh + length ops < SIZE_MOD"
    using new assms(3) by simp_all
  from lhash_key.run_correct [OF loc t r0 n] assms(4,5) have
    r: "lhash_key.table hash cmp key lh1" "represents key lh1 m" "num_items lh1 \<le> num_items lh + length ops" by auto
  have "num_items lh1 < SIZE_MOD" using r(3) n by simp
  from lhash_key.doall_visits [OF loc r(1,2) this, of del] obtain lh' ds where
    q: "OPENSSL_lh_doall_arg (visitor del) (lh1, []) = Some (lh', ds)" "lhash_key.table hash cmp key lh'"
      "represents key lh' (without key (filter del ds) m)" "set ds = ran m" "distinct ds" by blast
  show ?thesis
    by (rule exI [of _ lh'], rule exI [of _ ds]) (use q lhash_key.retrieve_correct [OF loc q(2,3)] in simp)
qed

lemma sample_run:
  obtains outs lh1 m where "lh_run sample_ops sample_table = Some (outs, lh1)" "map_run id sample_ops outs Map.empty = Some m"
proof -
  have loc: "lhash_key id same_number id" using sample_key by (simp add: lhash_key_iff)
  have "length sample_ops < SIZE_MOD" by (simp add: sample_ops_def SIZE_MOD_def)
  then show ?thesis
    using lhash_key.run_correct [OF loc, of sample_table Map.empty sample_ops] lhash_key.new_table [OF loc sample_new] that by auto
qed

theorem lhash_doall_visits_witness:
  "\<exists>outs lh1 m lh' ds. lh_run sample_ops sample_table = Some (outs, lh1) \<and> map_run id sample_ops outs Map.empty = Some m \<and>
     OPENSSL_lh_doall_arg (visitor (\<lambda>d. d = 19)) (lh1, []) = Some (lh', ds) \<and> distinct ds \<and> set ds = ran m"
proof -
  obtain outs lh1 m where r: "lh_run sample_ops sample_table = Some (outs, lh1)" "map_run id sample_ops outs Map.empty = Some m"
    by (rule sample_run)
  have "length sample_ops < SIZE_MOD" by (simp add: sample_ops_def SIZE_MOD_def)
  from lhash_doall_visits [OF sample_key sample_new this r, of "\<lambda>d. d = 19"] show ?thesis using r by blast
qed

text \<open>
  Freeing is complete and safe: after any sequence of operations \<^verbatim>\<open>OPENSSL_lh_free\<close> frees every item
  exactly once, and no item is left.
\<close>

theorem lhash_free_releases:
  assumes "key_ok hash cmp key" and "OPENSSL_lh_new al hash cmp = Some lh" and "length ops < SIZE_MOD"
    and "lh_run ops lh = Some (outs, lh1)"
  shows "OPENSSL_lh_free lh1 = Some (\<lambda>_. None)"
proof -
  have loc: "lhash_key hash cmp key" using assms(1) by (simp add: lhash_key_iff)
  note new = lhash_key.new_table [OF loc assms(2)]
  have t: "lhash_key.table hash cmp key lh" and r0: "represents key lh Map.empty" and n: "num_items lh + length ops < SIZE_MOD"
    using new assms(3) by simp_all
  from lhash_key.run_correct [OF loc t r0 n] assms(4) have "lhash_key.table hash cmp key lh1" by auto
  then show ?thesis using free_all [of lh1] lhash_key.table_def [OF loc] by (simp add: lh_inv_def)
qed

theorem lhash_free_releases_witness:
  "\<exists>outs lh1. lh_run sample_ops sample_table = Some (outs, lh1) \<and> OPENSSL_lh_free lh1 = Some (\<lambda>_. None)"
proof -
  have len: "length sample_ops < SIZE_MOD" by (simp add: sample_ops_def SIZE_MOD_def)
  obtain outs lh1 m where "lh_run sample_ops sample_table = Some (outs, lh1)" "map_run id sample_ops outs Map.empty = Some m"
    by (rule sample_run)
  then show ?thesis using lhash_free_releases [OF sample_key sample_new len] by blast
qed

text \<open>
  C19. The load stays bounded: while memory is granted, after any sequence of operations the average chain
  is shorter than three items, and an array larger than the least one has at least one item per bucket.
\<close>

theorem lhash_load_bounded:
  assumes "key_ok hash cmp key" and "OPENSSL_lh_new al hash cmp = Some lh" and "length ops < 2 ^ 60" and "\<forall>n s. al n s"
    and "lh_run ops lh = Some (outs, lh1)"
  shows "num_items lh1 < 3 * num_buckets lh1 \<and> (num_buckets lh1 = kMinNumBuckets \<or> num_buckets lh1 \<le> num_items lh1)"
proof -
  have loc: "lhash_key hash cmp key" using assms(1) by (simp add: lhash_key_iff)
  note new = lhash_key.new_table [OF loc assms(2)]
  have "balanced lh" using new by (simp add: balanced_def kMinNumBuckets_def)
  then have "balanced lh1"
    using lhash_key.run_balanced [OF loc, of lh Map.empty ops outs lh1] new assms(3-) by simp
  then show ?thesis by (simp add: balanced_def)
qed

theorem lhash_load_bounded_witness:
  "\<exists>outs lh1. lh_run sample_ops sample_table = Some (outs, lh1) \<and> num_items lh1 < 3 * num_buckets lh1"
proof -
  obtain outs lh1 m where r: "lh_run sample_ops sample_table = Some (outs, lh1)" "map_run id sample_ops outs Map.empty = Some m"
    by (rule sample_run)
  have "length sample_ops < 2 ^ 60" by (simp add: sample_ops_def)
  from lhash_load_bounded [OF sample_key sample_new this _ r(1)] show ?thesis using r(1) by blast
qed

end
