(* ===== verification/Conf.thy ===== *)
theory Conf
  imports MemBio LhashProps StackProps
begin

text \<open>
  The configuration store (\<^verbatim>\<open>crypto/conf/conf.c\<close>): two hash tables, of the sections by their names and of the
  values by section and name, and with every section a stack of pointers to the values in it.  The tables
  own the sections and the values, the stacks do not.
\<close>

section \<open>Sections and values\<close>

text \<open>
  A \<^verbatim>\<open>CONF_SECTION\<close> and a \<^verbatim>\<open>CONF_VALUE\<close>, with the address of each.  A string that is still null in a value
  under construction is the empty one here.
\<close>

record csection =
  sec_addr :: nat
  sec_name :: "byte list"

record cvalue =
  cv_addr :: nat
  cv_section :: "byte list"
  cv_name :: "byte list"
  cv_value :: "byte list"

definition conf_section_hash :: "csection \<Rightarrow> u32" where
  "conf_section_hash s = OPENSSL_strhash (sec_name s)"

definition conf_section_cmp :: "csection \<Rightarrow> csection \<Rightarrow> int" where
  "conf_section_cmp a b = strcmp (sec_name a) (sec_name b)"

definition conf_value_hash :: "cvalue \<Rightarrow> u32" where
  "conf_value_hash v =
     (let section_hash = OPENSSL_strhash (cv_section v); name_hash = OPENSSL_strhash (cv_name v)
      in push_bit 2 section_hash XOR name_hash)"

definition conf_value_cmp :: "cvalue \<Rightarrow> cvalue \<Rightarrow> int" where
  "conf_value_cmp a b =
     (let cmp = strcmp (cv_section a) (cv_section b)
      in if cmp \<noteq> 0 then cmp else strcmp (cv_name a) (cv_name b))"

type_synonym value_key = "byte list \<times> byte list"

abbreviation value_key :: "cvalue \<Rightarrow> value_key" where
  "value_key v \<equiv> (cv_section v, cv_name v)"

interpretation sections: lhash_key conf_section_hash conf_section_cmp sec_name
  by unfold_locales (simp_all add: conf_section_cmp_def conf_section_hash_def strcmp_eq_0)

interpretation cvalues: lhash_key conf_value_hash conf_value_cmp value_key
  by unfold_locales (auto simp: conf_value_cmp_def conf_value_hash_def strcmp_eq_0 Let_def)

section \<open>Memory requests\<close>

text \<open>
  An allocator answers the requests of one call by their size.  A file is read by many calls, and every
  one of them may get another answer for the same size.  So the model of the memory has an allocator for every
  path in the tree of the calls: \<open>al [i]\<close> is the one of the \<open>i\<close>th call made, and \<open>sub i al\<close> the memory of the calls
  which that call makes in its turn.
\<close>

type_synonym memory = "nat list \<Rightarrow> allocator"

definition sub :: "nat \<Rightarrow> memory \<Rightarrow> memory" where
  "sub i al = (\<lambda>p. al (i # p))"

lemma sub_apply: "sub i al p = al (i # p)"
  by (simp add: sub_def)

section \<open>The store\<close>

text \<open>
  Besides the two tables: the stack of the section at an address, the values that are allocated, and the
  next address to be given out.
\<close>

record conf_st =
  c_values :: "cvalue lhash_st"
  c_sections :: "csection lhash_st"
  c_stacks :: "nat \<Rightarrow> (nat, unit) stack_st option"
  c_live :: "nat \<Rightarrow> cvalue option"
  c_next :: nat

definition CONF_SIZE :: nat where "CONF_SIZE = 16"
definition CONF_SECTION_SIZE :: nat where "CONF_SECTION_SIZE = 16"
definition CONF_VALUE_SIZE :: nat where "CONF_VALUE_SIZE = 24"

definition kDefaultSectionName :: "byte list" where
  "kDefaultSectionName = [100, 101, 102, 97, 117, 108, 116]"

text \<open>
  \<open>als\<close> and \<open>alv\<close> are the allocators of the two tables.  A table that could be made is freed again when the
  other could not.
\<close>

definition NCONF_new :: "allocator \<Rightarrow> (nat \<Rightarrow> allocator) \<Rightarrow> (nat \<Rightarrow> allocator) \<Rightarrow> bool \<Rightarrow> conf_st option" where
  "NCONF_new al als alv method_is_null =
     (if \<not> method_is_null then None
      else if \<not> al CONF_SIZE then None
      else (case (OPENSSL_lh_new als conf_section_hash conf_section_cmp, OPENSSL_lh_new alv conf_value_hash conf_value_cmp) of
          (Some s, Some v) \<Rightarrow> Some \<lparr>c_values = v, c_sections = s, c_stacks = (\<lambda>_. None), c_live = (\<lambda>_. None), c_next = 0\<rparr>
        | _ \<Rightarrow> None))"

text \<open>
  The operations that can use freed memory are \<^verbatim>\<open>None\<close> when they do.  Freeing a section frees its stack too.
\<close>

definition CONF_VALUE_new :: "allocator \<Rightarrow> conf_st \<Rightarrow> (cvalue \<times> conf_st) option" where
  "CONF_VALUE_new al conf =
     (if \<not> al CONF_VALUE_SIZE then None
      else let v = \<lparr>cv_addr = c_next conf, cv_section = [], cv_name = [], cv_value = []\<rparr>
        in Some (v, conf\<lparr>c_live := (c_live conf)(c_next conf \<mapsto> v), c_next := Suc (c_next conf)\<rparr>))"

definition value_free :: "cvalue \<Rightarrow> conf_st \<Rightarrow> conf_st option" where
  "value_free v conf = (case c_live conf (cv_addr v) of
     None \<Rightarrow> None
   | Some _ \<Rightarrow> Some (conf\<lparr>c_live := (c_live conf)(cv_addr v := None)\<rparr>))"

definition section_free :: "csection \<Rightarrow> conf_st \<Rightarrow> conf_st option" where
  "section_free s conf = (case c_stacks conf (sec_addr s) of
     None \<Rightarrow> None
   | Some _ \<Rightarrow> Some (conf\<lparr>c_stacks := (c_stacks conf)(sec_addr s := None)\<rparr>))"

definition value_free_arg :: "cvalue \<Rightarrow> 'a \<times> conf_st \<Rightarrow> ('a \<times> conf_st) option" where
  "value_free_arg v st = map_option (\<lambda>c. (fst st, c)) (value_free v (snd st))"

definition section_free_arg :: "csection \<Rightarrow> 'a \<times> conf_st \<Rightarrow> ('a \<times> conf_st) option" where
  "section_free_arg s st = map_option (\<lambda>c. (fst st, c)) (section_free s (snd st))"

text \<open>\<^verbatim>\<open>NCONF_free\<close>; the result is what is left: the stacks, the values and the items of the two tables.\<close>

definition NCONF_free :: "conf_st \<Rightarrow> ((nat \<Rightarrow> (nat, unit) stack_st option) \<times> (nat \<Rightarrow> cvalue option) \<times> csection heap \<times> cvalue heap) option" where
  "NCONF_free conf = (case OPENSSL_lh_doall_arg section_free_arg (c_sections conf, conf) of
     None \<Rightarrow> None
   | Some (ls, conf1) \<Rightarrow> (case OPENSSL_lh_free ls of
       None \<Rightarrow> None
     | Some hs \<Rightarrow> (case OPENSSL_lh_doall_arg value_free_arg (c_values conf1, conf1) of
         None \<Rightarrow> None
       | Some (lv, conf2) \<Rightarrow> map_option (\<lambda>hv. (c_stacks conf2, c_live conf2, hs, hv)) (OPENSSL_lh_free lv))))"

definition NCONF_new_section :: "memory \<Rightarrow> byte list \<Rightarrow> conf_st \<Rightarrow> (csection option \<times> conf_st) option" where
  "NCONF_new_section al name conf =
     (if \<not> al [0] CONF_SECTION_SIZE then Some (None, conf)
      else (case (OPENSSL_strdup (al [1]) name, OPENSSL_sk_new_null (al [2])) of
          (Some nm, Some sk) \<Rightarrow>
            let s = \<lparr>sec_addr = c_next conf, sec_name = nm\<rparr>;
                conf = conf\<lparr>c_stacks := (c_stacks conf)(c_next conf \<mapsto> sk), c_next := Suc (c_next conf)\<rparr>
            in (case OPENSSL_lh_insert s (c_sections conf) of
                None \<Rightarrow> None
              | Some (False, _, lh) \<Rightarrow> map_option (\<lambda>c. (None, c)) (section_free s (conf\<lparr>c_sections := lh\<rparr>))
              | Some (True, old, lh) \<Rightarrow>
                  let conf = conf\<lparr>c_sections := lh\<rparr>
                  in (case old of
                      None \<Rightarrow> Some (Some s, conf)
                    | Some o1 \<Rightarrow> map_option (\<lambda>c. (Some s, c)) (section_free o1 conf)))
        | _ \<Rightarrow> Some (None, conf)))"

section \<open>Lookup\<close>

definition get_section :: "conf_st \<Rightarrow> byte list \<Rightarrow> csection option option" where
  "get_section conf section = OPENSSL_lh_retrieve (c_sections conf) \<lparr>sec_addr = 0, sec_name = section\<rparr>"

text \<open>
  \<^verbatim>\<open>NCONF_get_section\<close> passes its section on as it is, so a null pointer is hashed: the \<open>None\<close> of a read at a
  null pointer.  \<^verbatim>\<open>NCONF_get_string\<close> turns a null section into the default one.  The results are the
  pointers on the section's stack, and the string of the value.
\<close>

definition NCONF_get_section :: "conf_st \<Rightarrow> byte list option \<Rightarrow> nat ptr list option option" where
  "NCONF_get_section conf section = (case section of
     None \<Rightarrow> None
   | Some nm \<Rightarrow> (case get_section conf nm of
       None \<Rightarrow> None
     | Some None \<Rightarrow> Some None
     | Some (Some s) \<Rightarrow> (case c_stacks conf (sec_addr s) of None \<Rightarrow> None | Some sk \<Rightarrow> Some (Some (sk_list sk)))))"

definition NCONF_get_string :: "conf_st \<Rightarrow> byte list option \<Rightarrow> byte list \<Rightarrow> byte list option option" where
  "NCONF_get_string conf section name =
     (let section = (case section of None \<Rightarrow> kDefaultSectionName | Some s \<Rightarrow> s)
      in map_option (map_option cv_value)
           (OPENSSL_lh_retrieve (c_values conf) \<lparr>cv_addr = 0, cv_section = section, cv_name = name, cv_value = []\<rparr>))"

section \<open>Adding a value\<close>

definition add_string :: "memory \<Rightarrow> csection \<Rightarrow> cvalue \<Rightarrow> conf_st \<Rightarrow> (bool \<times> conf_st) option" where
  "add_string al section val conf = (case OPENSSL_strdup (al [0]) (sec_name section) of
     None \<Rightarrow> Some (False, conf)
   | Some nm \<Rightarrow>
       let val = val\<lparr>cv_section := nm\<rparr>;
           conf = conf\<lparr>c_live := (c_live conf)(cv_addr val \<mapsto> val)\<rparr>
       in (case c_stacks conf (sec_addr section) of
           None \<Rightarrow> None
         | Some sk \<Rightarrow> (case OPENSSL_sk_push (al [1]) sk (Some (cv_addr val)) of
             (_, None) \<Rightarrow> None
           | (n, Some sk) \<Rightarrow>
               let conf = conf\<lparr>c_stacks := (c_stacks conf)(sec_addr section \<mapsto> sk)\<rparr>
               in if n = 0 then Some (False, conf)
                  else (case OPENSSL_lh_insert val (c_values conf) of
                      None \<Rightarrow> None
                    | Some (False, _, lh) \<Rightarrow>
                        Some (False, conf\<lparr>c_stacks := (c_stacks conf)(sec_addr section := snd (OPENSSL_sk_pop (Some sk))), c_values := lh\<rparr>)
                    | Some (True, None, lh) \<Rightarrow> Some (True, conf\<lparr>c_values := lh\<rparr>)
                    | Some (True, Some old, lh) \<Rightarrow> map_option (\<lambda>c. (True, c))
                        (value_free old (conf\<lparr>c_stacks := (c_stacks conf)(sec_addr section :=
                           snd (OPENSSL_sk_delete_ptr (Some sk) (Some (cv_addr old)))), c_values := lh\<rparr>))))))"

end
