(* ===== verification/ConfInv.thy ===== *)
theory ConfInv
  imports Conf
begin

text \<open>
  The invariant of the configuration store: what the tables own is allocated and nothing else is, and every
  pointer on a section's stack is that of a value of the section in the table.  Its operations are shown to
  keep it and to do what they should on the meaning of the store, values by section and name, and for every
  section its entries in order.
\<close>

section \<open>The invariant\<close>

text \<open>\<open>X\<close> is the set of values under construction: they are allocated and not yet in the table.\<close>

definition stack_ok :: "(nat \<Rightarrow> cvalue option) \<Rightarrow> (value_key \<Rightarrow> cvalue option) \<Rightarrow> csection \<Rightarrow> (nat, unit) stack_st \<Rightarrow> bool" where
  "stack_ok live vm s sk \<longleftrightarrow> sk_ok sk \<and> distinct (sk_list sk) \<and>
     (\<forall>p \<in> set (sk_list sk). \<exists>v \<in> ran vm. p = Some (cv_addr v) \<and> cv_section v = sec_name s)"

definition sections_ok :: "conf_st \<Rightarrow> (byte list \<Rightarrow> csection option) \<Rightarrow> (value_key \<Rightarrow> cvalue option) \<Rightarrow> bool" where
  "sections_ok conf sm vm \<longleftrightarrow> sections.table (c_sections conf) \<and> represents sec_name (c_sections conf) sm \<and>
     inj_on sec_addr (ran sm) \<and> dom (c_stacks conf) = sec_addr ` ran sm \<and> dom (c_stacks conf) \<subseteq> {..< c_next conf} \<and>
     (\<forall>s \<in> ran sm. \<forall>sk. c_stacks conf (sec_addr s) = Some sk \<longrightarrow> stack_ok (c_live conf) vm s sk)"

definition values_ok :: "nat set \<Rightarrow> conf_st \<Rightarrow> (value_key \<Rightarrow> cvalue option) \<Rightarrow> bool" where
  "values_ok X conf vm \<longleftrightarrow> cvalues.table (c_values conf) \<and> represents value_key (c_values conf) vm \<and>
     (\<forall>v \<in> ran vm. c_live conf (cv_addr v) = Some v) \<and> dom (c_live conf) = cv_addr ` ran vm \<union> X \<and>
     X \<inter> cv_addr ` ran vm = {} \<and> dom (c_live conf) \<subseteq> {..< c_next conf}"

definition conf_ok :: "nat set \<Rightarrow> conf_st \<Rightarrow> (byte list \<Rightarrow> csection option) \<Rightarrow> (value_key \<Rightarrow> cvalue option) \<Rightarrow> bool" where
  "conf_ok X conf sm vm \<longleftrightarrow> sections_ok conf sm vm \<and> values_ok X conf vm"

lemma sections_okD:
  assumes "sections_ok conf sm vm"
  shows "sections.table (c_sections conf)" "represents sec_name (c_sections conf) sm" "inj_on sec_addr (ran sm)"
    "dom (c_stacks conf) = sec_addr ` ran sm" "dom (c_stacks conf) \<subseteq> {..< c_next conf}"
    "\<And>s sk. s \<in> ran sm \<Longrightarrow> c_stacks conf (sec_addr s) = Some sk \<Longrightarrow> stack_ok (c_live conf) vm s sk"
  using assms unfolding sections_ok_def by blast+

lemma values_okD:
  assumes "values_ok X conf vm"
  shows "cvalues.table (c_values conf)" "represents value_key (c_values conf) vm"
    "\<And>v. v \<in> ran vm \<Longrightarrow> c_live conf (cv_addr v) = Some v" "dom (c_live conf) = cv_addr ` ran vm \<union> X"
    "X \<inter> cv_addr ` ran vm = {}" "dom (c_live conf) \<subseteq> {..< c_next conf}"
  using assms unfolding values_ok_def by blast+

lemma represents_ran: "represents key lh m \<Longrightarrow> m k = Some d \<longleftrightarrow> d \<in> ran m \<and> key d = k"
  unfolding represents_def ran_def by blast

lemma ran_upd_key:
  assumes "represents key lh m"
  shows "ran (m(key d \<mapsto> d)) = insert d (ran m - {e. m (key d) = Some e})"
proof (rule set_eqI)
  fix x
  have "x \<in> ran (m(key d \<mapsto> d)) \<longleftrightarrow> x = d \<or> (\<exists>a. a \<noteq> key d \<and> m a = Some x)" by (auto simp: ran_def)
  then show "x \<in> ran (m(key d \<mapsto> d)) \<longleftrightarrow> x \<in> insert d (ran m - {e. m (key d) = Some e})"
    unfolding represents_ran [OF assms] by auto
qed

text \<open>An item's key is fixed by its address, so the tables are no larger than the addresses given out.\<close>

lemma card_ran_bound:
  assumes "represents key lh m" "inj_on f (ran m)" "f ` ran m \<subseteq> {..< n :: nat}"
  shows "card (dom m) \<le> n"
proof -
  have fin: "finite (ran m)" using assms(2,3) finite_imageD finite_subset finite_lessThan by metis
  have "dom m \<subseteq> key ` ran m"
  proof
    fix k assume "k \<in> dom m"
    then obtain d where "m k = Some d" by auto
    then show "k \<in> key ` ran m" unfolding represents_ran [OF assms(1)] by auto
  qed
  then have "card (dom m) \<le> card (key ` ran m)" using fin by (simp add: card_mono)
  also have "\<dots> \<le> card (ran m)" using fin by (rule card_image_le)
  also have "\<dots> = card (f ` ran m)" using assms(2) by (simp add: card_image)
  also have "\<dots> \<le> n" using card_mono [OF finite_lessThan assms(3)] by simp
  finally show ?thesis .
qed

lemma section_bound: "sections_ok conf sm vm \<Longrightarrow> num_items (c_sections conf) \<le> c_next conf"
proof -
  assume ok: "sections_ok conf sm vm"
  note s = sections_okD [OF ok]
  have "sec_addr ` ran sm \<subseteq> {..< c_next conf}" using s(4,5) by simp
  from card_ran_bound [OF s(2,3) this] show ?thesis using sections.count_items [OF s(1,2)] by simp
qed

lemma value_addr_inj: "values_ok X conf vm \<Longrightarrow> inj_on cv_addr (ran vm)"
  using values_okD(3) by (metis inj_onI option.inject)

lemma value_bound: "values_ok X conf vm \<Longrightarrow> num_items (c_values conf) \<le> c_next conf"
proof -
  assume ok: "values_ok X conf vm"
  note v = values_okD [OF ok]
  have "cv_addr ` ran vm \<subseteq> {..< c_next conf}" using v(4,6) by blast
  from card_ran_bound [OF v(2) value_addr_inj [OF ok] this] show ?thesis using cvalues.count_items [OF v(1,2)] by simp
qed

section \<open>What a store means\<close>

text \<open>The string under a section and a name, and the names and strings of a section in order.\<close>

definition val_at :: "(value_key \<Rightarrow> cvalue option) \<Rightarrow> value_key \<Rightarrow> byte list option" where
  "val_at vm k = map_option cv_value (vm k)"

definition entry :: "conf_st \<Rightarrow> nat ptr \<Rightarrow> byte list \<times> byte list" where
  "entry conf p = (let v = the (c_live conf (the p)) in (cv_name v, cv_value v))"

definition entries :: "conf_st \<Rightarrow> csection \<Rightarrow> (byte list \<times> byte list) list" where
  "entries conf s = map (entry conf) (sk_list (the (c_stacks conf (sec_addr s))))"

definition secs_at :: "conf_st \<Rightarrow> (byte list \<Rightarrow> csection option) \<Rightarrow> byte list \<Rightarrow> (byte list \<times> byte list) list option" where
  "secs_at conf sm nm = map_option (entries conf) (sm nm)"

lemma stack_okD:
  assumes "stack_ok live vm s sk"
  shows "sk_ok sk" "distinct (sk_list sk)" "\<And>p. p \<in> set (sk_list sk) \<Longrightarrow> \<exists>v \<in> ran vm. p = Some (cv_addr v) \<and> cv_section v = sec_name s"
  using assms unfolding stack_ok_def by blast+

lemma section_stack:
  assumes "sections_ok conf sm vm" "s \<in> ran sm"
  obtains sk where "c_stacks conf (sec_addr s) = Some sk" "stack_ok (c_live conf) vm s sk"
proof -
  have "sec_addr s \<in> dom (c_stacks conf)" using sections_okD(4) [OF assms(1)] assms(2) by simp
  then show ?thesis using that sections_okD(6) [OF assms(1,2)] by auto
qed

lemma entries_cong:
  assumes "sections_ok conf sm vm" "s \<in> ran sm" "c_stacks c' (sec_addr s) = c_stacks conf (sec_addr s)"
    "\<And>u. u \<in> ran vm \<Longrightarrow> c_live c' (cv_addr u) = c_live conf (cv_addr u)"
  shows "entries c' s = entries conf s"
proof -
  obtain sk where sk: "c_stacks conf (sec_addr s) = Some sk" "stack_ok (c_live conf) vm s sk" by (rule section_stack [OF assms(1,2)])
  have "entry c' p = entry conf p" if p: "p \<in> set (sk_list sk)" for p
  proof -
    obtain u where "u \<in> ran vm" "p = Some (cv_addr u)" using stack_okD(3) [OF sk(2) p] by blast
    then show ?thesis using assms(4) [of u] by (simp add: entry_def)
  qed
  then show ?thesis using sk assms(3) by (simp add: entries_def)
qed

lemma secs_at_cong:
  assumes "\<And>s. s \<in> ran sm \<Longrightarrow> entries c' s = entries conf s"
  shows "secs_at c' sm = secs_at conf sm"
proof
  fix nm
  show "secs_at c' sm nm = secs_at conf sm nm"
  proof (cases "sm nm")
    case (Some s)
    then have "s \<in> ran sm" by (rule ranI)
    then show ?thesis using assms [of s] Some by (simp add: secs_at_def)
  qed (simp add: secs_at_def)
qed

lemma get_string_val:
  assumes "conf_ok X conf sm vm"
  shows "NCONF_get_string conf section name = Some (val_at vm (case section of None \<Rightarrow> kDefaultSectionName | Some s \<Rightarrow> s, name))"
proof -
  note v = values_okD [of X conf vm]
  show ?thesis using assms cvalues.retrieve_correct [OF v(1,2)]
    by (simp add: NCONF_get_string_def conf_ok_def Let_def val_at_def)
qed

lemma get_section_found: "conf_ok X conf sm vm \<Longrightarrow> get_section conf nm = Some (sm nm)"
  using sections.retrieve_correct [OF sections_okD(1,2)] by (auto simp: get_section_def conf_ok_def)

lemma get_section_entries:
  assumes "conf_ok X conf sm vm"
  shows "map_option (map_option (map (entry conf))) (NCONF_get_section conf (Some nm)) = Some (secs_at conf sm nm)"
proof (cases "sm nm")
  case None
  then show ?thesis using get_section_found [OF assms] by (simp add: NCONF_get_section_def secs_at_def)
next
  case (Some s)
  note d = sections_okD [of conf sm vm]
  have "s \<in> ran sm" using Some by (auto simp: ran_def)
  then have "sec_addr s \<in> dom (c_stacks conf)" using d(4) assms by (auto simp: conf_ok_def)
  then show ?thesis using Some get_section_found [OF assms] by (auto simp: NCONF_get_section_def secs_at_def entries_def)
qed

section \<open>Operations\<close>

lemma new_ok:
  assumes "NCONF_new al als alv mn = Some conf"
  shows "conf_ok {} conf Map.empty Map.empty \<and> c_next conf = 0"
proof -
  obtain ls lv where n: "OPENSSL_lh_new als conf_section_hash conf_section_cmp = Some ls"
      "OPENSSL_lh_new alv conf_value_hash conf_value_cmp = Some lv"
    and c: "conf = \<lparr>c_values = lv, c_sections = ls, c_stacks = (\<lambda>_. None), c_live = (\<lambda>_. None), c_next = 0\<rparr>"
    using assms by (auto simp: NCONF_new_def split: if_splits option.splits)
  show ?thesis using sections.new_table [OF n(1)] cvalues.new_table [OF n(2)]
    by (simp add: conf_ok_def sections_ok_def values_ok_def c)
qed

lemma value_new_ok:
  assumes "conf_ok X conf sm vm" "CONF_VALUE_new al conf = Some (v, conf')"
  shows "conf_ok (insert (cv_addr v) X) conf' sm vm \<and> cv_addr v \<notin> X \<and> c_next conf' = Suc (c_next conf) \<and> secs_at conf' sm = secs_at conf sm"
proof -
  have v: "v = \<lparr>cv_addr = c_next conf, cv_section = [], cv_name = [], cv_value = []\<rparr>"
    and c: "conf' = conf\<lparr>c_live := (c_live conf)(c_next conf \<mapsto> v), c_next := Suc (c_next conf)\<rparr>"
    using assms(2) by (auto simp: CONF_VALUE_new_def Let_def split: if_splits)
  have s: "sections_ok conf sm vm" and w: "values_ok X conf vm" using assms(1) by (simp_all add: conf_ok_def)
  note d = sections_okD [OF s] and e = values_okD [OF w]
  have new: "c_next conf \<notin> dom (c_live conf)" using e(6) by auto
  have "sections_ok conf' sm vm"
    unfolding sections_ok_def c using d by (auto simp: stack_ok_def)
  moreover have "values_ok (insert (cv_addr v) X) conf' vm"
    unfolding values_ok_def c v using e new by (auto simp: domI)
  moreover have "secs_at conf' sm = secs_at conf sm"
  proof (rule secs_at_cong, rule entries_cong [OF s])
    fix s u assume "u \<in> ran vm"
    then show "c_live conf' (cv_addr u) = c_live conf (cv_addr u)" using e(3) [of u] new by (auto simp: c)
  qed (simp_all add: c)
  moreover have "cv_addr v \<notin> X" using new e(4) v by auto
  ultimately show ?thesis by (simp add: conf_ok_def c)
qed

text \<open>What happens to values under construction does not change what the store means.\<close>

lemma live_outside:
  assumes "conf_ok X conf sm vm" "X' \<subseteq> X" "\<And>a. a \<notin> X \<Longrightarrow> live a = c_live conf a" "X' = X \<inter> dom live"
  shows "conf_ok X' (conf\<lparr>c_live := live\<rparr>) sm vm \<and> secs_at (conf\<lparr>c_live := live\<rparr>) sm = secs_at conf sm"
proof -
  let ?c = "conf\<lparr>c_live := live\<rparr>"
  have s: "sections_ok conf sm vm" and w: "values_ok X conf vm" using assms(1) by (simp_all add: conf_ok_def)
  note d = sections_okD [OF s] and e = values_okD [OF w]
  have out: "cv_addr u \<notin> X" "live (cv_addr u) = Some u" if "u \<in> ran vm" for u
    using e(3,5) assms(3) [of "cv_addr u"] that by auto
  have "sections_ok ?c sm vm" unfolding sections_ok_def using d by (auto simp: stack_ok_def)
  moreover have "dom live = cv_addr ` ran vm \<union> X'"
  proof (rule set_eqI)
    fix a
    show "a \<in> dom live \<longleftrightarrow> a \<in> cv_addr ` ran vm \<union> X'"
    proof (cases "a \<in> X")
      case True
      then show ?thesis using e(5) assms(4) by auto
    next
      case False
      then have "a \<in> dom live \<longleftrightarrow> a \<in> dom (c_live conf)" using assms(3) by auto
      then show ?thesis using e(4) False assms(2) by auto
    qed
  qed
  then have "values_ok X' ?c vm" unfolding values_ok_def using e out assms(2) by auto
  moreover have "secs_at ?c sm = secs_at conf sm"
    by (rule secs_at_cong, rule entries_cong [OF s]) (use out(2) e(3) in simp_all)
  ultimately show ?thesis by (simp add: conf_ok_def)
qed

lemma value_free_ok:
  assumes "conf_ok X conf sm vm" "cv_addr v \<in> X"
  shows "\<exists>conf'. value_free v conf = Some conf' \<and> conf_ok (X - {cv_addr v}) conf' sm vm \<and> c_next conf' = c_next conf \<and>
    secs_at conf' sm = secs_at conf sm"
proof -
  have "X \<subseteq> dom (c_live conf)" using values_okD(4) assms(1) unfolding conf_ok_def by blast
  then obtain u where u: "c_live conf (cv_addr v) = Some u" using assms(2) by auto
  have "conf_ok (X - {cv_addr v}) (conf\<lparr>c_live := (c_live conf)(cv_addr v := None)\<rparr>) sm vm \<and>
      secs_at (conf\<lparr>c_live := (c_live conf)(cv_addr v := None)\<rparr>) sm = secs_at conf sm"
    by (rule live_outside [OF assms(1)]) (use assms(2) \<open>X \<subseteq> dom (c_live conf)\<close> in auto)
  then show ?thesis using u by (simp add: value_free_def)
qed

lemma strdup_Some: "OPENSSL_strdup al s = Some t \<Longrightarrow> t = s"
  by (auto simp: OPENSSL_strdup_def OPENSSL_memdup_def split: if_splits)

lemma sk_new_null_ok: "OPENSSL_sk_new_null al = Some sk \<Longrightarrow> sk_ok sk \<and> sk_list sk = []"
  by (auto simp: OPENSSL_sk_new_null_def OPENSSL_sk_new_def sk_ok_def sk_list_def kMinSize_def split: if_splits)

lemma values_ok_cong:
  "values_ok X conf vm \<Longrightarrow> c_values c' = c_values conf \<Longrightarrow> c_live c' = c_live conf \<Longrightarrow> c_next conf \<le> c_next c' \<Longrightarrow> values_ok X c' vm"
proof -
  assume v: "values_ok X conf vm" and c: "c_values c' = c_values conf" "c_live c' = c_live conf" "c_next conf \<le> c_next c'"
  have "{..< c_next conf} \<subseteq> {..< c_next c'}" using c(3) by simp
  then have "dom (c_live c') \<subseteq> {..< c_next c'}" using values_okD(6) [OF v] c(2) by (metis subset_trans)
  then show ?thesis using v c(1,2) unfolding values_ok_def by simp
qed

lemma new_section_stack:
  assumes s: "sections_ok conf sm vm" and nm: "OPENSSL_sk_new_null al = Some sk"
    and r: "sections.table lh" "represents sec_name lh (sm(name \<mapsto> t))"
    and t: "t = \<lparr>sec_addr = c_next conf, sec_name = name\<rparr>"
    and c: "c_sections c' = lh" "c_live c' = c_live conf" "c_next c' = Suc (c_next conf)"
      "c_stacks c' = (case sm name of None \<Rightarrow> (c_stacks conf)(c_next conf \<mapsto> sk)
         | Some old \<Rightarrow> ((c_stacks conf)(c_next conf \<mapsto> sk))(sec_addr old := None))"
  shows "sections_ok c' (sm(name \<mapsto> t)) vm \<and> secs_at c' (sm(name \<mapsto> t)) = (secs_at conf sm)(name \<mapsto> [])"
proof -
  note d = sections_okD [OF s]
  have new: "c_next conf \<notin> sec_addr ` ran sm" using d(4,5) by auto
  have nm': "sec_name u = name \<longleftrightarrow> sm name = Some u" if "u \<in> ran sm" for u
    using represents_ran [OF d(2), of name u] that by auto
  have "ran (sm(sec_name t \<mapsto> t)) = insert t (ran sm - {e. sm (sec_name t) = Some e})" by (rule ran_upd_key [OF d(2)])
  then have ran: "ran (sm(name \<mapsto> t)) = insert t (ran sm - {e. sm name = Some e})" by (simp add: t)
  have old: "c_stacks c' (sec_addr u) = c_stacks conf (sec_addr u)" if u: "u \<in> ran sm" "sm name \<noteq> Some u" for u
  proof -
    have "sec_addr u \<noteq> c_next conf" using new u(1) by (metis imageI)
    moreover have "sec_addr o1 \<noteq> sec_addr u" if "sm name = Some o1" for o1
      using d(3) u that by (metis inj_onD ranI)
    ultimately show ?thesis by (auto simp: c(4) split: option.split)
  qed
  have here: "c_stacks c' (c_next conf) = Some sk"
  proof (cases "sm name")
    case (Some o1)
    then show ?thesis using new ranI [where m = sm, OF Some] by (auto simp: c(4))
  qed (simp add: c(4))
  have inj: "inj_on sec_addr (ran (sm(name \<mapsto> t)))"
    unfolding ran inj_on_insert
  proof
    show "inj_on sec_addr (ran sm - {e. sm name = Some e})" using d(3) by (rule inj_on_subset) blast
    show "sec_addr t \<notin> sec_addr ` (ran sm - {e. sm name = Some e} - {t})" using new by (auto simp: t)
  qed
  have dom: "dom (c_stacks c') = sec_addr ` ran (sm(name \<mapsto> t))"
  proof (cases "sm name")
    case None
    then show ?thesis unfolding ran c(4) using d(4) by (simp add: t)
  next
    case (Some o1)
    have "sec_addr ` (ran sm - {o1}) = sec_addr ` ran sm - {sec_addr o1}"
      using d(3) ranI [where m = sm, OF Some] by (auto simp: inj_on_def)
    moreover have "sec_addr o1 \<noteq> c_next conf" using new ranI [where m = sm, OF Some] by (metis imageI)
    moreover have "{e. sm name = Some e} = {o1}" using Some by auto
    ultimately show ?thesis unfolding ran c(4) using d(4) Some by (auto simp: t)
  qed
  have st: "stack_ok (c_live c') vm u k" if u: "u \<in> ran (sm(name \<mapsto> t))" "c_stacks c' (sec_addr u) = Some k" for u k
  proof (cases "u = t")
    case True
    then have "k = sk" using u(2) here by (simp add: t)
    then show ?thesis using sk_new_null_ok [OF nm] by (simp add: stack_ok_def)
  next
    case False
    then have v: "u \<in> ran sm" "sm name \<noteq> Some u" using u(1) unfolding ran by auto
    then show ?thesis using d(6) [OF v(1)] u(2) unfolding old [OF v] c(2) by simp
  qed
  have "dom (c_stacks c') \<subseteq> {..< c_next c'}"
    unfolding dom ran using d(4,5) by (auto simp: c(3) t less_Suc_eq)
  then have ok: "sections_ok c' (sm(name \<mapsto> t)) vm" unfolding sections_ok_def using r inj dom st c(1) by simp
  have "secs_at c' (sm(name \<mapsto> t)) nm = ((secs_at conf sm)(name \<mapsto> [])) nm" for nm
  proof (cases "nm = name \<or> sm nm = None")
    case True
    then show ?thesis using here sk_new_null_ok [OF nm] by (auto simp: secs_at_def entries_def t)
  next
    case False
    then obtain u where u: "sm nm = Some u" "nm \<noteq> name" by auto
    then have "u \<in> ran sm" "sm name \<noteq> Some u" using represents_ran [OF d(2)] by (auto intro: ranI)
    then have "entries c' u = entries conf u" using entries_cong [OF s _ old] c(2) by simp
    then show ?thesis using u by (simp add: secs_at_def)
  qed
  then show ?thesis using ok by blast
qed

lemma new_section_ok:
  assumes ok: "conf_ok X conf sm vm" and n: "Suc (c_next conf) < SIZE_MOD"
  shows "\<exists>r conf'. NCONF_new_section al name conf = Some (r, conf') \<and> c_next conf' \<le> Suc (c_next conf) \<and> c_live conf' = c_live conf \<and>
    (case r of None \<Rightarrow> conf_ok X conf' sm vm \<and> secs_at conf' sm = secs_at conf sm
     | Some t \<Rightarrow> sec_name t = name \<and> conf_ok X conf' (sm(name \<mapsto> t)) vm \<and>
         secs_at conf' (sm(name \<mapsto> t)) = (secs_at conf sm)(name \<mapsto> []))"
proof (cases "al [0] CONF_SECTION_SIZE \<and> OPENSSL_strdup (al [1]) name \<noteq> None \<and> OPENSSL_sk_new_null (al [2]) \<noteq> (None :: (nat, unit) sk)")
  case False
  then have "NCONF_new_section al name conf = Some (None, conf)" by (auto simp: NCONF_new_section_def split: option.split)
  then show ?thesis using ok by simp
next
  case True
  then obtain sk :: "(nat, unit) stack_st" where sk: "OPENSSL_sk_new_null (al [2]) = Some sk" and dup: "OPENSSL_strdup (al [1]) name = Some name"
    using strdup_Some by fastforce
  define t where "t = \<lparr>sec_addr = c_next conf, sec_name = name\<rparr>"
  define c1 where "c1 = conf\<lparr>c_stacks := (c_stacks conf)(c_next conf \<mapsto> sk), c_next := Suc (c_next conf)\<rparr>"
  have s: "sections_ok conf sm vm" and w: "values_ok X conf vm" using ok by (simp_all add: conf_ok_def)
  note d = sections_okD [OF s]
  have key: "sec_name t = name" by (simp add: t_def)
  have "Suc (num_items (c_sections conf)) < SIZE_MOD" using section_bound [OF s] n by simp
  from sections.insert_correct [OF d(1,2) this, of t] obtain ok' lh where
    i: "OPENSSL_lh_insert t (c_sections conf) = Some (ok', sm name, lh)" "sections.table lh"
      "represents sec_name lh (if ok' then sm(name \<mapsto> t) else sm)" "\<not> ok' \<longrightarrow> sm name = None" unfolding key by blast
  have w': "values_ok X c' vm" if "c_values c' = c_values conf" "c_live c' = c_live conf" "c_next c' = Suc (c_next conf)" for c'
    using values_ok_cong [OF w that(1,2)] that(3) by simp
  have new: "c_next conf \<notin> sec_addr ` ran sm" using d(4,5) by auto
  have e: "NCONF_new_section al name conf = (if ok' then (case sm name of None \<Rightarrow> Some (Some t, c1\<lparr>c_sections := lh\<rparr>)
        | Some o1 \<Rightarrow> map_option (\<lambda>c. (Some t, c)) (section_free o1 (c1\<lparr>c_sections := lh\<rparr>)))
      else map_option (\<lambda>c. (None, c)) (section_free t (c1\<lparr>c_sections := lh\<rparr>)))"
    using True dup sk i(1) by (cases ok'; cases "sm name") (simp_all add: NCONF_new_section_def Let_def t_def c1_def)
  show ?thesis
  proof (cases ok')
    case False
    define c2 where "c2 = c1\<lparr>c_sections := lh, c_stacks := (c_stacks conf)\<rparr>"
    have "c_next conf \<notin> dom (c_stacks conf)" using new d(4) by simp
    then have "c_stacks conf (c_next conf) = None" by blast
    then have "(c_stacks c1)(c_next conf := None) = c_stacks conf" by (simp add: c1_def fun_upd_idem)
    then have "NCONF_new_section al name conf = Some (None, c2)"
      using e False by (simp add: section_free_def c1_def c2_def t_def)
    moreover have "entries c2 u = entries conf u" for u by (simp add: entries_def entry_def c2_def c1_def)
    then have "secs_at c2 sm = secs_at conf sm" by (rule secs_at_cong)
    moreover have "sections_ok c2 sm vm"
      unfolding sections_ok_def using d i(2,3) False by (auto simp: c2_def c1_def less_Suc_eq)
    moreover have "values_ok X c2 vm" by (rule w') (simp_all add: c2_def c1_def)
    ultimately show ?thesis by (simp add: conf_ok_def c2_def c1_def)
  next
    case True
    define stacks where "stacks = (case sm name of None \<Rightarrow> (c_stacks conf)(c_next conf \<mapsto> sk)
         | Some old \<Rightarrow> ((c_stacks conf)(c_next conf \<mapsto> sk))(sec_addr old := None))"
    define c2 where "c2 = c1\<lparr>c_sections := lh, c_stacks := stacks\<rparr>"
    have "NCONF_new_section al name conf = Some (Some t, c2)"
    proof (cases "sm name")
      case None
      then show ?thesis using e True by (simp add: c2_def stacks_def c1_def)
    next
      case (Some o1)
      have "o1 \<in> ran sm" using Some by (rule ranI)
      then have "sec_addr o1 \<in> sec_addr ` ran sm" by (rule imageI)
      then have "sec_addr o1 \<in> dom (c_stacks conf)" "sec_addr o1 \<noteq> c_next conf" using d(4) new by metis+
      then show ?thesis using e True Some by (auto simp: section_free_def c2_def stacks_def c1_def)
    qed
    moreover have "sections_ok c2 (sm(name \<mapsto> t)) vm \<and> secs_at c2 (sm(name \<mapsto> t)) = (secs_at conf sm)(name \<mapsto> [])"
      by (rule new_section_stack [OF s sk i(2) _ t_def]) (use i(3) True in \<open>simp_all add: c2_def c1_def stacks_def\<close>)
    moreover have "values_ok X c2 vm" by (rule w') (simp_all add: c2_def c1_def)
    ultimately show ?thesis by (simp add: conf_ok_def key) (simp add: c2_def c1_def)
  qed
qed

text \<open>
  Adding a value: it goes to the end of its section's stack, where a value of the same name goes away.  First
  the effect of that change, then the code that makes it.
\<close>

definition old_values :: "(value_key \<Rightarrow> cvalue option) \<Rightarrow> cvalue \<Rightarrow> cvalue set" where
  "old_values vm v = {e. vm (value_key v) = Some e}"

definition value_added :: "nat set \<Rightarrow> conf_st \<Rightarrow> (byte list \<Rightarrow> csection option) \<Rightarrow> (value_key \<Rightarrow> cvalue option) \<Rightarrow> csection \<Rightarrow> cvalue \<Rightarrow>
    conf_st \<Rightarrow> bool" where
  "value_added X conf sm vm sec v conf' \<longleftrightarrow> conf_ok X conf sm vm \<and> cv_addr v \<in> X \<and> c_live conf (cv_addr v) = Some v \<and>
     sm (cv_section v) = Some sec \<and> cvalues.table (c_values conf') \<and> represents value_key (c_values conf') (vm(value_key v \<mapsto> v)) \<and>
     (\<exists>sk. c_stacks conf' = (c_stacks conf)(sec_addr sec \<mapsto> sk) \<and> sk_ok sk \<and>
        sk_list sk = filter (\<lambda>p. p \<notin> Some ` cv_addr ` old_values vm v) (sk_list (the (c_stacks conf (sec_addr sec)))) @ [Some (cv_addr v)]) \<and>
     c_live conf' = c_live conf |` (- cv_addr ` old_values vm v) \<and> c_sections conf' = c_sections conf \<and> c_next conf' = c_next conf"

lemma value_addedD:
  assumes "value_added X conf sm vm sec v conf'"
  shows "conf_ok X conf sm vm" "sections_ok conf sm vm" "values_ok X conf vm" "cv_addr v \<in> X" "c_live conf (cv_addr v) = Some v"
    "sm (cv_section v) = Some sec" "cvalues.table (c_values conf')" "represents value_key (c_values conf') (vm(value_key v \<mapsto> v))"
    "\<exists>sk. c_stacks conf' = (c_stacks conf)(sec_addr sec \<mapsto> sk) \<and> sk_ok sk \<and>
        sk_list sk = filter (\<lambda>p. p \<notin> Some ` cv_addr ` old_values vm v) (sk_list (the (c_stacks conf (sec_addr sec)))) @ [Some (cv_addr v)]"
    "c_live conf' = c_live conf |` (- cv_addr ` old_values vm v)" "c_sections conf' = c_sections conf" "c_next conf' = c_next conf"
  using assms unfolding value_added_def conf_ok_def by blast+

lemma old_iff: "values_ok X conf vm \<Longrightarrow> u \<in> old_values vm v \<longleftrightarrow> u \<in> ran vm \<and> value_key u = value_key v"
  using represents_ran [OF values_okD(2)] unfolding old_values_def by blast

lemma addr_eq: "values_ok X conf vm \<Longrightarrow> u \<in> ran vm \<Longrightarrow> t \<in> ran vm \<Longrightarrow> cv_addr u = cv_addr t \<longleftrightarrow> u = t"
  using value_addr_inj by (auto dest: inj_onD)

text \<open>The values afterwards: the new one, and those with another key, which stay.\<close>

lemma added_ran: "values_ok X conf vm \<Longrightarrow> ran (vm(value_key v \<mapsto> v)) = insert v (ran vm - old_values vm v)"
  using ran_upd_key [OF values_okD(2)] unfolding old_values_def by blast

lemma kept_addr: "values_ok X conf vm \<Longrightarrow> u \<in> ran vm \<Longrightarrow> cv_addr u \<in> cv_addr ` old_values vm v \<longleftrightarrow> value_key u = value_key v"
  unfolding image_iff Bex_def using old_iff addr_eq by (metis (no_types, lifting))

lemma added_live:
  assumes va: "value_added X conf sm vm sec v conf'" and u: "u \<in> ran (vm(value_key v \<mapsto> v))"
  shows "c_live conf' (cv_addr u) = Some u"
proof -
  note a = value_addedD [OF va]
  note e = values_okD [OF a(3)]
  have "cv_addr u \<notin> cv_addr ` old_values vm v \<and> c_live conf (cv_addr u) = Some u"
  proof (cases "u = v")
    case True
    have "cv_addr ` old_values vm v \<subseteq> cv_addr ` ran vm" using old_iff [OF a(3)] by blast
    then show ?thesis using True a(4,5) e(5) by blast
  next
    case False
    then have "u \<in> ran vm" "u \<notin> old_values vm v" using u unfolding added_ran [OF a(3)] by blast+
    then show ?thesis using kept_addr [OF a(3)] old_iff [OF a(3)] e(3) by simp
  qed
  then show ?thesis unfolding a(10) by (simp add: restrict_map_def)
qed

lemma move_over: "X \<inter> V = {} \<Longrightarrow> D \<subseteq> V \<Longrightarrow> a \<in> X \<Longrightarrow> (V \<union> X) - D = insert a (V - D) \<union> (X - {a})"
  by blast

lemma added_values:
  assumes va: "value_added X conf sm vm sec v conf'"
  shows "values_ok (X - {cv_addr v}) conf' (vm(value_key v \<mapsto> v))"
proof -
  note a = value_addedD [OF va]
  note e = values_okD [OF a(3)]
  have sub: "cv_addr ` old_values vm v \<subseteq> cv_addr ` ran vm" using old_iff [OF a(3)] by blast
  have im: "cv_addr ` ran (vm(value_key v \<mapsto> v)) = insert (cv_addr v) (cv_addr ` ran vm - cv_addr ` old_values vm v)"
  proof -
    have "old_values vm v \<subseteq> ran vm" using old_iff [OF a(3)] by blast
    then have "cv_addr ` (ran vm - old_values vm v) = cv_addr ` ran vm - cv_addr ` old_values vm v"
      by (intro inj_on_image_set_diff [OF value_addr_inj [OF a(3)]]) blast+
    then show ?thesis unfolding added_ran [OF a(3)] by simp
  qed
  have "dom (c_live conf') = dom (c_live conf) - cv_addr ` old_values vm v" unfolding a(10) by auto
  then have dom: "dom (c_live conf') = (cv_addr ` ran vm \<union> X) - cv_addr ` old_values vm v" unfolding e(4) .
  then have 2: "dom (c_live conf') = cv_addr ` ran (vm(value_key v \<mapsto> v)) \<union> (X - {cv_addr v})"
    unfolding im by (simp only: move_over [OF e(5) sub a(4)])
  have 3: "(X - {cv_addr v}) \<inter> cv_addr ` ran (vm(value_key v \<mapsto> v)) = {}" unfolding im using e(5) by blast
  have 4: "dom (c_live conf') \<subseteq> {..< c_next conf'}" unfolding dom a(12) using e(4,6) by blast
  show ?thesis unfolding values_ok_def using 2 3 4 a(7,8) added_live [OF va] by blast
qed

lemma added_sections:
  assumes va: "value_added X conf sm vm sec v conf'"
  shows "sections_ok conf' sm (vm(value_key v \<mapsto> v))"
proof -
  note a = value_addedD [OF va]
  note d = sections_okD [OF a(2)] and e = values_okD [OF a(3)]
  let ?vm = "vm(value_key v \<mapsto> v)"
  have sec: "sec \<in> ran sm" "sec_name sec = cv_section v" using represents_ran [OF d(2)] a(6) by blast+
  obtain sk where sk: "c_stacks conf' = (c_stacks conf)(sec_addr sec \<mapsto> sk)" "sk_ok sk"
    "sk_list sk = filter (\<lambda>p. p \<notin> Some ` cv_addr ` old_values vm v) (sk_list (the (c_stacks conf (sec_addr sec)))) @ [Some (cv_addr v)]"
    using a(9) by blast
  have kept: "\<exists>u \<in> ran ?vm. p = Some (cv_addr u) \<and> cv_section u = nm"
    if "\<exists>u \<in> ran vm. p = Some (cv_addr u) \<and> cv_section u = nm" "p \<notin> Some ` cv_addr ` old_values vm v" for p nm
    using that unfolding added_ran [OF a(3)] by blast
  have st: "stack_ok (c_live conf') ?vm t k" if t: "t \<in> ran sm" "c_stacks conf' (sec_addr t) = Some k" for t k
  proof (cases "t = sec")
    case True
    obtain k0 where k0: "c_stacks conf (sec_addr sec) = Some k0" "stack_ok (c_live conf) vm sec k0" by (rule section_stack [OF a(2) sec(1)])
    note o1 = stack_okD [OF k0(2)]
    have k: "k = sk" using t(2) True by (simp add: sk(1))
    have "Some (cv_addr v) \<notin> set (sk_list k0)"
    proof
      assume "Some (cv_addr v) \<in> set (sk_list k0)"
      then obtain u where "u \<in> ran vm" "cv_addr v = cv_addr u" using o1(3) by blast
      then show False using e(5) a(4) by blast
    qed
    then have "distinct (sk_list sk)" using o1(2) by (simp add: sk(3) k0(1))
    moreover have "\<exists>u \<in> ran ?vm. p = Some (cv_addr u) \<and> cv_section u = sec_name sec" if p: "p \<in> set (sk_list sk)" for p
    proof (cases "p = Some (cv_addr v)")
      case True
      then show ?thesis unfolding added_ran [OF a(3)] using sec(2) by (intro bexI [of _ v]) simp_all
    next
      case False
      then have in0: "p \<in> set (sk_list k0)" and no: "p \<notin> Some ` cv_addr ` old_values vm v" using p by (simp_all add: sk(3) k0(1))
      show ?thesis by (rule kept [OF o1(3) [OF in0] no])
    qed
    ultimately show ?thesis unfolding stack_ok_def True k using sk(2) by blast
  next
    case False
    then have "sec_addr t \<noteq> sec_addr sec" using d(3) t(1) sec(1) by (auto dest: inj_onD)
    then have k: "c_stacks conf (sec_addr t) = Some k" using t(2) by (simp add: sk(1))
    note o1 = stack_okD [OF d(6) [OF t(1) k]]
    have nm: "sec_name t \<noteq> cv_section v" using represents_ran [OF d(2), of "sec_name t" t] t(1) a(6) False by auto
    have "\<exists>u \<in> ran ?vm. p = Some (cv_addr u) \<and> cv_section u = sec_name t" if p: "p \<in> set (sk_list k)" for p
    proof -
      obtain u where u: "u \<in> ran vm" "p = Some (cv_addr u)" "cv_section u = sec_name t" using o1(3) [OF p] by blast
      then have "cv_addr u \<notin> cv_addr ` old_values vm v" using kept_addr [OF a(3)] nm by simp
      then have no: "p \<notin> Some ` cv_addr ` old_values vm v" using u(2) by blast
      show ?thesis by (rule kept [OF o1(3) [OF p] no])
    qed
    then show ?thesis unfolding stack_ok_def using o1(1,2) by blast
  qed
  have "sec_addr sec \<in> dom (c_stacks conf)" using d(4) sec(1) by blast
  then have "dom (c_stacks conf') = dom (c_stacks conf)" unfolding sk(1) by auto
  then show ?thesis unfolding sections_ok_def a(11,12) using d(1-5) st by simp
qed

text \<open>The entries of the section: those of other names, and the new one.\<close>

lemma added_entries:
  assumes va: "value_added X conf sm vm sec v conf'"
  shows "secs_at conf' sm = (secs_at conf sm)(cv_section v \<mapsto>
    filter (\<lambda>(n, _). n \<noteq> cv_name v) (entries conf sec) @ [(cv_name v, cv_value v)])"
proof
  fix nm
  note a = value_addedD [OF va]
  note d = sections_okD [OF a(2)] and e = values_okD [OF a(3)]
  have sec: "sec \<in> ran sm" "sec_name sec = cv_section v" using represents_ran [OF d(2)] a(6) by blast+
  obtain sk where sk: "c_stacks conf' = (c_stacks conf)(sec_addr sec \<mapsto> sk)"
    "sk_list sk = filter (\<lambda>p. p \<notin> Some ` cv_addr ` old_values vm v) (sk_list (the (c_stacks conf (sec_addr sec)))) @ [Some (cv_addr v)]"
    using a(9) by blast
  have same: "c_live conf' (cv_addr u) = c_live conf (cv_addr u)" if "u \<in> ran vm" "value_key u \<noteq> value_key v" for u
    using kept_addr [OF a(3) that(1), of v] that(2) unfolding a(10) by (simp add: restrict_map_def)
  show "secs_at conf' sm nm = ((secs_at conf sm)(cv_section v \<mapsto>
    filter (\<lambda>(n, _). n \<noteq> cv_name v) (entries conf sec) @ [(cv_name v, cv_value v)])) nm"
  proof (cases "nm = cv_section v")
    case True
    obtain k0 where k0: "c_stacks conf (sec_addr sec) = Some k0" "stack_ok (c_live conf) vm sec k0" by (rule section_stack [OF a(2) sec(1)])
    let ?q = "\<lambda>p. p \<notin> Some ` cv_addr ` old_values vm v"
    have q: "?q p \<longleftrightarrow> fst (entry conf p) \<noteq> cv_name v" "?q p \<Longrightarrow> entry conf' p = entry conf p" if p: "p \<in> set (sk_list k0)" for p
    proof -
      obtain u where u: "u \<in> ran vm" "p = Some (cv_addr u)" "cv_section u = sec_name sec" using stack_okD(3) [OF k0(2) p] by blast
      have "p \<in> Some ` cv_addr ` old_values vm v \<longleftrightarrow> cv_addr u \<in> cv_addr ` old_values vm v" using u(2) by blast
      then have k: "?q p \<longleftrightarrow> cv_name u \<noteq> cv_name v" using kept_addr [OF a(3) u(1), of v] u(3) sec(2) by simp
      then show "?q p \<longleftrightarrow> fst (entry conf p) \<noteq> cv_name v" using e(3) [OF u(1)] u(2) by (simp add: entry_def)
      show "entry conf' p = entry conf p" if "?q p" using that k same [OF u(1)] u(2) by (simp add: entry_def)
    qed
    have "map (entry conf') (filter ?q (sk_list k0)) = map (entry conf) (filter ?q (sk_list k0))" using q(2) by simp
    also have "\<dots> = map (entry conf) (filter (\<lambda>p. fst (entry conf p) \<noteq> cv_name v) (sk_list k0))"
      using q(1) by (simp cong: filter_cong)
    also have "\<dots> = filter (\<lambda>(n, _). n \<noteq> cv_name v) (entries conf sec)"
      by (simp add: entries_def k0(1) filter_map comp_def split_beta)
    finally have old: "map (entry conf') (filter ?q (sk_list k0)) = filter (\<lambda>(n, _). n \<noteq> cv_name v) (entries conf sec)" .
    have "entry conf' (Some (cv_addr v)) = (cv_name v, cv_value v)"
      using added_live [OF va, of v] added_ran [OF a(3), of v] by (simp add: entry_def)
    then have "entries conf' sec = filter (\<lambda>(n, _). n \<noteq> cv_name v) (entries conf sec) @ [(cv_name v, cv_value v)]"
      using old by (simp add: entries_def sk k0(1))
    then show ?thesis using True a(6) by (simp add: secs_at_def)
  next
    case False
    show ?thesis
    proof (cases "sm nm")
      case (Some t)
      then have t: "t \<in> ran sm" "sec_name t = nm" using represents_ran [OF d(2)] by blast+
      then have "sec_addr t \<noteq> sec_addr sec" using d(3) sec False by (auto dest: inj_onD)
      obtain k where k: "c_stacks conf (sec_addr t) = Some k" "stack_ok (c_live conf) vm t k" by (rule section_stack [OF a(2) t(1)])
      have "entry conf' p = entry conf p" if p: "p \<in> set (sk_list k)" for p
      proof -
        obtain u where u: "u \<in> ran vm" "p = Some (cv_addr u)" "cv_section u = sec_name t" using stack_okD(3) [OF k(2) p] by blast
        then show ?thesis using same [OF u(1)] t(2) False by (simp add: entry_def)
      qed
      then have "entries conf' t = entries conf t" using k(1) \<open>sec_addr t \<noteq> sec_addr sec\<close> by (simp add: entries_def sk(1))
      then show ?thesis using Some False by (simp add: secs_at_def)
    qed (use False in \<open>simp add: secs_at_def\<close>)
  qed
qed

lemma stack_replaced:
  assumes ok: "conf_ok X conf sm vm" and sec: "sec \<in> ran sm" "c_stacks conf (sec_addr sec) = Some k" and sk: "sk_ok sk" "sk_list sk = sk_list k"
    and lv: "cvalues.table lv" "represents value_key lv vm"
  shows "conf_ok X (conf\<lparr>c_stacks := (c_stacks conf)(sec_addr sec \<mapsto> sk), c_values := lv\<rparr>) sm vm \<and>
    secs_at (conf\<lparr>c_stacks := (c_stacks conf)(sec_addr sec \<mapsto> sk), c_values := lv\<rparr>) sm = secs_at conf sm"
proof -
  let ?c = "conf\<lparr>c_stacks := (c_stacks conf)(sec_addr sec \<mapsto> sk), c_values := lv\<rparr>"
  have s: "sections_ok conf sm vm" and w: "values_ok X conf vm" using ok by (simp_all add: conf_ok_def)
  note d = sections_okD [OF s]
  have dom: "dom (c_stacks ?c) = dom (c_stacks conf)" using sec(2) by auto
  have st: "stack_ok (c_live ?c) vm t k'" if "t \<in> ran sm" "c_stacks ?c (sec_addr t) = Some k'" for t k'
  proof (cases "sec_addr t = sec_addr sec")
    case True
    then have "t = sec" "k' = sk" using that d(3) sec(1) by (auto dest: inj_onD)
    then show ?thesis using d(6) [OF sec] sk by (simp add: stack_ok_def)
  next
    case False
    then show ?thesis using d(6) that by simp
  qed
  have "sections_ok ?c sm vm" unfolding sections_ok_def using d(1-5) st dom by simp
  have c: "c_values ?c = lv" "c_live ?c = c_live conf" "c_next ?c = c_next conf" by simp_all
  have "values_ok X ?c vm" unfolding values_ok_def c using values_okD [OF w] lv by blast
  moreover note \<open>sections_ok ?c sm vm\<close>
  moreover have "entries ?c t = entries conf t" for t using sk(2) sec(2) by (simp add: entries_def entry_def)
  then have "secs_at ?c sm = secs_at conf sm" by (rule secs_at_cong)
  ultimately show ?thesis by (simp add: conf_ok_def)
qed

lemma restrict_one: "m |` (- {a}) = m(a := None)"
  by (auto simp: restrict_map_def fun_eq_iff)

lemma add_string_ok:
  assumes ok: "conf_ok X conf sm vm" and v: "cv_addr v \<in> X" and sec: "sm (sec_name sec) = Some sec" and n: "Suc (c_next conf) < SIZE_MOD"
  shows "\<exists>r conf'. add_string al sec v conf = Some (r, conf') \<and> c_next conf' = c_next conf \<and>
    (if r then conf_ok (X - {cv_addr v}) conf' sm (vm((sec_name sec, cv_name v) \<mapsto> v\<lparr>cv_section := sec_name sec\<rparr>)) \<and>
        secs_at conf' sm = (secs_at conf sm)(sec_name sec \<mapsto> filter (\<lambda>(n, _). n \<noteq> cv_name v) (entries conf sec) @ [(cv_name v, cv_value v)])
     else conf_ok X conf' sm vm \<and> secs_at conf' sm = secs_at conf sm)"
proof (cases "OPENSSL_strdup (al [0]) (sec_name sec)")
  case None
  then show ?thesis using ok by (intro exI [of _ False] exI [of _ conf]) (simp add: add_string_def)
next
  case (Some nm)
  then have dup: "OPENSSL_strdup (al [0]) (sec_name sec) = Some (sec_name sec)" using strdup_Some by metis
  define u where "u = v\<lparr>cv_section := sec_name sec\<rparr>"
  define c1 where "c1 = conf\<lparr>c_live := (c_live conf)(cv_addr u \<mapsto> u)\<rparr>"
  have ua: "cv_addr u = cv_addr v" "cv_name u = cv_name v" "cv_value u = cv_value v" "cv_section u = sec_name sec" by (simp_all add: u_def)
  have "X \<subseteq> dom (c_live conf)" using values_okD(4) ok unfolding conf_ok_def by blast
  then have "X = X \<inter> dom ((c_live conf)(cv_addr u \<mapsto> u))" by auto
  then have "conf_ok X c1 sm vm \<and> secs_at c1 sm = secs_at conf sm"
    unfolding c1_def by (intro live_outside [OF ok]) (use v ua in auto)
  then have ok1: "conf_ok X c1 sm vm" and same: "secs_at c1 sm = secs_at conf sm" by blast+
  have s: "sections_ok c1 sm vm" and w: "values_ok X c1 vm" using ok1 by (simp_all add: conf_ok_def)
  note d = sections_okD [OF s] and e = values_okD [OF w]
  have secin: "sec \<in> ran sm" using sec by (rule ranI)
  have ent: "entries c1 sec = entries conf sec" using fun_cong [OF same, of "sec_name sec"] sec by (simp add: secs_at_def)
  obtain k where k: "c_stacks c1 (sec_addr sec) = Some k" "stack_ok (c_live c1) vm sec k" by (rule section_stack [OF s secin])
  note sk = stack_okD [OF k(2)]
  obtain m sk1 where p: "OPENSSL_sk_push (al [1]) k (Some (cv_addr u)) = (m, Some sk1)" "m = 0 \<and> sk1 = k \<or>
      m = num k + 1 \<and> sk_ok sk1 \<and> sk_list sk1 = sk_list k @ [Some (cv_addr u)]"
    using OPENSSL_sk_insert_cases [OF sk(1), of "al [1]" "Some (cv_addr u)" "num k"] length_sk_list [OF sk(1)]
    unfolding OPENSSL_sk_push_def list_insert_def by (auto split: if_splits)
  define c2 where "c2 = c1\<lparr>c_stacks := (c_stacks c1)(sec_addr sec \<mapsto> sk1)\<rparr>"
  have "Suc (num_items (c_values c1)) < SIZE_MOD" using value_bound [OF w] n by (simp add: c1_def)
  from cvalues.insert_correct [OF e(1,2) this, of u] obtain good lh where
    i: "OPENSSL_lh_insert u (c_values c1) = Some (good, vm (value_key u), lh)" "cvalues.table lh"
      "represents value_key lh (if good then vm(value_key u \<mapsto> u) else vm)" "\<not> good \<longrightarrow> vm (value_key u) = None" by blast
  have code: "add_string al sec v conf = (if m = 0 then Some (False, c2)
      else if \<not> good then Some (False, c2\<lparr>c_stacks := (c_stacks c2)(sec_addr sec := snd (OPENSSL_sk_pop (Some sk1))), c_values := lh\<rparr>)
      else (case vm (value_key u) of None \<Rightarrow> Some (True, c2\<lparr>c_values := lh\<rparr>)
        | Some old \<Rightarrow> map_option (\<lambda>c. (True, c)) (value_free old (c2\<lparr>c_stacks := (c_stacks c2)(sec_addr sec :=
             snd (OPENSSL_sk_delete_ptr (Some sk1) (Some (cv_addr old)))), c_values := lh\<rparr>))))"
    using dup k(1) p(1) i(1,4) unfolding add_string_def dup option.case Let_def u_def [symmetric] c1_def [symmetric]
    by (cases good; cases "vm (value_key u)") (simp_all add: c2_def)
  show ?thesis
  proof (cases "m = 0")
    case True
    then have "c2 = c1" using p(2) k(1) by (simp add: c2_def fun_upd_idem)
    then show ?thesis using code True ok1 same by (intro exI [of _ False] exI [of _ c1]) (simp, simp add: c1_def)
  next
    case m: False
    then have sk1: "sk_ok sk1" "sk_list sk1 = sk_list k @ [Some (cv_addr u)]" using p(2) by simp_all
    show ?thesis
    proof (cases good)
      case False
      obtain sk2 where sk2: "snd (OPENSSL_sk_pop (Some sk1)) = Some sk2" "sk_ok sk2" "sk_list sk2 = sk_list k"
        using OPENSSL_sk_pop_spec [OF sk1(1)] sk1(2) by auto
      define c3 where "c3 = c1\<lparr>c_stacks := (c_stacks c1)(sec_addr sec \<mapsto> sk2), c_values := lh\<rparr>"
      have "c2\<lparr>c_stacks := (c_stacks c2)(sec_addr sec := Some sk2), c_values := lh\<rparr> = c3" by (simp add: c2_def c3_def)
      then have "add_string al sec v conf = Some (False, c3)" using code m False sk2(1) by simp
      moreover have "conf_ok X c3 sm vm \<and> secs_at c3 sm = secs_at c1 sm"
        using stack_replaced [OF ok1 secin k(1) sk2(2,3) i(2)] i(3) False unfolding c3_def by simp
      moreover have "c_next c3 = c_next conf" by (simp add: c3_def c1_def)
      ultimately show ?thesis using same by (intro exI [of _ False] exI [of _ c3]) simp
    next
      case True
      have live1: "c_live c1 (cv_addr u) = Some u" by (simp add: c1_def)
      have rep: "represents value_key lh (vm(value_key u \<mapsto> u))" using i(3) True by simp
      have added: "value_added X c1 sm vm sec u c'"
        if c': "c' = c1\<lparr>c_stacks := (c_stacks c1)(sec_addr sec \<mapsto> sk3), c_values := lh, c_live := c_live c1 |` (- cv_addr ` old_values vm u)\<rparr>"
          and sk3: "sk_ok sk3" "sk_list sk3 = filter (\<lambda>p. p \<notin> Some ` cv_addr ` old_values vm u) (sk_list k) @ [Some (cv_addr u)]" for c' sk3
      proof -
        have "c_stacks c' = (c_stacks c1)(sec_addr sec \<mapsto> sk3)" "c_values c' = lh" "c_live c' = c_live c1 |` (- cv_addr ` old_values vm u)"
          "c_sections c' = c_sections c1" "c_next c' = c_next c1" by (simp_all add: c')
        moreover have "sm (cv_section u) = Some sec" "cv_addr u \<in> X" using sec v ua by simp_all
        ultimately show ?thesis unfolding value_added_def using ok1 live1 i(2) rep sk3 k(1) by auto
      qed
      have fin: "conf_ok (X - {cv_addr v}) c' sm (vm((sec_name sec, cv_name v) \<mapsto> u)) \<and> c_next c' = c_next conf \<and>
          secs_at c' sm = (secs_at conf sm)(sec_name sec \<mapsto> filter (\<lambda>(n, _). n \<noteq> cv_name v) (entries conf sec) @ [(cv_name v, cv_value v)])"
        if "value_added X c1 sm vm sec u c'" for c'
        using added_values [OF that] added_sections [OF that] added_entries [OF that] value_addedD(12) [OF that]
        by (simp add: conf_ok_def ua same ent) (simp add: c1_def)
      show ?thesis
      proof (cases "vm (value_key u)")
        case None
        then have "old_values vm u = {}" by (simp add: old_values_def)
        then have "value_added X c1 sm vm sec u (c2\<lparr>c_values := lh\<rparr>)"
          using sk1 by (intro added [of _ sk1]) (simp_all add: c2_def restrict_map_def)
        from fin [OF this] show ?thesis using code m True None by (intro exI [of _ True] exI [of _ "c2\<lparr>c_values := lh\<rparr>"]) (simp add: u_def)
      next
        case (Some old)
        then have o1: "old_values vm u = {old}" by (simp add: old_values_def)
        have old: "old \<in> ran vm" using Some by (rule ranI)
        have "cv_addr old \<in> cv_addr ` ran vm" using old by (rule imageI)
        then have ne: "cv_addr old \<noteq> cv_addr u" using e(5) v ua(1) by (metis disjoint_iff)
        obtain sk3 where sk3: "snd (OPENSSL_sk_delete_ptr (Some sk1) (Some (cv_addr old))) = Some sk3" "sk_ok sk3"
            "sk_list sk3 = remove1 (Some (cv_addr old)) (sk_list sk1)"
          using OPENSSL_sk_delete_ptr_spec [OF sk1(1), of "Some (cv_addr old)"] by auto
        have l3: "sk_list sk3 = filter (\<lambda>p. p \<notin> Some ` cv_addr ` old_values vm u) (sk_list k) @ [Some (cv_addr u)]"
        proof -
          have "remove1 (Some (cv_addr old)) (sk_list k @ [Some (cv_addr u)]) = remove1 (Some (cv_addr old)) (sk_list k) @ [Some (cv_addr u)]"
            using ne by (simp add: remove1_append remove1_idem)
          moreover have "remove1 (Some (cv_addr old)) (sk_list k) = filter (\<lambda>p. p \<noteq> Some (cv_addr old)) (sk_list k)"
            using sk(2) by (simp add: distinct_remove1_removeAll removeAll_filter_not_eq neq_commute)
          ultimately show ?thesis by (simp add: sk3(3) sk1(2) o1)
        qed
        have live: "c_live c1 (cv_addr old) = Some old" using e(3) [OF old] .
        define c3 where "c3 = c1\<lparr>c_stacks := (c_stacks c1)(sec_addr sec \<mapsto> sk3), c_values := lh, c_live := c_live c1 |` (- cv_addr ` old_values vm u)\<rparr>"
        have "value_free old (c2\<lparr>c_stacks := (c_stacks c2)(sec_addr sec := Some sk3), c_values := lh\<rparr>) = Some c3"
          using live by (simp add: value_free_def c2_def c3_def o1 restrict_one)
        then have "add_string al sec v conf = Some (True, c3)" using code m True Some sk3(1) by simp
        then show ?thesis using fin [OF added [OF c3_def sk3(2) l3]] by (intro exI [of _ True] exI [of _ c3]) (simp add: u_def)
      qed
    qed
  qed
qed

section \<open>Releasing a store\<close>

fun fold_option :: "('a \<Rightarrow> 's \<Rightarrow> 's option) \<Rightarrow> 'a list \<Rightarrow> 's \<Rightarrow> 's option" where
  "fold_option g [] s = Some s"
| "fold_option g (d # ds) s = (case g d s of None \<Rightarrow> None | Some s1 \<Rightarrow> fold_option g ds s1)"

lemma fold_option_append: "fold_option g (ds @ es) s = Option.bind (fold_option g ds s) (fold_option g es)"
  by (induction ds arbitrary: s) (auto split: option.split)

text \<open>A callback that leaves the table alone is called on what a visitor that only notes the values sees, in order.\<close>

definition arg_only :: "('a \<Rightarrow> 's \<Rightarrow> 's option) \<Rightarrow> 'a \<Rightarrow> 'a lhash_st \<times> 's \<Rightarrow> ('a lhash_st \<times> 's) option" where
  "arg_only g d st = map_option (\<lambda>s. (fst st, s)) (g d (snd st))"

lemma doall_chain_arg:
  assumes "doall_chain v p st = Some r" "v = visitor (\<lambda>_. False)"
  shows "\<exists>ds. r = (fst st, snd st @ ds) \<and> (\<forall>t. doall_chain (arg_only g) p (fst st, t) = map_option (Pair (fst st)) (fold_option g ds t))"
  using assms
proof (induction v p st r rule: doall_chain.raw_induct [rotated, consumes 1])
  case (1 f v p st r)
  show ?case
  proof (cases p)
    case None
    then show ?thesis using 1(2) by (intro exI [of _ "[]"]) (simp add: doall_chain.simps)
  next
    case (Some a)
    then obtain it where it: "lh_heap (fst st) a = Some it" using 1(2) by (auto split: option.splits)
    have "v (item_data it) st = Some (fst st, snd st @ [item_data it])" by (simp add: 1(3) visitor_def)
    then have "f v (item_next it) (fst st, snd st @ [item_data it]) = Some r"
      using 1(2) Some it by simp
    from 1(1) [OF this 1(3)] obtain ds where ds: "r = (fst st, (snd st @ [item_data it]) @ ds)"
      "\<And>t. doall_chain (arg_only g) (item_next it) (fst st, t) = map_option (Pair (fst st)) (fold_option g ds t)" by auto
    have "doall_chain (arg_only g) p (fst st, t) = map_option (Pair (fst st)) (fold_option g (item_data it # ds) t)" for t
      using Some it ds(2) by (subst doall_chain.simps) (simp add: arg_only_def split: option.split)
    then show ?thesis using ds(1) by (intro exI [of _ "item_data it # ds"]) simp
  qed
qed

lemma doall_buckets_arg:
  assumes "doall_buckets v i st = Some r" "v = visitor (\<lambda>_. False)"
  shows "\<exists>ds. r = (fst st, snd st @ ds) \<and> (\<forall>t. doall_buckets (arg_only g) i (fst st, t) = map_option (Pair (fst st)) (fold_option g ds t))"
  using assms
proof (induction v i st r rule: doall_buckets.raw_induct [rotated, consumes 1])
  case (1 f v i st r)
  show ?case
  proof (cases "i < num_buckets (fst st)")
    case False
    then show ?thesis using 1(2) by (intro exI [of _ "[]"]) (simp add: doall_buckets.simps)
  next
    case True
    then obtain p st1 where p: "lh_load (fst st) (Bucket i) = Some p" "doall_chain v p st = Some st1" "f v (Suc i) st1 = Some r"
      using 1(2) by (auto split: option.splits)
    from doall_chain_arg [OF p(2) 1(3), of g] obtain ds where ds: "st1 = (fst st, snd st @ ds)"
      "\<And>t. doall_chain (arg_only g) p (fst st, t) = map_option (Pair (fst st)) (fold_option g ds t)" by blast
    from 1(1) [OF p(3) 1(3)] obtain es where es: "r = (fst st1, snd st1 @ es)"
      "\<And>t. doall_buckets (arg_only g) (Suc i) (fst st1, t) = map_option (Pair (fst st1)) (fold_option g es t)" by blast
    have "doall_buckets (arg_only g) i (fst st, t) = map_option (Pair (fst st)) (fold_option g (ds @ es) t)" for t
      using True p(1) ds es(2) by (subst doall_buckets.simps) (simp add: fold_option_append split: option.split)
    then show ?thesis using ds(1) es(1) by (intro exI [of _ "ds @ es"]) simp
  qed
qed

lemma doall_arg:
  assumes "OPENSSL_lh_doall_arg (visitor (\<lambda>_. False)) (lh, []) = Some (lh', ds)"
  shows "OPENSSL_lh_doall_arg (arg_only g) (lh, t) = map_option (Pair lh') (fold_option g ds t)"
proof -
  define up where "up = (if callback_depth lh < 0xffffffff then lh\<lparr>callback_depth := callback_depth lh + 1\<rparr> else lh)"
  define dn where "dn l = (if callback_depth l < 0xffffffff then l\<lparr>callback_depth := callback_depth l - 1\<rparr> else l)" for l :: "'a lhash_st"
  have e: "OPENSSL_lh_doall_arg h (lh, s) = (case doall_buckets h 0 (up, s) of None \<Rightarrow> None
      | Some (lh1, x) \<Rightarrow> map_option (\<lambda>lh2. (lh2, x)) (lh_maybe_resize (dn lh1)))" for h and s :: 's
    by (simp only: OPENSSL_lh_doall_arg_def Let_def fst_conv snd_conv up_def [symmetric] dn_def)
  have e': "OPENSSL_lh_doall_arg h (lh, s) = (case doall_buckets h 0 (up, s) of None \<Rightarrow> None
      | Some (lh1, x) \<Rightarrow> map_option (\<lambda>lh2. (lh2, x)) (lh_maybe_resize (dn lh1)))" for h and s :: "'a list"
    by (simp only: OPENSSL_lh_doall_arg_def Let_def fst_conv snd_conv up_def [symmetric] dn_def)
  obtain lh1 where r: "doall_buckets (visitor (\<lambda>_. False)) 0 (up, []) = Some (lh1, ds)" "lh_maybe_resize (dn lh1) = Some lh'"
    using assms unfolding e' by (auto split: option.splits)
  from doall_buckets_arg [OF r(1) refl, of g] have "lh1 = up"
    "doall_buckets (arg_only g) 0 (up, t) = map_option (Pair up) (fold_option g ds t)" by auto
  then show ?thesis using r(2) unfolding e by (simp split: option.split)
qed

lemma free_sections:
  assumes "distinct ss" "inj_on sec_addr (set ss)" "dom (c_stacks conf) = sec_addr ` set ss"
  shows "fold_option section_free ss conf = Some (conf\<lparr>c_stacks := (\<lambda>_. None)\<rparr>)"
  using assms
proof (induction ss arbitrary: conf)
  case Nil
  then have "c_stacks conf = (\<lambda>_. None)" by (auto simp: fun_eq_iff dom_def)
  then show ?case by simp
next
  case (Cons s ss)
  then obtain sk where sk: "c_stacks conf (sec_addr s) = Some sk" by (metis domD image_eqI list.set_intros(1))
  have "sec_addr s \<notin> sec_addr ` set ss" using Cons.prems(1,2) by (auto simp: inj_on_def)
  then have "dom (c_stacks (conf\<lparr>c_stacks := (c_stacks conf)(sec_addr s := None)\<rparr>)) = sec_addr ` set ss" using Cons.prems(3) by auto
  from Cons.IH [OF _ _ this] show ?case using Cons.prems(1,2) sk by (simp add: section_free_def)
qed

lemma free_values:
  assumes "distinct vs" "inj_on cv_addr (set vs)" "dom (c_live conf) = cv_addr ` set vs"
  shows "fold_option value_free vs conf = Some (conf\<lparr>c_live := (\<lambda>_. None)\<rparr>)"
  using assms
proof (induction vs arbitrary: conf)
  case Nil
  then have "c_live conf = (\<lambda>_. None)" by (auto simp: fun_eq_iff dom_def)
  then show ?case by simp
next
  case (Cons v vs)
  then obtain u where u: "c_live conf (cv_addr v) = Some u" by (metis domD image_eqI list.set_intros(1))
  have "cv_addr v \<notin> cv_addr ` set vs" using Cons.prems(1,2) by (auto simp: inj_on_def)
  then have "dom (c_live (conf\<lparr>c_live := (c_live conf)(cv_addr v := None)\<rparr>)) = cv_addr ` set vs" using Cons.prems(3) by auto
  from Cons.IH [OF _ _ this] show ?case using Cons.prems(1,2) u by (simp add: value_free_def)
qed

text \<open>Every section, stack and value is freed once, and none is left.\<close>

lemma free_ok:
  assumes ok: "conf_ok {} conf sm vm" and n: "c_next conf < SIZE_MOD"
  shows "NCONF_free conf = Some (\<lambda>_. None, \<lambda>_. None, \<lambda>_. None, \<lambda>_. None)"
proof -
  have s: "sections_ok conf sm vm" and w: "values_ok {} conf vm" using ok by (simp_all add: conf_ok_def)
  note d = sections_okD [OF s] and e = values_okD [OF w]
  have ns: "num_items (c_sections conf) < SIZE_MOD" and nv: "num_items (c_values conf) < SIZE_MOD"
    using section_bound [OF s] value_bound [OF w] n by simp_all
  from sections.doall_visits [OF d(1,2) ns, of "\<lambda>_. False"] obtain ls ss where
    ss: "OPENSSL_lh_doall_arg (visitor (\<lambda>_. False)) (c_sections conf, []) = Some (ls, ss)" "sections.table ls" "set ss = ran sm" "distinct ss" by blast
  from cvalues.doall_visits [OF e(1,2) nv, of "\<lambda>_. False"] obtain lv vs where
    vs: "OPENSSL_lh_doall_arg (visitor (\<lambda>_. False)) (c_values conf, []) = Some (lv, vs)" "cvalues.table lv" "set vs = ran vm" "distinct vs" by blast
  have fs: "section_free_arg = arg_only section_free" and fv: "value_free_arg = arg_only value_free"
    by (simp_all add: fun_eq_iff section_free_arg_def value_free_arg_def arg_only_def)
  have "fold_option section_free ss conf = Some (conf\<lparr>c_stacks := (\<lambda>_. None)\<rparr>)"
    using free_sections [of ss conf] ss(3,4) d(3,4) by simp
  then have 1: "OPENSSL_lh_doall_arg section_free_arg (c_sections conf, conf) = Some (ls, conf\<lparr>c_stacks := (\<lambda>_. None)\<rparr>)"
    unfolding fs using doall_arg [OF ss(1), of section_free conf] by simp
  have "fold_option value_free vs (conf\<lparr>c_stacks := (\<lambda>_. None)\<rparr>) = Some (conf\<lparr>c_stacks := (\<lambda>_. None), c_live := (\<lambda>_. None)\<rparr>)"
    using free_values [of vs "conf\<lparr>c_stacks := (\<lambda>_. None)\<rparr>"] vs(3,4) e(4) value_addr_inj [OF w] by simp
  then have 2: "OPENSSL_lh_doall_arg value_free_arg (c_values conf, conf\<lparr>c_stacks := (\<lambda>_. None)\<rparr>) =
      Some (lv, conf\<lparr>c_stacks := (\<lambda>_. None), c_live := (\<lambda>_. None)\<rparr>)"
    unfolding fv using doall_arg [OF vs(1), of value_free "conf\<lparr>c_stacks := (\<lambda>_. None)\<rparr>"] by simp
  have "lh_shape ls" "lh_shape lv" using ss(2) vs(2) by (simp_all add: sections.table_def cvalues.table_def lh_inv_def)
  then show ?thesis using 1 2 by (simp add: NCONF_free_def free_all)
qed

end
