(* ===== verification/ConfParse.thy ===== *)
theory ConfParse
  imports ConfInv
begin

text \<open>
  The reader of configuration files (\<^verbatim>\<open>NCONF_load_bio\<close> and its helpers in \<^verbatim>\<open>crypto/conf/conf.c\<close>).  Pointers into
  the line buffer are indices.  Where the code writes through a pointer whose place in the buffer is not
  evident, the write is \<^verbatim>\<open>None\<close> outside the buffer.
\<close>

section \<open>Characters\<close>

definition is_comment :: "byte \<Rightarrow> bool" where "is_comment c \<longleftrightarrow> c = 35"

definition is_quote :: "byte \<Rightarrow> bool" where "is_quote c \<longleftrightarrow> c = 34 \<or> c = 39 \<or> c = 96"

definition is_esc :: "byte \<Rightarrow> bool" where "is_esc c \<longleftrightarrow> c = 92"

definition is_conf_ws :: "byte \<Rightarrow> bool" where "is_conf_ws c \<longleftrightarrow> c = 32 \<or> c = 9 \<or> c = 13 \<or> c = 10"

definition is_name_char :: "byte \<Rightarrow> bool" where
  "is_name_char c \<longleftrightarrow> OPENSSL_isalnum (sint c) \<or> c = 95 \<or> c = 33 \<or> c = 46 \<or> c = 37 \<or> c = 38 \<or> c = 42 \<or> c = 43 \<or> c = 44 \<or> c = 47 \<or>
     c = 59 \<or> c = 63 \<or> c = 64 \<or> c = 94 \<or> c = 126 \<or> c = 124 \<or> c = 45"

lemmas char_defs = is_comment_def is_quote_def is_esc_def is_conf_ws_def

lemma at_nonzero: "at buf p \<noteq> 0 \<Longrightarrow> p < length buf"
  by (simp add: at_def split: if_splits)

lemma nul_chars [simp]: "\<not> is_comment 0" "\<not> is_quote 0" "\<not> is_esc 0" "\<not> is_conf_ws 0" "\<not> is_name_char 0"
  by (simp_all add: char_defs is_name_char_def OPENSSL_isalnum_def OPENSSL_isalpha_def)

lemma at_special:
  "is_esc (at buf p) \<Longrightarrow> p < length buf" "is_conf_ws (at buf p) \<Longrightarrow> p < length buf" "is_quote (at buf p) \<Longrightarrow> p < length buf"
  "is_comment (at buf p) \<Longrightarrow> p < length buf" "is_name_char (at buf p) \<Longrightarrow> p < length buf"
  using nul_chars by (metis at_nonzero)+

section \<open>Scanning\<close>

function eat_ws :: "byte list \<Rightarrow> nat \<Rightarrow> nat" where
  "eat_ws buf p = (if at buf p \<noteq> 0 \<and> is_conf_ws (at buf p) then eat_ws buf (p + 1) else p)"
  by auto
termination by (relation "measure (\<lambda>(buf, p). length buf - p)") (auto dest: at_nonzero)

definition scan_esc :: "byte list \<Rightarrow> nat \<Rightarrow> nat" where
  "scan_esc buf p = (if at buf (p + 1) = 0 then p + 1 else p + 2)"

function eat_name :: "byte list \<Rightarrow> nat \<Rightarrow> nat" where
  "eat_name buf p =
     (if is_esc (at buf p) then eat_name buf (scan_esc buf p)
      else if \<not> is_name_char (at buf p) then p
      else eat_name buf (p + 1))"
  by auto
termination by (relation "measure (\<lambda>(buf, p). length buf - p)") (auto simp: scan_esc_def dest: at_special)

text \<open>The loop of \<^verbatim>\<open>scan_quote\<close> with what follows it.\<close>

function scan_quote_loop :: "byte list \<Rightarrow> byte \<Rightarrow> nat \<Rightarrow> nat" where
  "scan_quote_loop buf q p =
     (if at buf p \<noteq> 0 \<and> at buf p \<noteq> q then
        if is_esc (at buf p) then
          if at buf (p + 1) = 0 then p + 1 else scan_quote_loop buf q (p + 2)
        else scan_quote_loop buf q (p + 1)
      else if at buf p = q then p + 1 else p)"
  by auto
termination by (relation "measure (\<lambda>(buf, q, p). length buf - p)") (auto dest: at_nonzero)

definition scan_quote :: "byte list \<Rightarrow> nat \<Rightarrow> nat" where
  "scan_quote buf p = scan_quote_loop buf (at buf p) (p + 1)"

declare eat_ws.simps [simp del] eat_name.simps [simp del] scan_quote_loop.simps [simp del]

lemma eat_ws_ge: "p \<le> eat_ws buf p"
  by (induction buf p rule: eat_ws.induct) (subst eat_ws.simps, auto dest: Suc_leD)

lemma eat_name_ge: "p \<le> eat_name buf p"
proof (induction buf p rule: eat_name.induct)
  case (1 buf p)
  have "p \<le> scan_esc buf p" by (simp add: scan_esc_def)
  then show ?case using 1 by (subst eat_name.simps) (auto dest: le_trans)
qed

lemma scan_quote_loop_ge: "p \<le> scan_quote_loop buf q p"
  by (induction buf q p rule: scan_quote_loop.induct) (subst scan_quote_loop.simps, auto dest: Suc_leD)

text \<open>The two loops of \<^verbatim>\<open>clear_comments\<close>; the result is the buffer.\<close>

function clear_comments_loop :: "byte list \<Rightarrow> nat \<Rightarrow> byte list" where
  "clear_comments_loop buf p =
     (if is_comment (at buf p) then buf[p := 0]
      else if is_quote (at buf p) then clear_comments_loop buf (scan_quote buf p)
      else if is_esc (at buf p) then clear_comments_loop buf (scan_esc buf p)
      else if at buf p = 0 then buf
      else clear_comments_loop buf (p + 1))"
  by auto
termination
proof (relation "measure (\<lambda>(buf, p). length buf - p)", goal_cases)
  case (2 buf p)
  have "p < scan_quote buf p" using scan_quote_loop_ge [of "p + 1" buf "at buf p"] by (simp add: scan_quote_def)
  moreover have "p < length buf" using 2 at_special(3) by blast
  ultimately show ?case by auto
next
  case (3 buf p)
  then show ?case using at_special(1) [of buf p] by (auto simp: scan_esc_def)
next
  case (4 buf p)
  then show ?case using at_nonzero [of buf p] by auto
qed simp

declare clear_comments_loop.simps [simp del]

text \<open>The first loop skips what \<open>eat_ws\<close> skips.\<close>

definition clear_comments :: "byte list \<Rightarrow> byte list" where
  "clear_comments buf = clear_comments_loop buf (eat_ws buf 0)"

section \<open>Copying a value\<close>

definition sc_put :: "byte list \<Rightarrow> nat \<Rightarrow> byte \<Rightarrow> byte list option" where
  "sc_put d to c = (if to < length d \<and> to < INT_MAX then Some (d[to := c]) else None)"

text \<open>The quoted part: the new position, the buffer and how much of it is written.\<close>

function str_copy_quote :: "byte list \<Rightarrow> byte \<Rightarrow> nat \<Rightarrow> byte list \<Rightarrow> nat \<Rightarrow> (nat \<times> byte list \<times> nat) option" where
  "str_copy_quote buf q p d to =
     (if at buf p \<noteq> 0 \<and> at buf p \<noteq> q then
        if is_esc (at buf p) then
          if at buf (p + 1) = 0 then Some (p + 1, d, to)
          else (case sc_put d to (at buf (p + 1)) of None \<Rightarrow> None | Some d1 \<Rightarrow> str_copy_quote buf q (p + 2) d1 (to + 1))
        else (case sc_put d to (at buf p) of None \<Rightarrow> None | Some d1 \<Rightarrow> str_copy_quote buf q (p + 1) d1 (to + 1))
      else Some (p, d, to))"
  by auto
termination by (relation "measure (\<lambda>(buf, q, p, d, to). length buf - p)") (auto dest: at_nonzero)

declare str_copy_quote.simps [simp del]

lemma str_copy_quote_ge: "str_copy_quote buf q p d to = Some (p1, d1, to1) \<Longrightarrow> p \<le> p1"
proof (induction buf q p d to rule: str_copy_quote.induct)
  case (1 buf q p d to)
  show ?case using 1(3) 1(1,2)
    by (subst (asm) str_copy_quote.simps) (auto split: if_splits option.splits dest: Suc_leD)
qed

definition unescape :: "byte \<Rightarrow> byte" where
  "unescape v = (if v = 114 then 13 else if v = 110 then 10 else if v = 98 then 8 else if v = 116 then 9 else v)"

text \<open>The loop: whether there was no \<^verbatim>\<open>$\<close>, the buffer and how much of it is written.\<close>

function str_copy_loop :: "byte list \<Rightarrow> nat \<Rightarrow> byte list \<Rightarrow> nat \<Rightarrow> (bool \<times> byte list \<times> nat) option" where
  "str_copy_loop buf p d to =
     (if is_quote (at buf p) then
        (case str_copy_quote buf (at buf p) (p + 1) d to of
           None \<Rightarrow> None
         | Some (p1, d1, to1) \<Rightarrow> str_copy_loop buf (if at buf p1 = at buf p then p1 + 1 else p1) d1 to1)
      else if is_esc (at buf p) then
        if at buf (p + 1) = 0 then Some (True, d, to)
        else (case sc_put d to (unescape (at buf (p + 1))) of None \<Rightarrow> None | Some d1 \<Rightarrow> str_copy_loop buf (p + 2) d1 (to + 1))
      else if at buf p = 0 then Some (True, d, to)
      else if at buf p = 36 then Some (False, d, to)
      else (case sc_put d to (at buf p) of None \<Rightarrow> None | Some d1 \<Rightarrow> str_copy_loop buf (p + 1) d1 (to + 1)))"
  by auto
termination
proof (relation "measure (\<lambda>(buf, p, d, to). length buf - p)", goal_cases)
  case (2 buf p d to x p1 y d1 to1)
  then have "p + 1 \<le> p1" "p < length buf" using str_copy_quote_ge at_special by blast+
  then show ?case by auto
qed (auto dest: at_special at_nonzero)

declare str_copy_loop.simps [simp del]

text \<open>
  \<^verbatim>\<open>str_copy\<close>: the string stored through \<^verbatim>\<open>pto\<close>, or the failure.  \<^verbatim>\<open>len\<close> is an \<^verbatim>\<open>int\<close>: the length is cut to 32 bits with
  a sign, and is extended again to the \<^verbatim>\<open>size_t\<close> that \<^verbatim>\<open>BUF_MEM_grow\<close> takes.
\<close>

definition int_of_size :: "nat \<Rightarrow> int" where
  "int_of_size n = sint (word_of_nat n :: u32)"

definition size_of_int :: "int \<Rightarrow> nat" where
  "size_of_int i = nat (i mod int SIZE_MOD)"

definition str_copy :: "memory \<Rightarrow> byte list \<Rightarrow> nat \<Rightarrow> byte list option option" where
  "str_copy al buf p = (case BUF_MEM_new (al [0]) of
     None \<Rightarrow> Some None
   | Some b \<Rightarrow>
       let len = int_of_size (length (cstr buf p) + 1)
       in (case BUF_MEM_grow (al [1]) (size_of_int len) b of (n, b) \<Rightarrow>
           if n = 0 then Some None
           else (case str_copy_loop buf p (bm_data b) 0 of
               None \<Rightarrow> None
             | Some (False, _, _) \<Rightarrow> Some None
             | Some (True, d, to) \<Rightarrow> if to < length d then Some (Some (cstr (d[to := 0]) 0)) else None)))"

section \<open>Reading lines\<close>

text \<open>
  The locals of \<^verbatim>\<open>NCONF_load_bio\<close> that live across lines.  \<open>'b\<close> is the BIO, and \<open>gets\<close> its \<^verbatim>\<open>BIO_gets\<close>: the result,
  the bytes written before the NUL, and the BIO afterwards.
\<close>

record 'b load_st =
  ld_in :: 'b
  ld_buff :: buf_mem
  ld_bufnum :: nat
  ld_again :: bool
  ld_eline :: int
  ld_section :: "byte list"
  ld_sv :: csection
  ld_conf :: conf_st

definition CONFBUFSIZE :: nat where "CONFBUFSIZE = 512"

fun trim_eol :: "byte list \<Rightarrow> nat \<Rightarrow> nat \<Rightarrow> nat" where
  "trim_eol buf p 0 = 0"
| "trim_eol buf p (Suc i) = (if at buf (p + i) \<noteq> 13 \<and> at buf (p + i) \<noteq> 10 then Suc i else trim_eol buf p i)"

text \<open>\<open>Read_overflow\<close>: the \<^verbatim>\<open>int\<close> that counts the bytes of the line is no longer in its range.\<close>

datatype 's chunk = Read_fail 's | Read_end 's | Read_more 's | Read_line 's | Read_overflow

text \<open>
  The buffer after \<^verbatim>\<open>BIO_gets\<close> at \<open>p\<close>; then, with \<open>ii\<close> bytes read there, the end of the line: whether it goes on in
  the file, the buffer, \<^verbatim>\<open>bufnum\<close>, and \<^verbatim>\<open>again\<close>, which a backslash at the end sets too.
\<close>

definition fetched :: "nat \<Rightarrow> int \<Rightarrow> byte list \<Rightarrow> byte list \<Rightarrow> byte list" where
  "fetched p ret bs d =
     (let d = d[p := 0]; d = (if ret \<ge> 0 then put_bytes p (bs @ [0]) d else d) in d[p + CONFBUFSIZE - 1 := 0])"

definition end_line :: "byte list \<Rightarrow> nat \<Rightarrow> nat \<Rightarrow> bool \<times> byte list \<times> nat \<times> bool" where
  "end_line d p ii =
     (let i = trim_eol d p ii;
          long = (ii \<noteq> 0 \<and> i = ii);
          d = (if long then d else d[p + i := 0]);
          bufnum = p + i;
          esc = (bufnum \<ge> 1 \<and> is_esc (at d (bufnum - 1)) \<and> (bufnum \<le> 1 \<or> \<not> is_esc (at d (bufnum - 2))))
      in (long, d, if esc then bufnum - 1 else bufnum, esc \<or> long))"

text \<open>The loop up to the point where a whole line is in the buffer.\<close>

definition read_chunk :: "allocator \<Rightarrow> (int \<Rightarrow> 'b \<Rightarrow> int \<times> byte list \<times> 'b) \<Rightarrow> 'b load_st \<Rightarrow> 'b load_st chunk" where
  "read_chunk al gets st = (case BUF_MEM_grow al (size_add (ld_bufnum st) CONFBUFSIZE) (ld_buff st) of (n, buff) \<Rightarrow>
     if n = 0 then Read_fail (st\<lparr>ld_buff := buff\<rparr>)
     else (case gets (int CONFBUFSIZE - 1) (ld_in st) of (ret, bs, inp) \<Rightarrow>
       let d = fetched (ld_bufnum st) ret bs (bm_data buff);
           ii = length (cstr d (ld_bufnum st))
       in if ii = 0 \<and> \<not> ld_again st then Read_end (st\<lparr>ld_in := inp, ld_buff := buff\<lparr>bm_data := d\<rparr>\<rparr>)
          else if ld_bufnum st + trim_eol d (ld_bufnum st) ii > INT_MAX then Read_overflow
          else (case end_line d (ld_bufnum st) ii of (long, d, bufnum, again) \<Rightarrow>
            let st = st\<lparr>ld_in := inp, ld_buff := buff\<lparr>bm_data := d\<rparr>, ld_bufnum := bufnum, ld_again := again,
                  ld_eline := (if long then ld_eline st else ld_eline st + 1)\<rparr>
            in if again then Read_more st else Read_line (st\<lparr>ld_bufnum := 0\<rparr>))))"

section \<open>Section headers\<close>

text \<open>The end of the name, from the \<^verbatim>\<open>again:\<close> label on: names may be several words before the bracket.\<close>

function section_end :: "byte list \<Rightarrow> nat \<Rightarrow> nat option" where
  "section_end buf ss =
     (let e = eat_name buf ss; p = eat_ws buf e
      in if at buf p \<noteq> 93 then if at buf p \<noteq> 0 \<and> ss \<noteq> p then section_end buf p else None
         else Some e)"
  by auto
termination
proof (relation "measure (\<lambda>(buf, ss). length buf - ss)", goal_cases)
  case (2 buf ss e p)
  have "ss \<le> p" unfolding 2(1,2) using eat_name_ge eat_ws_ge le_trans by blast
  then have "ss < p" "p < length buf" using 2(3,4) at_nonzero by auto
  then show ?case by auto
qed simp

declare section_end.simps [simp del]

text \<open>A section by its name, made when it is not there.\<close>

definition find_section :: "memory \<Rightarrow> byte list \<Rightarrow> conf_st \<Rightarrow> (csection option \<times> conf_st) option" where
  "find_section al nm conf = (case get_section conf nm of
     None \<Rightarrow> None
   | Some (Some s) \<Rightarrow> Some (Some s, conf)
   | Some None \<Rightarrow> NCONF_new_section al nm conf)"

text \<open>A line that starts with a bracket at \<open>s\<close>: success, and the state.\<close>

definition load_header :: "memory \<Rightarrow> byte list \<Rightarrow> nat \<Rightarrow> 'b load_st \<Rightarrow> (bool \<times> 'b load_st) option" where
  "load_header al buf s st =
     (let start = eat_ws buf (s + 1)
      in (case section_end buf start of
          None \<Rightarrow> Some (False, st)
        | Some e \<Rightarrow>
            let buf = buf[e := 0]; st = st\<lparr>ld_buff := (ld_buff st)\<lparr>bm_data := buf\<rparr>\<rparr>
            in (case str_copy (sub 0 al) buf start of
                None \<Rightarrow> None
              | Some None \<Rightarrow> Some (False, st)
              | Some (Some section) \<Rightarrow> (case find_section (sub 1 al) section (ld_conf st) of
                  None \<Rightarrow> None
                | Some (None, conf) \<Rightarrow> Some (False, st\<lparr>ld_section := section, ld_conf := conf\<rparr>)
                | Some (Some sv, conf) \<Rightarrow> Some (True, st\<lparr>ld_section := section, ld_sv := sv, ld_conf := conf\<rparr>)))))"

section \<open>Assignments\<close>

text \<open>Trailing white space, down to \<open>start\<close>; below the buffer there is nothing to read.\<close>

fun trim_ws :: "byte list \<Rightarrow> nat \<Rightarrow> nat \<Rightarrow> nat option" where
  "trim_ws buf start 0 = (if 0 \<noteq> start \<and> is_conf_ws (at buf 0) then None else Some 0)"
| "trim_ws buf start (Suc p) = (if Suc p \<noteq> start \<and> is_conf_ws (at buf (Suc p)) then trim_ws buf start p else Some (Suc p))"

text \<open>
  The pieces of an assignment: the section if one is given, the name, where the value starts, and the
  buffer with the pieces cut.
\<close>

definition split_assign :: "byte list \<Rightarrow> nat \<Rightarrow> (nat option \<times> nat \<times> nat \<times> byte list) option option" where
  "split_assign buf s =
     (let e = eat_name buf s;
          (psection, pname, e, buf) =
            (if at buf e = 58 \<and> at buf (e + 1) = 58 then
               let buf1 = buf[e := 0] in (Some s, e + 2, eat_name buf1 (e + 2), buf1)
             else (None, s, e, buf));
          p = eat_ws buf e
      in if at buf p \<noteq> 61 then Some None
         else
           let buf = buf[e := 0];
               p = p + 1;
               start = eat_ws buf p
           in (case trim_ws buf start (p + length (cstr buf p) - 1) of
               None \<Rightarrow> None
             | Some k \<Rightarrow> Some (Some (psection, pname, start, buf[k + 1 := 0]))))"

text \<open>Giving up on a value: it is freed.\<close>

definition drop_value :: "cvalue \<Rightarrow> conf_st \<Rightarrow> 'b load_st \<Rightarrow> (bool \<times> 'b load_st) option" where
  "drop_value v conf st = map_option (\<lambda>conf. (False, st\<lparr>ld_conf := conf\<rparr>)) (value_free v conf)"

definition load_assign :: "memory \<Rightarrow> byte list \<Rightarrow> nat \<Rightarrow> 'b load_st \<Rightarrow> (bool \<times> 'b load_st) option" where
  "load_assign al buf s st = (case split_assign buf s of
     None \<Rightarrow> None
   | Some None \<Rightarrow> Some (False, st)
   | Some (Some (psec, pname, start, buf)) \<Rightarrow>
       let st = st\<lparr>ld_buff := (ld_buff st)\<lparr>bm_data := buf\<rparr>\<rparr>
       in (case CONF_VALUE_new (al [0]) (ld_conf st) of
           None \<Rightarrow> Some (False, st)
         | Some (v, conf) \<Rightarrow>
             let psection = (case psec of None \<Rightarrow> ld_section st | Some q \<Rightarrow> cstr buf q)
             in (case OPENSSL_strdup (al [1]) (cstr buf pname) of
                 None \<Rightarrow> drop_value v conf st
               | Some nm \<Rightarrow> (case str_copy (sub 2 al) buf start of
                   None \<Rightarrow> None
                 | Some None \<Rightarrow> drop_value v conf st
                 | Some (Some val) \<Rightarrow>
                     let v = v\<lparr>cv_name := nm, cv_value := val\<rparr>
                     in (case (if strcmp psection (ld_section st) \<noteq> 0 then find_section (sub 3 al) psection conf else Some (Some (ld_sv st), conf)) of
                         None \<Rightarrow> None
                       | Some (None, conf) \<Rightarrow> drop_value v conf st
                       | Some (Some tv, conf) \<Rightarrow> (case add_string (sub 4 al) tv v conf of
                           None \<Rightarrow> None
                         | Some (False, conf) \<Rightarrow> drop_value v conf st
                         | Some (True, conf) \<Rightarrow> Some (True, st\<lparr>ld_conf := conf\<rparr>)))))))"

section \<open>The whole file\<close>

definition load_line :: "memory \<Rightarrow> 'b load_st \<Rightarrow> (bool \<times> 'b load_st) option" where
  "load_line al st =
     (let buf = clear_comments (bm_data (ld_buff st));
          st = st\<lparr>ld_buff := (ld_buff st)\<lparr>bm_data := buf\<rparr>\<rparr>;
          s = eat_ws buf 0
      in if at buf s = 0 then Some (True, st)
         else if at buf s = 91 then load_header al buf s st
         else load_assign al buf s st)"

partial_function (option) load_loop ::
    "memory \<Rightarrow> (int \<Rightarrow> 'b \<Rightarrow> int \<times> byte list \<times> 'b) \<Rightarrow> 'b load_st \<Rightarrow> (bool \<times> 'b load_st) option" where
  "load_loop al gets st = (case read_chunk (al [0]) gets st of
     Read_fail st1 \<Rightarrow> Some (False, st1)
   | Read_end st1 \<Rightarrow> Some (True, st1)
   | Read_more st1 \<Rightarrow> load_loop (sub 2 al) gets st1
   | Read_line st1 \<Rightarrow> (case load_line (sub 1 al) st1 of
       None \<Rightarrow> None
     | Some (ok, st2) \<Rightarrow> if ok then load_loop (sub 2 al) gets st2 else Some (False, st2))
   | Read_overflow \<Rightarrow> None)"

text \<open>\<^verbatim>\<open>NCONF_load_bio\<close>: success, the line of an error, the BIO and the store.\<close>

definition NCONF_load_bio ::
    "memory \<Rightarrow> (int \<Rightarrow> 'b \<Rightarrow> int \<times> byte list \<times> 'b) \<Rightarrow> 'b \<Rightarrow> conf_st \<Rightarrow> (bool \<times> int \<times> 'b \<times> conf_st) option" where
  "NCONF_load_bio al gets inp conf = (case BUF_MEM_new (al [0]) of
     None \<Rightarrow> Some (False, 0, inp, conf)
   | Some buff \<Rightarrow> (case OPENSSL_strdup (al [1]) kDefaultSectionName of
       None \<Rightarrow> Some (False, 0, inp, conf)
     | Some section \<Rightarrow> (case NCONF_new_section (sub 2 al) section conf of
         None \<Rightarrow> None
       | Some (None, conf) \<Rightarrow> Some (False, 0, inp, conf)
       | Some (Some sv, conf) \<Rightarrow>
           map_option (\<lambda>(ok, st). (ok, ld_eline st, ld_in st, ld_conf st))
             (load_loop (sub 3 al) gets \<lparr>ld_in = inp, ld_buff = buff, ld_bufnum = 0, ld_again = False, ld_eline = 0,
                ld_section = section, ld_sv = sv, ld_conf = conf\<rparr>))))"

end
