(* ===== verification/ConfScan.thy ===== *)
theory ConfScan
  imports ConfParse
begin

text \<open>
  What the scanners of the configuration reader do on strings: a reference definition of the copying of a
  value, which \<^verbatim>\<open>str_copy\<close> implements without writing outside its buffer, and that the scan for trailing
  white space stays in the line.
\<close>

section \<open>The strings in a buffer\<close>

lemma cstr_Cons: "cstr buf p = c # cs \<longleftrightarrow> c \<noteq> 0 \<and> at buf p = c \<and> cstr buf (Suc p) = cs"
  using at_cstr [of buf p] at_0_cstr [of buf p] by (cases "at buf p = 0") auto

lemma cstr_Nil: "cstr buf p = [] \<longleftrightarrow> at buf p = 0"
  by (rule cstr_empty)

lemma cstr_nonzero: "0 \<notin> set (cstr buf p)"
  using set_takeWhileD by (fastforce simp: cstr_def)

lemma cstr_length: "length (cstr buf p) \<le> length buf - p"
  unfolding cstr_def using length_takeWhile_le [of "\<lambda>c. c \<noteq> 0" "drop p buf"] by simp

lemma cstr_terminated: "0 \<notin> set xs \<Longrightarrow> drop p buf = xs @ 0 # r \<Longrightarrow> cstr buf p = xs"
  unfolding cstr_def by (simp, subst takeWhile_append2) auto

section \<open>A reference definition of value copying\<close>

text \<open>The quoted part and what is behind it; then the whole string, where a \<^verbatim>\<open>$\<close> outside quotes is an error.\<close>

fun quoted :: "byte \<Rightarrow> byte list \<Rightarrow> byte list \<times> byte list" where
  "quoted q [] = ([], [])"
| "quoted q (c # cs) =
     (if c = q then ([], cs)
      else if is_esc c then (case cs of [] \<Rightarrow> ([], []) | e # r \<Rightarrow> (let (a, b) = quoted q r in (e # a, b)))
      else (let (a, b) = quoted q cs in (c # a, b)))"

lemma quoted_length: "quoted q cs = (a, b) \<Longrightarrow> length a + length b \<le> length cs"
proof (induction q cs arbitrary: a b rule: quoted.induct)
  case (2 q c cs)
  show ?case using 2(3) 2(1,2) by (auto split: if_splits list.splits prod.splits intro: le_SucI)
qed simp

function unescaped :: "byte list \<Rightarrow> byte list option" where
  "unescaped [] = Some []"
| "unescaped (c # cs) =
     (if is_quote c then map_option ((@) (fst (quoted c cs))) (unescaped (snd (quoted c cs)))
      else if is_esc c then (case cs of [] \<Rightarrow> Some [] | e # r \<Rightarrow> map_option ((#) (unescape e)) (unescaped r))
      else if c = 36 then None
      else map_option ((#) c) (unescaped cs))"
  by pat_completeness auto
termination
proof (relation "measure length", goal_cases)
  case (2 c cs)
  then show ?case using quoted_length [of c cs "fst (quoted c cs)" "snd (quoted c cs)"] by simp
qed simp_all

lemma unescaped_length: "unescaped cs = Some xs \<Longrightarrow> length xs \<le> length cs"
proof (induction cs arbitrary: xs rule: unescaped.induct)
  case (2 c cs)
  show ?case
  proof (cases "is_quote c")
    case True
    obtain a b where ab: "quoted c cs = (a, b)" by fastforce
    then obtain ys where "unescaped b = Some ys" "xs = a @ ys" using 2(4) True by auto
    then show ?thesis using 2(1) [OF True, of ys] ab quoted_length [OF ab] by simp
  next
    case False
    then show ?thesis using 2(2-4) by (auto split: if_splits list.splits intro: le_SucI)
  qed
qed simp

lemma quoted_nonzero: "quoted q cs = (a, b) \<Longrightarrow> 0 \<notin> set cs \<Longrightarrow> 0 \<notin> set a \<and> 0 \<notin> set b"
proof (induction q cs arbitrary: a b rule: quoted.induct)
  case (2 q c cs)
  show ?case using 2(3,4) 2(1,2) by (auto split: if_splits list.splits prod.splits)
qed simp

lemma unescape_nonzero: "c \<noteq> 0 \<Longrightarrow> unescape c \<noteq> 0"
  by (simp add: unescape_def)

lemma unescaped_nonzero: "unescaped cs = Some xs \<Longrightarrow> 0 \<notin> set cs \<Longrightarrow> 0 \<notin> set xs"
proof (induction cs arbitrary: xs rule: unescaped.induct)
  case (2 c cs)
  show ?case
  proof (cases "is_quote c")
    case True
    obtain a b where ab: "quoted c cs = (a, b)" by fastforce
    then obtain ys where "unescaped b = Some ys" "xs = a @ ys" using 2(4) True by auto
    then show ?thesis using 2(1) [OF True, of ys] 2(5) ab quoted_nonzero [OF ab] by simp
  next
    case False
    then show ?thesis using 2(2-5) unescape_nonzero by (fastforce split: if_splits list.splits)
  qed
qed simp

section \<open>The copying\<close>

text \<open>There is room for \<open>n\<close> bytes and a NUL, in the buffer and in the \<^verbatim>\<open>int\<close> that counts them.\<close>

definition room :: "byte list \<Rightarrow> nat \<Rightarrow> nat \<Rightarrow> bool" where
  "room d to n \<longleftrightarrow> to + n < length d \<and> to + n \<le> INT_MAX"

lemma put_ok: "room d to (Suc n) \<Longrightarrow> sc_put d to c = Some (d[to := c])"
  by (simp add: sc_put_def room_def)

lemma room_put: "room d to (Suc n) \<Longrightarrow> room (d[to := c]) (to + 1) n"
  by (simp add: room_def)

lemma room_less: "room d to n \<Longrightarrow> k \<le> n \<Longrightarrow> room d to k"
  by (simp add: room_def)

lemma room_in: "room d to n \<Longrightarrow> to < length d"
  by (simp add: room_def)

lemma take_put: "to < length d \<Longrightarrow> take (Suc to) (d[to := c]) = take to d @ [c]"
  by (simp add: take_Suc_conv_app_nth)

lemma str_copy_quote_correct:
  assumes "room d to (length (cstr buf p))" "q \<noteq> 0" "quoted q (cstr buf p) = (a, b)"
  shows "\<exists>p1 d1. str_copy_quote buf q p d to = Some (p1, d1, to + length a) \<and> length d1 = length d \<and>
    take (to + length a) d1 = take to d @ a \<and> cstr buf (if at buf p1 = q then p1 + 1 else p1) = b"
  using assms
proof (induction buf q p d to arbitrary: a b rule: str_copy_quote.induct)
  case (1 buf q p d to)
  show ?case
  proof (cases "at buf p \<noteq> 0 \<and> at buf p \<noteq> q")
    case False
    then show ?thesis using 1(4,5) at_cstr [of buf p] at_0_cstr [of buf p]
      by (subst str_copy_quote.simps) auto
  next
    case True
    then have c: "cstr buf p = at buf p # cstr buf (Suc p)" by (simp add: at_cstr)
    show ?thesis
    proof (cases "is_esc (at buf p)")
      case esc: True
      show ?thesis
      proof (cases "at buf (p + 1) = 0")
        case z: True
        then have "cstr buf (Suc p) = []" by (simp add: cstr_Nil)
        then have "a = []" "b = []" using 1(5) True esc by (simp_all add: c)
        then show ?thesis using z True esc 1(4) by (subst str_copy_quote.simps) (simp add: cstr_Nil)
      next
        case nz: False
        then have c2: "cstr buf (Suc p) = at buf (Suc p) # cstr buf (Suc (Suc p))" by (simp add: at_cstr)
        obtain a1 where q: "quoted q (cstr buf (p + 2)) = (a1, b)" "a = at buf (Suc p) # a1"
          using 1(5) True esc by (auto simp: c c2 split: prod.splits)
        have to: "room d to (Suc (Suc (length (cstr buf (p + 2)))))" using 1(3) by (simp add: c c2)
        note to2 = room_less [OF to, of "Suc (length (cstr buf (p + 2)))", simplified]
        from 1(1) [OF True esc nz put_ok [OF to] _ 1(4) q(1)] room_put [OF to2] show ?thesis
          using True esc nz room_in [OF to] by (subst str_copy_quote.simps) (auto simp: put_ok [OF to] take_put q(2))
      qed
    next
      case esc: False
      obtain a1 where q: "quoted q (cstr buf (p + 1)) = (a1, b)" "a = at buf p # a1"
        using 1(5) True esc by (auto simp: c split: prod.splits)
      have to: "room d to (Suc (length (cstr buf (p + 1))))" using 1(3) by (simp add: c)
      from 1(2) [OF True esc put_ok [OF to] room_put [OF to] 1(4) q(1)] show ?thesis
        using True esc room_in [OF to] by (subst str_copy_quote.simps) (auto simp: put_ok [OF to] take_put q(2))
    qed
  qed
qed

text \<open>The result in the buffer: \<open>o\<close> behind what was there, or the failure at a \<^verbatim>\<open>$\<close>.\<close>

definition copies :: "byte list \<Rightarrow> nat \<Rightarrow> byte list option \<Rightarrow> (bool \<times> byte list \<times> nat) option \<Rightarrow> bool" where
  "copies d to r res \<longleftrightarrow> (\<exists>ok d1 to1. res = Some (ok, d1, to1) \<and> (case r of None \<Rightarrow> \<not> ok
     | Some xs \<Rightarrow> ok \<and> to1 = to + length xs \<and> length d1 = length d \<and> take to1 d1 = take to d @ xs))"

lemma copies_step:
  assumes "copies d1 (to + length a) r res" "length d1 = length d" "take (to + length a) d1 = take to d @ a"
  shows "copies d to (map_option ((@) a) r) res"
  using assms by (cases r) (auto simp: copies_def add.assoc)

lemma str_copy_loop_correct:
  assumes "room d to (length (cstr buf p))"
  shows "copies d to (unescaped (cstr buf p)) (str_copy_loop buf p d to)"
  using assms
proof (induction buf p d to rule: str_copy_loop.induct)
  case (1 buf p d to)
  show ?case
  proof (cases "at buf p = 0")
    case True
    then have "cstr buf p = []" by (simp add: cstr_Nil)
    then show ?thesis using True by (subst str_copy_loop.simps) (auto simp: copies_def intro: exI [of _ True])
  next
    case nz: False
    then have c: "cstr buf p = at buf p # cstr buf (Suc p)" by (simp add: at_cstr)
    have room: "room d to (Suc (length (cstr buf (Suc p))))" using 1(4) by (simp add: c)
    note to = room_in [OF room]
    have put: "copies d to (map_option ((#) v) r) res" if "copies (d[to := v]) (to + 1) r res" for v r res
    proof -
      have "(@) [v] = (#) v" by (rule ext) simp
      then show ?thesis using copies_step [of "d[to := v]" to "[v]" r res d] that to by (simp add: take_put)
    qed
    consider "is_quote (at buf p)" | "is_esc (at buf p)" "\<not> is_quote (at buf p)" | "at buf p = 36" "\<not> is_esc (at buf p)" "\<not> is_quote (at buf p)"
      | "at buf p \<noteq> 36" "\<not> is_esc (at buf p)" "\<not> is_quote (at buf p)" by blast
    then show ?thesis
    proof cases
      case q: 1
      obtain a b where ab: "quoted (at buf p) (cstr buf (p + 1)) = (a, b)" by fastforce
      have "room d to (length (cstr buf (p + 1)))" using room by (auto intro: room_less)
      from str_copy_quote_correct [OF this nz ab] obtain p1 d1 where
        r: "str_copy_quote buf (at buf p) (p + 1) d to = Some (p1, d1, to + length a)" "length d1 = length d"
          "take (to + length a) d1 = take to d @ a" "cstr buf (if at buf p1 = at buf p then p1 + 1 else p1) = b" by blast
      have "room d1 (to + length a) (length b)" using quoted_length [OF ab] room r(2) by (simp add: room_def)
      then have "copies d1 (to + length a) (unescaped b) (str_copy_loop buf (if at buf p1 = at buf p then p1 + 1 else p1) d1 (to + length a))"
        using 1(1) [OF q r(1) refl refl] r(4) by simp
      from copies_step [OF this r(2,3)] show ?thesis using q r(1) ab by (subst str_copy_loop.simps) (simp add: c)
    next
      case e: 2
      show ?thesis
      proof (cases "at buf (p + 1) = 0")
        case True
        then have "cstr buf (Suc p) = []" by (simp add: cstr_Nil)
        then show ?thesis using e True by (subst str_copy_loop.simps) (auto simp: c copies_def intro: exI [of _ True])
      next
        case False
        then have c2: "cstr buf (Suc p) = at buf (Suc p) # cstr buf (p + 2)" by (simp add: at_cstr)
        have "room (d[to := unescape (at buf (p + 1))]) (to + 1) (length (cstr buf (p + 2)))" using room by (simp add: room_def c2)
        from put [OF 1(2) [OF e(2,1) False put_ok [OF room] this]] show ?thesis
          using e False by (subst str_copy_loop.simps) (simp add: c c2 put_ok [OF room])
      qed
    next
      case 3
      then show ?thesis by (subst str_copy_loop.simps) (auto simp: c copies_def intro: exI [of _ True])
    next
      case n: 4
      have "room (d[to := at buf p]) (to + 1) (length (cstr buf (p + 1)))" using room_put [OF room] by simp
      from put [OF 1(3) [OF n(3,2) nz n(1) put_ok [OF room] this]] show ?thesis
        using n nz by (subst str_copy_loop.simps) (simp add: c put_ok [OF room])
    qed
  qed
qed

lemma grow_ok:
  assumes "buf_ok b" "BUF_MEM_grow al len b = (n, b')"
  shows "buf_ok b' \<and> (n \<noteq> 0 \<longrightarrow> n = len \<and> len \<le> length (bm_data b'))"
proof -
  obtain ok b1 where r: "BUF_MEM_reserve al len b = (ok, b1)" by fastforce
  note k = reserve_ok [OF assms(1) r]
  show ?thesis
  proof (cases ok)
    case True
    have "length (put_bytes (bm_length b1) (replicate (len - bm_length b1) 0) (bm_data b1)) = length (bm_data b1)" if "bm_length b1 < len"
      using k True that by (auto simp: put_bytes_def buf_ok_def)
    then show ?thesis using assms(2) r True k by (auto simp: BUF_MEM_grow_def Let_def buf_ok_def)
  next
    case False
    then show ?thesis using assms(2) r k by (auto simp: BUF_MEM_grow_def)
  qed
qed

lemma grow_granted:
  assumes "buf_ok b" "\<And>n. al n" "0 < len" "len < 2 ^ 61"
  shows "fst (BUF_MEM_grow al len b) = len"
proof -
  have s: "size_add len 3 = len + 3" using assms(4) by (simp add: size_add_def SIZE_MOD_def)
  have "(len + 3) div 3 * 4 < SIZE_MOD" using assms(4) by (simp add: SIZE_MOD_def)
  then have "fst (BUF_MEM_reserve al len b)" using assms(2) unfolding BUF_MEM_reserve_def Let_def s by simp
  then show ?thesis by (cases "BUF_MEM_reserve al len b") (auto simp: BUF_MEM_grow_def Let_def split: bool.split)
qed

lemma cstr_take:
  assumes "take n d = xs" "n < length d" "0 \<notin> set xs"
  shows "cstr (d[n := 0]) 0 = xs"
proof -
  have "d[n := 0] = xs @ 0 # drop (Suc n) d" using assms(1,2) by (simp add: upd_conv_take_nth_drop)
  then show ?thesis using cstr_terminated [OF assms(3), of 0 "d[n := 0]"] by simp
qed

text \<open>The buffer that a copy asks for, when the memory grants it.\<close>

lemma reserve_exact:
  assumes "bm_max b = 0" "0 < len" "len < 2 ^ 61"
  shows "BUF_MEM_reserve al len b = (if al ((len + 3) div 3 * 4)
      then (True, b\<lparr>bm_data := bm_data b @ replicate ((len + 3) div 3 * 4) 0, bm_max := (len + 3) div 3 * 4\<rparr>) else (False, b))"
proof -
  have s: "size_add len 3 = len + 3" using assms(3) by (simp add: size_add_def SIZE_MOD_def)
  have m: "(len + 3) div 3 * 4 mod SIZE_MOD = (len + 3) div 3 * 4" using assms(3) by (simp add: SIZE_MOD_def)
  show ?thesis using assms(1,2) unfolding BUF_MEM_reserve_def Let_def s m by simp
qed

text \<open>A copy is refused only when its memory is; otherwise it is what the reference definition says.\<close>

definition copy_granted :: "memory \<Rightarrow> nat \<Rightarrow> bool" where
  "copy_granted al n \<longleftrightarrow> al [0] BUF_MEM_SIZE \<and> al [1] ((n + 1 + 3) div 3 * 4)"

lemma size_of_int_small: "n \<le> INT_MAX \<Longrightarrow> size_of_int (int_of_size n) = n"
proof -
  assume n: "n \<le> INT_MAX"
  then have "sint (word_of_nat n :: u32) = int n"
    by (simp add: INT_MAX_def signed_of_nat signed_take_bit_int_eq_self)
  then show ?thesis using n by (simp add: int_of_size_def size_of_int_def INT_MAX_def SIZE_MOD_def)
qed

lemma str_copy_exact:
  assumes "length (cstr buf p) < INT_MAX"
  shows "str_copy al buf p = Some (if copy_granted al (length (cstr buf p)) then unescaped (cstr buf p) else None)"
proof (cases "al [0] BUF_MEM_SIZE")
  case False
  then show ?thesis by (simp add: str_copy_def BUF_MEM_new_def copy_granted_def)
next
  case True
  let ?len = "length (cstr buf p) + 1"
  define b where "b = \<lparr>bm_length = 0, bm_data = [], bm_max = 0\<rparr>"
  have new: "BUF_MEM_new (al [0]) = Some b" using True by (simp add: BUF_MEM_new_def b_def)
  have bo: "buf_ok b" "bm_max b = 0" using buf_new [OF new] by (simp_all add: b_def)
  have len: "size_of_int (int_of_size ?len) = ?len" "0 < ?len" "?len < 2 ^ 61"
    using assms size_of_int_small [of ?len] by (simp_all add: INT_MAX_def)
  obtain n b1 where g: "BUF_MEM_grow (al [1]) ?len b = (n, b1)" by fastforce
  have code: "str_copy al buf p = (if n = 0 then Some None else (case str_copy_loop buf p (bm_data b1) 0 of
         None \<Rightarrow> None
       | Some (False, _, _) \<Rightarrow> Some None
       | Some (True, d, to) \<Rightarrow> if to < length d then Some (Some (cstr (d[to := 0]) 0)) else None))"
    unfolding str_copy_def new option.case Let_def len(1) g prod.case ..
  have n: "n = 0 \<longleftrightarrow> \<not> copy_granted al (length (cstr buf p))"
    using g True reserve_exact [OF bo(2) len(2,3), of "al [1]"] by (auto simp: BUF_MEM_grow_def copy_granted_def Let_def add.commute [of _ 4] split: if_splits)
  show ?thesis
  proof (cases "n = 0")
    case True
    then show ?thesis using code n by simp
  next
    case False
    have k: "?len \<le> length (bm_data b1)" using grow_ok [OF bo(1) g] False by blast
    then have "room (bm_data b1) 0 (length (cstr buf p))" using assms by (simp add: room_def)
    from str_copy_loop_correct [OF this] obtain ok d1 to1 where
      r: "str_copy_loop buf p (bm_data b1) 0 = Some (ok, d1, to1)" "case unescaped (cstr buf p) of None \<Rightarrow> \<not> ok
        | Some xs \<Rightarrow> ok \<and> to1 = length xs \<and> length d1 = length (bm_data b1) \<and> take to1 d1 = xs"
      unfolding copies_def take_0 append_Nil add_0 by blast
    show ?thesis
    proof (cases "unescaped (cstr buf p)")
      case None
      then show ?thesis using r code n False by simp
    next
      case u: (Some xs)
      have t: "to1 < length d1" using r(2) u unescaped_length [OF u] k by simp
      moreover have "cstr (d1[to1 := 0]) 0 = xs"
      proof (rule cstr_take [OF _ t])
        show "take to1 d1 = xs" using r(2) unfolding u option.case by blast
        show "0 \<notin> set xs" by (rule unescaped_nonzero [OF u cstr_nonzero])
      qed
      ultimately show ?thesis using r u code n False by simp
    qed
  qed
qed

text \<open>A longer string has a negative length, which no memory can hold, or the length 0, which is refused too.\<close>

lemma size_of_int_negative:
  assumes "INT_MAX < n" "n < 2 ^ 32"
  shows "size_of_int (int_of_size n) = 2 ^ 64 - 2 ^ 32 + n"
proof -
  have "sint (word_of_nat n :: u32) = int n - 2 ^ 32"
  proof -
    have "n div 2147483648 = 1" using assms by (simp add: INT_MAX_def div_nat_eqI)
    then have "int n div 2147483648 = 1" using zdiv_int [of n 2147483648] by simp
    then have "bit (int n) 31" by (simp add: bit_iff_odd)
    then show ?thesis using assms(2) by (simp add: signed_of_nat signed_take_bit_eq_take_bit_minus take_bit_int_eq_self)
  qed
  moreover have "(int n - 2 ^ 32) mod 2 ^ 64 = (int n - 2 ^ 32 + 2 ^ 64) mod 2 ^ 64" by (rule mod_add_self2 [symmetric])
  moreover have "\<dots> = int n - 2 ^ 32 + 2 ^ 64" using assms by (intro mod_pos_pos_trivial) simp_all
  ultimately show ?thesis by (simp add: int_of_size_def size_of_int_def SIZE_MOD_def nat_eq_iff)
qed

lemma str_copy_too_long:
  assumes "INT_MAX \<le> length (cstr buf p)" "length (cstr buf p) < 2 ^ 32"
  shows "str_copy al buf p = Some None"
proof (cases "BUF_MEM_new (al [0])")
  case None
  then show ?thesis by (simp add: str_copy_def)
next
  case (Some b)
  then have b: "bm_max b = 0" by (auto simp: BUF_MEM_new_def split: if_splits)
  let ?n = "length (cstr buf p) + 1"
  let ?s = "size_of_int (int_of_size ?n)"
  have "fst (BUF_MEM_grow (al [1]) ?s b) = 0"
  proof (cases "?n < 2 ^ 32")
    case False
    then have "?n = 2 ^ 32" using assms(2) by simp
    then have "(word_of_nat ?n :: u32) = 0" by (simp add: word_of_nat_eq_0_iff)
    then have "?s = 0" by (simp add: int_of_size_def size_of_int_def)
    then show ?thesis by (simp add: BUF_MEM_grow_def BUF_MEM_reserve_def Let_def)
  next
    case True
    then have s: "?s = 2 ^ 64 - 2 ^ 32 + ?n" using assms(1) by (intro size_of_int_negative) simp_all
    have "BUF_MEM_reserve (al [1]) ?s b = (False, b)"
    proof (cases "?s + 3 < SIZE_MOD")
      case wraps: False
      then have "size_add ?s 3 < ?s" using s True size_add_wraps [of ?s 3] by (simp add: SIZE_MOD_def)
      then show ?thesis using b s unfolding BUF_MEM_reserve_def Let_def by simp
    next
      case False': True
      then have a: "size_add ?s 3 = ?s + 3" by (simp add: size_add_def)
      define m where "m = (?s + 3) div 3"
      have m: "SIZE_MOD \<le> m * 4" unfolding m_def s by (simp add: SIZE_MOD_def)
      have "m * 4 mod SIZE_MOD div 4 \<noteq> m"
      proof
        assume e: "m * 4 mod SIZE_MOD div 4 = m"
        have "m * 4 \<le> m * 4 mod SIZE_MOD" using div_times_less_eq_dividend [of "m * 4 mod SIZE_MOD" 4] unfolding e .
        also have "\<dots> < SIZE_MOD" by (simp add: SIZE_MOD_def)
        finally show False using m by simp
      qed
      then show ?thesis using b s unfolding BUF_MEM_reserve_def Let_def a m_def [symmetric] by simp
    qed
    then show ?thesis by (simp add: BUF_MEM_grow_def)
  qed
  then show ?thesis using Some by (cases "BUF_MEM_grow (al [1]) ?s b") (simp add: str_copy_def Let_def)
qed

section \<open>Assignments stay in the line\<close>

lemma at_cut: "at (buf[e := 0]) p = (if p = e then 0 else at buf p)"
  by (simp add: at_def)

lemma trim_ws_stops: "m \<le> k \<Longrightarrow> \<not> is_conf_ws (at buf m) \<Longrightarrow> \<exists>j. trim_ws buf start k = Some j"
  by (induction k) (auto simp: le_Suc_eq)

lemma split_assign_some:
  "\<exists>r. split_assign buf s = Some r \<and> (\<forall>ps pn start b. r = Some (ps, pn, start, b) \<longrightarrow> length b = length buf)"
proof -
  let ?e = "eat_name buf s"
  have tail: "\<exists>j. trim_ws (b[e := 0]) start (p + 1 + length (cstr (b[e := 0]) (p + 1)) - 1) = Some j" if "at b p = 61" for b e p start
    by (rule trim_ws_stops [of p]) (use that in \<open>simp_all add: at_cut char_defs\<close>)
  show ?thesis
  proof (cases "at buf ?e = 58 \<and> at buf (?e + 1) = 58")
    case True
    let ?b = "buf[?e := 0]"
    let ?e2 = "eat_name ?b (?e + 2)"
    show ?thesis
    proof (cases "at ?b (eat_ws ?b ?e2) = 61")
      case eq: True
      from tail [OF this, of ?e2 "eat_ws (?b[?e2 := 0]) (eat_ws ?b ?e2 + 1)"] obtain j where
        "trim_ws (?b[?e2 := 0]) (eat_ws (?b[?e2 := 0]) (eat_ws ?b ?e2 + 1)) (eat_ws ?b ?e2 + 1 + length (cstr (?b[?e2 := 0]) (eat_ws ?b ?e2 + 1)) - 1) = Some j" by blast
      then show ?thesis using True eq by (simp add: split_assign_def Let_def)
    next
      case False
      then show ?thesis using True by (simp add: split_assign_def Let_def)
    qed
  next
    case no: False
    show ?thesis
    proof (cases "at buf (eat_ws buf ?e) = 61")
      case eq: True
      from tail [OF this, of ?e "eat_ws (buf[?e := 0]) (eat_ws buf ?e + 1)"] obtain j where
        "trim_ws (buf[?e := 0]) (eat_ws (buf[?e := 0]) (eat_ws buf ?e + 1)) (eat_ws buf ?e + 1 + length (cstr (buf[?e := 0]) (eat_ws buf ?e + 1)) - 1) = Some j" by blast
      then show ?thesis using no eq by (auto simp: split_assign_def Let_def)
    next
      case False
      then show ?thesis using no by (auto simp: split_assign_def Let_def)
    qed
  qed
qed

lemma clear_comments_length [simp]: "length (clear_comments buf) = length buf"
proof -
  have "length (clear_comments_loop buf p) = length buf" for p
    by (induction buf p rule: clear_comments_loop.induct) (subst clear_comments_loop.simps, simp)
  then show ?thesis by (simp add: clear_comments_def)
qed

end
