(* ===== verification/ConfLoad.thy ===== *)
theory ConfLoad
  imports ConfScan
begin

text \<open>
  What reading one line does to a configuration store, on its meaning: the strings by section and name, and
  the entries of every section in order.  Each operation keeps the invariant of the store, whatever memory is
  refused, and succeeds when all of it is granted.
\<close>

section \<open>The meaning of a store\<close>

type_synonym meaning = "(value_key \<Rightarrow> byte list option) \<times> (byte list \<Rightarrow> (byte list \<times> byte list) list option)"

fun sec_op :: "byte list \<Rightarrow> meaning \<Rightarrow> meaning" where
  "sec_op nm (V, S) = (V, if S nm = None then S(nm \<mapsto> []) else S)"

fun val_op :: "byte list \<Rightarrow> byte list \<Rightarrow> byte list \<Rightarrow> meaning \<Rightarrow> meaning" where
  "val_op nm n x (V, S) = (V((nm, n) \<mapsto> x), S(nm \<mapsto> filter (\<lambda>(k, _). k \<noteq> n) (the (S nm)) @ [(n, x)]))"

text \<open>
  The store has the meaning \<open>A\<close>, the values at \<open>X\<close> are under construction, and \<open>R\<close> are sections known to be in it
  by their names.
\<close>

definition store :: "nat set \<Rightarrow> conf_st \<Rightarrow> meaning \<Rightarrow> (byte list \<times> csection) set \<Rightarrow> bool" where
  "store X conf A R \<longleftrightarrow> (\<exists>sm vm. conf_ok X conf sm vm \<and> A = (val_at vm, secs_at conf sm) \<and> (\<forall>(nm, s) \<in> R. sm nm = Some s))"

definition granted :: "memory \<Rightarrow> conf_st \<Rightarrow> bool" where
  "granted al conf \<longleftrightarrow> (\<forall>p n. al p n) \<and> (\<forall>n s. lh_al (c_sections conf) n s) \<and> (\<forall>n s. lh_al (c_values conf) n s)"

lemma granted_al: "granted al conf \<Longrightarrow> al p n"
  by (simp add: granted_def)

lemma granted_sub: "granted al conf \<Longrightarrow> granted (sub i al) conf"
  by (simp add: granted_def sub_apply)

lemma granted_up: "granted al conf \<Longrightarrow> granted (sub i al) conf' \<Longrightarrow> granted al conf'"
  by (simp add: granted_def sub_apply)

lemma storeE:
  assumes "store X conf A R"
  obtains sm vm where "conf_ok X conf sm vm" "A = (val_at vm, secs_at conf sm)" "\<And>nm s. (nm, s) \<in> R \<Longrightarrow> sm nm = Some s"
  using assms unfolding store_def by blast

lemma storeI:
  "conf_ok X conf sm vm \<Longrightarrow> A = (val_at vm, secs_at conf sm) \<Longrightarrow> (\<And>nm s. (nm, s) \<in> R \<Longrightarrow> sm nm = Some s) \<Longrightarrow> store X conf A R"
  unfolding store_def by blast

lemma store_subset: "store X conf A R \<Longrightarrow> R' \<subseteq> R \<Longrightarrow> store X conf A R'"
  unfolding store_def by blast

lemma store_name: "store X conf A R \<Longrightarrow> (nm, s) \<in> R \<Longrightarrow> sec_name s = nm"
  using represents_ran [OF sections_okD(2)] by (auto simp: conf_ok_def elim!: storeE)

section \<open>Sections\<close>

lemma strdup_granted: "(\<And>n. al n) \<Longrightarrow> OPENSSL_strdup al s = Some s"
  by (simp add: OPENSSL_strdup_def OPENSSL_memdup_def)

lemma new_section_granted:
  assumes ok: "conf_ok X conf sm vm" and n: "Suc (c_next conf) < SIZE_MOD" and g: "granted al conf"
    and r: "NCONF_new_section al nm conf = Some (r, conf')"
  shows "r \<noteq> None \<and> granted al conf'"
proof -
  have s: "sections_ok conf sm vm" using ok by (simp add: conf_ok_def)
  note d = sections_okD [OF s]
  have al: "al p n" for p n using g by (rule granted_al)
  obtain sk :: "(nat, unit) stack_st" where sk: "OPENSSL_sk_new_null (al [2]) = Some sk"
    using al by (simp add: OPENSSL_sk_new_null_def OPENSSL_sk_new_def)
  define t where "t = \<lparr>sec_addr = c_next conf, sec_name = nm\<rparr>"
  have "Suc (num_items (c_sections conf)) < SIZE_MOD" using section_bound [OF s] n by simp
  from sections.insert_correct [OF d(1,2) this, of t] obtain ok' lh where
    i: "OPENSSL_lh_insert t (c_sections conf) = Some (ok', sm (sec_name t), lh)"
      "\<not> ok' \<longrightarrow> \<not> lh_al (c_sections conf) (lh_calls (c_sections conf)) sizeof_item" "lh_al lh = lh_al (c_sections conf)" by blast
  have ok': ok' using i(2) g by (auto simp: granted_def)
  show ?thesis using r i(1,3) ok' g al sk strdup_granted [of "al [1]" nm, OF al]
    by (auto simp: NCONF_new_section_def Let_def t_def [symmetric] section_free_def granted_def split: option.splits)
qed

lemma new_section_store:
  assumes st: "store X conf A R" and n: "Suc (c_next conf) < SIZE_MOD" and R: "\<And>t. (nm, t) \<notin> R"
  shows "\<exists>r conf'. NCONF_new_section al nm conf = Some (r, conf') \<and> c_next conf' \<le> Suc (c_next conf) \<and>
    (case r of None \<Rightarrow> store X conf' A R | Some t \<Rightarrow> store X conf' (fst A, (snd A)(nm \<mapsto> [])) (insert (nm, t) R)) \<and>
    (granted al conf \<longrightarrow> r \<noteq> None \<and> granted al conf')"
proof -
  obtain sm vm where ok: "conf_ok X conf sm vm" "A = (val_at vm, secs_at conf sm)" "\<And>nm s. (nm, s) \<in> R \<Longrightarrow> sm nm = Some s"
    using storeE [OF st] by metis
  from new_section_ok [OF ok(1) n, of al nm] obtain r conf' where
    r: "NCONF_new_section al nm conf = Some (r, conf')" "c_next conf' \<le> Suc (c_next conf)"
      "case r of None \<Rightarrow> conf_ok X conf' sm vm \<and> secs_at conf' sm = secs_at conf sm
       | Some t \<Rightarrow> sec_name t = nm \<and> conf_ok X conf' (sm(nm \<mapsto> t)) vm \<and> secs_at conf' (sm(nm \<mapsto> t)) = (secs_at conf sm)(nm \<mapsto> [])" by blast
  note g = new_section_granted [OF ok(1) n _ r(1)]
  show ?thesis
  proof (cases r)
    case None
    then have "store X conf' A R" using r(3) ok(2,3) by (auto intro: storeI)
    then show ?thesis using r(1,2) g None by auto
  next
    case (Some t)
    then have k: "conf_ok X conf' (sm(nm \<mapsto> t)) vm" "secs_at conf' (sm(nm \<mapsto> t)) = (secs_at conf sm)(nm \<mapsto> [])" using r(3) by simp_all
    have "(sm(nm \<mapsto> t)) k = Some u" if "(k, u) \<in> insert (nm, t) R" for k u using that ok(3) R by auto
    then have "store X conf' (fst A, (snd A)(nm \<mapsto> [])) (insert (nm, t) R)" using k ok(2) by (intro storeI [OF k(1)]) auto
    then show ?thesis using r(1,2) g Some by auto
  qed
qed

lemma find_section_store:
  assumes st: "store X conf A R" and n: "Suc (c_next conf) < SIZE_MOD"
  shows "\<exists>r conf'. find_section al nm conf = Some (r, conf') \<and> c_next conf' \<le> Suc (c_next conf) \<and>
    (case r of None \<Rightarrow> store X conf' A R | Some t \<Rightarrow> store X conf' (sec_op nm A) (insert (nm, t) R)) \<and>
    (granted al conf \<longrightarrow> r \<noteq> None \<and> granted al conf')"
proof -
  obtain sm vm where ok: "conf_ok X conf sm vm" "A = (val_at vm, secs_at conf sm)" "\<And>nm s. (nm, s) \<in> R \<Longrightarrow> sm nm = Some s"
    using storeE [OF st] by metis
  show ?thesis
  proof (cases "sm nm")
    case (Some t)
    have "sec_op nm A = A" using Some by (simp add: ok(2) secs_at_def)
    moreover have "store X conf A (insert (nm, t) R)" using ok Some by (intro storeI [OF ok(1)]) auto
    ultimately show ?thesis using Some get_section_found [OF ok(1), of nm] by (simp add: find_section_def)
  next
    case None
    then have R: "\<And>t. (nm, t) \<notin> R" using ok(3) by force
    have op: "sec_op nm A = (fst A, (snd A)(nm \<mapsto> []))" using None by (simp add: ok(2) secs_at_def)
    have fs: "find_section al nm conf = NCONF_new_section al nm conf"
      using None get_section_found [OF ok(1), of nm] by (simp add: find_section_def)
    show ?thesis unfolding op fs by (rule new_section_store [OF st n R])
  qed
qed

section \<open>Values\<close>

lemma value_new_store:
  assumes "store X conf A R" "CONF_VALUE_new m conf = Some (v, conf')"
  shows "store (insert (cv_addr v) X) conf' A R \<and> cv_addr v \<notin> X \<and> c_next conf' = Suc (c_next conf) \<and> (granted al conf \<longrightarrow> granted al conf')"
proof -
  obtain sm vm where ok: "conf_ok X conf sm vm" "A = (val_at vm, secs_at conf sm)" "\<And>nm s. (nm, s) \<in> R \<Longrightarrow> sm nm = Some s"
    using storeE [OF assms(1)] by metis
  have "granted al conf \<longrightarrow> granted al conf'" using assms(2) by (auto simp: CONF_VALUE_new_def Let_def granted_def split: if_splits)
  then show ?thesis using value_new_ok [OF ok(1) assms(2)] ok(2,3) by (auto intro: storeI)
qed

lemma value_free_store:
  assumes "store X conf A R" "cv_addr v \<in> X"
  shows "\<exists>conf'. value_free v conf = Some conf' \<and> store (X - {cv_addr v}) conf' A R \<and> c_next conf' = c_next conf"
proof -
  obtain sm vm where ok: "conf_ok X conf sm vm" "A = (val_at vm, secs_at conf sm)" "\<And>nm s. (nm, s) \<in> R \<Longrightarrow> sm nm = Some s"
    using storeE [OF assms(1)] by metis
  from value_free_ok [OF ok(1) assms(2)] obtain conf' where r: "value_free v conf = Some conf'"
    "conf_ok (X - {cv_addr v}) conf' sm vm" "c_next conf' = c_next conf" "secs_at conf' sm = secs_at conf sm" by blast
  have "store (X - {cv_addr v}) conf' A R" by (rule storeI [OF r(2)]) (simp_all add: ok(2,3) r(4))
  then show ?thesis using r(1,3) by blast
qed

lemma stack_bound:
  assumes ok: "conf_ok X conf sm vm" and k: "sec \<in> ran sm" "c_stacks conf (sec_addr sec) = Some k"
  shows "num k \<le> c_next conf" "sk_ok k"
proof -
  have s: "sections_ok conf sm vm" and w: "values_ok X conf vm" using ok by (simp_all add: conf_ok_def)
  note o1 = stack_okD [OF sections_okD(6) [OF s k]] and e = values_okD [OF w]
  show "sk_ok k" by (rule o1(1))
  have "set (sk_list k) \<subseteq> Some ` {..< c_next conf}"
  proof
    fix p assume "p \<in> set (sk_list k)"
    then obtain u where u: "u \<in> ran vm" "p = Some (cv_addr u)" using o1(3) by blast
    then have "cv_addr u \<in> dom (c_live conf)" using e(3) by auto
    then show "p \<in> Some ` {..< c_next conf}" using u(2) e(6) by blast
  qed
  then have "card (set (sk_list k)) \<le> card (Some ` {..< c_next conf})" by (intro card_mono) simp_all
  then show "num k \<le> c_next conf" using distinct_card [OF o1(2)] o1(1) card_image_le [of "{..< c_next conf}" Some] by simp
qed

lemma add_string_granted:
  assumes ok: "conf_ok X conf sm vm" and sec: "sm (sec_name sec) = Some sec" and n: "Suc (c_next conf) < 2147483647"
    and v: "cv_addr v \<in> X" and g: "granted al conf" and r: "add_string al sec v conf = Some (r, conf')"
  shows "r \<and> granted al conf'"
proof -
  define u where "u = v\<lparr>cv_section := sec_name sec\<rparr>"
  have s: "sections_ok conf sm vm" and w: "values_ok X conf vm" using ok by (simp_all add: conf_ok_def)
  note e = values_okD [OF w]
  have al: "al p n" for p n using g by (rule granted_al)
  have secin: "sec \<in> ran sm" using sec by (rule ranI)
  obtain k where k: "c_stacks conf (sec_addr sec) = Some k" "stack_ok (c_live conf) vm sec k" by (rule section_stack [OF s secin])
  note b = stack_bound [OF ok secin k(1)]
  obtain sk1 where p: "OPENSSL_sk_push (al [1]) k (Some (cv_addr v)) = (num k + 1, Some sk1)"
    using OPENSSL_sk_insert_cases [OF b(2), of "al [1]" "Some (cv_addr v)" "num k"] al b(1) n
    unfolding OPENSSL_sk_push_def by auto
  have "Suc (num_items (c_values conf)) < SIZE_MOD" using value_bound [OF w] n by (simp add: SIZE_MOD_def)
  from cvalues.insert_correct [OF e(1,2) this, of u] obtain good lh where
    i: "OPENSSL_lh_insert u (c_values conf) = Some (good, vm (value_key u), lh)"
      "\<not> good \<longrightarrow> \<not> lh_al (c_values conf) (lh_calls (c_values conf)) sizeof_item" "lh_al lh = lh_al (c_values conf)" by blast
  have good: good using i(2) g by (auto simp: granted_def)
  have ua: "cv_addr u = cv_addr v" by (simp add: u_def)
  have dup: "OPENSSL_strdup (al [0]) (sec_name sec) = Some (sec_name sec)" by (rule strdup_granted [OF al])
  have c: "(case OPENSSL_lh_insert u (c_values conf) of None \<Rightarrow> F | Some (False, _, l) \<Rightarrow> G l | Some (True, None, l) \<Rightarrow> H l | Some (True, Some x, l) \<Rightarrow> K x l)
      = (case vm (value_key u) of None \<Rightarrow> H lh | Some x \<Rightarrow> K x lh)" for F G H and K :: "cvalue \<Rightarrow> cvalue lhash_st \<Rightarrow> (bool \<times> conf_st) option"
    using i(1) good by (simp split: option.split)
  show ?thesis using r g i(3) p k(1)
    unfolding add_string_def dup option.case Let_def u_def [symmetric] ua
    by (cases "vm (value_key u)") (auto simp: c value_free_def granted_def split: option.splits)
qed

lemma add_string_store:
  assumes st: "store X conf A R" and v: "cv_addr v \<in> X" and sec: "(nm, sec) \<in> R" and n: "Suc (c_next conf) < SIZE_MOD"
  shows "\<exists>r conf'. add_string al sec v conf = Some (r, conf') \<and> c_next conf' = c_next conf \<and>
    (if r then store (X - {cv_addr v}) conf' (val_op nm (cv_name v) (cv_value v) A) R else store X conf' A R) \<and>
    (granted al conf \<and> Suc (c_next conf) < 2147483647 \<longrightarrow> r \<and> granted al conf')"
proof -
  obtain sm vm where ok: "conf_ok X conf sm vm" "A = (val_at vm, secs_at conf sm)" "\<And>nm s. (nm, s) \<in> R \<Longrightarrow> sm nm = Some s"
    using storeE [OF st] by metis
  have nm: "sec_name sec = nm" by (rule store_name [OF st sec])
  then have smsec: "sm (sec_name sec) = Some sec" using ok(3) [OF sec] by simp
  from add_string_ok [OF ok(1) v smsec n, of al] obtain r conf' where
    r: "add_string al sec v conf = Some (r, conf')" "c_next conf' = c_next conf"
      "if r then conf_ok (X - {cv_addr v}) conf' sm (vm((sec_name sec, cv_name v) \<mapsto> v\<lparr>cv_section := sec_name sec\<rparr>)) \<and>
        secs_at conf' sm = (secs_at conf sm)(sec_name sec \<mapsto> filter (\<lambda>(n, _). n \<noteq> cv_name v) (entries conf sec) @ [(cv_name v, cv_value v)])
       else conf_ok X conf' sm vm \<and> secs_at conf' sm = secs_at conf sm" by blast
  note g = add_string_granted [OF ok(1) smsec _ v _ r(1)]
  show ?thesis
  proof (cases r)
    case True
    have S: "secs_at conf sm nm = Some (entries conf sec)" using smsec nm by (simp add: secs_at_def)
    have V: "val_at (vm((nm, cv_name v) \<mapsto> v\<lparr>cv_section := nm\<rparr>)) = (val_at vm)((nm, cv_name v) \<mapsto> cv_value v)" by (auto simp: val_at_def)
    have k: "conf_ok (X - {cv_addr v}) conf' sm (vm((nm, cv_name v) \<mapsto> v\<lparr>cv_section := nm\<rparr>))"
      "secs_at conf' sm = (secs_at conf sm)(nm \<mapsto> filter (\<lambda>(n, _). n \<noteq> cv_name v) (entries conf sec) @ [(cv_name v, cv_value v)])"
      using r(3) True by (simp_all add: nm)
    have "store (X - {cv_addr v}) conf' (val_op nm (cv_name v) (cv_value v) A) R"
      by (rule storeI [OF k(1)]) (simp_all add: ok(2) k(2) S V ok(3))
    then show ?thesis using r(1,2) g True by auto
  next
    case False
    then have "store X conf' A R" using r(3) ok(2,3) by (auto intro: storeI)
    then show ?thesis using r(1,2) g False by auto
  qed
qed

section \<open>Lines\<close>

text \<open>What the line in a buffer says, and what that does to a current section and a meaning.\<close>

datatype item = Blank | Header "byte list" | Assign "byte list option" "byte list" "byte list" | Bad

definition header_item :: "byte list \<Rightarrow> nat \<Rightarrow> item" where
  "header_item buf s = (let start = eat_ws buf (s + 1) in case section_end buf start of
     None \<Rightarrow> Bad
   | Some e \<Rightarrow> (case unescaped (cstr (buf[e := 0]) start) of None \<Rightarrow> Bad | Some nm \<Rightarrow> Header nm))"

definition assign_item :: "byte list \<Rightarrow> nat \<Rightarrow> item" where
  "assign_item buf s = (case split_assign buf s of
     Some (Some (ps, pn, start, b)) \<Rightarrow> (case unescaped (cstr b start) of
         None \<Rightarrow> Bad
       | Some x \<Rightarrow> Assign (map_option (cstr b) ps) (cstr b pn) x)
   | _ \<Rightarrow> Bad)"

definition line_item :: "byte list \<Rightarrow> item" where
  "line_item buf = (let buf = clear_comments buf; s = eat_ws buf 0
     in if at buf s = 0 then Blank else if at buf s = 91 then header_item buf s else assign_item buf s)"

fun apply_item :: "item \<Rightarrow> byte list \<times> meaning \<Rightarrow> byte list \<times> meaning" where
  "apply_item Blank x = x"
| "apply_item Bad x = x"
| "apply_item (Header nm) (c, A) = (nm, sec_op nm A)"
| "apply_item (Assign so n x) (c, A) = (c, let t = (case so of None \<Rightarrow> c | Some t \<Rightarrow> t) in val_op t n x (sec_op t A))"

text \<open>The state between lines, and what a line may leave of it.\<close>

definition ld_ok :: "'b load_st \<Rightarrow> meaning \<Rightarrow> bool" where
  "ld_ok st A \<longleftrightarrow> store {} (ld_conf st) A {(ld_section st, ld_sv st)} \<and> buf_ok (ld_buff st) \<and> bm_max (ld_buff st) < INT_MAX"

definition same_input :: "'b load_st \<Rightarrow> 'b load_st \<Rightarrow> bool" where
  "same_input st st' \<longleftrightarrow> ld_in st' = ld_in st \<and> ld_bufnum st' = ld_bufnum st \<and> ld_again st' = ld_again st \<and> ld_eline st' = ld_eline st \<and>
     bm_max (ld_buff st') = bm_max (ld_buff st) \<and> buf_ok (ld_buff st')"

definition ample :: "memory \<Rightarrow> 'b load_st \<Rightarrow> bool" where
  "ample al st \<longleftrightarrow> granted al (ld_conf st) \<and> c_next (ld_conf st) + 3 < 2147483647"

lemma ample_sub: "ample al st \<Longrightarrow> ample (sub i al) st"
  by (simp add: ample_def granted_sub)

lemma copy_ample: "ample al st \<Longrightarrow> copy_granted (sub i al) n"
  by (simp add: ample_def copy_granted_def granted_def sub_apply)

text \<open>The outcome of a line with the item \<open>it\<close>; \<open>g\<close> says that no memory was refused.\<close>

definition outcome :: "memory \<Rightarrow> bool \<Rightarrow> item \<Rightarrow> 'b load_st \<Rightarrow> meaning \<Rightarrow> (bool \<times> 'b load_st) option \<Rightarrow> bool" where
  "outcome al g it st A res \<longleftrightarrow> (\<exists>ok st'. res = Some (ok, st') \<and> same_input st st' \<and> c_next (ld_conf st') \<le> c_next (ld_conf st) + 2 \<and>
     (if ok then it \<noteq> Bad \<and> ld_ok st' (snd (apply_item it (ld_section st, A))) \<and> ld_section st' = fst (apply_item it (ld_section st, A))
      else \<exists>A'. store {} (ld_conf st') A' {}) \<and>
     (g \<and> it \<noteq> Bad \<longrightarrow> ok \<and> granted al (ld_conf st')))"

lemma outcome_fail:
  assumes "same_input st st'" "store {} (ld_conf st') A' R" "c_next (ld_conf st') \<le> c_next (ld_conf st) + 2" "g \<Longrightarrow> it = Bad"
  shows "outcome al g it st A (Some (False, st'))"
proof -
  have "store {} (ld_conf st') A' {}" by (rule store_subset [OF assms(2)]) simp
  then have "\<exists>A'. store {} (ld_conf st') A' {}" by blast
  then show ?thesis unfolding outcome_def using assms(1,3,4) by (intro exI [of _ False] exI [of _ st']) auto
qed

lemma outcome_done:
  assumes "same_input st st'" "ld_ok st' A'" "apply_item it (ld_section st, A) = (ld_section st', A')" "it \<noteq> Bad"
    "c_next (ld_conf st') \<le> c_next (ld_conf st) + 2" "g \<Longrightarrow> granted al (ld_conf st')"
  shows "outcome al g it st A (Some (True, st'))"
  unfolding outcome_def using assms by (intro exI [of _ True] exI [of _ st']) simp

lemma outcome_back:
  assumes "outcome al g it st' A res" "same_input st st'" "ld_section st' = ld_section st" "ld_conf st' = ld_conf st"
  shows "outcome al g it st A res"
proof -
  obtain ok st1 where r: "res = Some (ok, st1)" "same_input st' st1" "c_next (ld_conf st1) \<le> c_next (ld_conf st') + 2"
     "if ok then it \<noteq> Bad \<and> ld_ok st1 (snd (apply_item it (ld_section st', A))) \<and> ld_section st1 = fst (apply_item it (ld_section st', A))
      else \<exists>A'. store {} (ld_conf st1) A' {}" "g \<and> it \<noteq> Bad \<longrightarrow> ok \<and> granted al (ld_conf st1)"
    using assms(1) unfolding outcome_def by blast
  have "same_input st st1" using r(2) assms(2) by (simp add: same_input_def)
  then show ?thesis unfolding outcome_def using r(1,3-5) unfolding assms(3,4) by blast
qed

lemma cstr_small:
  assumes "ld_ok st A" "length buf = length (bm_data (ld_buff st))"
  shows "length (cstr buf p) < INT_MAX"
proof -
  have "length (cstr buf p) \<le> bm_max (ld_buff st)" using cstr_length [of buf p] assms by (simp add: ld_ok_def buf_ok_def)
  also have "\<dots> < INT_MAX" using assms(1) by (simp add: ld_ok_def)
  finally show ?thesis .
qed

lemma header_correct:
  assumes ok: "ld_ok st A" and n: "c_next (ld_conf st) + 3 < SIZE_MOD" and b: "length buf = length (bm_data (ld_buff st))"
  shows "outcome al (ample al st) (header_item buf s) st A (load_header al buf s st)"
proof (cases "section_end buf (eat_ws buf (s + 1))")
  case None
  then have "load_header al buf s st = Some (False, st)" by (simp add: load_header_def)
  moreover have "same_input st st" using ok by (simp add: same_input_def ld_ok_def)
  ultimately show ?thesis using ok None by (auto intro!: outcome_fail simp: ld_ok_def header_item_def)
next
  case (Some e)
  let ?start = "eat_ws buf (s + 1)"
  let ?st = "st\<lparr>ld_buff := (ld_buff st)\<lparr>bm_data := buf[e := 0]\<rparr>\<rparr>"
  have st: "store {} (ld_conf st) A {(ld_section st, ld_sv st)}" and bo: "buf_ok (ld_buff st)" using ok by (simp_all add: ld_ok_def)
  have same: "same_input st (?st\<lparr>ld_section := x, ld_sv := y, ld_conf := z\<rparr>)" for x y z
    using bo b by (simp add: same_input_def buf_ok_def)
  have same0: "same_input st ?st" using bo b by (simp add: same_input_def buf_ok_def)
  define r where "r = (if copy_granted (sub 0 al) (length (cstr (buf[e := 0]) ?start)) then unescaped (cstr (buf[e := 0]) ?start) else None)"
  have small: "length (cstr (buf[e := 0]) ?start) < INT_MAX" using b by (intro cstr_small [OF ok]) simp
  have r: "str_copy (sub 0 al) (buf[e := 0]) ?start = Some r" "r = None \<or> r = unescaped (cstr (buf[e := 0]) ?start)"
    unfolding str_copy_exact [OF small] r_def by simp_all
  have g: "ample al st \<Longrightarrow> r = unescaped (cstr (buf[e := 0]) ?start)" by (simp add: r_def copy_ample)
  show ?thesis
  proof (cases r)
    case None
    then have "load_header al buf s st = Some (False, ?st)" using Some r(1) by (simp add: load_header_def)
    moreover have "ample al st \<Longrightarrow> header_item buf s = Bad" using g None Some by (simp add: header_item_def split: option.split)
    ultimately show ?thesis using st same0 by (auto intro!: outcome_fail)
  next
    case nm: (Some nm)
    then have u: "unescaped (cstr (buf[e := 0]) ?start) = Some nm" using r(2) by simp
    have it: "header_item buf s = Header nm" using Some u by (simp add: header_item_def)
    have n1: "Suc (c_next (ld_conf st)) < SIZE_MOD" using n by simp
    from find_section_store [OF st n1, where nm = nm and al = "sub 1 al"] obtain t conf' where
      f: "find_section (sub 1 al) nm (ld_conf st) = Some (t, conf')" "c_next conf' \<le> Suc (c_next (ld_conf st))"
        "case t of None \<Rightarrow> store {} conf' A {(ld_section st, ld_sv st)}
         | Some t \<Rightarrow> store {} conf' (sec_op nm A) (insert (nm, t) {(ld_section st, ld_sv st)})"
        "granted (sub 1 al) (ld_conf st) \<longrightarrow> t \<noteq> None \<and> granted (sub 1 al) conf'" by blast
    have gf: "ample al st \<Longrightarrow> t \<noteq> None \<and> granted al conf'" using f(4) granted_up granted_sub unfolding ample_def by blast
    show ?thesis
    proof (cases t)
      case None
      then have "load_header al buf s st = Some (False, ?st\<lparr>ld_section := nm, ld_conf := conf'\<rparr>)"
        using Some r(1) nm f(1) by (simp add: load_header_def)
      moreover have "same_input st (?st\<lparr>ld_section := nm, ld_conf := conf'\<rparr>)" using bo b by (simp add: same_input_def buf_ok_def)
      ultimately show ?thesis using f(1-3) gf None by (auto intro!: outcome_fail)
    next
      case t: (Some t)
      then have "load_header al buf s st = Some (True, ?st\<lparr>ld_section := nm, ld_sv := t, ld_conf := conf'\<rparr>)"
        using Some r(1) nm f(1) by (simp add: load_header_def)
      moreover have "store {} conf' (sec_op nm A) {(nm, t)}" using f(3) t store_subset by fastforce
      then have "ld_ok (?st\<lparr>ld_section := nm, ld_sv := t, ld_conf := conf'\<rparr>) (sec_op nm A)"
        using ok b by (simp add: ld_ok_def buf_ok_def)
      ultimately show ?thesis using f(1,2) gf t same [where x = nm and y = t and z = conf'] it by (auto intro!: outcome_done)
    qed
  qed
qed

lemma sec_op_known: "store X conf A R \<Longrightarrow> (nm, s) \<in> R \<Longrightarrow> sec_op nm A = A"
  by (elim storeE) (auto simp: secs_at_def)

text \<open>The section an assignment goes to: the current one, or the one named, made when it is not there.\<close>

lemma target_store:
  assumes st: "store X conf A {(c, sv)}" and n: "Suc (c_next conf) < SIZE_MOD"
  shows "\<exists>r conf'. (if strcmp nm c \<noteq> 0 then find_section al nm conf else Some (Some sv, conf)) = Some (r, conf') \<and>
    c_next conf' \<le> Suc (c_next conf) \<and>
    (case r of None \<Rightarrow> store X conf' A {(c, sv)} | Some t \<Rightarrow> store X conf' (sec_op nm A) {(nm, t), (c, sv)}) \<and>
    (granted al conf \<longrightarrow> r \<noteq> None \<and> granted al conf')"
proof (cases "nm = c")
  case True
  then show ?thesis using st sec_op_known [OF st, of c sv] by (simp add: strcmp_eq_0)
next
  case False
  then show ?thesis using find_section_store [OF st n, where nm = nm and al = al] by (simp add: strcmp_eq_0)
qed

lemma assign_correct:
  assumes ok: "ld_ok st A" and n: "c_next (ld_conf st) + 3 < SIZE_MOD" and b: "length buf = length (bm_data (ld_buff st))"
  shows "outcome al (ample al st) (assign_item buf s) st A (load_assign al buf s st)"
proof -
  have st: "store {} (ld_conf st) A {(ld_section st, ld_sv st)}" and bo: "buf_ok (ld_buff st)" using ok by (simp_all add: ld_ok_def)
  obtain q where q: "split_assign buf s = Some q" "\<And>ps pn start b. q = Some (ps, pn, start, b) \<Longrightarrow> length b = length buf"
    using split_assign_some [of buf s] by blast
  show ?thesis
  proof (cases q)
    case None
    then have "load_assign al buf s st = Some (False, st)" using q(1) by (simp add: load_assign_def)
    moreover have "same_input st st" using bo by (simp add: same_input_def)
    ultimately show ?thesis using st None q(1) by (auto intro!: outcome_fail simp: assign_item_def)
  next
    case (Some q')
    obtain ps pn start d where q': "q' = (ps, pn, start, d)" using prod_cases4 by blast
    then have sp: "split_assign buf s = Some (Some (ps, pn, start, d))" and d: "length d = length (bm_data (ld_buff st))"
      using q Some b by simp_all
    define st1 where "st1 = st\<lparr>ld_buff := (ld_buff st)\<lparr>bm_data := d\<rparr>\<rparr>"
    define nm where "nm = (case ps of None \<Rightarrow> ld_section st | Some k \<Rightarrow> cstr d k)"
    have st1: "ld_conf st1 = ld_conf st" "ld_section st1 = ld_section st" "ld_sv st1 = ld_sv st" by (simp_all add: st1_def)
    have same: "same_input st (st1\<lparr>ld_conf := z\<rparr>)" for z using bo d by (simp add: st1_def same_input_def buf_ok_def)
    have same0: "same_input st st1" using same [of "ld_conf st1"] by simp
    show ?thesis
    proof (cases "CONF_VALUE_new (al [0]) (ld_conf st)")
      case None
      then have "load_assign al buf s st = Some (False, st1)" by (simp add: load_assign_def sp st1_def)
      moreover have "\<not> ample al st" using None by (auto simp: CONF_VALUE_new_def ample_def granted_def Let_def split: if_splits)
      ultimately show ?thesis using st same0 st1(1) by (auto intro!: outcome_fail)
    next
      case (Some vc)
      then obtain v conf1 where vn: "CONF_VALUE_new (al [0]) (ld_conf st) = Some (v, conf1)" by (cases vc) auto
      have v: "store {cv_addr v} conf1 A {(ld_section st, ld_sv st)}" "c_next conf1 = Suc (c_next (ld_conf st))"
        "granted al (ld_conf st) \<longrightarrow> granted al conf1" using value_new_store [OF st vn] by simp_all
      have drop: "outcome al (ample al st) (assign_item buf s) st A (drop_value v' conf st1)"
        if s: "store {cv_addr v} conf A' R" and c: "c_next conf \<le> c_next (ld_conf st) + 2" and g: "ample al st \<Longrightarrow> assign_item buf s = Bad"
          and a: "cv_addr v' = cv_addr v" for v' conf A' R
      proof -
        obtain conf' where "value_free v' conf = Some conf'" "store {} conf' A' R" "c_next conf' = c_next conf"
          using value_free_store [OF s, of v'] a by auto
        then show ?thesis using c g same by (auto intro!: outcome_fail simp: drop_value_def)
      qed
      show ?thesis
      proof (cases "OPENSSL_strdup (al [1]) (cstr d pn)")
        case None
        then have "load_assign al buf s st = drop_value v conf1 st1" using vn by (simp add: load_assign_def sp st1_def)
        moreover have "\<not> ample al st" using None strdup_granted [of "al [1]"] by (auto simp: ample_def granted_def)
        ultimately show ?thesis using drop [OF v(1)] v(2) by simp
      next
        case (Some pn')
        then have dup: "OPENSSL_strdup (al [1]) (cstr d pn) = Some (cstr d pn)" using strdup_Some by metis
        define r where "r = (if copy_granted (sub 2 al) (length (cstr d start)) then unescaped (cstr d start) else None)"
        have r: "str_copy (sub 2 al) d start = Some r" "r = None \<or> r = unescaped (cstr d start)"
          unfolding str_copy_exact [OF cstr_small [OF ok d]] r_def by simp_all
        have g: "ample al st \<Longrightarrow> r = unescaped (cstr d start)" by (simp add: r_def copy_ample)
        show ?thesis
        proof (cases r)
          case None
          then have "load_assign al buf s st = drop_value v conf1 st1" using vn dup r(1) by (simp add: load_assign_def sp st1_def)
          moreover have "ample al st \<Longrightarrow> assign_item buf s = Bad" using g None by (simp add: assign_item_def sp split: option.split)
          ultimately show ?thesis using drop [OF v(1)] v(2) by simp
        next
          case x: (Some x)
          then have u: "unescaped (cstr d start) = Some x" using r(2) by simp
          have it: "assign_item buf s = Assign (map_option (cstr d) ps) (cstr d pn) x" by (simp add: assign_item_def sp u)
          have tgt: "(case map_option (cstr d) ps of None \<Rightarrow> ld_section st | Some t \<Rightarrow> t) = nm" by (simp add: nm_def split: option.split)
          define w where "w = v\<lparr>cv_name := cstr d pn, cv_value := x\<rparr>"
          have wa: "cv_addr w = cv_addr v" "cv_name w = cstr d pn" "cv_value w = x" by (simp_all add: w_def)
          have n1: "Suc (c_next conf1) < SIZE_MOD" using n v(2) by simp
          from target_store [OF v(1) n1, where nm = nm and al = "sub 3 al"] obtain t conf2 where
            t: "(if strcmp nm (ld_section st) \<noteq> 0 then find_section (sub 3 al) nm conf1 else Some (Some (ld_sv st), conf1)) = Some (t, conf2)"
              "c_next conf2 \<le> Suc (c_next conf1)"
              "case t of None \<Rightarrow> store {cv_addr v} conf2 A {(ld_section st, ld_sv st)}
               | Some t \<Rightarrow> store {cv_addr v} conf2 (sec_op nm A) {(nm, t), (ld_section st, ld_sv st)}"
              "granted (sub 3 al) conf1 \<longrightarrow> t \<noteq> None \<and> granted (sub 3 al) conf2" by blast
          have gt: "granted al conf1 \<Longrightarrow> t \<noteq> None \<and> granted al conf2" using t(4) granted_up [of al conf1 3 conf2] granted_sub by blast
          have code: "load_assign al buf s st = (case t of None \<Rightarrow> drop_value w conf2 st1 | Some tv \<Rightarrow> (case add_string (sub 4 al) tv w conf2 of
              None \<Rightarrow> None | Some (False, conf) \<Rightarrow> drop_value w conf st1 | Some (True, conf) \<Rightarrow> Some (True, st1\<lparr>ld_conf := conf\<rparr>)))"
            unfolding load_assign_def sp option.case prod.case Let_def st1_def [symmetric] dup r(1) x st1 vn nm_def [symmetric] w_def [symmetric] t(1)
            by (cases t) simp_all
          show ?thesis
          proof (cases t)
            case None
            then have "\<not> ample al st" using gt v(3) by (auto simp: ample_def)
            moreover have "store {cv_addr v} conf2 A {(ld_section st, ld_sv st)}" using t(3) None by simp
            ultimately show ?thesis using drop [OF _ _ _ wa(1), of conf2] t(2) v(2) code None by simp
          next
            case tv: (Some tv)
            have st2: "store {cv_addr v} conf2 (sec_op nm A) {(nm, tv), (ld_section st, ld_sv st)}" using t(3) tv by simp
            have n2: "Suc (c_next conf2) < SIZE_MOD" using t(2) v(2) n by simp
            have av: "cv_addr w \<in> {cv_addr v}" and ins: "(nm, tv) \<in> {(nm, tv), (ld_section st, ld_sv st)}" using wa by simp_all
            from add_string_store [OF st2 av ins n2, of "sub 4 al", unfolded wa Diff_cancel] obtain y conf3 where
              y: "add_string (sub 4 al) tv w conf2 = Some (y, conf3)" "c_next conf3 = c_next conf2"
                "if y then store {} conf3 (val_op nm (cstr d pn) x (sec_op nm A)) {(nm, tv), (ld_section st, ld_sv st)}
                 else store {cv_addr v} conf3 (sec_op nm A) {(nm, tv), (ld_section st, ld_sv st)}"
                "granted (sub 4 al) conf2 \<and> Suc (c_next conf2) < 2147483647 \<longrightarrow> y \<and> granted (sub 4 al) conf3" by blast
            have gy: "y \<and> granted al conf3" if "ample al st"
            proof -
              have "granted al conf2" "Suc (c_next conf2) < 2147483647" using that gt t(2) v(2,3) by (auto simp: ample_def)
              then show ?thesis using y(4) granted_up [of al conf2 4 conf3] granted_sub by blast
            qed
            show ?thesis
            proof (cases y)
              case True
              have "store {} conf3 (val_op nm (cstr d pn) x (sec_op nm A)) {(ld_section st, ld_sv st)}"
                using y(3) True by (simp, elim store_subset) simp
              then have "ld_ok (st1\<lparr>ld_conf := conf3\<rparr>) (val_op nm (cstr d pn) x (sec_op nm A))"
                using ok d by (simp add: ld_ok_def st1_def buf_ok_def)
              moreover have "apply_item (assign_item buf s) (ld_section st, A) = (ld_section st, val_op nm (cstr d pn) x (sec_op nm A))"
                unfolding it apply_item.simps tgt Let_def ..
              ultimately show ?thesis using code tv y(1,2) True t(2) v(2) gy same st1(2) it by (auto intro!: outcome_done)
            next
              case False
              then have "store {cv_addr v} conf3 (sec_op nm A) {(nm, tv), (ld_section st, ld_sv st)}" using y(3) by simp
              moreover have "\<not> ample al st" using gy False by blast
              ultimately show ?thesis using drop [OF _ _ _ wa(1)] code tv y(1,2) False t(2) v(2) by simp
            qed
          qed
        qed
      qed
    qed
  qed
qed

lemma line_correct:
  assumes ok: "ld_ok st A" and n: "c_next (ld_conf st) + 3 < SIZE_MOD"
  shows "outcome al (ample al st) (line_item (bm_data (ld_buff st))) st A (load_line al st)"
proof -
  let ?buf = "clear_comments (bm_data (ld_buff st))"
  define st1 where "st1 = st\<lparr>ld_buff := (ld_buff st)\<lparr>bm_data := ?buf\<rparr>\<rparr>"
  have st1: "ld_conf st1 = ld_conf st" "ld_section st1 = ld_section st" "bm_data (ld_buff st1) = ?buf" "ld_ok st1 A" "same_input st st1"
    using ok by (simp_all add: st1_def ld_ok_def buf_ok_def same_input_def)
  have r: "ample al st1 = ample al st" by (simp add: ample_def st1_def)
  have n1: "c_next (ld_conf st1) + 3 < SIZE_MOD" using n st1(1) by simp
  let ?s = "eat_ws ?buf 0"
  have lift: "outcome al (ample al st) it st A res" if "outcome al (ample al st1) it st1 A res" for it res
    using outcome_back [OF that st1(5,2,1)] unfolding r .
  show ?thesis
  proof (cases "at ?buf ?s = 0")
    case True
    then have "load_line al st = Some (True, st1)" by (simp add: load_line_def Let_def st1_def)
    moreover have "line_item (bm_data (ld_buff st)) = Blank" using True by (simp add: line_item_def)
    ultimately show ?thesis using st1 by (auto intro!: outcome_done simp: ample_def)
  next
    case nz: False
    show ?thesis
    proof (cases "at ?buf ?s = 91")
      case True
      have "load_line al st = load_header al ?buf ?s st1" using nz True by (simp add: load_line_def Let_def st1_def)
      moreover have "line_item (bm_data (ld_buff st)) = header_item ?buf ?s" using nz True by (simp add: line_item_def Let_def)
      ultimately show ?thesis using lift [OF header_correct [OF st1(4) n1, of ?buf]] st1(3) by simp
    next
      case False
      have "load_line al st = load_assign al ?buf ?s st1" using nz False by (simp add: load_line_def Let_def st1_def)
      moreover have "line_item (bm_data (ld_buff st)) = assign_item ?buf ?s" using nz False by (simp add: line_item_def Let_def)
      ultimately show ?thesis using lift [OF assign_correct [OF st1(4) n1, of ?buf]] st1(3) by simp
    qed
  qed
qed

end
