(* ===== verification/ConfRun.thy ===== *)
theory ConfRun
  imports ConfLoad
begin

text \<open>
  Reading whole files from a memory BIO: how a piece of a line gets into the buffer, and that the loop ends on
  every input below 1 GiB, whatever memory is refused, and leaves a store that satisfies its invariant.  The
  bound keeps the \<^verbatim>\<open>int\<close>s of the code in their range.
\<close>

section \<open>A piece of a line\<close>

lemma cstr_take_while:
  assumes "drop p d = bs @ 0 # r"
  shows "cstr d p = takeWhile (\<lambda>c. c \<noteq> 0) bs"
proof -
  have "takeWhile (\<lambda>c. c \<noteq> 0) (bs @ 0 # r) = takeWhile (\<lambda>c. c \<noteq> 0) bs"
    by (induction bs) auto
  then show ?thesis by (simp add: cstr_def assms)
qed

lemma trim_eol_le: "trim_eol buf p i \<le> i"
  by (induction i) auto

lemma piece_buffer:
  assumes "p + CONFBUFSIZE \<le> length d" "length bs + 2 \<le> CONFBUFSIZE" "d1 = fetched p ret bs d" "ret \<ge> 0"
  shows "length d1 = length d \<and> take p d1 = take p d \<and> (\<exists>r. drop p d1 = bs @ 0 # r)"
proof -
  let ?e = "put_bytes p (bs @ [0]) (d[p := 0])"
  have l: "p + length bs + 1 < p + CONFBUFSIZE" "p + length bs + 1 \<le> length d" "p \<le> length d" using assms(1,2) by (simp_all add: CONFBUFSIZE_def)
  have e: "?e = take p d @ bs @ 0 # drop (p + length bs + 1) d"
    using l by (simp add: put_bytes_def)
  have len: "length ?e = length d" unfolding e using l by simp
  have d1: "d1 = ?e[p + CONFBUFSIZE - 1 := 0]" using assms(3,4) by (simp add: fetched_def)
  have t: "take p d1 = take p d" unfolding d1 e using l by (simp add: take_update_cancel)
  have "take (length bs + 1) (drop p d1) = take (length bs + 1) (drop p ?e)"
    unfolding d1 using l by (simp add: drop_update_swap take_update_cancel)
  also have "\<dots> = bs @ [0]" unfolding e using l by simp
  finally have "drop p d1 = (bs @ [0]) @ drop (length bs + 1) (drop p d1)" by (metis append_take_drop_id)
  then have "drop p d1 = bs @ 0 # drop (length bs + 1) (drop p d1)" by simp
  moreover have "length d1 = length d" using len by (simp add: d1)
  ultimately show ?thesis using t by blast
qed

text \<open>What is left to do: the bytes to come count twice, and once more when a line has been begun.\<close>

definition todo :: "mem_bio load_st \<Rightarrow> nat" where
  "todo st = 2 * length (BIO_mem_contents (ld_in st)) + (if ld_again st then 1 else 0)"

definition run_ok :: "mem_bio load_st \<Rightarrow> meaning \<Rightarrow> bool" where
  "run_ok st A \<longleftrightarrow> ld_ok st A \<and> mem_ok (ld_in st) \<and> ld_bufnum st + length (BIO_mem_contents (ld_in st)) < 2 ^ 30 \<and>
     c_next (ld_conf st) + 2 * todo st + 3 < SIZE_MOD"

definition earlier :: "(mem_bio load_st \<times> mem_bio load_st) set" where
  "earlier = inv_image (less_than <*lex*> less_than) (\<lambda>st. (todo st, ld_bufnum st))"

lemma wf_earlier: "wf earlier"
  unfolding earlier_def by (intro wf_inv_image wf_lex_prod wf_less_than)

definition moved_on :: "mem_bio load_st \<Rightarrow> mem_bio load_st \<Rightarrow> bool" where
  "moved_on st st' \<longleftrightarrow> ld_conf st' = ld_conf st \<and> ld_section st' = ld_section st \<and> ld_sv st' = ld_sv st \<and> buf_ok (ld_buff st') \<and>
     bm_max (ld_buff st') < INT_MAX \<and> mem_ok (ld_in st')"

lemma grow_max:
  assumes "BUF_MEM_grow al len b = (n, b')" "len < 2 ^ 61"
  shows "bm_max b' \<le> max (bm_max b) ((len + 3) div 3 * 4)"
proof -
  have s: "size_add len 3 = len + 3" using assms(2) by (simp add: size_add_def SIZE_MOD_def)
  have "(len + 3) div 3 * 4 mod SIZE_MOD = (len + 3) div 3 * 4" using assms(2) by (simp add: SIZE_MOD_def)
  then show ?thesis using assms(1) by (auto simp: BUF_MEM_grow_def BUF_MEM_reserve_def Let_def s split: if_splits)
qed

lemma read_chunk_moves:
  assumes ok: "run_ok st A"
  shows "case read_chunk al mem_BIO_gets st of
      Read_fail st1 \<Rightarrow> moved_on st st1
    | Read_end st1 \<Rightarrow> moved_on st st1
    | Read_more st1 \<Rightarrow> moved_on st st1 \<and> (st1, st) \<in> earlier \<and> todo st1 \<le> todo st \<and>
        ld_bufnum st1 + length (BIO_mem_contents (ld_in st1)) \<le> ld_bufnum st + length (BIO_mem_contents (ld_in st))
    | Read_line st1 \<Rightarrow> moved_on st st1 \<and> todo st1 < todo st \<and> ld_bufnum st1 = 0 \<and>
        length (BIO_mem_contents (ld_in st1)) \<le> ld_bufnum st + length (BIO_mem_contents (ld_in st))
    | Read_overflow \<Rightarrow> False"
proof -
  let ?p = "ld_bufnum st"
  have bo: "buf_ok (ld_buff st)" and mo: "mem_ok (ld_in st)" and sz: "?p + length (BIO_mem_contents (ld_in st)) < 2 ^ 30"
    and mx: "bm_max (ld_buff st) < INT_MAX"
    using ok by (simp_all add: run_ok_def ld_ok_def)
  have add: "size_add ?p CONFBUFSIZE = ?p + CONFBUFSIZE" using sz by (simp add: size_add_def CONFBUFSIZE_def SIZE_MOD_def)
  obtain n buff where g: "BUF_MEM_grow al (?p + CONFBUFSIZE) (ld_buff st) = (n, buff)" by fastforce
  note k = grow_ok [OF bo g]
  have mx1: "bm_max buff < INT_MAX" using grow_max [OF g] mx sz by (simp add: CONFBUFSIZE_def INT_MAX_def)
  obtain ret bs inp where i: "mem_BIO_gets 511 (ld_in st) = (ret, bs, inp)" using prod_cases3 by blast
  note m = BIO_gets_line [OF mo _ i]
  show ?thesis
  proof (cases "n = 0")
    case True
    then have "read_chunk al mem_BIO_gets st = Read_fail (st\<lparr>ld_buff := buff\<rparr>)" by (simp add: read_chunk_def add g)
    then show ?thesis using k mo mx1 by (simp add: moved_on_def)
  next
    case False
    have r: "ret \<ge> 0" "length bs + 2 \<le> CONFBUFSIZE" "mem_ok inp" "BIO_mem_contents (ld_in st) = bs @ BIO_mem_contents inp"
    proof -
      have "(1 :: int) < 511" by simp
      note f = m [OF this]
      have l: "length (first_line k xs) \<le> k" for k xs by (simp add: first_line_def Let_def)
      have "bs = first_line (nat (511 - 1)) (BIO_mem_contents (ld_in st))" "ret = int (length bs)" using f by blast+
      then show "ret \<ge> 0" "length bs + 2 \<le> CONFBUFSIZE"
        using l [of "nat (511 - 1)" "BIO_mem_contents (ld_in st)"] by (simp_all add: CONFBUFSIZE_def)
      show "mem_ok inp" "BIO_mem_contents (ld_in st) = bs @ BIO_mem_contents inp" using f by blast+
    qed
    define d where "d = fetched ?p ret bs (bm_data buff)"
    define ii where "ii = length (cstr d ?p)"
    obtain long d2 bn again where el: "end_line d ?p ii = (long, d2, bn, again)" using prod_cases4 by blast
    define st2 where "st2 = st\<lparr>ld_in := inp, ld_buff := buff\<lparr>bm_data := d2\<rparr>, ld_bufnum := bn, ld_again := again,
      ld_eline := (if long then ld_eline st else ld_eline st + 1)\<rparr>"
    have room: "?p + CONFBUFSIZE \<le> length (bm_data buff)" using k False by simp
    obtain rest where d: "length d = length (bm_data buff)" "drop ?p d = bs @ 0 # rest"
      using piece_buffer [OF room r(2) d_def r(1)] by blast
    have ii: "ii \<le> length bs" unfolding ii_def cstr_take_while [OF d(2)] by (rule length_takeWhile_le)
    have fits: "\<not> ?p + trim_eol d ?p ii > INT_MAX"
      using trim_eol_le [of d ?p ii] ii sz r(4) by (simp add: INT_MAX_def)
    have e: "read_chunk al mem_BIO_gets st = (if ii = 0 \<and> \<not> ld_again st then Read_end (st\<lparr>ld_in := inp, ld_buff := buff\<lparr>bm_data := d\<rparr>\<rparr>)
        else if again then Read_more st2 else Read_line (st2\<lparr>ld_bufnum := 0\<rparr>))"
    proof -
      have c: "int CONFBUFSIZE - 1 = 511" by (simp add: CONFBUFSIZE_def)
      show ?thesis unfolding read_chunk_def add g prod.case c i prod.case Let_def d_def [symmetric] ii_def [symmetric] el prod.case st2_def [symmetric]
        using False fits by simp
    qed
    define j where "j = trim_eol d ?p ii"
    have j: "j \<le> ii" by (simp add: j_def trim_eol_le)
    have d2: "length d2 = length d" "bn \<le> ?p + j" "\<not> long \<and> again \<Longrightarrow> bn + 1 = ?p + j" "long \<Longrightarrow> ii \<noteq> 0"
      using el by (auto simp: end_line_def Let_def j_def [symmetric] split: if_splits)
    have b2: "buf_ok (buff\<lparr>bm_data := d2\<rparr>)" "buf_ok (buff\<lparr>bm_data := d\<rparr>)" using k d(1) d2(1) by (simp_all add: buf_ok_def)
    have len: "length (BIO_mem_contents (ld_in st)) = length bs + length (BIO_mem_contents inp)" using r(4) by simp
    have moved: "moved_on st st2" "moved_on st (st2\<lparr>ld_bufnum := 0\<rparr>)" "moved_on st (st\<lparr>ld_in := inp, ld_buff := buff\<lparr>bm_data := d\<rparr>\<rparr>)"
      using b2 r(3) mx1 by (simp_all add: moved_on_def st2_def)
    have t2: "todo st2 = 2 * length (BIO_mem_contents inp) + (if again then 1 else 0)" by (simp add: todo_def st2_def)
    have t1: "todo st = 2 * (length bs + length (BIO_mem_contents inp)) + (if ld_again st then 1 else 0)" unfolding todo_def len ..
    show ?thesis
    proof (cases "ii = 0 \<and> \<not> ld_again st")
      case True
      then show ?thesis using e moved(3) by simp
    next
      case go: False
      have lt: "todo st2 < todo st \<or> (todo st2 = todo st \<and> again \<and> bn < ?p)"
      proof (cases "bs = []")
        case True
        then have "ii = 0" using ii by simp
        then have "ld_again st" "\<not> long" "j = 0" using go d2(4) j by auto
        then show ?thesis using True d2(3) by (cases again) (auto simp: t1 t2)
      next
        case False
        then show ?thesis unfolding t1 t2 by (cases bs; cases again) simp_all
      qed
      have bound: "bn + length (BIO_mem_contents inp) \<le> ?p + length (BIO_mem_contents (ld_in st))"
        using d2(2) j ii len by simp
      show ?thesis
      proof (cases again)
        case True
        have "(st2, st) \<in> earlier" using lt by (auto simp: earlier_def st2_def)
        moreover have "ld_bufnum st2 = bn" "ld_in st2 = inp" by (simp_all add: st2_def)
        ultimately show ?thesis using e go True moved(1) lt bound by auto
      next
        case False
        have "todo (st2\<lparr>ld_bufnum := 0\<rparr>) < todo st" using lt False by (simp add: todo_def)
        then show ?thesis using e go False moved(2) bound by (simp add: st2_def)
      qed
    qed
  qed
qed

section \<open>The loop\<close>

definition sound :: "conf_st \<Rightarrow> bool" where
  "sound conf \<longleftrightarrow> (\<exists>A. store {} conf A {})"

lemma soundI: "store {} conf A R \<Longrightarrow> sound conf"
  unfolding sound_def using store_subset by blast

lemma outcomeE:
  assumes "outcome al g it st A res"
  obtains ok st' where "res = Some (ok, st')" "same_input st st'" "c_next (ld_conf st') \<le> c_next (ld_conf st) + 2"
    "ok \<Longrightarrow> it \<noteq> Bad \<and> ld_ok st' (snd (apply_item it (ld_section st, A))) \<and> ld_section st' = fst (apply_item it (ld_section st, A))"
    "\<not> ok \<Longrightarrow> sound (ld_conf st')" "g \<Longrightarrow> it \<noteq> Bad \<Longrightarrow> ok \<and> granted al (ld_conf st')"
proof -
  obtain ok st' where o1: "res = Some (ok, st')" "same_input st st'" "c_next (ld_conf st') \<le> c_next (ld_conf st) + 2"
     "if ok then it \<noteq> Bad \<and> ld_ok st' (snd (apply_item it (ld_section st, A))) \<and> ld_section st' = fst (apply_item it (ld_section st, A))
      else \<exists>A'. store {} (ld_conf st') A' {}" "g \<and> it \<noteq> Bad \<longrightarrow> ok \<and> granted al (ld_conf st')"
    using assms unfolding outcome_def by blast
  have "\<not> ok \<Longrightarrow> sound (ld_conf st')" using o1(4) unfolding sound_def by metis
  then show ?thesis using that [OF o1(1-3)] o1(4,5) by argo
qed

lemma moved_ld_ok: "ld_ok st A \<Longrightarrow> moved_on st st1 \<Longrightarrow> ld_ok st1 A"
  by (simp add: ld_ok_def moved_on_def)

text \<open>The loop ends on every input, with a store that satisfies its invariant.\<close>

lemma load_loop_ends:
  assumes "run_ok st A"
  shows "\<exists>ok st'. load_loop al mem_BIO_gets st = Some (ok, st') \<and> sound (ld_conf st') \<and> mem_ok (ld_in st') \<and>
    c_next (ld_conf st') \<le> c_next (ld_conf st) + 2 * todo st"
  using wf_earlier assms
proof (induction st arbitrary: A al rule: wf_induct_rule)
  case (less st)
  note mv = read_chunk_moves [OF less.prems, of "al [0]"]
  have ok: "ld_ok st A" using less.prems by (simp add: run_ok_def)
  have st: "sound (ld_conf st)" using ok unfolding ld_ok_def by (blast intro: soundI)
  show ?case
  proof (cases "read_chunk (al [0]) mem_BIO_gets st")
    case (Read_fail st1)
    then show ?thesis using mv st by (subst load_loop.simps) (auto simp: moved_on_def)
  next
    case (Read_end st1)
    then show ?thesis using mv st by (subst load_loop.simps) (auto simp: moved_on_def)
  next
    case (Read_more st1)
    then have m: "moved_on st st1" "(st1, st) \<in> earlier" "todo st1 \<le> todo st"
      "ld_bufnum st1 + length (BIO_mem_contents (ld_in st1)) \<le> ld_bufnum st + length (BIO_mem_contents (ld_in st))" using mv by simp_all
    have "run_ok st1 A" using less.prems m moved_ld_ok [OF ok m(1)] by (simp add: run_ok_def moved_on_def)
    from less.IH [OF m(2) this, of "sub 2 al"] obtain ok st2 where
      r: "load_loop (sub 2 al) mem_BIO_gets st1 = Some (ok, st2)" "sound (ld_conf st2)" "mem_ok (ld_in st2)"
        "c_next (ld_conf st2) \<le> c_next (ld_conf st1) + 2 * todo st1" by blast
    have "c_next (ld_conf st2) \<le> c_next (ld_conf st) + 2 * todo st" using r(4) m(1,3) by (simp add: moved_on_def)
    then show ?thesis using Read_more r(1-3) by (subst load_loop.simps) simp
  next
    case (Read_line st1)
    then have m: "moved_on st st1" "todo st1 < todo st" "ld_bufnum st1 = 0"
      "length (BIO_mem_contents (ld_in st1)) \<le> ld_bufnum st + length (BIO_mem_contents (ld_in st))" using mv by simp_all
    have n: "c_next (ld_conf st1) + 3 < SIZE_MOD" using less.prems m(1) by (simp add: run_ok_def moved_on_def)
    from line_correct [OF moved_ld_ok [OF ok m(1)] n, of "sub 1 al"] obtain ok2 st2 where
      l: "load_line (sub 1 al) st1 = Some (ok2, st2)" "same_input st1 st2" "c_next (ld_conf st2) \<le> c_next (ld_conf st1) + 2"
        "ok2 \<Longrightarrow> ld_ok st2 (snd (apply_item (line_item (bm_data (ld_buff st1))) (ld_section st1, A)))" "\<not> ok2 \<Longrightarrow> sound (ld_conf st2)"
      by (rule outcomeE) blast
    show ?thesis
    proof (cases ok2)
      case False
      then show ?thesis using l(5) Read_line l(1-3) False m(1,2) by (subst load_loop.simps) (auto simp: same_input_def moved_on_def)
    next
      case True
      then obtain A2 where A2: "ld_ok st2 A2" using l(4) by blast
      have t: "todo st2 = todo st1" using l(2) by (simp add: todo_def same_input_def)
      have "run_ok st2 A2" using A2 less.prems m l(2,3) unfolding run_ok_def t by (simp add: same_input_def moved_on_def)
      moreover have "(st2, st) \<in> earlier" using m(2) t by (simp add: earlier_def)
      ultimately obtain ok3 st3 where "load_loop (sub 2 al) mem_BIO_gets st2 = Some (ok3, st3)" "sound (ld_conf st3)" "mem_ok (ld_in st3)"
          "c_next (ld_conf st3) \<le> c_next (ld_conf st2) + 2 * todo st2" using less.IH by blast
      then show ?thesis using Read_line l(1,3) True m(1,2) t by (subst load_loop.simps) (auto simp: moved_on_def)
    qed
  next
    case Read_overflow
    then show ?thesis using mv by simp
  qed
qed

lemma new_max: "BUF_MEM_new m = Some b \<Longrightarrow> bm_max b = 0"
  by (auto simp: BUF_MEM_new_def split: if_splits)

text \<open>The whole call; the count of addresses given out grows by at most four for every byte, and one.\<close>

lemma load_ends:
  assumes so: "sound conf" and m: "mem_ok bio" and len: "length (BIO_mem_contents bio) < 2 ^ 30" and n: "c_next conf + 4 * length (BIO_mem_contents bio) + 516 < SIZE_MOD"
  shows "\<exists>ok line bio' conf'. NCONF_load_bio al mem_BIO_gets bio conf = Some (ok, line, bio', conf') \<and> sound conf' \<and> mem_ok bio' \<and>
    c_next conf' \<le> c_next conf + 4 * length (BIO_mem_contents bio) + 1"
proof (cases "BUF_MEM_new (al [0]) = None \<or> OPENSSL_strdup (al [1]) kDefaultSectionName = None")
  case True
  then show ?thesis using so m by (auto simp: NCONF_load_bio_def split: option.split)
next
  case False
  then obtain buff where b: "BUF_MEM_new (al [0]) = Some buff" and d: "OPENSSL_strdup (al [1]) kDefaultSectionName = Some kDefaultSectionName"
    using strdup_Some by fastforce
  obtain A where st: "store {} conf A {}" using so by (auto simp: sound_def)
  have n1: "Suc (c_next conf) < SIZE_MOD" using n by simp
  from new_section_store [OF st n1, where nm = kDefaultSectionName and al = "sub 2 al"] obtain r conf1 where
    r: "NCONF_new_section (sub 2 al) kDefaultSectionName conf = Some (r, conf1)" "c_next conf1 \<le> Suc (c_next conf)"
      "case r of None \<Rightarrow> store {} conf1 A {} | Some t \<Rightarrow> store {} conf1 (fst A, (snd A)(kDefaultSectionName \<mapsto> [])) {(kDefaultSectionName, t)}" by auto
  show ?thesis
  proof (cases r)
    case None
    then have "sound conf1" using r(3) soundI by simp
    then show ?thesis using None r(1,2) b d m by (auto simp: NCONF_load_bio_def)
  next
    case (Some sv)
    let ?st = "\<lparr>ld_in = bio, ld_buff = buff, ld_bufnum = 0, ld_again = False, ld_eline = 0, ld_section = kDefaultSectionName, ld_sv = sv, ld_conf = conf1\<rparr>"
    have "run_ok ?st (fst A, (snd A)(kDefaultSectionName \<mapsto> []))"
      using r(2,3) Some m buf_new [OF b] n len new_max [OF b] by (simp add: run_ok_def ld_ok_def todo_def INT_MAX_def)
    from load_loop_ends [OF this, of "sub 3 al"] show ?thesis using r b d Some by (fastforce simp: NCONF_load_bio_def todo_def)
  qed
qed

end
