(* ===== verification/ConfText.thy ===== *)
theory ConfText
  imports ConfRun
begin

text \<open>
  Configuration files as text: how a section header and an assignment are written so that the reader takes
  them back, whatever bytes the value has, and that it does.
\<close>

section \<open>Writing lines\<close>

text \<open>A value in double quotes, with quotes and backslashes escaped.\<close>

definition escape :: "byte \<Rightarrow> byte list" where
  "escape c = (if c = 34 \<or> c = 92 then [92, c] else [c])"

definition quote :: "byte list \<Rightarrow> byte list" where
  "quote x = 34 # concat (map escape x) @ [34]"

datatype doc_line = Doc_section "byte list" | Doc_value "byte list" "byte list"

fun body_of :: "doc_line \<Rightarrow> byte list" where
  "body_of (Doc_section nm) = 91 # nm @ [93]"
| "body_of (Doc_value n x) = n @ 61 # quote x"

definition line_of :: "doc_line \<Rightarrow> byte list" where
  "line_of l = body_of l @ [10]"

text \<open>Names of name characters, values of any bytes but NUL and newline, and lines that the buffer holds in one piece.\<close>

fun doc_ok :: "doc_line \<Rightarrow> bool" where
  "doc_ok (Doc_section nm) \<longleftrightarrow> list_all is_name_char nm \<and> length (line_of (Doc_section nm)) \<le> 510"
| "doc_ok (Doc_value n x) \<longleftrightarrow> list_all is_name_char n \<and> 0 \<notin> set x \<and> 10 \<notin> set x \<and> length (line_of (Doc_value n x)) \<le> 510"

fun doc_item :: "doc_line \<Rightarrow> item" where
  "doc_item (Doc_section nm) = Header nm"
| "doc_item (Doc_value n x) = Assign None n x"

lemma name_char_plain: "is_name_char c \<Longrightarrow> c \<notin> {0, 9, 10, 13, 32, 34, 35, 36, 39, 58, 61, 91, 92, 93, 96}"
  by (auto simp: is_name_char_def OPENSSL_isalnum_def OPENSSL_isalpha_def)

section \<open>Scanning what was written\<close>

lemma at_drop: "drop p d = c # r \<Longrightarrow> at d p = c \<and> drop (Suc p) d = r"
proof -
  assume a: "drop p d = c # r"
  then have "p < length d" by (metis drop_eq_Nil linorder_not_less list.distinct(1))
  then show ?thesis using a by (simp add: at_def Cons_nth_drop_Suc [symmetric])
qed

lemma clear_plain:
  "drop p d = xs @ ys \<Longrightarrow> (\<And>c. c \<in> set xs \<Longrightarrow> c \<noteq> 0 \<and> \<not> is_comment c \<and> \<not> is_quote c \<and> \<not> is_esc c) \<Longrightarrow>
    clear_comments_loop d p = clear_comments_loop d (p + length xs)"
proof (induction xs arbitrary: p)
  case (Cons c xs)
  then have c: "at d p = c" "drop (Suc p) d = xs @ ys" using at_drop [of p d c "xs @ ys"] by simp_all
  have "clear_comments_loop d p = clear_comments_loop d (Suc p)"
    using Cons.prems(2) [of c] c(1) by (subst clear_comments_loop.simps) simp
  then show ?case using Cons.IH [OF c(2)] Cons.prems(2) by simp
qed simp

lemma scan_quote_escaped:
  "drop p d = concat (map escape x) @ 34 # r \<Longrightarrow> 0 \<notin> set x \<Longrightarrow> scan_quote_loop d 34 p = p + length (concat (map escape x)) + 1"
proof (induction x arbitrary: p)
  case Nil
  then have "at d p = 34" using at_drop [of p d 34 r] by simp
  then show ?case by (subst scan_quote_loop.simps) simp
next
  case (Cons c x)
  show ?case
  proof (cases "c = 34 \<or> c = 92")
    case True
    then have e: "escape c = [92, c]" by (simp add: escape_def)
    then have d: "drop p d = 92 # c # concat (map escape x) @ 34 # r" using Cons.prems(1) by simp
    note a = at_drop [OF d]
    note b = at_drop [OF a [THEN conjunct2]]
    have "scan_quote_loop d 34 p = scan_quote_loop d 34 (p + 2)"
      using a b True by (subst scan_quote_loop.simps) (auto simp: is_esc_def)
    then show ?thesis using Cons.IH [of "p + 2"] b Cons.prems(2) e by simp
  next
    case False
    then have e: "escape c = [c]" by (simp add: escape_def)
    then have d: "drop p d = c # concat (map escape x) @ 34 # r" using Cons.prems(1) by simp
    note a = at_drop [OF d]
    have "scan_quote_loop d 34 p = scan_quote_loop d 34 (p + 1)"
      using a False Cons.prems(2) by (subst scan_quote_loop.simps) (auto simp: is_esc_def)
    then show ?thesis using Cons.IH [of "p + 1"] a Cons.prems(2) e by simp
  qed
qed

lemma eat_name_chars:
  "drop p d = nm @ c # r \<Longrightarrow> list_all is_name_char nm \<Longrightarrow> \<not> is_name_char c \<Longrightarrow> \<not> is_esc c \<Longrightarrow> eat_name d p = p + length nm"
proof (induction nm arbitrary: p)
  case Nil
  then show ?case using at_drop [of p d c r] by (subst eat_name.simps) simp
next
  case (Cons a nm)
  then have c: "at d p = a" "drop (Suc p) d = nm @ c # r" using at_drop [of p d a "nm @ c # r"] by simp_all
  have "\<not> is_esc a" using name_char_plain [of a] Cons.prems(2) by (simp add: is_esc_def)
  then show ?case using Cons.IH [OF c(2)] Cons.prems c(1) by (subst eat_name.simps) simp
qed

lemma eat_ws_here: "\<not> is_conf_ws (at d p) \<Longrightarrow> eat_ws d p = p"
  by (subst eat_ws.simps) simp

lemma unescaped_name: "list_all is_name_char nm \<Longrightarrow> unescaped nm = Some nm"
proof (induction nm)
  case (Cons c nm)
  then have "\<not> is_quote c" "\<not> is_esc c" "c \<noteq> 36" using name_char_plain [of c] by (simp_all add: is_quote_def is_esc_def)
  then show ?case using Cons by simp
qed simp

lemma quoted_escaped: "quoted 34 (concat (map escape x) @ 34 # r) = (x, r)"
  by (induction x) (simp_all add: escape_def is_esc_def)

lemma unescaped_quote: "unescaped (quote x) = Some x"
  using quoted_escaped [of x "[]"] by (simp add: quote_def is_quote_def)

lemma escaped_nonzero: "0 \<notin> set x \<Longrightarrow> 0 \<notin> set (concat (map escape x))"
  by (auto simp: escape_def)

section \<open>Lines in the buffer\<close>

lemma header_line:
  assumes "list_all is_name_char nm" "d = 91 # nm @ 93 # 0 # r"
  shows "line_item d = Header nm"
proof -
  let ?e = "Suc (length nm)"
  have plain: "c \<noteq> 0 \<and> \<not> is_comment c \<and> \<not> is_quote c \<and> \<not> is_esc c" if "c \<in> set (91 # nm @ [93])" for c
    using that assms(1) name_char_plain [of c] by (auto simp: char_defs list_all_iff)
  have z: "at d (Suc ?e) = 0" and rb: "at d ?e = 93" using assms(2) by (simp_all add: at_def nth_append)
  have "clear_comments_loop d 0 = clear_comments_loop d (length (91 # nm @ [93]))"
    using clear_plain [of 0 d "91 # nm @ [93]" "0 # r"] plain assms(2) by simp
  also have "\<dots> = d" using z by (subst clear_comments_loop.simps) simp
  finally have cl: "clear_comments d = d" using assms(2) by (simp add: clear_comments_def eat_ws_here at_def char_defs)
  have "at d 1 = hd (nm @ [93])" using assms(2) by (cases nm) (simp_all add: at_def)
  then have "\<not> is_conf_ws (at d 1)" using assms(1) name_char_plain [of "hd nm"] by (cases nm) (auto simp: char_defs)
  then have ws: "eat_ws d (0 + 1) = 1" by (simp add: eat_ws_here)
  have en: "eat_name d 1 = ?e"
    using eat_name_chars [of 1 d nm 93 "0 # r"] assms name_char_plain [of 93] by (auto simp: is_esc_def)
  have "eat_ws d ?e = ?e" using rb by (simp add: eat_ws_here char_defs)
  then have se: "section_end d 1 = Some ?e" using en rb by (subst section_end.simps) simp
  have "d[?e := 0] = 91 # nm @ 0 # 0 # r" using assms(2) by (simp add: list_update_append)
  then have "cstr (d[?e := 0]) 1 = nm"
    using assms(1) name_char_plain by (intro cstr_terminated [where r = "0 # r"]) (auto simp: list_all_iff)
  then have "header_item d 0 = Header nm" using ws se unescaped_name [OF assms(1)] by (simp add: header_item_def)
  moreover have "eat_ws d 0 = 0" "at d 0 = 91" using assms(2) by (simp_all add: eat_ws_here at_def char_defs)
  ultimately show ?thesis by (simp add: line_item_def cl)
qed

lemma value_line:
  assumes "list_all is_name_char n" "0 \<notin> set x" "d = n @ 61 # quote x @ 0 # r"
  shows "line_item d = Assign None n x"
proof -
  let ?e = "length n" and ?x = "concat (map escape x)"
  let ?k = "Suc (?e + Suc (length ?x))"
  have d: "drop (Suc ?e) d = 34 # ?x @ 34 # 0 # r" "drop ?e d = 61 # 34 # ?x @ 34 # 0 # r" using assms(3) by (simp_all add: quote_def)
  have q: "at d (Suc ?e) = 34" "drop (Suc (Suc ?e)) d = ?x @ 34 # 0 # r" and eq: "at d ?e = 61" using at_drop d by blast+
  have z: "at d (Suc ?k) = 0" "at d ?k = 34" using assms(3) by (simp_all add: at_def nth_append quote_def)
  have plain: "c \<noteq> 0 \<and> \<not> is_comment c \<and> \<not> is_quote c \<and> \<not> is_esc c" if "c \<in> set (n @ [61])" for c
    using that assms(1) name_char_plain [of c] by (auto simp: char_defs list_all_iff)
  have "at d 0 = hd (n @ [61])" using assms(3) by (cases n) (simp_all add: at_def)
  then have at0: "\<not> is_conf_ws (at d 0)" "at d 0 \<noteq> 0" "at d 0 \<noteq> 91"
    using assms(1) name_char_plain [of "hd n"] by (cases n; auto simp: char_defs)+
  have "clear_comments_loop d 0 = clear_comments_loop d (Suc ?e)"
    using clear_plain [of 0 d "n @ [61]" "34 # ?x @ 34 # 0 # r"] plain assms(3) by (simp add: quote_def)
  also have "\<dots> = clear_comments_loop d (scan_quote d (Suc ?e))"
    using q(1) by (subst clear_comments_loop.simps) (simp add: char_defs)
  also have "scan_quote d (Suc ?e) = Suc ?k"
    using scan_quote_escaped [OF q(2) assms(2)] q(1) by (simp add: scan_quote_def)
  also have "clear_comments_loop d (Suc ?k) = d" using z(1) by (subst clear_comments_loop.simps) simp
  finally have cl: "clear_comments d = d" using at0(1) by (simp add: clear_comments_def eat_ws_here)
  have en: "eat_name d 0 = ?e"
    using eat_name_chars [of 0 d n 61 "quote x @ 0 # r"] assms(1,3) name_char_plain [of 61] by (auto simp: is_esc_def)
  have wse: "eat_ws d ?e = ?e" using eq by (simp add: eat_ws_here char_defs)
  let ?b = "d[?e := 0]"
  have b: "?b = n @ 0 # quote x @ 0 # r" using assms(3) by (simp add: list_update_append)
  have nz: "0 \<notin> set (quote x)" using escaped_nonzero [OF assms(2)] by (simp add: quote_def)
  have cs: "cstr ?b (Suc ?e) = quote x" by (rule cstr_terminated [OF nz, where r = r]) (simp add: b)
  have ws: "eat_ws ?b (Suc ?e) = Suc ?e" using q(1) by (simp add: eat_ws_here at_cut char_defs)
  have len: "Suc ?e + length (quote x) - 1 = ?k" by (simp add: quote_def)
  have "trim_ws ?b (Suc ?e) ?k = Some ?k" using z(2) by (simp add: at_cut char_defs)
  moreover have "?b[?k + 1 := 0] = ?b"
  proof -
    have "?b ! Suc ?k = 0" by (simp add: b nth_append quote_def)
    then show ?thesis by (metis Suc_eq_plus1 list_update_id)
  qed
  ultimately have "split_assign d 0 = Some (Some (None, 0, Suc ?e, ?b))"
    using en wse eq ws cs len by (simp add: split_assign_def Let_def)
  moreover have "cstr ?b 0 = n"
    by (rule cstr_terminated [where r = "quote x @ 0 # r"]) (use assms(1) name_char_plain in \<open>auto simp: b list_all_iff\<close>)
  ultimately have "assign_item d 0 = Assign None n x" using cs unescaped_quote by (simp add: assign_item_def)
  then show ?thesis using at0 by (simp add: line_item_def cl eat_ws_here)
qed

lemma doc_line_item: "doc_ok l \<Longrightarrow> d = body_of l @ 0 # r \<Longrightarrow> line_item d = doc_item l"
  using header_line value_line by (cases l) auto

end
