(* ===== verification/ConfProps.thy ===== *)
theory ConfProps
  imports ConfText
begin

text \<open>
  What the configuration store and its reader promise: reading is safe on every input and leaves nothing
  behind when the store is freed, and a file that was written is read back.
\<close>

section \<open>Reading a line that was written\<close>

lemma grow_line:
  assumes "buf_ok b" "bm_max b \<le> 684" "\<forall>n. al n"
  shows "\<exists>b'. BUF_MEM_grow al 512 b = (512, b') \<and> buf_ok b' \<and> bm_max b' \<le> 684 \<and> 512 \<le> length (bm_data b')"
proof -
  obtain n b' where g: "BUF_MEM_grow al 512 b = (n, b')" by fastforce
  have n: "n = 512" using grow_granted [of b al 512] assms(1,3) g by simp
  have "bm_max b' \<le> 684"
    using g assms(2) by (auto simp: BUF_MEM_grow_def BUF_MEM_reserve_def Let_def size_add_def SIZE_MOD_def assms(3) split: if_splits)
  then show ?thesis using grow_ok [OF assms(1) g] n g by auto
qed

lemma body_facts:
  assumes "doc_ok l"
  shows "body_of l \<noteq> []" "last (body_of l) = 34 \<or> last (body_of l) = 93" "0 \<notin> set (body_of l)" "10 \<notin> set (body_of l)" "length (body_of l) < 510"
proof -
  show "body_of l \<noteq> []" "last (body_of l) = 34 \<or> last (body_of l) = 93" by (cases l; simp add: quote_def)+
  show "0 \<notin> set (body_of l)" "10 \<notin> set (body_of l)"
    using assms name_char_plain by (cases l; auto simp: list_all_iff quote_def escape_def)+
  show "length (body_of l) < 510" using assms by (cases l) (simp_all add: line_of_def)
qed

lemma first_line_line:
  assumes "doc_ok l"
  shows "first_line 510 (line_of l @ rest) = line_of l"
proof -
  note f = body_facts [OF assms]
  have "takeWhile (\<lambda>c. c \<noteq> 10) (body_of l @ 10 # rest) = body_of l"
    using f(4) by (subst takeWhile_append2) auto
  then show ?thesis using f(5) by (simp add: first_line_def line_of_def)
qed

lemma at_add: "at d (p + k) = at (drop p d) k"
  by (simp add: at_def less_diff_conv add.commute)

lemma trim_line:
  assumes "drop p d = xs @ 10 # r" "xs \<noteq> []" "last xs \<noteq> 13" "last xs \<noteq> 10"
  shows "trim_eol d p (Suc (length xs)) = length xs"
proof -
  obtain ys y where xs: "xs = ys @ [y]" using assms(2) by (cases xs rule: rev_cases) auto
  have "at d (p + length xs) = 10" "at d (p + length ys) = y"
    unfolding at_add assms(1) by (simp_all add: at_def xs nth_append)
  then show ?thesis using assms(3,4) by (simp add: xs)
qed

lemma read_written:
  assumes ok: "ld_ok st A" "mem_ok (ld_in st)" and c: "BIO_mem_contents (ld_in st) = line_of l @ rest" and l: "doc_ok l"
    and z: "ld_bufnum st = 0" "\<not> ld_again st" "bm_max (ld_buff st) \<le> 684" and al: "\<forall>n. al n"
  shows "\<exists>st1. read_chunk al mem_BIO_gets st = Read_line st1 \<and> moved_on st st1 \<and> BIO_mem_contents (ld_in st1) = rest \<and>
    ld_bufnum st1 = 0 \<and> \<not> ld_again st1 \<and> bm_max (ld_buff st1) \<le> 684 \<and> (\<exists>r. bm_data (ld_buff st1) = body_of l @ 0 # r)"
proof -
  note f = body_facts [OF l]
  have bo: "buf_ok (ld_buff st)" using ok(1) by (simp add: ld_ok_def)
  obtain buff where g: "BUF_MEM_grow al 512 (ld_buff st) = (512, buff)" "buf_ok buff" "bm_max buff \<le> 684" "512 \<le> length (bm_data buff)"
    using grow_line [OF bo z(3) al] by blast
  obtain ret bs inp where i: "mem_BIO_gets 511 (ld_in st) = (ret, bs, inp)" using prod_cases3 by blast
  have "(1 :: int) < 511" by simp
  note g511 = BIO_gets_line [OF ok(2) this i]
  have "nat (511 - 1) = 510" by simp
  then have m: "bs = first_line 510 (BIO_mem_contents (ld_in st))" "ret = int (length bs)" "mem_ok inp"
    "BIO_mem_contents (ld_in st) = bs @ BIO_mem_contents inp" using g511 by metis+
  have bs: "bs = line_of l" using m(1) first_line_line [OF l, of rest] unfolding c by simp
  have ret: "ret \<ge> 0" and mo: "mem_ok inp" using m(2,3) by simp_all
  have rest: "BIO_mem_contents inp = rest"
  proof -
    have "line_of l @ rest = bs @ BIO_mem_contents inp" using m(4) unfolding c .
    then show ?thesis by (simp add: bs)
  qed
  define d where "d = fetched 0 ret bs (bm_data buff)"
  obtain r where d: "length d = length (bm_data buff)" "drop 0 d = bs @ 0 # r"
    using piece_buffer [OF _ _ d_def ret] g(4) f(5) by (auto simp: CONFBUFSIZE_def bs line_of_def)
  have d': "d = body_of l @ 10 # 0 # r" using d(2) by (simp add: bs line_of_def)
  have "0 \<notin> set bs" using f(3) by (simp add: bs line_of_def)
  then have cs: "cstr d 0 = bs" using cstr_terminated d(2) by blast
  have lb: "last (body_of l) \<noteq> 13" "last (body_of l) \<noteq> 10" "last (body_of l) \<noteq> 92" using f(2) by auto
  have ii: "length (cstr d 0) = Suc (length (body_of l))" by (simp add: cs bs line_of_def)
  have tr: "trim_eol d 0 (Suc (length (body_of l))) = length (body_of l)"
    by (rule trim_line [where r = "0 # r"]) (use d' f(1) lb in simp_all)
  let ?d = "body_of l @ 0 # 0 # r"
  have d2: "d[length (body_of l) := 0] = ?d" by (simp add: d' list_update_append)
  obtain k where k: "length (body_of l) = Suc k" using f(1) by (cases "body_of l") auto
  have "at ?d k = last (body_of l)" using f(1) k by (simp add: at_def nth_append last_conv_nth)
  then have esc: "\<not> is_esc (at ?d (length (body_of l) - 1))" using lb(3) k by (simp add: is_esc_def)
  have fits: "\<not> 0 + trim_eol d 0 (length (cstr d 0)) > INT_MAX" unfolding ii tr using f(5) by (simp add: INT_MAX_def)
  have el: "end_line d 0 (length (cstr d 0)) = (False, ?d, length (body_of l), False)"
    unfolding end_line_def ii tr Let_def using esc d2 by simp
  define st1 where "st1 = st\<lparr>ld_in := inp, ld_buff := buff\<lparr>bm_data := ?d\<rparr>, ld_bufnum := length (body_of l), ld_again := False, ld_eline := ld_eline st + 1\<rparr>"
  have a: "size_add 0 CONFBUFSIZE = 512" "int CONFBUFSIZE - 1 = 511" by (simp_all add: size_add_def CONFBUFSIZE_def SIZE_MOD_def)
  have "read_chunk al mem_BIO_gets st = Read_line (st1\<lparr>ld_bufnum := 0\<rparr>)"
    unfolding read_chunk_def z(1) a g(1) prod.case i prod.case Let_def d_def [symmetric] el prod.case if_not_P [OF fits] using ii by (simp add: st1_def)
  moreover have "length ?d = length (bm_data buff)" using d(1) d' by simp
  then have "moved_on st (st1\<lparr>ld_bufnum := 0\<rparr>)" using g(2,3) mo by (simp add: moved_on_def st1_def buf_ok_def INT_MAX_def)
  ultimately show ?thesis using rest g(3) by (intro exI [of _ "st1\<lparr>ld_bufnum := 0\<rparr>"]) (auto simp: st1_def)
qed

lemma read_end:
  assumes ok: "ld_ok st A" "mem_ok (ld_in st)" and c: "BIO_mem_contents (ld_in st) = []"
    and z: "ld_bufnum st = 0" "\<not> ld_again st" "bm_max (ld_buff st) \<le> 684" and al: "\<forall>n. al n"
  shows "\<exists>st1. read_chunk al mem_BIO_gets st = Read_end st1 \<and> moved_on st st1"
proof -
  have bo: "buf_ok (ld_buff st)" using ok(1) by (simp add: ld_ok_def)
  obtain buff where g: "BUF_MEM_grow al 512 (ld_buff st) = (512, buff)" "buf_ok buff" "512 \<le> length (bm_data buff)" "bm_max buff \<le> 684"
    using grow_line [OF bo z(3) al] by blast
  obtain ret bs inp where i: "mem_BIO_gets 511 (ld_in st) = (ret, bs, inp)" using prod_cases3 by blast
  have "(1 :: int) < 511" by simp
  note g511 = BIO_gets_line [OF ok(2) this i]
  have "nat (511 - 1) = 510" by simp
  then have m: "bs = first_line 510 (BIO_mem_contents (ld_in st))" "ret = int (length bs)" "mem_ok inp"
    "BIO_mem_contents (ld_in st) = bs @ BIO_mem_contents inp" using g511 by metis+
  have bs: "bs = []" using m(4) unfolding c by simp
  have ret: "ret \<ge> 0" and mo: "mem_ok inp" using m(2,3) by simp_all
  define d where "d = fetched 0 ret bs (bm_data buff)"
  obtain r where d: "length d = length (bm_data buff)" "drop 0 d = bs @ 0 # r"
    using piece_buffer [OF _ _ d_def ret] g(3) by (auto simp: CONFBUFSIZE_def bs)
  have cs: "length (cstr d 0) = 0" using cstr_take_while [OF d(2)] by (simp add: bs)
  have a: "size_add 0 CONFBUFSIZE = 512" "int CONFBUFSIZE - 1 = 511" by (simp_all add: size_add_def CONFBUFSIZE_def SIZE_MOD_def)
  have "read_chunk al mem_BIO_gets st = Read_end (st\<lparr>ld_in := inp, ld_buff := buff\<lparr>bm_data := d\<rparr>\<rparr>)"
    unfolding read_chunk_def z(1) a g(1) prod.case i prod.case Let_def d_def [symmetric] cs using z(2) by simp
  moreover have "moved_on st (st\<lparr>ld_in := inp, ld_buff := buff\<lparr>bm_data := d\<rparr>\<rparr>)" using g(2,4) d(1) mo by (simp add: moved_on_def buf_ok_def INT_MAX_def)
  ultimately show ?thesis by blast
qed

section \<open>The meaning of a file\<close>

text \<open>The current section with the strings and the entries so far: a later value of a name replaces the earlier.\<close>

fun doc_step :: "byte list \<times> meaning \<Rightarrow> doc_line \<Rightarrow> byte list \<times> meaning" where
  "doc_step (c, V, S) (Doc_section nm) = (nm, V, if S nm = None then S(nm \<mapsto> []) else S)"
| "doc_step (c, V, S) (Doc_value n x) = (c, V((c, n) \<mapsto> x), S(c \<mapsto> filter (\<lambda>(k, _). k \<noteq> n) (the (S c)) @ [(n, x)]))"

definition doc_meaning :: "doc_line list \<Rightarrow> meaning" where
  "doc_meaning ls = snd (foldl doc_step (kDefaultSectionName, Map.empty, [kDefaultSectionName \<mapsto> []]) ls)"

lemma item_step:
  assumes "store X conf A R" "(c, s) \<in> R"
  shows "apply_item (doc_item l) (c, A) = doc_step (c, A) l"
proof (cases l)
  case (Doc_section nm)
  then show ?thesis by (cases A) simp
next
  case (Doc_value n x)
  then show ?thesis using sec_op_known [OF assms] by (cases A) simp
qed

lemma load_loop_written:
  assumes "ld_ok st A" "mem_ok (ld_in st)" "BIO_mem_contents (ld_in st) = concat (map line_of ls)" "list_all doc_ok ls"
    "ld_bufnum st = 0" "\<not> ld_again st" "bm_max (ld_buff st) \<le> 684" "granted al (ld_conf st)"
    "c_next (ld_conf st) + 2 * length ls + 4 < 2147483647"
  shows "\<exists>st'. load_loop al mem_BIO_gets st = Some (True, st') \<and> store {} (ld_conf st') (snd (foldl doc_step (ld_section st, A) ls)) {}"
  using assms
proof (induction ls arbitrary: st A al)
  case Nil
  have al: "\<forall>n. al [0] n" using Nil.prems(8) by (simp add: granted_def)
  have "BIO_mem_contents (ld_in st) = []" using Nil.prems(3) by simp
  from read_end [OF Nil.prems(1,2) this Nil.prems(5-7) al] obtain st1 where
    r: "read_chunk (al [0]) mem_BIO_gets st = Read_end st1" "moved_on st st1" by blast
  have "store {} (ld_conf st1) A {}" using Nil.prems(1) r(2) by (simp add: ld_ok_def moved_on_def) (blast intro: store_subset)
  then show ?case using r(1) by (subst load_loop.simps) simp
next
  case (Cons l ls)
  have al: "\<forall>n. al [0] n" using Cons.prems(8) by (simp add: granted_def)
  have l: "doc_ok l" and c: "BIO_mem_contents (ld_in st) = line_of l @ concat (map line_of ls)" using Cons.prems(3,4) by simp_all
  from read_written [OF Cons.prems(1,2) c l Cons.prems(5-7) al] obtain st1 r where
    r: "read_chunk (al [0]) mem_BIO_gets st = Read_line st1" "moved_on st st1" "BIO_mem_contents (ld_in st1) = concat (map line_of ls)"
      "ld_bufnum st1 = 0" "\<not> ld_again st1" "bm_max (ld_buff st1) \<le> 684" "bm_data (ld_buff st1) = body_of l @ 0 # r" by blast
  have it: "line_item (bm_data (ld_buff st1)) = doc_item l" by (rule doc_line_item [OF l r(7)])
  have bad: "doc_item l \<noteq> Bad" by (cases l) simp_all
  have ok1: "ld_ok st1 A" by (rule moved_ld_ok [OF Cons.prems(1) r(2)])
  have same1: "ld_conf st1 = ld_conf st" "ld_section st1 = ld_section st" "mem_ok (ld_in st1)" using r(2) by (simp_all add: moved_on_def)
  have n: "c_next (ld_conf st1) + 3 < SIZE_MOD" "ample al st1" using Cons.prems(8,9) same1 by (simp_all add: SIZE_MOD_def ample_def)
  have n1: "ample (sub 1 al) st1" by (rule ample_sub [OF n(2)])
  from line_correct [OF ok1 n(1), of "sub 1 al"] obtain ok2 st2 where
    l2: "load_line (sub 1 al) st1 = Some (ok2, st2)" "same_input st1 st2" "c_next (ld_conf st2) \<le> c_next (ld_conf st1) + 2"
      "ok2 \<Longrightarrow> ld_ok st2 (snd (apply_item (doc_item l) (ld_section st1, A))) \<and> ld_section st2 = fst (apply_item (doc_item l) (ld_section st1, A))"
      "ok2 \<and> granted (sub 1 al) (ld_conf st2)"
    unfolding it by (rule outcomeE) (use n1 bad in blast)
  have g2: "granted (sub 2 al) (ld_conf st2)" using granted_sub granted_up Cons.prems(8) l2(5) by blast
  have step: "apply_item (doc_item l) (ld_section st1, A) = doc_step (ld_section st, A) l"
    using item_step [of "{}" "ld_conf st1" A "{(ld_section st1, ld_sv st1)}"] ok1 same1(2) by (simp add: ld_ok_def)
  have s2: "ld_in st2 = ld_in st1" "ld_bufnum st2 = 0" "\<not> ld_again st2" "bm_max (ld_buff st2) \<le> 684"
    using l2(2) r(4-6) by (simp_all add: same_input_def)
  have "load_loop al mem_BIO_gets st = load_loop (sub 2 al) mem_BIO_gets st2" using r(1) l2(1,5) by (subst load_loop.simps) simp
  moreover have "foldl doc_step (ld_section st, A) (l # ls) = foldl doc_step (ld_section st2, snd (doc_step (ld_section st, A) l)) ls"
    using l2(4,5) step by simp
  moreover have "c_next (ld_conf st2) + 2 * length ls + 4 < 2147483647" using l2(3) same1(1) Cons.prems(9) by simp
  ultimately show ?case
    using Cons.IH [of st2 "snd (doc_step (ld_section st, A) l)" "sub 2 al"] l2(4,5) g2 step s2 r(3) same1(3) Cons.prems(4) by simp
qed

section \<open>Promises\<close>

lemma new_store: "NCONF_new al als alv mn = Some conf \<Longrightarrow> store {} conf (Map.empty, Map.empty) {} \<and> c_next conf = 0"
  using new_ok [of al als alv mn conf] by (auto intro!: storeI simp: val_at_def secs_at_def fun_eq_iff)

lemma new_granted:
  assumes "NCONF_new m als alv mn = Some conf" "\<forall>p n. al p n" "\<forall>n s. als n s" "\<forall>n s. alv n s"
  shows "granted al conf"
proof -
  obtain ls lv where n: "OPENSSL_lh_new als conf_section_hash conf_section_cmp = Some ls"
      "OPENSSL_lh_new alv conf_value_hash conf_value_cmp = Some lv" and c: "c_sections conf = ls" "c_values conf = lv"
    using assms(1) by (auto simp: NCONF_new_def split: if_splits option.splits)
  show ?thesis using sections.new_table [OF n(1)] cvalues.new_table [OF n(2)] assms(2-4) by (simp add: granted_def c)
qed

lemma store_lookups:
  assumes "store X conf A R"
  shows "NCONF_get_string conf section name = Some (fst A (case section of None \<Rightarrow> kDefaultSectionName | Some s \<Rightarrow> s, name))"
    "map_option (map_option (map (entry conf))) (NCONF_get_section conf (Some nm)) = Some (snd A nm)"
proof -
  obtain sm vm where ok: "conf_ok X conf sm vm" "A = (val_at vm, secs_at conf sm)" using storeE [OF assms] by metis
  show "NCONF_get_string conf section name = Some (fst A (case section of None \<Rightarrow> kDefaultSectionName | Some s \<Rightarrow> s, name))"
    using get_string_val [OF ok(1)] by (simp add: ok(2))
  show "map_option (map_option (map (entry conf))) (NCONF_get_section conf (Some nm)) = Some (snd A nm)"
    using get_section_entries [OF ok(1)] by (simp add: ok(2))
qed

text \<open>
  C11. A configuration file that was written is read back: from a memory BIO with any sequence of section headers
  and assignments as text, values quoted and of any bytes but NUL and newline, each line of at most 510 bytes, and with the
  memory granted, a new store takes every line, and afterwards the lookup of a name in a section finds the value last assigned to it there, and the lookup of a
  section its entries in the order of their last assignment.
\<close>

theorem conf_file_roundtrip:
  assumes "NCONF_new m als alv True = Some conf" "\<forall>p n. al p n" "\<forall>n s. als n s" "\<forall>n s. alv n s"
    and "mem_ok bio" "BIO_mem_contents bio = concat (map line_of ls)" "list_all doc_ok ls" "2 * length ls + 5 < 2147483647"
  shows "\<exists>line bio' conf'. NCONF_load_bio al mem_BIO_gets bio conf = Some (True, line, bio', conf') \<and>
    (\<forall>section name. NCONF_get_string conf' section name =
       Some (fst (doc_meaning ls) (case section of None \<Rightarrow> kDefaultSectionName | Some s \<Rightarrow> s, name))) \<and>
    (\<forall>nm. map_option (map_option (map (entry conf'))) (NCONF_get_section conf' (Some nm)) = Some (snd (doc_meaning ls) nm))"
proof -
  have st: "store {} conf (Map.empty, Map.empty) {}" "c_next conf = 0" using new_store [OF assms(1)] by blast+
  have g: "granted al conf" by (rule new_granted [OF assms(1-4)])
  have dup: "OPENSSL_strdup (al [1]) kDefaultSectionName = Some kDefaultSectionName" using strdup_granted assms(2) by blast
  obtain buff where b: "BUF_MEM_new (al [0]) = Some buff" "buff = \<lparr>bm_length = 0, bm_data = [], bm_max = 0\<rparr>" using assms(2) by (simp add: BUF_MEM_new_def)
  have "Suc (c_next conf) < SIZE_MOD" by (simp add: st(2) SIZE_MOD_def)
  from new_section_store [OF st(1) this, where nm = kDefaultSectionName and al = "sub 2 al"] granted_sub [OF g, of 2] obtain sv conf1 where
    r: "NCONF_new_section (sub 2 al) kDefaultSectionName conf = Some (Some sv, conf1)" "c_next conf1 \<le> Suc (c_next conf)" "granted (sub 2 al) conf1"
      "store {} conf1 (Map.empty, [kDefaultSectionName \<mapsto> []]) {(kDefaultSectionName, sv)}" by auto
  let ?st = "\<lparr>ld_in = bio, ld_buff = buff, ld_bufnum = 0, ld_again = False, ld_eline = 0, ld_section = kDefaultSectionName, ld_sv = sv, ld_conf = conf1\<rparr>"
  have "ld_ok ?st (Map.empty, [kDefaultSectionName \<mapsto> []])" using r(4) buf_new [OF b(1)] b(2) by (simp add: ld_ok_def INT_MAX_def)
  moreover have "granted (sub 3 al) conf1" using granted_sub granted_up g r(3) by blast
  ultimately obtain st' where
    w: "load_loop (sub 3 al) mem_BIO_gets ?st = Some (True, st')" "store {} (ld_conf st') (doc_meaning ls) {}"
    using load_loop_written [OF _ _ _ assms(7), of ?st _ "sub 3 al"] r(2) assms(5,6,8) st(2) b(2) by (auto simp: doc_meaning_def)
  then have "NCONF_load_bio al mem_BIO_gets bio conf = Some (True, ld_eline st', ld_in st', ld_conf st')"
    using b(1) dup r(1) by (simp add: NCONF_load_bio_def)
  then show ?thesis using store_lookups [OF w(2)] by blast
qed

lemma new_mem_buf_ok:
  assumes "BIO_new_mem_buf al (Some xs) (int (length xs)) = Some bio"
  shows "mem_ok bio \<and> BIO_mem_contents bio = xs"
proof -
  obtain b where b: "BIO_new_mem al = Some b" "bio = b\<lparr>mb_buf := \<lparr>bm_length = length xs, bm_data = xs, bm_max = length xs\<rparr>,
      mb_flags := mb_flags b OR BIO_FLAGS_MEM_RDONLY, mb_num := 0\<rparr>"
    using assms by (auto simp: BIO_new_mem_buf_def Let_def split: option.splits)
  have i: "mb_init b" "mb_pos b = 0" "mb_flags b = 0"
    using b(1) by (auto simp: BIO_new_mem_def mem_new_def split: if_splits option.splits)
  have "(0 OR BIO_FLAGS_MEM_RDONLY) AND BIO_FLAGS_MEM_RDONLY \<noteq> 0" by (simp add: BIO_FLAGS_MEM_RDONLY_def)
  then show ?thesis using b(2) i by (simp add: mem_ok_def BIO_mem_contents_def mem_data_def)
qed

definition sample_doc :: "doc_line list" where
  "sample_doc = [Doc_value [97] [34, 35, 92], Doc_section [115], Doc_value [107] [], Doc_value [107] [36]]"

lemma sample_doc_ok: "list_all doc_ok sample_doc"
  by (simp add: sample_doc_def line_of_def quote_def escape_def is_name_char_def OPENSSL_isalnum_def OPENSSL_isalpha_def)

definition sample_conf :: conf_st where
  "sample_conf = the (NCONF_new (\<lambda>_. True) (\<lambda>_ _. True) (\<lambda>_ _. True) True)"

lemma sample_conf_new: "NCONF_new (\<lambda>_. True) (\<lambda>_ _. True) (\<lambda>_ _. True) True = Some sample_conf"
  by (simp add: sample_conf_def NCONF_new_def OPENSSL_lh_new_def)

definition sample_file :: mem_bio where
  "sample_file = the (BIO_new_mem_buf (\<lambda>_. True) (Some (concat (map line_of sample_doc))) (int (length (concat (map line_of sample_doc)))))"

lemma sample_file_ok: "mem_ok sample_file" "BIO_mem_contents sample_file = concat (map line_of sample_doc)"
proof -
  have "BIO_new_mem_buf (\<lambda>_. True) (Some (concat (map line_of sample_doc))) (int (length (concat (map line_of sample_doc)))) = Some sample_file"
    by (simp add: sample_file_def BIO_new_mem_buf_def BIO_new_mem_def mem_new_def BUF_MEM_new_def Let_def)
  from new_mem_buf_ok [OF this] show "mem_ok sample_file" "BIO_mem_contents sample_file = concat (map line_of sample_doc)" by blast+
qed

theorem conf_file_roundtrip_witness:
  "\<exists>line bio' conf'. NCONF_load_bio (\<lambda>_ _. True) mem_BIO_gets sample_file sample_conf = Some (True, line, bio', conf') \<and>
     NCONF_get_string conf' None [97] = Some (Some [34, 35, 92]) \<and> NCONF_get_string conf' (Some [115]) [107] = Some (Some [36]) \<and>
     NCONF_get_string conf' None [107] = Some None"
proof -
  obtain line bio' conf' where
    r: "NCONF_load_bio (\<lambda>_ _. True) mem_BIO_gets sample_file sample_conf = Some (True, line, bio', conf')"
      "\<forall>section name. NCONF_get_string conf' section name =
       Some (fst (doc_meaning sample_doc) (case section of None \<Rightarrow> kDefaultSectionName | Some s \<Rightarrow> s, name))"
    using conf_file_roundtrip [OF sample_conf_new _ _ _ sample_file_ok sample_doc_ok, where al = "\<lambda>_ _. True"] by (auto simp: sample_doc_def)
  show ?thesis using r by (simp add: doc_meaning_def sample_doc_def kDefaultSectionName_def)
qed

text \<open>Loading several files, and what a lookup of a section hands out.\<close>

fun load_all :: "memory \<Rightarrow> mem_bio list \<Rightarrow> conf_st \<Rightarrow> (bool list \<times> conf_st) option" where
  "load_all al [] conf = Some ([], conf)"
| "load_all al (bio # bios) conf = (case NCONF_load_bio (sub 0 al) mem_BIO_gets bio conf of
     None \<Rightarrow> None
   | Some (ok, _, _, conf) \<Rightarrow> map_option (\<lambda>(oks, c). (ok # oks, c)) (load_all (sub 1 al) bios conf))"

definition no_dangling :: "conf_st \<Rightarrow> bool" where
  "no_dangling conf \<longleftrightarrow> (\<forall>nm ps. NCONF_get_section conf (Some nm) = Some (Some ps) \<longrightarrow>
     (\<forall>p \<in> set ps. \<exists>v. p = Some (cv_addr v) \<and> c_live conf (cv_addr v) = Some v \<and> cv_section v = nm))"

lemma sound_no_dangling:
  assumes "sound conf"
  shows "no_dangling conf"
proof -
  obtain sm vm where ok: "conf_ok {} conf sm vm" using assms unfolding sound_def store_def by blast
  have s: "sections_ok conf sm vm" and w: "values_ok {} conf vm" using ok by (simp_all add: conf_ok_def)
  have "\<exists>v. p = Some (cv_addr v) \<and> c_live conf (cv_addr v) = Some v \<and> cv_section v = nm"
    if g: "NCONF_get_section conf (Some nm) = Some (Some ps)" and p: "p \<in> set ps" for nm ps p
  proof -
    obtain t k where t: "sm nm = Some t" "c_stacks conf (sec_addr t) = Some k" "ps = sk_list k"
      using g get_section_found [OF ok, of nm] by (auto simp: NCONF_get_section_def split: option.splits)
    then have tr: "t \<in> ran sm" "sec_name t = nm" using represents_ran [OF sections_okD(2) [OF s]] by blast+
    have "stack_ok (c_live conf) vm t k" using sections_okD(6) [OF s tr(1) t(2)] .
    from stack_okD(3) [OF this, of p] obtain v where "v \<in> ran vm" "p = Some (cv_addr v)" "cv_section v = nm" using p t(3) tr(2) by auto
    then show ?thesis using values_okD(3) [OF w] by blast
  qed
  then show ?thesis unfolding no_dangling_def by blast
qed

lemma load_all_ends:
  assumes "sound conf" "list_all mem_ok bios" "\<forall>b \<in> set bios. length (BIO_mem_contents b) < 2 ^ 30" "c_next conf + sum_list (map (\<lambda>b. 4 * length (BIO_mem_contents b) + 1) bios) + 516 < SIZE_MOD"
  shows "\<exists>oks conf'. load_all al bios conf = Some (oks, conf') \<and> length oks = length bios \<and> sound conf' \<and> c_next conf' < SIZE_MOD"
  using assms
proof (induction bios arbitrary: conf al)
  case Nil
  then show ?case by simp
next
  case (Cons bio bios)
  have "mem_ok bio" "length (BIO_mem_contents bio) < 2 ^ 30" "c_next conf + 4 * length (BIO_mem_contents bio) + 516 < SIZE_MOD"
    using Cons.prems by simp_all
  from load_ends [OF Cons.prems(1) this, of "sub 0 al"] obtain ok line bio' conf1 where
    r: "NCONF_load_bio (sub 0 al) mem_BIO_gets bio conf = Some (ok, line, bio', conf1)" "sound conf1"
      "c_next conf1 \<le> c_next conf + 4 * length (BIO_mem_contents bio) + 1" by blast
  have "c_next conf1 + sum_list (map (\<lambda>b. 4 * length (BIO_mem_contents b) + 1) bios) + 516 < SIZE_MOD" using r(3) Cons.prems(4) by simp
  from Cons.IH [OF r(2) _ _ this, of "sub 1 al"] Cons.prems(2,3) r(1) show ?case by fastforce
qed

text \<open>
  C12. Reading configuration is safe on every input.  From a new store, any number of files of any bytes, each below
  1 GiB, is read to the end, with success or an error, whichever requests for memory are refused on the way, each one by
  itself: no copy of a value is written outside its buffer, no \<^verbatim>\<open>int\<close> of the code overflows, no freed section, stack or
  value is used, and nothing is followed for ever.  Afterwards every pointer that a lookup of a section hands out is
  that of a live value of the section, and freeing the store frees every section, stack, value and table item
  exactly once and leaves none.
\<close>

theorem conf_load_safe:
  assumes "NCONF_new m als alv True = Some conf" "list_all mem_ok bios" "\<forall>b \<in> set bios. length (BIO_mem_contents b) < 2 ^ 30"
    and "sum_list (map (\<lambda>b. 4 * length (BIO_mem_contents b) + 1) bios) + 516 < SIZE_MOD"
  shows "\<exists>oks conf'. load_all al bios conf = Some (oks, conf') \<and> length oks = length bios \<and> no_dangling conf' \<and>
    NCONF_free conf' = Some (\<lambda>_. None, \<lambda>_. None, \<lambda>_. None, \<lambda>_. None)"
proof -
  have st: "store {} conf (Map.empty, Map.empty) {}" "c_next conf = 0" using new_store [OF assms(1)] by blast+
  obtain oks conf' where r: "load_all al bios conf = Some (oks, conf')" "length oks = length bios" "sound conf'" "c_next conf' < SIZE_MOD"
    using load_all_ends [OF soundI [OF st(1)] assms(2,3), of al] assms(4) st(2) by auto
  obtain sm vm where "conf_ok {} conf' sm vm" using r(3) unfolding sound_def store_def by blast
  then show ?thesis using r free_ok sound_no_dangling by blast
qed

text \<open>The memory refuses the second value of the first file, and nothing else.\<close>

theorem conf_load_safe_witness:
  "\<exists>oks conf'. load_all (\<lambda>p n. p \<noteq> [0, 3, 2, 1, 0]) [sample_file, sample_mem_bio] sample_conf = Some (oks, conf') \<and> length oks = 2 \<and>
     NCONF_free conf' = Some (\<lambda>_. None, \<lambda>_. None, \<lambda>_. None, \<lambda>_. None)"
proof -
  have "list_all mem_ok [sample_file, sample_mem_bio]" by (simp add: sample_mem_bio_ok sample_file_ok)
  moreover have "\<forall>b \<in> set [sample_file, sample_mem_bio]. length (BIO_mem_contents b) < 2 ^ 30"
    by (simp add: sample_mem_bio_ok sample_file_ok sample_doc_def line_of_def quote_def escape_def)
  moreover have "sum_list (map (\<lambda>b. 4 * length (BIO_mem_contents b) + 1) [sample_file, sample_mem_bio]) + 516 < SIZE_MOD"
    by (simp add: sample_mem_bio_ok sample_file_ok sample_doc_def line_of_def quote_def escape_def SIZE_MOD_def)
  ultimately show ?thesis
    using conf_load_safe [OF sample_conf_new, of "[sample_file, sample_mem_bio]" "\<lambda>p n. p \<noteq> [0, 3, 2, 1, 0]"] by auto
qed

text \<open>
  C15. The copy of a string below \<^verbatim>\<open>INT_MAX\<close> bytes is never written outside the buffer made for it.  It is refused exactly when one
  of its two requests for memory is, or when the string has a \<^verbatim>\<open>$\<close> outside quotes, and is what the reference
  definition of unquoting and unescaping gives otherwise; so a value in quotes with its quotes and backslashes escaped
  is stored as it was.  From \<^verbatim>\<open>INT_MAX\<close> on, up to 4 GiB, the length no longer fits the \<^verbatim>\<open>int\<close> of the code, and every copy
  fails.
\<close>

theorem conf_value_copied:
  "(length (cstr buf p) < INT_MAX \<longrightarrow> str_copy al buf p =
      Some (if al [0] BUF_MEM_SIZE \<and> al [1] ((length (cstr buf p) + 4) div 3 * 4) then unescaped (cstr buf p) else None)) \<and>
   (INT_MAX \<le> length (cstr buf p) \<and> length (cstr buf p) < 2 ^ 32 \<longrightarrow> str_copy al buf p = Some None) \<and>
   (cstr buf p = quote x \<longrightarrow> unescaped (cstr buf p) = Some x)"
  using str_copy_exact [of buf p al] str_copy_too_long [of buf p al] unescaped_quote [of x] by (simp add: copy_granted_def add.commute [of _ 4])

theorem conf_value_copied_witness:
  "str_copy (\<lambda>_ _. True) [61, 34, 97, 92, 34, 34, 0] 1 = Some (Some [97, 34]) \<and>
   str_copy (\<lambda>p n. n \<noteq> 12) [61, 34, 97, 92, 34, 34, 0] 1 = Some None"
proof -
  let ?b = "[61, 34, 97, 92, 34, 34, 0] :: byte list"
  have c: "cstr ?b 1 = quote [97, 34]" by (simp add: cstr_def quote_def escape_def)
  have l: "length (cstr ?b 1) = 5" unfolding c by (simp add: quote_def escape_def)
  show ?thesis
    using conf_value_copied [of ?b 1 "\<lambda>_ _. True" "[97, 34]"] conf_value_copied [of ?b 1 "\<lambda>p n. n \<noteq> 12" "[97, 34]"] c
    unfolding l by (simp add: INT_MAX_def)
qed

text \<open>
  C38. A backslash that is the last byte of a full piece of a long line is taken for a continuation at the end of the
  line: it is dropped, although the line goes on, and with it the escape that it begins.
\<close>

theorem conf_escape_lost:
  assumes "mem_ok (ld_in st)" "BIO_mem_contents (ld_in st) = pre @ 92 # rest" "length pre = 509" "0 \<notin> set pre" "10 \<notin> set pre" "last pre \<noteq> 92"
    and "buf_ok (ld_buff st)" "ld_bufnum st = 0" "\<forall>n. al n"
  shows "\<exists>st1. read_chunk al mem_BIO_gets st = Read_more st1 \<and> ld_bufnum st1 = length pre \<and>
    take (length pre) (bm_data (ld_buff st1)) = pre \<and> BIO_mem_contents (ld_in st1) = rest"
proof -
  obtain n buff where g: "BUF_MEM_grow al 512 (ld_buff st) = (n, buff)" by fastforce
  have n: "n = 512" using grow_granted [of "ld_buff st" al 512] assms(7,9) g by simp
  have room: "0 + CONFBUFSIZE \<le> length (bm_data buff)" using grow_ok [OF assms(7) g] n by (simp add: CONFBUFSIZE_def)
  obtain ret bs inp where i: "mem_BIO_gets 511 (ld_in st) = (ret, bs, inp)" using prod_cases3 by blast
  have "(1 :: int) < 511" by simp
  note g511 = BIO_gets_line [OF assms(1) this i]
  have "nat (511 - 1) = 510" by simp
  then have m: "bs = first_line 510 (pre @ 92 # rest)" "ret = int (length bs)" "pre @ 92 # rest = bs @ BIO_mem_contents inp"
    using g511 assms(2) by metis+
  have tw: "takeWhile (\<lambda>c. c \<noteq> 10) (pre @ 92 # rest) = pre @ 92 # takeWhile (\<lambda>c. c \<noteq> 10) rest"
    using assms(5) by (subst takeWhile_append2) auto
  have bs: "bs = pre @ [92]" using m(1) assms(3) unfolding first_line_def Let_def tw by simp
  have rest: "BIO_mem_contents inp = rest" using m(3) by (simp add: bs)
  define d where "d = fetched 0 ret bs (bm_data buff)"
  obtain r where d: "drop 0 d = bs @ 0 # r"
    using piece_buffer [OF room _ d_def] m(2) assms(3) by (auto simp: bs CONFBUFSIZE_def)
  have d': "d = pre @ 92 # 0 # r" using d by (simp add: bs)
  have "0 \<notin> set bs" using assms(4) by (simp add: bs)
  then have cs: "cstr d 0 = bs" using cstr_terminated d by blast
  have at92: "at d (length pre) = 92" by (simp add: d' at_def)
  have "at d (length pre - 1) = last pre" using assms(3) by (cases pre rule: rev_cases) (simp_all add: d' at_def nth_append)
  then have prev: "\<not> is_esc (at d (length pre - 1))" using assms(6) by (simp add: is_esc_def)
  have len: "length (cstr d 0) = Suc (length pre)" by (simp add: cs bs)
  have tr: "trim_eol d 0 (Suc (length pre)) = Suc (length pre)" using at92 by simp
  have el: "end_line d 0 (length (cstr d 0)) = (True, d, length pre, True)"
    unfolding end_line_def len tr Let_def using at92 prev assms(3) by (simp add: is_esc_def)
  have a: "size_add 0 CONFBUFSIZE = 512" "int CONFBUFSIZE - 1 = 511" by (simp_all add: size_add_def CONFBUFSIZE_def SIZE_MOD_def)
  have fits: "\<not> 0 + trim_eol d 0 (length (cstr d 0)) > INT_MAX" unfolding len tr using assms(3) by (simp add: INT_MAX_def)
  show ?thesis
    unfolding read_chunk_def assms(8) a g prod.case i prod.case Let_def d_def [symmetric] el prod.case if_not_P [OF fits] n
    using len rest by (simp add: d')
qed

definition sample_long :: "mem_bio load_st" where
  "sample_long = \<lparr>ld_in = sample_file\<lparr>mb_buf := \<lparr>bm_length = 511, bm_data = replicate 509 97 @ [92, 34], bm_max = 511\<rparr>\<rparr>,
     ld_buff = \<lparr>bm_length = 0, bm_data = [], bm_max = 0\<rparr>, ld_bufnum = 0, ld_again = False, ld_eline = 0, ld_section = [],
     ld_sv = \<lparr>sec_addr = 0, sec_name = []\<rparr>, ld_conf = sample_conf\<rparr>"

theorem conf_escape_lost_witness:
  "\<exists>st1. read_chunk (\<lambda>_. True) mem_BIO_gets sample_long = Read_more st1 \<and> ld_bufnum st1 = 509 \<and>
     take 509 (bm_data (ld_buff st1)) = replicate 509 97 \<and> BIO_mem_contents (ld_in st1) = [34]"
proof -
  have f: "mb_init sample_file" "mb_pos sample_file = 0" "mb_flags sample_file = BIO_FLAGS_MEM_RDONLY"
    by (simp_all add: sample_file_def BIO_new_mem_buf_def BIO_new_mem_def mem_new_def BUF_MEM_new_def Let_def)
  have "BIO_FLAGS_MEM_RDONLY AND BIO_FLAGS_MEM_RDONLY \<noteq> 0" by (simp add: BIO_FLAGS_MEM_RDONLY_def)
  then have "mem_ok (ld_in sample_long)" "BIO_mem_contents (ld_in sample_long) = replicate 509 97 @ 92 # [34]"
    using f by (simp_all add: sample_long_def mem_ok_def BIO_mem_contents_def mem_data_def)
  from conf_escape_lost [OF this, of "\<lambda>_. True"] show ?thesis
    by (simp add: sample_long_def buf_ok_def SIZE_MOD_def)
qed

end
