(* ===== verification/ConfList.thy ===== *)
theory ConfList
  imports ConfScan
begin

text \<open>
  The reader of separated lists in values (\<^verbatim>\<open>CONF_parse_list\<close> in \<^verbatim>\<open>crypto/conf/conf.c\<close>): it hands every
  element to a callback, which is an argument with a state of its own, and stops when the callback refuses.
\<close>

section \<open>The code\<close>

abbreviation space_at :: "byte list \<Rightarrow> nat \<Rightarrow> bool" where
  "space_at buf p \<equiv> OPENSSL_isspace (uint (at buf p))"

function skip_space :: "byte list \<Rightarrow> nat \<Rightarrow> nat" where
  "skip_space buf p = (if at buf p \<noteq> 0 \<and> space_at buf p then skip_space buf (p + 1) else p)"
  by auto
termination by (relation "measure (\<lambda>(buf, p). length buf - p)") (auto dest: at_nonzero)

text \<open>\<^verbatim>\<open>strchr\<close>: the first place of the character, for which the NUL at the end counts.\<close>

function strchr :: "byte list \<Rightarrow> nat \<Rightarrow> byte \<Rightarrow> nat option" where
  "strchr buf p c = (if at buf p = c then Some p else if at buf p = 0 then None else strchr buf (p + 1) c)"
  by auto
termination by (relation "measure (\<lambda>(buf, p, _). length buf - p)") (auto dest: at_nonzero)

text \<open>Down from the end of an element, which is exclusive here; below the buffer there is nothing to read.\<close>

fun trim_space :: "byte list \<Rightarrow> nat \<Rightarrow> nat option" where
  "trim_space buf 0 = None"
| "trim_space buf (Suc e) = (if space_at buf e then trim_space buf e else Some (Suc e))"

declare skip_space.simps [simp del] strchr.simps [simp del]

lemma skip_space_ge: "p \<le> skip_space buf p"
  by (induction buf p rule: skip_space.induct) (subst skip_space.simps, auto dest: Suc_leD)

lemma strchr_ge: "strchr buf p c = Some q \<Longrightarrow> p \<le> q"
proof (induction buf p c rule: strchr.induct)
  case (1 buf p c)
  then show ?case using strchr.simps [of buf p c] by (fastforce split: if_splits)
qed

lemma strchr_skip_ge: "strchr buf (if b then skip_space buf p else p) c = Some q \<Longrightarrow> p \<le> q"
  using skip_space_ge order_trans by (fastforce dest!: strchr_ge split: if_splits)

definition list_elem :: "byte list \<Rightarrow> bool \<Rightarrow> nat \<Rightarrow> nat option \<Rightarrow> byte list option option" where
  "list_elem buf remove_whitespace lstart p =
     (if p = Some lstart \<or> at buf lstart = 0 then Some None
      else
        let tmpend = (case p of Some q \<Rightarrow> q | None \<Rightarrow> lstart + length (cstr buf lstart))
        in (case (if remove_whitespace then trim_space buf tmpend else Some tmpend) of
            None \<Rightarrow> None
          | Some e \<Rightarrow> if e < lstart then None else Some (Some (take (e - lstart) (drop lstart buf)))))"

text \<open>The loop; no pointer passes the end of the buffer, behind which a step is \<open>None\<close>.\<close>

function parse_list_loop ::
  "(byte list option \<Rightarrow> 's \<Rightarrow> int \<times> 's) \<Rightarrow> byte list \<Rightarrow> byte \<Rightarrow> bool \<Rightarrow> nat \<Rightarrow> 's \<Rightarrow> (int \<times> 's) option" where
  "parse_list_loop list_cb buf sep remove_whitespace l arg =
     (if length buf < l then None
      else
        let lstart = (if remove_whitespace then skip_space buf l else l);
            p = strchr buf lstart sep
        in (case list_elem buf remove_whitespace lstart p of
            None \<Rightarrow> None
          | Some elem \<Rightarrow>
            (let (ret, arg) = list_cb elem arg
             in if ret \<le> 0 then Some (ret, arg)
                else (case p of
                    None \<Rightarrow> Some (1, arg)
                  | Some q \<Rightarrow> parse_list_loop list_cb buf sep remove_whitespace (q + 1) arg))))"
  by pat_completeness auto
termination
  by (relation "measure (\<lambda>(_, buf, _, _, l, _). Suc (length buf) - l)")
    (use strchr_skip_ge in \<open>fastforce simp: not_less\<close>)+

definition CONF_parse_list ::
  "(byte list option \<Rightarrow> 's \<Rightarrow> int \<times> 's) \<Rightarrow> byte list option \<Rightarrow> byte \<Rightarrow> bool \<Rightarrow> 's \<Rightarrow> (int \<times> 's) option" where
  "CONF_parse_list list_cb list sep remove_whitespace arg =
     (case list of
        None \<Rightarrow> Some (0, arg)
      | Some buf \<Rightarrow> parse_list_loop list_cb buf sep remove_whitespace 0 arg)"

declare parse_list_loop.simps [simp del]

section \<open>What a list means\<close>

abbreviation spc :: "byte \<Rightarrow> bool" where
  "spc c \<equiv> OPENSSL_isspace (uint c)"

text \<open>The fields between separators, their trimming, and the run of the callback over them.\<close>

function list_fields :: "byte \<Rightarrow> byte list \<Rightarrow> byte list list" where
  "list_fields sep xs =
     (case dropWhile (\<lambda>c. c \<noteq> sep) xs of
        [] \<Rightarrow> [xs]
      | _ # r \<Rightarrow> takeWhile (\<lambda>c. c \<noteq> sep) xs # list_fields sep r)"
  by auto
termination
proof (relation "measure (\<lambda>(_, xs). length xs)", simp)
  fix sep :: byte and xs a r
  assume "dropWhile (\<lambda>c. c \<noteq> sep) xs = a # r"
  then show "((sep, r), sep, xs) \<in> measure (\<lambda>(_, xs). length xs)"
    using length_dropWhile_le [of "\<lambda>c. c \<noteq> sep" xs] by simp
qed

declare list_fields.simps [simp del]

definition strip :: "byte list \<Rightarrow> byte list" where
  "strip xs = rev (dropWhile spc (rev (dropWhile spc xs)))"

definition field_elem :: "bool \<Rightarrow> byte list \<Rightarrow> byte list option" where
  "field_elem trim xs = (let f = if trim then strip xs else xs in if f = [] then None else Some f)"

fun visit_list :: "(byte list option \<Rightarrow> 's \<Rightarrow> int \<times> 's) \<Rightarrow> byte list option list \<Rightarrow> 's \<Rightarrow> int \<times> 's" where
  "visit_list cb [] s = (1, s)"
| "visit_list cb (e # es) s = (let (ret, s1) = cb e s in if ret \<le> 0 then (ret, s1) else visit_list cb es s1)"

section \<open>The code gives the fields\<close>

lemma skip_space_cstr:
  "cstr buf (skip_space buf p) = dropWhile spc (cstr buf p) \<and> skip_space buf p \<le> p + length (cstr buf p)"
proof (induction buf p rule: skip_space.induct)
  case (1 buf p)
  show ?case
  proof (cases "at buf p \<noteq> 0 \<and> space_at buf p")
    case True
    then show ?thesis using 1 by (subst (1 2) skip_space.simps) (simp add: at_cstr)
  next
    case False
    then have "dropWhile spc (cstr buf p) = cstr buf p"
      by (cases "at buf p = 0") (simp_all add: at_cstr at_0_cstr)
    then show ?thesis using False by (subst (1 2) skip_space.simps) auto
  qed
qed

lemma strchr_cstr:
  "c \<noteq> 0 \<Longrightarrow> strchr buf p c = (if c \<in> set (cstr buf p) then Some (p + length (takeWhile (\<lambda>x. x \<noteq> c) (cstr buf p))) else None)"
proof (induction buf p c rule: strchr.induct)
  case (1 buf p c)
  show ?case
    by (subst strchr.simps) (use 1 in \<open>auto simp: at_cstr at_0_cstr\<close>)
qed

lemma dropWhile_dropWhile_imp:
  "(\<And>x. P x \<Longrightarrow> Q x) \<Longrightarrow> dropWhile Q (dropWhile P xs) = dropWhile Q xs"
  by (induction xs) auto

lemma takeWhile_dropWhile_imp:
  "(\<And>x. P x \<Longrightarrow> Q x) \<Longrightarrow> takeWhile Q (dropWhile P xs) = dropWhile P (takeWhile Q xs)"
  by (induction xs) auto

abbreviation rstrip :: "byte list \<Rightarrow> byte list" where
  "rstrip xs \<equiv> rev (dropWhile spc (rev xs))"

lemma rstrip_prefix: "prefix (rstrip xs) xs"
  by (metis prefix_def rev_append rev_rev_ident takeWhile_dropWhile_id)

lemma trim_space_rstrip:
  "g \<noteq> [] \<Longrightarrow> \<not> spc (hd g) \<Longrightarrow> (\<And>i. i < length g \<Longrightarrow> at buf (l + i) = g ! i) \<Longrightarrow>
     trim_space buf (l + length g) = Some (l + length (rstrip g))"
proof (induction g rule: rev_induct)
  case Nil
  then show ?case by simp
next
  case (snoc x g)
  have x: "at buf (l + length g) = x" using snoc.prems(3) [of "length g"] by simp
  show ?case
  proof (cases "spc x")
    case True
    then have "g \<noteq> []" using snoc.prems(2) by auto
    moreover have "at buf (l + i) = g ! i" if "i < length g" for i
      using snoc.prems(3) [of i] that by (simp add: nth_append)
    ultimately show ?thesis using snoc.IH snoc.prems(2) x True by simp
  next
    case False
    then show ?thesis using x by simp
  qed
qed

lemma at_cstr_nth: "i < length (cstr buf p) \<Longrightarrow> at buf (p + i) = cstr buf p ! i"
  by (metis at_cstr at_0_cstr cstr_drop hd_drop_conv_nth less_imp_le list.sel(1) drop_eq_Nil leD)

lemma cstr_slice: "prefix h (cstr buf p) \<Longrightarrow> take (length h) (drop p buf) = h"
  unfolding cstr_def by (metis append_eq_conv_conj prefix_def append.assoc takeWhile_dropWhile_id)

lemma rstrip_Nil: "rstrip (dropWhile spc xs) = [] \<longleftrightarrow> dropWhile spc xs = []"
proof (cases "dropWhile spc xs")
  case (Cons a as)
  then have "\<not> spc a" using hd_dropWhile [of spc xs] by simp
  then show ?thesis unfolding Cons rev.simps by (simp add: dropWhile_append)
next
  case Nil
  then show ?thesis unfolding Nil by simp
qed

lemma dropWhile_present: "c \<in> set xs \<Longrightarrow> \<exists>r. dropWhile (\<lambda>x. x \<noteq> c) xs = c # r"
  by (induction xs) auto

lemma dropWhile_absent: "c \<notin> set xs \<Longrightarrow> dropWhile (\<lambda>x. x \<noteq> c) xs = []"
  by (induction xs) auto

lemma takeWhile_absent: "c \<notin> set xs \<Longrightarrow> takeWhile (\<lambda>x. x \<noteq> c) xs = xs"
  by (induction xs) auto

lemma list_elem_cstr:
  assumes "sep \<noteq> 0" "b \<and> cstr buf l \<noteq> [] \<longrightarrow> \<not> spc (hd (cstr buf l))"
    and g: "g = takeWhile (\<lambda>x. x \<noteq> sep) (cstr buf l)"
  shows "list_elem buf b l (strchr buf l sep) = Some (if g = [] then None else Some (if b then rstrip g else g))"
proof (cases "g = []")
  case True
  then have "cstr buf l = [] \<or> hd (cstr buf l) = sep" by (cases "cstr buf l") (auto simp: g split: if_splits)
  then have "strchr buf l sep = Some l \<or> at buf l = 0"
    using assms(1) at_cstr [of buf l] by (subst strchr.simps) (auto simp: cstr_empty)
  then show ?thesis using True by (auto simp: list_elem_def)
next
  case False
  have pre: "prefix g (cstr buf l)" unfolding g by (rule takeWhile_is_prefix)
  then have nth: "at buf (l + i) = g ! i" if "i < length g" for i
    using that at_cstr_nth [of i buf l] by (auto simp: prefix_def nth_append)
  have ne: "at buf l \<noteq> 0" using False g cstr_empty [of buf l] by auto
  have hd: "hd g = hd (cstr buf l)" using False pre by (auto simp: prefix_def)
  have "cstr buf l \<noteq> []" using False g by auto
  then have sp: "b \<Longrightarrow> \<not> spc (hd g)" using assms(2) hd by simp
  have "strchr buf l sep \<noteq> Some l" using False g strchr_cstr [OF assms(1), of buf l] by auto
  moreover have "(case strchr buf l sep of Some q \<Rightarrow> q | None \<Rightarrow> l + length (cstr buf l)) = l + length g"
    unfolding strchr_cstr [OF assms(1)] g by (simp add: takeWhile_absent)
  moreover have "(if b then trim_space buf (l + length g) else Some (l + length g)) =
      Some (l + length (if b then rstrip g else g))"
    using trim_space_rstrip [OF False sp nth] by simp
  moreover have "take (length (if b then rstrip g else g)) (drop l buf) = (if b then rstrip g else g)"
    using pre rstrip_prefix [of g] prefix_order.trans by (intro cstr_slice) auto
  ultimately show ?thesis using False ne by (simp add: list_elem_def Let_def)
qed

lemma parse_list_loop_exact:
  "sep \<noteq> 0 \<Longrightarrow> (b \<longrightarrow> \<not> spc sep) \<Longrightarrow> l \<le> length buf \<Longrightarrow>
     parse_list_loop cb buf sep b l s = Some (visit_list cb (map (field_elem b) (list_fields sep (cstr buf l))) s)"
proof (induction cb buf sep b l s rule: parse_list_loop.induct)
  case (1 cb buf sep b l s)
  define ls where "ls = (if b then skip_space buf l else l)"
  define ys where "ys = cstr buf ls"
  define g where "g = takeWhile (\<lambda>x. x \<noteq> sep) ys"
  let ?xs = "cstr buf l" and ?Q = "\<lambda>x. x \<noteq> sep"
  have ys: "ys = (if b then dropWhile spc ?xs else ?xs)" by (simp add: ys_def ls_def skip_space_cstr)
  have imp: "b \<Longrightarrow> spc x \<Longrightarrow> x \<noteq> sep" for x using 1(3) by auto
  have g: "g = (if b then dropWhile spc (takeWhile ?Q ?xs) else takeWhile ?Q ?xs)"
    using takeWhile_dropWhile_imp [of spc ?Q, OF imp] by (simp add: g_def ys)
  have dw: "dropWhile ?Q ys = dropWhile ?Q ?xs"
    using dropWhile_dropWhile_imp [of spc ?Q, OF imp] by (simp add: ys)
  have "b \<and> ys \<noteq> [] \<longrightarrow> \<not> spc (hd ys)" using hd_dropWhile [of spc ?xs] by (auto simp: ys)
  from list_elem_cstr [OF 1(2) this [unfolded ys_def] g_def [unfolded ys_def]]
  have "list_elem buf b ls (strchr buf ls sep) = Some (if g = [] then None else Some (if b then rstrip g else g))" .
  moreover have "(if g = [] then None else Some (if b then rstrip g else g)) = field_elem b (takeWhile ?Q ?xs)"
    unfolding g field_elem_def strip_def Let_def by (cases b) (simp_all only: rstrip_Nil if_True if_False)
  ultimately have el: "list_elem buf b ls (strchr buf ls sep) = Some (field_elem b (takeWhile ?Q ?xs))" by simp
  obtain ret s1 where cb: "cb (field_elem b (takeWhile ?Q ?xs)) s = (ret, s1)" by fastforce
  show ?case
  proof (cases "sep \<in> set ys")
    case True
    then have p: "strchr buf ls sep = Some (ls + length g)" using strchr_cstr [OF 1(2)] by (simp add: ys_def g_def)
    obtain r where r: "dropWhile ?Q ys = sep # r"
      using dropWhile_present [OF True] by blast
    then have split: "ys = g @ sep # r" using takeWhile_dropWhile_id [of ?Q ys] by (simp add: g_def)
    have at: "at buf (ls + length g) = sep" using at_cstr_nth [of "length g" buf ls] split by (simp add: ys_def)
    then have le: "ls + length g + 1 \<le> length buf" using 1(2) at_nonzero [of buf "ls + length g"] by simp
    have "cstr buf (ls + (length g + 1)) = drop (length g + 1) ys"
      using cstr_drop [of "length g + 1" buf ls] split by (simp add: ys_def)
    then have r': "cstr buf (ls + length g + 1) = r" by (simp add: split)
    have f: "list_fields sep ?xs = takeWhile ?Q ?xs # list_fields sep r"
      by (subst list_fields.simps) (simp only: trans [OF dw [symmetric] r] list.case)
    show ?thesis
    proof (cases "ret \<le> 0")
      case True
      then show ?thesis using 1(4) el cb by (subst parse_list_loop.simps) (simp add: ls_def [symmetric] f)
    next
      case False
      have "parse_list_loop cb buf sep b (ls + length g + 1) s1 =
          Some (visit_list cb (map (field_elem b) (list_fields sep (cstr buf (ls + length g + 1)))) s1)"
        using 1(1) [OF _ ls_def refl el cb [symmetric] refl False p 1(2,3) le] 1(4) by simp
      then show ?thesis using 1(4) el cb False p r'
        by (subst parse_list_loop.simps) (simp add: ls_def [symmetric] f)
    qed
  next
    case False
    then have p: "strchr buf ls sep = None" using strchr_cstr [OF 1(2)] by (simp add: ys_def)
    have nil: "dropWhile ?Q ?xs = []" using dropWhile_absent [OF False] dw by simp
    then have tw: "takeWhile ?Q ?xs = ?xs" using takeWhile_dropWhile_id [of ?Q ?xs] by simp
    have "list_fields sep ?xs = [?xs]" by (subst list_fields.simps) (simp only: nil list.case)
    then show ?thesis using 1(4) el [unfolded tw] cb [unfolded tw] p
      by (subst parse_list_loop.simps) (simp add: ls_def [symmetric])
  qed
qed

text \<open>
  C16. Reading a list calls back with every field between separators in order, the empty ones as no element, trimmed
  on both sides if asked for, and stops with the answer of the callback as soon as it refuses; the reader
  returns, and reads nothing behind the end of the string.
\<close>

theorem conf_parse_list_exact:
  assumes "sep \<noteq> 0" "remove_whitespace \<Longrightarrow> \<not> OPENSSL_isspace (uint sep)"
  shows "CONF_parse_list list_cb (Some buf) sep remove_whitespace arg =
    Some (visit_list list_cb (map (field_elem remove_whitespace) (list_fields sep (cstr buf 0))) arg)"
  using parse_list_loop_exact [of sep remove_whitespace 0 buf list_cb arg] assms by (auto simp: CONF_parse_list_def)

definition collect :: "byte list option \<Rightarrow> byte list option list \<Rightarrow> int \<times> byte list option list" where
  "collect e es = (1, es @ [e])"

theorem conf_parse_list_exact_witness:
  "CONF_parse_list collect (Some [32, 97, 32, 98, 9, 44, 32, 44, 99, 0]) 44 True [] =
     Some (1, [Some [97, 32, 98], None, Some [99]])"
proof -
  let ?buf = "[32, 97, 32, 98, 9, 44, 32, 44, 99, 0] :: byte list"
  have "\<not> OPENSSL_isspace (uint (44 :: byte))" by (simp add: OPENSSL_isspace_def)
  then have "CONF_parse_list collect (Some ?buf) 44 True [] =
      Some (visit_list collect (map (field_elem True) (list_fields 44 (cstr ?buf 0))) [])"
    using conf_parse_list_exact [of 44 True collect ?buf "[]"] by simp
  moreover have "list_fields 44 (cstr ?buf 0) = [[32, 97, 32, 98, 9], [32], [99]]"
    by (simp add: cstr_def list_fields.simps)
  ultimately show ?thesis
    by (simp add: field_elem_def strip_def OPENSSL_isspace_def collect_def)
qed

end
