(* ===== verification/BioAsn1.thy ===== *)
theory BioAsn1
  imports MemBio CbsDer
begin

text \<open>
  Reading one ASN.1 element from a BIO (\<^verbatim>\<open>BIO_read_asn1\<close> in \<^verbatim>\<open>crypto/bio/bio.c\<close>).  The BIO is a call \<open>rd\<close> that
  stands for \<^verbatim>\<open>BIO_read\<close> on it: the room given, and then the answer, the bytes put there and the BIO after the call.  A
  provider that answers with more than the room or with bytes that are not as many as it says is outside the model
  (\<open>None\<close>), and so is, where the code counts with it, an answer below -1.  The contract of a provider is the locale
  \<open>byte_source\<close>; memory BIOs and the ends of a BIO pair are such providers.
\<close>

section \<open>The code\<close>

type_synonym 'b reader = "int \<Rightarrow> 'b \<Rightarrow> int \<times> byte list \<times> 'b"

definition kChunkSize :: nat where "kChunkSize = 4096"

definition kInitialHeaderLen :: nat where "kInitialHeaderLen = 2"

text \<open>The reasons that \<^verbatim>\<open>BIO_read_asn1\<close> reports last.\<close>

datatype asn1_error = HEADER_TOO_LONG | NOT_ENOUGH_DATA | DECODE_ERROR | TOO_LONG | MALLOC_FAILURE

lemma shrinks: "bs \<noteq> [] \<Longrightarrow> length bs \<le> n \<Longrightarrow> n - length bs < n"
  by (cases bs) auto

lemma shrinks_by: "bs \<noteq> [] \<Longrightarrow> length bs \<le> n - k \<Longrightarrow> n \<le> m \<Longrightarrow> m - (k + length bs) < m - k"
  by (cases bs) auto

text \<open>Success, whether the first read met the end, the bytes read, and the BIO.\<close>

function read_full_loop :: "'b reader \<Rightarrow> bool \<Rightarrow> nat \<Rightarrow> byte list \<Rightarrow> 'b \<Rightarrow> (bool \<times> bool \<times> byte list \<times> 'b) option" where
  "read_full_loop rd first_read len outp bio =
     (if len = 0 then Some (True, False, outp, bio)
      else (case rd (int (if len \<le> INT_MAX then len else INT_MAX)) bio of (ret, bs, bio1) \<Rightarrow>
        if ret \<le> 0 then Some (False, first_read \<and> ret = 0, outp, bio1)
        else if ret \<noteq> int (length bs) \<or> len < length bs then None
        else read_full_loop rd False (len - length bs) (outp @ bs) bio1))"
  by pat_completeness auto
termination by (relation "measure (\<lambda>(_, _, len, _, _). len)") (auto simp: not_less intro: shrinks)

definition bio_read_full :: "'b reader \<Rightarrow> nat \<Rightarrow> 'b \<Rightarrow> (bool \<times> bool \<times> byte list \<times> 'b) option" where
  "bio_read_full rd len bio = read_full_loop rd True len [] bio"

definition next_room :: "nat \<Rightarrow> nat \<Rightarrow> nat" where
  "next_room len max_len = (let len1 = size_add len kChunkSize in if len1 < kChunkSize \<or> len1 > max_len then max_len else len1)"

lemma next_room_le: "next_room len max_len \<le> max_len"
  by (simp add: next_room_def Let_def)

text \<open>Up to the end of the BIO: the room is \<open>len\<close>, and what is read so far \<open>outp\<close>.\<close>

function read_all_loop :: "allocator \<Rightarrow> 'b reader \<Rightarrow> nat \<Rightarrow> nat \<Rightarrow> byte list \<Rightarrow> 'b \<Rightarrow> (byte list option \<times> 'b) option" where
  "read_all_loop al rd max_len len outp bio =
     (if length outp = len then Some (None, bio)
      else (case rd (int (min (len - length outp) INT_MAX)) bio of (n, bs, bio1) \<Rightarrow>
        if n = 0 then Some (Some outp, bio1)
        else if n = -1 then Some (None, bio1)
        else if n \<noteq> int (length bs) \<or> len - length outp < length bs then None
        else
          let outp1 = outp @ bs
          in if len < max_len \<and> len - length outp1 < kChunkSize div 2 then
               let len1 = next_room len max_len
               in if al len1 then read_all_loop al rd max_len len1 outp1 bio1 else Some (None, bio1)
             else read_all_loop al rd max_len len outp1 bio1))"
  by pat_completeness auto
termination
  by (relation "measure (\<lambda>(_, _, max_len, len, outp, _). max len max_len - length outp)")
    (auto simp: not_less intro: shrinks_by simp: max_absorb2 [OF next_room_le])

declare read_full_loop.simps [simp del] read_all_loop.simps [simp del]

definition bio_read_all :: "allocator \<Rightarrow> 'b reader \<Rightarrow> byte list \<Rightarrow> nat \<Rightarrow> 'b \<Rightarrow> (byte list option \<times> 'b) option" where
  "bio_read_all al rd before max_len bio =
     (let len = size_add (length before) kChunkSize;
          len = (if len > max_len then max_len else len)
      in if len < length before then Some (None, bio)
         else if \<not> al len then Some (None, bio)
         else read_all_loop al rd max_len len before bio)"

definition header_len32 :: "byte list \<Rightarrow> u32" where
  "header_len32 bs = foldl (\<lambda>len32 b. push_bit 8 len32 OR ucast b) 0 bs"

text \<open>The length behind a long-form length octet, with the whole header.\<close>

definition read_long_length :: "'b reader \<Rightarrow> byte list \<Rightarrow> nat \<Rightarrow> 'b \<Rightarrow> ((asn1_error + nat \<times> byte list) \<times> 'b) option" where
  "read_long_length rd header num_bytes bio =
     (if num_bytes = 0 \<or> num_bytes > 4 then Some (Inl DECODE_ERROR, bio)
      else (case bio_read_full rd num_bytes bio of
        None \<Rightarrow> None
      | Some (ok, _, bs, bio1) \<Rightarrow>
          if \<not> ok then Some (Inl NOT_ENOUGH_DATA, bio1)
          else
            let len32 = header_len32 bs
            in if len32 < 128 then Some (Inl DECODE_ERROR, bio1)
               else if drop_bit ((num_bytes - 1) * 8) len32 = 0 then Some (Inl DECODE_ERROR, bio1)
               else Some (Inr (unat len32, header @ bs), bio1)))"

definition read_asn1_body :: "allocator \<Rightarrow> 'b reader \<Rightarrow> nat \<Rightarrow> nat \<Rightarrow> byte list \<Rightarrow> 'b \<Rightarrow> ((asn1_error + byte list) \<times> 'b) option" where
  "read_asn1_body al rd max_len len header bio =
     (if size_add len (length header) < len \<or> size_add len (length header) > max_len \<or> len > INT_MAX then Some (Inl TOO_LONG, bio)
      else
        let len1 = size_add len (length header)
        in if \<not> al len1 then Some (Inl MALLOC_FAILURE, bio)
           else (case bio_read_full rd (len1 - length header) bio of
             None \<Rightarrow> None
           | Some (ok, _, bs, bio1) \<Rightarrow> Some (if ok then Inr (header @ bs) else Inl NOT_ENOUGH_DATA, bio1)))"

definition BIO_read_asn1 :: "allocator \<Rightarrow> 'b reader \<Rightarrow> nat \<Rightarrow> 'b \<Rightarrow> ((asn1_error + byte list) \<times> 'b) option" where
  "BIO_read_asn1 al rd max_len bio = (case bio_read_full rd kInitialHeaderLen bio of
     None \<Rightarrow> None
   | Some (ok, eof_on_first_read, header, bio1) \<Rightarrow>
       if \<not> ok then Some (Inl (if eof_on_first_read then HEADER_TOO_LONG else NOT_ENOUGH_DATA), bio1)
       else
         let tag = header ! 0; length_byte = header ! 1
         in if tag AND 0x1f = 0x1f then Some (Inl DECODE_ERROR, bio1)
            else if length_byte AND 0x80 = 0 then read_asn1_body al rd max_len (unat length_byte) header bio1
            else
              let num_bytes = unat (length_byte AND 0x7f)
              in if tag AND 0x20 \<noteq> 0 \<and> num_bytes = 0 then
                   (case bio_read_all al rd header max_len bio1 of
                      None \<Rightarrow> None
                    | Some (None, bio2) \<Rightarrow> Some (Inl NOT_ENOUGH_DATA, bio2)
                    | Some (Some outp, bio2) \<Rightarrow> Some (Inr outp, bio2))
                 else (case read_long_length rd header num_bytes bio1 of
                      None \<Rightarrow> None
                    | Some (Inl e, bio2) \<Rightarrow> Some (Inl e, bio2)
                    | Some (Inr (len, header), bio2) \<Rightarrow> read_asn1_body al rd max_len len header bio2))"

section \<open>What is accepted\<close>

text \<open>
  An element with a tag of one byte and its length as DER writes it, in as many bytes as the code can hold; and the start
  of an element of indefinite length, which is taken to go on to the end.
\<close>

definition short_element :: "byte list \<Rightarrow> bool" where
  "short_element e \<longleftrightarrow> (\<exists>t c. e = t # len_enc (length c) @ c \<and> t AND 0x1f \<noteq> 0x1f \<and> length c \<le> INT_MAX)"

definition indefinite :: "byte list \<Rightarrow> bool" where
  "indefinite xs \<longleftrightarrow> (\<exists>t r. xs = t # 0x80 # r \<and> t AND 0x1f \<noteq> 0x1f \<and> t AND 0x20 \<noteq> 0)"

definition asn1_front :: "nat \<Rightarrow> int \<Rightarrow> byte list \<Rightarrow> byte list \<Rightarrow> bool" where
  "asn1_front max_len at_end xs e \<longleftrightarrow>
     prefix e xs \<and> short_element e \<and> length e \<le> max_len \<or> indefinite xs \<and> e = xs \<and> length e < max_len \<and> at_end = 0"

text \<open>The length octets in front of a sequence, as the code reads them.\<close>

lemma len_enc_short:
  assumes "n < 256 ^ 4" "unat l < 128"
  shows "l # h = len_enc n @ z \<longleftrightarrow> n = unat l \<and> z = h"
proof (cases "n < 128")
  case True
  then have "unat (word_of_nat n :: byte) = n" by (intro unat_byte_of_nat) simp
  then show ?thesis using True by (auto simp: len_enc_def)
next
  case False
  have k: "0 < byte_len n" "byte_len n \<le> 4" using byte_len_range [of n] False assms(1) by auto
  then have "unat (word_of_nat (128 + byte_len n) :: byte) = 128 + byte_len n" by (intro unat_byte_of_nat) simp
  then show ?thesis using assms(2) False by (auto simp: len_enc_def)
qed

definition long_length :: "nat \<Rightarrow> byte list \<Rightarrow> bool" where
  "long_length k h \<longleftrightarrow> 0 < k \<and> k \<le> 4 \<and> k \<le> length h \<and> 128 \<le> be_val (take k h) \<and> 256 ^ (k - 1) \<le> be_val (take k h)"

lemma len_enc_long:
  assumes "n < 256 ^ 4" "128 \<le> unat l"
  shows "l # h = len_enc n @ z \<longleftrightarrow> long_length (unat l - 128) h \<and> n = be_val (take (unat l - 128) h) \<and> z = drop (unat l - 128) h"
    (is "?L \<longleftrightarrow> ?R")
proof
  assume L: ?L
  have n: "128 \<le> n"
  proof (rule ccontr)
    assume c: "\<not> 128 \<le> n"
    then have "unat (word_of_nat n :: byte) = n" by (intro unat_byte_of_nat) simp
    then show False using L c assms(2) by (simp add: len_enc_def)
  qed
  define k where "k = byte_len n"
  have k: "0 < k" "k \<le> 4" using byte_len_range [OF n assms(1)] by (simp_all add: k_def)
  then have "unat (word_of_nat (128 + k) :: byte) = 128 + k" by (intro unat_byte_of_nat) simp
  then have e: "unat l - 128 = k" "h = be_bytes k n @ z" using L n by (auto simp: len_enc_def k_def)
  have v: "be_val (take k h) = n" using byte_len_upper [of n] e(2) by (simp add: be_val_be_bytes_id k_def)
  have "256 ^ (k - 1) \<le> n" using byte_len_lower [of n] n by (simp add: k_def)
  then show ?R using k n v e by (simp add: long_length_def)
next
  assume R: ?R
  define k where "k = unat l - 128"
  have k: "0 < k" "k \<le> 4" "k \<le> length h" "128 \<le> n" "256 ^ (k - 1) \<le> n" "n = be_val (take k h)" "z = drop k h"
    using R by (auto simp: long_length_def k_def)
  have "n < 256 ^ k" using be_val_less [of "take k h"] k(3,6) by simp
  then have b: "byte_len n = k" using k by (intro byte_len_unique) auto
  have "be_bytes k n = take k h" using be_bytes_be_val [of "take k h"] k(3,6) by simp
  moreover have "l = word_of_nat (128 + k)" using assms(2) by (simp add: k_def)
  ultimately show ?L using k(4,7) b by (simp add: len_enc_def)
qed

text \<open>The elements in front of a sequence, by the first length octet.\<close>

lemma short_element_prefix:
  "prefix e (t # l # h) \<and> short_element e \<longleftrightarrow> t AND 0x1f \<noteq> 0x1f \<and>
     (\<exists>n z. l # h = len_enc n @ z \<and> n \<le> length z \<and> n \<le> INT_MAX \<and> e = t # len_enc n @ take n z)" (is "?L \<longleftrightarrow> ?R")
proof
  assume ?L
  then obtain t' c r where e: "e = t' # len_enc (length c) @ c" "t' AND 0x1f \<noteq> 0x1f" "length c \<le> INT_MAX" "t # l # h = e @ r"
    by (auto simp: short_element_def prefix_def)
  then have "l # h = len_enc (length c) @ (c @ r)" "t' = t" by simp_all
  then show ?R using e by (intro conjI exI [of _ "length c"] exI [of _ "c @ r"]) simp_all
next
  assume ?R
  then obtain n z where z: "t AND 0x1f \<noteq> 0x1f" "l # h = len_enc n @ z" "n \<le> length z" "n \<le> INT_MAX" "e = t # len_enc n @ take n z" by blast
  have "t # l # h = e @ drop n z" using z(2,5) by simp
  then have "prefix e (t # l # h)" by (rule prefixI)
  moreover have "short_element e" unfolding short_element_def
    using z by (intro exI [of _ t] exI [of _ "take n z"]) (simp add: min_absorb2)
  ultimately show ?L by blast
qed

lemma ex_unique_split:
  assumes "\<And>n z. n \<le> m \<Longrightarrow> P n z \<longleftrightarrow> A \<and> n = N \<and> z = Z"
  shows "(\<exists>n z. P n z \<and> n \<le> length z \<and> n \<le> m \<and> Q n z) \<longleftrightarrow> A \<and> N \<le> length Z \<and> N \<le> m \<and> Q N Z"
proof -
  have "(P n z \<and> n \<le> length z \<and> n \<le> m \<and> Q n z) \<longleftrightarrow> (n = N \<and> z = Z \<and> A \<and> N \<le> length Z \<and> N \<le> m \<and> Q N Z)" for n z
    using assms [of n z] by blast
  then show ?thesis by simp
qed

lemma INT_MAX_256: "n \<le> INT_MAX \<Longrightarrow> n < 256 ^ 4"
  by (simp add: INT_MAX_def)

lemma element_short:
  "unat l < 128 \<Longrightarrow> prefix e (t # l # h) \<and> short_element e \<longleftrightarrow>
     t AND 0x1f \<noteq> 0x1f \<and> unat l \<le> length h \<and> e = take (2 + unat l) (t # l # h)"
proof -
  assume l: "unat l < 128"
  have i: "unat l \<le> INT_MAX" using l by (simp add: INT_MAX_def)
  have enc: "l # h = len_enc (unat l) @ h" using len_enc_short [of "unat l" l h h] l by simp
  then have "len_enc (unat l) = [l]" by simp
  have "\<And>n z. n \<le> INT_MAX \<Longrightarrow> l # h = len_enc n @ z \<longleftrightarrow> True \<and> n = unat l \<and> z = h"
    using len_enc_short [OF INT_MAX_256 l] by blast
  then have "(\<exists>n z. l # h = len_enc n @ z \<and> n \<le> length z \<and> n \<le> INT_MAX \<and> e = t # len_enc n @ take n z) \<longleftrightarrow>
      True \<and> unat l \<le> length h \<and> unat l \<le> INT_MAX \<and> e = t # len_enc (unat l) @ take (unat l) h"
    by (rule ex_unique_split [where Q = "\<lambda>n z. e = t # len_enc n @ take n z"])
  then show ?thesis unfolding short_element_prefix \<open>len_enc (unat l) = [l]\<close> using i by simp
qed

lemma element_long:
  fixes h :: "byte list"
  assumes l: "128 \<le> unat l"
  defines "k \<equiv> unat l - 128"
  defines "n \<equiv> be_val (take k h)"
  shows "prefix e (t # l # h) \<and> short_element e \<longleftrightarrow>
     t AND 0x1f \<noteq> 0x1f \<and> long_length k h \<and> n \<le> length h - k \<and> n \<le> INT_MAX \<and> e = take (2 + k + n) (t # l # h)"
proof -
  have cut: "t # len_enc n @ take n (drop k h) = take (2 + k + n) (t # l # h)" if "long_length k h" "n \<le> INT_MAX"
  proof -
    have "l # h = len_enc n @ drop k h" using len_enc_long [OF INT_MAX_256 [OF that(2)] l, of h "drop k h"] that(1) by (simp add: k_def n_def)
    then have enc: "len_enc n = l # take k h" by (metis append_take_drop_id append_Cons append_same_eq)
    have "k \<le> length h" using that(1) by (simp add: long_length_def)
    then show ?thesis by (simp add: enc take_add)
  qed
  have "\<And>m z. m \<le> INT_MAX \<Longrightarrow> l # h = len_enc m @ z \<longleftrightarrow> long_length k h \<and> m = n \<and> z = drop k h"
    using len_enc_long [OF INT_MAX_256 l] unfolding k_def n_def by blast
  then have "(\<exists>m z. l # h = len_enc m @ z \<and> m \<le> length z \<and> m \<le> INT_MAX \<and> e = t # len_enc m @ take m z) \<longleftrightarrow>
      long_length k h \<and> n \<le> length (drop k h) \<and> n \<le> INT_MAX \<and> e = t # len_enc n @ take n (drop k h)"
    by (rule ex_unique_split [where Q = "\<lambda>m z. e = t # len_enc m @ take m z"])
  then show ?thesis unfolding short_element_prefix length_drop using cut by auto
qed

lemma indefinite_iff: "indefinite (t # l # h) \<longleftrightarrow> l = 0x80 \<and> t AND 0x1f \<noteq> 0x1f \<and> t AND 0x20 \<noteq> 0"
  by (auto simp: indefinite_def)

lemma front_tag: "t AND 0x1f = 0x1f \<Longrightarrow> \<not> asn1_front max_len eof (t # l # h) e"
  unfolding asn1_front_def indefinite_iff using short_element_prefix [of e t l h] by blast

lemma front_short:
  assumes "unat l < 128"
  shows "asn1_front max_len eof (t # l # h) e \<longleftrightarrow> (t AND 0x1f \<noteq> 0x1f \<and> 2 + unat l \<le> max_len \<and> unat l \<le> length h) \<and>
    e = take (2 + unat l) (t # l # h)"
proof -
  have "l \<noteq> 0x80" using assms by auto
  then show ?thesis using element_short [OF assms, of e t h] unfolding asn1_front_def indefinite_iff by auto
qed

lemma front_indefinite:
  assumes "t AND 0x1f \<noteq> 0x1f" "t AND 0x20 \<noteq> 0" "l = 0x80"
  shows "asn1_front max_len eof (t # l # h) e \<longleftrightarrow> (length (t # l # h) < max_len \<and> eof = 0) \<and> e = t # l # h"
proof -
  have "\<not> (prefix e (t # l # h) \<and> short_element e)" using element_long [of l e t h] assms(3) by (simp add: long_length_def)
  moreover have "indefinite (t # l # h)" using assms by (simp add: indefinite_iff)
  ultimately show ?thesis unfolding asn1_front_def by auto
qed

lemma front_long:
  fixes h :: "byte list"
  assumes l: "128 \<le> unat l" "\<not> (t AND 0x20 \<noteq> 0 \<and> unat l - 128 = 0)"
  defines "k \<equiv> unat l - 128"
  defines "n \<equiv> be_val (take k h)"
  shows "asn1_front max_len eof (t # l # h) e \<longleftrightarrow>
    (t AND 0x1f \<noteq> 0x1f \<and> long_length k h \<and> 2 + k + n \<le> max_len \<and> n \<le> length h - k \<and> n \<le> INT_MAX) \<and> e = take (2 + k + n) (t # l # h)"
proof -
  have "\<not> indefinite (t # l # h)" using l(2) by (auto simp: indefinite_iff)
  moreover have "length (take (2 + k + n) (t # l # h)) = 2 + k + n" if "long_length k h" "n \<le> length h - k"
    using that by (auto simp: long_length_def min_def)
  ultimately show ?thesis using element_long [OF l(1), of e t h, folded k_def, folded n_def] unfolding asn1_front_def by auto
qed

lemma header_len32_be_val: "length bs \<le> 4 \<Longrightarrow> unat (header_len32 bs) = be_val bs"
proof (induction bs rule: rev_induct)
  case (snoc b bs)
  have small: "be_val bs < 256 ^ 3" using be_val_le_pow [of bs 3] snoc.prems by simp
  have "header_len32 (bs @ [b]) = header_len32 bs * 256 + ucast b"
    using push_or_ucast [of 8 "header_len32 bs" b] by (simp add: header_len32_def)
  moreover have "unat (header_len32 bs) = be_val bs" using snoc by simp
  moreover have "be_val bs * 256 + unat b < 4294967296" using small unat_byte_bound [of b] by (simp, linarith)
  ultimately show ?case by (simp add: unat_word_ariths)
qed (simp add: header_len32_def)

section \<open>The contract of a BIO that is read\<close>

locale byte_source =
  fixes ok :: "'b \<Rightarrow> bool" and contents :: "'b \<Rightarrow> byte list" and at_end :: "'b \<Rightarrow> int" and rd :: "'b reader"
  assumes rd_law: "ok b \<Longrightarrow> 0 < n \<Longrightarrow> rd n b = (r, bs, b') \<Longrightarrow>
      ok b' \<and> at_end b' = at_end b \<and> contents b = bs @ contents b' \<and>
      (if contents b = [] then r = at_end b else r = int (length bs) \<and> 0 < r \<and> r \<le> n)"
    and end_law: "ok b \<Longrightarrow> at_end b = 0 \<or> at_end b = -1"
begin

lemma read_full:
  "ok b \<Longrightarrow> \<exists>b'. read_full_loop rd f len acc b = Some (len \<le> length (contents b), f \<and> len \<noteq> 0 \<and> contents b = [] \<and> at_end b = 0,
     acc @ take len (contents b), b') \<and> ok b' \<and> at_end b' = at_end b \<and> contents b' = drop len (contents b)"
proof (induction len arbitrary: f acc b rule: less_induct)
  case (less len)
  show ?case
  proof (cases "len = 0")
    case True
    then show ?thesis using less.prems by (subst read_full_loop.simps) simp
  next
    case False
    define k where "k = (if len \<le> INT_MAX then len else INT_MAX)"
    have k: "0 < int k" "k \<le> len" using False by (auto simp: k_def INT_MAX_def)
    obtain r bs b1 where r: "rd (int k) b = (r, bs, b1)" using prod_cases3 by blast
    note law = rd_law [OF less.prems k(1) r]
    show ?thesis
    proof (cases "contents b = []")
      case True
      then have "r \<le> 0" "r = at_end b" "contents b1 = []" using law end_law [OF less.prems] by auto
      then show ?thesis using True False law less.prems r
        by (subst read_full_loop.simps) (simp add: k_def [symmetric])
    next
      case ne: False
      then have bs: "r = int (length bs)" "bs \<noteq> []" "length bs \<le> len" "contents b = bs @ contents b1" "ok b1" "at_end b1 = at_end b"
        using law k by auto
      have "len - length bs < len" by (rule shrinks [OF bs(2,3)])
      from less.IH [OF this bs(5), of False "acc @ bs"] show ?thesis
        using bs(1,2,3,6) False r by (subst read_full_loop.simps) (auto simp: k_def [symmetric] bs(4))
    qed
  qed
qed

lemma bio_read_full:
  "ok b \<Longrightarrow> \<exists>b'. bio_read_full rd len b = Some (len \<le> length (contents b), len \<noteq> 0 \<and> contents b = [] \<and> at_end b = 0,
     take len (contents b), b') \<and> ok b' \<and> at_end b' = at_end b \<and> contents b' = drop len (contents b)"
  using read_full [of b True len "[]"] by (simp add: bio_read_full_def)

text \<open>The room is used up only at the limit, so nothing short of it is refused.\<close>

definition read_all_ok :: "allocator \<Rightarrow> nat \<Rightarrow> byte list \<Rightarrow> 'b \<Rightarrow> byte list option \<Rightarrow> 'b \<Rightarrow> bool" where
  "read_all_ok al max_len acc b r b' \<longleftrightarrow> ok b' \<and>
     (r \<noteq> None \<longrightarrow> r = Some (acc @ contents b) \<and> contents b' = [] \<and> length acc + length (contents b) < max_len \<and> at_end b = 0) \<and>
     ((\<forall>n. al n) \<and> length acc + length (contents b) < max_len \<and> at_end b = 0 \<longrightarrow> r \<noteq> None)"

lemma read_all_okI:
  "ok b' \<Longrightarrow> \<not> ((\<forall>n. al n) \<and> length acc + length (contents b) < max_len \<and> at_end b = 0) \<Longrightarrow> read_all_ok al max_len acc b None b'"
  by (auto simp: read_all_ok_def)

lemma read_all:
  "ok b \<Longrightarrow> max_len < SIZE_MOD \<Longrightarrow> length acc \<le> len \<Longrightarrow> len \<le> max_len \<Longrightarrow> len = max_len \<or> length acc < len \<Longrightarrow>
     \<exists>r b'. read_all_loop al rd max_len len acc b = Some (r, b') \<and> read_all_ok al max_len acc b r b'"
proof (induction "max_len - length acc" arbitrary: len acc b rule: less_induct)
  case less
  show ?case
  proof (cases "length acc = len")
    case True
    then have "len = max_len" using less.prems by simp
    then show ?thesis using True less.prems(1) by (subst read_all_loop.simps) (auto intro: read_all_okI)
  next
    case False
    define k where "k = min (len - length acc) INT_MAX"
    have k: "0 < int k" "k \<le> len - length acc" using False less.prems(3) by (auto simp: k_def INT_MAX_def)
    obtain r bs b1 where r: "rd (int k) b = (r, bs, b1)" using prod_cases3 by blast
    note law = rd_law [OF less.prems(1) k(1) r]
    show ?thesis
    proof (cases "contents b = []")
      case True
      then have e: "r = at_end b" "ok b1" "contents b1 = []" using law by auto
      have l: "length acc < max_len" using False less.prems(3,4) by simp
      show ?thesis
      proof (cases "at_end b = 0")
        case True
        then have "read_all_ok al max_len acc b (Some acc) b1" using \<open>contents b = []\<close> e l by (simp add: read_all_ok_def)
        then show ?thesis using True False e(1) r by (subst read_all_loop.simps) (simp add: k_def [symmetric])
      next
        case ne: False
        then have "r = -1" using e(1) end_law [OF less.prems(1)] by simp
        moreover have "read_all_ok al max_len acc b None b1" using e(2) ne by (simp add: read_all_okI)
        ultimately show ?thesis using False r by (subst read_all_loop.simps) (simp add: k_def [symmetric])
      qed
    next
      case ne: False
      then have bs: "r = int (length bs)" "bs \<noteq> []" "length bs \<le> len - length acc" "contents b = bs @ contents b1" "ok b1" "at_end b1 = at_end b"
        using law k by auto
      define acc1 where "acc1 = acc @ bs"
      have acc1: "length acc1 \<le> len" "max_len - length acc1 < max_len - length acc"
        using bs(3) False less.prems(3) shrinks_by [OF bs(2,3) less.prems(4)] by (simp_all add: acc1_def)
      have eq: "read_all_ok al max_len acc1 b1 r1 b2 = read_all_ok al max_len acc b r1 b2" for r1 b2
        by (simp add: read_all_ok_def acc1_def bs(4,6) add.assoc)
      define len1 where "len1 = next_room len max_len"
      have len1: "len \<le> len1" "len1 \<le> max_len" "len1 = max_len \<or> len < len1"
        using less.prems(2,4) by (auto simp: len1_def next_room_def Let_def size_add_def kChunkSize_def SIZE_MOD_def mod_if split: if_splits)
      have step: "read_all_loop al rd max_len len acc b =
          (if len < max_len \<and> len - length acc1 < kChunkSize div 2 then
             if al len1 then read_all_loop al rd max_len len1 acc1 b1 else Some (None, b1)
           else read_all_loop al rd max_len len acc1 b1)"
        using False bs(1,2,3) r by (subst read_all_loop.simps) (simp add: k_def [symmetric] acc1_def [symmetric] len1_def [symmetric] Let_def)
      show ?thesis
      proof (cases "len < max_len \<and> len - length acc1 < kChunkSize div 2")
        case True
        show ?thesis
        proof (cases "al len1")
          case al: True
          have "length acc1 \<le> len1" "len1 = max_len \<or> length acc1 < len1" using acc1(1) len1 by auto
          from less.hyps [OF acc1(2) bs(5) less.prems(2) this(1) len1(2) this(2)] show ?thesis
            unfolding step eq using True al by simp
        next
          case False
          then show ?thesis unfolding step using True bs(5) by (auto intro: read_all_okI)
        qed
      next
        case False
        then have "len = max_len \<or> length acc1 < len" using less.prems(4) by (auto simp: kChunkSize_def)
        from less.hyps [OF acc1(2) bs(5) less.prems(2) acc1(1) less.prems(4) this] show ?thesis
          unfolding step if_not_P [OF False] eq .
      qed
    qed
  qed
qed

lemma bio_read_all:
  assumes "ok b" "max_len < SIZE_MOD" "length acc = 2"
  shows "\<exists>r b'. bio_read_all al rd acc max_len b = Some (r, b') \<and> read_all_ok al max_len acc b r b'"
proof -
  have s: "size_add 2 kChunkSize = 4098" by (simp add: size_add_def kChunkSize_def SIZE_MOD_def)
  define len where "len = (if 4098 > max_len then max_len else 4098)"
  have e: "bio_read_all al rd acc max_len b =
      (if len < 2 then Some (None, b) else if \<not> al len then Some (None, b) else read_all_loop al rd max_len len acc b)"
    unfolding bio_read_all_def assms(3) s Let_def len_def ..
  consider "len < 2" | "2 \<le> len" "\<not> al len" | "2 \<le> len" "al len" by linarith
  then show ?thesis
  proof cases
    case 1
    then have "max_len < 2" by (auto simp: len_def split: if_splits)
    then show ?thesis using 1 e assms by (auto intro: read_all_okI)
  next
    case 2
    then show ?thesis using e assms by (auto intro: read_all_okI)
  next
    case 3
    then have "length acc \<le> len" "len \<le> max_len" "len = max_len \<or> length acc < len"
      using assms(3) by (auto simp: len_def)
    from read_all [OF assms(1,2) this] show ?thesis using e 3 by simp
  qed
qed


text \<open>The answer of a part of the reader: under \<open>Q\<close> the first \<open>n\<close> bytes of \<open>xs\<close>, else an error.\<close>

definition answers :: "allocator \<Rightarrow> byte list \<Rightarrow> bool \<Rightarrow> nat \<Rightarrow> asn1_error + byte list \<Rightarrow> 'b \<Rightarrow> bool" where
  "answers al xs Q n r b' \<longleftrightarrow> ok b' \<and> (\<forall>e. r = Inr e \<longrightarrow> Q \<and> e = take n xs \<and> contents b' = drop n xs) \<and>
     ((\<forall>k. al k) \<and> Q \<longrightarrow> r = Inr (take n xs)) \<and> r \<noteq> Inl HEADER_TOO_LONG"

lemma answers_error: "ok b' \<Longrightarrow> \<not> ((\<forall>k. al k) \<and> Q) \<Longrightarrow> x \<noteq> HEADER_TOO_LONG \<Longrightarrow> answers al xs Q n (Inl x) b'"
  by (auto simp: answers_def)

lemma read_body:
  assumes "ok b" "contents b = drop h xs" "header = take h xs" "h \<le> length xs" "h \<le> 6" "len < 2 ^ 32"
  shows "\<exists>r b'. read_asn1_body al rd max_len len header b = Some (r, b') \<and>
    answers al xs (h + len \<le> max_len \<and> h + len \<le> length xs \<and> len \<le> INT_MAX) (h + len) r b'"
proof -
  have hl: "length header = h" using assms(3,4) by simp
  have sum: "size_add len h = len + h" using assms(5,6) by (intro size_add_small) (simp add: SIZE_MOD_def)
  obtain b' where r: "bio_read_full rd len b = Some (len \<le> length (contents b), len \<noteq> 0 \<and> contents b = [] \<and> at_end b = 0,
      take len (contents b), b')" "ok b'" "contents b' = drop len (contents b)"
    using bio_read_full [OF assms(1)] by blast
  have e: "read_asn1_body al rd max_len len header b =
      (if len + h > max_len \<or> len > INT_MAX then Some (Inl TOO_LONG, b)
       else if \<not> al (len + h) then Some (Inl MALLOC_FAILURE, b)
       else Some (if len \<le> length (contents b) then Inr (header @ take len (contents b)) else Inl NOT_ENOUGH_DATA, b'))"
    unfolding read_asn1_body_def hl sum Let_def using r(1) by simp
  consider "len + h > max_len \<or> len > INT_MAX \<or> \<not> al (len + h)" | "len + h \<le> max_len" "len \<le> INT_MAX" "al (len + h)" by linarith
  then show ?thesis
  proof cases
    case 1
    then show ?thesis unfolding e using assms(1) by (auto intro: answers_error)
  next
    case 2
    have "header @ take len (contents b) = take (h + len) xs" "contents b' = drop (h + len) xs"
      by (simp_all add: assms(2,3) r(3) take_add add.commute)
    moreover have "len \<le> length (contents b) \<longleftrightarrow> h + len \<le> length xs" using assms(2,4) by auto
    ultimately show ?thesis unfolding e using 2 r(2) by (auto simp: answers_def)
  qed
qed

lemma read_long:
  assumes "ok b" "contents b = h" "length header = 2"
  shows "\<exists>r b'. read_long_length rd header k b = Some (r, b') \<and> ok b' \<and>
    (if long_length k h then r = Inr (be_val (take k h), header @ take k h) \<and> contents b' = drop k h
     else \<exists>x. r = Inl x \<and> x \<noteq> HEADER_TOO_LONG)"
proof (cases "k = 0 \<or> k > 4")
  case True
  then show ?thesis using assms(1) by (auto simp: read_long_length_def long_length_def)
next
  case False
  obtain b' where r: "bio_read_full rd k b = Some (k \<le> length h, k \<noteq> 0 \<and> h = [] \<and> at_end b = 0, take k h, b')" "ok b'" "contents b' = drop k h"
    using bio_read_full [OF assms(1), of k] assms(2) by auto
  define v where "v = header_len32 (take k h)"
  have v: "unat v = be_val (take k h)" unfolding v_def using False by (intro header_len32_be_val) (simp add: min.coboundedI2)
  have "v < 128 \<longleftrightarrow> be_val (take k h) < 128" by (simp add: word_less_nat_alt v)
  moreover have "(2 :: nat) ^ ((k - 1) * 8) = 256 ^ (k - 1)" by (simp add: mult.commute [of _ 8] power_mult)
  then have "drop_bit ((k - 1) * 8) v = 0 \<longleftrightarrow> be_val (take k h) < 256 ^ (k - 1)"
    by (simp only: drop_bit_eq_0_iff_unat v)
  moreover have "read_long_length rd header k b = (if \<not> k \<le> length h then Some (Inl NOT_ENOUGH_DATA, b')
      else if v < 128 then Some (Inl DECODE_ERROR, b')
      else if drop_bit ((k - 1) * 8) v = 0 then Some (Inl DECODE_ERROR, b')
      else Some (Inr (unat v, header @ take k h), b'))"
    unfolding read_long_length_def r(1) Let_def v_def using False by simp
  ultimately show ?thesis using r(2,3) False by (auto simp: v long_length_def)
qed

definition asn1_read :: "allocator \<Rightarrow> nat \<Rightarrow> 'b \<Rightarrow> asn1_error + byte list \<Rightarrow> 'b \<Rightarrow> bool" where
  "asn1_read al max_len b r b' \<longleftrightarrow> ok b' \<and>
     (\<forall>e. r = Inr e \<longrightarrow> asn1_front max_len (at_end b) (contents b) e \<and> contents b = e @ contents b') \<and>
     ((\<forall>k. al k) \<longrightarrow> (\<forall>e. asn1_front max_len (at_end b) (contents b) e \<longrightarrow> r = Inr e)) \<and>
     (r = Inl HEADER_TOO_LONG \<longleftrightarrow> contents b = [] \<and> at_end b = 0)"

lemma answers_read:
  assumes "answers al (contents b) Q n r b'" "contents b \<noteq> []"
    and "\<And>e. asn1_front max_len (at_end b) (contents b) e \<longleftrightarrow> Q \<and> e = take n (contents b)"
  shows "asn1_read al max_len b r b'"
proof -
  have "contents b = e @ contents b'" if "r = Inr e" for e
    using assms(1) that unfolding answers_def by (metis append_take_drop_id)
  then show ?thesis using assms(1,2) unfolding asn1_read_def answers_def assms(3) by blast
qed

text \<open>The three ways to go on behind the first two bytes, against what stands in front.\<close>

definition front_answers :: "allocator \<Rightarrow> nat \<Rightarrow> 'b \<Rightarrow> ((asn1_error + byte list) \<times> 'b) option \<Rightarrow> bool" where
  "front_answers al max_len b res \<longleftrightarrow> (\<exists>r b' Q n. res = Some (r, b') \<and> answers al (contents b) Q n r b' \<and>
     (\<forall>e. asn1_front max_len (at_end b) (contents b) e \<longleftrightarrow> Q \<and> e = take n (contents b)))"

lemma front_answers_read:
  "front_answers al max_len b res \<Longrightarrow> contents b \<noteq> [] \<Longrightarrow> \<exists>r b'. res = Some (r, b') \<and> asn1_read al max_len b r b'"
  unfolding front_answers_def using answers_read by blast

lemma front_answers_error:
  assumes "ok b1" "x \<noteq> HEADER_TOO_LONG" "\<And>e. \<not> asn1_front max_len (at_end b) (contents b) e"
  shows "front_answers al max_len b (Some (Inl x, b1))"
  unfolding front_answers_def using answers_error [of b1 al False x] assms by blast

lemma front_answers_short:
  assumes "ok b1" "contents b1 = h" "contents b = t # l # h" "t AND 0x1f \<noteq> 0x1f" "unat l < 128"
  shows "front_answers al max_len b (read_asn1_body al rd max_len (unat l) [t, l] b1)"
proof -
  obtain x b2 where x: "read_asn1_body al rd max_len (unat l) [t, l] b1 = Some (x, b2)"
      "answers al (contents b) (2 + unat l \<le> max_len \<and> 2 + unat l \<le> length (contents b) \<and> unat l \<le> INT_MAX) (2 + unat l) x b2"
    using read_body [OF assms(1), of 2 "contents b" "[t, l]" "unat l" al max_len] assms by auto
  have "asn1_front max_len (at_end b) (contents b) e \<longleftrightarrow>
      (2 + unat l \<le> max_len \<and> 2 + unat l \<le> length (contents b) \<and> unat l \<le> INT_MAX) \<and> e = take (2 + unat l) (contents b)" for e
    unfolding assms(3) front_short [OF assms(5)] using assms(4,5) by (auto simp: INT_MAX_def)
  then show ?thesis unfolding front_answers_def using x by blast
qed

lemma front_answers_indefinite:
  assumes "ok b1" "contents b1 = h" "at_end b1 = at_end b" "contents b = t # 0x80 # h" "t AND 0x1f \<noteq> 0x1f" "t AND 0x20 \<noteq> 0"
    and "max_len < SIZE_MOD"
  shows "front_answers al max_len b (case bio_read_all al rd [t, 0x80] max_len b1 of
             None \<Rightarrow> None
           | Some (None, bio2) \<Rightarrow> Some (Inl NOT_ENOUGH_DATA, bio2)
           | Some (Some outp, bio2) \<Rightarrow> Some (Inr outp, bio2))"
proof -
  obtain x b2 where x: "bio_read_all al rd [t, 0x80] max_len b1 = Some (x, b2)" "read_all_ok al max_len [t, 0x80] b1 x b2"
    using bio_read_all [OF assms(1,7), of "[t, 0x80]" al] by auto
  define y where "y = (case x of None \<Rightarrow> Inl NOT_ENOUGH_DATA | Some outp \<Rightarrow> Inr outp)"
  have "asn1_front max_len (at_end b) (contents b) e \<longleftrightarrow>
      (length (contents b) < max_len \<and> at_end b = 0) \<and> e = take (length (contents b)) (contents b)" for e
    unfolding assms(4) using front_indefinite [OF assms(5,6)] by simp
  moreover have "answers al (contents b) (length (contents b) < max_len \<and> at_end b = 0) (length (contents b)) y b2"
    using x(2) assms(2,3) unfolding answers_def read_all_ok_def assms(4) y_def by (cases x) auto
  moreover have "(case bio_read_all al rd [t, 0x80] max_len b1 of
        None \<Rightarrow> None | Some (None, bio2) \<Rightarrow> Some (Inl NOT_ENOUGH_DATA, bio2) | Some (Some outp, bio2) \<Rightarrow> Some (Inr outp, bio2)) = Some (y, b2)"
    using x(1) by (simp add: y_def split: option.split)
  ultimately show ?thesis unfolding front_answers_def by blast
qed

lemma front_answers_long:
  assumes "ok b1" "contents b1 = h" "contents b = t # l # h" "t AND 0x1f \<noteq> 0x1f" "128 \<le> unat l"
    and k: "k = unat l - 128" "\<not> (t AND 0x20 \<noteq> 0 \<and> k = 0)"
  shows "front_answers al max_len b (case read_long_length rd [t, l] k b1 of
             None \<Rightarrow> None
           | Some (Inl e, bio2) \<Rightarrow> Some (Inl e, bio2)
           | Some (Inr (len, header), bio2) \<Rightarrow> read_asn1_body al rd max_len len header bio2)"
proof -
  note f = front_long [OF assms(5), folded k(1), OF k(2), of max_len "at_end b" h, folded assms(3)]
  obtain x b2 where x: "read_long_length rd [t, l] k b1 = Some (x, b2)" "ok b2"
      "if long_length k h then x = Inr (be_val (take k h), [t, l] @ take k h) \<and> contents b2 = drop k h
       else \<exists>y. x = Inl y \<and> y \<noteq> HEADER_TOO_LONG"
    using read_long [OF assms(1,2), of "[t, l]" k] by auto
  show ?thesis
  proof (cases "long_length k h")
    case False
    then obtain y where "x = Inl y" "y \<noteq> HEADER_TOO_LONG" using x(3) by auto
    then show ?thesis using x(1,2) f False by (simp add: front_answers_error)
  next
    case True
    define n where "n = be_val (take k h)"
    have kk: "k \<le> 4" "k \<le> length h" using True by (auto simp: long_length_def)
    have n: "n < 2 ^ 32" using be_val_le_pow [of "take k h" 4] kk by (simp add: n_def)
    have y: "x = Inr (n, [t, l] @ take k h)" "contents b2 = drop k h" using x(3) True by (simp_all add: n_def)
    have h: "contents b2 = drop (2 + k) (contents b)" "[t, l] @ take k h = take (2 + k) (contents b)" "2 + k \<le> length (contents b)" "2 + k \<le> 6"
      using y(2) kk by (simp_all add: assms(3))
    obtain z b3 where z: "read_asn1_body al rd max_len n ([t, l] @ take k h) b2 = Some (z, b3)"
        "answers al (contents b) (2 + k + n \<le> max_len \<and> 2 + k + n \<le> length (contents b) \<and> n \<le> INT_MAX) (2 + k + n) z b3"
      using read_body [OF x(2) h n, of al max_len] by blast
    moreover have "asn1_front max_len (at_end b) (contents b) e \<longleftrightarrow>
        (2 + k + n \<le> max_len \<and> 2 + k + n \<le> length (contents b) \<and> n \<le> INT_MAX) \<and> e = take (2 + k + n) (contents b)" for e
      unfolding f n_def [symmetric] using assms(4) True kk by (auto simp: assms(3))
    ultimately show ?thesis unfolding front_answers_def x(1) y(1) option.case prod.case sum.case by blast
  qed
qed

lemma read_asn1_next:
  assumes "bio_read_full rd 2 b = Some (True, f, [t, l], b1)" "ok b1" "contents b1 = h" "at_end b1 = at_end b"
    and xs: "contents b = t # l # h" and "max_len < SIZE_MOD"
  shows "front_answers al max_len b (BIO_read_asn1 al rd max_len b)"
proof -
  define k where "k = unat l - 128"
  have code: "BIO_read_asn1 al rd max_len b =
     (if t AND 0x1f = 0x1f then Some (Inl DECODE_ERROR, b1)
      else if unat l < 128 then read_asn1_body al rd max_len (unat l) [t, l] b1
      else if t AND 0x20 \<noteq> 0 \<and> k = 0 then
        (case bio_read_all al rd [t, l] max_len b1 of
           None \<Rightarrow> None
         | Some (None, bio2) \<Rightarrow> Some (Inl NOT_ENOUGH_DATA, bio2)
         | Some (Some outp, bio2) \<Rightarrow> Some (Inr outp, bio2))
      else (case read_long_length rd [t, l] k b1 of
           None \<Rightarrow> None
         | Some (Inl e, bio2) \<Rightarrow> Some (Inl e, bio2)
         | Some (Inr (len, header), bio2) \<Rightarrow> read_asn1_body al rd max_len len header bio2))"
    unfolding BIO_read_asn1_def kInitialHeaderLen_def assms(1) k_def using and_7f_num [of l] by (simp add: and_80)
  consider (tag) "t AND 0x1f = 0x1f" | (short) "t AND 0x1f \<noteq> 0x1f" "unat l < 128"
    | (indef) "t AND 0x1f \<noteq> 0x1f" "\<not> unat l < 128" "t AND 0x20 \<noteq> 0 \<and> k = 0"
    | (long) "t AND 0x1f \<noteq> 0x1f" "\<not> unat l < 128" "\<not> (t AND 0x20 \<noteq> 0 \<and> k = 0)" by linarith
  then show ?thesis
  proof cases
    case tag
    then show ?thesis unfolding code using front_tag [OF tag] assms(2) by (simp add: front_answers_error xs)
  next
    case short
    then show ?thesis unfolding code using front_answers_short [OF assms(2,3) xs short] by simp
  next
    case indef
    have "unat l = 128" using indef(2,3) by (simp add: k_def)
    then have l: "l = 0x80" by (intro word_eq_if_unat) simp
    show ?thesis unfolding code if_not_P [OF indef(1)] if_not_P [OF indef(2)] if_P [OF indef(3)] unfolding l
      using indef(1,3) by (intro front_answers_indefinite [OF assms(2,3,4)] assms(6)) (simp_all add: xs l)
  next
    case long
    have "128 \<le> unat l" using long(2) by simp
    then show ?thesis unfolding code if_not_P [OF long(1)] if_not_P [OF long(2)] if_not_P [OF long(3)]
      using long by (intro front_answers_long [OF assms(2,3) xs]) (simp_all add: k_def)
  qed
qed

lemma read_asn1:
  assumes "ok b" "max_len < SIZE_MOD"
  shows "\<exists>r b'. BIO_read_asn1 al rd max_len b = Some (r, b') \<and> asn1_read al max_len b r b'"
proof -
  let ?xs = "contents b"
  obtain b1 where r: "bio_read_full rd 2 b = Some (2 \<le> length ?xs, ?xs = [] \<and> at_end b = 0, take 2 ?xs, b1)" "ok b1"
      "at_end b1 = at_end b" "contents b1 = drop 2 ?xs"
    using bio_read_full [OF assms(1), of 2] by auto
  show ?thesis
  proof (cases "2 \<le> length ?xs")
    case False
    have "\<not> asn1_front max_len (at_end b) ?xs e" for e
    proof
      assume "asn1_front max_len (at_end b) ?xs e"
      then have "2 \<le> length e" "prefix e ?xs" by (auto simp: asn1_front_def short_element_def indefinite_def len_enc_def)
      then show False using False prefix_length_le by fastforce
    qed
    moreover have "BIO_read_asn1 al rd max_len b = Some (Inl (if ?xs = [] \<and> at_end b = 0 then HEADER_TOO_LONG else NOT_ENOUGH_DATA), b1)"
      using r(1) False by (simp add: BIO_read_asn1_def kInitialHeaderLen_def)
    ultimately show ?thesis using r(2) by (auto simp: asn1_read_def)
  next
    case True
    then obtain t l h where xs: "?xs = t # l # h" by (cases ?xs; cases "tl ?xs") auto
    have "bio_read_full rd 2 b = Some (True, False, [t, l], b1)" "contents b1 = h" using r(1,4) unfolding xs by simp_all
    from read_asn1_next [OF this(1) r(2) this(2) r(3) xs assms(2), of al]
    show ?thesis by (rule front_answers_read) (simp add: xs)
  qed
qed

end

section \<open>The BIOs that are read\<close>

lemma mem_BIO_read_num: "mem_BIO_read n bio = (r, bs, b') \<Longrightarrow> mb_num b' = mb_num bio"
  by (auto simp: mem_BIO_read_def mem_read_def Let_def clear_retry_keeps split: if_splits)

interpretation mem_source: byte_source "\<lambda>b. mem_ok b \<and> (mb_num b = 0 \<or> mb_num b = -1)" BIO_mem_contents mb_num mem_BIO_read
proof
  fix b b' :: mem_bio and n r :: int and bs
  assume b: "mem_ok b \<and> (mb_num b = 0 \<or> mb_num b = -1)" and n: "0 < n" and r: "mem_BIO_read n b = (r, bs, b')"
  have law: "mem_ok b'" "bs = take (nat n) (BIO_mem_contents b)" "BIO_mem_contents b' = drop (nat n) (BIO_mem_contents b)"
      "r = (if BIO_mem_contents b = [] then mb_num b else int (length bs))"
    using mem_BIO_read_law [of b n r bs b'] b n r by blast+
  have "0 < length bs \<and> int (length bs) \<le> n" if "BIO_mem_contents b \<noteq> []"
    unfolding law(2) using that n by auto
  moreover have "BIO_mem_contents b = bs @ BIO_mem_contents b'" by (simp add: law(2,3))
  ultimately show "(mem_ok b' \<and> (mb_num b' = 0 \<or> mb_num b' = -1)) \<and> mb_num b' = mb_num b \<and>
      BIO_mem_contents b = bs @ BIO_mem_contents b' \<and>
      (if BIO_mem_contents b = [] then r = mb_num b else r = int (length bs) \<and> 0 < r \<and> r \<le> n)"
    using law(1,4) b mem_BIO_read_num [OF r] by auto
qed auto

text \<open>One end of a BIO pair; the other end can be closed for writing, which is the end of the bytes.\<close>

definition pair_read :: "nat \<Rightarrow> bios reader" where
  "pair_read i n st = (case BIO_read i True n st of None \<Rightarrow> (-2, [], st) | Some r \<Rightarrow> r)"

interpretation pair_source: byte_source "\<lambda>st. bios_ok st \<and> connected st i j" "\<lambda>st. in_flight st j"
  "\<lambda>st. if bp_closed (pair_of st j) then 0 else -1" "pair_read i" for i j
proof
  fix st st' n r bs
  assume st: "bios_ok st \<and> connected st i j" and n: "0 < n" and r: "pair_read i n st = (r, bs, st')"
  obtain ret st1 where law: "BIO_read i True n st = Some (ret, take (nat n) (in_flight st j), st1)"
      "ret = (if in_flight st j \<noteq> [] then min n (int (length (in_flight st j))) else if bp_closed (pair_of st j) then 0 else - 1)"
      "in_flight st1 j = drop (nat n) (in_flight st j)" "bios_ok st1" "same_shape st st1"
    using BIO_read_connected [of st i j n] st n by blast
  have e: "r = ret" "bs = take (nat n) (in_flight st j)" "st' = st1" using r law(1) by (simp_all add: pair_read_def)
  have "connected st' i j" using same_shape_connected law(5) st unfolding e by blast
  moreover have "bp_closed (pair_of st' j) = bp_closed (pair_of st j)" using law(5) by (simp add: e same_shape_def)
  moreover have "in_flight st j = bs @ in_flight st' j" by (simp add: e law(3))
  moreover have "if in_flight st j = [] then r = (if bp_closed (pair_of st j) then 0 else -1) else r = int (length bs) \<and> 0 < r \<and> r \<le> n"
    unfolding e(1,2) law(2) using n by (cases "in_flight st j = []") (auto simp: min_def)
  ultimately show "(bios_ok st' \<and> connected st' i j) \<and>
      (if bp_closed (pair_of st' j) then 0 else -1) = ((if bp_closed (pair_of st j) then 0 else -1) :: int) \<and>
      in_flight st j = bs @ in_flight st' j \<and>
      (if in_flight st j = [] then r = (if bp_closed (pair_of st j) then 0 else -1) else r = int (length bs) \<and> 0 < r \<and> r \<le> n)"
    using law(4) e(3) by simp
qed auto

section \<open>Exactness\<close>

text \<open>What the DER writer writes under a low tag is such an element.\<close>

lemma unat_31: "unat (0x1f :: byte) = 31"
  by simp

lemma der_short_element:
  assumes "tag_ok t" "tag_number t < 31" "length c \<le> INT_MAX"
  shows "short_element (der_enc t c)"
proof -
  define m where "m = tag_class t * 32 + tag_number t"
  let ?w = "word_of_nat m :: byte"
  have "unat ?w mod 32 = m mod 32" by (simp add: unat_of_nat mod_mod_cancel)
  also have "\<dots> = tag_number t" using assms(2) by (simp add: m_def)
  finally have "unat (?w AND 0x1f) = tag_number t" by (simp add: and_1f)
  then have "?w AND 0x1f \<noteq> 0x1f" using assms(2) by (metis less_irrefl unat_31)
  then show ?thesis unfolding short_element_def using assms
    by (intro exI [of _ ?w] exI [of _ c]) (simp add: der_enc_def tag_enc_def m_def)
qed

text \<open>
  C17. \<^verbatim>\<open>BIO_read_asn1\<close> on a memory BIO always returns.  It takes exactly one element from the front and leaves what is behind
  it: an element with a tag of one byte and the shortest length, within the limit of the caller, or all that is there
  if the length is indefinite and it is shorter than the limit; at the limit itself it is refused.  With memory it takes every such element, so what the
  DER writer writes under a low tag is read back, and the error for an empty BIO is given on an empty BIO only.
\<close>

theorem bio_read_asn1_exact:
  assumes "mem_ok b" "mb_num b = 0 \<or> mb_num b = -1" "max_len < SIZE_MOD"
  shows "\<exists>r b'. BIO_read_asn1 al mem_BIO_read max_len b = Some (r, b') \<and> mem_ok b' \<and>
    (\<forall>e. r = Inr e \<longrightarrow> asn1_front max_len (mb_num b) (BIO_mem_contents b) e \<and> BIO_mem_contents b = e @ BIO_mem_contents b') \<and>
    ((\<forall>n. al n) \<longrightarrow> (\<forall>e. asn1_front max_len (mb_num b) (BIO_mem_contents b) e \<longrightarrow> r = Inr e)) \<and>
    ((\<forall>n. al n) \<longrightarrow> (\<forall>t c rest. BIO_mem_contents b = der_enc t c @ rest \<and> tag_ok t \<and> tag_number t < 31 \<and> length c \<le> INT_MAX \<and>
       length (der_enc t c) \<le> max_len \<longrightarrow> r = Inr (der_enc t c) \<and> BIO_mem_contents b' = rest)) \<and>
    (r = Inl HEADER_TOO_LONG \<longleftrightarrow> BIO_mem_contents b = [] \<and> mb_num b = 0)"
proof -
  obtain r b' where r: "BIO_read_asn1 al mem_BIO_read max_len b = Some (r, b')" "mem_source.asn1_read al max_len b r b'"
    using mem_source.read_asn1 [of b max_len al] assms by blast
  note a = r(2) [unfolded mem_source.asn1_read_def]
  have "r = Inr (der_enc t c) \<and> BIO_mem_contents b' = rest"
    if "\<forall>n. al n" "BIO_mem_contents b = der_enc t c @ rest" "tag_ok t" "tag_number t < 31" "length c \<le> INT_MAX" "length (der_enc t c) \<le> max_len" for t c rest
  proof -
    have "asn1_front max_len (mb_num b) (BIO_mem_contents b) (der_enc t c)"
      using der_short_element [OF that(3-5)] that(2,6) by (simp add: asn1_front_def)
    then have "r = Inr (der_enc t c)" using a that(1) by blast
    then show ?thesis using a that(2) by (metis append_same_eq same_append_eq)
  qed
  then show ?thesis using r(1) a by blast
qed

definition sample_asn1_bio :: mem_bio where
  "sample_asn1_bio = sample_mem_bio\<lparr>mb_buf := \<lparr>bm_length = 4, bm_data = [2, 1, 5, 65], bm_max = 4\<rparr>\<rparr>"

theorem bio_read_asn1_exact_witness:
  "\<exists>b'. BIO_read_asn1 (\<lambda>_. True) mem_BIO_read 100 sample_asn1_bio = Some (Inr [2, 1, 5], b') \<and> BIO_mem_contents b' = [65]"
proof -
  have b: "mem_ok sample_asn1_bio" "mb_num sample_asn1_bio = 0 \<or> mb_num sample_asn1_bio = -1" "BIO_mem_contents sample_asn1_bio = [2, 1, 5, 65]"
    by (simp_all add: sample_asn1_bio_def sample_mem_bio_def mem_ok_def buf_ok_def SIZE_MOD_def BIO_mem_contents_def mem_data_def)
  have "(100 :: nat) < SIZE_MOD" by (simp add: SIZE_MOD_def)
  note ex = bio_read_asn1_exact [OF b(1,2) this, of "\<lambda>_. True", unfolded b(3)]
  have "short_element [2, 1, 5]" unfolding short_element_def
    by (intro exI [of _ 2] exI [of _ "[5]"]) (simp add: len_enc_def INT_MAX_def)
  then have "asn1_front 100 (mb_num sample_asn1_bio) [2, 1, 5, 65] [2, 1, 5]" by (simp add: asn1_front_def)
  then have front: "asn1_front 100 (mb_num sample_asn1_bio) [2, 1, 5, 65] [2, 1, 5]" .
  show ?thesis using ex
  proof (elim exE conjE, goal_cases)
    case (1 r b')
    have "r = Inr [2, 1, 5]" using mp [OF 1(4)] front by simp
    then show ?thesis using 1(1,3) by simp
  qed
qed

end
