(* ===== verification/MemBioProps.thy ===== *)
theory MemBioProps
  imports MemBio
begin

text \<open>
  What a memory BIO does under every one of its calls, control calls that replace its contents included,
  against an abstract BIO: the bytes to be read, the bytes a read-only BIO was made from, and the settings.
\<close>

section \<open>The abstract BIO\<close>

text \<open>
  \<open>ms_all\<close> is \<open>None\<close> for a BIO that can be written, and what a reset of a read-only one goes back to.
  \<open>ms_retry\<close> is the flag that the last call has set: the caller should try again.
\<close>

record mem_spec =
  ms_bytes :: "byte list"
  ms_all :: "byte list option"
  ms_eof :: int
  ms_close :: int
  ms_retry :: bool

definition mem_abs :: "mem_bio \<Rightarrow> mem_spec" where
  "mem_abs bio = \<lparr>ms_bytes = BIO_mem_contents bio, ms_all = (if rdonly bio then Some (bm_data (mb_buf bio)) else None),
     ms_eof = mb_num bio, ms_close = mb_shutdown bio, ms_retry = (mb_flags bio AND BIO_FLAGS_SHOULD_RETRY \<noteq> 0)\<rparr>"

fun spec_ctrl :: "mem_ctrl_cmd \<Rightarrow> mem_spec \<Rightarrow> int \<times> mem_spec" where
  "spec_ctrl CTRL_RESET s = (1, s\<lparr>ms_bytes := (case ms_all s of None \<Rightarrow> [] | Some d \<Rightarrow> d)\<rparr>)"
| "spec_ctrl CTRL_EOF s = (if ms_bytes s = [] then 1 else 0, s)"
| "spec_ctrl (SET_BUF_MEM_EOF_RETURN v) s = (1, s\<lparr>ms_eof := v\<rparr>)"
| "spec_ctrl CTRL_INFO s = (int (length (ms_bytes s)), s)"
| "spec_ctrl (SET_BUF_MEM n b) s =
     (1, s\<lparr>ms_bytes := buf_bytes b, ms_all := map_option (\<lambda>_. buf_bytes b) (ms_all s), ms_close := n\<rparr>)"
| "spec_ctrl GET_BUF_MEM_PTR s = (1, s)"
| "spec_ctrl GET_CLOSE s = (ms_close s, s)"
| "spec_ctrl (SET_CLOSE v) s = (1, s\<lparr>ms_close := v\<rparr>)"
| "spec_ctrl CTRL_WPENDING s = (0, s)"
| "spec_ctrl CTRL_PENDING s = (int (length (ms_bytes s)), s)"
| "spec_ctrl CTRL_FLUSH s = (1, s)"
| "spec_ctrl CTRL_UNKNOWN s = (0, s)"

text \<open>The calls, each write with the memory it meets, and their results.\<close>

datatype mem_op = M_read int | M_gets int | M_write allocator "byte list" | M_ctrl mem_ctrl_cmd

datatype mem_res = Got int "byte list" | Ret int

text \<open>
  What may come of a call.  There is a choice for a write only: it may be refused when the memory for the
  bytes then held is.
\<close>

definition may_refuse :: "allocator \<Rightarrow> nat \<Rightarrow> bool" where
  "may_refuse al n \<longleftrightarrow> 2 ^ 61 \<le> n \<or> \<not> al ((n + 3) div 3 * 4)"

definition took :: "byte list \<Rightarrow> mem_spec \<Rightarrow> mem_res \<times> mem_spec" where
  "took bs s = (Got (int (length bs)) bs, s\<lparr>ms_bytes := drop (length bs) (ms_bytes s), ms_retry := False\<rparr>)"

fun outcomes :: "mem_op \<Rightarrow> mem_spec \<Rightarrow> (mem_res \<times> mem_spec) list" where
  "outcomes (M_read n) s =
     [if n \<le> 0 then (Got 0 [], s)
      else if ms_bytes s = [] then (Got (ms_eof s) [], s\<lparr>ms_retry := (ms_eof s \<noteq> 0)\<rparr>)
      else took (take (nat n) (ms_bytes s)) s]"
| "outcomes (M_gets n) s = [if n \<le> 0 then (Got 0 [], s) else took (first_line (nat (n - 1)) (ms_bytes s)) s]"
| "outcomes (M_write al bs) s =
     (if bs = [] then [(Ret 0, s)]
      else if ms_all s \<noteq> None then [(Ret (-1), s\<lparr>ms_retry := False\<rparr>)]
      else (Ret (int (length bs)), s\<lparr>ms_bytes := ms_bytes s @ bs, ms_retry := False\<rparr>) #
        (if may_refuse al (length (ms_bytes s @ bs)) then [(Ret (-1), s\<lparr>ms_retry := False\<rparr>)] else []))"
| "outcomes (M_ctrl cmd) s = [map_prod Ret id (spec_ctrl cmd s)]"

fun spec_runs :: "mem_op list \<Rightarrow> mem_spec \<Rightarrow> (mem_res list \<times> mem_spec) list" where
  "spec_runs [] s = [([], s)]"
| "spec_runs (c # cs) s = concat (map (\<lambda>(r, t). map (map_prod ((#) r) id) (spec_runs cs t)) (outcomes c s))"

section \<open>The calls of the code\<close>

fun mem_exec :: "mem_op \<Rightarrow> mem_bio \<Rightarrow> mem_res \<times> mem_bio" where
  "mem_exec (M_read n) bio = (case mem_BIO_read n bio of (ret, bs, b) \<Rightarrow> (Got ret bs, b))"
| "mem_exec (M_gets n) bio = (case mem_BIO_gets n bio of (ret, bs, b) \<Rightarrow> (Got ret bs, b))"
| "mem_exec (M_write al bs) bio = map_prod Ret id (mem_BIO_write al bs bio)"
| "mem_exec (M_ctrl cmd) bio = map_prod Ret id (mem_ctrl cmd bio)"

fun mem_run :: "mem_op list \<Rightarrow> mem_bio \<Rightarrow> mem_res list \<times> mem_bio" where
  "mem_run [] bio = ([], bio)"
| "mem_run (c # cs) bio = (case mem_exec c bio of (r, b) \<Rightarrow> map_prod ((#) r) id (mem_run cs b))"

text \<open>
  A length is an \<^verbatim>\<open>int\<close>, and a new buffer is well formed.  A read-only BIO takes a full one only: its reset goes
  back by the difference between the capacity and the length, to before the start of a buffer with a gap.
\<close>

fun call_ok :: "bool \<Rightarrow> mem_op \<Rightarrow> bool" where
  "call_ok ro (M_write al bs) = (length bs \<le> INT_MAX)"
| "call_ok ro (M_ctrl (SET_BUF_MEM n b)) = (buf_ok b \<and> (ro \<longrightarrow> bm_length b = bm_max b))"
| "call_ok ro _ = True"

section \<open>The flags\<close>

lemma retry_cleared: "f AND NOT kRetryFlags AND BIO_FLAGS_SHOULD_RETRY = 0"
proof -
  have "NOT kRetryFlags AND BIO_FLAGS_SHOULD_RETRY = 0" by (simp add: kRetryFlags_def bio_flag_defs)
  then show ?thesis by (simp add: and.assoc)
qed

lemma retry_set: "(f OR (BIO_FLAGS_READ OR BIO_FLAGS_SHOULD_RETRY)) AND BIO_FLAGS_SHOULD_RETRY \<noteq> 0"
proof
  have "bit ((f OR (BIO_FLAGS_READ OR BIO_FLAGS_SHOULD_RETRY)) AND BIO_FLAGS_SHOULD_RETRY) 3" by (simp add: bit_simps bio_flag_defs)
  moreover assume "(f OR (BIO_FLAGS_READ OR BIO_FLAGS_SHOULD_RETRY)) AND BIO_FLAGS_SHOULD_RETRY = 0"
  ultimately show False by simp
qed

lemma mem_read_frame:
  assumes "mem_read n bio = (ret, out, bio')"
  shows "mb_num bio' = mb_num bio" "mb_shutdown bio' = mb_shutdown bio" "rdonly bio \<longrightarrow> bm_data (mb_buf bio') = bm_data (mb_buf bio)"
    "(mb_flags bio' AND BIO_FLAGS_SHOULD_RETRY \<noteq> 0) = (0 < n \<and> bm_length (mb_buf bio) = 0 \<and> mb_num bio \<noteq> 0)"
  using assms retry_set
  by (auto simp: mem_read_def Let_def mem_clear_retry_def flags_keep_rdonly retry_cleared and.assoc split: if_splits)

lemma mem_gets_frame:
  assumes "mem_gets n bio = (ret, out, bio')" "mem_ok bio" "0 < n"
  shows "mb_num bio' = mb_num bio" "mb_shutdown bio' = mb_shutdown bio" "rdonly bio \<longrightarrow> bm_data (mb_buf bio') = bm_data (mb_buf bio)"
    "mb_flags bio' AND BIO_FLAGS_SHOULD_RETRY = 0"
proof -
  define b where "b = mem_clear_retry bio"
  have b: "mb_num b = mb_num bio" "mb_shutdown b = mb_shutdown bio" "mb_buf b = mb_buf bio" "rdonly b = rdonly bio"
    by (simp_all add: b_def mem_clear_retry_def flags_keep_rdonly and.assoc)
  define k where "k = (if nat (n - 1) > bm_length (mb_buf b) then int (bm_length (mb_buf b)) else n - 1)"
  define j where "j = (case OPENSSL_memchr (take (nat k) (mem_data b)) 10 of None \<Rightarrow> k | Some i \<Rightarrow> int i + 1)"
  have r: "mem_read j b = (ret, out, bio')"
    using assms(1,3) unfolding mem_gets_def Let_def b_def [symmetric] k_def [symmetric] j_def [symmetric] by simp
  have "j \<le> 0" if "bm_length (mb_buf b) = 0"
  proof -
    have "k = 0" using assms(3) that by (auto simp: k_def)
    then show ?thesis by (simp add: j_def OPENSSL_memchr_def)
  qed
  then show "mb_num bio' = mb_num bio" "mb_shutdown bio' = mb_shutdown bio" "rdonly bio \<longrightarrow> bm_data (mb_buf bio') = bm_data (mb_buf bio)"
    "mb_flags bio' AND BIO_FLAGS_SHOULD_RETRY = 0"
    using mem_read_frame [OF r] b by auto
qed

lemma mem_write_frame:
  assumes "mem_write al bs bio = (ret, bio')"
  shows "mb_num bio' = mb_num bio" "mb_shutdown bio' = mb_shutdown bio" "rdonly bio \<longrightarrow> bm_data (mb_buf bio') = bm_data (mb_buf bio)"
    "mb_flags bio' AND BIO_FLAGS_SHOULD_RETRY = 0"
  using assms
  by (auto simp: mem_write_def Let_def mem_clear_retry_def flags_keep_rdonly retry_cleared and.assoc split: if_splits prod.splits bool.splits)

lemma append_refused:
  assumes "buf_ok b" "fst (BUF_MEM_append al bs b) = False" "length bs < SIZE_MOD"
  shows "may_refuse al (bm_length b + length bs)"
proof (rule ccontr)
  assume n: "\<not> may_refuse al (bm_length b + length bs)"
  let ?n = "bm_length b + length bs"
  have lt: "?n < 2 ^ 61" and al: "al ((?n + 3) div 3 * 4)" using n by (simp_all add: may_refuse_def)
  have s: "size_add (bm_length b) (length bs) = ?n" "size_add ?n 3 = ?n + 3" using lt by (simp_all add: size_add_def SIZE_MOD_def)
  have m: "(?n + 3) div 3 * 4 mod SIZE_MOD = (?n + 3) div 3 * 4" using lt by (simp add: SIZE_MOD_def)
  have "fst (BUF_MEM_reserve al ?n b)" unfolding BUF_MEM_reserve_def Let_def s m using al by simp
  then show False using assms(2) unfolding BUF_MEM_append_def Let_def s by (cases "BUF_MEM_reserve al ?n b") (auto split: if_splits)
qed

section \<open>One call\<close>

lemma abs_counts:
  "mem_abs (bio\<lparr>mb_num_read := v\<rparr>) = mem_abs bio" "mem_abs (bio\<lparr>mb_num_write := v\<rparr>) = mem_abs bio"
  by (simp_all add: mem_abs_def BIO_mem_contents_def mem_data_def)

lemma mem_init: "mem_ok bio \<Longrightarrow> mb_init bio"
  by (simp add: mem_ok_def)

definition goes :: "mem_op \<Rightarrow> mem_bio \<Rightarrow> mem_res \<Rightarrow> mem_bio \<Rightarrow> bool" where
  "goes c bio r bio' \<longleftrightarrow> mem_ok bio' \<and> rdonly bio' = rdonly bio \<and> (r, mem_abs bio') \<in> set (outcomes c (mem_abs bio))"

lemma read_goes:
  assumes ok: "mem_ok bio" and r: "mem_BIO_read n bio = (ret, bs, bio')"
  shows "goes (M_read n) bio (Got ret bs) bio'"
proof (cases "n \<le> 0")
  case True
  then show ?thesis using r ok mem_init [OF ok] by (simp add: mem_BIO_read_def goes_def)
next
  case False
  obtain q out b where w: "mem_read n bio = (q, out, b)" using prod_cases3 by blast
  have e: "ret = q" "bs = out" "bio' = (if q > 0 then b\<lparr>mb_num_read := mb_num_read b + word_of_int q\<rparr> else b)"
    using r False w mem_init [OF ok] by (auto simp: mem_BIO_read_def)
  have keep: "mem_abs bio' = mem_abs b" "mem_ok bio' = mem_ok b" "rdonly bio' = rdonly b"
    unfolding e(3) by (simp_all add: abs_counts count_keeps)
  note f = mem_read_frame [OF w]
  have z: "bm_length (mb_buf bio) = 0 \<longleftrightarrow> BIO_mem_contents bio = []" using contents_length [OF ok] by (metis length_0_conv)
  show ?thesis
  proof (cases "BIO_mem_contents bio = []")
    case True
    have n: "0 < n" using False by simp
    note k = mem_read_empty [OF ok n True w]
    have "mem_abs b = (mem_abs bio)\<lparr>ms_retry := (mb_num bio \<noteq> 0)\<rparr>" using k f z True n by (auto simp: mem_abs_def)
    then show ?thesis using k keep True False e(1,2) by (simp add: goes_def) (simp add: mem_abs_def)
  next
    case c: False
    have n: "0 < n" using False by simp
    note k = mem_read_takes [OF ok n c w]
    have len: "ret = int (length bs)" "bs = take (nat n) (BIO_mem_contents bio)" "drop (length bs) (BIO_mem_contents bio) = drop (nat n) (BIO_mem_contents bio)"
      using k unfolding e(1,2) by (auto simp: min_def)
    have "mem_abs b = (mem_abs bio)\<lparr>ms_bytes := drop (nat n) (BIO_mem_contents bio), ms_retry := False\<rparr>" using k f z c by (auto simp: mem_abs_def)
    then have "(Got ret bs, mem_abs b) = took bs (mem_abs bio)" using len by (simp add: took_def) (simp add: mem_abs_def)
    then show ?thesis using k keep c False len(2) by (simp add: goes_def) (simp add: mem_abs_def)
  qed
qed

lemma gets_goes:
  assumes ok: "mem_ok bio" and r: "mem_BIO_gets n bio = (ret, bs, bio')"
  shows "goes (M_gets n) bio (Got ret bs) bio'"
proof (cases "n \<le> 0")
  case True
  then show ?thesis using r ok mem_init [OF ok] by (simp add: mem_BIO_gets_def goes_def)
next
  case False
  obtain q out b where w: "mem_gets n bio = (q, out, b)" using prod_cases3 by blast
  have e: "ret = q" "bs = out" "bio' = (if q > 0 then b\<lparr>mb_num_read := mb_num_read b + word_of_int q\<rparr> else b)"
    using r False w mem_init [OF ok] by (auto simp: mem_BIO_gets_def)
  have keep: "mem_abs bio' = mem_abs b" "mem_ok bio' = mem_ok b" "rdonly bio' = rdonly b"
    unfolding e(3) by (simp_all add: abs_counts count_keeps)
  have n: "0 < n" using False by simp
  note f = mem_gets_frame [OF w ok n]
  have k: "out = first_line (nat (n - 1)) (BIO_mem_contents bio) \<and> q = int (length out) \<and> mem_ok b \<and>
    BIO_mem_contents bio = out @ BIO_mem_contents b \<and> rdonly b = rdonly bio"
  proof (cases "n = 1")
    case False
    then have "1 < n" using n by simp
    then show ?thesis by (rule mem_gets_line [OF ok _ w])
  next
    case True
    then have "(q, out, b) = (0, [], mem_clear_retry (mem_clear_retry bio))" using w by (simp add: mem_gets_def mem_read_def Let_def OPENSSL_memchr_def)
    then show ?thesis using ok True by (simp add: clear_retry_keeps first_line_def)
  qed
  then have k1: "first_line (nat (n - 1)) (BIO_mem_contents bio) = out" "q = int (length out)" "mem_ok b" "rdonly b = rdonly bio"
    and d: "BIO_mem_contents b = drop (length out) (BIO_mem_contents bio)" by (blast, blast, blast, blast, metis append_eq_conv_conj)
  have "mem_abs b = (mem_abs bio)\<lparr>ms_bytes := drop (length out) (BIO_mem_contents bio), ms_retry := False\<rparr>"
    using k1(4) f d by (auto simp: mem_abs_def)
  then have t: "(Got ret bs, mem_abs b) = took out (mem_abs bio)" using k1(2) e(1,2) by (simp add: took_def) (simp add: mem_abs_def)
  have o1: "outcomes (M_gets n) (mem_abs bio) = [took out (mem_abs bio)]" using n k1(1) by (simp add: mem_abs_def)
  show ?thesis unfolding goes_def keep o1 t [symmetric] using k1(3,4) by simp
qed

lemma write_goes:
  assumes ok: "mem_ok bio" and n: "length bs \<le> INT_MAX" and r: "mem_BIO_write al bs bio = (ret, bio')"
  shows "goes (M_write al bs) bio (Ret ret) bio'"
proof (cases "bs = []")
  case True
  then show ?thesis using r ok mem_init [OF ok] by (simp add: mem_BIO_write_def goes_def)
next
  case False
  obtain q b where w: "mem_write al bs bio = (q, b)" by fastforce
  have e: "ret = q" "bio' = (if q > 0 then b\<lparr>mb_num_write := mb_num_write b + word_of_int q\<rparr> else b)"
    using r False w mem_init [OF ok] by (auto simp: mem_BIO_write_def)
  have keep: "mem_abs bio' = mem_abs b" "mem_ok bio' = mem_ok b" "rdonly bio' = rdonly b"
    unfolding e(2) by (simp_all add: abs_counts count_keeps)
  have sz: "length bs < SIZE_MOD" using n by (simp add: INT_MAX_def SIZE_MOD_def)
  note k = mem_write_appends [OF ok sz w] and f = mem_write_frame [OF w]
  have refused: "may_refuse al (length (BIO_mem_contents bio @ bs))" if "q = -1" "\<not> rdonly bio"
  proof -
    have bo: "buf_ok (mb_buf bio)" using ok that(2) by (simp add: mem_ok_def)
    obtain ok1 b1 where a: "BUF_MEM_append al bs (mb_buf bio) = (ok1, b1)" by fastforce
    have "\<not> ok1" using w that False a unfolding mem_write_def Let_def clear_retry_keeps by (auto split: if_splits)
    then show ?thesis using append_refused [OF bo _ sz] a contents_length [OF ok] by simp
  qed
  have "mem_abs b = (mem_abs bio)\<lparr>ms_bytes := BIO_mem_contents bio @ (if q = -1 then [] else bs), ms_retry := False\<rparr>"
    using k f by (auto simp: mem_abs_def)
  moreover have "q = -1" if "rdonly bio" using that k False by auto
  ultimately show ?thesis using k keep False e(1) refused by (auto simp: goes_def mem_abs_def)
qed

lemma reset_goes:
  assumes ok: "mem_ok bio"
  shows "goes (M_ctrl CTRL_RESET) bio (Ret 1) (snd (mem_ctrl CTRL_RESET bio))"
proof (cases "rdonly bio")
  case True
  then have l: "length (bm_data (mb_buf bio)) = bm_max (mb_buf bio)" "mb_pos bio + bm_length (mb_buf bio) = bm_max (mb_buf bio)"
    using ok by (simp_all add: mem_ok_def)
  then have "mb_pos bio - (bm_max (mb_buf bio) - bm_length (mb_buf bio)) = 0" by simp
  then show ?thesis using True l ok
    by (cases "bm_data (mb_buf bio) = []") (simp_all add: goes_def mem_ok_def mem_abs_def BIO_mem_contents_def mem_data_def)
next
  case False
  then have b: "buf_ok (mb_buf bio)" "mb_pos bio = 0" using ok by (simp_all add: mem_ok_def)
  then show ?thesis using False ok
    by (cases "bm_data (mb_buf bio) = []") (auto simp: goes_def mem_ok_def mem_abs_def BIO_mem_contents_def mem_data_def buf_ok_def)
qed

lemma exchange_goes:
  assumes ok: "mem_ok bio" and b: "buf_ok b" "rdonly bio \<longrightarrow> bm_length b = bm_max b"
  shows "goes (M_ctrl (SET_BUF_MEM n b)) bio (Ret 1) (snd (mem_ctrl (SET_BUF_MEM n b) bio))"
  using assms by (auto simp: goes_def mem_ok_def mem_abs_def BIO_mem_contents_def mem_data_def buf_ok_def buf_bytes_def)

lemma ctrl_goes:
  assumes ok: "mem_ok bio" and c: "call_ok (rdonly bio) (M_ctrl cmd)"
  shows "goes (M_ctrl cmd) bio (Ret (fst (mem_ctrl cmd bio))) (snd (mem_ctrl cmd bio))"
proof -
  have len: "int (bm_length (mb_buf bio)) = int (length (BIO_mem_contents bio))" "bm_length (mb_buf bio) = 0 \<longleftrightarrow> BIO_mem_contents bio = []"
    using contents_length [OF ok] by auto
  have other: "goes (M_ctrl cmd) bio (Ret (fst (mem_ctrl cmd bio))) (snd (mem_ctrl cmd bio))" if "\<not> replaces cmd"
  proof -
    have "BIO_mem_contents (bio\<lparr>mb_num := v\<rparr>) = BIO_mem_contents bio" "BIO_mem_contents (bio\<lparr>mb_shutdown := v\<rparr>) = BIO_mem_contents bio" for v
      by (simp_all add: BIO_mem_contents_def mem_data_def)
    then show ?thesis using mem_ctrl_keeps [OF ok that] that unfolding goes_def
      by (cases cmd) (simp_all add: mem_abs_def len)
  qed
  show ?thesis
  proof (cases "replaces cmd")
    case True
    then show ?thesis using reset_goes [OF ok] exchange_goes [OF ok] c by (cases cmd) auto
  qed (rule other)
qed

lemma exec_goes:
  assumes "mem_ok bio" "call_ok (rdonly bio) c" "mem_exec c bio = (r, bio')"
  shows "goes c bio r bio'"
proof (cases c)
  case (M_read n)
  then show ?thesis using assms read_goes by (auto split: prod.splits)
next
  case (M_gets n)
  then show ?thesis using assms gets_goes by (auto split: prod.splits)
next
  case (M_write al bs)
  obtain ret b where w: "mem_BIO_write al bs bio = (ret, b)" by fastforce
  have "length bs \<le> INT_MAX" using assms(2) M_write by simp
  then show ?thesis using assms(3) M_write w write_goes [OF assms(1) _ w] by auto
next
  case (M_ctrl cmd)
  then show ?thesis using assms ctrl_goes [OF assms(1), of cmd] by (cases "mem_ctrl cmd bio") auto
qed

section \<open>Runs\<close>

text \<open>
  C18. A memory BIO refines its specification.  Over every run of reads, reads of lines, writes and control calls of
  any kind, from any state and with any memory refused, every result is one the abstract BIO allows: reads take what
  is first in the queue, writes go to its end and are refused only on a read-only BIO or without memory, a reset
  empties a BIO that is written and takes a read-only one back to all it was made from, an exchanged buffer is read
  from its start, and the end of the bytes gives the value set for it, with the flag to retry when that is not 0.
\<close>

theorem mem_bio_refines:
  assumes "mem_ok bio" "list_all (call_ok (rdonly bio)) cs" "mem_run cs bio = (rs, bio')"
  shows "mem_ok bio' \<and> (rs, mem_abs bio') \<in> set (spec_runs cs (mem_abs bio))"
  using assms
proof (induction cs arbitrary: bio rs)
  case Nil
  then show ?case by simp
next
  case (Cons c cs)
  obtain r b where r: "mem_exec c bio = (r, b)" by fastforce
  obtain qs b2 where "mem_run cs b = (qs, b2)" by fastforce
  then have q: "mem_run cs b = (qs, bio')" "rs = r # qs" using Cons.prems(3) r by simp_all
  have g: "mem_ok b" "rdonly b = rdonly bio" "(r, mem_abs b) \<in> set (outcomes c (mem_abs bio))"
    using exec_goes [OF Cons.prems(1) _ r] Cons.prems(2) by (simp_all add: goes_def)
  have l: "list_all (call_ok (rdonly b)) cs" using Cons.prems(2) unfolding g(2) by simp
  from Cons.IH [OF g(1) l q(1)] g(3) show ?case unfolding q(2) by (force simp: map_prod_def split_def)
qed

theorem mem_bio_refines_witness:
  "\<exists>bio'. mem_run [M_read 2, M_write (\<lambda>_. True) [7], M_ctrl CTRL_RESET, M_read 1, M_ctrl (SET_BUF_MEM 0 \<lparr>bm_length = 1, bm_data = [9, 0], bm_max = 2\<rparr>), M_gets 5]
       sample_mem_bio = ([Got 2 [65, 10], Ret 1, Ret 1, Got (-1) [], Ret 1, Got 1 [9]], bio') \<and> BIO_mem_contents bio' = []"
proof -
  let ?cs = "[M_read 2, M_write (\<lambda>_. True) [7], M_ctrl CTRL_RESET, M_read 1, M_ctrl (SET_BUF_MEM 0 \<lparr>bm_length = 1, bm_data = [9, 0], bm_max = 2\<rparr>), M_gets 5]"
  obtain rs bio' where r: "mem_run ?cs sample_mem_bio = (rs, bio')" by fastforce
  have ro: "\<not> rdonly sample_mem_bio" by (simp add: sample_mem_bio_def)
  then have "list_all (call_ok (rdonly sample_mem_bio)) ?cs" by (simp add: buf_ok_def SIZE_MOD_def INT_MAX_def)
  from mem_bio_refines [OF sample_mem_bio_ok(1) this r] have m: "(rs, mem_abs bio') \<in> set (spec_runs ?cs (mem_abs sample_mem_bio))" by blast
  have a: "mem_abs sample_mem_bio = \<lparr>ms_bytes = [65, 10, 66], ms_all = None, ms_eof = -1, ms_close = 1, ms_retry = False\<rparr>"
    using ro by (simp add: mem_abs_def sample_mem_bio_ok) (simp add: sample_mem_bio_def)
  have "rs = [Got 2 [65, 10], Ret 1, Ret 1, Got (-1) [], Ret 1, Got 1 [9]] \<and> ms_bytes (mem_abs bio') = []"
    using m unfolding a by (simp add: took_def may_refuse_def first_line_def buf_bytes_def)
  then show ?thesis using r by (simp add: mem_abs_def)
qed

end
