(* ===== verification/Spec2Isabelle.thy ===== *)
theory Spec2Isabelle
  imports DerProps BerProps Unicode CbsTime ConstTime Base64Stream StackProps BioPairProps ConfProps ConfList BioAsn1 MemBioProps
begin

text \<open>
  A verification development for C code of the repository.

  The program.  The repository is a mobile application for booking home services.  Its own screens are
  Dart (\<^verbatim>\<open>lib/\<close>) and run on Flutter; the C of the repository is in the libraries that the iOS application
  builds from source under \<^verbatim>\<open>ios/Pods\<close>.  Firestore reaches its server through gRPC, and gRPC does its
  cryptography and parses certificates with \<^verbatim>\<open>BoringSSL-GRPC\<close>.  This development models the layer of that
  library on which the rest stands: parsing and building byte strings and ASN.1, time, base64, and the
  containers and streams.  All paths below are under \<^verbatim>\<open>src/ios/Pods/BoringSSL-GRPC/src/crypto\<close>.

  How the parts interact.  The DER reader (\<^verbatim>\<open>CBS\<close>) and the builder (\<^verbatim>\<open>CBB\<close>) are inverse to each other; the
  converter from BER, the readers and writers of code points and the text form of object identifiers are
  written with both.  The time parser reads through a \<^verbatim>\<open>CBS\<close> and validates with \<^verbatim>\<open>posix_time.c\<close>.  Base64 does
  its digits with the branch-free primitives.  A memory BIO is a growing buffer behind the calls of \<^verbatim>\<open>bio.c\<close>, to
  which the BIO pair is the other provider modelled here.  The configuration store owns two hash tables and a
  stack for every section, duplicates strings with \<^verbatim>\<open>mem.c\<close>, and reads its files line by line from a BIO.

  Theories and sources.
  \<^item> \<open>Prelude\<close>: words, sizes, big-endian and little-endian numbers, the collection \<open>word_nat\<close>.
  \<^item> \<open>Cbs\<close>, \<open>CbsDer\<close>, \<open>DerTypes\<close>: \<^verbatim>\<open>bytestring/cbs.c\<close>.  A \<^verbatim>\<open>CBS\<close> is the list of bytes it has left; a reader gives
    \<open>None\<close> on failure or its result and the rest.  The locales \<open>cbs_reader\<close> and \<open>cbs_strict_reader\<close> say that a
    reader consumes a prefix.
  \<^item> \<open>Cbb\<close>, \<open>CbbOps\<close>, \<open>CbbDer\<close>, \<open>CbbOid\<close>, \<open>CbbSet\<close>, \<open>CbbProg\<close>: \<^verbatim>\<open>bytestring/cbb.c\<close>.  The buffer, the open
    children with their pending length fields, and the flag of an earlier error are a record; the locale
    \<open>cbb_writer\<close> is the contract of a writing operation, and \<open>CbbProg\<close> refines a stack of byte lists.
  \<^item> \<open>Ber\<close>, \<open>BerProps\<close>: \<^verbatim>\<open>bytestring/ber.c\<close>; \<open>Unicode\<close>: \<^verbatim>\<open>bytestring/unicode.c\<close>; \<open>DerProps\<close>: reader and writer together.
  \<^item> \<open>PosixTime\<close>: \<^verbatim>\<open>asn1/posix_time.c\<close>; \<open>CbsTime\<close>: the time parsers of \<^verbatim>\<open>cbs.c\<close>.
  \<^item> \<open>ConstTime\<close>: the primitives of \<^verbatim>\<open>internal.h\<close> and \<^verbatim>\<open>CRYPTO_memcmp\<close>; \<open>Base64\<close>, \<open>Base64Stream\<close>: \<^verbatim>\<open>base64/base64.c\<close>.
  \<^item> \<open>Stack\<close>, \<open>StackSort\<close>, \<open>StackProps\<close>: \<^verbatim>\<open>stack/stack.c\<close>, the heap sort proved in the locale \<open>comparator\<close>.
  \<^item> \<open>BioPair\<close>, \<open>BioStore\<close>, \<open>BioPairProps\<close>: \<^verbatim>\<open>bio/pair.c\<close> and the calls of \<^verbatim>\<open>bio/bio.c\<close>, on a store from addresses to
    BIOs, since two BIOs point to each other; the locale \<open>byte_channel\<close> is a queue of bytes.
  \<^item> \<open>CString\<close>: the string helpers of \<^verbatim>\<open>mem.c\<close>; \<open>MemBio\<close>: \<^verbatim>\<open>buf/buf.c\<close> and \<^verbatim>\<open>bio/bio_mem.c\<close>, a second \<open>byte_channel\<close>;
    \<open>MemBioProps\<close> refines it to an abstract BIO under every call, the control calls included.
  \<^item> \<open>BioAsn1\<close>: \<^verbatim>\<open>BIO_read_asn1\<close> of \<^verbatim>\<open>bio/bio.c\<close>, over the locale \<open>byte_source\<close>, which memory BIOs and pairs interpret.
  \<^item> \<open>Lhash\<close>, \<open>LhashChain\<close>, \<open>LhashInv\<close>, \<open>LhashProps\<close>: \<^verbatim>\<open>lhash/lhash.c\<close> on a heap of items, where the search gives
    the place of a pointer as the C code does; the locale \<open>lhash_key\<close> is a hash and a comparison that agree.
  \<^item> \<open>Conf\<close>, \<open>ConfInv\<close>: the store of \<^verbatim>\<open>conf/conf.c\<close>; \<open>ConfParse\<close> its reader; \<open>ConfScan\<close>, \<open>ConfLoad\<close>, \<open>ConfRun\<close>, \<open>ConfText\<close>,
    \<open>ConfProps\<close> what the scanners, a line, a file and the text form mean; \<open>ConfList\<close> the lists in values.

  What the lemmas show.  Round trips: elements, integers, object identifiers, code points, base64 and
  configuration files are read back as written.  Exactness: the readers accept exactly the distinguished
  encodings, the printed times, the base64 texts.  Refinement: a builder is a stack of byte lists, a stack a
  list, a hash table a map, a BIO a queue, over any sequence of operations.  Invariants: those of the stores of
  BIOs, of hash tables, of sorted stacks and of configuration stores.  Safety: freeing leaves nothing and
  nothing freed is used.  Termination, progress and bounds are stated where the loops are not structural.

  Conventions.  A C function that can fail returns an option; where an access through a pointer could leave
  the object or meet a freed one, the model has a further \<open>None\<close> and the theorems show that it is not met.
  Loops that are not structural are recursive functions with a measure or, when they follow pointers or depend
  on a BIO, \<open>partial_function (option)\<close> with the theorem that they return.  Sizes are natural numbers with the
  wrap-around at \<open>SIZE_MOD\<close> (2 to the 64) written out, words have their C width, and \<^verbatim>\<open>int\<close> arguments are integers with
  the range checks of the code.  The configuration reader counts bytes in an \<^verbatim>\<open>int\<close>: the length of a string to be copied is
  cut to 32 bits as in the code, and a count that would leave its range is \<open>None\<close>; its theorem shows that this
  does not happen on files below 1 GiB.  An allocator is a function that grants or refuses a request by its size, so
  that failing requests are covered by every theorem that does not say otherwise.  Where one operation makes several
  requests of one size, every call has its own allocator: a hash table has one for every number of calls, and the
  reader of configuration files a \<open>memory\<close>, which has one for every path in the tree of its calls.  The stores that live in
  maps take fresh addresses from a counter.  No definition has fuel of its own: the depth of BER counts down from
  the code's limit of 128, and what a loop reads or frees gets shorter.

  Not modelled.  Errors go to a queue in \<^verbatim>\<open>err.c\<close>, of which only the fact of failure is kept.  Reading from the
  file system, locks, reference counts above one and user-defined BIO methods are left out, and so are memory
  barriers, which have no meaning for values.  The cryptographic algorithms, certificates and the TLS of the library, the
  other libraries, which are C++, Objective-C and Swift, and generated tables are outside this development.
\<close>

section \<open>Across components\<close>

lemma der_enc_integer_length: "length c \<le> 9 \<Longrightarrow> length (der_enc CBS_ASN1_INTEGER c) \<le> 11"
  by (simp add: der_enc_def tag_enc_def tag_number_def CBS_ASN1_INTEGER_def len_enc_def)

lemma body_lengths: "length (uint64_body v) \<le> 9" "length (int64_body v) \<le> 9"
  using uint_body_length [of "be_bytes 8 (unat v)"] trim_neg_length(1) [of "be_bytes 8 (unat v)"]
  by (simp_all add: uint64_body_def int64_body_def)

text \<open>
  C24. An integer written into a growing root is read back: the builder appends an element from
  which \<^verbatim>\<open>CBS_get_asn1_uint64\<close> (or \<^verbatim>\<open>CBS_get_asn1_int64\<close> for the signed writer) returns the value
  and leaves exactly what follows it.
\<close>

theorem asn1_integer_roundtrip:
  assumes "root_has w bs" and "length bs + 11 < SIZE_MOD"
  shows "(\<exists>w' e. CBB_add_asn1_uint64 w 0 v = (True, w') \<and> root_has w' (bs @ e) \<and>
      CBS_get_asn1_uint64 (e @ rest) = (Some v, rest)) \<and>
    (\<exists>w' e. CBB_add_asn1_int64 w 0 v = (True, w') \<and> root_has w' (bs @ e) \<and>
      CBS_get_asn1_int64 (e @ rest) = (Some v, rest))"
proof -
  have "length bs + length (der_enc CBS_ASN1_INTEGER (uint64_body v)) < SIZE_MOD"
    "length bs + length (der_enc CBS_ASN1_INTEGER (int64_body v)) < SIZE_MOD"
    using der_enc_integer_length body_lengths assms(2) by (meson add_left_mono le_less_trans)+
  then show ?thesis
    using uint64_writer.root_step [OF assms(1) TrueI, of v] int64_writer.root_step [OF assms(1) TrueI, of v]
      uint64_body_value [of v] int64_body_value [of v] body_lengths [of v]
    by (fastforce simp: CBS_get_asn1_uint64_iff CBS_get_asn1_int64_iff)
qed

theorem asn1_integer_roundtrip_witness:
  "root_has sample_root [] \<and>
   (\<exists>w' e. CBB_add_asn1_uint64 sample_root 0 300 = (True, w') \<and> root_has w' ([] @ e) \<and>
      CBS_get_asn1_uint64 (e @ [7]) = (Some 300, [7]))"
  using sample_root_has asn1_integer_roundtrip [OF sample_root_has, of 300 "[7]"] by (simp add: SIZE_MOD_def)

end
